(* ===== verification/Prelude.thy ===== *)
theory Prelude
  imports Complex_Main "HOL-Library.Word" "HOL-Library.Multiset"
begin

text \<open>
  Shared vocabulary of the development: collections of rewrite rules, the C and
  GLib idioms the components use (truncating string copies, stable list sorting
  with a three-way comparison), single-precision comparisons, and the two
  interfaces every component relies on: a comparison function that agrees with a
  key, and a transition system with an invariant.
\<close>

named_theorems dt_invs \<open>an operation keeps the invariant of its component\<close>
named_theorems dt_frames \<open>what an operation leaves unchanged\<close>


section \<open>C idioms\<close>

text \<open>\<open>INT_MAX\<close> and \<open>INT_MIN\<close> of a 32-bit \<open>int\<close>.\<close>

abbreviation INT_MAX :: int where
  "INT_MAX \<equiv> 2147483647"

abbreviation INT_MIN :: int where
  "INT_MIN \<equiv> - 2147483648"

text \<open>
  \<open>g_strlcpy (dst, src, n)\<close> keeps at most \<open>n - 1\<close> characters and terminates
  the result.
\<close>

definition strlcpy :: "nat \<Rightarrow> string \<Rightarrow> string" where
  "strlcpy n s = take (n - 1) s"

lemma strlcpy_fits [simp]: "length s < n \<Longrightarrow> strlcpy n s = s"
  by (simp add: strlcpy_def)

lemma length_strlcpy: "0 < n \<Longrightarrow> length (strlcpy n s) < n"
  by (auto simp: strlcpy_def)


text \<open>A 32-bit signed value that is in range is itself.\<close>

lemma sint_word32_in_range:
  "INT_MIN \<le> k \<Longrightarrow> k \<le> INT_MAX \<Longrightarrow> sint (word_of_int k :: 32 word) = k"
  by (simp add: sint_sbintrunc' signed_take_bit_int_eq_self)


text \<open>The bytes of a little-endian integer of \<open>n\<close> bytes.\<close>

definition le_bytes :: "nat \<Rightarrow> 'a::len word \<Rightarrow> 8 word list" where
  "le_bytes n w = map (\<lambda>i. ucast (drop_bit (8 * i) w)) [0..<n]"

text \<open>Reading a little-endian \<open>int32_t\<close>.\<close>

definition le_int32 :: "8 word list \<Rightarrow> int" where
  "le_int32 bs = sint (word_of_int (foldr (\<lambda>b n. uint b + 256 * n) bs 0) :: 32 word)"

lemma length_le_bytes [simp]: "length (le_bytes n w) = n"
  by (simp add: le_bytes_def)

lemma le_int32_le_bytes [simp]: "le_int32 (le_bytes 4 w) = sint w" for w :: "32 word"
proof -
  let ?n = "uint w"
  have b: "uint (ucast (drop_bit k w) :: 8 word) = ?n div 2 ^ k mod 256" for k
    using uint_lt2p [of w]
    by (simp add: unsigned_ucast_eq unsigned_drop_bit_eq take_bit_eq_mod flip: drop_bit_eq_div)
  have split: "m = m mod 256 + 256 * (m div 256)" for m :: int by simp
  have n: "?n < 256 ^ 4" using uint_lt2p [of w] by simp
  have d: "?n div 65536 = ?n div 256 div 256" "?n div 16777216 = ?n div 256 div 256 div 256"
    by (simp_all add: zdiv_zmult2_eq [symmetric])
  have top: "?n div 256 div 256 div 256 mod 256 = ?n div 256 div 256 div 256"
    using n by (intro mod_pos_pos_trivial) (simp_all add: zdiv_zmult2_eq [symmetric] pos_imp_zdiv_nonneg_iff div_less_iff_less_mult)
  have "foldr (\<lambda>b n. uint b + 256 * n) (le_bytes 4 w) 0 = ?n"
    using b [of 0] split [of ?n] split [of "?n div 256"] split [of "?n div 256 div 256"]
    by (simp add: le_bytes_def b upt_rec d top)
  then show ?thesis by (simp add: le_int32_def)
qed

text \<open>
  The outcome of a function that may dereference a null pointer or access memory outside
  an object (\<open>Undefined\<close>), or return.
\<close>

datatype 'a cres = Undefined | Ret 'a


section \<open>Lists\<close>

lemma filter_update_inv:
  "i < length xs \<Longrightarrow> sum_list (map f (xs[i := x])) + f (xs ! i) = sum_list (map f xs) + f x"
  for f :: "'a \<Rightarrow> nat"
proof (induction xs arbitrary: i)
  case (Cons a xs)
  then show ?case by (cases i) (auto simp: algebra_simps)
qed simp

lemma sum_list_update_nat:
  fixes f :: "'a \<Rightarrow> nat"
  assumes "i < length xs"
  shows "sum_list (map f (xs[i := x])) = sum_list (map f xs) - f (xs ! i) + f x"
proof -
  have "f (xs ! i) \<le> sum_list (map f xs)"
    using assms by (simp add: member_le_sum_list)
  with filter_update_inv [OF assms, of f x] show ?thesis by linarith
qed

lemma sum_list_map_cong:
  "(\<And>x. x \<in> set xs \<Longrightarrow> f x = g x) \<Longrightarrow> sum_list (map f xs) = sum_list (map g xs)"
  by (intro arg_cong [of _ _ sum_list] map_cong refl)

lemma nth_le_sum_list:
  "i < length xs \<Longrightarrow> f (xs ! i) \<le> sum_list (map f xs)"
  for f :: "'a \<Rightarrow> nat"
  by (simp add: member_le_sum_list)


section \<open>Single-precision comparisons\<close>

text \<open>
  A \<open>size_t\<close> in a \<open>float\<close> expression is rounded to 24 significant bits, to
  nearest, ties to even. The ratios the sources use lie between 0 and 1 and are
  integers \<open>m\<close> times \<open>2 ^ -24\<close>; products are kept scaled by \<open>2 ^ 24\<close>, which does not
  change how they round.
\<close>

fun bit_len :: "nat \<Rightarrow> nat" where
  "bit_len n = (if n = 0 then 0 else Suc (bit_len (n div 2)))"

declare bit_len.simps [simp del]

definition f32_round :: "nat \<Rightarrow> nat" where
  "f32_round n =
     (if bit_len n \<le> 24 then n
      else let sh = bit_len n - 24; q = n div 2 ^ sh; r = n mod 2 ^ sh; half = 2 ^ (sh - 1)
           in (if half < r \<or> (r = half \<and> odd q) then q + 1 else q) * 2 ^ sh)"

text \<open>\<open>n * ratio\<close> in single precision, times \<open>2 ^ 24\<close>.\<close>

definition f32_scaled :: "nat \<Rightarrow> nat \<Rightarrow> nat" where
  "f32_scaled m n = f32_round (f32_round n * m)"

text \<open>\<open>a < b * ratio\<close> and \<open>a > ratio * b\<close>.\<close>

definition f32_below :: "nat \<Rightarrow> nat \<Rightarrow> nat \<Rightarrow> bool" where
  "f32_below m a b \<longleftrightarrow> f32_round a * 2 ^ 24 < f32_scaled m b"

definition f32_above :: "nat \<Rightarrow> nat \<Rightarrow> nat \<Rightarrow> bool" where
  "f32_above m a b \<longleftrightarrow> f32_scaled m b < f32_round a * 2 ^ 24"

text \<open>\<open>0.8f\<close>.\<close>

definition f32_0_8 :: nat where
  "f32_0_8 = 13421773"

lemma bit_len_le: "n < 2 ^ k \<Longrightarrow> bit_len n \<le> k"
proof (induction n arbitrary: k rule: bit_len.induct)
  case (1 n)
  show ?case
  proof (cases "n = 0")
    case False
    with 1 have "k \<noteq> 0" by (cases k) auto
    then obtain j where "k = Suc j" by (cases k) auto
    with 1 False show ?thesis by (subst bit_len.simps) (auto simp: less_mult_imp_div_less)
  qed (simp add: bit_len.simps)
qed

lemma f32_round_exact [simp]: "n < 2 ^ 24 \<Longrightarrow> f32_round n = n"
  by (simp add: f32_round_def bit_len_le)


section \<open>Sorting a GList\<close>

text \<open>
  GLib documents \<open>g_list_sort\<close> as a stable sort by a three-way comparison
  function. A stable insertion sort computes its result.
\<close>

fun glist_insort :: "('a \<Rightarrow> 'a \<Rightarrow> int) \<Rightarrow> 'a \<Rightarrow> 'a list \<Rightarrow> 'a list" where
  "glist_insort cmp x [] = [x]"
| "glist_insort cmp x (y # ys) =
     (if cmp x y \<le> 0 then x # y # ys else y # glist_insort cmp x ys)"

definition g_list_sort :: "('a \<Rightarrow> 'a \<Rightarrow> int) \<Rightarrow> 'a list \<Rightarrow> 'a list" where
  "g_list_sort cmp xs = foldr (glist_insort cmp) xs []"

lemma glist_insort_mset [simp]: "mset (glist_insort cmp x xs) = add_mset x (mset xs)"
  by (induction xs) auto

lemma mset_g_list_sort [simp]: "mset (g_list_sort cmp xs) = mset xs"
  unfolding g_list_sort_def by (induction xs) auto

lemma set_g_list_sort [simp]: "set (g_list_sort cmp xs) = set xs"
  by (rule mset_eq_setD) simp

lemma length_g_list_sort [simp]: "length (g_list_sort cmp xs) = length xs"
  by (rule mset_eq_length) simp

text \<open>
  The contract of a comparison function on the elements a caller sorts: its sign
  is the order of a key.
\<close>

locale gcompare =
  fixes cmp :: "'a \<Rightarrow> 'a \<Rightarrow> int"
    and key :: "'a \<Rightarrow> 'k::linorder"
    and dom_ok :: "'a \<Rightarrow> bool"
  assumes cmp_le: "dom_ok x \<Longrightarrow> dom_ok y \<Longrightarrow> cmp x y \<le> 0 \<longleftrightarrow> key x \<le> key y"
begin

lemma insort_is_insort_key:
  "dom_ok x \<Longrightarrow> \<forall>y\<in>set xs. dom_ok y \<Longrightarrow> glist_insort cmp x xs = insort_key key x xs"
  by (induction xs) (auto simp: cmp_le)

lemma sort_is_sort_key:
  "\<forall>y\<in>set xs. dom_ok y \<Longrightarrow> g_list_sort cmp xs = sort_key key xs"
proof (induction xs)
  case (Cons x xs)
  then show ?case
    by (simp add: g_list_sort_def sort_key_def insort_is_insort_key
        flip: sort_key_def)
qed (simp add: g_list_sort_def)

text \<open>The documented contract of the library function: sorted and stable.\<close>

lemma sort_sorted: "\<forall>y\<in>set xs. dom_ok y \<Longrightarrow> sorted (map key (g_list_sort cmp xs))"
  by (simp add: sort_is_sort_key)

lemma sort_stable:
  "\<forall>y\<in>set xs. dom_ok y \<Longrightarrow>
    filter (\<lambda>y. key y = k) (g_list_sort cmp xs) = filter (\<lambda>y. key y = k) xs"
  by (simp add: sort_is_sort_key sort_key_stable)

text \<open>
  Those two laws leave no choice: every function that keeps them computes what
  \<open>g_list_sort\<close> computes.
\<close>

lemma sort_unique:
  assumes "\<forall>y\<in>set xs. dom_ok y" and "mset ys = mset xs" and "sorted (map key ys)"
    and "\<And>k. filter (\<lambda>y. key y = k) ys = filter (\<lambda>y. key y = k) xs"
  shows "ys = g_list_sort cmp xs"
proof -
  have "filter (\<lambda>x. key k = key x) ys = filter (\<lambda>x. key k = key x) xs" for k
    using assms(4) [of "key k"] by (simp add: eq_commute)
  then have "sort_key key xs = ys"
    by (intro properties_for_sort_key) (use assms in auto)
  then show ?thesis using assms(1) by (simp add: sort_is_sort_key)
qed

lemma sort_sorted_id: "\<forall>y\<in>set xs. dom_ok y \<Longrightarrow> sorted (map key xs) \<Longrightarrow> g_list_sort cmp xs = xs"
  by (simp add: sort_is_sort_key sort_key_id_if_sorted)

end


section \<open>Transition systems\<close>

text \<open>
  A component as a set of start states and a step relation; an invariant that
  holds at the start and is kept by every step holds in every reachable state.
\<close>

locale invariant_system =
  fixes start :: "'s \<Rightarrow> bool"
    and step :: "'s \<Rightarrow> 's \<Rightarrow> bool"
    and invar :: "'s \<Rightarrow> bool"
  assumes start_invar: "start s \<Longrightarrow> invar s"
    and step_invar: "invar s \<Longrightarrow> step s t \<Longrightarrow> invar t"
begin

lemma run_invar: "invar s \<Longrightarrow> step\<^sup>*\<^sup>* s t \<Longrightarrow> invar t"
  by (rotate_tac, induction rule: rtranclp_induct) (auto intro: step_invar)

lemma reach_invar: "start s \<Longrightarrow> step\<^sup>*\<^sup>* s t \<Longrightarrow> invar t"
  by (blast intro: run_invar start_invar)

end

end
