(* ===== verification/Undo.thy ===== *)
theory Undo
  imports Prelude
begin

text \<open>
  The undo manager of \<open>src/common/undo.c\<close>: two lists of recorded items (undo and
  redo), group markers, and the callbacks that revert or reapply an item. The
  application state the callbacks change is the type \<open>'w\<close>; the data of an item is
  a pointer (\<open>None\<close> is \<open>NULL\<close>). Time stamps are exact rationals: the difference
  of two doubles within a factor of two is exact, so nothing is rounded. The field
  \<open>freed\<close> logs the data handed to a destructor and has no counterpart in the C
  structure. A \<open>NULL\<close> manager, for which every function returns at once, has no
  state and is not represented. The callbacks leave the two lists alone.
\<close>

unbundle bit_operations_syntax

section \<open>Data\<close>

definition DT_UNDO_NONE :: "32 word" where "DT_UNDO_NONE = 0"
definition DT_UNDO_HISTORY :: "32 word" where "DT_UNDO_HISTORY = 1"
definition DT_UNDO_MASK :: "32 word" where "DT_UNDO_MASK = 2"
definition DT_UNDO_RATINGS :: "32 word" where "DT_UNDO_RATINGS = 4"
definition DT_UNDO_COLORLABELS :: "32 word" where "DT_UNDO_COLORLABELS = 8"
definition DT_UNDO_TAGS :: "32 word" where "DT_UNDO_TAGS = 16"
definition DT_UNDO_METADATA :: "32 word" where "DT_UNDO_METADATA = 32"
definition DT_UNDO_LT_HISTORY :: "32 word" where "DT_UNDO_LT_HISTORY = 64"
definition DT_UNDO_FLAGS :: "32 word" where "DT_UNDO_FLAGS = 128"
definition DT_UNDO_DATETIME :: "32 word" where "DT_UNDO_DATETIME = 256"
definition DT_UNDO_DUPLICATE :: "32 word" where "DT_UNDO_DUPLICATE = 512"

definition DT_UNDO_DEVELOP :: "32 word" where
  "DT_UNDO_DEVELOP = DT_UNDO_HISTORY OR DT_UNDO_LT_HISTORY OR DT_UNDO_MASK OR DT_UNDO_TAGS OR
     DT_UNDO_RATINGS OR DT_UNDO_COLORLABELS OR DT_UNDO_DUPLICATE"

definition DT_UNDO_LIGHTTABLE :: "32 word" where
  "DT_UNDO_LIGHTTABLE = DT_UNDO_RATINGS OR DT_UNDO_COLORLABELS OR DT_UNDO_TAGS OR
     DT_UNDO_METADATA OR DT_UNDO_LT_HISTORY OR DT_UNDO_FLAGS OR DT_UNDO_DATETIME OR
     DT_UNDO_DUPLICATE"

definition DT_UNDO_ALL :: "32 word" where
  "DT_UNDO_ALL = DT_UNDO_DEVELOP OR DT_UNDO_LIGHTTABLE"

lemmas undo_type_defs =
  DT_UNDO_NONE_def DT_UNDO_HISTORY_def DT_UNDO_MASK_def DT_UNDO_RATINGS_def
  DT_UNDO_COLORLABELS_def DT_UNDO_TAGS_def DT_UNDO_METADATA_def DT_UNDO_LT_HISTORY_def
  DT_UNDO_FLAGS_def DT_UNDO_DATETIME_def DT_UNDO_DUPLICATE_def DT_UNDO_DEVELOP_def
  DT_UNDO_LIGHTTABLE_def DT_UNDO_ALL_def

datatype dt_undo_action_t = DT_ACTION_UNDO | DT_ACTION_REDO

text \<open>
  An undo callback gets the item's user data, type and data, the action, the list
  of changed images so far and the application state.
\<close>

type_synonym ('u, 'd, 'w) undo_fn =
  "'u option \<Rightarrow> 32 word \<Rightarrow> 'd option \<Rightarrow> dt_undo_action_t \<Rightarrow> int list \<Rightarrow> 'w \<Rightarrow> int list \<times> 'w"

record ('u, 'd, 'w) dt_undo_item_t =
  item_user_data :: "'u option"
  item_type :: "32 word"
  item_data :: "'d option"
  item_ts :: rat
  item_is_group :: bool
  item_undo :: "('u, 'd, 'w) undo_fn"
  item_free_data :: bool

record ('u, 'd, 'w) dt_undo_t =
  undo_list :: "('u, 'd, 'w) dt_undo_item_t list"
  redo_list :: "('u, 'd, 'w) dt_undo_item_t list"
  group :: "32 word"
  group_indent :: int
  disable_next :: bool
  freed :: "'d option list"

text \<open>\<open>MAX_TIME_PERIOD\<close>, in seconds.\<close>

definition MAX_TIME_PERIOD :: rat where
  "MAX_TIME_PERIOD = 1 / 2"

text \<open>The callback pointer of a group marker is \<open>NULL\<close> and is never called.\<close>

definition null_undo :: "('u, 'd, 'w) undo_fn" where
  "null_undo u t d a imgs w = (imgs, w)"


section \<open>Recording\<close>

definition dt_undo_init :: "('u, 'd, 'w) dt_undo_t" where
  "dt_undo_init = \<lparr>undo_list = [], redo_list = [], group = DT_UNDO_NONE, group_indent = 0,
     disable_next = False, freed = []\<rparr>"

definition dt_undo_disable_next :: "('u, 'd, 'w) dt_undo_t \<Rightarrow> ('u, 'd, 'w) dt_undo_t" where
  "dt_undo_disable_next self = self\<lparr>disable_next := True\<rparr>"

text \<open>\<open>_free_undo_data\<close> over a list of items: the data a destructor receives.\<close>

definition free_undo_data :: "('u, 'd, 'w) dt_undo_item_t list \<Rightarrow> 'd option list" where
  "free_undo_data its = map item_data (filter item_free_data its)"

definition undo_record ::
  "('u, 'd, 'w) dt_undo_t \<Rightarrow> 'u option \<Rightarrow> 32 word \<Rightarrow> 'd option \<Rightarrow> bool \<Rightarrow>
    ('u, 'd, 'w) undo_fn \<Rightarrow> bool \<Rightarrow> rat \<Rightarrow> ('u, 'd, 'w) dt_undo_t" where
  "undo_record self user_data type data is_group undo free_data now =
     (if disable_next self
      then self\<lparr>freed := freed self @ (if free_data then [data] else []), disable_next := False\<rparr>
      else self\<lparr>undo_list :=
               \<lparr>item_user_data = user_data, item_type = type, item_data = data, item_ts = now,
                item_is_group = is_group, item_undo = undo, item_free_data = free_data\<rparr>
               # undo_list self,
             freed := freed self @ free_undo_data (redo_list self),
             redo_list := []\<rparr>)"

definition dt_undo_start_group ::
  "('u, 'd, 'w) dt_undo_t \<Rightarrow> 32 word \<Rightarrow> rat \<Rightarrow> ('u, 'd, 'w) dt_undo_t" where
  "dt_undo_start_group self type now =
     (if group self = DT_UNDO_NONE
      then undo_record (self\<lparr>group := type, group_indent := 1\<rparr>)
             None type None True null_undo False now
      else self\<lparr>group_indent := group_indent self + 1\<rparr>)"

text \<open>\<open>None\<close>: the assertion that a group is open fails.\<close>

definition dt_undo_end_group ::
  "('u, 'd, 'w) dt_undo_t \<Rightarrow> rat \<Rightarrow> ('u, 'd, 'w) dt_undo_t option" where
  "dt_undo_end_group self now =
     (if group_indent self \<le> 0 then None
      else let self1 = self\<lparr>group_indent := group_indent self - 1\<rparr>
           in if group_indent self1 = 0
              then Some ((undo_record self1 None (group self1) None True null_undo False now)
                           \<lparr>group := DT_UNDO_NONE\<rparr>)
              else Some self1)"

definition dt_undo_record ::
  "('u, 'd, 'w) dt_undo_t \<Rightarrow> 'u option \<Rightarrow> 32 word \<Rightarrow> 'd option \<Rightarrow>
    ('u, 'd, 'w) undo_fn \<Rightarrow> bool \<Rightarrow> rat \<Rightarrow> ('u, 'd, 'w) dt_undo_t" where
  "dt_undo_record self user_data type data undo free_data now =
     undo_record self user_data type data False undo free_data now"


section \<open>Undo and redo\<close>

text \<open>
  \<open>_images_list_cmp\<close> subtracts two 32-bit integers; the machine result wraps.
\<close>

definition images_list_cmp :: "int \<Rightarrow> int \<Rightarrow> int" where
  "images_list_cmp a b = sint (word_of_int (a - b) :: 32 word)"

definition call_undo ::
  "dt_undo_action_t \<Rightarrow> ('u, 'd, 'w) dt_undo_item_t \<Rightarrow> int list \<Rightarrow> 'w \<Rightarrow> int list \<times> 'w" where
  "call_undo act it imgs w =
     item_undo it (item_user_data it) (item_type it) (item_data it) act imgs w"

definition matches :: "32 word \<Rightarrow> ('u, 'd, 'w) dt_undo_item_t \<Rightarrow> bool" where
  "matches filt it \<longleftrightarrow> item_type it AND filt \<noteq> 0"

text \<open>
  The loops of \<open>_undo_do_undo_redo\<close>. The result is what is left of the source list,
  the target list, the changed images and the application state.

  A group marker was met first: everything up to and including the next group
  marker is moved.
\<close>

fun undo_group_loop ::
  "dt_undo_action_t \<Rightarrow> ('u, 'd, 'w) dt_undo_item_t list \<Rightarrow> ('u, 'd, 'w) dt_undo_item_t list \<Rightarrow>
    int list \<Rightarrow> 'w \<Rightarrow>
    ('u, 'd, 'w) dt_undo_item_t list \<times> ('u, 'd, 'w) dt_undo_item_t list \<times> int list \<times> 'w" where
  "undo_group_loop act [] to imgs w = ([], to, imgs, w)"
| "undo_group_loop act (it # next) to imgs w =
     (if item_is_group it then (next, it # to, imgs, w)
      else let (imgs', w') = call_undo act it imgs w
           in undo_group_loop act next (it # to) imgs' w')"

text \<open>
  A single item was met first: it and the following items of the same kind within
  half a second are moved, and groups met on the way are moved as a whole.
\<close>

definition undo_time_step ::
  "dt_undo_action_t \<Rightarrow> bool \<Rightarrow> ('u, 'd, 'w) dt_undo_item_t \<Rightarrow> int list \<Rightarrow> 'w \<Rightarrow>
    bool \<times> int list \<times> 'w" where
  "undo_time_step act in_group it imgs w =
     (if item_is_group it then (\<not> in_group, imgs, w)
      else (in_group, call_undo act it imgs w))"

fun undo_time_loop ::
  "dt_undo_action_t \<Rightarrow> 32 word \<Rightarrow> rat \<Rightarrow> bool \<Rightarrow> ('u, 'd, 'w) dt_undo_item_t \<Rightarrow>
    ('u, 'd, 'w) dt_undo_item_t list \<Rightarrow> ('u, 'd, 'w) dt_undo_item_t list \<Rightarrow> int list \<Rightarrow> 'w \<Rightarrow>
    ('u, 'd, 'w) dt_undo_item_t list \<times> ('u, 'd, 'w) dt_undo_item_t list \<times> int list \<times> 'w" where
  "undo_time_loop act filt first_item_ts in_group it [] to imgs w =
     (let (in_group', imgs', w') = undo_time_step act in_group it imgs w
      in ([], it # to, imgs', w'))"
| "undo_time_loop act filt first_item_ts in_group it (it' # next) to imgs w =
     (let (in_group', imgs', w') = undo_time_step act in_group it imgs w
      in if matches filt it' \<and> (in_group' \<or> \<bar>item_ts it' - first_item_ts\<bar> < MAX_TIME_PERIOD)
         then undo_time_loop act filt first_item_ts in_group' it' next (it # to) imgs' w'
         else (it' # next, it # to, imgs', w'))"

text \<open>The search for the first item that the filter selects.\<close>

fun undo_scan ::
  "dt_undo_action_t \<Rightarrow> 32 word \<Rightarrow> ('u, 'd, 'w) dt_undo_item_t list \<Rightarrow>
    ('u, 'd, 'w) dt_undo_item_t list \<Rightarrow> int list \<Rightarrow> 'w \<Rightarrow>
    ('u, 'd, 'w) dt_undo_item_t list \<times> ('u, 'd, 'w) dt_undo_item_t list \<times> int list \<times> 'w" where
  "undo_scan act filt [] to imgs w = ([], to, imgs, w)"
| "undo_scan act filt (it # next) to imgs w =
     (if matches filt it
      then if item_is_group it
           then undo_group_loop act next (it # to) imgs w
           else undo_time_loop act filt (item_ts it) False it next to imgs w
      else let (from', to', imgs', w') = undo_scan act filt next to imgs w
           in (it # from', to', imgs', w'))"

text \<open>
  The result carries the images whose change time stamp is set afterwards, in
  order: sorted, without duplicates.
\<close>

definition undo_do_undo_redo ::
  "('u, 'd, 'w) dt_undo_t \<Rightarrow> 32 word \<Rightarrow> dt_undo_action_t \<Rightarrow> 'w \<Rightarrow>
    ('u, 'd, 'w) dt_undo_t \<times> 'w \<times> int list" where
  "undo_do_undo_redo self filt action w =
     (let (from, to) = (case action of
                DT_ACTION_UNDO \<Rightarrow> (undo_list self, redo_list self)
              | DT_ACTION_REDO \<Rightarrow> (redo_list self, undo_list self));
          (from', to', imgs, w') = undo_scan action filt from to [] w
      in (case action of
            DT_ACTION_UNDO \<Rightarrow> self\<lparr>undo_list := from', redo_list := to'\<rparr>
          | DT_ACTION_REDO \<Rightarrow> self\<lparr>redo_list := from', undo_list := to'\<rparr>,
          w', remdups_adj (g_list_sort images_list_cmp imgs)))"

definition dt_undo_do_undo ::
  "('u, 'd, 'w) dt_undo_t \<Rightarrow> 32 word \<Rightarrow> 'w \<Rightarrow> ('u, 'd, 'w) dt_undo_t \<times> 'w \<times> int list" where
  "dt_undo_do_undo self filt w = undo_do_undo_redo self filt DT_ACTION_UNDO w"

definition dt_undo_do_redo ::
  "('u, 'd, 'w) dt_undo_t \<Rightarrow> 32 word \<Rightarrow> 'w \<Rightarrow> ('u, 'd, 'w) dt_undo_t \<times> 'w \<times> int list" where
  "dt_undo_do_redo self filt w = undo_do_undo_redo self filt DT_ACTION_REDO w"


section \<open>Clearing and iterating\<close>

fun undo_clear_list ::
  "32 word \<Rightarrow> ('u, 'd, 'w) dt_undo_item_t list \<Rightarrow>
    ('u, 'd, 'w) dt_undo_item_t list \<times> 'd option list" where
  "undo_clear_list filt [] = ([], [])"
| "undo_clear_list filt (it # next) =
     (let (kept, log) = undo_clear_list filt next
      in if matches filt it then (kept, free_undo_data [it] @ log) else (it # kept, log))"

definition dt_undo_clear ::
  "('u, 'd, 'w) dt_undo_t \<Rightarrow> 32 word \<Rightarrow> ('u, 'd, 'w) dt_undo_t" where
  "dt_undo_clear self filt =
     (let (undos, log1) = undo_clear_list filt (undo_list self);
          (redos, log2) = undo_clear_list filt (redo_list self);
          self1 = self\<lparr>undo_list := undos, redo_list := redos, freed := freed self @ log1 @ log2\<rparr>
      in self1\<lparr>undo_list := [], redo_list := [], disable_next := False\<rparr>)"

definition dt_undo_cleanup :: "('u, 'd, 'w) dt_undo_t \<Rightarrow> ('u, 'd, 'w) dt_undo_t" where
  "dt_undo_cleanup self = dt_undo_clear self DT_UNDO_ALL"

fun undo_iterate ::
  "('u, 'd, 'w) dt_undo_item_t list \<Rightarrow> 32 word \<Rightarrow>
    (32 word \<Rightarrow> 'd option \<Rightarrow> 'a \<Rightarrow> 'a) \<Rightarrow> 'a \<Rightarrow> 'a" where
  "undo_iterate [] filt apply_fn a = a"
| "undo_iterate (it # next) filt apply_fn a =
     undo_iterate next filt apply_fn
       (if \<not> item_is_group it \<and> matches filt it then apply_fn (item_type it) (item_data it) a
        else a)"

definition dt_undo_iterate ::
  "('u, 'd, 'w) dt_undo_t \<Rightarrow> 32 word \<Rightarrow> (32 word \<Rightarrow> 'd option \<Rightarrow> 'a \<Rightarrow> 'a) \<Rightarrow> 'a \<Rightarrow> 'a" where
  "dt_undo_iterate self filt apply_fn a =
     undo_iterate (redo_list self) filt apply_fn
       (undo_iterate (undo_list self) filt apply_fn a)"


section \<open>The loops move a block of items\<close>

text \<open>Running the callbacks of a list of items, first to last.\<close>

fun call_all ::
  "dt_undo_action_t \<Rightarrow> ('u, 'd, 'w) dt_undo_item_t list \<Rightarrow> int list \<Rightarrow> 'w \<Rightarrow> int list \<times> 'w" where
  "call_all act [] imgs w = (imgs, w)"
| "call_all act (it # its) imgs w =
     (case call_undo act it imgs w of (imgs', w') \<Rightarrow> call_all act its imgs' w')"

lemma call_all_append:
  "call_all act (xs @ ys) imgs w = (case call_all act xs imgs w of (i, v) \<Rightarrow> call_all act ys i v)"
  by (induction xs arbitrary: imgs w) (auto split: prod.splits)

lemma call_all_inverse:
  assumes "\<And>it i j w. it \<in> set its \<Longrightarrow>
      snd (call_undo DT_ACTION_REDO it i (snd (call_undo DT_ACTION_UNDO it j w))) = w"
  shows "snd (call_all DT_ACTION_REDO (rev its) i (snd (call_all DT_ACTION_UNDO its j w))) = w"
  using assms
proof (induction its arbitrary: i j w)
  case (Cons it its)
  obtain j1 w1 where u: "call_undo DT_ACTION_UNDO it j w = (j1, w1)" by fastforce
  have "snd (call_all DT_ACTION_REDO (rev its) i (snd (call_all DT_ACTION_UNDO its j1 w1))) = w1"
    using Cons by simp
  moreover have "snd (call_undo DT_ACTION_REDO it k w1) = w" for k
    using Cons.prems [of it k j w] u by simp
  ultimately show ?case
    using u by (auto simp: call_all_append split: prod.splits) (metis snd_conv)
qed simp

lemma undo_group_loop_block:
  assumes "\<forall>it\<in>set its. \<not> item_is_group it" and "item_is_group g"
  shows "undo_group_loop act (its @ g # rest) to imgs w =
    (rest, g # rev its @ to, call_all act its imgs w)"
  using assms by (induction its arbitrary: to imgs w) (auto split: prod.splits)

lemma undo_group_loop_moves:
  "\<exists>moved rest i v. frm = moved @ rest \<and>
     undo_group_loop act frm to imgs w = (rest, rev moved @ to, i, v)"
proof (induction frm arbitrary: to imgs w)
  case (Cons it frm)
  show ?case
  proof (cases "item_is_group it")
    case True
    then show ?thesis by (rule_tac exI [of _ "[it]"]) simp
  next
    case False
    obtain i1 v1 where c: "call_undo act it imgs w = (i1, v1)" by fastforce
    obtain moved rest i v where "frm = moved @ rest"
      and "undo_group_loop act frm (it # to) i1 v1 = (rest, rev moved @ it # to, i, v)"
      using Cons.IH [where to = "it # to" and imgs = i1 and w = v1] by blast
    with False c show ?thesis by (rule_tac exI [of _ "it # moved"]) simp
  qed
qed simp

lemma undo_time_loop_moves:
  "\<exists>moved rest i v. it # nxt = moved @ rest \<and>
     undo_time_loop act filt t b it nxt to imgs w = (rest, rev moved @ to, i, v)"
proof (induction nxt arbitrary: b it to imgs w)
  case Nil
  show ?case
    by (rule exI [of _ "[it]"]) (auto split: prod.splits)
next
  case (Cons it' nxt')
  obtain b' i' w' where step: "undo_time_step act b it imgs w = (b', i', w')"
    by (metis prod_cases3)
  show ?case
  proof (cases "matches filt it' \<and> (b' \<or> \<bar>item_ts it' - t\<bar> < MAX_TIME_PERIOD)")
    case True
    obtain moved rest i v where m: "it' # nxt' = moved @ rest"
      and l: "undo_time_loop act filt t b' it' nxt' (it # to) i' w' = (rest, rev moved @ it # to, i, v)"
      using Cons.IH [where it = it' and b = b' and to = "it # to" and imgs = i' and w = w'] by blast
    from True step l have "undo_time_loop act filt t b it (it' # nxt') to imgs w =
        (rest, rev (it # moved) @ to, i, v)"
      by simp
    moreover from m have "it # it' # nxt' = (it # moved) @ rest" by simp
    ultimately show ?thesis by blast
  next
    case False
    with step show ?thesis by (rule_tac exI [of _ "[it]"]) auto
  qed
qed

lemma undo_scan_head_moves:
  assumes "matches filt it"
  shows "\<exists>moved rest i v. it # nxt = moved @ rest \<and>
     undo_scan act filt (it # nxt) to imgs w = (rest, rev moved @ to, i, v)"
proof (cases "item_is_group it")
  case True
  obtain moved rest i v where "nxt = moved @ rest"
    and "undo_group_loop act nxt (it # to) imgs w = (rest, rev moved @ it # to, i, v)"
    using undo_group_loop_moves [where frm = nxt and to = "it # to"] by blast
  with True assms show ?thesis by (rule_tac exI [of _ "it # moved"]) simp
next
  case False
  with assms have "undo_scan act filt (it # nxt) to imgs w =
      undo_time_loop act filt (item_ts it) False it nxt to imgs w"
    by simp
  with undo_time_loop_moves [where it = it and nxt = nxt] show ?thesis by simp
qed

text \<open>
  What a search does to the lists: the items before the first match stay, a block
  that starts with the first match is moved to the front of the target list.
\<close>

lemma undo_scan_moves:
  assumes "undo_scan act filt frm to imgs w = (frm', to', i, v)"
  shows "\<exists>pre moved rest. frm = pre @ moved @ rest \<and> frm' = pre @ rest \<and>
    (\<forall>it\<in>set pre. \<not> matches filt it) \<and> to' = rev moved @ to"
  using assms
proof (induction frm arbitrary: frm')
  case (Cons it frm)
  show ?case
  proof (cases "matches filt it")
    case True
    from undo_scan_head_moves [OF this, of frm act to imgs w] obtain moved rest i' v'
      where m: "it # frm = moved @ rest"
        and l: "undo_scan act filt (it # frm) to imgs w = (rest, rev moved @ to, i', v')"
      by blast
    from l Cons.prems have "frm' = rest" and "to' = rev moved @ to"
      by (simp_all only: prod.inject)
    with m show ?thesis
      by (rule_tac exI [where x = "[]"], rule_tac exI [where x = moved]) simp
  next
    case False
    with Cons.prems obtain f1 where f1: "undo_scan act filt frm to imgs w = (f1, to', i, v)"
      and "frm' = it # f1"
      by (auto split: prod.splits)
    from Cons.IH [OF f1] obtain pre moved rest where "frm = pre @ moved @ rest" "f1 = pre @ rest"
      "\<forall>it\<in>set pre. \<not> matches filt it" "to' = rev moved @ to"
      by blast
    with False \<open>frm' = it # f1\<close> show ?thesis
      by (rule_tac exI [of _ "it # pre"]) auto
  qed
qed simp

lemma undo_scan_mset:
  "undo_scan act filt frm to imgs w = (frm', to', i, v) \<Longrightarrow>
    mset frm' + mset to' = mset frm + mset to"
  by (drule undo_scan_moves) auto

lemma undo_scan_append:
  assumes "undo_scan act filt frm to imgs w = (frm', to', i, v)"
    and "\<forall>it\<in>set frm. matches filt it"
  shows "rev to' @ frm' = rev to @ frm"
proof -
  from undo_scan_moves [OF assms(1)] obtain pre moved rest where
    m: "frm = pre @ moved @ rest" "frm' = pre @ rest" "\<forall>it\<in>set pre. \<not> matches filt it"
    "to' = rev moved @ to"
    by blast
  with assms(2) have "pre = []" by (cases pre) auto
  with m show ?thesis by simp
qed


section \<open>Ownership of the recorded data\<close>

text \<open>
  One step of the manager, for any caller. The first component of the state is the
  ledger: the data handed over for destruction so far.
\<close>

type_synonym ('u, 'd, 'w) undo_sys = "'d option multiset \<times> ('u, 'd, 'w) dt_undo_t \<times> 'w"

inductive undo_step :: "('u, 'd, 'w) undo_sys \<Rightarrow> ('u, 'd, 'w) undo_sys \<Rightarrow> bool" where
  record_item: "undo_step (L, s, w) (if fd then add_mset d L else L, dt_undo_record s u t d f fd now, w)"
| start_group: "undo_step (L, s, w) (L, dt_undo_start_group s t now, w)"
| end_group: "dt_undo_end_group s now = Some s' \<Longrightarrow> undo_step (L, s, w) (L, s', w)"
| disable_next: "undo_step (L, s, w) (L, dt_undo_disable_next s, w)"
| undo: "dt_undo_do_undo s filt w = (s', w', imgs) \<Longrightarrow> undo_step (L, s, w) (L, s', w')"
| redo: "dt_undo_do_redo s filt w = (s', w', imgs) \<Longrightarrow> undo_step (L, s, w) (L, s', w')"
| clear: "undo_step (L, s, w) (L, dt_undo_clear s filt, w)"

definition undo_start :: "('u, 'd, 'w) undo_sys \<Rightarrow> bool" where
  "undo_start x \<longleftrightarrow> fst x = {#} \<and> fst (snd x) = dt_undo_init"

text \<open>The data the manager still owns, and the data it has destroyed.\<close>

definition undo_owned :: "('u, 'd, 'w) dt_undo_t \<Rightarrow> 'd option multiset" where
  "undo_owned s = mset (free_undo_data (undo_list s)) + mset (free_undo_data (redo_list s))"

definition undo_ledger_ok :: "('u, 'd, 'w) undo_sys \<Rightarrow> bool" where
  "undo_ledger_ok x = (case x of (L, s, w) \<Rightarrow> undo_owned s + mset (freed s) \<subseteq># L)"

lemma mset_free_undo_data:
  "mset (free_undo_data its) = image_mset item_data (filter_mset item_free_data (mset its))"
  by (simp add: free_undo_data_def)

lemma undo_record_owned:
  "undo_owned (undo_record s u t d g f fd now) + mset (freed (undo_record s u t d g f fd now)) =
    undo_owned s + mset (freed s) + (if fd then {#d#} else {#})"
  by (auto simp: undo_record_def undo_owned_def free_undo_data_def)

lemma undo_start_group_owned:
  "undo_owned (dt_undo_start_group s t now) + mset (freed (dt_undo_start_group s t now)) =
    undo_owned s + mset (freed s)"
  by (auto simp: dt_undo_start_group_def undo_record_owned) (auto simp: undo_owned_def)

lemma undo_end_group_owned:
  assumes "dt_undo_end_group s now = Some s'"
  shows "undo_owned s' + mset (freed s') = undo_owned s + mset (freed s)"
proof -
  let ?s1 = "s\<lparr>group_indent := group_indent s - 1\<rparr>"
  let ?r = "undo_record ?s1 None (group ?s1) None True null_undo False now"
  have "undo_owned ?r + mset (freed ?r) = undo_owned s + mset (freed s)"
    by (simp add: undo_record_owned) (simp add: undo_owned_def)
  with assms show ?thesis
    by (auto simp: dt_undo_end_group_def undo_owned_def Let_def split: if_splits)
qed

lemma undo_redo_owned:
  assumes "undo_do_undo_redo s filt act w = (s', w', imgs)"
  shows "undo_owned s' = undo_owned s \<and> freed s' = freed s"
proof (cases act)
  case DT_ACTION_UNDO
  with assms obtain f t i where r: "undo_scan act filt (undo_list s) (redo_list s) [] w = (f, t, i, w')"
    and s': "s' = s\<lparr>undo_list := f, redo_list := t\<rparr>"
    by (auto simp: undo_do_undo_redo_def split: prod.splits)
  with undo_scan_mset [OF r] show ?thesis
    by (simp add: undo_owned_def mset_free_undo_data flip: image_mset_union filter_union_mset)
next
  case DT_ACTION_REDO
  with assms obtain f t i where r: "undo_scan act filt (redo_list s) (undo_list s) [] w = (f, t, i, w')"
    and s': "s' = s\<lparr>redo_list := f, undo_list := t\<rparr>"
    by (auto simp: undo_do_undo_redo_def split: prod.splits)
  with undo_scan_mset [OF r] show ?thesis
    by (simp add: undo_owned_def mset_free_undo_data add.commute
        flip: image_mset_union filter_union_mset)
qed

lemma undo_clear_list_eq:
  "undo_clear_list filt its =
    (filter (\<lambda>it. \<not> matches filt it) its, free_undo_data (filter (matches filt) its))"
  by (induction its) (auto simp: free_undo_data_def split: prod.splits)

lemma undo_clear_owned:
  "undo_owned (dt_undo_clear s filt) + mset (freed (dt_undo_clear s filt)) \<subseteq>#
    undo_owned s + mset (freed s)"
proof -
  have "mset (free_undo_data (filter (matches filt) its)) \<subseteq># mset (free_undo_data its)" for its
    unfolding mset_free_undo_data
    by (intro image_mset_subseteq_mono multiset_filter_mono) simp
  then show ?thesis
    by (auto simp: dt_undo_clear_def undo_clear_list_eq undo_owned_def free_undo_data_def Let_def
        intro: subset_mset.add_mono)
qed

lemma undo_disable_owned:
  "undo_owned (dt_undo_disable_next s) = undo_owned s"
  "freed (dt_undo_disable_next s) = freed s"
  by (simp_all add: dt_undo_disable_next_def undo_owned_def)

lemma undo_step_ledger: "undo_step x y \<Longrightarrow> undo_ledger_ok x \<Longrightarrow> undo_ledger_ok y"
proof (induction rule: undo_step.induct)
  case (record_item L s w fd d u t f now)
  then show ?case
    by (auto simp: undo_ledger_ok_def dt_undo_record_def undo_record_owned)
next
  case (clear L s w filt)
  then show ?case
    using undo_clear_owned [of s filt] by (auto simp: undo_ledger_ok_def intro: subset_mset.order_trans)
qed (auto simp: undo_ledger_ok_def undo_start_group_owned undo_disable_owned
    dt_undo_do_undo_def dt_undo_do_redo_def dest: undo_redo_owned undo_end_group_owned)

interpretation undo_sys: invariant_system undo_start undo_step undo_ledger_ok
proof
  fix s :: "('u, 'd, 'w) undo_sys"
  assume "undo_start s"
  then show "undo_ledger_ok s"
    by (cases s) (auto simp: undo_start_def undo_ledger_ok_def undo_owned_def dt_undo_init_def
        free_undo_data_def)
qed (rule undo_step_ledger)


section \<open>Properties\<close>

text \<open>Image ids are positive 32-bit integers, and there the subtraction orders them.\<close>

interpretation images_cmp: gcompare images_list_cmp "\<lambda>i. i" "\<lambda>i. 0 \<le> i \<and> i \<le> INT_MAX"
  by unfold_locales (simp add: images_list_cmp_def sint_word32_in_range del: of_int_diff)

lemma undo_group_first:
  assumes "undo_list s = g2 # its @ g1 # rest" and "item_is_group g2" "item_is_group g1"
    and "\<forall>it\<in>set its. \<not> item_is_group it" and "matches filt g2"
  shows "dt_undo_do_undo s filt w =
    (s\<lparr>undo_list := rest, redo_list := g1 # rev its @ g2 # redo_list s\<rparr>,
     snd (call_all DT_ACTION_UNDO its [] w),
     remdups_adj (g_list_sort images_list_cmp (fst (call_all DT_ACTION_UNDO its [] w))))"
  using assms
  by (simp add: dt_undo_do_undo_def undo_do_undo_redo_def undo_group_loop_block split: prod.splits)

lemma redo_group_first:
  assumes "redo_list s = g1 # its @ g2 # rest" and "item_is_group g2" "item_is_group g1"
    and "\<forall>it\<in>set its. \<not> item_is_group it" and "matches filt g1"
  shows "dt_undo_do_redo s filt w =
    (s\<lparr>redo_list := rest, undo_list := g2 # rev its @ g1 # undo_list s\<rparr>,
     snd (call_all DT_ACTION_REDO its [] w),
     remdups_adj (g_list_sort images_list_cmp (fst (call_all DT_ACTION_REDO its [] w))))"
  using assms
  by (simp add: dt_undo_do_redo_def undo_do_undo_redo_def undo_group_loop_block split: prod.splits)

text \<open>
  C5: undoing a group and redoing it with the same filter is the identity: when the
  undo list starts with a complete group (an end marker, items, a start marker) that
  the filter selects, and each callback's redo reverts its undo, both lists, the
  rest of the manager and the application state are what they were before.
\<close>

theorem undo_redo_group_roundtrip:
  assumes "undo_list s = g2 # its @ g1 # rest" and "item_is_group g2" "item_is_group g1"
    and "\<forall>it\<in>set its. \<not> item_is_group it" and "matches filt g2" "matches filt g1"
    and "\<And>it i j v. it \<in> set its \<Longrightarrow>
      snd (call_undo DT_ACTION_REDO it i (snd (call_undo DT_ACTION_UNDO it j v))) = v"
    and "dt_undo_do_undo s filt w = (s1, w1, imgs1)"
    and "dt_undo_do_redo s1 filt w1 = (s2, w2, imgs2)"
  shows "s2 = s \<and> w2 = w"
proof -
  from assms(8) undo_group_first [OF assms(1-5), of w]
  have s1: "s1 = s\<lparr>undo_list := rest, redo_list := g1 # rev its @ g2 # redo_list s\<rparr>"
    and w1: "w1 = snd (call_all DT_ACTION_UNDO its [] w)" by auto
  have "dt_undo_do_redo s1 filt w1 =
      (s1\<lparr>redo_list := redo_list s, undo_list := g2 # rev (rev its) @ g1 # undo_list s1\<rparr>,
       snd (call_all DT_ACTION_REDO (rev its) [] w1),
       remdups_adj (g_list_sort images_list_cmp (fst (call_all DT_ACTION_REDO (rev its) [] w1))))"
    by (rule redo_group_first) (use assms s1 in auto)
  with assms(9) have "s2 = s" "w2 = snd (call_all DT_ACTION_REDO (rev its) [] w1)"
    using s1 assms(1) by auto
  with call_all_inverse [OF assms(7), of its] show ?thesis using w1 by simp
qed

text \<open>A counter as application state: the callback of an item adds its data, or takes it back.\<close>

definition counter_undo :: "(unit, int, int) undo_fn" where
  "counter_undo u t d a imgs w =
     (7 # imgs, case a of DT_ACTION_UNDO \<Rightarrow> w - the d | DT_ACTION_REDO \<Rightarrow> w + the d)"

definition grouped_example :: "(unit, int, int) dt_undo_t" where
  "grouped_example =
     the (dt_undo_end_group
       (dt_undo_record (dt_undo_record (dt_undo_start_group dt_undo_init DT_UNDO_RATINGS 0)
          None DT_UNDO_RATINGS (Some 3) counter_undo True 1)
          None DT_UNDO_RATINGS (Some 5) counter_undo True 9) 10)"

lemmas undo_eval =
  grouped_example_def dt_undo_init_def dt_undo_end_group_def dt_undo_start_group_def
  dt_undo_record_def undo_record_def undo_type_defs counter_undo_def call_undo_def matches_def
  dt_undo_do_undo_def dt_undo_do_redo_def undo_do_undo_redo_def free_undo_data_def

theorem undo_redo_group_roundtrip_witness:
  "dt_undo_do_undo grouped_example DT_UNDO_ALL 8 = (fst (dt_undo_do_undo grouped_example DT_UNDO_ALL 8), 0, [7])
   \<and> fst (dt_undo_do_redo (fst (dt_undo_do_undo grouped_example DT_UNDO_ALL 8)) DT_UNDO_ALL 0) = grouped_example
   \<and> fst (snd (dt_undo_do_redo (fst (dt_undo_do_undo grouped_example DT_UNDO_ALL 8)) DT_UNDO_ALL 0)) = 8"
proof -
  obtain g2 a b g1 where ex: "undo_list grouped_example = g2 # [a, b] @ g1 # []"
    and g: "item_is_group g2" "item_is_group g1" "\<forall>it\<in>set [a, b]. \<not> item_is_group it"
      "matches DT_UNDO_ALL g2" "matches DT_UNDO_ALL g1"
    and u: "\<And>it. it \<in> set [a, b] \<Longrightarrow> item_undo it = counter_undo"
    by (rule that [of "undo_list grouped_example ! 0" "undo_list grouped_example ! 1"
          "undo_list grouped_example ! 2" "undo_list grouped_example ! 3"])
      (auto simp: undo_eval)
  have 1: "dt_undo_do_undo grouped_example DT_UNDO_ALL 8 =
      (fst (dt_undo_do_undo grouped_example DT_UNDO_ALL 8), 0, [7])"
    by (simp add: undo_eval g_list_sort_def images_list_cmp_def)
  have inv: "snd (call_undo DT_ACTION_REDO it i (snd (call_undo DT_ACTION_UNDO it j v))) = v"
    if "it \<in> set [a, b]" for it i j v
    using u [OF that] by (simp add: call_undo_def counter_undo_def)
  from undo_redo_group_roundtrip [OF ex g inv 1]
  show ?thesis using 1 by (metis prod.collapse)
qed

text \<open>
  Undo and redo never lose, duplicate or reorder an item: when the filter selects
  every item, the time line (the redo list read backwards, then the undo list) is the
  same before and after.
\<close>

theorem undo_redo_keeps_timeline:
  assumes "\<forall>it\<in>set (undo_list s) \<union> set (redo_list s). matches filt it"
    and "undo_do_undo_redo s filt act w = (s', w', imgs)"
  shows "rev (redo_list s') @ undo_list s' = rev (redo_list s) @ undo_list s"
proof (cases act)
  case DT_ACTION_UNDO
  with assms(2) obtain f t i where
    "undo_scan act filt (undo_list s) (redo_list s) [] w = (f, t, i, w')"
    and "s' = s\<lparr>undo_list := f, redo_list := t\<rparr>"
    by (auto simp: undo_do_undo_redo_def split: prod.splits)
  then show ?thesis using undo_scan_append assms(1) by fastforce
next
  case DT_ACTION_REDO
  with assms(2) obtain f t i where
    r: "undo_scan act filt (redo_list s) (undo_list s) [] w = (f, t, i, w')"
    and s': "s' = s\<lparr>redo_list := f, undo_list := t\<rparr>"
    by (auto simp: undo_do_undo_redo_def split: prod.splits)
  have "rev t @ f = rev (undo_list s) @ redo_list s"
    using r assms(1) by (intro undo_scan_append) auto
  then have "rev (rev t @ f) = rev (rev (undo_list s) @ redo_list s)" by simp
  then show ?thesis using s' by simp
qed

theorem undo_redo_keeps_timeline_witness:
  "rev (redo_list (fst (undo_do_undo_redo grouped_example DT_UNDO_ALL DT_ACTION_UNDO 8))) @
     undo_list (fst (undo_do_undo_redo grouped_example DT_UNDO_ALL DT_ACTION_UNDO 8)) =
   rev (redo_list grouped_example) @ undo_list grouped_example
   \<and> length (redo_list (fst (undo_do_undo_redo grouped_example DT_UNDO_ALL DT_ACTION_UNDO 8))) = 4"
proof -
  have "\<forall>it\<in>set (undo_list grouped_example) \<union> set (redo_list grouped_example). matches DT_UNDO_ALL it"
    by (simp add: undo_eval)
  from undo_redo_keeps_timeline [OF this] have
    "rev (redo_list (fst (undo_do_undo_redo grouped_example DT_UNDO_ALL DT_ACTION_UNDO 8))) @
       undo_list (fst (undo_do_undo_redo grouped_example DT_UNDO_ALL DT_ACTION_UNDO 8)) =
     rev (redo_list grouped_example) @ undo_list grouped_example"
    by (metis prod.collapse)
  moreover have "length (redo_list (fst (undo_do_undo_redo grouped_example DT_UNDO_ALL DT_ACTION_UNDO 8))) = 4"
    by (simp add: undo_eval)
  ultimately show ?thesis by simp
qed

text \<open>
  No datum is destroyed twice, or destroyed while an item still holds it: from an
  empty manager, after any sequence of records, groups, undos, redos and clears, the
  data held by the items together with the data already destroyed are, counted with
  multiplicity, among the data that were handed over.
\<close>

theorem undo_no_double_free:
  assumes "undo_step\<^sup>*\<^sup>* ({#}, dt_undo_init, w0) (L, s, w)"
  shows "mset (free_undo_data (undo_list s)) + mset (free_undo_data (redo_list s)) + mset (freed s) \<subseteq># L"
proof -
  have "undo_ledger_ok (L, s, w)"
    by (rule undo_sys.reach_invar [OF _ assms]) (simp add: undo_start_def)
  then show ?thesis by (simp add: undo_ledger_ok_def undo_owned_def)
qed

theorem undo_no_double_free_witness:
  "undo_step\<^sup>*\<^sup>* ({#}, dt_undo_init, 0 :: int)
     ({#Some 3#}, fst (dt_undo_do_undo (dt_undo_record dt_undo_init None DT_UNDO_TAGS (Some 3)
        counter_undo True 1) DT_UNDO_ALL 0), - 3)
   \<and> mset (free_undo_data (redo_list (fst (dt_undo_do_undo (dt_undo_record dt_undo_init None
        DT_UNDO_TAGS (Some 3) counter_undo True 1) DT_UNDO_ALL 0)))) \<subseteq># {#Some (3 :: int)#}"
proof -
  let ?r = "dt_undo_record dt_undo_init None DT_UNDO_TAGS (Some 3) counter_undo True 1"
  have 1: "undo_step ({#}, dt_undo_init, 0 :: int) ({#Some 3#}, ?r, 0)"
    using undo_step.record_item [of "{#}" dt_undo_init 0 True "Some 3"] by simp
  have "dt_undo_do_undo ?r DT_UNDO_ALL 0 = (fst (dt_undo_do_undo ?r DT_UNDO_ALL 0), - 3, [7])"
    by (simp add: undo_eval undo_time_step_def g_list_sort_def)
  then have 2: "undo_step ({#Some 3#}, ?r, 0) ({#Some 3#}, fst (dt_undo_do_undo ?r DT_UNDO_ALL 0), - 3)"
    by (rule undo_step.undo)
  have run: "undo_step\<^sup>*\<^sup>* ({#}, dt_undo_init, 0 :: int)
      ({#Some 3#}, fst (dt_undo_do_undo ?r DT_UNDO_ALL 0), - 3)"
    using 1 2 by (meson r_into_rtranclp rtranclp.rtrancl_into_rtrancl)
  from undo_no_double_free [OF run] have
    "mset (free_undo_data (redo_list (fst (dt_undo_do_undo ?r DT_UNDO_ALL 0)))) \<subseteq># {#Some (3 :: int)#}"
    by (rule subset_mset.order_trans [rotated]) (simp add: union_assoc)
  with run show ?thesis by blast
qed

text \<open>
  \<open>dt_undo_clear\<close> empties both lists whatever the filter is, but only the data of
  the items the filter selects are destroyed; the other items are dropped with their
  data.
\<close>

theorem dt_undo_clear_drops_all:
  "undo_list (dt_undo_clear s filt) = [] \<and> redo_list (dt_undo_clear s filt) = [] \<and>
   freed (dt_undo_clear s filt) =
     freed s @ free_undo_data (filter (matches filt) (undo_list s)) @
     free_undo_data (filter (matches filt) (redo_list s))"
  by (simp add: dt_undo_clear_def undo_clear_list_eq)



section \<open>Clients of the manager\<close>

text \<open>
  What a client promises whose items hold the state to go back to: undoing an item with data \<open>d\<close> brings back the view \<open>v\<close> that
  \<open>d\<close> holds. Then the undo of an action that was recorded in a group of its own brings the view back, and the
  manager's lists are as they were, apart from what can be redone.
\<close>

locale undo_client =
  fixes undo_fn :: "('u, 'd, 'w) undo_fn" and type :: "32 word"
    and holds :: "'d \<Rightarrow> 'w \<Rightarrow> 'v \<Rightarrow> bool" and view :: "'d \<Rightarrow> 'w \<Rightarrow> 'v"
  assumes undo_view: "holds d w v \<Longrightarrow> view d (snd (undo_fn u type (Some d) DT_ACTION_UNDO imgs w)) = v"
begin

definition recorded :: "('u, 'd, 'w) dt_undo_t \<Rightarrow> 'd \<Rightarrow> rat \<times> rat \<times> rat \<Rightarrow> ('u, 'd, 'w) dt_undo_t option" where
  "recorded U d ts = (case ts of (t1, t2, t3) \<Rightarrow>
     dt_undo_end_group (dt_undo_record (dt_undo_start_group U type t1) None type (Some d) undo_fn True t2) t3)"

lemma recorded_lists:
  assumes "group U = DT_UNDO_NONE" and "\<not> disable_next U"
  shows "\<exists>U'. recorded U d ts = Some U' \<and> freed U' = freed U @ free_undo_data (redo_list U) \<and>
    (\<exists>g1 it g2. undo_list U' = g2 # [it] @ g1 # undo_list U \<and> item_is_group g1 \<and> item_is_group g2 \<and>
      \<not> item_is_group it \<and> item_type g1 = type \<and> item_type g2 = type \<and> item_type it = type \<and> item_data it = Some d \<and>
      item_undo it = undo_fn)"
  using assms
  by (cases ts) (simp add: recorded_def dt_undo_start_group_def dt_undo_end_group_def dt_undo_record_def
      undo_record_def free_undo_data_def Let_def)

lemma undo_recorded:
  assumes "group U = DT_UNDO_NONE" and "\<not> disable_next U" and "recorded U d ts = Some U1"
    and "type AND filt \<noteq> 0" and "holds d w v" and "dt_undo_do_undo U1 filt w = (U2, w', imgs)"
  shows "view d w' = v" and "undo_list U2 = undo_list U"
    and "\<exists>u. w' = snd (undo_fn u type (Some d) DT_ACTION_UNDO [] w) \<and>
      imgs = remdups_adj (g_list_sort images_list_cmp (fst (undo_fn u type (Some d) DT_ACTION_UNDO [] w)))"
    and "\<exists>g1 it g2. undo_list U1 = g2 # [it] @ g1 # undo_list U \<and> redo_list U2 = g1 # [it] @ g2 # redo_list U1 \<and>
      item_is_group g1 \<and> item_is_group g2 \<and> \<not> item_is_group it \<and> item_type g1 = type \<and>
      item_type it = type \<and> item_data it = Some d \<and> item_undo it = undo_fn"
proof -
  from recorded_lists [OF assms(1,2), of d ts] assms(3) obtain g1 it g2 where
    l: "undo_list U1 = g2 # [it] @ g1 # undo_list U" "item_is_group g1" "item_is_group g2" "\<not> item_is_group it"
    and t: "item_type g2 = type" "item_type it = type" "item_data it = Some d" "item_undo it = undo_fn" "item_type g1 = type"
    by auto
  have "matches filt g2" using t(1) assms(4) by (simp add: matches_def)
  from undo_group_first [OF l(1,3,2) _ this, of w] l(4) assms(6)
  have U2: "U2 = U1\<lparr>undo_list := undo_list U, redo_list := g1 # [it] @ g2 # redo_list U1\<rparr>"
    and c: "w' = snd (call_undo DT_ACTION_UNDO it [] w)"
      "imgs = remdups_adj (g_list_sort images_list_cmp (fst (call_undo DT_ACTION_UNDO it [] w)))"
    by (auto split: prod.splits)
  then show "undo_list U2 = undo_list U" by simp
  show "view d w' = v"
    using c t(2-4) undo_view [OF assms(5)] by (simp add: call_undo_def)
  show "\<exists>u. w' = snd (undo_fn u type (Some d) DT_ACTION_UNDO [] w) \<and>
      imgs = remdups_adj (g_list_sort images_list_cmp (fst (undo_fn u type (Some d) DT_ACTION_UNDO [] w)))"
    using c t(2-4) by (auto simp: call_undo_def)
  show "\<exists>g1 it g2. undo_list U1 = g2 # [it] @ g1 # undo_list U \<and> redo_list U2 = g1 # [it] @ g2 # redo_list U1 \<and>
      item_is_group g1 \<and> item_is_group g2 \<and> \<not> item_is_group it \<and> item_type g1 = type \<and>
      item_type it = type \<and> item_data it = Some d \<and> item_undo it = undo_fn"
    using U2 l t by auto
qed

text \<open>The redo that follows runs the callback once more, with the same data.\<close>

lemma redo_undone:
  assumes "group U = DT_UNDO_NONE" and "\<not> disable_next U" and "recorded U d ts = Some U1"
    and "type AND filt \<noteq> 0" and "holds d w v" and "dt_undo_do_undo U1 filt w = (U2, w', imgs)"
    and "dt_undo_do_redo U2 filt w'' = (U3, w3, imgs3)"
  shows "\<exists>u. w3 = snd (undo_fn u type (Some d) DT_ACTION_REDO [] w'')" and "undo_list U3 = undo_list U1"
proof -
  from undo_recorded(4) [OF assms(1-6)] obtain g1 it g2 where
    l: "undo_list U1 = g2 # [it] @ g1 # undo_list U" "redo_list U2 = g1 # [it] @ g2 # redo_list U1" "item_is_group g1"
      "item_is_group g2" "\<not> item_is_group it"
    and t: "item_type g1 = type" "item_type it = type" "item_data it = Some d" "item_undo it = undo_fn" by blast
  have "matches filt g1" using t(1) assms(4) by (simp add: matches_def)
  from redo_group_first [OF l(2,4,3) _ this, of w''] l(5) assms(7) undo_recorded(2) [OF assms(1-6)]
  have "undo_list U3 = g2 # [it] @ g1 # undo_list U" "w3 = snd (call_undo DT_ACTION_REDO it [] w'')"
    by (auto split: prod.splits)
  then show "\<exists>u. w3 = snd (undo_fn u type (Some d) DT_ACTION_REDO [] w'')" "undo_list U3 = undo_list U1"
    using t l(1) by (auto simp: call_undo_def)
qed

end

text \<open>A client whose items are about one image, which it reports.\<close>

locale snapshot_client = undo_client +
  fixes img :: "'b \<Rightarrow> int"
  assumes undo_image: "fst (undo_fn u type (Some d) DT_ACTION_UNDO imgs w) = imgs @ [img d]"
begin

lemma undo_recorded_image:
  assumes "group U = DT_UNDO_NONE" and "\<not> disable_next U" and "recorded U d ts = Some U1"
    and "type AND filt \<noteq> 0" and "holds d w v" and "dt_undo_do_undo U1 filt w = (U2, w', imgs)"
  shows "imgs = [img d]"
  using undo_recorded(3) [OF assms] undo_image by (auto simp: g_list_sort_def)

end

text \<open>A client whose items also hold the state to go forward to.\<close>

locale redo_client = undo_client +
  fixes ahead :: "'b \<Rightarrow> 'c \<Rightarrow> 'd \<Rightarrow> bool"
  assumes redo_view: "ahead d w v \<Longrightarrow> view d (snd (undo_fn u type (Some d) DT_ACTION_REDO imgs w)) = v"
begin

lemma redo_recorded:
  assumes "group U = DT_UNDO_NONE" and "\<not> disable_next U" and "recorded U d ts = Some U1"
    and "type AND filt \<noteq> 0" and "holds d w v" and "dt_undo_do_undo U1 filt w = (U2, w', imgs)"
    and "dt_undo_do_redo U2 filt w'' = (U3, w3, imgs3)" and "ahead d w'' v'"
  shows "view d w3 = v'" and "undo_list U3 = undo_list U1"
  using redo_undone [OF assms(1-7)] redo_view [OF assms(8)] by auto

end

end
