(* ===== verification/Lru_Cache.thy ===== *)
theory Lru_Cache
  imports Prelude
begin

text \<open>
  The concurrent least-recently-used cache of \<open>src/common/cache.c\<close>, on which the
  image and mipmap caches rest. The cache mutex makes every function body one atomic
  step; what threads interleave are these steps. An entry carries its read/write lock.
  Where the C code gives the mutex up, sleeps and starts over because an entry is
  locked by someone else, one attempt of the model yields \<open>None\<close>. The least recently
  used list holds the entries' keys. Costs are natural numbers: the invariant shows
  that the \<open>size_t\<close> subtractions never wrap.
\<close>

section \<open>Data\<close>

text \<open>The states of a \<open>pthread\<close> read/write lock: a reader count, or one writer.\<close>

datatype rwlock = RwFree | RwRead nat | RwWrite

fun tryrdlock :: "rwlock \<Rightarrow> rwlock option" where
  "tryrdlock RwFree = Some (RwRead 1)"
| "tryrdlock (RwRead n) = Some (RwRead (n + 1))"
| "tryrdlock RwWrite = None"

fun trywrlock :: "rwlock \<Rightarrow> rwlock option" where
  "trywrlock RwFree = Some RwWrite"
| "trywrlock (RwRead n) = None"
| "trywrlock RwWrite = None"

fun rwunlock :: "rwlock \<Rightarrow> rwlock" where
  "rwunlock RwFree = RwFree"
| "rwunlock (RwRead n) = (if n \<le> 1 then RwFree else RwRead (n - 1))"
| "rwunlock RwWrite = RwFree"

record 'd dt_cache_entry_t =
  entry_data :: "'d option"
  entry_data_size :: nat
  entry_cost :: nat
  entry_lock :: rwlock
  entry_lock_demoting :: bool
  entry_key :: "32 word"

text \<open>
  The allocation callback fills an entry in; without one the cache allocates
  \<open>entry_size\<close> bytes itself.
\<close>

record 'd dt_cache_t =
  cache_entry_size :: nat
  cache_cost :: nat
  cache_cost_quota :: nat
  cache_hashtable :: "32 word \<rightharpoonup> 'd dt_cache_entry_t"
  cache_lru :: "32 word list"
  cache_allocate :: "('d dt_cache_entry_t \<Rightarrow> 'd dt_cache_entry_t) option"

datatype lock_mode = ModeR | ModeW

fun trylock :: "lock_mode \<Rightarrow> rwlock \<Rightarrow> rwlock option" where
  "trylock ModeW l = trywrlock l"
| "trylock ModeR l = tryrdlock l"

section \<open>Operations\<close>

definition dt_cache_init :: "nat \<Rightarrow> nat \<Rightarrow> 'd dt_cache_t" where
  "dt_cache_init entry_size cost_quota =
     \<lparr>cache_entry_size = entry_size, cache_cost = 0, cache_cost_quota = cost_quota,
      cache_hashtable = Map.empty, cache_lru = [], cache_allocate = None\<rparr>"

definition dt_cache_set_allocate_callback ::
  "'d dt_cache_t \<Rightarrow> ('d dt_cache_entry_t \<Rightarrow> 'd dt_cache_entry_t) \<Rightarrow> 'd dt_cache_t" where
  "dt_cache_set_allocate_callback cache f = cache\<lparr>cache_allocate := Some f\<rparr>"

text \<open>The entries \<open>dt_cache_cleanup\<close> hands to the cleanup callback, in list order.\<close>

definition dt_cache_cleanup :: "'d dt_cache_t \<Rightarrow> 'd dt_cache_entry_t list" where
  "dt_cache_cleanup cache = map (\<lambda>k. the (cache_hashtable cache k)) (cache_lru cache)"

definition dt_cache_contains :: "'d dt_cache_t \<Rightarrow> 32 word \<Rightarrow> bool" where
  "dt_cache_contains cache key \<longleftrightarrow> cache_hashtable cache key \<noteq> None"

text \<open>Replace an entry, and move it to the most recently used end.\<close>

definition set_entry :: "'d dt_cache_entry_t \<Rightarrow> 'd dt_cache_t \<Rightarrow> 'd dt_cache_t" where
  "set_entry e cache =
     cache\<lparr>cache_hashtable := (cache_hashtable cache)(entry_key e \<mapsto> e)\<rparr>"

definition bubble_up :: "32 word \<Rightarrow> 'd dt_cache_t \<Rightarrow> 'd dt_cache_t" where
  "bubble_up key cache = cache\<lparr>cache_lru := remove1 key (cache_lru cache) @ [key]\<rparr>"

text \<open>\<open>dt_cache_testget\<close>: the new state, and the locked entry unless \<open>NULL\<close> is returned.\<close>

definition dt_cache_testget ::
  "'d dt_cache_t \<Rightarrow> 32 word \<Rightarrow> lock_mode \<Rightarrow> 'd dt_cache_t \<times> 'd dt_cache_entry_t option" where
  "dt_cache_testget cache key mode =
     (case cache_hashtable cache key of
        None \<Rightarrow> (cache, None)
      | Some e \<Rightarrow>
          (case trylock mode (entry_lock e) of
             None \<Rightarrow> (cache, None)
           | Some l \<Rightarrow> let e' = e\<lparr>entry_lock := l\<rparr> in (bubble_up key (set_entry e' cache), Some e')))"

text \<open>
  The loop of \<open>dt_cache_gc\<close> over the list as it was at the start, with the entries
  that were deleted.
\<close>

definition evictable :: "'d dt_cache_entry_t \<Rightarrow> bool" where
  "evictable e \<longleftrightarrow> trywrlock (entry_lock e) \<noteq> None \<and> \<not> entry_lock_demoting e"

definition delete_entry :: "'d dt_cache_entry_t \<Rightarrow> 'd dt_cache_t \<Rightarrow> 'd dt_cache_t" where
  "delete_entry e cache =
     cache\<lparr>cache_hashtable := (cache_hashtable cache)(entry_key e := None),
           cache_lru := remove1 (entry_key e) (cache_lru cache),
           cache_cost := cache_cost cache - entry_cost e\<rparr>"

fun gc_loop ::
  "nat \<Rightarrow> 32 word list \<Rightarrow> 'd dt_cache_t \<Rightarrow> 'd dt_cache_t \<times> 'd dt_cache_entry_t list" where
  "gc_loop fill_ratio [] cache = (cache, [])"
| "gc_loop fill_ratio (k # l) cache =
     (if f32_below fill_ratio (cache_cost cache) (cache_cost_quota cache) then (cache, [])
      else case cache_hashtable cache k of
        None \<Rightarrow> gc_loop fill_ratio l cache
      | Some e \<Rightarrow>
          if evictable e
          then case gc_loop fill_ratio l (delete_entry e cache) of (c, ev) \<Rightarrow> (c, e # ev)
          else gc_loop fill_ratio l cache)"

definition dt_cache_gc :: "'d dt_cache_t \<Rightarrow> nat \<Rightarrow> 'd dt_cache_t \<times> 'd dt_cache_entry_t list" where
  "dt_cache_gc cache fill_ratio = gc_loop fill_ratio (cache_lru cache) cache"

text \<open>
  A fresh entry, locked as \<open>dt_cache_get\<close> returns it. \<open>mem\<close> is what the aligned
  allocator returns when there is no allocation callback.
\<close>

definition new_entry ::
  "'d dt_cache_t \<Rightarrow> 32 word \<Rightarrow> lock_mode \<Rightarrow> 'd option \<Rightarrow> 'd dt_cache_entry_t" where
  "new_entry cache key mode mem =
     (let e = \<lparr>entry_data = None, entry_data_size = cache_entry_size cache, entry_cost = 1,
               entry_lock = RwFree, entry_lock_demoting = False, entry_key = key\<rparr>;
          e1 = (case cache_allocate cache of
                  Some f \<Rightarrow> (f e)\<lparr>entry_key := key\<rparr>
                | None \<Rightarrow> e\<lparr>entry_data := mem\<rparr>)
      in e1\<lparr>entry_lock := (if mode = ModeW \<or> cache_allocate cache \<noteq> None then RwWrite else RwRead 1)\<rparr>)"

definition dt_cache_get ::
  "'d dt_cache_t \<Rightarrow> 32 word \<Rightarrow> lock_mode \<Rightarrow> 'd option \<Rightarrow>
    ('d dt_cache_t \<times> 'd dt_cache_entry_t) option" where
  "dt_cache_get cache key mode mem =
     (case cache_hashtable cache key of
        Some e \<Rightarrow>
          (case trylock mode (entry_lock e) of
             None \<Rightarrow> None
           | Some l \<Rightarrow> let e' = e\<lparr>entry_lock := l\<rparr> in Some (bubble_up key (set_entry e' cache), e'))
      | None \<Rightarrow>
          let cache1 = (if f32_above f32_0_8 (cache_cost cache) (cache_cost_quota cache)
                        then fst (dt_cache_gc cache f32_0_8) else cache);
              e = new_entry cache key mode mem;
              cache2 = set_entry e cache1
          in Some (cache2\<lparr>cache_cost := cache_cost cache2 + entry_cost e,
                          cache_lru := cache_lru cache2 @ [key]\<rparr>, e))"

text \<open>
  \<open>dt_cache_remove\<close>: the return value is \<open>True\<close> when the key was not found, and the
  removed entry is handed to the cleanup callback.
\<close>

definition dt_cache_remove ::
  "'d dt_cache_t \<Rightarrow> 32 word \<Rightarrow> ('d dt_cache_t \<times> bool \<times> 'd dt_cache_entry_t option) option" where
  "dt_cache_remove cache key =
     (case cache_hashtable cache key of
        None \<Rightarrow> Some (cache, True, None)
      | Some e \<Rightarrow>
          (case trywrlock (entry_lock e) of
             None \<Rightarrow> None
           | Some l \<Rightarrow>
               if entry_lock_demoting e then None
               else Some (delete_entry e cache, False, Some e)))"

definition dt_cache_release :: "'d dt_cache_t \<Rightarrow> 32 word \<Rightarrow> 'd dt_cache_t" where
  "dt_cache_release cache key =
     (case cache_hashtable cache key of
        None \<Rightarrow> cache
      | Some e \<Rightarrow> set_entry (e\<lparr>entry_lock := rwunlock (entry_lock e)\<rparr>) cache)"

section \<open>Invariant\<close>

text \<open>
  The list and the hash table agree, keys are unique, and the total cost is the sum
  of the entries' costs.
\<close>

definition lru_cost :: "'d dt_cache_t \<Rightarrow> nat" where
  "lru_cost c = sum_list (map (\<lambda>k. entry_cost (the (cache_hashtable c k))) (cache_lru c))"

definition cache_ok :: "'d dt_cache_t \<Rightarrow> bool" where
  "cache_ok c \<longleftrightarrow> distinct (cache_lru c) \<and> set (cache_lru c) = dom (cache_hashtable c) \<and>
     (\<forall>k e. cache_hashtable c k = Some e \<longrightarrow> entry_key e = k) \<and> cache_cost c = lru_cost c"

lemma cache_ok_key: "cache_ok c \<Longrightarrow> cache_hashtable c k = Some e \<Longrightarrow> entry_key e = k"
  by (simp add: cache_ok_def)

lemma cache_ok_distinct: "cache_ok c \<Longrightarrow> distinct (cache_lru c)"
  by (simp add: cache_ok_def)

lemma cache_ok_lru: "cache_ok c \<Longrightarrow> k \<in> set (cache_lru c) \<longleftrightarrow> (\<exists>e. cache_hashtable c k = Some e)"
  by (auto simp: cache_ok_def)

lemma cache_init_ok [dt_invs]: "cache_ok (dt_cache_init n q)"
  by (simp add: cache_ok_def dt_cache_init_def lru_cost_def)

lemma sum_list_remove1_nat:
  "x \<in> set xs \<Longrightarrow> sum_list (map f (remove1 x xs)) = sum_list (map f xs) - f x"
  for f :: "'a \<Rightarrow> nat"
  by (induction xs) (auto simp: member_le_sum_list)

lemma set_entry_cost:
  assumes "cache_hashtable c (entry_key e') = Some e" and "entry_cost e' = entry_cost e"
  shows "lru_cost (set_entry e' c) = lru_cost c"
  unfolding lru_cost_def set_entry_def
  by (intro arg_cong [of _ _ sum_list] map_cong) (use assms in auto)

lemma set_entry_ok [dt_invs]:
  assumes "cache_ok c" and "cache_hashtable c k = Some e"
    and "entry_key e' = k" and "entry_cost e' = entry_cost e"
  shows "cache_ok (set_entry e' c)"
proof -
  have "lru_cost (set_entry e' c) = lru_cost c" using assms by (intro set_entry_cost) auto
  with assms show ?thesis by (auto simp: cache_ok_def set_entry_def)
qed

lemma bubble_up_ok [dt_invs]:
  assumes "cache_ok c" and "cache_hashtable c k = Some e"
  shows "cache_ok (bubble_up k c)"
proof -
  have k: "k \<in> set (cache_lru c)" using assms by (auto simp: cache_ok_lru)
  have "lru_cost (bubble_up k c) = lru_cost c"
    using k nth_le_sum_list by (simp add: lru_cost_def bubble_up_def sum_list_remove1_nat member_le_sum_list)
  with assms k show ?thesis by (auto simp: cache_ok_def bubble_up_def)
qed

lemma delete_entry_cost:
  assumes "cache_ok c" and "cache_hashtable c (entry_key e) = Some e"
  shows "lru_cost (delete_entry e c) = lru_cost c - entry_cost e"
proof -
  have k: "entry_key e \<in> set (cache_lru c)"
    using assms(2) by (simp add: cache_ok_lru [OF assms(1)])
  have "lru_cost (delete_entry e c) = sum_list (map (\<lambda>j. entry_cost (the (cache_hashtable c j)))
      (remove1 (entry_key e) (cache_lru c)))"
    unfolding lru_cost_def delete_entry_def
    using cache_ok_distinct [OF assms(1)] by (simp, intro sum_list_map_cong) auto
  with k assms(2) show ?thesis by (simp add: sum_list_remove1_nat lru_cost_def)
qed

lemma delete_entry_ok [dt_invs]:
  assumes "cache_ok c" and "cache_hashtable c k = Some e"
  shows "cache_ok (delete_entry e c)"
proof -
  have "entry_key e = k" using assms by (rule cache_ok_key)
  with assms have "lru_cost (delete_entry e c) = lru_cost c - entry_cost e"
    by (intro delete_entry_cost) auto
  with assms \<open>entry_key e = k\<close> show ?thesis by (auto simp: cache_ok_def delete_entry_def)
qed

lemma gc_loop_ok [dt_invs]: "cache_ok c \<Longrightarrow> cache_ok (fst (gc_loop m l c))"
proof (induction m l c rule: gc_loop.induct)
  case (2 m k l c)
  then show ?case by (auto split: option.splits prod.splits dest: delete_entry_ok)
qed simp

lemma dt_cache_gc_ok [dt_invs]: "cache_ok c \<Longrightarrow> cache_ok (fst (dt_cache_gc c m))"
  by (simp add: dt_cache_gc_def gc_loop_ok)

lemma new_entry_key [simp]: "entry_key (new_entry c k mode mem) = k"
  by (simp add: new_entry_def Let_def split: option.splits)

lemma new_entry_locked [simp]: "entry_lock (new_entry c k mode mem) \<noteq> RwFree"
  by (simp add: new_entry_def Let_def)

lemma insert_entry_ok [dt_invs]:
  assumes "cache_ok c" and "cache_hashtable c (entry_key e) = None"
  shows "cache_ok (set_entry e c\<lparr>cache_cost := cache_cost c + entry_cost e,
    cache_lru := cache_lru c @ [entry_key e]\<rparr>)"
proof -
  let ?c = "set_entry e c\<lparr>cache_cost := cache_cost c + entry_cost e,
    cache_lru := cache_lru c @ [entry_key e]\<rparr>"
  have k: "entry_key e \<notin> set (cache_lru c)"
    using assms(2) by (simp add: cache_ok_lru [OF assms(1)])
  have "lru_cost ?c = lru_cost c + entry_cost e"
    unfolding lru_cost_def set_entry_def using k by (simp, intro sum_list_map_cong) auto
  with assms k show ?thesis by (auto simp: cache_ok_def set_entry_def)
qed

lemma gc_loop_absent:
  "cache_hashtable c k = None \<Longrightarrow> cache_hashtable (fst (gc_loop m l c)) k = None"
  by (induction m l c rule: gc_loop.induct)
    (auto simp: delete_entry_def split: option.splits prod.splits)

lemma gc_loop_fields [dt_frames]:
  "cache_cost_quota (fst (gc_loop m l c)) = cache_cost_quota c"
  "cache_allocate (fst (gc_loop m l c)) = cache_allocate c"
  "cache_entry_size (fst (gc_loop m l c)) = cache_entry_size c"
  by (induction m l c rule: gc_loop.induct)
    (auto simp: delete_entry_def split: option.splits prod.splits)

lemma relock_ok [dt_invs]:
  assumes "cache_ok c" and "cache_hashtable c k = Some e"
  shows "cache_ok (bubble_up k (set_entry (e\<lparr>entry_lock := l\<rparr>) c))"
proof -
  have "entry_key e = k" using assms by (rule cache_ok_key)
  with assms have "cache_ok (set_entry (e\<lparr>entry_lock := l\<rparr>) c)" by (intro set_entry_ok) auto
  with \<open>entry_key e = k\<close> show ?thesis by (auto intro!: bubble_up_ok simp: set_entry_def)
qed

lemma dt_cache_testget_ok [dt_invs]: "cache_ok c \<Longrightarrow> cache_ok (fst (dt_cache_testget c k mode))"
  by (simp add: dt_cache_testget_def Let_def relock_ok split: option.splits)

lemma dt_cache_get_cases:
  assumes "dt_cache_get c k mode mem = Some (c', e')"
  obtains (hit) e l where "cache_hashtable c k = Some e" and "trylock mode (entry_lock e) = Some l"
      and "e' = e\<lparr>entry_lock := l\<rparr>" and "c' = bubble_up k (set_entry e' c)"
    | (miss) c1 where "cache_hashtable c k = None" and "e' = new_entry c k mode mem"
      and "c1 = c \<or> c1 = fst (dt_cache_gc c f32_0_8)"
      and "c' = set_entry e' c1\<lparr>cache_cost := cache_cost c1 + entry_cost e',
        cache_lru := cache_lru c1 @ [k]\<rparr>"
proof (cases "cache_hashtable c k")
  case None
  let ?c1 = "if f32_above f32_0_8 (cache_cost c) (cache_cost_quota c)
    then fst (dt_cache_gc c f32_0_8) else c"
  from None assms show ?thesis
    by (intro miss [of ?c1]) (auto simp: dt_cache_get_def Let_def set_entry_def)
next
  case (Some e)
  with assms hit show ?thesis
    by (auto simp: dt_cache_get_def Let_def split: option.splits)
qed

lemma dt_cache_get_ok [dt_invs]:
  assumes "cache_ok c" and "dt_cache_get c k mode mem = Some (c', e')"
  shows "cache_ok c'"
  using assms(2)
proof (cases rule: dt_cache_get_cases)
  case (hit e l)
  with assms(1) show ?thesis by (simp add: relock_ok)
next
  case (miss c1)
  then have "cache_ok c1" and "cache_hashtable c1 (entry_key e') = None"
    using assms(1) by (auto simp: dt_cache_gc_def gc_loop_ok gc_loop_absent)
  from insert_entry_ok [OF this] miss show ?thesis by simp
qed

lemma dt_cache_remove_ok [dt_invs]:
  "cache_ok c \<Longrightarrow> dt_cache_remove c k = Some (c', b, r) \<Longrightarrow> cache_ok c'"
  by (auto simp: dt_cache_remove_def delete_entry_ok split: option.splits if_splits)

lemma dt_cache_release_ok [dt_invs]:
  assumes "cache_ok c"
  shows "cache_ok (dt_cache_release c k)"
proof (cases "cache_hashtable c k")
  case (Some e)
  with assms have "entry_key e = k" by (auto dest: cache_ok_key)
  with assms Some show ?thesis
    by (auto simp: dt_cache_release_def intro!: set_entry_ok)
qed (use assms in \<open>simp add: dt_cache_release_def\<close>)


section \<open>What a collection deletes\<close>

definition in_table :: "'d dt_cache_t \<Rightarrow> 32 word list \<Rightarrow> bool" where
  "in_table c l \<longleftrightarrow> (\<forall>k\<in>set l. \<exists>e. cache_hashtable c k = Some e \<and> entry_key e = k)"

lemma cache_ok_in_table: "cache_ok c \<Longrightarrow> in_table c (cache_lru c)"
  using cache_ok_lru cache_ok_key unfolding in_table_def by blast

text \<open>The evictable keys among those visited, oldest first, are the ones deleted.\<close>

definition gc_result ::
  "nat \<Rightarrow> 32 word list \<Rightarrow> 'd dt_cache_t \<Rightarrow> 'd dt_cache_t \<Rightarrow> 'd dt_cache_entry_t list \<Rightarrow> nat \<Rightarrow> bool" where
  "gc_result m l c c' ev n \<longleftrightarrow>
     (let ks = filter (\<lambda>k. evictable (the (cache_hashtable c k))) (take n l)
      in ev = map (\<lambda>k. the (cache_hashtable c k)) ks \<and>
         cache_hashtable c' = (\<lambda>k. if k \<in> set ks then None else cache_hashtable c k) \<and>
         cache_lru c' = filter (\<lambda>k. k \<notin> set ks) (cache_lru c) \<and>
         (n = length l \<or> f32_below m (cache_cost c') (cache_cost_quota c')))"

lemma gc_result_evict:
  assumes e: "cache_hashtable c k = Some e" "entry_key e = k" "evictable e"
    and d: "distinct (k # l)" "distinct (cache_lru c)"
    and r: "gc_result m l (delete_entry e c) c' ev n"
  shows "gc_result m (k # l) c c' (e # ev) (Suc n)"
proof -
  have agree: "cache_hashtable (delete_entry e c) j = cache_hashtable c j" if "j \<noteq> k" for j
    using that by (simp add: delete_entry_def e)
  have notk: "j \<noteq> k" if "j \<in> set (take n l)" for j
    using that d(1) in_set_takeD by fastforce
  define ks where "ks = filter (\<lambda>j. evictable (the (cache_hashtable c j))) (take n l)"
  have ks: "filter (\<lambda>j. evictable (the (cache_hashtable (delete_entry e c) j))) (take n l) = ks"
    unfolding ks_def by (intro filter_cong refl) (metis agree notk)
  then have "ev = map (\<lambda>j. the (cache_hashtable (delete_entry e c) j)) ks"
    and ht: "cache_hashtable c' = (\<lambda>j. if j \<in> set ks then None else cache_hashtable (delete_entry e c) j)"
    and lru: "cache_lru c' = filter (\<lambda>j. j \<notin> set ks) (cache_lru (delete_entry e c))"
    and stop: "n = length l \<or> f32_below m (cache_cost c') (cache_cost_quota c')"
    using r by (simp_all add: gc_result_def Let_def)
  moreover have "map (\<lambda>j. the (cache_hashtable (delete_entry e c) j)) ks =
      map (\<lambda>j. the (cache_hashtable c j)) ks"
    by (intro map_cong refl) (metis agree notk filter_is_subset ks_def subsetD)
  moreover have "cache_hashtable c' = (\<lambda>j. if j \<in> set (k # ks) then None else cache_hashtable c j)"
    unfolding ht by (auto simp: fun_eq_iff agree) (simp add: delete_entry_def e)
  moreover have "cache_lru c' = filter (\<lambda>j. j \<notin> set (k # ks)) (cache_lru c)"
    unfolding lru using d(2) e(2)
    by (auto simp: delete_entry_def distinct_remove1_removeAll removeAll_filter_not_eq intro!: filter_cong)
  moreover have "filter (\<lambda>j. evictable (the (cache_hashtable c j))) (take (Suc n) (k # l)) = k # ks"
    using e by (simp add: ks_def)
  ultimately show ?thesis
    using e stop by (simp add: gc_result_def Let_def)
qed

lemma gc_loop_result:
  assumes "distinct (cache_lru c)" and "distinct l" and "in_table c l"
  shows "\<exists>n\<le>length l. gc_result m l c (fst (gc_loop m l c)) (snd (gc_loop m l c)) n"
  using assms
proof (induction l arbitrary: c)
  case Nil
  show ?case by (rule exI [of _ 0]) (simp add: gc_result_def Let_def)
next
  case (Cons k l)
  show ?case
  proof (cases "f32_below m (cache_cost c) (cache_cost_quota c)")
    case True
    then show ?thesis by (intro exI [of _ 0]) (simp add: gc_result_def Let_def)
  next
    case False
    from Cons.prems(3) obtain e where e: "cache_hashtable c k = Some e" "entry_key e = k"
      by (auto simp: in_table_def)
    show ?thesis
    proof (cases "evictable e")
      case ev: True
      let ?d = "delete_entry e c"
      have agree: "j \<noteq> k \<Longrightarrow> cache_hashtable ?d j = cache_hashtable c j" for j
        by (simp add: delete_entry_def e)
      have "in_table ?d l"
        unfolding in_table_def
      proof
        fix j assume "j \<in> set l"
        then have "j \<noteq> k" using Cons.prems(2) by auto
        then show "\<exists>e. cache_hashtable ?d j = Some e \<and> entry_key e = j"
          using Cons.prems(3) \<open>j \<in> set l\<close> by (simp add: in_table_def agree)
      qed
      moreover have "distinct (cache_lru ?d)" using Cons.prems by (simp add: delete_entry_def)
      ultimately obtain n where n: "n \<le> length l"
        and r: "gc_result m l ?d (fst (gc_loop m l ?d)) (snd (gc_loop m l ?d)) n"
        using Cons.IH [of ?d] Cons.prems(2) by auto
      have "gc_result m (k # l) c (fst (gc_loop m l ?d)) (e # snd (gc_loop m l ?d)) (Suc n)"
        using e ev Cons.prems(2,1) r by (rule gc_result_evict)
      moreover have "gc_loop m (k # l) c = (fst (gc_loop m l ?d), e # snd (gc_loop m l ?d))"
        using False e ev by (simp split: prod.splits)
      ultimately show ?thesis using n by (intro exI [of _ "Suc n"]) simp
    next
      case False': False
      obtain n where "n \<le> length l" and "gc_result m l c (fst (gc_loop m l c)) (snd (gc_loop m l c)) n"
        using Cons.IH [of c] Cons.prems by (auto simp: in_table_def)
      then show ?thesis
        using e False False' by (intro exI [of _ "Suc n"]) (simp add: gc_result_def Let_def)
    qed
  qed
qed


section \<open>The interface its clients use\<close>

text \<open>
  What the image and mipmap caches rely on: the entry a get returns is in the cache
  and held, and a held entry of another key stays as it is. A request names a key and
  says how the entry is wanted.
\<close>

fun run_gets :: "('c \<Rightarrow> 'r \<Rightarrow> ('c \<times> 'e) option) \<Rightarrow> 'c \<Rightarrow> 'r list \<Rightarrow> 'c option" where
  "run_gets get c [] = Some c"
| "run_gets get c (r # rs) = (case get c r of None \<Rightarrow> None | Some (c', e) \<Rightarrow> run_gets get c' rs)"

locale keyed_cache =
  fixes lookup :: "'c \<Rightarrow> 'k \<Rightarrow> 'e option"
    and request_key :: "'r \<Rightarrow> 'k"
    and get :: "'c \<Rightarrow> 'r \<Rightarrow> ('c \<times> 'e) option"
    and held :: "'e \<Rightarrow> bool"
    and cinv :: "'c \<Rightarrow> bool"
  assumes get_cinv: "cinv c \<Longrightarrow> get c r = Some (c', e) \<Longrightarrow> cinv c'"
    and get_held: "cinv c \<Longrightarrow> get c r = Some (c', e) \<Longrightarrow> lookup c' (request_key r) = Some e \<and> held e"
    and get_others: "cinv c \<Longrightarrow> get c r = Some (c', e) \<Longrightarrow> j \<noteq> request_key r \<Longrightarrow>
      lookup c j = Some d \<Longrightarrow> held d \<Longrightarrow> lookup c' j = Some d"
begin

lemma held_stays:
  assumes "cinv c" and "lookup c j = Some d" and "held d" and "j \<notin> request_key ` set rs"
    and "run_gets get c rs = Some c'"
  shows "lookup c' j = Some d \<and> cinv c'"
  using assms
  by (induction rs arbitrary: c) (auto split: option.splits dest: get_cinv get_others)

lemma get_then_gets:
  assumes "cinv c" and "get c r = Some (c1, e)" and "request_key r \<notin> request_key ` set rs"
    and "run_gets get c1 rs = Some c2"
  shows "lookup c2 (request_key r) = Some e"
  using assms held_stays get_held get_cinv by metis

end

locale keyed_cache_remove = keyed_cache lookup request_key get held cinv
  for lookup :: "'c \<Rightarrow> 'k \<Rightarrow> 'e option" and request_key :: "'r \<Rightarrow> 'k" and get held cinv +
  fixes remove :: "'c \<Rightarrow> 'k \<Rightarrow> 'c option"
  assumes remove_cinv: "cinv c \<Longrightarrow> remove c k = Some c' \<Longrightarrow> cinv c'"
    and remove_lookup: "cinv c \<Longrightarrow> remove c k = Some c' \<Longrightarrow>
      lookup c' = (lookup c)(k := None)"
    and remove_held: "cinv c \<Longrightarrow> lookup c k = Some e \<Longrightarrow> held e \<Longrightarrow> remove c k = None"
begin

lemma held_not_removed:
  assumes "cinv c" and "get c r = Some (c1, e)" and "request_key r \<notin> request_key ` set rs"
    and "run_gets get c1 rs = Some c2"
  shows "remove c2 (request_key r) = None"
  using assms get_then_gets held_stays get_held get_cinv remove_held by metis

end

definition entry_held :: "'d dt_cache_entry_t \<Rightarrow> bool" where
  "entry_held e \<longleftrightarrow> entry_lock e \<noteq> RwFree \<or> entry_lock_demoting e"

lemma evictable_held: "evictable e \<longleftrightarrow> \<not> entry_held e"
  by (cases "entry_lock e") (auto simp: evictable_def entry_held_def)

lemma trylock_not_free: "trylock mode l = Some l' \<Longrightarrow> l' \<noteq> RwFree"
  by (cases mode; cases l) auto

lemma dt_cache_gc_result:
  assumes "cache_ok c"
  shows "\<exists>n\<le>length (cache_lru c).
    gc_result m (cache_lru c) c (fst (dt_cache_gc c m)) (snd (dt_cache_gc c m)) n"
  unfolding dt_cache_gc_def
  using assms by (intro gc_loop_result) (auto simp: cache_ok_distinct cache_ok_in_table)

lemma gc_keeps_held:
  assumes "cache_ok c" and "cache_hashtable c k = Some e" and "entry_held e"
  shows "cache_hashtable (fst (dt_cache_gc c m)) k = Some e"
proof -
  obtain n where "gc_result m (cache_lru c) c (fst (dt_cache_gc c m)) (snd (dt_cache_gc c m)) n"
    using dt_cache_gc_result [OF assms(1)] by blast
  then show ?thesis using assms(2,3) by (auto simp: gc_result_def Let_def evictable_held)
qed

lemma dt_cache_get_held:
  assumes "cache_ok c" and "dt_cache_get c k mode mem = Some (c', e)"
  shows "cache_hashtable c' k = Some e \<and> entry_lock e \<noteq> RwFree \<and> last (cache_lru c') = k"
  using assms(2)
proof (cases rule: dt_cache_get_cases)
  case (hit d l)
  then have "entry_key e = k" using cache_ok_key [OF assms(1)] by simp
  with hit show ?thesis by (auto simp: bubble_up_def set_entry_def dest: trylock_not_free)
next
  case (miss c1)
  then show ?thesis by (auto simp: set_entry_def)
qed

lemma dt_cache_get_others:
  assumes "cache_ok c" and "dt_cache_get c k mode mem = Some (c', e)" and "j \<noteq> k"
    and "cache_hashtable c j = Some d" and "entry_held d"
  shows "cache_hashtable c' j = Some d"
  using assms(2)
proof (cases rule: dt_cache_get_cases)
  case (hit d' l)
  then have "entry_key e = k" using cache_ok_key [OF assms(1)] by simp
  with hit assms(3,4) show ?thesis by (simp add: bubble_up_def set_entry_def)
next
  case (miss c1)
  then have "cache_hashtable c1 j = Some d"
    using assms gc_keeps_held by blast
  with miss assms(3) show ?thesis by (simp add: set_entry_def)
qed

text \<open>\<open>dt_cache_remove\<close> as the interface sees it: \<open>None\<close> while the entry cannot be locked.\<close>

definition cache_remove :: "'d dt_cache_t \<Rightarrow> 32 word \<Rightarrow> 'd dt_cache_t option" where
  "cache_remove c k = map_option fst (dt_cache_remove c k)"

text \<open>A request has a key, a mode and the memory that is there for a new entry.\<close>

type_synonym 'd get_request = "32 word \<times> lock_mode \<times> 'd option"

definition get_request :: "'d dt_cache_t \<Rightarrow> 'd get_request \<Rightarrow> ('d dt_cache_t \<times> 'd dt_cache_entry_t) option" where
  "get_request c r = (case r of (k, mode, mem) \<Rightarrow> dt_cache_get c k mode mem)"

interpretation lru: keyed_cache_remove cache_hashtable fst get_request entry_held cache_ok cache_remove
proof
  fix c :: "'a dt_cache_t" and k c' e
  assume c: "cache_ok c" and r: "cache_remove c k = Some c'"
  then obtain b d where "dt_cache_remove c k = Some (c', b, d)"
    by (auto simp: cache_remove_def)
  then show "cache_ok c'" using c by (auto intro: dt_cache_remove_ok)
  show "cache_hashtable c' = (cache_hashtable c)(k := None)"
    using r c by (auto simp: cache_remove_def dt_cache_remove_def delete_entry_def fun_eq_iff
        split: option.splits if_splits dest: cache_ok_key)
next
  fix c :: "'a dt_cache_t" and k e
  assume "cache_ok c" "cache_hashtable c k = Some e" "entry_held e"
  then show "cache_remove c k = None"
    by (cases "entry_lock e") (auto simp: cache_remove_def dt_cache_remove_def entry_held_def)
qed (auto intro: dt_cache_get_ok dt_cache_get_others simp: get_request_def entry_held_def dest: dt_cache_get_held
    split: prod.splits)


section \<open>Interleaved use\<close>

text \<open>
  One step of any thread. The holder of an entry may change its data and its demoting
  flag.
\<close>

inductive cache_step :: "'d dt_cache_t \<Rightarrow> 'd dt_cache_t \<Rightarrow> bool" where
  get: "dt_cache_get c k mode mem = Some (c', e) \<Longrightarrow> cache_step c c'"
| testget: "cache_step c (fst (dt_cache_testget c k mode))"
| remove: "dt_cache_remove c k = Some (c', b, r) \<Longrightarrow> cache_step c c'"
| release: "cache_step c (dt_cache_release c k)"
| gc: "cache_step c (fst (dt_cache_gc c m))"
| update: "cache_hashtable c k = Some e \<Longrightarrow> entry_held e \<Longrightarrow>
    cache_step c (set_entry (e\<lparr>entry_data := d, entry_data_size := n, entry_lock_demoting := b\<rparr>) c)"

definition cache_start :: "'d dt_cache_t \<Rightarrow> bool" where
  "cache_start c \<longleftrightarrow> (\<exists>n q alloc. c = dt_cache_init n q\<lparr>cache_allocate := alloc\<rparr>)"

interpretation cache_sys: invariant_system cache_start cache_step cache_ok
proof
  fix c :: "'d dt_cache_t"
  assume "cache_start c"
  then show "cache_ok c"
    by (auto simp: cache_start_def cache_ok_def dt_cache_init_def lru_cost_def)
next
  fix c c' :: "'d dt_cache_t"
  assume c: "cache_ok c" and "cache_step c c'"
  from this(2) show "cache_ok c'"
  proof cases
    case (update k e d n b)
    then have "entry_key e = k" using c by (auto dest: cache_ok_key)
    with update c show ?thesis by (auto intro!: set_entry_ok)
  qed (use c in \<open>auto intro: dt_invs\<close>)
qed


section \<open>Properties\<close>

text \<open>
  C27: whatever sequence of gets, test-gets, removals, releases, collections and updates
  the threads interleave on a fresh cache, the list has no duplicates and holds exactly
  the keys of the hash table, and the accounted cost is the sum of the costs of the
  entries, so that no subtraction from it wraps around.
\<close>

theorem lru_cache_invariant:
  assumes "cache_start c0" and "cache_step\<^sup>*\<^sup>* c0 c"
  shows "distinct (cache_lru c) \<and> set (cache_lru c) = dom (cache_hashtable c) \<and>
    cache_cost c = sum_list (map (\<lambda>k. entry_cost (the (cache_hashtable c k))) (cache_lru c))"
  using cache_sys.reach_invar [OF assms] by (simp add: cache_ok_def lru_cost_def)

definition two_entries :: "nat dt_cache_t" where
  "two_entries =
     fst (the (dt_cache_get
       (fst (the (dt_cache_get (dt_cache_init 8 2) 5 ModeR (Some 1)))) 6 ModeW (Some 2)))"

lemma quota_2: "f32_round 26843546 = 26843546"
  by (simp add: f32_round_def bit_len.simps)

lemmas cache_eval = quota_2
  two_entries_def dt_cache_get_def dt_cache_init_def new_entry_def set_entry_def bubble_up_def
  f32_above_def f32_below_def f32_scaled_def f32_0_8_def

lemma two_entries_reach: "cache_step\<^sup>*\<^sup>* (dt_cache_init 8 2) two_entries"
proof -
  let ?c1 = "fst (the (dt_cache_get (dt_cache_init 8 2) 5 ModeR (Some (1 :: nat))))"
  have 1: "cache_step (dt_cache_init 8 2) ?c1"
    by (rule cache_step.get [where e = "snd (the (dt_cache_get (dt_cache_init 8 2) 5 ModeR (Some 1)))"
          and k = 5 and mode = ModeR and mem = "Some 1"])
      (simp add: dt_cache_get_def dt_cache_init_def Let_def)
  have 2: "cache_step ?c1 two_entries"
    by (rule cache_step.get [where e = "snd (the (dt_cache_get ?c1 6 ModeW (Some 2)))"
          and k = 6 and mode = ModeW and mem = "Some 2"])
      (simp add: cache_eval Let_def)
  from 1 2 show ?thesis by (meson r_into_rtranclp rtranclp.rtrancl_into_rtrancl)
qed

theorem lru_cache_invariant_witness:
  "cache_cost two_entries = 2 \<and>
   cache_cost two_entries =
     sum_list (map (\<lambda>k. entry_cost (the (cache_hashtable two_entries k))) (cache_lru two_entries))
   \<and> cache_lru two_entries = [5, 6]"
proof -
  have "cache_start (dt_cache_init 8 2 :: nat dt_cache_t)"
    by (simp add: cache_start_def dt_cache_init_def)
  from lru_cache_invariant [OF this two_entries_reach] show ?thesis
    by (simp add: cache_eval Let_def)
qed

text \<open>
  A collection deletes in least-recently-used order and only what nobody holds: for
  some prefix of the list it deletes exactly the entries of the prefix that are neither
  locked nor being demoted and keeps everything else in order, and when it stops the
  cost is below the requested share of the quota or every entry left is held.
\<close>

theorem dt_cache_gc_spec:
  assumes "cache_ok c" and "dt_cache_gc c m = (c', ev)"
  shows "\<exists>n. ev = map (\<lambda>k. the (cache_hashtable c k))
                (filter (\<lambda>k. \<not> entry_held (the (cache_hashtable c k))) (take n (cache_lru c))) \<and>
      cache_lru c' = filter (\<lambda>k. entry_held (the (cache_hashtable c k))) (take n (cache_lru c))
                     @ drop n (cache_lru c) \<and>
      (f32_below m (cache_cost c') (cache_cost_quota c) \<or>
       (\<forall>k\<in>set (cache_lru c'). entry_held (the (cache_hashtable c' k))))"
proof -
  let ?h = "\<lambda>k. entry_held (the (cache_hashtable c k))"
  obtain n where n: "n \<le> length (cache_lru c)" and "gc_result m (cache_lru c) c c' ev n"
    using dt_cache_gc_result [OF assms(1), of m] assms(2) by auto
  then have ev: "ev = map (\<lambda>k. the (cache_hashtable c k)) (filter (\<lambda>k. \<not> ?h k) (take n (cache_lru c)))"
    and ht: "cache_hashtable c' = (\<lambda>k. if k \<in> set (take n (cache_lru c)) \<and> \<not> ?h k then None else cache_hashtable c k)"
    and lru: "cache_lru c' = filter (\<lambda>k. \<not> (k \<in> set (take n (cache_lru c)) \<and> \<not> ?h k)) (cache_lru c)"
    and stop: "n = length (cache_lru c) \<or> f32_below m (cache_cost c') (cache_cost_quota c')"
    by (simp_all add: gc_result_def Let_def evictable_held)
  have q: "cache_cost_quota c' = cache_cost_quota c"
    using gc_loop_fields(1) [of m "cache_lru c" c] assms(2) by (simp add: dt_cache_gc_def)
  have disj: "set (take n (cache_lru c)) \<inter> set (drop n (cache_lru c)) = {}"
    using cache_ok_distinct [OF assms(1)] by (rule set_take_disj_set_drop_if_distinct) simp
  have "cache_lru c' = filter (\<lambda>k. \<not> (k \<in> set (take n (cache_lru c)) \<and> \<not> ?h k))
      (take n (cache_lru c) @ drop n (cache_lru c))"
    using lru by simp
  also have "\<dots> = filter ?h (take n (cache_lru c)) @ drop n (cache_lru c)"
    unfolding filter_append using disj
    by (intro arg_cong2 [of _ _ _ _ "(@)"] filter_cong filter_True) auto
  finally have l: "cache_lru c' = filter ?h (take n (cache_lru c)) @ drop n (cache_lru c)" .
  have "\<forall>k\<in>set (cache_lru c'). entry_held (the (cache_hashtable c' k))" if "n = length (cache_lru c)"
    using that l ht by auto
  with ev l stop q show ?thesis by auto
qed

theorem dt_cache_gc_spec_witness:
  "cache_ok (dt_cache_release two_entries 5) \<and>
   cache_lru (fst (dt_cache_gc (dt_cache_release two_entries 5) 0)) = [6] \<and>
   (\<exists>n. cache_lru (fst (dt_cache_gc (dt_cache_release two_entries 5) 0)) =
     filter (\<lambda>k. entry_held (the (cache_hashtable (dt_cache_release two_entries 5) k)))
       (take n (cache_lru (dt_cache_release two_entries 5)))
     @ drop n (cache_lru (dt_cache_release two_entries 5)))"
proof -
  have "cache_start (dt_cache_init 8 2 :: nat dt_cache_t)"
    by (simp add: cache_start_def dt_cache_init_def)
  then have ok: "cache_ok (dt_cache_release two_entries 5)"
    using two_entries_reach by (intro dt_cache_release_ok) (rule cache_sys.reach_invar)
  have "cache_lru (fst (dt_cache_gc (dt_cache_release two_entries 5) 0)) = [6]"
    by (simp add: cache_eval Let_def dt_cache_release_def dt_cache_gc_def evictable_def delete_entry_def)
  with ok dt_cache_gc_spec [OF ok, of 0] show ?thesis by (metis prod.collapse)
qed

text \<open>
  C24: an entry that a thread has got is safe from the others: as long as it is not
  released, it stays in the cache with its lock and data through any sequence of gets
  of other keys, each for reading or for writing as it likes, including the collections these trigger, and cannot be removed.
\<close>

theorem held_entry_survives:
  assumes "cache_ok c" and "dt_cache_get c k mode mem = Some (c1, e)" and "k \<notin> fst ` set rs"
    and "run_gets get_request c1 rs = Some c2"
  shows "cache_hashtable c2 k = Some e \<and> dt_cache_remove c2 k = None"
proof -
  have "get_request c (k, mode, mem) = Some (c1, e)" using assms(2) by (simp add: get_request_def)
  from lru.get_then_gets [OF assms(1) this _ assms(4)] lru.held_not_removed [OF assms(1) this _ assms(4)] assms(3)
  show ?thesis by (simp add: cache_remove_def)
qed

definition run_c1 :: "nat dt_cache_t \<times> nat dt_cache_entry_t" where
  "run_c1 = the (dt_cache_get (dt_cache_init 8 2) 5 ModeW (Some 1))"

theorem held_entry_survives_witness:
  "\<exists>c2. run_gets get_request (fst run_c1) [(6, ModeR, Some 2), (7, ModeW, Some 3)] = Some c2 \<and>
     cache_hashtable c2 5 = Some (snd run_c1) \<and> cache_lru c2 = [5, 6, 7]"
proof -
  have g: "dt_cache_get (dt_cache_init 8 2) 5 ModeW (Some 1) = Some (fst run_c1, snd run_c1)"
    by (simp add: run_c1_def dt_cache_get_def dt_cache_init_def Let_def)
  have "\<exists>c2. run_gets get_request (fst run_c1) [(6, ModeR, Some 2), (7, ModeW, Some 3)] = Some c2 \<and> cache_lru c2 = [5, 6, 7]"
    by (simp add: run_c1_def get_request_def cache_eval Let_def dt_cache_gc_def evictable_def)
  then obtain c2 where r: "run_gets get_request (fst run_c1) [(6, ModeR, Some 2), (7, ModeW, Some 3)] = Some c2"
    "cache_lru c2 = [5, 6, 7]" by blast
  with held_entry_survives [OF cache_init_ok g _ r(1)] show ?thesis by simp
qed

text \<open>
  A get that succeeds leaves the key in the table with the returned entry, at the
  most recently used end of the list, locked for writing if that was asked for or if
  the entry is new and there is an allocation callback, and otherwise for reading.
\<close>

theorem dt_cache_get_spec:
  assumes "cache_ok c" and "dt_cache_get c k mode mem = Some (c', e)"
  shows "cache_hashtable c' k = Some e \<and> last (cache_lru c') = k \<and>
    (case cache_hashtable c k of
       Some d \<Rightarrow> entry_data e = entry_data d \<and> trylock mode (entry_lock d) = Some (entry_lock e)
     | None \<Rightarrow> entry_lock e = (if mode = ModeW \<or> cache_allocate c \<noteq> None then RwWrite else RwRead 1))"
  using assms(2)
proof (cases rule: dt_cache_get_cases)
  case (hit d l)
  with dt_cache_get_held [OF assms] show ?thesis by simp
next
  case (miss c1)
  then have "entry_lock e = (if mode = ModeW \<or> cache_allocate c \<noteq> None then RwWrite else RwRead 1)"
    by (simp add: new_entry_def Let_def)
  with miss dt_cache_get_held [OF assms] show ?thesis by simp
qed

theorem dt_cache_get_spec_witness:
  "cache_hashtable (fst run_c1) 5 = Some (snd run_c1) \<and> last (cache_lru (fst run_c1)) = 5
   \<and> entry_lock (snd run_c1) = RwWrite"
proof -
  have g: "dt_cache_get (dt_cache_init 8 2) 5 ModeW (Some 1) = Some (fst run_c1, snd run_c1)"
    by (simp add: run_c1_def dt_cache_get_def dt_cache_init_def Let_def)
  from dt_cache_get_spec [OF cache_init_ok g] show ?thesis by (simp add: dt_cache_init_def)
qed

end
