(* ===== verification/Pixelpipe_Cache.thy ===== *)
theory Pixelpipe_Cache
  imports Prelude
begin

text \<open>
  The cache of intermediate buffers of a pixel pipe (\<open>src/develop/pixelpipe_cache.c\<close>)
  and the hash that identifies a buffer. The parallel arrays of the C structure are one
  list of cache lines. Buffers are addresses (\<open>None\<close> is \<open>NULL\<close>), and the result of an
  allocation is an argument of the operation that makes it. A buffer descriptor is the
  type \<open>'b\<close>. The ages of lines are unbounded integers; the C counters are 32 bits wide.
\<close>

unbundle bit_operations_syntax

section \<open>Hashing\<close>

text \<open>\<open>dt_hash\<close>: Bernstein's hash on 64 bits.\<close>

definition dt_hash :: "64 word \<Rightarrow> 8 word list \<Rightarrow> 64 word" where
  "dt_hash hash str = foldl (\<lambda>h b. (push_bit 5 h + h) XOR ucast b) hash str"

definition DT_INITHASH :: "64 word" where "DT_INITHASH = 5381"
definition DT_INVALID_HASH :: "64 word" where "DT_INVALID_HASH = 0"

lemma dt_hash_append: "dt_hash h (xs @ ys) = dt_hash (dt_hash h xs) ys"
  by (simp add: dt_hash_def)

datatype color_picker =
    DT_COLOR_PICKER_SIZE_BOX "8 word list"
  | DT_COLOR_PICKER_SIZE_POINT "8 word list"
  | DT_COLOR_PICKER_SIZE_NONE

text \<open>What the hash reads of a piece and its module, and of the pipe.\<close>

record hash_piece =
  piece_hash :: "64 word"
  piece_enabled :: bool
  module_enabled :: bool
  module_is_skipped :: bool
  request_color_pick :: bool

record hash_pipe =
  image_id :: "32 word"
  pipe_type :: "32 word"
  want_detail_mask :: "32 word"
  input_profile_info :: "8 word list"
  work_profile_info :: "8 word list"
  output_profile_info :: "8 word list"
  export_profile_info :: "8 word list"
  pipe_is_basic :: bool
  scharr_hash :: "64 word"
  primary_sample :: color_picker
  pipe_nodes :: "hash_piece list"

definition piece_included :: "hash_pipe \<Rightarrow> hash_piece \<Rightarrow> bool" where
  "piece_included pipe piece \<longleftrightarrow>
     \<not> (module_is_skipped piece \<and> pipe_is_basic pipe) \<and> (module_enabled piece \<or> piece_enabled piece)"

definition piece_hash_step :: "hash_pipe \<Rightarrow> bool \<Rightarrow> 64 word \<Rightarrow> hash_piece \<Rightarrow> 64 word" where
  "piece_hash_step pipe has_roi hash piece =
     (if piece_included pipe piece
      then let hash1 = dt_hash hash (le_bytes 8 (piece_hash piece))
           in if request_color_pick piece \<and> has_roi
              then case primary_sample pipe of
                     DT_COLOR_PICKER_SIZE_BOX box \<Rightarrow> dt_hash hash1 box
                   | DT_COLOR_PICKER_SIZE_POINT point \<Rightarrow> dt_hash hash1 point
                   | DT_COLOR_PICKER_SIZE_NONE \<Rightarrow> hash1
              else hash1
      else hash)"

definition pixelpipe_cache_basichash :: "hash_pipe \<Rightarrow> nat \<Rightarrow> bool \<Rightarrow> 64 word" where
  "pixelpipe_cache_basichash pipe position has_roi =
     (let mode = (if has_roi
                  then le_bytes 4 (image_id pipe) @ le_bytes 4 (pipe_type pipe)
                       @ le_bytes 4 (want_detail_mask pipe)
                  else le_bytes 4 (image_id pipe));
          hash = dt_hash DT_INITHASH mode;
          hash = dt_hash hash (input_profile_info pipe);
          hash = dt_hash hash (work_profile_info pipe);
          hash = dt_hash hash (output_profile_info pipe);
          hash = dt_hash hash (export_profile_info pipe)
      in foldl (piece_hash_step pipe has_roi) hash (take position (pipe_nodes pipe)))"

text \<open>The region of interest is the bytes of its structure.\<close>

definition dt_dev_pixelpipe_cache_hash :: "8 word list option \<Rightarrow> hash_pipe \<Rightarrow> nat \<Rightarrow> 64 word" where
  "dt_dev_pixelpipe_cache_hash roi pipe position =
     (let hash = pixelpipe_cache_basichash pipe position (roi \<noteq> None)
      in case roi of
           None \<Rightarrow> hash
         | Some r \<Rightarrow> dt_hash (dt_hash hash r) (le_bytes 8 (scharr_hash pipe)))"


section \<open>Cache lines\<close>

abbreviation DT_PIPECACHE_MIN :: nat where
  "DT_PIPECACHE_MIN \<equiv> 2"

record 'b cline =
  line_data :: "nat option"
  line_size :: nat
  line_dsc :: 'b
  line_hash :: "64 word"
  line_used :: int
  line_ioporder :: int

record 'b dt_dev_pixelpipe_cache_t =
  pc_lines :: "'b cline list"
  pc_allmem :: nat
  pc_memlimit :: nat
  pc_calls :: nat
  pc_lastline :: nat
  pc_tests :: nat
  pc_hits :: nat
  pc_lused :: nat
  pc_linvalid :: nat
  pc_limportant :: nat

record 'b dt_dev_pixelpipe_t =
  pipe_cache :: "'b dt_dev_pixelpipe_cache_t"
  mask_display :: bool
  nocache :: bool
  bcache_data :: "nat option"
  bcache_hash :: "64 word"

abbreviation pc_entries :: "'b dt_dev_pixelpipe_cache_t \<Rightarrow> nat" where
  "pc_entries c \<equiv> length (pc_lines c)"

text \<open>Update one line of the cache.\<close>

definition set_line :: "nat \<Rightarrow> 'b cline \<Rightarrow> 'b dt_dev_pixelpipe_cache_t \<Rightarrow> 'b dt_dev_pixelpipe_cache_t" where
  "set_line k l c = c\<lparr>pc_lines := (pc_lines c)[k := l]\<rparr>"

text \<open>Apply a function to the lines from \<open>DT_PIPECACHE_MIN\<close> on, as the loops of the code do.\<close>

definition map_clines ::
  "('b cline \<Rightarrow> 'b cline) \<Rightarrow> 'b dt_dev_pixelpipe_cache_t \<Rightarrow> 'b dt_dev_pixelpipe_cache_t" where
  "map_clines f c = c\<lparr>pc_lines := take DT_PIPECACHE_MIN (pc_lines c) @
     map f (drop DT_PIPECACHE_MIN (pc_lines c))\<rparr>"

section \<open>Initialisation\<close>

definition init_lines :: "nat \<Rightarrow> 'b \<Rightarrow> 'b cline list" where
  "init_lines entries dsc0 =
     map (\<lambda>k. \<lparr>line_data = None, line_size = 0, line_dsc = dsc0, line_hash = DT_INVALID_HASH,
               line_used = 64 + int k, line_ioporder = 0\<rparr>) [0..<entries]"

text \<open>The allocation loop: \<open>False\<close> when an allocation failed.\<close>

fun prealloc_loop ::
  "nat \<Rightarrow> (nat \<Rightarrow> nat option) \<Rightarrow> nat list \<Rightarrow> 'b dt_dev_pixelpipe_cache_t \<Rightarrow>
    'b dt_dev_pixelpipe_cache_t \<times> bool" where
  "prealloc_loop sz alloc [] c = (c, True)"
| "prealloc_loop sz alloc (k # ks) c =
     (let c1 = set_line k ((pc_lines c ! k)\<lparr>line_size := sz, line_data := alloc k\<rparr>) c
      in if alloc k = None then (c1, False)
         else prealloc_loop sz alloc ks (c1\<lparr>pc_allmem := pc_allmem c1 + sz\<rparr>))"

definition dt_dev_pixelpipe_cache_init ::
  "'b dt_dev_pixelpipe_t \<Rightarrow> nat \<Rightarrow> nat \<Rightarrow> nat \<Rightarrow> 'b \<Rightarrow> (nat \<Rightarrow> nat option) \<Rightarrow>
    'b dt_dev_pixelpipe_t \<times> bool" where
  "dt_dev_pixelpipe_cache_init pipe entries sz limit dsc0 alloc =
     (let c = (pipe_cache pipe)\<lparr>pc_lines := init_lines entries dsc0, pc_allmem := 0, pc_hits := 0,
                 pc_calls := 0, pc_tests := 0, pc_memlimit := limit\<rparr>
      in if sz = 0 then (pipe\<lparr>pipe_cache := c\<rparr>, True)
         else case prealloc_loop sz alloc [0..<entries] c of
           (c1, True) \<Rightarrow> (pipe\<lparr>pipe_cache := c1\<rparr>, True)
         | (c1, False) \<Rightarrow>
             (pipe\<lparr>pipe_cache := c1\<lparr>pc_lines :=
                  map (\<lambda>l. l\<lparr>line_size := 0, line_data := None\<rparr>) (pc_lines c1), pc_allmem := 0\<rparr>\<rparr>, False))"

definition dt_dev_pixelpipe_cache_cleanup :: "'b dt_dev_pixelpipe_t \<Rightarrow> 'b dt_dev_pixelpipe_t" where
  "dt_dev_pixelpipe_cache_cleanup pipe =
     pipe\<lparr>pipe_cache := (pipe_cache pipe)\<lparr>pc_lines := []\<rparr>\<rparr>"


section \<open>Looking up\<close>

definition dt_dev_pixelpipe_cache_available ::
  "'b dt_dev_pixelpipe_t \<Rightarrow> 64 word \<Rightarrow> nat \<Rightarrow> 'b dt_dev_pixelpipe_t \<times> bool" where
  "dt_dev_pixelpipe_cache_available pipe hash sz =
     (if mask_display pipe \<or> nocache pipe \<or> hash = DT_INVALID_HASH then (pipe, False)
      else let c = (pipe_cache pipe)\<lparr>pc_tests := pc_tests (pipe_cache pipe) + 1\<rparr>
           in if \<exists>l\<in>set (drop DT_PIPECACHE_MIN (pc_lines c)). line_size l = sz \<and> line_hash l = hash
              then (pipe\<lparr>pipe_cache := c\<lparr>pc_hits := pc_hits c + 1\<rparr>\<rparr>, True)
              else (pipe\<lparr>pipe_cache := c\<rparr>, False))"

datatype cache_test = DT_CACHETEST_PLAIN | DT_CACHETEST_USED | DT_CACHETEST_FREE | DT_CACHETEST_INVALID

fun test_line :: "cache_test \<Rightarrow> 'b cline \<Rightarrow> bool" where
  "test_line DT_CACHETEST_PLAIN l = True"
| "test_line DT_CACHETEST_USED l = (line_data l \<noteq> None)"
| "test_line DT_CACHETEST_FREE l = (line_data l = None)"
| "test_line DT_CACHETEST_INVALID l = (line_hash l = DT_INVALID_HASH)"

fun oldest_loop ::
  "'b dt_dev_pixelpipe_cache_t \<Rightarrow> cache_test \<Rightarrow> nat list \<Rightarrow> int \<Rightarrow> nat \<Rightarrow> nat" where
  "oldest_loop c mode [] age best = best"
| "oldest_loop c mode (k # ks) age best =
     (let l = pc_lines c ! k
      in if age < line_used l \<and> k \<noteq> pc_lastline c \<and> test_line mode l
         then oldest_loop c mode ks (line_used l) k
         else oldest_loop c mode ks age best)"

definition get_oldest_cacheline :: "'b dt_dev_pixelpipe_cache_t \<Rightarrow> cache_test \<Rightarrow> nat" where
  "get_oldest_cacheline c mode = oldest_loop c mode [DT_PIPECACHE_MIN..<pc_entries c] 1 0"

definition get_c_cacheline :: "'b dt_dev_pixelpipe_cache_t \<Rightarrow> nat" where
  "get_c_cacheline c =
     (let oldest = get_oldest_cacheline c DT_CACHETEST_INVALID
      in if 0 < oldest then oldest
         else let oldest = get_oldest_cacheline c DT_CACHETEST_FREE
              in if 0 < oldest then oldest
                 else let oldest = get_oldest_cacheline c DT_CACHETEST_PLAIN
                      in if oldest = 0 then pc_calls c mod 2 else oldest)"

definition get_cacheline :: "'b dt_dev_pixelpipe_t \<Rightarrow> 'b dt_dev_pixelpipe_t \<times> nat" where
  "get_cacheline pipe =
     (let c = pipe_cache pipe
      in if pc_entries c = DT_PIPECACHE_MIN \<or> mask_display pipe \<or> nocache pipe
         then (pipe, pc_calls c mod 2)
         else let k = get_c_cacheline c in (pipe\<lparr>pipe_cache := c\<lparr>pc_lastline := k\<rparr>\<rparr>, k))"

text \<open>\<open>_get_by_hash\<close>: the line that is hit; lines it must not serve are invalidated on the way.\<close>

fun get_by_hash_loop ::
  "bool \<Rightarrow> 64 word \<Rightarrow> nat \<Rightarrow> nat list \<Rightarrow> 'b dt_dev_pixelpipe_cache_t \<Rightarrow>
    'b dt_dev_pixelpipe_cache_t \<times> nat option" where
  "get_by_hash_loop off hash sz [] c = (c, None)"
| "get_by_hash_loop off hash sz (k # ks) c =
     (let l = pc_lines c ! k
      in if line_hash l = hash
         then if line_size l \<noteq> sz \<or> off
              then get_by_hash_loop off hash sz ks (set_line k (l\<lparr>line_hash := DT_INVALID_HASH\<rparr>) c)
              else (set_line k (l\<lparr>line_used := - int (pc_entries c)\<rparr>) c, Some k)
         else get_by_hash_loop off hash sz ks c)"

definition get_by_hash ::
  "'b dt_dev_pixelpipe_t \<Rightarrow> 64 word \<Rightarrow> nat \<Rightarrow> 'b dt_dev_pixelpipe_t \<times> nat option" where
  "get_by_hash pipe hash sz =
     (case get_by_hash_loop (mask_display pipe \<or> nocache pipe) hash sz
             [DT_PIPECACHE_MIN..<pc_entries (pipe_cache pipe)] (pipe_cache pipe) of
        (c, r) \<Rightarrow> (pipe\<lparr>pipe_cache := c\<rparr>, r))"

text \<open>
  \<open>dt_dev_pixelpipe_cache_get\<close>: the new pipe, the line whose buffer and descriptor the
  caller is given, and whether it is a new buffer. \<open>mem\<close> is what the allocator returns
  if it is called; \<open>order\<close> is the \<open>iop_order\<close> of the module, or 0 without one.
\<close>

definition age_lines :: "'b dt_dev_pixelpipe_cache_t \<Rightarrow> 'b dt_dev_pixelpipe_cache_t" where
  "age_lines c = c\<lparr>pc_calls := pc_calls c + 1,
     pc_lines := map (\<lambda>l. l\<lparr>line_used := line_used l + 1\<rparr>) (pc_lines c)\<rparr>"

definition resize_line ::
  "nat \<Rightarrow> nat \<Rightarrow> nat option \<Rightarrow> 'b dt_dev_pixelpipe_cache_t \<Rightarrow> 'b dt_dev_pixelpipe_cache_t" where
  "resize_line k sz mem c =
     (let l = pc_lines c ! k
      in if (pc_entries c = DT_PIPECACHE_MIN \<and> line_size l < sz) \<or>
            (DT_PIPECACHE_MIN < pc_entries c \<and> line_size l \<noteq> sz)
         then (set_line k (l\<lparr>line_data := mem, line_size := (if mem = None then 0 else sz)\<rparr>) c)
                \<lparr>pc_allmem := pc_allmem c - line_size l + (if mem = None then 0 else sz)\<rparr>
         else c)"

text \<open>Ageing the lines and searching for the hash.\<close>

definition cache_search ::
  "'b dt_dev_pixelpipe_t \<Rightarrow> 64 word \<Rightarrow> nat \<Rightarrow> 'b dt_dev_pixelpipe_t \<times> nat option" where
  "cache_search pipe hash sz =
     (let pipe1 = pipe\<lparr>pipe_cache := age_lines (pipe_cache pipe)\<rparr>
      in if DT_PIPECACHE_MIN < pc_entries (pipe_cache pipe1) \<and> hash \<noteq> DT_INVALID_HASH
         then get_by_hash pipe1 hash sz else (pipe1, None))"

text \<open>Taking over a line for the new buffer.\<close>

definition cache_fill ::
  "'b dt_dev_pixelpipe_t \<Rightarrow> 64 word \<Rightarrow> nat \<Rightarrow> 'b \<Rightarrow> int \<Rightarrow> bool \<Rightarrow> nat option \<Rightarrow>
    'b dt_dev_pixelpipe_t \<times> nat" where
  "cache_fill pipe hash sz dsc order important mem =
     (let (pipe1, cline) = get_cacheline pipe;
          c = resize_line cline sz mem (pipe_cache pipe1);
          masking = mask_display pipe1;
          l = (pc_lines c ! cline)\<lparr>line_dsc := dsc,
                line_hash := (if masking then DT_INVALID_HASH else hash),
                line_used := (if \<not> masking \<and> important then - int (pc_entries c) else 0),
                line_ioporder := order\<rparr>
      in (pipe1\<lparr>pipe_cache := set_line cline l c\<rparr>, cline))"

definition dt_dev_pixelpipe_cache_get ::
  "'b dt_dev_pixelpipe_t \<Rightarrow> 64 word \<Rightarrow> nat \<Rightarrow> 'b \<Rightarrow> int \<Rightarrow> bool \<Rightarrow> nat option \<Rightarrow>
    'b dt_dev_pixelpipe_t \<times> nat \<times> bool" where
  "dt_dev_pixelpipe_cache_get pipe hash sz dsc order important mem =
     (case cache_search pipe hash sz of
        (pipe1, Some k) \<Rightarrow> (pipe1, k, False)
      | (pipe1, None) \<Rightarrow>
          (case cache_fill pipe1 hash sz dsc order important mem of (pipe2, k) \<Rightarrow> (pipe2, k, True)))"


section \<open>Invalidation and memory limits\<close>

definition mark_invalid_cacheline :: "'b cline \<Rightarrow> 'b cline" where
  "mark_invalid_cacheline l = l\<lparr>line_hash := DT_INVALID_HASH, line_ioporder := 0\<rparr>"

definition dt_dev_pixelpipe_cache_invalidate_later ::
  "'b dt_dev_pixelpipe_t \<Rightarrow> int \<Rightarrow> 'b dt_dev_pixelpipe_t" where
  "dt_dev_pixelpipe_cache_invalidate_later pipe order =
     pipe\<lparr>pipe_cache := map_clines (\<lambda>l.
            if order \<le> line_ioporder l \<and> line_hash l \<noteq> DT_INVALID_HASH
            then mark_invalid_cacheline l else l) (pipe_cache pipe),
          bcache_hash := DT_INVALID_HASH\<rparr>"

definition dt_dev_pixelpipe_cache_flush :: "'b dt_dev_pixelpipe_t \<Rightarrow> 'b dt_dev_pixelpipe_t" where
  "dt_dev_pixelpipe_cache_flush pipe = dt_dev_pixelpipe_cache_invalidate_later pipe 0"

definition dt_dev_pixelpipe_important_cacheline ::
  "'b dt_dev_pixelpipe_t \<Rightarrow> nat option \<Rightarrow> nat \<Rightarrow> 'b dt_dev_pixelpipe_t" where
  "dt_dev_pixelpipe_important_cacheline pipe data sz =
     pipe\<lparr>pipe_cache := map_clines (\<lambda>l.
            if line_data l = data \<and> sz = line_size l \<and> line_hash l \<noteq> DT_INVALID_HASH
            then l\<lparr>line_used := - int (pc_entries (pipe_cache pipe))\<rparr> else l) (pipe_cache pipe)\<rparr>"

definition dt_dev_pixelpipe_invalidate_cacheline ::
  "'b dt_dev_pixelpipe_t \<Rightarrow> nat option \<Rightarrow> 'b dt_dev_pixelpipe_t" where
  "dt_dev_pixelpipe_invalidate_cacheline pipe data =
     pipe\<lparr>pipe_cache := map_clines (\<lambda>l.
            if line_data l = data then mark_invalid_cacheline l else l) (pipe_cache pipe)\<rparr>"

definition free_cacheline :: "nat \<Rightarrow> 'b dt_dev_pixelpipe_cache_t \<Rightarrow> 'b dt_dev_pixelpipe_cache_t" where
  "free_cacheline k c =
     (let l = pc_lines c ! k
      in (set_line k (mark_invalid_cacheline (l\<lparr>line_size := 0, line_data := None\<rparr>)) c)
           \<lparr>pc_allmem := pc_allmem c - line_size l\<rparr>)"

definition cline_stats :: "'b dt_dev_pixelpipe_cache_t \<Rightarrow> 'b dt_dev_pixelpipe_cache_t" where
  "cline_stats c =
     (let ls = drop DT_PIPECACHE_MIN (pc_lines c)
      in c\<lparr>pc_lused := length (filter (\<lambda>l. line_data l \<noteq> None) ls),
           pc_linvalid := length (filter (\<lambda>l. line_data l \<noteq> None \<and> line_hash l = DT_INVALID_HASH) ls),
           pc_limportant := length (filter (\<lambda>l. line_used l < 0) ls)\<rparr>)"

text \<open>
  The first loop of \<open>dt_dev_pixelpipe_cache_checkmem\<close>. Its test of \<open>cache->data\<close> reads the
  array pointer, which is never \<open>NULL\<close>.
\<close>

fun free_invalid_loop :: "nat list \<Rightarrow> 'b dt_dev_pixelpipe_cache_t \<Rightarrow> 'b dt_dev_pixelpipe_cache_t" where
  "free_invalid_loop [] c = c"
| "free_invalid_loop (k # ks) c =
     free_invalid_loop ks (if line_hash (pc_lines c ! k) = DT_INVALID_HASH then free_cacheline k c else c)"

text \<open>The search for the oldest line, characterised: needed for the loop that frees lines.\<close>

definition candidate :: "'b dt_dev_pixelpipe_cache_t \<Rightarrow> cache_test \<Rightarrow> nat \<Rightarrow> bool" where
  "candidate c mode k \<longleftrightarrow>
     1 < line_used (pc_lines c ! k) \<and> k \<noteq> pc_lastline c \<and> test_line mode (pc_lines c ! k)"

text \<open>\<open>k\<close> is the oldest candidate among the lines of \<open>S\<close>, or 0 when there is none.\<close>

definition best_of ::
  "'b dt_dev_pixelpipe_cache_t \<Rightarrow> cache_test \<Rightarrow> nat set \<Rightarrow> int \<Rightarrow> nat \<Rightarrow> bool" where
  "best_of c mode S age k \<longleftrightarrow>
     (if k = 0 then age = 1 else k \<in> S \<and> candidate c mode k \<and> line_used (pc_lines c ! k) = age) \<and>
     (\<forall>j\<in>S. candidate c mode j \<longrightarrow> line_used (pc_lines c ! j) \<le> age)"

lemma best_of_age: "best_of c mode S age k \<Longrightarrow> 1 \<le> age"
  by (auto simp: best_of_def candidate_def split: if_splits)

lemma best_of_step:
  assumes "best_of c mode S age best" and "k \<noteq> 0"
  shows "if age < line_used (pc_lines c ! k) \<and> k \<noteq> pc_lastline c \<and> test_line mode (pc_lines c ! k)
    then best_of c mode (insert k S) (line_used (pc_lines c ! k)) k
    else best_of c mode (insert k S) age best"
proof (cases "age < line_used (pc_lines c ! k) \<and> k \<noteq> pc_lastline c \<and> test_line mode (pc_lines c ! k)")
  case True
  with assms best_of_age [OF assms(1)] have "candidate c mode k"
    by (simp add: candidate_def)
  moreover have "line_used (pc_lines c ! j) \<le> line_used (pc_lines c ! k)"
    if "j \<in> S" "candidate c mode j" for j
    using assms(1) that True by (force simp: best_of_def)
  ultimately show ?thesis using True \<open>k \<noteq> 0\<close> by (simp add: best_of_def)
next
  case False
  then have "candidate c mode k \<longrightarrow> line_used (pc_lines c ! k) \<le> age"
    by (auto simp: candidate_def)
  with assms(1) have "best_of c mode (insert k S) age best" by (simp add: best_of_def)
  with False show ?thesis by (simp only: if_False)
qed

lemma oldest_loop_best:
  "best_of c mode S age best \<Longrightarrow> 0 \<notin> set ks \<Longrightarrow>
    \<exists>a. best_of c mode (S \<union> set ks) a (oldest_loop c mode ks age best)"
proof (induction ks arbitrary: age best S)
  case (Cons k ks)
  from Cons.prems(2) have k: "k \<noteq> 0" "0 \<notin> set ks" by (auto simp: eq_commute [of 0])
  show ?case
  proof (cases "age < line_used (pc_lines c ! k) \<and> k \<noteq> pc_lastline c \<and> test_line mode (pc_lines c ! k)")
    case True
    with best_of_step [OF Cons.prems(1) k(1)]
    have "best_of c mode (insert k S) (line_used (pc_lines c ! k)) k" by simp
    from Cons.IH [OF this k(2)] True show ?thesis by (simp add: Let_def)
  next
    case False
    with best_of_step [OF Cons.prems(1) k(1)] have "best_of c mode (insert k S) age best" by simp
    moreover have "oldest_loop c mode (k # ks) age best = oldest_loop c mode ks age best"
      using False by (simp only: oldest_loop.simps Let_def if_False)
    ultimately show ?thesis using Cons.IH [OF _ k(2), of "insert k S" age best] by simp
  qed
qed auto

lemma get_oldest_best: "\<exists>a. best_of c mode {2..<pc_entries c} a (get_oldest_cacheline c mode)"
proof -
  have "best_of c mode {} 1 0" by (simp add: best_of_def)
  from oldest_loop_best [OF this, of "[2..<pc_entries c]"] show ?thesis
    by (simp add: get_oldest_cacheline_def)
qed

lemma get_oldest_nonzero:
  assumes "get_oldest_cacheline c mode = k" and "k \<noteq> 0"
  shows "2 \<le> k \<and> k < pc_entries c \<and> candidate c mode k \<and>
    (\<forall>j\<in>{2..<pc_entries c}. candidate c mode j \<longrightarrow> line_used (pc_lines c ! j) \<le> line_used (pc_lines c ! k))"
  using get_oldest_best [of c mode] assms by (auto simp: best_of_def)

lemma get_oldest_zero:
  assumes "get_oldest_cacheline c mode = 0" and "2 \<le> k" and "k < pc_entries c"
  shows "\<not> candidate c mode k"
  using get_oldest_best [of c mode] assms by (fastforce simp: best_of_def candidate_def)

text \<open>The number of lines with a buffer: it bounds the iterations of the second loop.\<close>

definition used_lines :: "'b dt_dev_pixelpipe_cache_t \<Rightarrow> nat" where
  "used_lines c = sum_list (map (\<lambda>l. if line_data l = None then 0 else 1) (pc_lines c))"

lemma used_lines_free_cacheline:
  assumes "k < pc_entries c" and "line_data (pc_lines c ! k) \<noteq> None"
  shows "used_lines (free_cacheline k c) < used_lines c"
  using assms nth_le_sum_list [OF assms(1), of "\<lambda>l. if line_data l = None then 0 else 1"]
  by (simp add: used_lines_def free_cacheline_def set_line_def Let_def
      sum_list_update_nat mark_invalid_cacheline_def del: not_None_eq)

function checkmem_loop :: "'b dt_dev_pixelpipe_cache_t \<Rightarrow> 'b dt_dev_pixelpipe_cache_t" where
  "checkmem_loop c =
     (if pc_memlimit c \<noteq> 0 \<and> pc_memlimit c < pc_allmem c
      then let k = get_oldest_cacheline c DT_CACHETEST_USED
           in if k = 0 then c else checkmem_loop (free_cacheline k c)
      else c)"
  by pat_completeness auto
termination
proof (relation "measure used_lines")
  fix c :: "'b dt_dev_pixelpipe_cache_t" and k
  assume "k = get_oldest_cacheline c DT_CACHETEST_USED" and "k \<noteq> 0"
  then have "k < pc_entries c" and "line_data (pc_lines c ! k) \<noteq> None"
    using get_oldest_nonzero [of c DT_CACHETEST_USED k] by (auto simp: candidate_def)
  then show "(free_cacheline k c, c) \<in> measure used_lines"
    by (simp add: used_lines_free_cacheline)
qed simp

declare checkmem_loop.simps [simp del]

definition dt_dev_pixelpipe_cache_checkmem :: "'b dt_dev_pixelpipe_t \<Rightarrow> 'b dt_dev_pixelpipe_t" where
  "dt_dev_pixelpipe_cache_checkmem pipe =
     (let c = pipe_cache pipe
      in if pc_entries c = DT_PIPECACHE_MIN then pipe
         else pipe\<lparr>pipe_cache := cline_stats (checkmem_loop
                (free_invalid_loop [DT_PIPECACHE_MIN..<pc_entries c] c))\<rparr>)"

definition dt_dev_pixelpipe_cache_report :: "'b dt_dev_pixelpipe_t \<Rightarrow> 'b dt_dev_pixelpipe_t" where
  "dt_dev_pixelpipe_cache_report pipe = pipe\<lparr>pipe_cache := cline_stats (pipe_cache pipe)\<rparr>"


section \<open>The invariant\<close>

text \<open>
  The accounting of the cache: \<open>allmem\<close> is the sum of the sizes of the lines, a line
  without a buffer has size 0, and no two lines own the same buffer.
\<close>

definition shape :: "'b dt_dev_pixelpipe_cache_t \<Rightarrow> (nat option \<times> nat) list" where
  "shape c = map (\<lambda>l. (line_data l, line_size l)) (pc_lines c)"

definition shape_ok :: "(nat option \<times> nat) list \<Rightarrow> bool" where
  "shape_ok sh \<longleftrightarrow>
     (\<forall>i<length sh. fst (sh ! i) = None \<longrightarrow> snd (sh ! i) = 0) \<and>
     (\<forall>i<length sh. \<forall>j<length sh. i \<noteq> j \<longrightarrow> fst (sh ! i) = fst (sh ! j) \<longrightarrow> fst (sh ! i) = None)"

definition pc_ok :: "'b dt_dev_pixelpipe_cache_t \<Rightarrow> bool" where
  "pc_ok c \<longleftrightarrow> DT_PIPECACHE_MIN \<le> pc_entries c \<and>
     pc_allmem c = sum_list (map snd (shape c)) \<and> shape_ok (shape c)"

text \<open>What the allocator returned is not the buffer of another line.\<close>

definition fresh_buffer :: "nat option \<Rightarrow> nat \<Rightarrow> 'b dt_dev_pixelpipe_cache_t \<Rightarrow> bool" where
  "fresh_buffer mem k c \<longleftrightarrow>
     (\<forall>j<pc_entries c. j \<noteq> k \<longrightarrow> mem \<noteq> None \<longrightarrow> line_data (pc_lines c ! j) \<noteq> mem)"

lemma length_shape [simp]: "length (shape c) = pc_entries c"
  by (simp add: shape_def)

lemma nth_shape [simp]:
  "k < pc_entries c \<Longrightarrow> shape c ! k = (line_data (pc_lines c ! k), line_size (pc_lines c ! k))"
  by (simp add: shape_def)

lemma shape_set_line [simp]:
  "shape (set_line k l c) = (shape c)[k := (line_data l, line_size l)]"
  by (simp add: shape_def set_line_def map_update)

lemma set_line_frame [simp, dt_frames]:
  "pc_entries (set_line k l c) = pc_entries c" "pc_allmem (set_line k l c) = pc_allmem c"
  "pc_lastline (set_line k l c) = pc_lastline c" "pc_calls (set_line k l c) = pc_calls c"
  "pc_memlimit (set_line k l c) = pc_memlimit c"
  by (simp_all add: set_line_def)

lemma nth_set_line:
  "k < pc_entries c \<Longrightarrow> pc_lines (set_line k l c) ! j = (if j = k then l else pc_lines c ! j)"
  by (simp add: set_line_def nth_list_update)

lemma pc_ok_cong:
  "shape c' = shape c \<Longrightarrow> pc_allmem c' = pc_allmem c \<Longrightarrow> pc_ok c \<Longrightarrow> pc_ok c'"
  using length_shape [of c] length_shape [of c'] by (simp add: pc_ok_def)

lemma shape_ok_update:
  assumes "shape_ok sh" and "m = None \<longrightarrow> n = 0" and "k < length sh"
    and "\<forall>j<length sh. j \<noteq> k \<longrightarrow> m \<noteq> None \<longrightarrow> fst (sh ! j) \<noteq> m"
  shows "shape_ok (sh[k := (m, n)])"
  using assms unfolding shape_ok_def by (auto simp: nth_list_update)

text \<open>Replacing the buffer of one line, with \<open>allmem\<close> adjusted as the code does.\<close>

lemma pc_ok_replace:
  assumes ok: "pc_ok c" and k: "k < pc_entries c"
    and fresh: "fresh_buffer (line_data l) k c" and sz: "line_data l = None \<longrightarrow> line_size l = 0"
  shows "pc_ok ((set_line k l c)\<lparr>pc_allmem := pc_allmem c - line_size (pc_lines c ! k) + line_size l\<rparr>)"
proof -
  let ?c = "(set_line k l c)\<lparr>pc_allmem := pc_allmem c - line_size (pc_lines c ! k) + line_size l\<rparr>"
  have sh: "shape ?c = (shape c)[k := (line_data l, line_size l)]"
    using shape_set_line [of k l c] by (simp add: shape_def)
  have "sum_list (map snd (shape ?c)) = sum_list (map snd (shape c)) - snd (shape c ! k) + line_size l"
    unfolding sh by (subst sum_list_update_nat) (use k in auto)
  moreover have "shape_ok (shape ?c)" unfolding sh
    by (rule shape_ok_update) (use ok k fresh sz in \<open>auto simp: pc_ok_def fresh_buffer_def\<close>)
  ultimately show ?thesis using ok k by (simp add: pc_ok_def)
qed

lemma free_cacheline_ok [dt_invs]: "pc_ok c \<Longrightarrow> k < pc_entries c \<Longrightarrow> pc_ok (free_cacheline k c)"
  using pc_ok_replace [of c k "mark_invalid_cacheline ((pc_lines c ! k)\<lparr>line_size := 0, line_data := None\<rparr>)"]
  by (simp add: free_cacheline_def Let_def mark_invalid_cacheline_def fresh_buffer_def)

lemma free_cacheline_frame [simp, dt_frames]:
  "pc_entries (free_cacheline k c) = pc_entries c"
  "pc_lastline (free_cacheline k c) = pc_lastline c"
  "pc_memlimit (free_cacheline k c) = pc_memlimit c"
  by (simp_all add: free_cacheline_def Let_def set_line_def)

lemma free_invalid_loop_ok [dt_invs]:
  "pc_ok c \<Longrightarrow> \<forall>k\<in>set ks. k < pc_entries c \<Longrightarrow> pc_ok (free_invalid_loop ks c)"
  by (induction ks arbitrary: c) (auto simp: free_cacheline_ok)

lemma checkmem_loop_ok [dt_invs]: "pc_ok c \<Longrightarrow> pc_ok (checkmem_loop c)"
proof (induction c rule: checkmem_loop.induct)
  case (1 c)
  show ?case
    by (subst checkmem_loop.simps)
      (use 1 get_oldest_nonzero [of c DT_CACHETEST_USED] in \<open>auto simp: Let_def free_cacheline_ok\<close>)
qed

lemma bex_drop_iff:
  "(\<exists>x\<in>set (drop n xs). P x) \<longleftrightarrow> (\<exists>k. n \<le> k \<and> k < length xs \<and> P (xs ! k))"
proof
  assume "\<exists>x\<in>set (drop n xs). P x"
  then obtain i where "i < length xs - n" "P (xs ! (n + i))" by (auto simp: in_set_conv_nth)
  then show "\<exists>k. n \<le> k \<and> k < length xs \<and> P (xs ! k)" by (intro exI [of _ "n + i"]) auto
next
  assume "\<exists>k. n \<le> k \<and> k < length xs \<and> P (xs ! k)"
  then obtain k where k: "n \<le> k" "k < length xs" "P (xs ! k)" by blast
  then have "xs ! k \<in> set (drop n xs)"
    by (auto simp: in_set_conv_nth intro!: exI [of _ "k - n"])
  with k(3) show "\<exists>x\<in>set (drop n xs). P x" by blast
qed

lemma available_iff:
  "snd (dt_dev_pixelpipe_cache_available p hash sz) \<longleftrightarrow>
     \<not> mask_display p \<and> \<not> nocache p \<and> hash \<noteq> DT_INVALID_HASH \<and>
     (\<exists>k. 2 \<le> k \<and> k < pc_entries (pipe_cache p) \<and> line_size (pc_lines (pipe_cache p) ! k) = sz \<and>
        line_hash (pc_lines (pipe_cache p) ! k) = hash)"
  by (simp add: dt_dev_pixelpipe_cache_available_def Let_def bex_drop_iff)

text \<open>
  A marking operation works on the whole pipe, keeps every buffer and its size, and leaves each
  line with the hash it had or with none.
\<close>

locale line_marking =
  fixes op :: "'b dt_dev_pixelpipe_t \<Rightarrow> 'b dt_dev_pixelpipe_t"
  assumes op_shape: "shape (pipe_cache (op p)) = shape (pipe_cache p)"
    and op_allmem: "pc_allmem (pipe_cache (op p)) = pc_allmem (pipe_cache p)"
    and op_hash: "k < pc_entries (pipe_cache p) \<Longrightarrow>
      line_hash (pc_lines (pipe_cache (op p)) ! k) \<in>
        {line_hash (pc_lines (pipe_cache p) ! k), DT_INVALID_HASH}"
    and op_modes: "mask_display (op p) = mask_display p" "nocache (op p) = nocache p"
begin

lemma op_entries: "pc_entries (pipe_cache (op p)) = pc_entries (pipe_cache p)"
  using arg_cong [OF op_shape, of length] by simp

lemma op_ok: "pc_ok (pipe_cache p) \<Longrightarrow> pc_ok (pipe_cache (op p))"
  by (rule pc_ok_cong [OF op_shape op_allmem])

lemma op_line_size:
  "k < pc_entries (pipe_cache p) \<Longrightarrow>
    line_size (pc_lines (pipe_cache (op p)) ! k) = line_size (pc_lines (pipe_cache p) ! k)"
  using op_shape [of p] nth_shape [of k "pipe_cache (op p)"] by (simp add: op_entries)

text \<open>Marking lines never makes a buffer available that was not.\<close>

lemma op_no_new_hit:
  assumes "snd (dt_dev_pixelpipe_cache_available (op p) hash sz)"
  shows "snd (dt_dev_pixelpipe_cache_available p hash sz)"
proof -
  from assms obtain k where k: "2 \<le> k" "k < pc_entries (pipe_cache p)"
    "line_size (pc_lines (pipe_cache (op p)) ! k) = sz"
    "line_hash (pc_lines (pipe_cache (op p)) ! k) = hash"
    and h: "hash \<noteq> DT_INVALID_HASH" "\<not> mask_display p" "\<not> nocache p"
    by (auto simp: available_iff op_modes op_entries)
  with op_hash [OF k(2)] op_line_size [OF k(2)] show ?thesis
    by (auto simp: available_iff)
qed

end

lemma shape_map_clines [simp]:
  assumes "\<And>l. line_data (f l) = line_data l" and "\<And>l. line_size (f l) = line_size l"
  shows "shape (map_clines f c) = shape c"
proof -
  have "shape (map_clines f c) =
      map (\<lambda>l. (line_data l, line_size l)) (take 2 (pc_lines c) @ drop 2 (pc_lines c))"
    unfolding shape_def map_clines_def map_append by (simp add: assms)
  then show ?thesis by (simp only: shape_def append_take_drop_id)
qed

lemma map_clines_frame [simp, dt_frames]:
  "pc_entries (map_clines f c) = pc_entries c" "pc_allmem (map_clines f c) = pc_allmem c"
  by (simp_all add: map_clines_def)

lemma nth_map_clines:
  "k < pc_entries c \<Longrightarrow>
    pc_lines (map_clines f c) ! k = (if k < 2 then pc_lines c ! k else f (pc_lines c ! k))"
  by (cases "k < 2") (auto simp: map_clines_def nth_append Suc_diff_Suc [symmetric]
      simp flip: add_2_eq_Suc simp del: add_2_eq_Suc')

interpretation invalidate_later: line_marking "\<lambda>p. dt_dev_pixelpipe_cache_invalidate_later p order"
  for order
  by unfold_locales (auto simp: dt_dev_pixelpipe_cache_invalidate_later_def
      mark_invalid_cacheline_def nth_map_clines)

interpretation pc_flush: line_marking dt_dev_pixelpipe_cache_flush
  unfolding dt_dev_pixelpipe_cache_flush_def by (rule invalidate_later.line_marking_axioms)

interpretation important_line: line_marking "\<lambda>p. dt_dev_pixelpipe_important_cacheline p buf sz"
  for buf sz
  by unfold_locales (auto simp: dt_dev_pixelpipe_important_cacheline_def nth_map_clines)

interpretation invalidate_line: line_marking "\<lambda>p. dt_dev_pixelpipe_invalidate_cacheline p buf"
  for buf
  by unfold_locales (auto simp: dt_dev_pixelpipe_invalidate_cacheline_def
      mark_invalid_cacheline_def nth_map_clines)

lemma shape_stats [simp]: "shape (cline_stats c) = shape c"
  by (simp add: shape_def cline_stats_def Let_def)

lemma cline_stats_frame [simp, dt_frames]:
  "pc_lines (cline_stats c) = pc_lines c" "pc_allmem (cline_stats c) = pc_allmem c"
  "pc_memlimit (cline_stats c) = pc_memlimit c" "pc_lastline (cline_stats c) = pc_lastline c"
  by (simp_all add: cline_stats_def Let_def)

interpretation pc_report: line_marking dt_dev_pixelpipe_cache_report
  by unfold_locales (auto simp: dt_dev_pixelpipe_cache_report_def)

lemma cline_stats_ok [dt_invs]: "pc_ok c \<Longrightarrow> pc_ok (cline_stats c)"
  by (rule pc_ok_cong [OF shape_stats cline_stats_frame(2)])

lemma checkmem_ok [dt_invs]: "pc_ok (pipe_cache p) \<Longrightarrow> pc_ok (pipe_cache (dt_dev_pixelpipe_cache_checkmem p))"
  by (auto simp: dt_dev_pixelpipe_cache_checkmem_def Let_def
      intro!: cline_stats_ok checkmem_loop_ok free_invalid_loop_ok)


section \<open>A request for a buffer\<close>

text \<open>The line a hit names, and what a search that fails has established.\<close>

lemma get_by_hash_loop_some:
  assumes "get_by_hash_loop off hash sz ks c = (c', Some k)" and "\<forall>j\<in>set ks. j < pc_entries c"
  shows "\<not> off \<and> k \<in> set ks \<and> line_hash (pc_lines c ! k) \<in> {hash} \<and> line_size (pc_lines c ! k) = sz \<and>
    line_data (pc_lines c' ! k) = line_data (pc_lines c ! k) \<and>
    line_dsc (pc_lines c' ! k) = line_dsc (pc_lines c ! k) \<and>
    line_used (pc_lines c' ! k) = - int (pc_entries c)"
  using assms
proof (induction ks arbitrary: c)
  case (Cons j ks)
  show ?case
  proof (cases "line_hash (pc_lines c ! j) = hash")
    case False
    with Cons.prems Cons.IH [of c] show ?thesis by simp
  next
    case True
    show ?thesis
    proof (cases "line_size (pc_lines c ! j) \<noteq> sz \<or> off")
      case False
      with True Cons.prems show ?thesis by (auto simp: Let_def nth_set_line)
    next
      case bad: True
      let ?c = "set_line j ((pc_lines c ! j)\<lparr>line_hash := DT_INVALID_HASH\<rparr>) c"
      from bad True Cons.prems have "get_by_hash_loop off hash sz ks ?c = (c', Some k)"
        by (simp add: Let_def)
      from Cons.IH [OF this] Cons.prems(2)
      show ?thesis using bad True by (auto simp: nth_set_line split: if_splits)
    qed
  qed
qed simp

lemma get_by_hash_loop_none:
  assumes "get_by_hash_loop off hash sz ks c = (c', None)" and "\<forall>j\<in>set ks. j < pc_entries c"
    and "hash \<noteq> DT_INVALID_HASH" and "k \<in> set ks \<or> line_hash (pc_lines c ! k) \<noteq> hash"
  shows "line_hash (pc_lines c' ! k) \<noteq> hash"
  using assms
proof (induction ks arbitrary: c)
  case (Cons j ks)
  let ?c = "set_line j ((pc_lines c ! j)\<lparr>line_hash := DT_INVALID_HASH\<rparr>) c"
  show ?case
  proof (cases "line_hash (pc_lines c ! j) = hash")
    case False
    with Cons.prems Cons.IH [of c] show ?thesis by auto
  next
    case True
    with Cons.prems have "get_by_hash_loop off hash sz ks ?c = (c', None)"
      by (auto simp: Let_def split: if_splits)
    moreover have "k \<in> set ks \<or> line_hash (pc_lines ?c ! k) \<noteq> hash"
      using Cons.prems by (auto simp: nth_set_line)
    ultimately show ?thesis using Cons.prems Cons.IH [of ?c] by simp
  qed
qed simp

lemma get_by_hash_loop_shape:
  assumes "get_by_hash_loop off hash sz ks c = (c', r)" and "\<forall>j\<in>set ks. j < pc_entries c"
  shows "shape c' = shape c \<and> pc_allmem c' = pc_allmem c \<and> pc_lastline c' = pc_lastline c \<and>
    pc_calls c' = pc_calls c"
  using assms
proof (induction ks arbitrary: c)
  case (Cons j ks)
  have sh: "shape (set_line j ((pc_lines c ! j)\<lparr>line_hash := x\<rparr>) c) = shape c"
    "shape (set_line j ((pc_lines c ! j)\<lparr>line_used := y\<rparr>) c) = shape c" for x y
    using Cons.prems(2) nth_shape [of j c] by (simp_all add: list_update_same_conv)
  have "\<forall>i\<in>set ks. i < pc_entries (set_line j l c)" for l using Cons.prems(2) by simp
  with Cons sh show ?case by (auto simp: Let_def split: if_splits)
qed simp

lemma entries_of_shape: "shape c' = shape c \<Longrightarrow> pc_entries c' = pc_entries c"
  by (metis length_shape)

lemma shape_age_lines [simp]: "shape (age_lines c) = shape c"
  by (simp add: shape_def age_lines_def)

lemma age_lines_frame [simp, dt_frames]:
  "pc_entries (age_lines c) = pc_entries c" "pc_allmem (age_lines c) = pc_allmem c"
  by (simp_all add: age_lines_def)

lemma age_lines_nth:
  "k < pc_entries c \<Longrightarrow>
    pc_lines (age_lines c) ! k = (pc_lines c ! k)\<lparr>line_used := line_used (pc_lines c ! k) + 1\<rparr>"
  by (simp add: age_lines_def)

lemma cache_search_shape:
  assumes "cache_search p hash sz = (p', r)"
  shows "shape (pipe_cache p') = shape (pipe_cache p) \<and>
    pc_allmem (pipe_cache p') = pc_allmem (pipe_cache p) \<and>
    mask_display p' = mask_display p \<and> nocache p' = nocache p"
  using assms get_by_hash_loop_shape [of _ hash sz "[2..<pc_entries (pipe_cache p)]" "age_lines (pipe_cache p)"]
  by (auto simp: cache_search_def get_by_hash_def Let_def split: if_splits prod.splits)

lemma get_c_cacheline_bound: "2 \<le> pc_entries c \<Longrightarrow> get_c_cacheline c < pc_entries c"
  using get_oldest_nonzero [OF refl, of c DT_CACHETEST_INVALID] get_oldest_nonzero [OF refl, of c DT_CACHETEST_FREE]
    get_oldest_nonzero [OF refl, of c DT_CACHETEST_PLAIN]
  by (auto simp: get_c_cacheline_def Let_def)

lemma get_cacheline_frame:
  assumes "get_cacheline p = (p', k)" and "2 \<le> pc_entries (pipe_cache p)"
  shows "k < pc_entries (pipe_cache p) \<and> shape (pipe_cache p') = shape (pipe_cache p) \<and>
    pc_allmem (pipe_cache p') = pc_allmem (pipe_cache p) \<and> pc_lines (pipe_cache p') = pc_lines (pipe_cache p) \<and>
    mask_display p' = mask_display p \<and> nocache p' = nocache p"
  using assms get_c_cacheline_bound [of "pipe_cache p"]
  by (auto simp: get_cacheline_def Let_def shape_def split: if_splits)

lemma resize_line_ok [dt_invs]:
  assumes "pc_ok c" and "k < pc_entries c" and "fresh_buffer mem k c"
  shows "pc_ok (resize_line k sz mem c)"
  using assms pc_ok_replace [OF assms(1,2),
      of "(pc_lines c ! k)\<lparr>line_data := mem, line_size := (if mem = None then 0 else sz)\<rparr>"]
  by (auto simp: resize_line_def Let_def)

lemma resize_line_entries [simp, dt_frames]: "pc_entries (resize_line k sz mem c) = pc_entries c"
  by (simp add: resize_line_def Let_def)

lemma set_line_same_buffer_ok:
  assumes "pc_ok c" and "k < pc_entries c"
    and "line_data l = line_data (pc_lines c ! k)" and "line_size l = line_size (pc_lines c ! k)"
  shows "pc_ok (set_line k l c)"
proof (rule pc_ok_cong [OF _ _ assms(1)])
  show "shape (set_line k l c) = shape c"
    using assms(2-) nth_shape [OF assms(2)] by (simp add: list_update_same_conv)
qed simp

text \<open>
  The line that will be filled; the allocator must not hand out the buffer of another line.
\<close>

definition fill_line :: "'b dt_dev_pixelpipe_t \<Rightarrow> 64 word \<Rightarrow> nat \<Rightarrow> nat" where
  "fill_line p hash sz = snd (get_cacheline (fst (cache_search p hash sz)))"

lemma fresh_buffer_shape:
  "shape c' = shape c \<Longrightarrow> fresh_buffer mem k c \<Longrightarrow> fresh_buffer mem k c'"
  unfolding fresh_buffer_def
  by (metis entries_of_shape fst_conv nth_shape)

lemma get_ok [dt_invs]:
  assumes ok: "pc_ok (pipe_cache p)"
    and fresh: "fresh_buffer mem (fill_line p hash sz) (pipe_cache p)"
    and res: "dt_dev_pixelpipe_cache_get p hash sz dsc order important mem = (q, k, new)"
  shows "pc_ok (pipe_cache q)"
proof -
  obtain p1 r where p1: "cache_search p hash sz = (p1, r)" by (cases "cache_search p hash sz")
  obtain p2 j where p2: "get_cacheline p1 = (p2, j)" by (cases "get_cacheline p1")
  note sh1 = cache_search_shape [OF p1]
  have ok1: "pc_ok (pipe_cache p1)" using pc_ok_cong [OF _ _ ok] sh1 by blast
  then have two: "2 \<le> pc_entries (pipe_cache p1)" by (simp add: pc_ok_def)
  note sh2 = get_cacheline_frame [OF p2 two]
  have ok2: "pc_ok (pipe_cache p2)" using pc_ok_cong [OF _ _ ok1] sh2 by blast
  have j: "j < pc_entries (pipe_cache p2)" using sh2 by simp
  have "fresh_buffer mem j (pipe_cache p2)"
    using fresh_buffer_shape [OF _ fresh, of "pipe_cache p2"] sh1 sh2 p1 p2 by (simp add: fill_line_def)
  from resize_line_ok [OF ok2 j this, of sz] j
  have "pc_ok (set_line j ((pc_lines (resize_line j sz mem (pipe_cache p2)) ! j)\<lparr>line_dsc := d, line_hash := h,
      line_used := u, line_ioporder := i\<rparr>) (resize_line j sz mem (pipe_cache p2)))" for d h u i
    by (intro set_line_same_buffer_ok) auto
  then show ?thesis using res p1 p2 ok1
    by (auto simp: dt_dev_pixelpipe_cache_get_def cache_fill_def Let_def split: option.splits)
qed


section \<open>Reachable caches\<close>

definition alloc_distinct :: "(nat \<Rightarrow> nat option) \<Rightarrow> bool" where
  "alloc_distinct alloc \<longleftrightarrow> (\<forall>i j. i \<noteq> j \<longrightarrow> alloc i = alloc j \<longrightarrow> alloc i = None)"

lemma prealloc_loop_ok:
  assumes "prealloc_loop sz alloc ks c = (c', True)" and "alloc_distinct alloc" and "pc_ok c"
    and "distinct ks" and "\<forall>k\<in>set ks. k < pc_entries c \<and> line_size (pc_lines c ! k) = 0"
    and "\<forall>j<pc_entries c. line_data (pc_lines c ! j) \<in> {None, alloc j}"
  shows "pc_ok c'"
  using assms
proof (induction ks arbitrary: c)
  case (Cons k ks)
  let ?l = "(pc_lines c ! k)\<lparr>line_size := sz, line_data := alloc k\<rparr>"
  let ?c = "(set_line k ?l c)\<lparr>pc_allmem := pc_allmem c + sz\<rparr>"
  have some: "alloc k \<noteq> None" using Cons.prems(1) by (auto simp: Let_def split: if_splits)
  with Cons.prems(1) have run: "prealloc_loop sz alloc ks ?c = (c', True)" by (simp add: Let_def)
  have nth: "pc_lines ?c ! j = (if j = k then ?l else pc_lines c ! j)" for j
    using nth_set_line [of k c ?l j] Cons.prems(5) by simp
  have "fresh_buffer (alloc k) k c"
    using Cons.prems(2,6) unfolding fresh_buffer_def alloc_distinct_def
    by (metis empty_iff insert_iff)
  with pc_ok_replace [OF Cons.prems(3), of k ?l] Cons.prems(5) some have "pc_ok ?c" by simp
  moreover have "\<forall>j\<in>set ks. j < pc_entries ?c \<and> line_size (pc_lines ?c ! j) = 0"
    using Cons.prems(4,5) by (auto simp: nth_set_line)
  moreover have "\<forall>j<pc_entries ?c. line_data (pc_lines ?c ! j) \<in> {None, alloc j}"
  proof (intro allI impI)
    fix j assume "j < pc_entries ?c"
    then have "j < pc_entries c" by simp
    with Cons.prems(6) show "line_data (pc_lines ?c ! j) \<in> {None, alloc j}" unfolding nth by auto
  qed
  ultimately show ?case using Cons.IH [OF run Cons.prems(2)] Cons.prems(4) by simp
qed simp

lemma prealloc_loop_entries: "prealloc_loop sz alloc ks c = (c', r) \<Longrightarrow> pc_entries c' = pc_entries c"
proof (induction ks arbitrary: c)
  case (Cons k ks)
  then show ?case by (auto simp: Let_def split: if_splits dest!: Cons.IH)
qed simp

lemma init_lines_nth [simp]:
  "k < n \<Longrightarrow> line_data (init_lines n d ! k) = None" "k < n \<Longrightarrow> line_size (init_lines n d ! k) = 0"
  "length (init_lines n d) = n"
  by (simp_all add: init_lines_def)

lemma no_buffers_ok:
  assumes "2 \<le> pc_entries c" and "pc_allmem c = 0"
    and "\<forall>l\<in>set (pc_lines c). line_data l = None \<and> line_size l = 0"
  shows "pc_ok c"
proof -
  have "shape c = replicate (pc_entries c) (None, 0)"
    using assms(3) by (auto simp: shape_def map_replicate_const [symmetric])
  then show ?thesis using assms(1,2) by (simp add: pc_ok_def shape_ok_def)
qed

lemma init_ok:
  assumes "2 \<le> entries" and "alloc_distinct alloc"
    and "dt_dev_pixelpipe_cache_init p entries sz limit dsc alloc = (q, r)"
  shows "pc_ok (pipe_cache q)"
proof -
  let ?c = "(pipe_cache p)\<lparr>pc_lines := init_lines entries dsc, pc_allmem := 0, pc_hits := 0,
      pc_calls := 0, pc_tests := 0, pc_memlimit := limit\<rparr>"
  have "\<forall>l\<in>set (init_lines entries dsc). line_data l = None \<and> line_size l = 0"
    by (auto simp: init_lines_def)
  then have c: "pc_ok ?c" using assms(1) by (intro no_buffers_ok) auto
  obtain c1 b where run: "prealloc_loop sz alloc [0..<entries] ?c = (c1, b)"
    by (cases "prealloc_loop sz alloc [0..<entries] ?c")
  have "pc_ok c1" if b
    by (rule prealloc_loop_ok [OF run [unfolded eqTrueI [OF that]] assms(2) c]) auto
  moreover have "pc_ok (c1\<lparr>pc_lines := map (\<lambda>l. l\<lparr>line_size := 0, line_data := None\<rparr>) (pc_lines c1),
      pc_allmem := 0\<rparr>)"
    using assms(1) prealloc_loop_entries [OF run] by (intro no_buffers_ok) auto
  ultimately show ?thesis using assms(3) c run
    by (auto simp: dt_dev_pixelpipe_cache_init_def Let_def split: if_splits bool.splits)
qed

definition pc_start :: "'b dt_dev_pixelpipe_t \<Rightarrow> bool" where
  "pc_start q \<longleftrightarrow> (\<exists>p entries sz limit dsc alloc. DT_PIPECACHE_MIN \<le> entries \<and> alloc_distinct alloc \<and>
     q = fst (dt_dev_pixelpipe_cache_init p entries sz limit dsc alloc))"

inductive pc_step :: "'b dt_dev_pixelpipe_t \<Rightarrow> 'b dt_dev_pixelpipe_t \<Rightarrow> bool" where
  step_get: "fresh_buffer mem (fill_line p hash sz) (pipe_cache p) \<Longrightarrow>
     pc_step p (fst (dt_dev_pixelpipe_cache_get p hash sz dsc order important mem))"
| step_available: "pc_step p (fst (dt_dev_pixelpipe_cache_available p hash sz))"
| step_invalidate_later: "pc_step p (dt_dev_pixelpipe_cache_invalidate_later p order)"
| step_flush: "pc_step p (dt_dev_pixelpipe_cache_flush p)"
| step_important: "pc_step p (dt_dev_pixelpipe_important_cacheline p buf sz)"
| step_invalidate: "pc_step p (dt_dev_pixelpipe_invalidate_cacheline p buf)"
| step_checkmem: "pc_step p (dt_dev_pixelpipe_cache_checkmem p)"
| step_report: "pc_step p (dt_dev_pixelpipe_cache_report p)"
| step_modes: "pc_step p (p\<lparr>mask_display := b, nocache := b'\<rparr>)"

lemma available_ok [dt_invs]:
  "pc_ok (pipe_cache p) \<Longrightarrow> pc_ok (pipe_cache (fst (dt_dev_pixelpipe_cache_available p hash sz)))"
  by (erule pc_ok_cong [rotated 2]) (simp_all add: dt_dev_pixelpipe_cache_available_def Let_def shape_def)

lemma pc_step_ok: "pc_step p q \<Longrightarrow> pc_ok (pipe_cache p) \<Longrightarrow> pc_ok (pipe_cache q)"
proof (induction rule: pc_step.induct)
  case (step_get mem p hash sz dsc order important)
  then show ?case
    using get_ok [of p mem hash sz] by (cases "dt_dev_pixelpipe_cache_get p hash sz dsc order important mem") auto
qed (auto intro: available_ok invalidate_later.op_ok pc_flush.op_ok important_line.op_ok
      invalidate_line.op_ok checkmem_ok pc_report.op_ok)

interpretation pc_sys: invariant_system pc_start pc_step "\<lambda>p. pc_ok (pipe_cache p)"
proof unfold_locales
  fix q :: "'b dt_dev_pixelpipe_t"
  assume "pc_start q"
  then show "pc_ok (pipe_cache q)" using init_ok by (metis pc_start_def prod.collapse)
qed (auto intro: pc_step_ok)


section \<open>Properties\<close>

lemma pc_ok_dest:
  assumes "pc_ok c"
  shows "2 \<le> pc_entries c" and "pc_allmem c = sum_list (map line_size (pc_lines c))"
    and "k < pc_entries c \<Longrightarrow> line_data (pc_lines c ! k) = None \<Longrightarrow> line_size (pc_lines c ! k) = 0"
    and "i < pc_entries c \<Longrightarrow> j < pc_entries c \<Longrightarrow> line_data (pc_lines c ! i) = Some a \<Longrightarrow>
      line_data (pc_lines c ! j) = Some a \<Longrightarrow> i = j"
proof -
  show "2 \<le> pc_entries c" "pc_allmem c = sum_list (map line_size (pc_lines c))"
    using assms by (auto simp: pc_ok_def shape_def comp_def)
  have sh: "shape_ok (shape c)" using assms by (simp add: pc_ok_def)
  show "line_size (pc_lines c ! k) = 0" if "k < pc_entries c" "line_data (pc_lines c ! k) = None" for k
    using sh that by (simp add: shape_ok_def)
  show "i = j" if "i < pc_entries c" "j < pc_entries c" "line_data (pc_lines c ! i) = Some a"
    "line_data (pc_lines c ! j) = Some a" for i j
    using sh that unfolding shape_ok_def by (metis fst_conv length_shape nth_shape option.distinct(1))
qed

text \<open>
  Whatever sequence of requests, tests, invalidations, memory checks and mode changes a pipe
  goes through after its cache was initialised with at least two lines, and whichever allocations
  fail, the memory counter is exactly the sum of the sizes of the lines, a line without a buffer
  counts zero bytes, and no two lines own the same buffer, as long as the allocator does not return
  a buffer that is still in use.
\<close>

theorem pixelpipe_cache_accounting:
  assumes "pc_start p" and "pc_step\<^sup>*\<^sup>* p q"
  shows "pc_allmem (pipe_cache q) = sum_list (map line_size (pc_lines (pipe_cache q))) \<and>
    (\<forall>k<pc_entries (pipe_cache q). line_data (pc_lines (pipe_cache q) ! k) = None \<longrightarrow>
       line_size (pc_lines (pipe_cache q) ! k) = 0) \<and>
    (\<forall>i<pc_entries (pipe_cache q). \<forall>j<pc_entries (pipe_cache q). \<forall>a.
       line_data (pc_lines (pipe_cache q) ! i) = Some a \<longrightarrow>
       line_data (pc_lines (pipe_cache q) ! j) = Some a \<longrightarrow> i = j)"
  using pc_ok_dest [OF pc_sys.reach_invar [OF assms]] by blast

definition ex_pipe :: "unit dt_dev_pixelpipe_t" where
  "ex_pipe = fst (dt_dev_pixelpipe_cache_init
     \<lparr>pipe_cache = \<lparr>pc_lines = [], pc_allmem = 0, pc_memlimit = 0, pc_calls = 0, pc_lastline = 0,
        pc_tests = 0, pc_hits = 0, pc_lused = 0, pc_linvalid = 0, pc_limportant = 0\<rparr>,
      mask_display = False, nocache = False, bcache_data = None, bcache_hash = 0\<rparr>
     5 0 100 () (\<lambda>_. None))"

lemma ex_pipe_start: "pc_start ex_pipe"
  unfolding pc_start_def ex_pipe_def
  by (intro exI [of _ 5] exI conjI) (auto simp: alloc_distinct_def)

theorem pixelpipe_cache_accounting_witness:
  "pc_start ex_pipe \<and> pc_step\<^sup>*\<^sup>* ex_pipe
     (fst (dt_dev_pixelpipe_cache_get ex_pipe 7 60 () 10 False (Some 1))) \<and>
   pc_allmem (pipe_cache (fst (dt_dev_pixelpipe_cache_get ex_pipe 7 60 () 10 False (Some 1)))) = 60"
proof -
  have "fresh_buffer (Some 1) (fill_line ex_pipe 7 60) (pipe_cache ex_pipe)"
    by (simp add: fresh_buffer_def ex_pipe_def dt_dev_pixelpipe_cache_init_def)
  then have r: "pc_step\<^sup>*\<^sup>* ex_pipe (fst (dt_dev_pixelpipe_cache_get ex_pipe 7 60 () 10 False (Some 1)))"
    by (intro r_into_rtranclp step_get)
  have "sum_list (map line_size (pc_lines (pipe_cache
      (fst (dt_dev_pixelpipe_cache_get ex_pipe 7 60 () 10 False (Some 1)))))) = 60"
    by code_simp
  with pixelpipe_cache_accounting [OF ex_pipe_start r] ex_pipe_start r show ?thesis by simp
qed

text \<open>
  Invalidating from an order on leaves no valid line of that order or later, keeps every other
  line as it is, drops the blend cache, and makes nothing available that was not.
\<close>

theorem invalidate_later_spec:
  "let q = dt_dev_pixelpipe_cache_invalidate_later p order in
     bcache_hash q = DT_INVALID_HASH \<and>
     (\<forall>k\<in>{2..<pc_entries (pipe_cache p)}.
        if order \<le> line_ioporder (pc_lines (pipe_cache p) ! k)
        then line_hash (pc_lines (pipe_cache q) ! k) = DT_INVALID_HASH
        else pc_lines (pipe_cache q) ! k = pc_lines (pipe_cache p) ! k) \<and>
     (snd (dt_dev_pixelpipe_cache_available q hash sz) \<longrightarrow>
        snd (dt_dev_pixelpipe_cache_available p hash sz))"
  using invalidate_later.op_no_new_hit [of p order hash sz]
  by (auto simp: Let_def dt_dev_pixelpipe_cache_invalidate_later_def nth_map_clines mark_invalid_cacheline_def)

theorem invalidate_later_spec_witness:
  "snd (dt_dev_pixelpipe_cache_available (fst (dt_dev_pixelpipe_cache_get ex_pipe 7 60 () 10 False (Some 1))) 7 60) \<and>
   \<not> snd (dt_dev_pixelpipe_cache_available (dt_dev_pixelpipe_cache_invalidate_later
       (fst (dt_dev_pixelpipe_cache_get ex_pipe 7 60 () 10 False (Some 1))) 10) 7 60) \<and>
   bcache_hash (dt_dev_pixelpipe_cache_invalidate_later ex_pipe 10) = DT_INVALID_HASH"
proof -
  have "snd (dt_dev_pixelpipe_cache_available (fst (dt_dev_pixelpipe_cache_get ex_pipe 7 60 () 10 False (Some 1))) 7 60)"
    "\<not> snd (dt_dev_pixelpipe_cache_available (dt_dev_pixelpipe_cache_invalidate_later
       (fst (dt_dev_pixelpipe_cache_get ex_pipe 7 60 () 10 False (Some 1))) 10) 7 60)"
    by code_simp+
  with invalidate_later_spec [of ex_pipe 10 7 60] show ?thesis by (simp add: Let_def)
qed


lemma get_by_hash_loop_unique:
  assumes "k \<in> set ks" and "line_hash (pc_lines c ! k) = hash" and "line_size (pc_lines c ! k) = sz"
    and "\<forall>j\<in>set ks. j \<noteq> k \<longrightarrow> line_hash (pc_lines c ! j) \<noteq> hash"
  shows "get_by_hash_loop False hash sz ks c =
    (set_line k ((pc_lines c ! k)\<lparr>line_used := - int (pc_entries c)\<rparr>) c, Some k)"
  using assms by (induction ks) (auto simp: Let_def)

lemma cache_search_none:
  assumes "cache_search p hash sz = (p1, None)" and "2 < pc_entries (pipe_cache p)"
    and "hash \<noteq> DT_INVALID_HASH" and "2 \<le> j" and "j < pc_entries (pipe_cache p)"
  shows "line_hash (pc_lines (pipe_cache p1) ! j) \<noteq> hash"
  using assms get_by_hash_loop_none [of "mask_display p \<or> nocache p" hash sz
      "[2..<pc_entries (pipe_cache p)]" "age_lines (pipe_cache p)" "pipe_cache p1" j]
  by (simp add: cache_search_def get_by_hash_def Let_def) (auto split: prod.splits)

text \<open>What a filled line looks like, and that the others are as they were.\<close>

lemma cache_fill_lines:
  assumes "cache_fill p hash sz dsc order important mem = (q, k)" and "2 < pc_entries (pipe_cache p)"
    and "\<not> mask_display p" and "mem \<noteq> None"
  shows "k < pc_entries (pipe_cache p) \<and> pc_entries (pipe_cache q) = pc_entries (pipe_cache p) \<and>
    line_hash (pc_lines (pipe_cache q) ! k) = hash \<and> line_size (pc_lines (pipe_cache q) ! k) = sz \<and>
    line_dsc (pc_lines (pipe_cache q) ! k) = dsc \<and> mask_display q = mask_display p \<and> nocache q = nocache p \<and>
    (\<forall>j. j \<noteq> k \<longrightarrow> pc_lines (pipe_cache q) ! j = pc_lines (pipe_cache p) ! j)"
proof -
  obtain p1 j where g: "get_cacheline p = (p1, j)" by (cases "get_cacheline p")
  note fr = get_cacheline_frame [OF g less_imp_le [OF assms(2)]]
  have "line_size (pc_lines (resize_line j sz mem (pipe_cache p1)) ! j) = sz"
    "i \<noteq> j \<longrightarrow> pc_lines (resize_line j sz mem (pipe_cache p1)) ! i = pc_lines (pipe_cache p1) ! i" for i
    using fr assms(2,4) by (auto simp: resize_line_def Let_def nth_set_line)
  with g fr assms show ?thesis
    by (auto simp: cache_fill_def Let_def nth_set_line)
qed

text \<open>
  A request that is not served from the cache fills a line; when that is one of the cached
  lines and memory was available, the buffer is then available under its hash, and the next request
  for it is served from exactly that line, with the descriptor that was stored, whatever its other
  arguments are.
\<close>

theorem get_then_hit:
  assumes "2 < pc_entries (pipe_cache p)"
    and "\<not> mask_display p" and "\<not> nocache p" and hash: "hash \<noteq> DT_INVALID_HASH" and "mem \<noteq> None"
    and get: "dt_dev_pixelpipe_cache_get p hash sz dsc order important mem = (q, k, True)" and "2 \<le> k"
  shows "snd (dt_dev_pixelpipe_cache_available q hash sz) \<and>
    (\<exists>q'. dt_dev_pixelpipe_cache_get q hash sz dsc' order' important' mem' = (q', k, False) \<and>
       line_data (pc_lines (pipe_cache q') ! k) = line_data (pc_lines (pipe_cache q) ! k) \<and>
       line_dsc (pc_lines (pipe_cache q') ! k) = dsc)"
proof -
  from get obtain p1 where p1: "cache_search p hash sz = (p1, None)"
    and fill: "cache_fill p1 hash sz dsc order important mem = (q, k)"
    by (auto simp: dt_dev_pixelpipe_cache_get_def split: prod.splits option.splits)
  note sh = cache_search_shape [OF p1]
  have n: "pc_entries (pipe_cache p1) = pc_entries (pipe_cache p)" using sh by (blast dest: entries_of_shape)
  have "2 < pc_entries (pipe_cache p1)" "\<not> mask_display p1" using assms(1,2) n sh by simp_all
  note fl = cache_fill_lines [OF fill this assms(5)]
  let ?c = "age_lines (pipe_cache q)"
  have uniq: "line_hash (pc_lines (pipe_cache q) ! j) \<noteq> hash"
    if "j \<noteq> k" "2 \<le> j" "j < pc_entries (pipe_cache p)" for j
    using fl that cache_search_none [OF p1 assms(1) hash that(2,3)] by simp
  have loop: "get_by_hash_loop False hash sz [2..<pc_entries ?c] ?c =
      (set_line k ((pc_lines ?c ! k)\<lparr>line_used := - int (pc_entries ?c)\<rparr>) ?c, Some k)"
    by (rule get_by_hash_loop_unique) (use fl uniq n \<open>2 \<le> k\<close> in \<open>auto simp: age_lines_nth\<close>)
  show ?thesis
  proof
    show "snd (dt_dev_pixelpipe_cache_available q hash sz)"
      using fl sh assms(2,3,7) hash by (auto simp: available_iff)
    have "cache_search q hash sz = (q\<lparr>pipe_cache := set_line k
        ((pc_lines ?c ! k)\<lparr>line_used := - int (pc_entries ?c)\<rparr>) ?c\<rparr>, Some k)"
      using loop fl n sh assms(1-3) hash by (simp add: cache_search_def get_by_hash_def Let_def)
    then show "\<exists>q'. dt_dev_pixelpipe_cache_get q hash sz dsc' order' important' mem' = (q', k, False) \<and>
       line_data (pc_lines (pipe_cache q') ! k) = line_data (pc_lines (pipe_cache q) ! k) \<and>
       line_dsc (pc_lines (pipe_cache q') ! k) = dsc"
      using fl n by (simp add: dt_dev_pixelpipe_cache_get_def nth_set_line age_lines_nth)
  qed
qed

theorem get_then_hit_witness:
  "\<exists>q q'. dt_dev_pixelpipe_cache_get ex_pipe 7 60 () 10 False (Some 1) = (q, 4, True) \<and>
     dt_dev_pixelpipe_cache_get q 7 60 () 11 True None = (q', 4, False)"
proof -
  obtain q where q: "dt_dev_pixelpipe_cache_get ex_pipe 7 60 () 10 False (Some 1) = (q, 4, True)"
  proof -
    have "snd (dt_dev_pixelpipe_cache_get ex_pipe 7 60 () 10 False (Some 1)) = (4, True)" by code_simp
    then show ?thesis using that by (metis prod.collapse)
  qed
  have "2 < pc_entries (pipe_cache ex_pipe)" "\<not> mask_display ex_pipe" "\<not> nocache ex_pipe"
    "(7::64 word) \<noteq> DT_INVALID_HASH" by code_simp+
  then show ?thesis using get_then_hit [OF _ _ _ _ _ q] q by fastforce
qed


text \<open>A line that was freed: no buffer, no hash.\<close>

definition freed_line :: "'b cline \<Rightarrow> bool" where
  "freed_line l \<longleftrightarrow> line_data l = None \<and> line_size l = 0 \<and> line_hash l = DT_INVALID_HASH"

lemma nth_free_cacheline:
  "k < pc_entries c \<Longrightarrow> pc_lines (free_cacheline k c) ! j =
     (if j = k then mark_invalid_cacheline ((pc_lines c ! k)\<lparr>line_size := 0, line_data := None\<rparr>)
      else pc_lines c ! j)"
  using nth_set_line [of k c] by (simp add: free_cacheline_def Let_def)

lemma free_invalid_loop_nth:
  "\<forall>k\<in>set ks. k < pc_entries c \<Longrightarrow>
    (j \<in> set ks \<and> line_hash (pc_lines c ! j) = DT_INVALID_HASH \<longrightarrow> freed_line (pc_lines (free_invalid_loop ks c) ! j)) \<and>
    (\<not> (j \<in> set ks \<and> line_hash (pc_lines c ! j) = DT_INVALID_HASH) \<longrightarrow> pc_lines (free_invalid_loop ks c) ! j = pc_lines c ! j) \<and>
    (freed_line (pc_lines c ! j) \<longrightarrow> freed_line (pc_lines (free_invalid_loop ks c) ! j))"
proof (induction ks arbitrary: c)
  case (Cons k ks)
  show ?case
  proof (cases "line_hash (pc_lines c ! k) = DT_INVALID_HASH")
    case True
    have fk: "freed_line (pc_lines (free_cacheline k c) ! k)"
      using Cons.prems by (simp add: nth_free_cacheline freed_line_def mark_invalid_cacheline_def)
    note ih = Cons.IH [of "free_cacheline k c"]
    show ?thesis
    proof (cases "j = k")
      case True
      with ih fk Cons.prems \<open>line_hash (pc_lines c ! k) = DT_INVALID_HASH\<close> show ?thesis by simp
    next
      case False
      then have "pc_lines (free_cacheline k c) ! j = pc_lines c ! j"
        using Cons.prems by (simp add: nth_free_cacheline)
      with ih False True Cons.prems show ?thesis by simp
    qed
  next
    case False
    then show ?thesis using Cons.IH [of c] Cons.prems by auto
  qed
qed simp

lemma free_invalid_loop_frame [simp, dt_frames]:
  "pc_entries (free_invalid_loop ks c) = pc_entries c"
  "pc_memlimit (free_invalid_loop ks c) = pc_memlimit c"
  "pc_lastline (free_invalid_loop ks c) = pc_lastline c"
  by (induction ks arbitrary: c) auto

text \<open>
  The second loop: a line that changes was the oldest evictable one at that moment, so it is at
  least as old as every line that could still be evicted at the end.
\<close>

definition loop_result ::
  "'b dt_dev_pixelpipe_cache_t \<Rightarrow> 'b dt_dev_pixelpipe_cache_t \<Rightarrow> bool" where
  "loop_result c c' \<longleftrightarrow>
     pc_entries c' = pc_entries c \<and> pc_memlimit c' = pc_memlimit c \<and> pc_lastline c' = pc_lastline c \<and>
     (pc_memlimit c = 0 \<or> pc_allmem c' \<le> pc_memlimit c \<or>
        (\<forall>k\<in>{2..<pc_entries c}. \<not> candidate c' DT_CACHETEST_USED k)) \<and>
     (\<forall>k. pc_lines c' ! k = pc_lines c ! k \<or>
        k \<in> {2..<pc_entries c} \<and> candidate c DT_CACHETEST_USED k \<and> freed_line (pc_lines c' ! k) \<and>
        (\<forall>j\<in>{2..<pc_entries c}. candidate c' DT_CACHETEST_USED j \<longrightarrow>
           line_used (pc_lines c ! j) \<le> line_used (pc_lines c ! k)))"

lemma loop_resultD:
  assumes "loop_result c c'"
  shows "pc_entries c' = pc_entries c" and "pc_memlimit c' = pc_memlimit c" and "pc_lastline c' = pc_lastline c"
    and "pc_memlimit c = 0 \<or> pc_allmem c' \<le> pc_memlimit c \<or>
        (\<forall>k\<in>{2..<pc_entries c}. \<not> candidate c' DT_CACHETEST_USED k)"
    and "pc_lines c' ! k \<noteq> pc_lines c ! k \<Longrightarrow>
        k \<in> {2..<pc_entries c} \<and> candidate c DT_CACHETEST_USED k \<and> freed_line (pc_lines c' ! k)"
    and "pc_lines c' ! k \<noteq> pc_lines c ! k \<Longrightarrow> j \<in> {2..<pc_entries c} \<Longrightarrow> candidate c' DT_CACHETEST_USED j \<Longrightarrow>
        line_used (pc_lines c ! j) \<le> line_used (pc_lines c ! k)"
  using assms unfolding loop_result_def by blast+

lemma candidate_used_back:
  assumes "loop_result c c'" and "candidate c' DT_CACHETEST_USED j"
  shows "pc_lines c' ! j = pc_lines c ! j"
proof (rule ccontr)
  assume "pc_lines c' ! j \<noteq> pc_lines c ! j"
  from loop_resultD(5) [OF assms(1) this] assms(2) show False by (auto simp: candidate_def freed_line_def)
qed

lemma checkmem_loop_result: "loop_result c (checkmem_loop c)"
proof (induction c rule: checkmem_loop.induct)
  case (1 c)
  let ?k = "get_oldest_cacheline c DT_CACHETEST_USED"
  let ?c = "free_cacheline ?k c"
  show ?case
  proof (cases "pc_memlimit c \<noteq> 0 \<and> pc_memlimit c < pc_allmem c \<and> ?k \<noteq> 0")
    case False
    then have "checkmem_loop c = c" by (subst checkmem_loop.simps) (auto simp: Let_def)
    then show ?thesis using False get_oldest_zero [of c DT_CACHETEST_USED]
      by (auto simp: loop_result_def)
  next
    case True
    then have eq: "checkmem_loop c = checkmem_loop ?c" by (subst checkmem_loop.simps) (simp add: Let_def)
    have ih: "loop_result ?c (checkmem_loop c)" unfolding eq using 1 True by simp
    note k = get_oldest_nonzero [OF refl conjunct2 [OF conjunct2 [OF True]]]
    note nthf = nth_free_cacheline [of ?k c]
    have freed: "freed_line (pc_lines ?c ! ?k)" "\<not> candidate ?c DT_CACHETEST_USED ?k"
      using k by (auto simp: nthf freed_line_def mark_invalid_cacheline_def candidate_def)
    have kept: "pc_lines (checkmem_loop c) ! ?k = pc_lines ?c ! ?k"
      using loop_resultD(5) [OF ih, of ?k] freed by blast
    have cand: "candidate ?c DT_CACHETEST_USED i = candidate c DT_CACHETEST_USED i" if "i \<noteq> ?k" for i
      using that k by (simp add: candidate_def nthf)
    have was: "j \<noteq> ?k \<and> candidate c DT_CACHETEST_USED j" if "candidate (checkmem_loop c) DT_CACHETEST_USED j" for j
    proof -
      have "candidate ?c DT_CACHETEST_USED j"
        using that candidate_used_back [OF ih that] loop_resultD(3) [OF ih] by (simp add: candidate_def)
      then show ?thesis using freed(2) cand by metis
    qed
    have "pc_lines (checkmem_loop c) ! i = pc_lines c ! i \<or>
        i \<in> {2..<pc_entries c} \<and> candidate c DT_CACHETEST_USED i \<and> freed_line (pc_lines (checkmem_loop c) ! i) \<and>
        (\<forall>j\<in>{2..<pc_entries c}. candidate (checkmem_loop c) DT_CACHETEST_USED j \<longrightarrow>
           line_used (pc_lines c ! j) \<le> line_used (pc_lines c ! i))" for i
    proof (cases "i = ?k")
      case True
      with k freed(1) kept was show ?thesis by simp
    next
      case False
      then have ni: "pc_lines ?c ! i = pc_lines c ! i" using k by (simp add: nthf)
      have "line_used (pc_lines c ! j) \<le> line_used (pc_lines c ! i)"
        if "pc_lines (checkmem_loop c) ! i \<noteq> pc_lines c ! i" "j \<in> {2..<pc_entries c}"
          "candidate (checkmem_loop c) DT_CACHETEST_USED j" for j
        using loop_resultD(6) [OF ih, of i j] that ni was [OF that(3)] k by (simp add: nthf)
      then show ?thesis using loop_resultD(5) [OF ih, of i] ni cand [OF False] by auto
    qed
    then show ?thesis using loop_resultD(1-4) [OF ih] unfolding loop_result_def by simp
  qed
qed

lemma free_invalid_keeps:
  "k < 2 \<or> line_hash (pc_lines c ! k) \<noteq> DT_INVALID_HASH \<Longrightarrow>
    pc_lines (free_invalid_loop [2..<pc_entries c] c) ! k = pc_lines c ! k"
  using free_invalid_loop_nth [of "[2..<pc_entries c]" c k] by auto

lemma free_invalid_frees:
  "k \<in> {2..<pc_entries c} \<Longrightarrow>
    line_hash (pc_lines (free_invalid_loop [2..<pc_entries c] c) ! k) = DT_INVALID_HASH \<Longrightarrow>
    freed_line (pc_lines (free_invalid_loop [2..<pc_entries c] c) ! k)"
  using free_invalid_loop_nth [of "[2..<pc_entries c]" c k] by (auto split: if_splits)

text \<open>Both loops together: a line that can still be evicted at the end was never touched.\<close>

lemma evictable_untouched:
  assumes "candidate (checkmem_loop (free_invalid_loop [2..<pc_entries c] c)) DT_CACHETEST_USED j"
  shows "pc_lines (free_invalid_loop [2..<pc_entries c] c) ! j = pc_lines c ! j"
proof (rule ccontr)
  assume "pc_lines (free_invalid_loop [2..<pc_entries c] c) ! j \<noteq> pc_lines c ! j"
  then have "freed_line (pc_lines (free_invalid_loop [2..<pc_entries c] c) ! j)"
    using free_invalid_loop_nth [of "[2..<pc_entries c]" c j] by auto
  with candidate_used_back [OF checkmem_loop_result assms] assms show False
    by (auto simp: candidate_def freed_line_def)
qed

text \<open>
  C29: The memory check of a pipe with more than two lines always returns. It then uses at most the
  limit unless there is no limit or no line may be evicted any more; lines without a valid hash hold
  no memory; the two swap buffers, the line used last and every line that is important or was used
  just now are untouched when they are valid; and a valid line that was evicted is at least as old
  as every line that could still have been evicted.
\<close>

theorem checkmem_spec:
  fixes p :: "'b dt_dev_pixelpipe_t"
  assumes n: "2 < pc_entries c"
    and c: "c = pipe_cache p" and c': "c' = pipe_cache (dt_dev_pixelpipe_cache_checkmem p)"
  shows "(pc_memlimit c = 0 \<or> pc_allmem c' \<le> pc_memlimit c \<or>
        (\<forall>k\<in>{2..<pc_entries c}. \<not> candidate c' DT_CACHETEST_USED k)) \<and>
     (\<forall>k\<in>{2..<pc_entries c}. line_hash (pc_lines c' ! k) = DT_INVALID_HASH \<longrightarrow>
        line_data (pc_lines c' ! k) = None \<and> line_size (pc_lines c' ! k) = 0) \<and>
     (\<forall>k<pc_entries c. k < 2 \<or> line_hash (pc_lines c ! k) \<noteq> DT_INVALID_HASH \<and>
          (k = pc_lastline c \<or> line_used (pc_lines c ! k) \<le> 1) \<longrightarrow>
        pc_lines c' ! k = pc_lines c ! k) \<and>
     (\<forall>k\<in>{2..<pc_entries c}. \<forall>j\<in>{2..<pc_entries c}.
        line_hash (pc_lines c ! k) \<noteq> DT_INVALID_HASH \<longrightarrow> line_data (pc_lines c' ! k) \<noteq> line_data (pc_lines c ! k) \<longrightarrow>
        candidate c' DT_CACHETEST_USED j \<longrightarrow> line_used (pc_lines c ! j) \<le> line_used (pc_lines c ! k))"
proof -
  let ?c1 = "free_invalid_loop [2..<pc_entries c] c"
  let ?c2 = "checkmem_loop ?c1"
  have c': "c' = cline_stats ?c2"
    using n by (simp add: c c' dt_dev_pixelpipe_cache_checkmem_def Let_def)
  have cand: "candidate c' DT_CACHETEST_USED k = candidate ?c2 DT_CACHETEST_USED k" for k
    by (simp add: c' candidate_def)
  note res = checkmem_loop_result [of ?c1]
  have 1: "pc_memlimit c = 0 \<or> pc_allmem c' \<le> pc_memlimit c \<or>
      (\<forall>k\<in>{2..<pc_entries c}. \<not> candidate c' DT_CACHETEST_USED k)"
    using loop_resultD(4) [OF res] unfolding cand by (simp add: c')
  have 2: "line_data (pc_lines c' ! k) = None \<and> line_size (pc_lines c' ! k) = 0"
    if "k \<in> {2..<pc_entries c}" "line_hash (pc_lines c' ! k) = DT_INVALID_HASH" for k
    using loop_resultD(5) [OF res, of k] free_invalid_frees [OF that(1)] that(2)
    by (cases "pc_lines ?c2 ! k = pc_lines ?c1 ! k") (auto simp: c' freed_line_def)
  have 3: "pc_lines c' ! k = pc_lines c ! k"
    if "k < 2 \<or> line_hash (pc_lines c ! k) \<noteq> DT_INVALID_HASH \<and> (k = pc_lastline c \<or> line_used (pc_lines c ! k) \<le> 1)" for k
    using loop_resultD(5) [OF res, of k] free_invalid_keeps [of k c] that
    by (cases "pc_lines ?c2 ! k = pc_lines ?c1 ! k") (auto simp: c' candidate_def)
  have 4: "line_used (pc_lines c ! j) \<le> line_used (pc_lines c ! k)"
    if "j \<in> {2..<pc_entries c}" "line_hash (pc_lines c ! k) \<noteq> DT_INVALID_HASH"
      "line_data (pc_lines c' ! k) \<noteq> line_data (pc_lines c ! k)" "candidate c' DT_CACHETEST_USED j" for k j
  proof -
    have cj: "candidate ?c2 DT_CACHETEST_USED j" using that(4) cand by simp
    have k1: "pc_lines ?c1 ! k = pc_lines c ! k" using free_invalid_keeps that(2) by blast
    have "pc_lines ?c2 ! k \<noteq> pc_lines ?c1 ! k" using that(3) k1 by (auto simp: c')
    from loop_resultD(6) [OF res this _ cj] that(1) evictable_untouched [OF cj] k1
    show ?thesis by simp
  qed
  from 1 2 3 4 show ?thesis by blast
qed

text \<open>A cache over its limit: one line is evicted, the last line used stays.\<close>

definition ex_full_pipe :: "unit dt_dev_pixelpipe_t" where
  "ex_full_pipe = (let get = (\<lambda>p h m. fst (dt_dev_pixelpipe_cache_get p h 60 () 10 False (Some m)))
     in get (get (get ex_pipe 7 1) 8 2) 9 3)"

theorem checkmem_spec_witness:
  "pc_allmem (pipe_cache ex_full_pipe) = 180 \<and>
   pc_memlimit (pipe_cache (dt_dev_pixelpipe_cache_checkmem ex_full_pipe)) = 100 \<and>
   pc_allmem (pipe_cache (dt_dev_pixelpipe_cache_checkmem ex_full_pipe)) = 120 \<and>
   \<not> candidate (pipe_cache (dt_dev_pixelpipe_cache_checkmem ex_full_pipe)) DT_CACHETEST_USED 2 \<and>
   \<not> candidate (pipe_cache (dt_dev_pixelpipe_cache_checkmem ex_full_pipe)) DT_CACHETEST_USED 3 \<and>
   \<not> candidate (pipe_cache (dt_dev_pixelpipe_cache_checkmem ex_full_pipe)) DT_CACHETEST_USED 4"
proof -
  have v: "2 < pc_entries (pipe_cache ex_full_pipe)" "pc_entries (pipe_cache ex_full_pipe) = 5"
    "pc_allmem (pipe_cache ex_full_pipe) = 180" "pc_memlimit (pipe_cache ex_full_pipe) = 100"
    "pc_memlimit (pipe_cache (dt_dev_pixelpipe_cache_checkmem ex_full_pipe)) = 100"
    "pc_allmem (pipe_cache (dt_dev_pixelpipe_cache_checkmem ex_full_pipe)) = 120" by code_simp+
  from checkmem_spec [OF v(1) refl refl] v show ?thesis by simp
qed


subsection \<open>The hash\<close>

lemma dt_hash_byte_inj:
  fixes g h :: "64 word"
  assumes "(push_bit 5 g + g) XOR b = (push_bit 5 h + h) XOR b"
  shows "g = h"
proof -
  have "((push_bit 5 g + g) XOR b) XOR b = ((push_bit 5 h + h) XOR b) XOR b" using assms by (rule arg_cong)
  then have "push_bit 5 g + g = push_bit 5 h + h" by (simp only: xor.assoc xor_self_eq xor.right_neutral)
  then have "33 * g = 33 * h" by (simp add: push_bit_eq_mult algebra_simps)
  then have "(1117984489315730401 * 33) * g = (1117984489315730401 * 33) * h" by (simp only: mult.assoc)
  moreover have "(1117984489315730401 * 33 :: 64 word) = 1" by code_simp
  ultimately show ?thesis by (simp only: mult_1_left)
qed

text \<open>Hashing the same bytes on two different states keeps them different.\<close>

lemma dt_hash_inj: "dt_hash g bs = dt_hash h bs \<longleftrightarrow> g = h"
proof
  show "dt_hash g bs = dt_hash h bs \<Longrightarrow> g = h"
    unfolding dt_hash_def by (induction bs arbitrary: g h) (auto dest: dt_hash_byte_inj)
qed simp

lemma piece_hash_step_inj: "piece_hash_step p r g x = piece_hash_step p r h x \<longleftrightarrow> g = h"
  by (auto simp: piece_hash_step_def Let_def dt_hash_inj split: color_picker.splits)

lemma pieces_hash_inj:
  "foldl (piece_hash_step p r) g xs = foldl (piece_hash_step p r) h xs \<longleftrightarrow> g = h"
  by (induction xs arbitrary: g h) (auto simp: piece_hash_step_inj)

lemma pieces_hash_filter:
  "foldl (piece_hash_step p r) g (filter (piece_included p) xs) = foldl (piece_hash_step p r) g xs"
  by (induction xs arbitrary: g) (auto simp: piece_hash_step_def)

lemma piece_hash_step_nodes [simp]: "piece_hash_step (p\<lparr>pipe_nodes := ns\<rparr>) r = piece_hash_step p r"
  by (intro ext) (simp add: piece_hash_step_def piece_included_def Let_def cong: if_cong)

lemma pieces_hash_cong:
  assumes "filter (piece_included p) xs = filter (piece_included p) ys"
  shows "foldl (piece_hash_step p r) g xs = foldl (piece_hash_step p r) g ys"
  by (metis assms pieces_hash_filter)

text \<open>
  The hash of a position sees exactly the pieces before it that take part in the processing:
  two lists of nodes with the same included pieces in the same order have the same hash, so a
  disabled or skipped module never invalidates a buffer, with and without a region of interest.
\<close>

theorem cache_hash_ignores_excluded:
  assumes "filter (piece_included p) (take m ns) = filter (piece_included p) (take n (pipe_nodes p))"
  shows "dt_dev_pixelpipe_cache_hash roi (p\<lparr>pipe_nodes := ns\<rparr>) m = dt_dev_pixelpipe_cache_hash roi p n"
  using pieces_hash_cong [OF assms] by (cases roi) (simp_all add: dt_dev_pixelpipe_cache_hash_def pixelpipe_cache_basichash_def Let_def)

definition ex_piece :: "64 word \<Rightarrow> bool \<Rightarrow> hash_piece" where
  "ex_piece h en = \<lparr>piece_hash = h, piece_enabled = en, module_enabled = en, module_is_skipped = False,
     request_color_pick = False\<rparr>"

definition ex_hash_pipe :: hash_pipe where
  "ex_hash_pipe = \<lparr>image_id = 3, pipe_type = 1, want_detail_mask = 0, input_profile_info = [],
     work_profile_info = [], output_profile_info = [], export_profile_info = [], pipe_is_basic = False,
     scharr_hash = 0, primary_sample = DT_COLOR_PICKER_SIZE_NONE,
     pipe_nodes = [ex_piece 11 True, ex_piece 12 True]\<rparr>"

theorem cache_hash_ignores_excluded_witness:
  "dt_dev_pixelpipe_cache_hash None
     (ex_hash_pipe\<lparr>pipe_nodes := [ex_piece 11 True, ex_piece 99 False, ex_piece 12 True]\<rparr>) 3 =
   dt_dev_pixelpipe_cache_hash None ex_hash_pipe 2"
  by (rule cache_hash_ignores_excluded) (simp add: ex_hash_pipe_def ex_piece_def piece_included_def)

text \<open>
  A difference between two parameter sets is not lost further down the pipe: if the hashes at a
  position differ, and the pieces after it are the same, the hashes at every later position differ.
\<close>

theorem cache_hash_propagates:
  assumes "dt_dev_pixelpipe_cache_hash roi (p\<lparr>pipe_nodes := xs\<rparr>) (length xs) \<noteq>
      dt_dev_pixelpipe_cache_hash roi (p\<lparr>pipe_nodes := ys\<rparr>) (length ys)"
  shows "dt_dev_pixelpipe_cache_hash roi (p\<lparr>pipe_nodes := xs @ zs\<rparr>) (length xs + n) \<noteq>
      dt_dev_pixelpipe_cache_hash roi (p\<lparr>pipe_nodes := ys @ zs\<rparr>) (length ys + n)"
  using assms by (auto simp: dt_dev_pixelpipe_cache_hash_def pixelpipe_cache_basichash_def Let_def
      dt_hash_inj pieces_hash_inj split: option.splits)

theorem cache_hash_propagates_witness:
  "dt_dev_pixelpipe_cache_hash None (ex_hash_pipe\<lparr>pipe_nodes := [ex_piece 11 True] @ [ex_piece 5 True]\<rparr>)
     (length [ex_piece 11 True] + 1) \<noteq>
   dt_dev_pixelpipe_cache_hash None (ex_hash_pipe\<lparr>pipe_nodes := [ex_piece 12 True] @ [ex_piece 5 True]\<rparr>)
     (length [ex_piece 12 True] + 1)"
proof (rule cache_hash_propagates)
  show "dt_dev_pixelpipe_cache_hash None (ex_hash_pipe\<lparr>pipe_nodes := [ex_piece 11 True]\<rparr>) (length [ex_piece 11 True]) \<noteq>
    dt_dev_pixelpipe_cache_hash None (ex_hash_pipe\<lparr>pipe_nodes := [ex_piece 12 True]\<rparr>) (length [ex_piece 12 True])"
    by code_simp
qed

end
