(* ===== verification/Jobs.thy ===== *)
theory Jobs
  imports Prelude
begin

text \<open>
  The job queues of the control thread pool (\<open>src/control/jobs.c\<close>). Jobs live in an explicit
  heap and every queue, worker slot and local variable holds their addresses, so that the model
  shows who owns a job and when it is freed: an access to a job that is not allocated sets the flag
  \<open>fault\<close>. The atomic sections of the functions (what runs under \<open>queue_mutex\<close> or
  \<open>res_mutex\<close>) are single definitions; a step relation interleaves those of all threads.
  The callbacks of a job and the destruction of its progress object are recorded as events; the
  value an execute callback returns is an argument. Progress objects (\<open>src/control/progress.c\<close>) live in
  a heap of their own, with the job they cancel; what they show is left out.
\<close>

section \<open>Data\<close>

datatype dt_job_state_t =
    DT_JOB_STATE_INITIALIZED
  | DT_JOB_STATE_QUEUED
  | DT_JOB_STATE_RUNNING
  | DT_JOB_STATE_FINISHED
  | DT_JOB_STATE_CANCELLED
  | DT_JOB_STATE_DISCARDED
  | DT_JOB_STATE_DISPOSED

primrec job_state_num :: "dt_job_state_t \<Rightarrow> nat" where
  "job_state_num DT_JOB_STATE_INITIALIZED = 0"
| "job_state_num DT_JOB_STATE_QUEUED = 1"
| "job_state_num DT_JOB_STATE_RUNNING = 2"
| "job_state_num DT_JOB_STATE_FINISHED = 3"
| "job_state_num DT_JOB_STATE_CANCELLED = 4"
| "job_state_num DT_JOB_STATE_DISCARDED = 5"
| "job_state_num DT_JOB_STATE_DISPOSED = 6"

lemma job_state_num_inject: "job_state_num s = job_state_num t \<Longrightarrow> s = t"
  by (cases s; cases t) simp_all

text \<open>The states are compared as the numbers of the C enumeration.\<close>

instantiation dt_job_state_t :: linorder
begin

definition less_eq_dt_job_state_t :: "dt_job_state_t \<Rightarrow> dt_job_state_t \<Rightarrow> bool" where
  "less_eq_dt_job_state_t s t \<longleftrightarrow> job_state_num s \<le> job_state_num t"

definition less_dt_job_state_t :: "dt_job_state_t \<Rightarrow> dt_job_state_t \<Rightarrow> bool" where
  "less_dt_job_state_t s t \<longleftrightarrow> job_state_num s < job_state_num t"

instance
  by standard
    (auto simp: less_eq_dt_job_state_t_def less_dt_job_state_t_def intro: job_state_num_inject)

end

abbreviation DT_JOB_QUEUE_USER_FG :: nat where "DT_JOB_QUEUE_USER_FG \<equiv> 0"
abbreviation DT_JOB_QUEUE_SYSTEM_FG :: nat where "DT_JOB_QUEUE_SYSTEM_FG \<equiv> 1"
abbreviation DT_JOB_QUEUE_USER_BG :: nat where "DT_JOB_QUEUE_USER_BG \<equiv> 2"
abbreviation DT_JOB_QUEUE_USER_EXPORT :: nat where "DT_JOB_QUEUE_USER_EXPORT \<equiv> 3"
abbreviation DT_JOB_QUEUE_SYSTEM_BG :: nat where "DT_JOB_QUEUE_SYSTEM_BG \<equiv> 4"
abbreviation DT_JOB_QUEUE_MAX :: nat where "DT_JOB_QUEUE_MAX \<equiv> 5"
abbreviation DT_JOB_QUEUE_SYNCHRONOUS :: nat where "DT_JOB_QUEUE_SYNCHRONOUS \<equiv> 1000"

abbreviation DT_CTL_WORKER_RESERVED :: nat where "DT_CTL_WORKER_RESERVED \<equiv> 3"
abbreviation DT_CONTROL_FG_PRIORITY :: "8 word" where "DT_CONTROL_FG_PRIORITY \<equiv> 4"
abbreviation DT_CONTROL_MAX_JOBS :: nat where "DT_CONTROL_MAX_JOBS \<equiv> 30"
abbreviation DT_CONTROL_DESCRIPTION_LEN :: nat where "DT_CONTROL_DESCRIPTION_LEN \<equiv> 256"

text \<open>A job; its parameters are the bytes they point to.\<close>

record dt_job_t =
  execute :: nat
  params :: "8 word list"
  params_size :: nat
  params_destroy :: "nat option"
  job_result :: int
  job_state :: dt_job_state_t
  priority :: "8 word"
  job_queue :: nat
  state_changed_cb :: "nat option"
  progress :: "nat option"
  description :: string
  view_creator :: "32 word"
  is_synchronous :: bool

datatype job_event =
    StateChanged nat dt_job_state_t
  | ExecuteReturned nat int
  | ParamsDestroyed nat
  | ProgressDestroyed nat

type_synonym job_id = nat

record dt_control_t =
  heap :: "job_id \<rightharpoonup> dt_job_t"
  queues :: "job_id list list"
  queue_length :: "nat list"
  sched :: "job_id option list"
  export_scheduled :: bool
  pending_jobs :: int
  job_res :: "job_id option list"
  new_res :: "bool list"
  control_running :: bool
  fault :: bool
  progress_data :: "nat \<rightharpoonup> job_id option"
  events :: "job_event list"

definition log_event :: "job_event \<Rightarrow> dt_control_t \<Rightarrow> dt_control_t" where
  "log_event e c = c\<lparr>events := events c @ [e]\<rparr>"

text \<open>Access to a job through its address.\<close>

definition with_job :: "job_id \<Rightarrow> (dt_job_t \<Rightarrow> dt_control_t) \<Rightarrow> dt_control_t \<Rightarrow> dt_control_t" where
  "with_job i f c = (case heap c i of None \<Rightarrow> c\<lparr>fault := True\<rparr> | Some j \<Rightarrow> f j)"

definition put_job :: "job_id \<Rightarrow> dt_job_t \<Rightarrow> dt_control_t \<Rightarrow> dt_control_t" where
  "put_job i j c = c\<lparr>heap := (heap c)(i \<mapsto> j)\<rparr>"

definition upd_job :: "job_id \<Rightarrow> (dt_job_t \<Rightarrow> dt_job_t) \<Rightarrow> dt_control_t \<Rightarrow> dt_control_t" where
  "upd_job i f c = with_job i (\<lambda>j. put_job i (f j) c) c"


text \<open>
  Reading a field of a job; \<open>d\<close> is the result for a null address. To read from a job that is not
  allocated is a fault, whatever comes out.
\<close>

definition read_job :: "job_id option \<Rightarrow> 'a \<Rightarrow> (dt_job_t \<Rightarrow> 'a) \<Rightarrow> dt_control_t \<Rightarrow> dt_control_t \<times> 'a" where
  "read_job i d f c =
     (case i of
        None \<Rightarrow> (c, d)
      | Some a \<Rightarrow> (case heap c a of None \<Rightarrow> (c\<lparr>fault := True\<rparr>, d) | Some j \<Rightarrow> (c, f j)))"


section \<open>Progress objects\<close>

text \<open>
  A live progress object knows the job that it cancels, if it can be cancelled. \<open>p\<close> is the address of a new one.
\<close>

definition dt_control_progress_create :: "nat \<Rightarrow> dt_control_t \<Rightarrow> dt_control_t" where
  "dt_control_progress_create p c = c\<lparr>progress_data := (progress_data c)(p \<mapsto> None)\<rparr>"

definition dt_control_progress_destroy :: "nat \<Rightarrow> dt_control_t \<Rightarrow> dt_control_t" where
  "dt_control_progress_destroy p c =
     log_event (ProgressDestroyed p) (c\<lparr>progress_data := (progress_data c)(p := None)\<rparr>)"

definition dt_control_progress_attach_job :: "nat \<Rightarrow> job_id \<Rightarrow> dt_control_t \<Rightarrow> dt_control_t" where
  "dt_control_progress_attach_job p i c = c\<lparr>progress_data := (progress_data c)(p \<mapsto> Some i)\<rparr>"


section \<open>Jobs\<close>

definition job_equal :: "dt_job_t \<Rightarrow> dt_job_t \<Rightarrow> bool" where
  "job_equal j1 j2 \<longleftrightarrow>
     (if params_size j1 \<noteq> 0 \<and> params_size j1 = params_size j2
      then execute j1 = execute j2 \<and> state_changed_cb j1 = state_changed_cb j2 \<and>
           job_queue j1 = job_queue j2 \<and>
           take (params_size j1) (params j1) = take (params_size j1) (params j2)
      else execute j1 = execute j2 \<and> state_changed_cb j1 = state_changed_cb j2 \<and>
           job_queue j1 = job_queue j2 \<and> description j1 = description j2)"

definition control_job_equal :: "job_id option \<Rightarrow> job_id option \<Rightarrow> dt_control_t \<Rightarrow> dt_control_t \<times> bool" where
  "control_job_equal a b c =
     (if a = None \<or> b = None then (c, False)
      else case read_job a None Some c of
        (c1, j1) \<Rightarrow> (case read_job b None Some c1 of
          (c2, j2) \<Rightarrow> (c2, case (j1, j2) of (Some x, Some y) \<Rightarrow> job_equal x y | _ \<Rightarrow> False)))"

definition control_job_set_state :: "job_id \<Rightarrow> dt_job_state_t \<Rightarrow> dt_control_t \<Rightarrow> dt_control_t" where
  "control_job_set_state i st c = with_job i (\<lambda>j.
     let (j1, c1) =
           (case progress j of
              Some p \<Rightarrow> if DT_JOB_STATE_FINISHED \<le> st \<and> job_state j \<noteq> DT_JOB_STATE_RUNNING
                        then (j\<lparr>progress := None\<rparr>, dt_control_progress_destroy p c) else (j, c)
            | None \<Rightarrow> (j, c));
         c2 = put_job i (j1\<lparr>job_state := st\<rparr>) c1
     in case state_changed_cb j of None \<Rightarrow> c2 | Some _ \<Rightarrow> log_event (StateChanged i st) c2) c"

definition dt_control_job_get_state :: "job_id option \<Rightarrow> dt_control_t \<Rightarrow> dt_control_t \<times> dt_job_state_t" where
  "dt_control_job_get_state i c = read_job i DT_JOB_STATE_DISPOSED job_state c"

definition dt_control_job_set_params_with_size ::
  "job_id \<Rightarrow> 8 word list \<Rightarrow> nat \<Rightarrow> nat option \<Rightarrow> dt_control_t \<Rightarrow> dt_control_t" where
  "dt_control_job_set_params_with_size i ps n callback c = with_job i (\<lambda>j.
     if job_state j \<noteq> DT_JOB_STATE_INITIALIZED then c
     else put_job i (j\<lparr>params := ps, params_size := n, params_destroy := callback\<rparr>) c) c"

definition dt_control_job_set_params ::
  "job_id \<Rightarrow> 8 word list \<Rightarrow> nat option \<Rightarrow> dt_control_t \<Rightarrow> dt_control_t" where
  "dt_control_job_set_params i ps callback c = with_job i (\<lambda>j.
     if job_state j \<noteq> DT_JOB_STATE_INITIALIZED then c
     else put_job i (j\<lparr>params := ps, params_size := 0, params_destroy := callback\<rparr>) c) c"

definition dt_control_job_get_params :: "job_id option \<Rightarrow> dt_control_t \<Rightarrow> dt_control_t \<times> 8 word list option" where
  "dt_control_job_get_params i c = read_job i None (\<lambda>j. Some (params j)) c"

text \<open>
  Creating a job at a free address; \<open>None\<close> for \<open>i\<close> is a failed allocation. The current view
  is an argument.
\<close>

definition dt_control_job_create ::
  "job_id option \<Rightarrow> nat \<Rightarrow> string \<Rightarrow> 32 word \<Rightarrow> dt_control_t \<Rightarrow> dt_control_t \<times> job_id option" where
  "dt_control_job_create i ex msg view c =
     (if \<not> control_running c then (c, None)
      else case i of
        None \<Rightarrow> (c, None)
      | Some a \<Rightarrow>
          (put_job a \<lparr>execute = ex, params = [], params_size = 0, params_destroy = None, job_result = 0,
             job_state = DT_JOB_STATE_INITIALIZED, priority = 0, job_queue = 0, state_changed_cb = None,
             progress = None, description = strlcpy DT_CONTROL_DESCRIPTION_LEN msg, view_creator = view,
             is_synchronous = False\<rparr> c, Some a))"

text \<open>The function is declared to return flags; what it returns is 0 or 1.\<close>

definition dt_control_job_get_view_creator :: "job_id option \<Rightarrow> dt_control_t \<Rightarrow> dt_control_t \<times> 32 word" where
  "dt_control_job_get_view_creator i c = read_job i 0 (\<lambda>j. if view_creator j \<noteq> 0 then 1 else 0) c"

lemma get_view_creator_is_boolean: "snd (dt_control_job_get_view_creator i c) \<in> {0, 1}"
  by (auto simp: dt_control_job_get_view_creator_def read_job_def split: option.split)

definition dt_control_job_is_synchronous :: "job_id option \<Rightarrow> dt_control_t \<Rightarrow> dt_control_t \<times> bool" where
  "dt_control_job_is_synchronous i c = read_job i False is_synchronous c"

definition dispose_live :: "job_id \<Rightarrow> dt_control_t \<Rightarrow> dt_control_t" where
  "dispose_live i c = with_job i (\<lambda>j.
     let c1 = (case progress j of None \<Rightarrow> c | Some p \<Rightarrow> dt_control_progress_destroy p c);
         c2 = put_job i (j\<lparr>progress := None\<rparr>) c1;
         c3 = control_job_set_state i DT_JOB_STATE_DISPOSED c2;
         c4 = (if params_destroy j = None then c3 else log_event (ParamsDestroyed i) c3)
     in c4\<lparr>heap := (heap c4)(i := None)\<rparr>) c"

definition dt_control_job_dispose :: "job_id option \<Rightarrow> dt_control_t \<Rightarrow> dt_control_t" where
  "dt_control_job_dispose i c = (case i of None \<Rightarrow> c | Some a \<Rightarrow> dispose_live a c)"

definition queuename :: "nat \<Rightarrow> string" where
  "queuename i =
     (if i = DT_JOB_QUEUE_USER_FG then ''DT_JOB_QUEUE_USER_FG''
      else if i = DT_JOB_QUEUE_SYSTEM_FG then ''DT_JOB_QUEUE_SYSTEM_FG''
      else if i = DT_JOB_QUEUE_USER_BG then ''DT_JOB_QUEUE_USER_BG''
      else if i = DT_JOB_QUEUE_USER_EXPORT then ''DT_JOB_QUEUE_USER_EXPORT''
      else if i = DT_JOB_QUEUE_SYSTEM_BG then ''DT_JOB_QUEUE_SYSTEM_BG''
      else if i = DT_JOB_QUEUE_SYNCHRONOUS then ''DT_JOB_QUEUE_SYNCHRONOUS''
      else ''???'')"

definition dt_control_job_cancel :: "job_id \<Rightarrow> dt_control_t \<Rightarrow> dt_control_t" where
  "dt_control_job_cancel i c = control_job_set_state i DT_JOB_STATE_CANCELLED c"

text \<open>The job gets a progress object \<open>p\<close>.\<close>

definition dt_control_job_add_progress :: "job_id \<Rightarrow> nat \<Rightarrow> bool \<Rightarrow> dt_control_t \<Rightarrow> dt_control_t" where
  "dt_control_job_add_progress i p cancellable c =
     (let c1 = upd_job i (\<lambda>j. j\<lparr>progress := Some p\<rparr>) (dt_control_progress_create p c)
      in if cancellable then dt_control_progress_attach_job p i c1 else c1)"

text \<open>
  What the panel does with a progress object; to look at one that was destroyed is a fault, too. The callback is
  always the one of an attached job.
\<close>

definition dt_control_progress_cancel :: "nat \<Rightarrow> dt_control_t \<Rightarrow> dt_control_t" where
  "dt_control_progress_cancel p c =
     (case progress_data c p of
        None \<Rightarrow> c\<lparr>fault := True\<rparr>
      | Some None \<Rightarrow> c
      | Some (Some i) \<Rightarrow> dt_control_job_cancel i c)"


section \<open>Executing\<close>

text \<open>
  Execution has two atomic state changes with the callback between them; \<open>r\<close> is the
  callback's result.
\<close>

definition execute_begin :: "job_id \<Rightarrow> dt_control_t \<Rightarrow> dt_control_t" where
  "execute_begin i c = control_job_set_state i DT_JOB_STATE_RUNNING c"

definition execute_end :: "job_id \<Rightarrow> int \<Rightarrow> dt_control_t \<Rightarrow> dt_control_t" where
  "execute_end i r c =
     control_job_set_state i DT_JOB_STATE_FINISHED
       (log_event (ExecuteReturned i r) (upd_job i (\<lambda>j. j\<lparr>job_result := r\<rparr>) c))"

definition control_job_execute :: "job_id \<Rightarrow> int \<Rightarrow> dt_control_t \<Rightarrow> dt_control_t" where
  "control_job_execute i r c = execute_end i r (execute_begin i c)"

text \<open>A worker executes its job only when it is still queued.\<close>

definition execute_queued :: "job_id \<Rightarrow> int \<Rightarrow> dt_control_t \<Rightarrow> dt_control_t" where
  "execute_queued i r c =
     (case dt_control_job_get_state (Some i) c of
        (c1, st) \<Rightarrow> if st = DT_JOB_STATE_QUEUED then control_job_execute i r c1 else c1)"


section \<open>Reserved workers\<close>

text \<open>The section under \<open>res_mutex\<close> of \<open>_control_run_job_res\<close>.\<close>

definition take_job_res :: "nat \<Rightarrow> dt_control_t \<Rightarrow> dt_control_t \<times> job_id option" where
  "take_job_res res c =
     (if new_res c ! res
      then (c\<lparr>job_res := (job_res c)[res := None], new_res := (new_res c)[res := False]\<rparr>, job_res c ! res)
      else (c\<lparr>new_res := (new_res c)[res := False]\<rparr>, None))"

definition control_run_job_res :: "nat \<Rightarrow> int \<Rightarrow> dt_control_t \<Rightarrow> dt_control_t \<times> bool" where
  "control_run_job_res res r c =
     (if DT_CTL_WORKER_RESERVED \<le> res then (c, True)
      else case take_job_res res c of
        (c1, None) \<Rightarrow> (c1, True)
      | (c1, Some i) \<Rightarrow> (dt_control_job_dispose (Some i) (execute_queued i r c1), False))"

definition dt_control_add_job_res :: "job_id option \<Rightarrow> nat \<Rightarrow> dt_control_t \<Rightarrow> dt_control_t \<times> bool" where
  "dt_control_add_job_res job res c =
     (case job of
        None \<Rightarrow> (c, True)
      | Some i \<Rightarrow>
          if DT_CTL_WORKER_RESERVED \<le> res then (dt_control_job_dispose (Some i) c, True)
          else
            let c1 = (case job_res c ! res of
                        None \<Rightarrow> c
                      | Some old \<Rightarrow> dt_control_job_dispose (Some old)
                                      (control_job_set_state old DT_JOB_STATE_DISCARDED c));
                c2 = control_job_set_state i DT_JOB_STATE_QUEUED c1
            in (c2\<lparr>job_res := (job_res c2)[res := Some i], new_res := (new_res c2)[res := True]\<rparr>, False))"


section \<open>Scheduling\<close>

definition job_priority :: "job_id \<Rightarrow> dt_control_t \<Rightarrow> dt_control_t \<times> int" where
  "job_priority i c = read_job (Some i) 0 (\<lambda>j. uint (priority j)) c"

text \<open>The scan over the queue heads: the winner queue and its head.\<close>

fun schedule_scan ::
  "nat list \<Rightarrow> int \<Rightarrow> (nat \<times> job_id) option \<Rightarrow> dt_control_t \<Rightarrow> dt_control_t \<times> (nat \<times> job_id) option" where
  "schedule_scan [] max_priority best c = (c, best)"
| "schedule_scan (q # qs) max_priority best c =
     (case queues c ! q of
        [] \<Rightarrow> schedule_scan qs max_priority best c
      | i # _ \<Rightarrow>
          if export_scheduled c \<and> q = DT_JOB_QUEUE_USER_EXPORT then schedule_scan qs max_priority best c
          else case job_priority i c of (c1, p) \<Rightarrow>
            if max_priority < p then schedule_scan qs p (Some (q, i)) c1
            else schedule_scan qs max_priority best c1)"

fun bump_heads :: "nat \<Rightarrow> nat list \<Rightarrow> dt_control_t \<Rightarrow> dt_control_t" where
  "bump_heads winner [] c = c"
| "bump_heads winner (q # qs) c =
     bump_heads winner qs
       (if q = winner then c
        else case queues c ! q of
          [] \<Rightarrow> c
        | i # _ \<Rightarrow> upd_job i (\<lambda>j. j\<lparr>priority := priority j + 1\<rparr>) c)"

definition control_schedule_job :: "nat \<Rightarrow> dt_control_t \<Rightarrow> dt_control_t \<times> job_id option" where
  "control_schedule_job threadid c0 =
     (case schedule_scan [0..<DT_JOB_QUEUE_MAX] (- 1) None c0 of
        (c, None) \<Rightarrow> (c, None)
      | (c, Some (q, i)) \<Rightarrow>
          let c1 = c\<lparr>queues := (queues c)[q := tl (queues c ! q)],
                     queue_length := (queue_length c)[q := queue_length c ! q - 1],
                     sched := (sched c)[threadid := Some i],
                     export_scheduled := (if q = DT_JOB_QUEUE_USER_EXPORT then True else export_scheduled c)\<rparr>
          in (bump_heads q [0..<DT_JOB_QUEUE_MAX] c1, Some i))"

text \<open>The end of \<open>_control_run_job\<close>.\<close>

definition run_job_finish :: "nat \<Rightarrow> job_id \<Rightarrow> dt_control_t \<Rightarrow> dt_control_t" where
  "run_job_finish threadid i c =
     (let c1 = c\<lparr>sched := (sched c)[threadid := None]\<rparr>;
          c2 = with_job i (\<lambda>j. if job_queue j = DT_JOB_QUEUE_USER_EXPORT
                               then c1\<lparr>export_scheduled := False\<rparr> else c1) c1;
          c3 = dt_control_job_dispose (Some i) c2
      in c3\<lparr>pending_jobs := pending_jobs c3 - 1\<rparr>)"

definition control_run_job :: "nat \<Rightarrow> int \<Rightarrow> dt_control_t \<Rightarrow> dt_control_t \<times> bool" where
  "control_run_job threadid r c =
     (case control_schedule_job threadid c of
        (c1, None) \<Rightarrow> (c1, True)
      | (c1, Some i) \<Rightarrow> (run_job_finish threadid i (execute_queued i r c1), False))"


section \<open>Adding a job\<close>

definition set_queue :: "nat \<Rightarrow> job_id list \<Rightarrow> nat \<Rightarrow> dt_control_t \<Rightarrow> dt_control_t" where
  "set_queue q xs n c = c\<lparr>queues := (queues c)[q := xs], queue_length := (queue_length c)[q := n]\<rparr>"

text \<open>The first of the jobs that is equal to the given one.\<close>

fun find_equal :: "job_id \<Rightarrow> job_id option list \<Rightarrow> dt_control_t \<Rightarrow> dt_control_t \<times> job_id option" where
  "find_equal i [] c = (c, None)"
| "find_equal i (x # xs) c =
     (case control_job_equal (Some i) x c of (c1, eq) \<Rightarrow> if eq then (c1, x) else find_equal i xs c1)"

text \<open>
  The stack with limited length: the job is found in the queue and moved to the top, or pushed;
  the last one is dropped when the stack is full. The result names the job that is now on top and
  the job to dispose of.
\<close>

definition add_system_fg :: "job_id \<Rightarrow> dt_control_t \<Rightarrow> dt_control_t \<times> job_id \<times> job_id option" where
  "add_system_fg i c0 =
     (let q = queues c0 ! DT_JOB_QUEUE_SYSTEM_FG;
          n = queue_length c0 ! DT_JOB_QUEUE_SYSTEM_FG
      in case find_equal i (map Some q) c0 of
           (c, Some other) \<Rightarrow>
             (set_queue DT_JOB_QUEUE_SYSTEM_FG (other # remove1 other q) (n - 1 + 1)
                (c\<lparr>pending_jobs := pending_jobs c - 1\<rparr>), other, Some i)
         | (c, None) \<Rightarrow> (set_queue DT_JOB_QUEUE_SYSTEM_FG (i # q) (n + 1) c, i, None))"

definition trim_system_fg :: "dt_control_t \<Rightarrow> dt_control_t" where
  "trim_system_fg c =
     (let q = queues c ! DT_JOB_QUEUE_SYSTEM_FG;
          n = queue_length c ! DT_JOB_QUEUE_SYSTEM_FG
      in if DT_CONTROL_MAX_JOBS < n
         then let c1 = dt_control_job_dispose (Some (last q))
                         (control_job_set_state (last q) DT_JOB_STATE_DISCARDED c)
              in set_queue DT_JOB_QUEUE_SYSTEM_FG (butlast q) (n - 1)
                   (c1\<lparr>pending_jobs := pending_jobs c1 - 1\<rparr>)
         else c)"

definition discard_job :: "job_id option \<Rightarrow> dt_control_t \<Rightarrow> dt_control_t" where
  "discard_job i c =
     (case i of
        None \<Rightarrow> c
      | Some a \<Rightarrow> dt_control_job_dispose (Some a) (control_job_set_state a DT_JOB_STATE_DISCARDED c))"

definition add_fg_job :: "job_id \<Rightarrow> dt_control_t \<Rightarrow> dt_control_t" where
  "add_fg_job i c0 =
     (case find_equal i (sched c0) c0 of
        (c, Some _) \<Rightarrow> (let c1 = discard_job (Some i) c in c1\<lparr>pending_jobs := pending_jobs c1 - 1\<rparr>)
      | (c, None) \<Rightarrow>
          (case add_system_fg i c of
             (c1, first, old) \<Rightarrow>
               discard_job old (control_job_set_state first DT_JOB_STATE_QUEUED (trim_system_fg c1))))"

text \<open>The other queues are FIFOs.\<close>

definition add_fifo_job :: "nat \<Rightarrow> job_id \<Rightarrow> dt_control_t \<Rightarrow> dt_control_t" where
  "add_fifo_job queue_id i c =
     control_job_set_state i DT_JOB_STATE_QUEUED
       (set_queue queue_id (queues c ! queue_id @ [i]) (queue_length c ! queue_id + 1) c)"

definition queue_priority :: "nat \<Rightarrow> 8 word" where
  "queue_priority queue_id =
     (if queue_id = DT_JOB_QUEUE_USER_BG \<or> queue_id = DT_JOB_QUEUE_USER_EXPORT \<or>
         queue_id = DT_JOB_QUEUE_SYSTEM_BG
      then 0 else DT_CONTROL_FG_PRIORITY)"

definition add_to_queue :: "nat \<Rightarrow> job_id \<Rightarrow> dt_control_t \<Rightarrow> dt_control_t" where
  "add_to_queue queue_id i c =
     (let c1 = upd_job i (\<lambda>j. j\<lparr>job_queue := queue_id\<rparr>) c;
          c2 = c1\<lparr>pending_jobs := pending_jobs c1 + 1\<rparr>;
          c3 = upd_job i (\<lambda>j. j\<lparr>priority := queue_priority queue_id\<rparr>) c2
      in if queue_id = DT_JOB_QUEUE_SYSTEM_FG then add_fg_job i c3 else add_fifo_job queue_id i c3)"

definition dt_control_add_job :: "nat \<Rightarrow> job_id option \<Rightarrow> int \<Rightarrow> dt_control_t \<Rightarrow> dt_control_t \<times> bool" where
  "dt_control_add_job queue_id job r c =
     (case job of
        None \<Rightarrow> (c, True)
      | Some i \<Rightarrow>
          if DT_JOB_QUEUE_MAX \<le> queue_id \<and> queue_id \<noteq> DT_JOB_QUEUE_SYNCHRONOUS
          then (dt_control_job_dispose (Some i) c, True)
          else if \<not> control_running c \<or> queue_id = DT_JOB_QUEUE_SYNCHRONOUS
          then (dt_control_job_dispose (Some i)
                  (control_job_execute i r (upd_job i (\<lambda>j. j\<lparr>is_synchronous := True\<rparr>) c)), False)
          else (add_to_queue queue_id i c, False))"


section \<open>Start-up\<close>

definition dt_control_jobs_init :: "nat \<Rightarrow> dt_control_t \<Rightarrow> dt_control_t" where
  "dt_control_jobs_init num_threads c =
     c\<lparr>sched := replicate num_threads None, control_running := True,
       job_res := replicate DT_CTL_WORKER_RESERVED None,
       new_res := replicate DT_CTL_WORKER_RESERVED False\<rparr>"

text \<open>The number of pending jobs; the state of the thumbnail crawler is an argument.\<close>

definition dt_control_jobs_pending :: "dt_job_state_t \<Rightarrow> dt_control_t option \<Rightarrow> int" where
  "dt_control_jobs_pending backthumbs control =
     (case control of
        None \<Rightarrow> 0
      | Some c \<Rightarrow> if backthumbs = DT_JOB_STATE_RUNNING then pending_jobs c - 1 else pending_jobs c)"

text \<open>The control structure before start-up, allocated with zeros.\<close>

definition control_zero :: dt_control_t where
  "control_zero = \<lparr>heap = Map.empty, queues = replicate DT_JOB_QUEUE_MAX [],
     queue_length = replicate DT_JOB_QUEUE_MAX 0, sched = [], export_scheduled = False, pending_jobs = 0,
     job_res = replicate DT_CTL_WORKER_RESERVED None, new_res = replicate DT_CTL_WORKER_RESERVED False,
     control_running = False, fault = False, progress_data = Map.empty, events = []\<rparr>"


section \<open>What the operations on one job keep\<close>

text \<open>The part of a job that identifies it, which nothing changes while it is queued.\<close>

definition jkey :: "dt_job_t \<Rightarrow> dt_job_t" where
  "jkey j = j\<lparr>params_destroy := None, job_result := 0, job_state := DT_JOB_STATE_INITIALIZED,
     priority := 0, progress := None, view_creator := 0, is_synchronous := False\<rparr>"

definition keys :: "dt_control_t \<Rightarrow> job_id \<rightharpoonup> dt_job_t" where
  "keys c i = map_option jkey (heap c i)"

definition key_eq :: "(job_id \<rightharpoonup> dt_job_t) \<Rightarrow> job_id \<Rightarrow> job_id \<Rightarrow> bool" where
  "key_eq K i j = (case K i of None \<Rightarrow> False | Some a \<Rightarrow> (case K j of None \<Rightarrow> False | Some b \<Rightarrow> job_equal a b))"

definition queue_of :: "(job_id \<rightharpoonup> dt_job_t) \<Rightarrow> job_id \<Rightarrow> nat option" where
  "queue_of K i = map_option job_queue (K i)"

lemma job_equal_jkey [simp]: "job_equal (jkey a) (jkey b) = job_equal a b"
  by (simp add: job_equal_def jkey_def)

lemma job_equal_sym: "job_equal a b = job_equal b a"
  by (auto simp: job_equal_def)

lemma key_eq_sym: "key_eq K i j = key_eq K j i"
  by (auto simp: key_eq_def job_equal_sym split: option.splits)

lemma key_eq_queue: "key_eq K i j \<Longrightarrow> queue_of K i = queue_of K j"
  by (auto simp: key_eq_def queue_of_def job_equal_def split: option.splits if_splits)

text \<open>The values that are read, in states in which the jobs are allocated.\<close>

definition jobs_equal :: "dt_control_t \<Rightarrow> job_id \<Rightarrow> job_id option \<Rightarrow> bool" where
  "jobs_equal c i x = (case x of None \<Rightarrow> False | Some k \<Rightarrow> key_eq (keys c) i k)"

lemma jobs_equal_simps [simp]:
  "\<not> jobs_equal c i None" "jobs_equal c i (Some k) = key_eq (keys c) i k"
  by (simp_all add: jobs_equal_def)

lemma read_job_live: "heap c i = Some j \<Longrightarrow> read_job (Some i) d f c = (c, f j)"
  by (simp add: read_job_def)

lemma read_job_frame:
  "fst (read_job x d f c) = c \<or> fst (read_job x d f c) = c\<lparr>fault := True\<rparr>"
  by (auto simp: read_job_def split: option.split)

lemma control_job_equal_live:
  assumes "heap c i \<noteq> None" and "\<And>k. x = Some k \<Longrightarrow> heap c k \<noteq> None"
  shows "control_job_equal (Some i) x c = (c, jobs_equal c i x)"
  using assms
  by (cases x) (auto simp: control_job_equal_def read_job_live key_eq_def keys_def)

lemma find_equal_live:
  assumes "heap c i \<noteq> None" and "\<And>k. Some k \<in> set xs \<Longrightarrow> heap c k \<noteq> None"
  shows "find_equal i xs c = (c, case find (jobs_equal c i) xs of None \<Rightarrow> None | Some x \<Rightarrow> x)"
  using assms(2)
proof (induction xs)
  case (Cons x xs)
  have "control_job_equal (Some i) x c = (c, jobs_equal c i x)"
    by (rule control_job_equal_live [OF assms(1)]) (use Cons.prems in auto)
  with Cons show ?case by simp
qed simp

lemma find_equal_some:
  assumes "heap c i \<noteq> None" and "\<And>k. Some k \<in> set xs \<Longrightarrow> heap c k \<noteq> None"
  shows "find_equal i xs c = (c, r) \<Longrightarrow> (r = None \<longleftrightarrow> (\<forall>x\<in>set xs. \<not> jobs_equal c i x))"
proof -
  assume "find_equal i xs c = (c, r)"
  then have r: "r = (case find (jobs_equal c i) xs of None \<Rightarrow> None | Some x \<Rightarrow> x)"
    by (simp add: find_equal_live [OF assms])
  show ?thesis
  proof (cases "find (jobs_equal c i) xs")
    case None
    then have "\<forall>x\<in>set xs. \<not> jobs_equal c i x" by (simp add: find_None_iff)
    then show ?thesis using r None by simp
  next
    case (Some x)
    then have x: "jobs_equal c i x" "x \<in> set xs" by (auto simp: find_Some_iff)
    then obtain k where "x = Some k" by (cases x) simp_all
    moreover have "\<not> (\<forall>x\<in>set xs. \<not> jobs_equal c i x)" using x by blast
    ultimately show ?thesis using r Some by simp
  qed
qed

text \<open>A scan leaves everything but the fault flag alone.\<close>

lemma control_job_equal_frame:
  "fst (control_job_equal a b c) = c \<or> fst (control_job_equal a b c) = c\<lparr>fault := True\<rparr>"
  using read_job_frame [of a None Some c] read_job_frame [of b None Some "fst (read_job a None Some c)"]
  by (auto simp: control_job_equal_def split: prod.split)

lemma find_equal_frame: "fst (find_equal i xs c) = c \<or> fst (find_equal i xs c) = c\<lparr>fault := True\<rparr>"
proof (induction xs arbitrary: c)
  case (Cons x xs)
  obtain c1 eq where r: "control_job_equal (Some i) x c = (c1, eq)" by (cases "control_job_equal (Some i) x c")
  have "c1 = c \<or> c1 = c\<lparr>fault := True\<rparr>" using control_job_equal_frame [of "Some i" x c] r by simp
  with Cons.IH [of c1] r show ?case by auto
qed simp

lemma keys_None [simp]: "keys c i = None \<longleftrightarrow> heap c i = None"
  by (simp add: keys_def)

lemma log_event_frame [simp, dt_frames]:
  "heap (log_event e c) = heap c" "queues (log_event e c) = queues c"
  "queue_length (log_event e c) = queue_length c" "sched (log_event e c) = sched c"
  "export_scheduled (log_event e c) = export_scheduled c" "pending_jobs (log_event e c) = pending_jobs c"
  "job_res (log_event e c) = job_res c" "new_res (log_event e c) = new_res c"
  "control_running (log_event e c) = control_running c" "fault (log_event e c) = fault c"
  by (simp_all add: log_event_def)

lemma progress_frame [simp, dt_frames]:
  "heap (dt_control_progress_create p c) = heap c" "queues (dt_control_progress_create p c) = queues c"
  "queue_length (dt_control_progress_create p c) = queue_length c" "sched (dt_control_progress_create p c) = sched c"
  "export_scheduled (dt_control_progress_create p c) = export_scheduled c" "pending_jobs (dt_control_progress_create p c) = pending_jobs c"
  "job_res (dt_control_progress_create p c) = job_res c" "new_res (dt_control_progress_create p c) = new_res c"
  "control_running (dt_control_progress_create p c) = control_running c" "fault (dt_control_progress_create p c) = fault c"
  "heap (dt_control_progress_destroy p c) = heap c" "queues (dt_control_progress_destroy p c) = queues c"
  "queue_length (dt_control_progress_destroy p c) = queue_length c" "sched (dt_control_progress_destroy p c) = sched c"
  "export_scheduled (dt_control_progress_destroy p c) = export_scheduled c" "pending_jobs (dt_control_progress_destroy p c) = pending_jobs c"
  "job_res (dt_control_progress_destroy p c) = job_res c" "new_res (dt_control_progress_destroy p c) = new_res c"
  "control_running (dt_control_progress_destroy p c) = control_running c" "fault (dt_control_progress_destroy p c) = fault c"
  "heap (dt_control_progress_attach_job p i c) = heap c" "queues (dt_control_progress_attach_job p i c) = queues c"
  "queue_length (dt_control_progress_attach_job p i c) = queue_length c" "sched (dt_control_progress_attach_job p i c) = sched c"
  "export_scheduled (dt_control_progress_attach_job p i c) = export_scheduled c" "pending_jobs (dt_control_progress_attach_job p i c) = pending_jobs c"
  "job_res (dt_control_progress_attach_job p i c) = job_res c" "new_res (dt_control_progress_attach_job p i c) = new_res c"
  "control_running (dt_control_progress_attach_job p i c) = control_running c" "fault (dt_control_progress_attach_job p i c) = fault c"
  by (simp_all add: dt_control_progress_create_def dt_control_progress_destroy_def dt_control_progress_attach_job_def)

lemma put_job_frame [simp, dt_frames]:
  "heap (put_job i j c) = (heap c)(i \<mapsto> j)" "queues (put_job i j c) = queues c"
  "queue_length (put_job i j c) = queue_length c" "sched (put_job i j c) = sched c"
  "export_scheduled (put_job i j c) = export_scheduled c" "pending_jobs (put_job i j c) = pending_jobs c"
  "job_res (put_job i j c) = job_res c" "new_res (put_job i j c) = new_res c"
  "control_running (put_job i j c) = control_running c" "fault (put_job i j c) = fault c"
  by (simp_all add: put_job_def)

lemma upd_job_frame [simp, dt_frames]:
  "queues (upd_job i f c) = queues c"
  "queue_length (upd_job i f c) = queue_length c" "sched (upd_job i f c) = sched c"
  "export_scheduled (upd_job i f c) = export_scheduled c" "pending_jobs (upd_job i f c) = pending_jobs c"
  "job_res (upd_job i f c) = job_res c" "new_res (upd_job i f c) = new_res c"
  "control_running (upd_job i f c) = control_running c"
  "heap c i \<noteq> None \<Longrightarrow> fault (upd_job i f c) = fault c"
  by (auto simp: upd_job_def with_job_def split: option.splits)

lemma set_state_frame [simp, dt_frames]:
  "queues (control_job_set_state i st c) = queues c"
  "queue_length (control_job_set_state i st c) = queue_length c"
  "sched (control_job_set_state i st c) = sched c"
  "export_scheduled (control_job_set_state i st c) = export_scheduled c"
  "pending_jobs (control_job_set_state i st c) = pending_jobs c"
  "job_res (control_job_set_state i st c) = job_res c" "new_res (control_job_set_state i st c) = new_res c"
  "control_running (control_job_set_state i st c) = control_running c"
  "heap c i \<noteq> None \<Longrightarrow> fault (control_job_set_state i st c) = fault c"
  by (auto simp: control_job_set_state_def with_job_def Let_def split: option.splits)

lemma dispose_frame [simp, dt_frames]:
  "queues (dt_control_job_dispose i c) = queues c"
  "queue_length (dt_control_job_dispose i c) = queue_length c"
  "sched (dt_control_job_dispose i c) = sched c"
  "export_scheduled (dt_control_job_dispose i c) = export_scheduled c"
  "pending_jobs (dt_control_job_dispose i c) = pending_jobs c"
  "job_res (dt_control_job_dispose i c) = job_res c" "new_res (dt_control_job_dispose i c) = new_res c"
  "control_running (dt_control_job_dispose i c) = control_running c"
  "heap c a \<noteq> None \<Longrightarrow> fault (dt_control_job_dispose (Some a) c) = fault c"
  by (auto simp: dt_control_job_dispose_def dispose_live_def with_job_def Let_def split: option.splits)

lemma jkey_update [simp]:
  "jkey (j\<lparr>progress := p\<rparr>) = jkey j" "jkey (j\<lparr>job_state := st\<rparr>) = jkey j"
  "jkey (j\<lparr>priority := x\<rparr>) = jkey j" "jkey (j\<lparr>job_result := r\<rparr>) = jkey j"
  "jkey (j\<lparr>is_synchronous := b\<rparr>) = jkey j"
  by (simp_all add: jkey_def)

lemma keys_fields [simp]:
  "keys (c\<lparr>queues := qs\<rparr>) = keys c" "keys (c\<lparr>queue_length := ns\<rparr>) = keys c"
  "keys (c\<lparr>sched := sc\<rparr>) = keys c" "keys (c\<lparr>export_scheduled := b\<rparr>) = keys c"
  "keys (c\<lparr>pending_jobs := n\<rparr>) = keys c" "keys (c\<lparr>job_res := js\<rparr>) = keys c"
  "keys (c\<lparr>new_res := bs\<rparr>) = keys c" "keys (c\<lparr>control_running := b\<rparr>) = keys c"
  "keys (log_event e c) = keys c" "keys (dt_control_progress_create p c) = keys c"
  "keys (dt_control_progress_destroy p c) = keys c" "keys (dt_control_progress_attach_job p i c) = keys c"
  by (simp_all add: keys_def fun_eq_iff)

lemma keys_upd_job:
  assumes "\<And>j. jkey (f j) = jkey j"
  shows "keys (upd_job i f c) = keys c"
  by (rule ext) (auto simp: keys_def upd_job_def with_job_def assms split: option.splits)

lemma keys_set_state [simp]: "keys (control_job_set_state i st c) = keys c"
  by (rule ext) (auto simp: keys_def control_job_set_state_def with_job_def Let_def split: option.splits)

lemma live_upd_job [simp]: "heap (upd_job i f c) k = None \<longleftrightarrow> heap c k = None"
  by (auto simp: upd_job_def with_job_def split: option.splits)

lemma heap_set_state_other [simp]: "k \<noteq> i \<Longrightarrow> heap (control_job_set_state i st c) k = heap c k"
  by (auto simp: control_job_set_state_def with_job_def Let_def split: option.splits)

lemma keys_dispose [simp]: "keys (dt_control_job_dispose (Some i) c) = (keys c)(i := None)"
  by (rule ext)
    (auto simp: dt_control_job_dispose_def dispose_live_def with_job_def Let_def keys_def split: option.splits)

text \<open>A job is allocated exactly when it has a key; operations on an allocated job do not fault.\<close>

lemma live_set_state [simp]: "heap (control_job_set_state i st c) k = None \<longleftrightarrow> heap c k = None"
  by (metis keys_None keys_set_state)


section \<open>The invariant\<close>

abbreviation optm :: "job_id option \<Rightarrow> job_id multiset" where
  "optm x \<equiv> (case x of None \<Rightarrow> {#} | Some i \<Rightarrow> {#i#})"

text \<open>All references to jobs: from the queues, the workers' slots, the reserved slots.\<close>

definition ctl_refs :: "dt_control_t \<Rightarrow> job_id multiset" where
  "ctl_refs c = sum_list (map mset (queues c)) + sum_list (map optm (sched c)) + sum_list (map optm (job_res c))"

definition exports :: "(job_id \<rightharpoonup> dt_job_t) \<Rightarrow> job_id option \<Rightarrow> nat" where
  "exports K x = (case x of None \<Rightarrow> 0 | Some i \<Rightarrow> if queue_of K i = Some DT_JOB_QUEUE_USER_EXPORT then 1 else 0)"

definition fg_jobs :: "dt_control_t \<Rightarrow> job_id set" where
  "fg_jobs c = set (queues c ! DT_JOB_QUEUE_SYSTEM_FG) \<union>
     {i. Some i \<in> set (sched c) \<and> queue_of (keys c) i = Some DT_JOB_QUEUE_SYSTEM_FG}"

text \<open>
  \<open>rest\<close> are the references to jobs held outside the control structure: by the code that
  created them and by the reserved workers. Every allocated job is referenced exactly once, so
  nothing is leaked and nothing that is referenced has been freed.
\<close>

definition refs_ok :: "(job_id \<rightharpoonup> dt_job_t) \<Rightarrow> job_id multiset \<Rightarrow> bool" where
  "refs_ok K R \<longleftrightarrow> (\<forall>i. count R i = (if K i = None then 0 else 1))"

definition queues_ok :: "dt_control_t \<Rightarrow> bool" where
  "queues_ok c \<longleftrightarrow>
     length (queues c) = DT_JOB_QUEUE_MAX \<and> queue_length c = map length (queues c) \<and>
     length (job_res c) = DT_CTL_WORKER_RESERVED \<and> length (new_res c) = DT_CTL_WORKER_RESERVED \<and>
     (\<forall>q<DT_JOB_QUEUE_MAX. \<forall>i\<in>set (queues c ! q). queue_of (keys c) i = Some q)"

text \<open>
  The counter of pending jobs is moved by atomic operations of its own; \<open>d\<close> is by how much it is
  ahead of the queues and workers, 0 between operations.
\<close>

definition pending_ok :: "int \<Rightarrow> dt_control_t \<Rightarrow> bool" where
  "pending_ok d c \<longleftrightarrow> pending_jobs c = d +
     int (sum_list (map length (queues c)) + length (filter (\<lambda>x. x \<noteq> None) (sched c)))"

definition export_ok :: "dt_control_t \<Rightarrow> bool" where
  "export_ok c \<longleftrightarrow> sum_list (map (exports (keys c)) (sched c)) = (if export_scheduled c then 1 else 0)"

definition dedup_ok :: "dt_control_t \<Rightarrow> bool" where
  "dedup_ok c \<longleftrightarrow> (\<forall>i\<in>fg_jobs c. \<forall>j\<in>fg_jobs c. i \<noteq> j \<longrightarrow> \<not> key_eq (keys c) i j)"

definition ctl_ok :: "int \<Rightarrow> dt_control_t \<Rightarrow> job_id multiset \<Rightarrow> bool" where
  "ctl_ok d c rest \<longleftrightarrow> \<not> fault c \<and> refs_ok (keys c) (ctl_refs c + rest) \<and> queues_ok c \<and> pending_ok d c \<and>
     export_ok c \<and> dedup_ok c"

lemmas ctl_defs = ctl_ok_def queues_ok_def pending_ok_def export_ok_def dedup_ok_def fg_jobs_def ctl_refs_def

lemma refs_ok_live: "refs_ok K R \<Longrightarrow> i \<in># R \<Longrightarrow> K i \<noteq> None"
  unfolding refs_ok_def by (metis not_in_iff)

lemma refs_ok_remove: "refs_ok K (add_mset i R) \<Longrightarrow> refs_ok (K(i := None)) R"
proof (unfold refs_ok_def, intro allI)
  fix k assume *: "\<forall>k. count (add_mset i R) k = (if K k = None then 0 else 1)"
  from spec [OF *, of k] show "count R k = (if (K(i := None)) k = None then 0 else 1)"
    by (cases "k = i") (auto split: if_splits)
qed

lemma refs_ok_insert: "refs_ok K R \<Longrightarrow> K i = None \<Longrightarrow> refs_ok (K(i \<mapsto> j)) (add_mset i R)"
  unfolding refs_ok_def by auto

lemma refs_ok_once: "refs_ok K (add_mset i R) \<Longrightarrow> i \<notin># R"
proof -
  assume "refs_ok K (add_mset i R)"
  then have "count (add_mset i R) i = (if K i = None then 0 else 1)" unfolding refs_ok_def by blast
  then show ?thesis by (simp add: not_in_iff split: if_splits)
qed

text \<open>Nothing but the keys and these fields matters.\<close>

lemma ctl_ok_cong:
  assumes "queues c' = queues c" "queue_length c' = queue_length c" "sched c' = sched c"
    "export_scheduled c' = export_scheduled c" "pending_jobs c' = pending_jobs c"
    "job_res c' = job_res c" "length (new_res c') = length (new_res c)" "keys c' = keys c" "fault c' = fault c"
  shows "ctl_ok d c' rest = ctl_ok d c rest"
  using assms by (simp add: ctl_defs)

lemma pending_shift:
  "ctl_ok d c rest \<Longrightarrow> ctl_ok (d + k) (c\<lparr>pending_jobs := pending_jobs c + k\<rparr>) rest"
  by (simp add: ctl_defs)

lemma live_in_rest: "ctl_ok d c rest \<Longrightarrow> i \<in># rest \<Longrightarrow> heap c i \<noteq> None"
  using refs_ok_live [of "keys c" "ctl_refs c + rest" i] by (simp add: ctl_ok_def)

lemma sum_list_mset_in: "x \<in># sum_list (map f xs) \<longleftrightarrow> (\<exists>y\<in>set xs. x \<in># f y)"
  for f :: "'a \<Rightarrow> 'b multiset"
  by (induction xs) auto

lemma live_in_ctl:
  assumes "ctl_ok d c rest"
  shows "q < length (queues c) \<Longrightarrow> i \<in> set (queues c ! q) \<Longrightarrow> heap c i \<noteq> None"
    and "Some i \<in> set (sched c) \<Longrightarrow> heap c i \<noteq> None"
    and "Some i \<in> set (job_res c) \<Longrightarrow> heap c i \<noteq> None"
proof -
  have live: "heap c i \<noteq> None" if "i \<in># ctl_refs c" for i
    using refs_ok_live [of "keys c" "ctl_refs c + rest" i] assms that by (simp add: ctl_ok_def)
  show "heap c i \<noteq> None" if "q < length (queues c)" "i \<in> set (queues c ! q)"
    by (rule live) (use that in \<open>auto simp: ctl_refs_def sum_list_mset_in intro!: bexI [of _ "queues c ! q"]\<close>)
  show "heap c i \<noteq> None" if "Some i \<in> set (sched c)"
    by (rule live) (use that in \<open>auto simp: ctl_refs_def sum_list_mset_in intro!: bexI [of _ "Some i"]\<close>)
  show "heap c i \<noteq> None" if "Some i \<in> set (job_res c)"
    by (rule live) (use that in \<open>auto simp: ctl_refs_def sum_list_mset_in intro!: bexI [of _ "Some i"]\<close>)
qed

lemma set_state_ok [dt_invs]:
  "ctl_ok d c rest \<Longrightarrow> heap c i \<noteq> None \<Longrightarrow> ctl_ok d (control_job_set_state i st c) rest"
  by (subst ctl_ok_cong [of _ c]) simp_all

lemma upd_job_ok [dt_invs]:
  "ctl_ok d c rest \<Longrightarrow> heap c i \<noteq> None \<Longrightarrow> (\<And>j. jkey (f j) = jkey j) \<Longrightarrow> ctl_ok d (upd_job i f c) rest"
  by (subst ctl_ok_cong [of _ c]) (simp_all add: keys_upd_job)


subsection \<open>Jobs that only the caller refers to\<close>

lemma outside_ctl: "ctl_ok d c (add_mset i rest) \<Longrightarrow> i \<notin># ctl_refs c"
  using refs_ok_once [of "keys c" i "ctl_refs c + rest"] by (simp add: ctl_ok_def)

lemma outside_not_in:
  assumes "i \<notin># ctl_refs c"
  shows "q < length (queues c) \<Longrightarrow> i \<notin> set (queues c ! q)" and "Some i \<notin> set (sched c)"
  using assms by (force simp: ctl_refs_def sum_list_mset_in)+

lemma outside_change:
  assumes ok: "ctl_ok d c rest0" and out: "i \<notin># ctl_refs c"
    and same: "queues c' = queues c" "queue_length c' = queue_length c" "sched c' = sched c"
      "export_scheduled c' = export_scheduled c" "pending_jobs c' = pending_jobs c"
      "job_res c' = job_res c" "length (new_res c') = length (new_res c)" "fault c' = fault c"
    and keys: "\<And>k. k \<noteq> i \<Longrightarrow> keys c' k = keys c k"
    and refs: "refs_ok (keys c') (ctl_refs c + rest)"
  shows "ctl_ok d c' rest"
proof -
  have q: "queue_of (keys c') k = queue_of (keys c) k" if "k \<noteq> i" for k
    using keys that by (simp add: queue_of_def)
  have e: "key_eq (keys c') k l = key_eq (keys c) k l" if "k \<noteq> i" "l \<noteq> i" for k l
    using keys that by (simp add: key_eq_def cong: option.case_cong)
  have nq: "k \<noteq> i" if "p < length (queues c)" "k \<in> set (queues c ! p)" for p k
    using outside_not_in(1) [OF out] that by metis
  have ns: "k \<noteq> i" if "Some k \<in> set (sched c)" for k using outside_not_in(2) [OF out] that by metis
  have five: "length (queues c) = 5" using ok by (simp add: ctl_defs)
  have "exports (keys c') x = exports (keys c) x" if "x \<in> set (sched c)" for x
    using ns q that by (cases x) (simp_all add: exports_def)
  then have x: "sum_list (map (exports (keys c')) (sched c)) = sum_list (map (exports (keys c)) (sched c))"
    by (rule sum_list_map_cong)
  have fg: "fg_jobs c' = fg_jobs c" "k \<in> fg_jobs c \<Longrightarrow> k \<noteq> i" for k
    using q ns nq [of 1] five by (auto simp: fg_jobs_def same)
  have "queues_ok c'" using ok nq q five by (simp add: ctl_defs same)
  moreover have "dedup_ok c'" using ok fg e by (simp add: ctl_ok_def dedup_ok_def)
  moreover have "pending_ok d c'" "export_ok c'" using ok x by (simp_all add: ctl_defs same)
  moreover have "ctl_refs c' = ctl_refs c" by (simp add: ctl_refs_def same)
  ultimately show ?thesis using refs ok by (simp add: ctl_ok_def same)
qed

lemma dispose_ok [dt_invs]:
  assumes "ctl_ok d c (add_mset i rest)"
  shows "ctl_ok d (dt_control_job_dispose (Some i) c) rest"
proof (rule outside_change [OF assms outside_ctl [OF assms]])
  have "heap c i \<noteq> None" using live_in_rest [OF assms] by simp
  then show "fault (dt_control_job_dispose (Some i) c) = fault c" by simp
  show "refs_ok (keys (dt_control_job_dispose (Some i) c)) (ctl_refs c + rest)"
    using assms refs_ok_remove [of "keys c" i "ctl_refs c + rest"] by (simp add: ctl_ok_def)
qed simp_all

lemma put_outside_ok:
  assumes "ctl_ok d c (add_mset i rest)"
  shows "ctl_ok d (put_job i j c) (add_mset i rest)"
proof (rule outside_change [OF assms outside_ctl [OF assms]])
  have "heap c i \<noteq> None" using live_in_rest [OF assms] by simp
  then show "refs_ok (keys (put_job i j c)) (ctl_refs c + add_mset i rest)"
    using assms unfolding ctl_ok_def refs_ok_def keys_def by simp
qed (simp_all add: keys_def)

lemma upd_outside_ok [dt_invs]:
  assumes "ctl_ok d c (add_mset i rest)"
  shows "ctl_ok d (upd_job i f c) (add_mset i rest)"
  using put_outside_ok [OF assms] live_in_rest [OF assms, of i] by (auto simp: upd_job_def with_job_def)

lemma create_ok [dt_invs]:
  assumes "ctl_ok d c rest" and "heap c i = None"
  shows "ctl_ok d (put_job i j c) (add_mset i rest)"
proof (rule outside_change [OF assms(1)])
  show "i \<notin># ctl_refs c"
    using assms refs_ok_live [of "keys c" "ctl_refs c + rest" i] by (auto simp: ctl_ok_def)
  have "keys (put_job i j c) = (keys c)(i \<mapsto> jkey j)" by (rule ext) (simp add: keys_def)
  with assms refs_ok_insert [of "keys c" "ctl_refs c + rest" i "jkey j"]
  show "refs_ok (keys (put_job i j c)) (ctl_refs c + add_mset i rest)" by (simp add: ctl_ok_def)
qed (simp_all add: keys_def)


subsection \<open>Moving jobs between the owner, the queues and the workers\<close>

lemma sum_list_update_monoid:
  "k < length xs \<Longrightarrow> sum_list (map f (xs[k := y])) + f (xs ! k) = sum_list (map f xs) + f y"
  for f :: "'a \<Rightarrow> 'b::comm_monoid_add"
proof (induction xs arbitrary: k)
  case (Cons a xs)
  then show ?case by (cases k) (auto simp: ac_simps)
qed simp

lemma set_queue_frame [simp, dt_frames]:
  "heap (set_queue q xs n c) = heap c" "keys (set_queue q xs n c) = keys c"
  "queues (set_queue q xs n c) = (queues c)[q := xs]"
  "queue_length (set_queue q xs n c) = (queue_length c)[q := n]"
  "sched (set_queue q xs n c) = sched c" "export_scheduled (set_queue q xs n c) = export_scheduled c"
  "pending_jobs (set_queue q xs n c) = pending_jobs c" "job_res (set_queue q xs n c) = job_res c"
  "new_res (set_queue q xs n c) = new_res c" "control_running (set_queue q xs n c) = control_running c"
  "fault (set_queue q xs n c) = fault c"
  by (simp_all add: set_queue_def keys_def fun_eq_iff)

lemma refs_set_queue:
  assumes "q < length (queues c)"
  shows "ctl_refs (set_queue q xs n c) + mset (queues c ! q) = ctl_refs c + mset xs"
  using sum_list_update_monoid [OF assms, of mset xs] by (simp add: ctl_refs_def ac_simps)

lemma refs_pending [simp]: "ctl_refs (c\<lparr>pending_jobs := n\<rparr>) = ctl_refs c"
  by (simp add: ctl_refs_def)

lemma sum_length_update:
  "q < length qs \<Longrightarrow> sum_list (map length (qs[q := xs])) + length (qs ! q) = sum_list (map length qs) + length xs"
  by (rule sum_list_update_monoid)

text \<open>A queue may be reordered, grow by a job of the caller or shrink by one.\<close>

lemma reorder_ok:
  assumes ok: "ctl_ok d c rest" and q: "q < DT_JOB_QUEUE_MAX" and xs: "mset xs = mset (queues c ! q)"
  shows "ctl_ok d (set_queue q xs (length xs) c) rest"
proof -
  have l: "q < length (queues c)" using ok q by (simp add: ctl_defs)
  have "set xs = set (queues c ! q)" "length xs = length (queues c ! q)"
    using xs by (auto dest: mset_eq_setD mset_eq_length)
  moreover have "ctl_refs (set_queue q xs (length xs) c) = ctl_refs c"
    using refs_set_queue [OF l, of xs] xs by simp
  moreover have "sum_list (map length ((queues c)[q := xs])) = sum_list (map length (queues c))"
    using sum_length_update [OF l, of xs] \<open>length xs = _\<close> by simp
  ultimately show ?thesis using ok l
    by (auto simp: ctl_ok_def queues_ok_def pending_ok_def export_ok_def dedup_ok_def fg_jobs_def
        nth_list_update map_update)
qed

lemma fg_jobs_set_queue:
  assumes "length (queues c) = DT_JOB_QUEUE_MAX"
  shows "fg_jobs (set_queue q xs n c) = (if q = DT_JOB_QUEUE_SYSTEM_FG
    then set xs \<union> {i. Some i \<in> set (sched c) \<and> queue_of (keys c) i = Some DT_JOB_QUEUE_SYSTEM_FG} else fg_jobs c)"
  using assms by (auto simp: fg_jobs_def nth_list_update)

lemma mset_add_listD:
  assumes "mset xs = add_mset i (mset ys)"
  shows "set xs = insert i (set ys)" and "length xs = length ys + 1"
  using mset_eq_setD [of xs "i # ys"] mset_eq_length [of xs "i # ys"] assms by auto

lemma push_ok:
  assumes ok: "ctl_ok d c (add_mset i rest)" and q: "q < DT_JOB_QUEUE_MAX"
    and xs: "mset xs = add_mset i (mset (queues c ! q))" and qi: "queue_of (keys c) i = Some q"
    and new: "q = DT_JOB_QUEUE_SYSTEM_FG \<Longrightarrow> \<forall>j\<in>fg_jobs c. \<not> key_eq (keys c) i j"
  shows "ctl_ok (d - 1) (set_queue q xs (length xs) c) rest"
proof -
  let ?c = "set_queue q xs (length xs) c"
  have l: "q < length (queues c)" "length (queues c) = 5" using ok q by (simp_all add: ctl_defs)
  have set: "set xs = insert i (set (queues c ! q))" and len: "length xs = length (queues c ! q) + 1"
    by (rule mset_add_listD [OF xs])+
  have "ctl_refs ?c + rest = ctl_refs c + add_mset i rest"
    using refs_set_queue [OF l(1), of xs] xs by simp
  then have "refs_ok (keys ?c) (ctl_refs ?c + rest)" using ok by (simp add: ctl_ok_def)
  moreover have "queues_ok ?c" using ok l set qi
    by (auto simp: ctl_ok_def queues_ok_def nth_list_update map_update)
  moreover have "pending_ok (d - 1) ?c"
    using ok sum_length_update [OF l(1), of xs] len by (simp add: ctl_ok_def pending_ok_def)
  moreover have "export_ok ?c" using ok by (simp add: ctl_ok_def export_ok_def)
  moreover have "dedup_ok ?c"
  proof (cases "q = 1")
    case True
    have fg: "fg_jobs ?c = insert i (fg_jobs c)"
      unfolding fg_jobs_set_queue [OF l(2)] using True set by (auto simp: fg_jobs_def)
    have "\<forall>j\<in>fg_jobs c. \<not> key_eq (keys c) j i" using new [OF True] key_eq_sym [of "keys c" _ i] by metis
    moreover have "\<forall>a\<in>fg_jobs c. \<forall>b\<in>fg_jobs c. a \<noteq> b \<longrightarrow> \<not> key_eq (keys c) a b"
      using ok by (simp add: ctl_ok_def dedup_ok_def)
    ultimately show ?thesis unfolding dedup_ok_def fg set_queue_frame(2) using new [OF True] by blast
  next
    case False
    with ok show ?thesis by (simp add: ctl_ok_def dedup_ok_def fg_jobs_set_queue [OF l(2)])
  qed
  ultimately show ?thesis using ok by (simp add: ctl_ok_def)
qed

lemma pop_ok:
  assumes ok: "ctl_ok d c rest" and q: "q < DT_JOB_QUEUE_MAX"
    and xs: "add_mset i (mset xs) = mset (queues c ! q)"
  shows "ctl_ok (d + 1) (set_queue q xs (length xs) c) (add_mset i rest)"
proof -
  let ?c = "set_queue q xs (length xs) c"
  have l: "q < length (queues c)" "length (queues c) = 5" using ok q by (simp_all add: ctl_defs)
  have set: "insert i (set xs) = set (queues c ! q)" and len: "length (queues c ! q) = length xs + 1"
    using mset_add_listD [OF xs [symmetric]] by simp_all
  have eq: "ctl_refs ?c + add_mset i rest = ctl_refs c + rest"
    using refs_set_queue [OF l(1), of xs] unfolding xs [symmetric] by simp
  have "refs_ok (keys ?c) (ctl_refs ?c + add_mset i rest)" unfolding eq using ok by (simp add: ctl_ok_def)
  moreover have "queues_ok ?c" using ok l set
    by (auto simp: ctl_ok_def queues_ok_def nth_list_update map_update)
  moreover have "pending_ok (d + 1) ?c"
    using ok sum_length_update [OF l(1), of xs] len by (simp add: ctl_ok_def pending_ok_def)
  moreover have "export_ok ?c" using ok by (simp add: ctl_ok_def export_ok_def)
  moreover have "fg_jobs ?c \<subseteq> fg_jobs c"
    unfolding fg_jobs_set_queue [OF l(2)] using set by (auto simp: fg_jobs_def)
  then have "dedup_ok ?c" using ok by (auto simp: ctl_ok_def dedup_ok_def)
  ultimately show ?thesis using ok by (simp add: ctl_ok_def)
qed


subsection \<open>Adding\<close>

lemma queue_of_upd_queue:
  "heap c i \<noteq> None \<Longrightarrow> queue_of (keys (upd_job i (\<lambda>j. j\<lparr>job_queue := q\<rparr>) c)) i = Some q"
  by (auto simp: queue_of_def keys_def upd_job_def with_job_def jkey_def)

lemma discard_ok [dt_invs]:
  "ctl_ok d c (add_mset i rest) \<Longrightarrow> ctl_ok d (discard_job (Some i) c) rest"
  using live_in_rest [of d c "add_mset i rest" i]
  by (simp add: discard_job_def dispose_ok set_state_ok)

lemma discard_frame [simp, dt_frames]:
  "queues (discard_job i c) = queues c" "queue_length (discard_job i c) = queue_length c"
  "pending_jobs (discard_job i c) = pending_jobs c" "sched (discard_job i c) = sched c"
  "control_running (discard_job i c) = control_running c"
  by (simp_all add: discard_job_def split: option.split)

text \<open>
  A bounded stack may have one job too many before it is trimmed.
\<close>

lemma trim_ok:
  assumes ok: "ctl_ok d c rest"
  shows "ctl_ok d (trim_system_fg c) rest"
proof (cases "DT_CONTROL_MAX_JOBS < queue_length c ! 1")
  case True
  let ?q = "queues c ! 1"
  have l: "queue_length c ! 1 = length ?q" "1 < length (queues c)" using ok by (simp_all add: ctl_defs)
  with True have ne: "?q \<noteq> []" by auto
  have m: "add_mset (last ?q) (mset (butlast ?q)) = mset ?q"
    using append_butlast_last_id [OF ne] by (metis mset_append mset.simps add_mset_add_single)
  let ?c1 = "control_job_set_state (last ?q) DT_JOB_STATE_DISCARDED c"
  let ?p = "set_queue 1 (butlast ?q) (length (butlast ?q)) ?c1"
  have live: "heap c (last ?q) \<noteq> None" using live_in_ctl(1) [OF ok l(2)] ne by simp
  have "ctl_ok (d + 1) ?p (add_mset (last ?q) rest)"
    by (rule pop_ok [OF set_state_ok [OF ok live]]) (use m in auto)
  from pending_shift [OF dispose_ok [OF this], of "- 1"] show ?thesis using True l live
    by (subst ctl_ok_cong [of _ "(dt_control_job_dispose (Some (last ?q)) ?p)\<lparr>pending_jobs := pending_jobs c - 1\<rparr>"])
      (simp_all add: trim_system_fg_def Let_def)
next
  case False
  then show ?thesis using ok by (simp add: trim_system_fg_def Let_def)
qed



lemma trim_frame [simp, dt_frames]:
  "sched (trim_system_fg c) = sched c" "control_running (trim_system_fg c) = control_running c"
  by (simp_all add: trim_system_fg_def Let_def)

lemma trim_queue:
  assumes "ctl_ok d c rest"
  shows "queues (trim_system_fg c) ! 1 =
    (if DT_CONTROL_MAX_JOBS < length (queues c ! 1) then butlast (queues c ! 1) else queues c ! 1)"
    and "length (queues (trim_system_fg c)) = length (queues c)"
  using assms by (auto simp: trim_system_fg_def Let_def ctl_defs)

lemma trim_first:
  assumes "ctl_ok d c rest" and "queues c ! 1 \<noteq> []"
  shows "hd (queues c ! 1) \<in> set (queues (trim_system_fg c) ! 1)"
proof (cases "DT_CONTROL_MAX_JOBS < length (queues c ! 1)")
  case True
  then have "butlast (queues c ! 1) \<noteq> []" by (cases "queues c ! 1" rule: rev_cases) auto
  then have "hd (butlast (queues c ! 1)) = hd (queues c ! 1)" by (cases "queues c ! 1") auto
  with \<open>butlast (queues c ! 1) \<noteq> []\<close> True show ?thesis using trim_queue [OF assms(1)] by (metis hd_in_set)
qed (use assms trim_queue [OF assms(1)] in simp)

lemma set_queue_pending [simp]:
  "set_queue q xs n (c\<lparr>pending_jobs := m\<rparr>) = (set_queue q xs n c)\<lparr>pending_jobs := m\<rparr>"
  by (simp add: set_queue_def)

text \<open>The scans of the foreground queue find jobs that are allocated.\<close>

lemma live_scan:
  assumes ok: "ctl_ok d c (add_mset i rest)"
  shows "heap c i \<noteq> None" and "Some k \<in> set (sched c) \<Longrightarrow> heap c k \<noteq> None"
    and "Some k \<in> set (map Some (queues c ! 1)) \<Longrightarrow> heap c k \<noteq> None"
proof -
  have "1 < length (queues c)" using ok by (simp add: ctl_defs)
  then show "Some k \<in> set (map Some (queues c ! 1)) \<Longrightarrow> heap c k \<noteq> None" using live_in_ctl(1) [OF ok, of 1 k] by auto
qed (use live_in_rest [OF ok, of i] live_in_ctl(2) [OF ok] in auto)

lemma add_system_fg_eq:
  assumes "ctl_ok d c (add_mset i rest)"
  shows "add_system_fg i c =
     (let q = queues c ! DT_JOB_QUEUE_SYSTEM_FG;
          n = queue_length c ! DT_JOB_QUEUE_SYSTEM_FG
      in case find (key_eq (keys c) i) q of
           Some other \<Rightarrow>
             (set_queue DT_JOB_QUEUE_SYSTEM_FG (other # remove1 other q) (n - 1 + 1)
                (c\<lparr>pending_jobs := pending_jobs c - 1\<rparr>), other, Some i)
         | None \<Rightarrow> (set_queue DT_JOB_QUEUE_SYSTEM_FG (i # q) (n + 1) c, i, None))"
proof -
  have "find (jobs_equal c i) (map Some q) = map_option Some (find (key_eq (keys c) i) q)" for q
    by (induction q) auto
  moreover have "find_equal i (map Some (queues c ! 1)) c =
      (c, case find (jobs_equal c i) (map Some (queues c ! 1)) of None \<Rightarrow> None | Some x \<Rightarrow> x)"
    by (rule find_equal_live [OF live_scan(1,3) [OF assms]])
  ultimately have "find_equal i (map Some (queues c ! 1)) c = (c, find (key_eq (keys c) i) (queues c ! 1))"
    by (simp split: option.split)
  then show ?thesis by (simp add: add_system_fg_def Let_def split: option.split)
qed

lemma add_fg_job_eq:
  assumes "ctl_ok d c (add_mset i rest)"
  shows "add_fg_job i c =
     (if \<exists>x\<in>set (sched c). jobs_equal c i x
      then let c1 = discard_job (Some i) c in c1\<lparr>pending_jobs := pending_jobs c1 - 1\<rparr>
      else case add_system_fg i c of
        (c1, first, old) \<Rightarrow>
          discard_job old (control_job_set_state first DT_JOB_STATE_QUEUED (trim_system_fg c1)))"
proof -
  obtain r where r: "find_equal i (sched c) c = (c, r)"
    using find_equal_live [OF live_scan(1,2) [OF assms]] by simp
  have "r = None \<longleftrightarrow> (\<forall>x\<in>set (sched c). \<not> jobs_equal c i x)"
    by (rule find_equal_some [OF live_scan(1,2) [OF assms] r])
  then show ?thesis by (cases r) (auto simp: add_fg_job_def r)
qed

lemma add_system_fg_ok:
  assumes ok: "ctl_ok (d + 1) c (add_mset i rest)" and q: "queue_of (keys c) i = Some DT_JOB_QUEUE_SYSTEM_FG"
    and sc: "\<forall>x\<in>set (sched c). \<not> jobs_equal c i x"
    and res: "add_system_fg i c = (c1, first, old)"
  shows "ctl_ok d c1 (optm old + rest)" and "first = hd (queues c1 ! 1)" and "queues c1 ! 1 \<noteq> []"
proof -
  have l: "queue_length c ! 1 = length (queues c ! 1)" "1 < length (queues c)" using ok by (simp_all add: ctl_defs)
  have "ctl_ok d c1 (optm old + rest) \<and> first = hd (queues c1 ! 1) \<and> queues c1 ! 1 \<noteq> []"
  proof (cases "find (key_eq (keys c) i) (queues c ! 1)")
    case None
    then have "\<forall>j\<in>fg_jobs c. \<not> key_eq (keys c) i j"
      using sc by (auto simp: fg_jobs_def find_None_iff)
    then have "ctl_ok d (set_queue 1 (i # queues c ! 1) (length (i # queues c ! 1)) c) rest"
      using push_ok [OF ok _ _ q, of "i # queues c ! 1"] by simp
    then show ?thesis using res None l by (auto simp: add_system_fg_eq [OF ok] Let_def)
  next
    case (Some other)
    then have mem: "other \<in> set (queues c ! 1)" by (metis find_Some_iff nth_mem)
    then have "length (queues c ! 1) \<noteq> 0" by auto
    then have n: "queue_length c ! 1 - 1 + 1 = length (other # remove1 other (queues c ! 1))"
      using mem l by (simp add: length_remove1)
    have "ctl_ok (d + 1) (set_queue 1 (other # remove1 other (queues c ! 1)) (queue_length c ! 1 - 1 + 1) c) (add_mset i rest)"
      unfolding n by (rule reorder_ok [OF ok]) (use mem in auto)
    from pending_shift [OF this, of "- 1"] show ?thesis using res Some l
      by (auto simp: add_system_fg_eq [OF ok] Let_def)
  qed
  then show "ctl_ok d c1 (optm old + rest)" and "first = hd (queues c1 ! 1)" and "queues c1 ! 1 \<noteq> []" by auto
qed


lemma add_fg_job_ok:
  assumes ok: "ctl_ok (d + 1) c (add_mset i rest)" and q: "queue_of (keys c) i = Some DT_JOB_QUEUE_SYSTEM_FG"
  shows "ctl_ok d (add_fg_job i c) rest"
proof (cases "\<exists>x\<in>set (sched c). jobs_equal c i x")
  case True
  then show ?thesis using pending_shift [OF discard_ok [OF ok], of "- 1"]
    by (simp add: add_fg_job_eq [OF ok] Let_def)
next
  case False
  obtain c1 first old where res: "add_system_fg i c = (c1, first, old)" by (cases "add_system_fg i c")
  note c1 = add_system_fg_ok [OF ok q _ res]
  have ok1: "ctl_ok d c1 (optm old + rest)" and f: "first = hd (queues c1 ! 1)" and ne: "queues c1 ! 1 \<noteq> []"
    using c1 False by auto
  have ok2: "ctl_ok d (trim_system_fg c1) (optm old + rest)" by (rule trim_ok [OF ok1])
  have "1 < length (queues (trim_system_fg c1))" using ok2 by (simp add: ctl_defs)
  then have "heap (trim_system_fg c1) first \<noteq> None"
    using live_in_ctl(1) [OF ok2, of 1 first] trim_first [OF ok1 ne] f by simp
  then have "ctl_ok d (control_job_set_state first DT_JOB_STATE_QUEUED (trim_system_fg c1)) (optm old + rest)"
    by (rule set_state_ok [OF ok2])
  then show ?thesis using False res discard_ok
    by (cases old) (auto simp: add_fg_job_eq [OF ok] discard_job_def)
qed

lemma add_fifo_job_ok:
  assumes ok: "ctl_ok (d + 1) c (add_mset i rest)" and q: "queue_of (keys c) i = Some q"
    and "q < DT_JOB_QUEUE_MAX" and "q \<noteq> DT_JOB_QUEUE_SYSTEM_FG"
  shows "ctl_ok d (add_fifo_job q i c) rest"
proof -
  let ?c = "set_queue q (queues c ! q @ [i]) (queue_length c ! q + 1) c"
  have l: "queue_length c ! q = length (queues c ! q)" "q < length (queues c)"
    using ok assms(3) by (simp_all add: ctl_defs)
  have okc: "ctl_ok d ?c rest"
    using push_ok [OF ok assms(3) _ q, of "queues c ! q @ [i]"] assms(4) l by simp
  moreover have "heap c i \<noteq> None" using live_in_rest [OF ok] by simp
  ultimately show ?thesis by (simp add: add_fifo_job_def set_state_ok)
qed

lemma add_to_queue_ok [dt_invs]:
  assumes ok: "ctl_ok 0 c (add_mset i rest)" and q: "q < DT_JOB_QUEUE_MAX"
  shows "ctl_ok 0 (add_to_queue q i c) rest"
proof -
  let ?c1 = "upd_job i (\<lambda>j. j\<lparr>job_queue := q\<rparr>) c"
  let ?c2 = "?c1\<lparr>pending_jobs := pending_jobs ?c1 + 1\<rparr>"
  let ?c3 = "upd_job i (\<lambda>j. j\<lparr>priority := queue_priority q\<rparr>) ?c2"
  have "ctl_ok (0 + 1) ?c2 (add_mset i rest)" by (rule pending_shift [OF upd_outside_ok [OF ok]])
  then have ok3: "ctl_ok (0 + 1) ?c3 (add_mset i rest)" by (rule upd_outside_ok)
  have q3: "queue_of (keys ?c3) i = Some q"
    using queue_of_upd_queue [of c i q] live_in_rest [OF ok, of i] by (simp add: keys_upd_job)
  show ?thesis
    using add_fg_job_ok [OF ok3] add_fifo_job_ok [OF ok3 q3 q] q3 by (simp add: add_to_queue_def Let_def)
qed

lemma execute_ok [dt_invs]:
  assumes "ctl_ok d c rest" and "heap c i \<noteq> None"
  shows "ctl_ok d (execute_begin i c) rest" and "ctl_ok d (execute_end i r c) rest"
    and "ctl_ok d (control_job_execute i r c) rest"
proof -
  show b: "ctl_ok d (execute_begin i c) rest" using assms by (simp add: execute_begin_def set_state_ok)
  have e: "ctl_ok d (execute_end i r c) rest" if "ctl_ok d c rest" "heap c i \<noteq> None" for c
  proof -
    have "ctl_ok d (upd_job i (\<lambda>j. j\<lparr>job_result := r\<rparr>) c) rest" by (rule upd_job_ok) (use that in auto)
    then have "ctl_ok d (log_event (ExecuteReturned i r) (upd_job i (\<lambda>j. j\<lparr>job_result := r\<rparr>) c)) rest"
      by (subst ctl_ok_cong [of _ "upd_job i (\<lambda>j. j\<lparr>job_result := r\<rparr>) c"]) simp_all
    then show ?thesis unfolding execute_end_def by (rule set_state_ok) (use that in simp)
  qed
  then show "ctl_ok d (execute_end i r c) rest" using assms .
  show "ctl_ok d (control_job_execute i r c) rest"
    using e [OF b] assms by (simp add: control_job_execute_def execute_begin_def)
qed

lemma execute_queued_live:
  "heap c i = Some j \<Longrightarrow> execute_queued i r c = (if job_state j = DT_JOB_STATE_QUEUED then control_job_execute i r c else c)"
  by (simp add: execute_queued_def dt_control_job_get_state_def read_job_live)

lemma execute_queued_ok [dt_invs]:
  assumes "ctl_ok d c rest" and "heap c i \<noteq> None"
  shows "ctl_ok d (execute_queued i r c) rest"
  using assms execute_ok(3) [OF assms] by (auto simp: execute_queued_live)

lemma dt_control_add_job_ok [dt_invs]:
  assumes ok: "ctl_ok 0 c (add_mset i rest)"
  shows "ctl_ok 0 (fst (dt_control_add_job q (Some i) r c)) rest"
proof -
  let ?s = "upd_job i (\<lambda>j. j\<lparr>is_synchronous := True\<rparr>) c"
  have s: "ctl_ok 0 ?s (add_mset i rest)" by (rule upd_outside_ok [OF ok])
  then have "heap ?s i \<noteq> None" using live_in_rest [OF s] by simp
  then have "ctl_ok 0 (dt_control_job_dispose (Some i) (control_job_execute i r ?s)) rest"
    by (intro dispose_ok execute_ok(3) s)
  then show ?thesis using dispose_ok [OF ok] add_to_queue_ok [OF ok]
    by (simp add: dt_control_add_job_def)
qed


subsection \<open>Reserved workers\<close>

lemma refs_job_res:
  assumes "k < length (job_res c)"
  shows "ctl_refs (c\<lparr>job_res := (job_res c)[k := x]\<rparr>) + optm (job_res c ! k) = ctl_refs c + optm x"
  using sum_list_update_monoid [OF assms, of optm x] by (simp add: ctl_refs_def ac_simps)

lemma job_res_ok:
  assumes ok: "ctl_ok d c (optm x + rest)" and k: "k < DT_CTL_WORKER_RESERVED"
  shows "ctl_ok d (c\<lparr>job_res := (job_res c)[k := x], new_res := (new_res c)[k := b]\<rparr>) (optm (job_res c ! k) + rest)"
proof -
  have l: "k < length (job_res c)" using ok k by (simp add: ctl_defs)
  let ?c = "c\<lparr>job_res := (job_res c)[k := x]\<rparr>"
  have eq: "ctl_refs ?c + (optm (job_res c ! k) + rest) = ctl_refs c + (optm x + rest)"
    using refs_job_res [OF l, of x] by (metis add.assoc)
  have "refs_ok (keys ?c) (ctl_refs ?c + (optm (job_res c ! k) + rest))"
    unfolding eq using ok by (simp add: ctl_ok_def)
  then have "ctl_ok d ?c (optm (job_res c ! k) + rest)"
    using ok by (simp add: ctl_ok_def queues_ok_def pending_ok_def export_ok_def dedup_ok_def fg_jobs_def)
  then show ?thesis by (subst ctl_ok_cong [of _ ?c]) simp_all
qed

lemma take_job_res_ok [dt_invs]:
  assumes ok: "ctl_ok d c rest" and k: "k < DT_CTL_WORKER_RESERVED" and res: "take_job_res k c = (c', x)"
  shows "ctl_ok d c' (optm x + rest)"
  using job_res_ok [of d c None rest k False] ok k res
    ctl_ok_cong [of "c\<lparr>new_res := (new_res c)[k := False]\<rparr>" c d rest]
  by (auto simp: take_job_res_def split: if_splits)

lemma add_job_res_ok [dt_invs]:
  assumes ok: "ctl_ok d c (add_mset i rest)"
  shows "ctl_ok d (fst (dt_control_add_job_res (Some i) res c)) rest"
proof (cases "res < DT_CTL_WORKER_RESERVED")
  case False
  with dispose_ok [OF ok] show ?thesis by (simp add: dt_control_add_job_res_def)
next
  case k: True
  then have l: "res < length (job_res c)" using ok by (simp add: ctl_defs)
  let ?c1 = "discard_job (job_res c ! res) c"
  let ?c2 = "control_job_set_state i DT_JOB_STATE_QUEUED ?c1"
  let ?f = "\<lambda>c. c\<lparr>job_res := (job_res c)[res := Some i], new_res := (new_res c)[res := True]\<rparr>"
  have live: "heap c i \<noteq> None" using live_in_rest [OF ok] by simp
  have fr: "job_res ?c1 = job_res c" "new_res ?c1 = new_res c" by (simp_all add: discard_job_def split: option.split)
  have r: "fst (dt_control_add_job_res (Some i) res c) = ?f ?c2"
    using k by (simp add: dt_control_add_job_res_def discard_job_def Let_def split: option.splits)
  have ok1: "ctl_ok d (?f c) (optm (job_res c ! res) + rest)"
    using job_res_ok [of d c "Some i" rest res True] ok k by simp
  show ?thesis
  proof (cases "job_res c ! res")
    case None
    with ok1 live show ?thesis unfolding r
      by (subst ctl_ok_cong [of _ "?f c"]) (simp_all add: discard_job_def)
  next
    case (Some old)
    have "Some old \<in> set (job_res c)" using Some l by (metis nth_mem)
    then have "old \<in># ctl_refs c" by (auto simp: ctl_refs_def sum_list_mset_in intro!: bexI [of _ "Some old"])
    then have "i \<noteq> old" using outside_ctl [OF ok] by blast
    have lo: "heap c old \<noteq> None" using live_in_ctl(3) [OF ok, of old] Some l by (metis nth_mem)
    have "ctl_ok d (discard_job (Some old) (?f c)) rest" using discard_ok [of d "?f c" old rest] ok1 Some by simp
    moreover have "heap (discard_job (Some old) c) i \<noteq> None"
      using live \<open>i \<noteq> old\<close> by (metis (no_types, lifting) discard_job_def fun_upd_other keys_None keys_dispose keys_set_state option.simps(5))
    ultimately show ?thesis unfolding r using Some fr lo
      by (subst ctl_ok_cong [of _ "discard_job (Some old) (?f c)"]) (simp_all add: discard_job_def keys_def)
  qed
qed


subsection \<open>Scheduling\<close>

text \<open>A queue takes part when it is not empty and not an export queue held back.\<close>

definition eligible :: "dt_control_t \<Rightarrow> nat \<Rightarrow> bool" where
  "eligible c q \<longleftrightarrow> queues c ! q \<noteq> [] \<and> \<not> (export_scheduled c \<and> q = DT_JOB_QUEUE_USER_EXPORT)"

definition head_priority :: "dt_control_t \<Rightarrow> nat \<Rightarrow> int" where
  "head_priority c q = snd (job_priority (hd (queues c ! q)) c)"

text \<open>The winner, from the priorities of the heads alone.\<close>

fun scan_heads :: "dt_control_t \<Rightarrow> nat list \<Rightarrow> int \<Rightarrow> (nat \<times> job_id) option \<Rightarrow> (nat \<times> job_id) option" where
  "scan_heads c [] mp best = best"
| "scan_heads c (q # qs) mp best =
     (if eligible c q \<and> mp < head_priority c q then scan_heads c qs (head_priority c q) (Some (q, hd (queues c ! q)))
      else scan_heads c qs mp best)"

lemma schedule_scan_live:
  assumes "\<And>q i. q \<in> set qs \<Longrightarrow> i \<in> set (queues c ! q) \<Longrightarrow> heap c i \<noteq> None"
  shows "schedule_scan qs mp best c = (c, scan_heads c qs mp best)"
  using assms
proof (induction qs arbitrary: mp best)
  case (Cons q qs)
  show ?case
  proof (cases "queues c ! q")
    case Nil
    have "schedule_scan qs mp best c = (c, scan_heads c qs mp best)" by (rule Cons.IH) (rule Cons.prems, auto)
    then show ?thesis using Nil by (simp add: eligible_def)
  next
    case (Cons i ks)
    then have "heap c i \<noteq> None" using Cons.prems [of q i] by simp
    then obtain j where j: "heap c i = Some j" by blast
    then have "job_priority i c = (c, head_priority c q)"
      using local.Cons by (simp add: head_priority_def job_priority_def read_job_live)
    moreover have "schedule_scan qs mp best c = (c, scan_heads c qs mp best)" for mp best
      by (rule Cons.IH) (rule Cons.prems, auto)
    ultimately show ?thesis using local.Cons by (simp add: eligible_def)
  qed
qed simp

lemma schedule_scan_frame:
  "fst (schedule_scan qs mp best c) = c \<or> fst (schedule_scan qs mp best c) = c\<lparr>fault := True\<rparr>"
proof (induction qs arbitrary: mp best c)
  case (Cons q qs)
  show ?case
  proof (cases "queues c ! q")
    case Nil
    then show ?thesis using Cons.IH by simp
  next
    case (Cons i ks)
    obtain c1 p where r: "job_priority i c = (c1, p)" by (cases "job_priority i c")
    have "c1 = c \<or> c1 = c\<lparr>fault := True\<rparr>"
      using read_job_frame [of "Some i" 0 "\<lambda>j. uint (priority j)" c] r by (simp add: job_priority_def)
    then show ?thesis using local.Cons r Cons.IH [of _ _ c] Cons.IH [of _ _ c1] by auto
  qed
qed simp

text \<open>\<open>(q, i)\<close> is the first of the heads with the greatest priority among the queues below \<open>n\<close>.\<close>

definition scan_best :: "dt_control_t \<Rightarrow> nat \<Rightarrow> int \<Rightarrow> (nat \<times> job_id) option \<Rightarrow> bool" where
  "scan_best c n mp best \<longleftrightarrow>
     (case best of
        None \<Rightarrow> mp = - 1 \<and> (\<forall>p<n. \<not> eligible c p)
      | Some (q, i) \<Rightarrow> q < n \<and> eligible c q \<and> i = hd (queues c ! q) \<and> mp = head_priority c q \<and>
          (\<forall>p<n. eligible c p \<longrightarrow> head_priority c p \<le> mp \<and> (p < q \<longrightarrow> head_priority c p < mp)))"

lemma head_priority_nonneg: "0 \<le> head_priority c q"
  by (simp add: head_priority_def job_priority_def read_job_def split: option.split)

lemma scan_best_step:
  assumes b: "scan_best c n mp best"
  shows "if eligible c n \<and> mp < head_priority c n
    then scan_best c (Suc n) (head_priority c n) (Some (n, hd (queues c ! n)))
    else scan_best c (Suc n) mp best"
proof (cases "eligible c n \<and> mp < head_priority c n")
  case True
  have le: "head_priority c p < head_priority c n" if "p < n" "eligible c p" for p
    using b True that by (fastforce simp: scan_best_def split: option.splits prod.splits)
  have "head_priority c p \<le> head_priority c n \<and> (p < n \<longrightarrow> head_priority c p < head_priority c n)"
    if "p < Suc n" "eligible c p" for p
    using le that by (cases "p = n") (auto intro: less_imp_le)
  with True show ?thesis by (simp add: scan_best_def)
next
  case False
  have "scan_best c (Suc n) mp best"
  proof (cases best)
    case None
    with b have "mp = - 1" by (simp add: scan_best_def)
    with False head_priority_nonneg [of c n] have "\<not> eligible c n" by auto
    with b None show ?thesis by (auto simp: scan_best_def less_Suc_eq)
  next
    case (Some qi)
    with b False show ?thesis by (auto simp: scan_best_def less_Suc_eq split: prod.splits)
  qed
  with False show ?thesis by (simp only: if_False)
qed

lemma schedule_scan_best:
  "scan_best c n mp best \<Longrightarrow> n \<le> m \<Longrightarrow> \<exists>p. scan_best c m p (scan_heads c [n..<m] mp best)"
proof (induction "m - n" arbitrary: n mp best)
  case (Suc k)
  then have n: "[n..<m] = n # [Suc n..<m]" "k = m - Suc n" "Suc n \<le> m" by (auto simp: upt_conv_Cons)
  note step = scan_best_step [OF Suc.prems(1)]
  show ?case
  proof (cases "eligible c n \<and> mp < head_priority c n")
    case True
    then have "scan_heads c [n..<m] mp best = scan_heads c [Suc n..<m] (head_priority c n) (Some (n, hd (queues c ! n)))"
      unfolding n by simp
    with Suc.hyps(1) [OF n(2) _ n(3)] step True show ?thesis by simp
  next
    case False
    then have "scan_heads c [n..<m] mp best = scan_heads c [Suc n..<m] mp best"
      by (simp only: n scan_heads.simps if_False)
    with Suc.hyps(1) [OF n(2) _ n(3)] step False show ?thesis by (simp only: if_False)
  qed
qed auto

lemma scan_heads_spec: "\<exists>p. scan_best c 5 p (scan_heads c [0..<5] (- 1) None)"
  by (rule schedule_scan_best) (simp_all add: scan_best_def)

text \<open>In a good state every head that is read is allocated.\<close>

lemma control_schedule_job_eq:
  assumes ok: "ctl_ok d c rest"
  shows "control_schedule_job threadid c =
     (case scan_heads c [0..<DT_JOB_QUEUE_MAX] (- 1) None of
        None \<Rightarrow> (c, None)
      | Some (q, i) \<Rightarrow>
          let c1 = c\<lparr>queues := (queues c)[q := tl (queues c ! q)],
                     queue_length := (queue_length c)[q := queue_length c ! q - 1],
                     sched := (sched c)[threadid := Some i],
                     export_scheduled := (if q = DT_JOB_QUEUE_USER_EXPORT then True else export_scheduled c)\<rparr>
          in (bump_heads q [0..<DT_JOB_QUEUE_MAX] c1, Some i))"
proof -
  have "schedule_scan [0..<5] (- 1) None c = (c, scan_heads c [0..<5] (- 1) None)"
    by (rule schedule_scan_live) (use live_in_ctl(1) [OF ok] ok in \<open>auto simp: ctl_defs\<close>)
  then show ?thesis by (simp add: control_schedule_job_def split: option.split)
qed

lemma bump_heads_frame [simp, dt_frames]:
  "queues (bump_heads w qs c) = queues c" "queue_length (bump_heads w qs c) = queue_length c"
  "sched (bump_heads w qs c) = sched c" "export_scheduled (bump_heads w qs c) = export_scheduled c"
  "pending_jobs (bump_heads w qs c) = pending_jobs c" "job_res (bump_heads w qs c) = job_res c"
  "new_res (bump_heads w qs c) = new_res c" "control_running (bump_heads w qs c) = control_running c"
  by (induction qs arbitrary: c) (simp_all split: list.split)

lemma bump_heads_ok:
  assumes "ctl_ok d c rest" and "\<forall>q\<in>set qs. q < DT_JOB_QUEUE_MAX"
  shows "ctl_ok d (bump_heads w qs c) rest"
  using assms
proof (induction qs arbitrary: c)
  case (Cons q qs)
  have l: "q < length (queues c)" using Cons.prems by (simp add: ctl_defs)
  have "ctl_ok d (upd_job i (\<lambda>j. j\<lparr>priority := priority j + 1\<rparr>) c) rest" if "i \<in> set (queues c ! q)" for i
    using live_in_ctl(1) [OF Cons.prems(1) l that] by (intro upd_job_ok Cons.prems) auto
  with Cons show ?case by (cases "queues c ! q") auto
qed simp


lemma filter_some_sum: "length (filter (\<lambda>x. x \<noteq> None) xs) = sum_list (map (\<lambda>x. if x = None then 0 else 1) xs)"
  by (induction xs) auto

lemma set_update_some: "t < length xs \<Longrightarrow> Some k \<in> set (xs[t := Some i]) \<Longrightarrow> k = i \<or> Some k \<in> set xs"
  using set_update_subset_insert [of xs t "Some i"] by auto

text \<open>A worker takes a job of the caller into its slot.\<close>

lemma dedup_subset:
  assumes "dedup_ok c" and "keys c' = keys c" and "fg_jobs c' \<subseteq> fg_jobs c"
  shows "dedup_ok c'"
  using assms unfolding dedup_ok_def by (metis subsetD)

lemma dedup_insert:
  assumes d: "dedup_ok c" and K: "keys c' = keys c" and sub: "fg_jobs c' \<subseteq> insert i (fg_jobs c)"
    and new: "\<And>j. j \<in> fg_jobs c \<Longrightarrow> \<not> key_eq (keys c) i j"
  shows "dedup_ok c'"
  unfolding dedup_ok_def K
proof (intro ballI impI)
  fix a b assume "a \<in> fg_jobs c'" "b \<in> fg_jobs c'" "a \<noteq> b"
  with sub consider "a \<in> fg_jobs c" "b \<in> fg_jobs c" | "a = i" "b \<in> fg_jobs c" | "b = i" "a \<in> fg_jobs c" by blast
  then show "\<not> key_eq (keys c) a b"
    using d \<open>a \<noteq> b\<close> new key_eq_sym [of "keys c" a i] by cases (simp_all add: dedup_ok_def)
qed

lemma sched_put_ok:
  assumes ok: "ctl_ok d c (add_mset i rest)" and t: "t < length (sched c)" "sched c ! t = None"
    and q: "queue_of (keys c) i = Some q"
    and ex: "q = DT_JOB_QUEUE_USER_EXPORT \<Longrightarrow> \<not> export_scheduled c"
    and fg: "\<And>j. j \<in> fg_jobs c \<Longrightarrow> q = DT_JOB_QUEUE_SYSTEM_FG \<Longrightarrow> \<not> key_eq (keys c) i j"
  shows "ctl_ok (d - 1) (c\<lparr>sched := (sched c)[t := Some i],
    export_scheduled := (if q = DT_JOB_QUEUE_USER_EXPORT then True else export_scheduled c)\<rparr>) rest"
proof -
  let ?s = "(sched c)[t := Some i]"
  let ?c = "c\<lparr>sched := ?s, export_scheduled := (if q = DT_JOB_QUEUE_USER_EXPORT then True else export_scheduled c)\<rparr>"
  have K: "keys ?c = keys c" by (simp add: keys_def fun_eq_iff)
  have "sum_list (map optm ?s) = sum_list (map optm (sched c)) + {#i#}"
    using sum_list_update_monoid [OF t(1), of optm "Some i"] t(2) by simp
  then have "ctl_refs ?c + rest = ctl_refs c + add_mset i rest" by (simp add: ctl_refs_def)
  then have "refs_ok (keys ?c) (ctl_refs ?c + rest)" using ok unfolding K by (simp add: ctl_ok_def)
  moreover have "queues_ok ?c" using ok unfolding queues_ok_def K by (simp add: ctl_ok_def queues_ok_def)
  moreover have "pending_ok (d - 1) ?c"
    using ok sum_list_update_monoid [OF t(1), of "\<lambda>x. if x = None then 0 else 1 :: nat" "Some i"] t(2)
    by (simp add: ctl_ok_def pending_ok_def filter_some_sum del: not_None_eq)
  moreover have "export_ok ?c"
    using ok sum_list_update_monoid [OF t(1), of "exports (keys c)" "Some i"] t(2) q ex
    unfolding export_ok_def K by (auto simp: ctl_ok_def export_ok_def exports_def split: if_splits)
  moreover have "dedup_ok ?c"
  proof -
    have d: "dedup_ok c" using ok by (simp add: ctl_ok_def)
    show ?thesis
    proof (cases "q = DT_JOB_QUEUE_SYSTEM_FG")
      case True
      have "fg_jobs ?c \<subseteq> insert i (fg_jobs c)"
        unfolding fg_jobs_def K by (auto dest!: set_update_some [OF t(1)])
      then show ?thesis by (rule dedup_insert [OF d K]) (rule fg [OF _ True])
    next
      case False
      have "fg_jobs ?c \<subseteq> fg_jobs c"
        unfolding fg_jobs_def K using q False by (auto dest!: set_update_some [OF t(1)])
      then show ?thesis by (rule dedup_subset [OF d K])
    qed
  qed
  ultimately show ?thesis using ok by (simp add: ctl_ok_def)
qed

text \<open>A worker gives a job up.\<close>

lemma sched_take_ok:
  assumes ok: "ctl_ok d c rest" and t: "t < length (sched c)" "sched c ! t = Some i"
  shows "ctl_ok (d + 1) (c\<lparr>sched := (sched c)[t := None], export_scheduled :=
    (if queue_of (keys c) i = Some DT_JOB_QUEUE_USER_EXPORT then False else export_scheduled c)\<rparr>) (add_mset i rest)"
proof -
  let ?s = "(sched c)[t := None]"
  let ?c = "c\<lparr>sched := ?s, export_scheduled :=
    (if queue_of (keys c) i = Some DT_JOB_QUEUE_USER_EXPORT then False else export_scheduled c)\<rparr>"
  have K: "keys ?c = keys c" by (simp add: keys_def fun_eq_iff)
  have "sum_list (map optm (sched c)) = sum_list (map optm ?s) + {#i#}"
    using sum_list_update_monoid [OF t(1), of optm None] t(2) by simp
  then have eq: "ctl_refs ?c + add_mset i rest = ctl_refs c + rest" by (simp add: ctl_refs_def)
  have "refs_ok (keys ?c) (ctl_refs ?c + add_mset i rest)" using ok unfolding K eq by (simp add: ctl_ok_def)
  moreover have "queues_ok ?c" using ok unfolding queues_ok_def K by (simp add: ctl_ok_def queues_ok_def)
  moreover have "pending_ok (d + 1) ?c"
    using ok sum_list_update_monoid [OF t(1), of "\<lambda>x. if x = None then 0 else 1 :: nat" None] t(2)
    by (simp add: ctl_ok_def pending_ok_def filter_some_sum del: not_None_eq)
  moreover have "export_ok ?c"
    using ok sum_list_update_monoid [OF t(1), of "exports (keys c)" None] t(2)
    unfolding export_ok_def K by (auto simp: ctl_ok_def export_ok_def exports_def split: if_splits)
  moreover have "dedup_ok ?c"
  proof (rule dedup_subset [OF _ K])
    show "dedup_ok c" using ok by (simp add: ctl_ok_def)
    show "fg_jobs ?c \<subseteq> fg_jobs c"
      unfolding fg_jobs_def K using set_update_subset_insert [of "sched c" t None] by auto
  qed
  ultimately show ?thesis using ok by (simp add: ctl_ok_def)
qed

lemma run_job_finish_ok [dt_invs]:
  assumes ok: "ctl_ok 0 c rest" and t: "t < length (sched c)" "sched c ! t = Some i"
  shows "ctl_ok 0 (run_job_finish t i c) rest"
proof -
  let ?c = "c\<lparr>sched := (sched c)[t := None], export_scheduled :=
    (if queue_of (keys c) i = Some DT_JOB_QUEUE_USER_EXPORT then False else export_scheduled c)\<rparr>"
  have live: "heap c i \<noteq> None" using live_in_ctl(2) [OF ok, of i] t by (metis nth_mem)
  then have "run_job_finish t i c =
      (dt_control_job_dispose (Some i) ?c)\<lparr>pending_jobs := pending_jobs (dt_control_job_dispose (Some i) ?c) + - 1\<rparr>"
    by (auto simp: run_job_finish_def with_job_def Let_def queue_of_def keys_def jkey_def)
  then show ?thesis using pending_shift [OF dispose_ok [OF sched_take_ok [OF ok t]], of "- 1"] by simp
qed


lemma control_schedule_job_ok [dt_invs]:
  assumes ok: "ctl_ok 0 c rest" and t: "t < length (sched c)" "sched c ! t = None"
    and res: "control_schedule_job t c = (c', r)"
  shows "ctl_ok 0 c' rest" and "sched c' = (sched c)[t := r]"
proof -
  have "ctl_ok 0 c' rest \<and> sched c' = (sched c)[t := r]"
  proof (cases "scan_heads c [0..<5] (- 1) None")
    case None
    moreover have "(sched c)[t := None] = sched c" using t by (metis list_update_id)
    ultimately show ?thesis using res ok by (auto simp: control_schedule_job_eq [OF ok])
  next
    case (Some w)
    obtain q i where w: "w = (q, i)" by (cases w)
    from scan_heads_spec [of c] Some w have q: "q < 5" "eligible c q" "i = hd (queues c ! q)"
      by (auto simp: scan_best_def)
    then have qi: "queues c ! q = i # tl (queues c ! q)" by (simp add: eligible_def)
    have l: "queue_length c ! q = length (queues c ! q)" using ok q(1) by (simp add: ctl_defs)
    let ?p = "set_queue q (tl (queues c ! q)) (length (tl (queues c ! q))) c"
    have ok1: "ctl_ok (0 + 1) ?p (add_mset i rest)"
      by (rule pop_ok [OF ok q(1)]) (metis qi mset.simps(2))
    have qo: "queue_of (keys c) i = Some q"
      using ok q(1) qi by (auto simp: ctl_defs) (metis list.set_intros(1))
    have five: "length (queues c) = 5" using ok by (simp add: ctl_defs)
    have fg: "\<not> key_eq (keys ?p) i j" if j: "j \<in> fg_jobs ?p" and "q = 1" for j
    proof -
      have "i \<notin> fg_jobs ?p"
        using outside_not_in(1) [OF outside_ctl [OF ok1], of 1] outside_not_in(2) [OF outside_ctl [OF ok1]] five
        by (simp add: fg_jobs_def)
      moreover have "i \<in> fg_jobs c" using qi \<open>q = 1\<close> unfolding fg_jobs_def by (metis Un_iff list.set_intros(1))
      moreover have "j \<in> fg_jobs c"
        using j \<open>q = 1\<close> set_subset_Cons [of "tl (queues c ! q)" i] unfolding fg_jobs_set_queue [OF five] qi [symmetric]
        by (auto simp: fg_jobs_def)
      ultimately show ?thesis using ok j by (auto simp: ctl_ok_def dedup_ok_def)
    qed
    have "ctl_ok (0 + 1 - 1) (?p\<lparr>sched := (sched ?p)[t := Some i],
        export_scheduled := (if q = DT_JOB_QUEUE_USER_EXPORT then True else export_scheduled ?p)\<rparr>) rest"
      by (rule sched_put_ok [OF ok1 _ _ _ _ fg]) (use t qo q(2) in \<open>auto simp: eligible_def\<close>)
    from bump_heads_ok [OF this, of "[0..<5]" q] show ?thesis
      using res Some w l by (auto simp: control_schedule_job_eq [OF ok] Let_def set_queue_def)
  qed
  then show "ctl_ok 0 c' rest" and "sched c' = (sched c)[t := r]" by simp_all
qed


section \<open>The bound of the system foreground queue\<close>

definition fg_bound :: "dt_control_t \<Rightarrow> bool" where
  "fg_bound c \<longleftrightarrow> length (queues c ! DT_JOB_QUEUE_SYSTEM_FG) \<le> DT_CONTROL_MAX_JOBS"

lemma add_fg_job_bound:
  assumes ok: "ctl_ok (d + 1) c (add_mset i rest)" and q: "queue_of (keys c) i = Some DT_JOB_QUEUE_SYSTEM_FG"
    and b: "fg_bound c"
  shows "fg_bound (add_fg_job i c)"
proof (cases "\<exists>x\<in>set (sched c). jobs_equal c i x")
  case True
  then show ?thesis using b by (simp add: add_fg_job_eq [OF ok] Let_def fg_bound_def)
next
  case False
  obtain c1 first old where res: "add_system_fg i c = (c1, first, old)" by (cases "add_system_fg i c")
  have ok1: "ctl_ok d c1 (optm old + rest)" using add_system_fg_ok [OF ok q _ res] False by simp
  have l: "1 < length (queues c)" using ok by (simp add: ctl_defs)
  have "length (queues c1 ! 1) \<le> length (queues c ! 1) + 1"
    using res l by (auto simp: add_system_fg_eq [OF ok] Let_def length_remove1 split: option.splits)
  with b have "length (queues c1 ! 1) \<le> 31" by (simp add: fg_bound_def)
  then have "fg_bound (trim_system_fg c1)" unfolding fg_bound_def trim_queue(1) [OF ok1] by auto
  then show ?thesis using False res by (simp add: add_fg_job_eq [OF ok] fg_bound_def)
qed

lemma add_to_queue_bound:
  assumes ok: "ctl_ok 0 c (add_mset i rest)" and q: "q < DT_JOB_QUEUE_MAX" and b: "fg_bound c"
  shows "fg_bound (add_to_queue q i c)"
proof -
  let ?c1 = "upd_job i (\<lambda>j. j\<lparr>job_queue := q\<rparr>) c"
  let ?c2 = "?c1\<lparr>pending_jobs := pending_jobs ?c1 + 1\<rparr>"
  let ?c3 = "upd_job i (\<lambda>j. j\<lparr>priority := queue_priority q\<rparr>) ?c2"
  have ok3: "ctl_ok (0 + 1) ?c3 (add_mset i rest)"
    by (rule upd_outside_ok [OF pending_shift [OF upd_outside_ok [OF ok]]])
  have q3: "queue_of (keys ?c3) i = Some q"
    using queue_of_upd_queue [of c i q] live_in_rest [OF ok, of i] by (simp add: keys_upd_job)
  have b3: "fg_bound ?c3" using b by (simp add: fg_bound_def)
  show ?thesis
  proof (cases "q = DT_JOB_QUEUE_SYSTEM_FG")
    case True
    with add_fg_job_bound [OF ok3 _ b3] q3 show ?thesis by (simp add: add_to_queue_def Let_def)
  next
    case False
    with b show ?thesis by (simp add: add_to_queue_def Let_def add_fifo_job_def fg_bound_def)
  qed
qed

lemma execute_frame [simp, dt_frames]:
  "queues (control_job_execute i r c) = queues c" "queues (execute_begin i c) = queues c"
  "queues (execute_end i r c) = queues c" "sched (execute_begin i c) = sched c"
  "sched (execute_end i r c) = sched c" "sched (control_job_execute i r c) = sched c"
  by (simp_all add: control_job_execute_def execute_begin_def execute_end_def)

lemma add_job_bound:
  assumes "ctl_ok 0 c (add_mset i rest)" and "fg_bound c"
  shows "fg_bound (fst (dt_control_add_job q (Some i) r c))"
  using add_to_queue_bound [OF assms(1) _ assms(2)] assms(2)
  by (auto simp: dt_control_add_job_def fg_bound_def)

lemma length_pop_nth: "length (xs[a := tl (xs ! a)] ! k) \<le> length (xs ! k)"
  by (cases "a < length xs") (auto simp: nth_list_update list_update_beyond)

lemma find_equal_sched: "find_equal i xs c = (c', r) \<Longrightarrow> sched c' = sched c"
  using find_equal_frame [of i xs c] by auto

lemma add_fg_job_sched [simp, dt_frames]: "sched (add_fg_job i c) = sched c"
  by (auto simp: add_fg_job_def add_system_fg_def Let_def split: option.split prod.split dest!: find_equal_sched)

lemma add_job_sched [simp, dt_frames]: "sched (fst (dt_control_add_job q (Some i) r c)) = sched c"
  by (auto simp: dt_control_add_job_def add_to_queue_def add_fifo_job_def Let_def split: option.split)

lemma schedule_bound: "fg_bound c \<Longrightarrow> fg_bound (fst (control_schedule_job t c))"
  using le_trans [OF length_pop_nth]
  using schedule_scan_frame [of "[0..<5]" "- 1" None c]
  by (auto simp: control_schedule_job_def fg_bound_def Let_def split: option.splits prod.splits)


section \<open>Interleavings\<close>

text \<open>
  The threads: a worker that is not idle has a job in its local variable and is before,
  inside or after the callback; so has a reserved worker. \<open>owned\<close> are the jobs that were created
  and not yet added or disposed of.
\<close>

datatype phase = Scheduled | Executing | Executed

record job_system =
  ctl :: dt_control_t
  owned :: "job_id multiset"
  w_local :: "(job_id \<times> phase) option list"
  r_local :: "(job_id \<times> phase) option list"

definition rest_refs :: "job_system \<Rightarrow> job_id multiset" where
  "rest_refs s = owned s + sum_list (map (\<lambda>x. optm (map_option fst x)) (r_local s))"

definition js_start :: "job_system \<Rightarrow> bool" where
  "js_start s \<longleftrightarrow> (\<exists>n. s = \<lparr>ctl = dt_control_jobs_init n control_zero, owned = {#},
     w_local = replicate n None, r_local = replicate DT_CTL_WORKER_RESERVED None\<rparr>)"

definition js_inv :: "job_system \<Rightarrow> bool" where
  "js_inv s \<longleftrightarrow> ctl_ok 0 (ctl s) (rest_refs s) \<and> fg_bound (ctl s) \<and>
     map (map_option fst) (w_local s) = sched (ctl s) \<and> length (r_local s) = DT_CTL_WORKER_RESERVED"

text \<open>The progress object of a job, and what holds of those that can be cancelled: none outlives its job.\<close>

definition prog_of :: "dt_control_t \<Rightarrow> job_id \<Rightarrow> nat option" where
  "prog_of c i = Option.bind (heap c i) progress"

definition progress_ok :: "dt_control_t \<Rightarrow> bool" where
  "progress_ok c \<longleftrightarrow> (\<forall>p i. progress_data c p = Some (Some i) \<longrightarrow> prog_of c i = Some p)"

text \<open>
  The steps. A progress object is made for a job that has none, at a free address. Cancelling comes from the panel,
  for a progress object that it shows, or from the callback of the job, which also reads its job.
  After it got a job, a worker executes it only when it is still queued.
\<close>

definition begin_job :: "job_id \<Rightarrow> dt_control_t \<Rightarrow> dt_control_t \<times> phase" where
  "begin_job i c =
     (case dt_control_job_get_state (Some i) c of
        (c1, st) \<Rightarrow> if st = DT_JOB_STATE_QUEUED then (execute_begin i c1, Executing) else (c1, Executed))"

inductive js_step :: "job_system \<Rightarrow> job_system \<Rightarrow> bool" where
  js_create: "heap (ctl s) i = None \<Longrightarrow> dt_control_job_create (Some i) ex msg view (ctl s) = (c, Some i) \<Longrightarrow>
     js_step s (s\<lparr>ctl := c, owned := add_mset i (owned s)\<rparr>)"
| js_params: "i \<in># owned s \<Longrightarrow>
     js_step s (s\<lparr>ctl := dt_control_job_set_params_with_size i ps n cb (ctl s)\<rparr>)"
| js_params0: "i \<in># owned s \<Longrightarrow> js_step s (s\<lparr>ctl := dt_control_job_set_params i ps cb (ctl s)\<rparr>)"
| js_progress: "i \<in># owned s \<Longrightarrow> prog_of (ctl s) i = None \<Longrightarrow> progress_data (ctl s) p = None \<Longrightarrow>
     js_step s (s\<lparr>ctl := dt_control_job_add_progress i p cancellable (ctl s)\<rparr>)"
| js_cancel: "progress_data (ctl s) p \<noteq> None \<Longrightarrow> js_step s (s\<lparr>ctl := dt_control_progress_cancel p (ctl s)\<rparr>)"
| js_cancel_self: "t < length (w_local s) \<Longrightarrow> w_local s ! t = Some (i, Executing) \<Longrightarrow>
     js_step s (s\<lparr>ctl := dt_control_job_cancel i (ctl s)\<rparr>)"
| js_reads: "t < length (w_local s) \<Longrightarrow> w_local s ! t = Some (i, Executing) \<Longrightarrow>
     js_step s (s\<lparr>ctl := fst (dt_control_job_get_params (Some i) (fst (dt_control_job_get_state (Some i) (ctl s))))\<rparr>)"
| js_dispose: "owned s = add_mset i os \<Longrightarrow>
     js_step s (s\<lparr>ctl := dt_control_job_dispose (Some i) (ctl s), owned := os\<rparr>)"
| js_add: "owned s = add_mset i os \<Longrightarrow>
     js_step s (s\<lparr>ctl := fst (dt_control_add_job q (Some i) r (ctl s)), owned := os\<rparr>)"
| js_add_res: "owned s = add_mset i os \<Longrightarrow>
     js_step s (s\<lparr>ctl := fst (dt_control_add_job_res (Some i) k (ctl s)), owned := os\<rparr>)"
| js_schedule: "t < length (w_local s) \<Longrightarrow> w_local s ! t = None \<Longrightarrow>
     control_schedule_job t (ctl s) = (c, r) \<Longrightarrow>
     js_step s (s\<lparr>ctl := c, w_local := (w_local s)[t := map_option (\<lambda>i. (i, Scheduled)) r]\<rparr>)"
| js_begin: "t < length (w_local s) \<Longrightarrow> w_local s ! t = Some (i, Scheduled) \<Longrightarrow>
     begin_job i (ctl s) = (c, ph) \<Longrightarrow>
     js_step s (s\<lparr>ctl := c, w_local := (w_local s)[t := Some (i, ph)]\<rparr>)"
| js_end: "t < length (w_local s) \<Longrightarrow> w_local s ! t = Some (i, Executing) \<Longrightarrow>
     js_step s (s\<lparr>ctl := execute_end i r (ctl s), w_local := (w_local s)[t := Some (i, Executed)]\<rparr>)"
| js_finish: "t < length (w_local s) \<Longrightarrow> w_local s ! t = Some (i, Executed) \<Longrightarrow>
     js_step s (s\<lparr>ctl := run_job_finish t i (ctl s), w_local := (w_local s)[t := None]\<rparr>)"
| js_take_res: "k < DT_CTL_WORKER_RESERVED \<Longrightarrow> r_local s ! k = None \<Longrightarrow> take_job_res k (ctl s) = (c, r) \<Longrightarrow>
     js_step s (s\<lparr>ctl := c, r_local := (r_local s)[k := map_option (\<lambda>i. (i, Scheduled)) r]\<rparr>)"
| js_begin_res: "k < DT_CTL_WORKER_RESERVED \<Longrightarrow> r_local s ! k = Some (i, Scheduled) \<Longrightarrow>
     begin_job i (ctl s) = (c, ph) \<Longrightarrow>
     js_step s (s\<lparr>ctl := c, r_local := (r_local s)[k := Some (i, ph)]\<rparr>)"
| js_end_res: "k < DT_CTL_WORKER_RESERVED \<Longrightarrow> r_local s ! k = Some (i, Executing) \<Longrightarrow>
     js_step s (s\<lparr>ctl := execute_end i r (ctl s), r_local := (r_local s)[k := Some (i, Executed)]\<rparr>)"
| js_finish_res: "k < DT_CTL_WORKER_RESERVED \<Longrightarrow> r_local s ! k = Some (i, Executed) \<Longrightarrow>
     js_step s (s\<lparr>ctl := dt_control_job_dispose (Some i) (ctl s), r_local := (r_local s)[k := None]\<rparr>)"
| js_shutdown: "js_step s (s\<lparr>ctl := (ctl s)\<lparr>control_running := False\<rparr>\<rparr>)"


lemma begin_job_frame:
  assumes "begin_job i c = (c', ph)"
  shows "sched c' = sched c" and "queues c' = queues c"
proof -
  obtain c1 st where r: "dt_control_job_get_state (Some i) c = (c1, st)" by (cases "dt_control_job_get_state (Some i) c")
  have "c1 = c \<or> c1 = c\<lparr>fault := True\<rparr>"
    using read_job_frame [of "Some i" DT_JOB_STATE_DISPOSED job_state c] r by (simp add: dt_control_job_get_state_def)
  then show "sched c' = sched c" and "queues c' = queues c" using assms r by (auto simp: begin_job_def split: if_splits)
qed

lemma begin_job_ok:
  assumes "ctl_ok d c rest" and "heap c i \<noteq> None" and "begin_job i c = (c', ph)"
  shows "ctl_ok d c' rest" and "sched c' = sched c" and "queues c' = queues c"
  using assms by (auto simp: begin_job_def dt_control_job_get_state_def read_job_live execute_ok split: if_splits)

lemma js_invD:
  assumes "js_inv s"
  shows "ctl_ok 0 (ctl s) (rest_refs s)" and "fg_bound (ctl s)" and "map (map_option fst) (w_local s) = sched (ctl s)"
    and "length (r_local s) = DT_CTL_WORKER_RESERVED"
    and "t < length (w_local s) \<Longrightarrow> t < length (sched (ctl s)) \<and> sched (ctl s) ! t = map_option fst (w_local s ! t)"
proof -
  show w: "map (map_option fst) (w_local s) = sched (ctl s)" using assms by (simp add: js_inv_def)
  show "t < length (w_local s) \<Longrightarrow> t < length (sched (ctl s)) \<and> sched (ctl s) ! t = map_option fst (w_local s ! t)"
    by (simp flip: w)
qed (use assms in \<open>simp_all add: js_inv_def\<close>)

text \<open>The job of a worker is in its slot and allocated.\<close>

lemma worker_job:
  assumes "js_inv s" and "t < length (w_local s)" and "w_local s ! t = Some (i, ph)"
  shows "t < length (sched (ctl s))" and "sched (ctl s) ! t = Some i" and "heap (ctl s) i \<noteq> None"
    and "(sched (ctl s))[t := Some i] = sched (ctl s)"
proof -
  show t: "t < length (sched (ctl s))" "sched (ctl s) ! t = Some i"
    using js_invD(5) [OF assms(1,2)] assms(3) by auto
  then show "(sched (ctl s))[t := Some i] = sched (ctl s)" by (metis list_update_id)
  show "heap (ctl s) i \<noteq> None"
    using live_in_ctl(2) [OF js_invD(1) [OF assms(1)]] t by (metis nth_mem)
qed

lemma owned_put:
  assumes "js_inv s" and "i \<in># owned s"
  shows "heap (ctl s) i \<noteq> None" and "ctl_ok 0 (put_job i j (ctl s)) (rest_refs s)"
proof -
  obtain R where R: "rest_refs s = add_mset i R" using assms(2) unfolding rest_refs_def by (metis mset_add union_mset_add_mset_left)
  note ok = js_invD(1) [OF assms(1)]
  show "heap (ctl s) i \<noteq> None" using live_in_rest [OF ok, of i] R by simp
  show "ctl_ok 0 (put_job i j (ctl s)) (rest_refs s)" unfolding R by (rule put_outside_ok) (use ok R in simp)
qed

text \<open>Changes of the control structure alone, and of the jobs the caller owns.\<close>

lemma js_inv_ctl:
  assumes "js_inv s" and "ctl_ok 0 c (rest_refs s)" and "sched c = sched (ctl s)"
    and "queues c ! 1 = queues (ctl s) ! 1"
  shows "js_inv (s\<lparr>ctl := c\<rparr>)"
  using assms by (simp add: js_inv_def rest_refs_def fg_bound_def)

lemma js_inv_owned:
  assumes "js_inv s" and "ctl_ok 0 c (os + sum_list (map (\<lambda>x. optm (map_option fst x)) (r_local s)))"
    and "sched c = sched (ctl s)" and "fg_bound c"
  shows "js_inv (s\<lparr>ctl := c, owned := os\<rparr>)"
  using assms by (simp add: js_inv_def rest_refs_def)

lemma owned_rest:
  "owned s = add_mset i os \<Longrightarrow>
    rest_refs s = add_mset i (os + sum_list (map (\<lambda>x. optm (map_option fst x)) (r_local s)))"
  by (simp add: rest_refs_def)

lemma js_inv_worker:
  assumes "js_inv s" and "ctl_ok 0 c (rest_refs s)" and "t < length (w_local s)"
    and "sched c = (sched (ctl s))[t := map_option fst x]" and "fg_bound c"
  shows "js_inv (s\<lparr>ctl := c, w_local := (w_local s)[t := x]\<rparr>)"
  using assms by (simp add: js_inv_def rest_refs_def map_update)

lemma js_inv_reserved:
  assumes inv: "js_inv s" and k: "k < DT_CTL_WORKER_RESERVED"
    and ok: "\<And>R. rest_refs s = optm (map_option fst (r_local s ! k)) + R \<Longrightarrow> ctl_ok 0 c (optm (map_option fst x) + R)"
    and "sched c = sched (ctl s)" and "queues c ! 1 = queues (ctl s) ! 1"
  shows "js_inv (s\<lparr>ctl := c, r_local := (r_local s)[k := x]\<rparr>)"
proof -
  let ?f = "\<lambda>x. optm (map_option fst x)"
  have l: "k < length (r_local s)" using k js_invD(4) [OF inv] by simp
  obtain R where R: "sum_list (map ?f (r_local s)) = ?f (r_local s ! k) + R"
    using sum_list_update_monoid [OF l, of ?f None] by (metis (no_types, lifting) add.commute add_0_right option.simps(4) option.simps(8))
  have "sum_list (map ?f ((r_local s)[k := x])) + ?f (r_local s ! k) = R + ?f x + ?f (r_local s ! k)"
    using sum_list_update_monoid [OF l, of ?f x] unfolding R by (simp add: ac_simps)
  then have "sum_list (map ?f ((r_local s)[k := x])) = ?f x + R" by (simp add: ac_simps)
  moreover have "ctl_ok 0 c (?f x + (owned s + R))" by (rule ok) (simp only: rest_refs_def R ac_simps)
  ultimately show ?thesis using assms(4,5) inv by (simp add: js_inv_def rest_refs_def fg_bound_def ac_simps)
qed

lemma start_inv: "js_start s \<Longrightarrow> js_inv s"
proof -
  assume "js_start s"
  then obtain n where s: "s = \<lparr>ctl = dt_control_jobs_init n control_zero, owned = {#},
     w_local = replicate n None, r_local = replicate DT_CTL_WORKER_RESERVED None\<rparr>" by (auto simp: js_start_def)
  have z: "sum_list (replicate m {#}) = {#}" "sum_list (replicate m (0::nat)) = 0" for m by (induction m) auto
  have "\<forall>q<DT_JOB_QUEUE_MAX. replicate DT_JOB_QUEUE_MAX ([] :: job_id list) ! q = []" by simp
  then show ?thesis unfolding s
    by (simp add: js_inv_def rest_refs_def fg_bound_def ctl_defs dt_control_jobs_init_def control_zero_def
        refs_ok_def keys_def exports_def map_replicate z)
qed


lemma js_step_inv: "js_step s t \<Longrightarrow> js_inv s \<Longrightarrow> progress_ok (ctl s) \<Longrightarrow> js_inv t"
proof (induction rule: js_step.induct)
  case (js_create s i ex msg view c)
  note inv = js_invD [OF js_create.prems(1)]
  have "ctl_ok 0 (put_job i j (ctl s)) (add_mset i (rest_refs s))" for j
    by (rule create_ok [OF inv(1) js_create.hyps(1)])
  with js_create show ?case
    by (auto intro!: js_inv_owned simp: dt_control_job_create_def rest_refs_def js_inv_def fg_bound_def split: if_splits)
next
  case (js_params i s ps n cb)
  with owned_put [OF js_params.prems(1) js_params.hyps] js_invD(1) [OF js_params.prems(1)] show ?case
    by (intro js_inv_ctl) (auto simp: dt_control_job_set_params_with_size_def with_job_def)
next
  case (js_params0 i s ps cb)
  with owned_put [OF js_params0.prems(1) js_params0.hyps] js_invD(1) [OF js_params0.prems(1)] show ?case
    by (intro js_inv_ctl) (auto simp: dt_control_job_set_params_def with_job_def)
next
  case (js_progress i s p cancellable)
  let ?c = "dt_control_progress_create p (ctl s)"
  obtain j where j: "heap (ctl s) i = Some j" using owned_put(1) [OF js_progress.prems(1) js_progress.hyps(1)] by blast
  have "ctl_ok 0 (put_job i (j\<lparr>progress := Some p\<rparr>) (ctl s)) (rest_refs s)"
    by (rule owned_put(2) [OF js_progress.prems(1) js_progress.hyps(1)])
  then have "ctl_ok 0 (dt_control_job_add_progress i p cancellable (ctl s)) (rest_refs s)"
    by (subst ctl_ok_cong [of _ "put_job i (j\<lparr>progress := Some p\<rparr>) (ctl s)"])
      (auto simp: dt_control_job_add_progress_def Let_def upd_job_def with_job_def j keys_def)
  with js_progress.prems(1) show ?case by (intro js_inv_ctl) (simp_all add: dt_control_job_add_progress_def Let_def)
next
  case (js_cancel s p)
  have set: "js_inv (s\<lparr>ctl := dt_control_job_cancel i (ctl s)\<rparr>)" if "heap (ctl s) i \<noteq> None" for i
    using that js_invD [OF js_cancel.prems(1)] js_cancel.prems(1)
    by (intro js_inv_ctl) (simp_all add: dt_control_job_cancel_def set_state_ok)
  from js_cancel.hyps obtain x where x: "progress_data (ctl s) p = Some x" by blast
  show ?case
  proof (cases x)
    case None
    with x js_cancel.prems(1) show ?thesis by (simp add: dt_control_progress_cancel_def)
  next
    case (Some i)
    then have "prog_of (ctl s) i = Some p" using js_cancel.prems(2) x by (simp add: progress_ok_def)
    then have "heap (ctl s) i \<noteq> None" by (auto simp: prog_of_def bind_eq_Some_conv)
    from set [OF this] show ?thesis using x Some by (simp add: dt_control_progress_cancel_def)
  qed
next
  case (js_cancel_self t s i)
  note w = worker_job [OF js_cancel_self.prems(1) js_cancel_self.hyps]
  with js_invD [OF js_cancel_self.prems(1)] js_cancel_self.prems(1) show ?case
    by (intro js_inv_ctl) (simp_all add: dt_control_job_cancel_def set_state_ok)
next
  case (js_reads t s i)
  from worker_job(3) [OF js_reads.prems(1) js_reads.hyps] obtain j where "heap (ctl s) i = Some j" by blast
  with js_reads.prems(1) show ?case
    by (simp add: dt_control_job_get_params_def dt_control_job_get_state_def read_job_live)
next
  case (js_dispose s i os)
  note inv = js_invD [OF js_dispose.prems(1)]
  have "fg_bound (dt_control_job_dispose (Some i) (ctl s))" using inv(2) by (simp add: fg_bound_def)
  with js_dispose dispose_ok inv(1) owned_rest [OF js_dispose.hyps] show ?case by (intro js_inv_owned) simp_all
next
  case (js_add s i os q r)
  note inv = js_invD [OF js_add.prems(1)]
  show ?case using js_add inv
    by (intro js_inv_owned) (auto simp: owned_rest intro!: dt_control_add_job_ok add_job_bound add_job_sched)
next
  case (js_add_res s i os k)
  note inv = js_invD [OF js_add_res.prems(1)]
  have f: "sched (fst (dt_control_add_job_res (Some i) k c)) = sched c"
    "queues (fst (dt_control_add_job_res (Some i) k c)) = queues c" for c
    by (auto simp: dt_control_add_job_res_def Let_def split: option.split)
  show ?case using js_add_res inv
    by (intro js_inv_owned) (auto simp: owned_rest f fg_bound_def intro!: add_job_res_ok)
next
  case (js_schedule t s c r)
  note inv = js_invD [OF js_schedule.prems(1)]
  have t: "t < length (sched (ctl s))" "sched (ctl s) ! t = None" using inv(5) [of t] js_schedule.hyps by auto
  from control_schedule_job_ok [OF inv(1) t js_schedule.hyps(3)] schedule_bound [OF inv(2), of t] js_schedule
  show ?case by (intro js_inv_worker) (auto simp: option.map_comp comp_def option.map_ident)
next
  case (js_begin t s i c ph)
  note inv = js_invD [OF js_begin.prems(1)] and w = worker_job [OF js_begin.prems(1) js_begin.hyps(1,2)]
  from begin_job_ok [OF inv(1) w(3) js_begin.hyps(3)] js_begin inv(2) w(4) show ?case
    by (intro js_inv_worker) (simp_all add: fg_bound_def)
next
  case (js_end t s i r)
  note inv = js_invD [OF js_end.prems(1)] and w = worker_job [OF js_end.prems(1) js_end.hyps]
  from execute_ok(2) [OF inv(1) w(3)] js_end inv(2) w(4) show ?case
    by (intro js_inv_worker) (simp_all add: fg_bound_def)
next
  case (js_finish t s i)
  note inv = js_invD [OF js_finish.prems(1)]
  note t = worker_job(1,2) [OF js_finish.prems(1) js_finish.hyps]
  have f: "sched (run_job_finish t i (ctl s)) = (sched (ctl s))[t := None]" "queues (run_job_finish t i (ctl s)) = queues (ctl s)"
    by (simp_all add: run_job_finish_def with_job_def Let_def split: option.split)
  from run_job_finish_ok [OF inv(1) t] js_finish inv f show ?case
    by (intro js_inv_worker) (auto simp: fg_bound_def)
next
  case (js_take_res k s c r)
  note inv = js_invD [OF js_take_res.prems(1)]
  have f: "sched c = sched (ctl s)" "queues c = queues (ctl s)"
    using js_take_res.hyps(3) by (auto simp: take_job_res_def split: if_splits)
  have "ctl_ok 0 c (optm r + rest_refs s)" by (rule take_job_res_ok [OF inv(1) js_take_res.hyps(1,3)])
  with js_take_res f show ?case
    by (intro js_inv_reserved) (auto simp: option.map_comp comp_def option.map_ident)
next
  case (js_begin_res k s i c ph)
  note inv = js_invD [OF js_begin_res.prems(1)]
  show ?case
  proof (rule js_inv_reserved [OF js_begin_res.prems(1) js_begin_res.hyps(1)])
    fix R assume R: "rest_refs s = optm (map_option fst (r_local s ! k)) + R"
    with js_begin_res.hyps(2) have "heap (ctl s) i \<noteq> None" using live_in_rest [OF inv(1), of i] by simp
    from begin_job_ok(1) [OF inv(1) this js_begin_res.hyps(3)] R js_begin_res.hyps(2)
    show "ctl_ok 0 c (optm (map_option fst (Some (i, ph))) + R)" by simp
  qed (use begin_job_frame [OF js_begin_res.hyps(3)] in simp_all)
next
  case (js_end_res k s i r)
  note inv = js_invD [OF js_end_res.prems(1)]
  show ?case
  proof (rule js_inv_reserved [OF js_end_res.prems(1) js_end_res.hyps(1)])
    fix R assume R: "rest_refs s = optm (map_option fst (r_local s ! k)) + R"
    with js_end_res.hyps(2) have "heap (ctl s) i \<noteq> None" using live_in_rest [OF inv(1), of i] by simp
    from execute_ok(2) [OF inv(1) this, of r] R js_end_res.hyps(2)
    show "ctl_ok 0 (execute_end i r (ctl s)) (optm (map_option fst (Some (i, Executed))) + R)" by simp
  qed auto
next
  case (js_finish_res k s i)
  note inv = js_invD [OF js_finish_res.prems(1)]
  show ?case
  proof (rule js_inv_reserved [OF js_finish_res.prems(1) js_finish_res.hyps(1)])
    fix R assume R: "rest_refs s = optm (map_option fst (r_local s ! k)) + R"
    with js_finish_res.hyps(2) inv(1) have "ctl_ok 0 (ctl s) (add_mset i R)" by simp
    from dispose_ok [OF this] show "ctl_ok 0 (dt_control_job_dispose (Some i) (ctl s)) (optm (map_option fst None) + R)"
      by simp
  qed auto
next
  case (js_shutdown s)
  note inv = js_invD [OF js_shutdown.prems(1)]
  have "ctl_ok 0 ((ctl s)\<lparr>control_running := False\<rparr>) (rest_refs s)"
    using inv(1) by (subst ctl_ok_cong [of _ "ctl s"]) simp_all
  with js_shutdown show ?case by (intro js_inv_ctl) simp_all
qed

subsection \<open>Progress objects do not outlive their jobs\<close>

lemma progress_okD: "progress_ok c \<Longrightarrow> progress_data c p = Some (Some i) \<Longrightarrow> prog_of c i = Some p"
  by (simp add: progress_ok_def)

lemma progress_ok_mono:
  assumes "progress_ok c"
    and "\<And>p i. progress_data c' p = Some (Some i) \<Longrightarrow> progress_data c p = Some (Some i)"
    and "\<And>p i. progress_data c' p = Some (Some i) \<Longrightarrow> prog_of c i = Some p \<Longrightarrow> prog_of c' i = Some p"
  shows "progress_ok c'"
  unfolding progress_ok_def using assms progress_okD [OF assms(1)] by blast

lemma progress_ok_fields [simp]:
  "progress_ok (c\<lparr>queues := qs\<rparr>) = progress_ok c" "progress_ok (c\<lparr>queue_length := ns\<rparr>) = progress_ok c"
  "progress_ok (c\<lparr>sched := sc\<rparr>) = progress_ok c" "progress_ok (c\<lparr>export_scheduled := b\<rparr>) = progress_ok c"
  "progress_ok (c\<lparr>pending_jobs := n\<rparr>) = progress_ok c" "progress_ok (c\<lparr>job_res := js\<rparr>) = progress_ok c"
  "progress_ok (c\<lparr>new_res := bs\<rparr>) = progress_ok c" "progress_ok (c\<lparr>control_running := b\<rparr>) = progress_ok c"
  "progress_ok (c\<lparr>fault := b\<rparr>) = progress_ok c" "progress_ok (log_event e c) = progress_ok c"
  "progress_ok (set_queue q xs l c) = progress_ok c"
  by (simp_all add: progress_ok_def prog_of_def log_event_def set_queue_def)

lemma progress_ok_upd [simp]:
  assumes "\<And>j. progress (f j) = progress j"
  shows "progress_ok (upd_job i f c) = progress_ok c"
proof -
  have "prog_of (upd_job i f c) = prog_of c" "progress_data (upd_job i f c) = progress_data c"
    by (auto simp: fun_eq_iff prog_of_def upd_job_def with_job_def put_job_def assms split: option.split)
  then show ?thesis by (simp add: progress_ok_def)
qed

lemma progress_ok_set_state [intro]:
  assumes "progress_ok c"
  shows "progress_ok (control_job_set_state i st c)"
proof (cases "heap c i")
  case None
  then show ?thesis using assms by (simp add: control_job_set_state_def with_job_def)
next
  case (Some j)
  let ?c = "control_job_set_state i st c" and ?D = "DT_JOB_STATE_FINISHED \<le> st \<and> job_state j \<noteq> DT_JOB_STATE_RUNNING"
  have data: "progress_data ?c p = (if ?D \<and> progress j = Some p then None else progress_data c p)" for p
    by (auto simp: control_job_set_state_def with_job_def Let_def put_job_def log_event_def dt_control_progress_destroy_def
        Some split: option.split)
  have prog: "prog_of ?c k = (if k = i \<and> ?D then None else prog_of c k)" for k
    by (auto simp: prog_of_def control_job_set_state_def with_job_def Let_def Some split: option.split)
  show ?thesis unfolding progress_ok_def
  proof (intro allI impI)
    fix p k assume *: "progress_data ?c p = Some (Some k)"
    then have "\<not> (?D \<and> progress j = Some p)" "prog_of c k = Some p"
      using progress_okD [OF assms] unfolding data by (auto split: if_splits)
    then show "prog_of ?c k = Some p" unfolding prog using Some by (auto simp: prog_of_def)
  qed
qed

lemma progress_ok_dispose [intro]:
  assumes "progress_ok c"
  shows "progress_ok (dt_control_job_dispose i c)"
proof (cases "\<exists>a j. i = Some a \<and> heap c a = Some j")
  case True
  then obtain a j where a: "i = Some a" "heap c a = Some j" by blast
  let ?c = "dt_control_job_dispose i c"
  have "heap ?c = (heap c)(a := None)"
    by (auto simp: fun_eq_iff a dt_control_job_dispose_def dispose_live_def with_job_def Let_def split: option.split)
  moreover have "progress_data ?c = (case progress j of None \<Rightarrow> progress_data c | Some p \<Rightarrow> (progress_data c)(p := None))"
    by (auto simp: a dt_control_job_dispose_def dispose_live_def with_job_def Let_def control_job_set_state_def
        put_job_def log_event_def dt_control_progress_destroy_def split: option.split)
  ultimately show ?thesis using a(2)
    by (intro progress_ok_mono [OF assms]) (auto simp: prog_of_def split: option.splits if_splits)
next
  case False
  then show ?thesis using assms
    by (cases i) (auto simp: dt_control_job_dispose_def dispose_live_def with_job_def split: option.split)
qed

lemma progress_ok_scans:
  "progress_ok c \<Longrightarrow> find_equal i xs c = (c1, r) \<Longrightarrow> progress_ok c1"
  "progress_ok c \<Longrightarrow> schedule_scan qs mp best c = (c2, w) \<Longrightarrow> progress_ok c2"
  "progress_ok c \<Longrightarrow> dt_control_job_get_state x c = (c3, st) \<Longrightarrow> progress_ok c3"
  using find_equal_frame [of i xs c] schedule_scan_frame [of qs mp best c]
    read_job_frame [of x DT_JOB_STATE_DISPOSED job_state c]
  by (auto simp: dt_control_job_get_state_def)

lemma progress_ok_discard [intro]: "progress_ok c \<Longrightarrow> progress_ok (discard_job i c)"
  by (auto simp: discard_job_def split: option.split)

lemma progress_ok_trim [intro]: "progress_ok c \<Longrightarrow> progress_ok (trim_system_fg c)"
  by (auto simp: trim_system_fg_def Let_def)

lemma progress_ok_execute [intro]:
  "progress_ok c \<Longrightarrow> progress_ok (execute_begin i c)" "progress_ok c \<Longrightarrow> progress_ok (execute_end i r c)"
  "progress_ok c \<Longrightarrow> progress_ok (control_job_execute i r c)"
  by (auto simp: execute_begin_def execute_end_def control_job_execute_def intro!: progress_ok_set_state)

lemmas progress_intros = progress_ok_set_state progress_ok_dispose progress_ok_discard progress_ok_trim
  progress_ok_execute

lemma progress_ok_add_fg [intro]:
  assumes "progress_ok c"
  shows "progress_ok (add_fg_job i c)"
proof -
  obtain c1 r where r: "find_equal i (sched c) c = (c1, r)" by (cases "find_equal i (sched c) c")
  have c1: "progress_ok c1" by (rule progress_ok_scans(1) [OF assms r])
  obtain c2 x where x: "find_equal i (map Some (queues c1 ! 1)) c1 = (c2, x)"
    by (cases "find_equal i (map Some (queues c1 ! 1)) c1")
  have "progress_ok c2" by (rule progress_ok_scans(1) [OF c1 x])
  then have "progress_ok (fst (add_system_fg i c1))" using x by (auto simp: add_system_fg_def Let_def split: option.split)
  then show ?thesis using c1 r
    by (auto simp: add_fg_job_def Let_def split: option.split prod.split intro!: progress_intros)
qed

lemma progress_ok_add [intro]:
  "progress_ok c \<Longrightarrow> progress_ok (fst (dt_control_add_job q (Some i) r c))"
  by (auto simp: dt_control_add_job_def add_to_queue_def add_fifo_job_def Let_def intro!: progress_intros)

lemma progress_ok_add_res [intro]:
  "progress_ok c \<Longrightarrow> progress_ok (fst (dt_control_add_job_res (Some i) k c))"
  by (auto simp: dt_control_add_job_res_def Let_def split: option.split intro!: progress_intros)

lemma progress_ok_bump [intro]: "progress_ok c \<Longrightarrow> progress_ok (bump_heads w qs c)"
  by (induction qs arbitrary: c) (simp_all split: list.split)

lemma progress_ok_schedule:
  assumes "progress_ok c" and "control_schedule_job t c = (c', r)"
  shows "progress_ok c'"
proof -
  obtain c1 w where w: "schedule_scan [0..<5] (- 1) None c = (c1, w)" by (cases "schedule_scan [0..<5] (- 1) None c")
  have "progress_ok c1" by (rule progress_ok_scans(2) [OF assms(1) w])
  then show ?thesis using assms(2) w
    by (auto simp: control_schedule_job_def Let_def split: option.splits intro!: progress_ok_bump)
qed

lemma progress_ok_finish [intro]: "progress_ok c \<Longrightarrow> progress_ok (run_job_finish t i c)"
  by (auto simp: run_job_finish_def Let_def with_job_def split: option.split intro!: progress_ok_dispose)

lemma progress_ok_begin: "progress_ok c \<Longrightarrow> begin_job i c = (c', ph) \<Longrightarrow> progress_ok c'"
  using progress_ok_scans(3) [of c "Some i"] by (auto simp: begin_job_def split: prod.splits if_splits)

lemma progress_ok_params [intro]:
  "progress_ok c \<Longrightarrow> progress_ok (dt_control_job_set_params_with_size i ps n cb c)"
  "progress_ok c \<Longrightarrow> progress_ok (dt_control_job_set_params i ps cb c)"
  by (erule progress_ok_mono; auto simp: prog_of_def dt_control_job_set_params_with_size_def
      dt_control_job_set_params_def with_job_def put_job_def split: option.splits if_splits)+

lemma progress_ok_create:
  assumes "progress_ok c" and "heap c i = None" and "dt_control_job_create (Some i) ex msg view c = (c', Some i)"
  shows "progress_ok c'"
  by (rule progress_ok_mono [OF assms(1)])
    (use assms(2,3) in \<open>auto simp: prog_of_def dt_control_job_create_def put_job_def split: if_splits\<close>)

lemma progress_ok_attach:
  assumes "progress_ok c" and "heap c i \<noteq> None" and "prog_of c i = None"
  shows "progress_ok (dt_control_job_add_progress i p cancellable c)"
proof -
  let ?c = "dt_control_job_add_progress i p cancellable c"
  have prog: "prog_of ?c k = (if k = i then Some p else prog_of c k)" for k
    using assms(2) by (auto simp: prog_of_def dt_control_job_add_progress_def Let_def upd_job_def with_job_def)
  have data: "progress_data ?c q = (if q = p then Some (if cancellable then Some i else None) else progress_data c q)" for q
    using assms(2) by (auto simp: dt_control_job_add_progress_def Let_def upd_job_def with_job_def put_job_def
        dt_control_progress_create_def dt_control_progress_attach_job_def)
  have "progress_data c q \<noteq> Some (Some i)" for q using progress_okD [OF assms(1), of q i] assms(3) by auto
  then show ?thesis unfolding progress_ok_def prog data using progress_okD [OF assms(1)] by (auto split: if_splits)
qed

lemma progress_ok_cancel [intro]:
  "progress_ok c \<Longrightarrow> progress_ok (dt_control_job_cancel i c)"
  "progress_ok c \<Longrightarrow> progress_ok (dt_control_progress_cancel p c)"
  by (auto simp: dt_control_job_cancel_def dt_control_progress_cancel_def split: option.split)

lemma progress_ok_step: "js_step s t \<Longrightarrow> js_inv s \<Longrightarrow> progress_ok (ctl s) \<Longrightarrow> progress_ok (ctl t)"
proof (induction rule: js_step.induct)
  case (js_create s i ex msg view c)
  with progress_ok_create show ?case by simp
next
  case (js_progress i s p cancellable)
  with progress_ok_attach owned_put(1) [OF js_progress.prems(1) js_progress.hyps(1)] show ?case by simp
next
  case (js_reads t s i)
  with read_job_frame [of "Some i" DT_JOB_STATE_DISPOSED job_state "ctl s"]
    read_job_frame [of "Some i" None "\<lambda>j. Some (params j)" "fst (dt_control_job_get_state (Some i) (ctl s))"]
  show ?case by (auto simp: dt_control_job_get_params_def dt_control_job_get_state_def)
next
  case (js_schedule t s c r)
  with progress_ok_schedule show ?case by simp
next
  case (js_begin t s i c ph)
  with progress_ok_begin show ?case by simp
next
  case (js_begin_res k s i c ph)
  with progress_ok_begin show ?case by simp
next
  case (js_take_res k s c r)
  then show ?case by (auto simp: take_job_res_def split: if_splits)
qed (auto intro!: progress_ok_dispose)

definition js_good :: "job_system \<Rightarrow> bool" where
  "js_good s \<longleftrightarrow> js_inv s \<and> progress_ok (ctl s)"

lemma start_progress: "js_start s \<Longrightarrow> progress_ok (ctl s)"
  by (auto simp: js_start_def progress_ok_def dt_control_jobs_init_def control_zero_def)

interpretation jobs_sys: invariant_system js_start js_step js_good
  by unfold_locales (auto simp: js_good_def intro: start_inv start_progress js_step_inv progress_ok_step)

lemma reach_inv:
  assumes "js_start s" and "js_step\<^sup>*\<^sup>* s t"
  shows "js_inv t" and "progress_ok (ctl t)"
  using jobs_sys.reach_invar [OF assms] by (simp_all add: js_good_def)


section \<open>Properties\<close>

text \<open>
  C12: In every interleaving of job creation, configuration, disposal, addition to any queue or reserved slot and
  cancellation with all the steps of all workers, no freed job is ever read or written, and
  every allocated job has exactly one owner: a queue, a worker's slot, a reserved slot, a reserved
  worker or the code that created it. So no job is leaked or freed twice. No progress object outlives the job
  it cancels; a cancellation is one step that goes through a progress object which still exists, or comes from the
  running callback of the job itself. A job is given a progress object at most once, before it is added.
\<close>

theorem jobs_memory_safe:
  assumes "js_start s" and "js_step\<^sup>*\<^sup>* s t"
  shows "\<not> fault (ctl t) \<and>
    (\<forall>i. count (ctl_refs (ctl t) + rest_refs t) i = (if heap (ctl t) i = None then 0 else 1)) \<and>
    (\<forall>p i. progress_data (ctl t) p = Some (Some i) \<longrightarrow> (\<exists>j. heap (ctl t) i = Some j \<and> progress j = Some p))"
proof (intro conjI allI impI)
  note ok = js_invD(1) [OF reach_inv(1) [OF assms]]
  show "\<not> fault (ctl t)" using ok by (simp add: ctl_ok_def)
  show "count (ctl_refs (ctl t) + rest_refs t) i = (if heap (ctl t) i = None then 0 else 1)" for i
    using ok by (simp add: ctl_ok_def refs_ok_def)
  show "\<exists>j. heap (ctl t) i = Some j \<and> progress j = Some p" if "progress_data (ctl t) p = Some (Some i)" for p i
    using progress_okD [OF reach_inv(2) [OF assms] that] by (auto simp: prog_of_def bind_eq_Some_conv)
qed

text \<open>A run of one worker: an export job is created, queued, scheduled.\<close>

definition ex_js0 :: job_system where
  "ex_js0 = \<lparr>ctl = dt_control_jobs_init 1 control_zero, owned = {#}, w_local = replicate 1 None,
     r_local = replicate DT_CTL_WORKER_RESERVED None\<rparr>"

text \<open>A client creates a job and adds it to a queue.\<close>

definition submit :: "job_id \<Rightarrow> string \<Rightarrow> nat \<Rightarrow> job_system \<Rightarrow> job_system" where
  "submit i msg q s = s\<lparr>ctl := fst (dt_control_add_job q (Some i) 0 (fst (dt_control_job_create (Some i) 1 msg 2 (ctl s))))\<rparr>"

definition ex_js2 :: job_system where
  "ex_js2 = submit 7 ''export'' DT_JOB_QUEUE_USER_EXPORT ex_js0"

definition ex_js3 :: job_system where
  "ex_js3 = ex_js2\<lparr>ctl := fst (control_schedule_job 0 (ctl ex_js2)), w_local := [Some (7, Scheduled)]\<rparr>"

lemma ex_js_start: "js_start ex_js0"
  by (auto simp: js_start_def ex_js0_def)

lemma submit_steps:
  assumes "heap (ctl s) i = None" and "control_running (ctl s)"
  shows "js_step\<^sup>*\<^sup>* s (submit i msg q s)"
proof -
  let ?s = "s\<lparr>ctl := fst (dt_control_job_create (Some i) 1 msg 2 (ctl s)), owned := add_mset i (owned s)\<rparr>"
  have 1: "js_step s ?s"
    by (rule js_create [where ex = 1 and msg = msg and view = 2])
      (use assms in \<open>simp_all add: dt_control_job_create_def\<close>)
  have "js_step ?s (?s\<lparr>ctl := fst (dt_control_add_job q (Some i) 0 (ctl ?s)), owned := owned s\<rparr>)"
    by (rule js_add) simp
  with 1 show ?thesis by (simp add: submit_def)
qed

lemma ex_js_run: "js_step\<^sup>*\<^sup>* ex_js0 ex_js3"
proof (rule rtranclp.rtrancl_into_rtrancl)
  show "js_step\<^sup>*\<^sup>* ex_js0 ex_js2"
    unfolding ex_js2_def by (rule submit_steps) code_simp+
  have r: "snd (control_schedule_job 0 (ctl ex_js2)) = Some 7" by code_simp
  have w: "w_local ex_js2 = [None]" by (simp add: ex_js2_def submit_def ex_js0_def)
  have "js_step ex_js2 (ex_js2\<lparr>ctl := fst (control_schedule_job 0 (ctl ex_js2)),
      w_local := (w_local ex_js2)[0 := map_option (\<lambda>i. (i, Scheduled)) (snd (control_schedule_job 0 (ctl ex_js2)))]\<rparr>)"
    by (rule js_schedule) (simp_all add: w)
  then show "js_step ex_js2 ex_js3" unfolding ex_js3_def r w by simp
qed

theorem jobs_memory_safe_witness:
  "\<not> fault (ctl ex_js3) \<and> heap (ctl ex_js3) 7 \<noteq> None \<and> count (ctl_refs (ctl ex_js3) + rest_refs ex_js3) 7 = 1"
proof -
  have "heap (ctl ex_js3) 7 \<noteq> None" by code_simp
  with jobs_memory_safe [OF ex_js_start ex_js_run] show ?thesis by simp
qed

text \<open>
  At most one export job is in the hands of the workers at any time, and the flag that holds
  further export jobs back says exactly whether there is one.
\<close>

theorem one_export_at_a_time:
  assumes "js_start s" and "js_step\<^sup>*\<^sup>* s t"
  shows "length (filter (\<lambda>x. \<exists>i j. x = Some i \<and> heap (ctl t) i = Some j \<and> job_queue j = DT_JOB_QUEUE_USER_EXPORT)
      (sched (ctl t))) = (if export_scheduled (ctl t) then 1 else 0)"
proof -
  have "export_ok (ctl t)"
    using js_invD(1) [OF reach_inv(1) [OF assms]] by (simp add: ctl_ok_def)
  moreover have "length (filter (\<lambda>x. \<exists>i j. x = Some i \<and> heap c i = Some j \<and> job_queue j = q) xs) =
      sum_list (map (\<lambda>x. case x of None \<Rightarrow> 0 | Some i \<Rightarrow> if queue_of (keys c) i = Some q then 1 else 0) xs)" for c q xs
    by (induction xs) (auto simp: queue_of_def keys_def jkey_def split: option.splits)
  ultimately show ?thesis by (simp add: export_ok_def exports_def [abs_def])
qed

theorem one_export_at_a_time_witness:
  "export_scheduled (ctl ex_js3) \<and>
   length (filter (\<lambda>x. \<exists>i j. x = Some i \<and> heap (ctl ex_js3) i = Some j \<and> job_queue j = DT_JOB_QUEUE_USER_EXPORT)
     (sched (ctl ex_js3))) = 1"
proof -
  have "export_scheduled (ctl ex_js3)" by code_simp
  with one_export_at_a_time [OF ex_js_start ex_js_run] show ?thesis by simp
qed

text \<open>
  The bookkeeping is exact in every reachable state: the recorded lengths are those of the
  queues, the number of pending jobs is the number of queued jobs and of jobs held by workers, and
  the system foreground queue never has more than 30 jobs.
\<close>

theorem jobs_counts:
  assumes "js_start s" and "js_step\<^sup>*\<^sup>* s t"
  shows "queue_length (ctl t) = map length (queues (ctl t)) \<and>
    pending_jobs (ctl t) = int (sum_list (queue_length (ctl t)) + length (filter (\<lambda>x. x \<noteq> None) (sched (ctl t)))) \<and>
    length (queues (ctl t) ! DT_JOB_QUEUE_SYSTEM_FG) \<le> DT_CONTROL_MAX_JOBS"
  using js_invD(1,2) [OF reach_inv(1) [OF assms]]
  by (simp add: ctl_ok_def queues_ok_def pending_ok_def fg_bound_def)

theorem jobs_counts_witness:
  "queue_length (ctl ex_js3) = [0, 0, 0, 0, 0] \<and> pending_jobs (ctl ex_js3) = 1"
proof -
  have "queue_length (ctl ex_js3) = [0, 0, 0, 0, 0]" "sched (ctl ex_js3) = [Some 7]" by code_simp+
  with jobs_counts [OF ex_js_start ex_js_run] show ?thesis by simp
qed

text \<open>
  Deduplication: no two different jobs among those of the system foreground queue and those the
  workers took from it are equal in the sense of \<open>_control_job_equal\<close>.
\<close>

theorem system_fg_deduplicated:
  assumes "js_start s" and "js_step\<^sup>*\<^sup>* s t"
    and "i \<in> fg_jobs (ctl t)" and "j \<in> fg_jobs (ctl t)" and "i \<noteq> j"
  shows "\<not> jobs_equal (ctl t) i (Some j)"
  using js_invD(1) [OF reach_inv(1) [OF assms(1,2)]] assms(3-)
  by (simp add: ctl_ok_def dedup_ok_def)

definition ex_fg :: job_system where
  "ex_fg = submit 8 ''thumbnail 2'' DT_JOB_QUEUE_SYSTEM_FG (submit 7 ''thumbnail 1'' DT_JOB_QUEUE_SYSTEM_FG ex_js0)"

theorem system_fg_deduplicated_witness:
  "queues (ctl ex_fg) ! DT_JOB_QUEUE_SYSTEM_FG = [8, 7] \<and> \<not> jobs_equal (ctl ex_fg) 8 (Some 7)"
proof -
  have run: "js_step\<^sup>*\<^sup>* ex_js0 ex_fg"
    unfolding ex_fg_def
  proof (rule rtranclp_trans)
    show "js_step\<^sup>*\<^sup>* ex_js0 (submit 7 ''thumbnail 1'' DT_JOB_QUEUE_SYSTEM_FG ex_js0)"
      by (rule submit_steps) code_simp+
    show "js_step\<^sup>*\<^sup>* (submit 7 ''thumbnail 1'' DT_JOB_QUEUE_SYSTEM_FG ex_js0)
       (submit 8 ''thumbnail 2'' DT_JOB_QUEUE_SYSTEM_FG (submit 7 ''thumbnail 1'' DT_JOB_QUEUE_SYSTEM_FG ex_js0))"
      by (rule submit_steps) code_simp+
  qed
  have q: "queues (ctl ex_fg) ! DT_JOB_QUEUE_SYSTEM_FG = [8, 7]" by code_simp
  then have "8 \<in> fg_jobs (ctl ex_fg)" "7 \<in> fg_jobs (ctl ex_fg)" by (simp_all add: fg_jobs_def)
  from system_fg_deduplicated [OF ex_js_start run this] q show ?thesis by simp
qed

text \<open>The heads of the queues that were passed over, and nothing else, get one more.\<close>

definition head_of :: "dt_control_t \<Rightarrow> nat \<Rightarrow> job_id \<Rightarrow> bool" where
  "head_of c p i \<longleftrightarrow> queues c ! p \<noteq> [] \<and> hd (queues c ! p) = i"

definition heads_unique :: "dt_control_t \<Rightarrow> nat set \<Rightarrow> bool" where
  "heads_unique c Q \<longleftrightarrow> (\<forall>p\<in>Q. \<forall>p'\<in>Q. \<forall>i. head_of c p i \<longrightarrow> head_of c p' i \<longrightarrow> p = p')"

lemma bump_heads_heap:
  assumes "distinct qs" and "heads_unique c (set qs)"
  shows "heap (bump_heads w qs c) i = (if \<exists>p\<in>set qs. p \<noteq> w \<and> head_of c p i
    then map_option (\<lambda>j. j\<lparr>priority := priority j + 1\<rparr>) (heap c i) else heap c i)"
  using assms
proof (induction qs arbitrary: c)
  case (Cons q qs)
  let ?u = "\<lambda>k. upd_job k (\<lambda>j. j\<lparr>priority := priority j + 1\<rparr>) c"
  show ?case
  proof (cases "q = w \<or> queues c ! q = []")
    case True
    have "bump_heads w (q # qs) c = bump_heads w qs c" using True by auto
    moreover have "\<not> (q \<noteq> w \<and> head_of c q i)" using True by (auto simp: head_of_def)
    moreover have "heap (bump_heads w qs c) i = (if \<exists>p\<in>set qs. p \<noteq> w \<and> head_of c p i
        then map_option (\<lambda>j. j\<lparr>priority := priority j + 1\<rparr>) (heap c i) else heap c i)"
      using Cons.prems by (intro Cons.IH) (auto simp: heads_unique_def)
    ultimately show ?thesis by auto
  next
    case False
    let ?k = "hd (queues c ! q)"
    have hk: "head_of c q ?k" using False by (simp add: head_of_def)
    have h: "head_of (?u ?k) p j = head_of c p j" for p j by (simp add: head_of_def)
    have step: "bump_heads w (q # qs) c = bump_heads w qs (?u ?k)" using False by (cases "queues c ! q") auto
    have ih: "heap (bump_heads w qs (?u ?k)) i = (if \<exists>p\<in>set qs. p \<noteq> w \<and> head_of c p i
        then map_option (\<lambda>j. j\<lparr>priority := priority j + 1\<rparr>) (heap (?u ?k) i) else heap (?u ?k) i)"
      using Cons.IH [of "?u ?k"] Cons.prems by (simp add: h heads_unique_def)
    show ?thesis
    proof (cases "i = ?k")
      case True
      have "\<not> (\<exists>p\<in>set qs. head_of c p i)" using Cons.prems(1,2) hk True
        unfolding heads_unique_def by (metis distinct.simps(2) list.set_intros)
      then show ?thesis using ih step True hk False
        by (auto simp: upd_job_def with_job_def split: option.splits)
    next
      case no: False
      then have "heap (?u ?k) i = heap c i" by (simp add: upd_job_def with_job_def split: option.split)
      moreover have "\<not> head_of c q i" using no by (auto simp: head_of_def)
      ultimately show ?thesis using ih step by auto
    qed
  qed
qed simp


lemma queued_unique:
  "ctl_ok d c rest \<Longrightarrow> p < 5 \<Longrightarrow> q < 5 \<Longrightarrow> i \<in> set (queues c ! p) \<Longrightarrow> i \<in> set (queues c ! q) \<Longrightarrow> p = q"
  unfolding ctl_ok_def queues_ok_def by (metis option.inject)

text \<open>
  C28: In every reachable state, the scheduler returns nothing exactly when every queue is empty,
  the export queue not counting while an export job runs. Otherwise it takes the head of a queue
  whose head has the greatest priority, the first such queue in the order of the enumeration,
  removes it from that queue only, and adds one, modulo 256, to the priority of the head of every
  other queue and of no other job.
\<close>

theorem schedule_job_spec:
  assumes "js_start s0" and "js_step\<^sup>*\<^sup>* s0 s" and c: "c = ctl s"
    and run: "control_schedule_job t c = (c', r)"
  shows "case r of
      None \<Rightarrow> c' = c \<and> (\<forall>p<DT_JOB_QUEUE_MAX. \<not> eligible c p)
    | Some i \<Rightarrow> \<exists>q<DT_JOB_QUEUE_MAX. eligible c q \<and> i = hd (queues c ! q) \<and>
        (\<forall>p<DT_JOB_QUEUE_MAX. eligible c p \<longrightarrow> head_priority c p \<le> head_priority c q \<and>
           (p < q \<longrightarrow> head_priority c p < head_priority c q)) \<and>
        queues c' = (queues c)[q := tl (queues c ! q)] \<and>
        (\<forall>k. heap c' k = (if \<exists>p<DT_JOB_QUEUE_MAX. p \<noteq> q \<and> head_of c p k
           then map_option (\<lambda>j. j\<lparr>priority := priority j + 1\<rparr>) (heap c k) else heap c k))"
proof (cases "scan_heads c [0..<5] (- 1) None")
  case None
  have ok: "ctl_ok 0 c (rest_refs s)" using js_invD(1) [OF reach_inv(1) [OF assms(1,2)]] c by simp
  from None run scan_heads_spec [of c] show ?thesis by (auto simp: control_schedule_job_eq [OF ok] scan_best_def)
next
  case (Some w)
  obtain q i where w: "w = (q, i)" by (cases w)
  have ok: "ctl_ok 0 c (rest_refs s)" using js_invD(1) [OF reach_inv(1) [OF assms(1,2)]] c by simp
  have five: "length (queues c) = 5" using ok by (simp add: ctl_defs)
  let ?c1 = "c\<lparr>queues := (queues c)[q := tl (queues c ! q)],
      queue_length := (queue_length c)[q := queue_length c ! q - 1], sched := (sched c)[t := Some i],
      export_scheduled := (if q = DT_JOB_QUEUE_USER_EXPORT then True else export_scheduled c)\<rparr>"
  have c': "c' = bump_heads q [0..<5] ?c1" and r: "r = Some i"
    using run Some w by (auto simp: control_schedule_job_eq [OF ok] Let_def)
  have best: "q < 5" "eligible c q" "i = hd (queues c ! q)"
    "\<forall>p<5. eligible c p \<longrightarrow> head_priority c p \<le> head_priority c q \<and> (p < q \<longrightarrow> head_priority c p < head_priority c q)"
    using scan_heads_spec [of c] Some w by (auto simp: scan_best_def)
  have ho: "head_of ?c1 p k = head_of c p k" if "p \<noteq> q" for p k using that by (simp add: head_of_def)
  have "heap c' k = (if \<exists>p<5. p \<noteq> q \<and> head_of c p k
      then map_option (\<lambda>j. j\<lparr>priority := priority j + 1\<rparr>) (heap c k) else heap c k)" for k
  proof -
    have mem: "k \<in> set (queues c ! p)" if "head_of ?c1 p k" for p k
      using that best(1) five by (cases "p = q") (auto simp: head_of_def intro: list.set_sel)
    have e1: "heap c' k = (if \<exists>p\<in>set [0..<5]. p \<noteq> q \<and> head_of ?c1 p k
        then map_option (\<lambda>j. j\<lparr>priority := priority j + 1\<rparr>) (heap ?c1 k) else heap ?c1 k)"
      unfolding c'
    proof (rule bump_heads_heap)
      show "heads_unique ?c1 (set [0..<5])"
        unfolding heads_unique_def using queued_unique [OF ok] mem by (metis atLeastLessThan_iff set_upt)
    qed simp
    have e2: "(\<exists>p\<in>set [0..<5]. p \<noteq> q \<and> head_of ?c1 p k) = (\<exists>p<5. p \<noteq> q \<and> head_of c p k)" using ho by auto
    have e3: "heap ?c1 k = heap c k" by simp
    show ?thesis using e1 unfolding e2 e3 .
  qed
  with best r c' show ?thesis by auto
qed

theorem schedule_job_spec_witness:
  "\<exists>c'. control_schedule_job 0 (ctl ex_js2) = (c', Some 7) \<and> queues c' = replicate 5 []"
proof -
  obtain c' r where run: "control_schedule_job 0 (ctl ex_js2) = (c', r)" by (cases "control_schedule_job 0 (ctl ex_js2)")
  have r: "snd (control_schedule_job 0 (ctl ex_js2)) = Some 7" "queues (ctl ex_js2) = [[], [], [], [7], []]" by code_simp+
  have steps: "js_step\<^sup>*\<^sup>* ex_js0 ex_js2" unfolding ex_js2_def by (rule submit_steps) code_simp+
  from schedule_job_spec [OF ex_js_start steps refl run] run r(1)
  obtain q where "q < 5" "eligible (ctl ex_js2) q" "queues c' = (queues (ctl ex_js2))[q := tl (queues (ctl ex_js2) ! q)]"
    by auto
  then have "q = 3" "queues c' = replicate 5 []"
    by (auto simp: eligible_def r(2) less_Suc_eq numeral_eq_Suc split: if_splits)
  with run r(1) show ?thesis by simp
qed


section \<open>Draining the queues\<close>

text \<open>A worker that takes one job after another; \<open>r k\<close> is what the \<open>k\<close>-th returns.\<close>

primrec run_jobs :: "nat \<Rightarrow> (nat \<Rightarrow> int) \<Rightarrow> nat \<Rightarrow> dt_control_t \<Rightarrow> dt_control_t" where
  "run_jobs t r 0 c = c"
| "run_jobs t r (Suc k) c = fst (control_run_job t (r k) (run_jobs t r k c))"

definition waiting :: "dt_control_t \<Rightarrow> nat" where
  "waiting c = sum_list (map length (queues c))"

definition all_idle :: "dt_control_t \<Rightarrow> bool" where
  "all_idle c \<longleftrightarrow> (\<forall>x\<in>set (sched c). x = None)"

lemma idle_no_export:
  assumes "ctl_ok d c rest" and "all_idle c"
  shows "\<not> export_scheduled c"
proof -
  have "sum_list (map (exports (keys c)) xs) = 0" if "\<forall>x\<in>set xs. x = None" for xs
    using that by (induction xs) (auto simp: exports_def)
  then have "sum_list (map (exports (keys c)) (sched c)) = 0" using assms(2) by (simp only: all_idle_def)
  moreover have "sum_list (map (exports (keys c)) (sched c)) = (if export_scheduled c then 1 else 0)"
    using assms(1) by (simp only: ctl_ok_def export_ok_def)
  ultimately show ?thesis by (metis zero_neq_one)
qed

lemma run_job_queues:
  "queues (run_job_finish t i c) = queues c" "sched (run_job_finish t i c) = (sched c)[t := None]"
  "queues (control_job_execute i r c) = queues c" "sched (control_job_execute i r c) = sched c"
  by (simp_all add: run_job_finish_def with_job_def Let_def control_job_execute_def execute_begin_def execute_end_def
      split: option.split)

text \<open>The jobs that were executed, in order, and the jobs in the queues.\<close>

definition executed :: "job_event list \<Rightarrow> job_id list" where
  "executed es = concat (map (\<lambda>e. case e of ExecuteReturned i _ \<Rightarrow> [i] | _ \<Rightarrow> []) es)"

definition queued :: "dt_control_t \<Rightarrow> job_id multiset" where
  "queued c = sum_list (map mset (queues c))"

definition state_of :: "dt_control_t \<Rightarrow> job_id \<Rightarrow> dt_job_state_t option" where
  "state_of c i = map_option job_state (heap c i)"

lemma executed_simps [simp]:
  "executed (es @ es') = executed es @ executed es'"
  "executed (StateChanged i st # es) = executed es" "executed (ProgressDestroyed p # es) = executed es"
  "executed (ParamsDestroyed i # es) = executed es" "executed (ExecuteReturned i r # es) = i # executed es"
  "executed [] = []"
  by (simp_all add: executed_def)

lemma executed_frame [simp]:
  "executed (events (upd_job i f c)) = executed (events c)"
  "executed (events (control_job_set_state i st c)) = executed (events c)"
  "executed (events (dt_control_job_dispose x c)) = executed (events c)"
proof -
  show set: "executed (events (control_job_set_state i st c)) = executed (events c)" for i c st
    by (auto simp: control_job_set_state_def with_job_def Let_def put_job_def log_event_def dt_control_progress_destroy_def
        split: option.split)
  show "executed (events (upd_job i f c)) = executed (events c)"
    by (auto simp: upd_job_def with_job_def put_job_def split: option.split)
  show "executed (events (dt_control_job_dispose x c)) = executed (events c)"
    by (cases x) (auto simp: dt_control_job_dispose_def dispose_live_def with_job_def Let_def set put_job_def log_event_def
        dt_control_progress_destroy_def split: option.split)
qed

lemma executed_execute [simp]: "executed (events (control_job_execute i r c)) = executed (events c) @ [i]"
  by (simp add: control_job_execute_def execute_begin_def execute_end_def) (simp add: log_event_def)

lemma executed_finish [simp]: "executed (events (run_job_finish t i c)) = executed (events c)"
  by (simp add: run_job_finish_def Let_def with_job_def split: option.split)

lemma bump_heads_jobs [simp]:
  "executed (events (bump_heads w qs c)) = executed (events c)" "state_of (bump_heads w qs c) = state_of c"
proof (induction qs arbitrary: c)
  case (Cons q qs)
  have u: "state_of (upd_job i (\<lambda>j. j\<lparr>priority := priority j + 1\<rparr>) c) = state_of c" for i c
    by (auto simp: fun_eq_iff state_of_def upd_job_def with_job_def split: option.split)
  { case 1 show ?case by (cases "queues c ! q") (simp_all add: Cons.IH(1))
  next
    case 2 show ?case by (cases "queues c ! q") (simp_all add: Cons.IH(2) u) }
qed simp_all

lemma heap_after_run:
  assumes "k \<noteq> i"
  shows "heap (run_job_finish t i c) k = heap c k" and "heap (control_job_execute i r c) k = heap c k"
proof -
  have dispose: "heap (dt_control_job_dispose (Some i) c) k = heap c k" for c
    using assms by (auto simp: dt_control_job_dispose_def dispose_live_def with_job_def Let_def split: option.split)
  show "heap (run_job_finish t i c) k = heap c k"
    by (auto simp: run_job_finish_def Let_def with_job_def dispose split: option.split)
  show "heap (control_job_execute i r c) k = heap c k"
    using assms by (auto simp: control_job_execute_def execute_begin_def execute_end_def upd_job_def with_job_def
        split: option.split)
qed

lemma run_job_finish_frees: "heap (run_job_finish t i c) i = None"
proof -
  have "heap (dt_control_job_dispose (Some i) c) i = None" for c using keys_dispose [of i c] by (simp flip: keys_None)
  then show ?thesis by (simp add: run_job_finish_def Let_def with_job_def split: option.split)
qed

text \<open>One call of a worker takes a job out of the queues, executes it unless it was cancelled, and frees it.\<close>

lemma run_job_drains:
  fixes r :: int
  assumes ok: "ctl_ok 0 c rest" and idle: "all_idle c" and t: "t < length (sched c)"
  defines "c' \<equiv> fst (control_run_job t r c)"
  shows "ctl_ok 0 c' rest" and "sched c' = sched c"
    and "(waiting c = 0 \<and> c' = c) \<or>
      (\<exists>i. queued c = add_mset i (queued c') \<and> waiting c = Suc (waiting c') \<and> heap c' i = None \<and>
        executed (events c') = executed (events c) @ (if state_of c i = Some DT_JOB_STATE_QUEUED then [i] else []) \<and>
        (\<forall>k. k \<noteq> i \<longrightarrow> state_of c' k = state_of c k))"
proof -
  have none: "sched c ! t = None" using idle t by (simp add: all_idle_def)
  obtain c1 x where S: "control_schedule_job t c = (c1, x)" by (cases "control_schedule_job t c")
  note S_ok = control_schedule_job_ok [OF ok t none S]
  note S_eq = S [unfolded control_schedule_job_eq [OF ok]]
  have five: "length (queues c) = 5" using ok by (simp add: ctl_defs)
  have "ctl_ok 0 c' rest \<and> sched c' = sched c \<and> ((waiting c = 0 \<and> c' = c) \<or>
      (\<exists>i. queued c = add_mset i (queued c') \<and> waiting c = Suc (waiting c') \<and> heap c' i = None \<and>
        executed (events c') = executed (events c) @ (if state_of c i = Some DT_JOB_STATE_QUEUED then [i] else []) \<and>
        (\<forall>k. k \<noteq> i \<longrightarrow> state_of c' k = state_of c k)))"
  proof (cases x)
    case None
    then have scan: "scan_heads c [0..<5] (- 1) None = None" and c1: "c1 = c"
      using S_eq by (auto simp: Let_def split: option.splits)
    then have "\<forall>p<5. queues c ! p = []"
      using scan_heads_spec [of c] idle_no_export [OF ok idle] by (auto simp: scan_best_def eligible_def)
    then have "\<forall>q\<in>set (queues c). q = []" using five by (auto simp: in_set_conv_nth)
    then have "waiting c = 0" by (simp add: waiting_def)
    then show ?thesis using ok None c1 S by (simp add: c'_def control_run_job_def)
  next
    case (Some i)
    then obtain q where w: "scan_heads c [0..<5] (- 1) None = Some (q, i)"
      using S_eq by (auto simp: Let_def split: option.splits)
    then have q: "q < 5" "queues c ! q \<noteq> []" "hd (queues c ! q) = i"
      using scan_heads_spec [of c] by (auto simp: scan_best_def eligible_def)
    have q1: "queues c1 = (queues c)[q := tl (queues c ! q)]" and st1: "state_of c1 = state_of c"
      and ev1: "executed (events c1) = executed (events c)"
      using S_eq w by (auto simp: Let_def) (auto simp: state_of_def fun_eq_iff)
    let ?c2 = "execute_queued i r c1"
    have s1: "sched c1 ! t = Some i" "t < length (sched c1)" using S_ok(2) Some t by simp_all
    then have "heap c1 i \<noteq> None" using live_in_ctl(2) [OF S_ok(1)] by (metis nth_mem)
    then obtain j where j: "heap c1 i = Some j" by blast
    have ok2: "ctl_ok 0 ?c2 rest" using S_ok(1) j by (intro execute_queued_ok) simp_all
    have c': "c' = run_job_finish t i ?c2" using S Some by (simp add: c'_def control_run_job_def)
    have s2: "sched ?c2 = sched c1" "queues ?c2 = queues c1" by (simp_all add: execute_queued_live [OF j] run_job_queues)
    have ctl: "ctl_ok 0 c' rest" unfolding c' by (rule run_job_finish_ok [OF ok2]) (use s1 s2 in simp_all)
    have sched: "sched c' = sched c"
      unfolding c' run_job_queues s2 S_ok(2) using none t by (metis list_update_id list_update_overwrite)
    have tl: "queues c ! q = i # tl (queues c ! q)" using q(2,3) by (metis list.collapse)
    have l: "q < length (queues c)" using q five by simp
    have wait: "waiting c = Suc (waiting c')"
    proof -
      have "length (queues c ! q) = Suc (length (tl (queues c ! q)))" by (metis tl length_Cons)
      with sum_length_update [OF l, of "tl (queues c ! q)"] show ?thesis
        unfolding waiting_def c' run_job_queues s2 q1 by linarith
    qed
    have "queued c' + add_mset i (mset (tl (queues c ! q))) = queued c + mset (tl (queues c ! q))"
      using sum_list_update_monoid [OF l, of mset "tl (queues c ! q)"] tl
      unfolding queued_def c' run_job_queues s2 q1 by (metis mset.simps(2))
    then have que: "queued c = add_mset i (queued c')" by simp
    have "executed (events c') = executed (events c) @ (if state_of c i = Some DT_JOB_STATE_QUEUED then [i] else [])"
      unfolding c' executed_finish st1 [symmetric] ev1 [symmetric] by (simp add: execute_queued_live [OF j] state_of_def j)
    moreover have "state_of c' k = state_of c k" if "k \<noteq> i" for k
      unfolding c' st1 [symmetric] using heap_after_run [OF that] by (simp add: state_of_def execute_queued_live [OF j])
    ultimately show ?thesis using ctl sched wait que run_job_finish_frees unfolding c' by blast
  qed
  then show "ctl_ok 0 c' rest" "sched c' = sched c"
    "(waiting c = 0 \<and> c' = c) \<or>
      (\<exists>i. queued c = add_mset i (queued c') \<and> waiting c = Suc (waiting c') \<and> heap c' i = None \<and>
        executed (events c') = executed (events c) @ (if state_of c i = Some DT_JOB_STATE_QUEUED then [i] else []) \<and>
        (\<forall>k. k \<noteq> i \<longrightarrow> state_of c' k = state_of c k))" by simp_all
qed

lemma waiting_queued: "size (queued c) = waiting c"
proof -
  have "size (sum_list (map mset qs)) = sum_list (map length qs)" for qs :: "job_id list list" by (induction qs) simp_all
  then show ?thesis by (simp add: queued_def waiting_def)
qed

text \<open>The jobs in the queues that are not cancelled.\<close>

definition runnable :: "dt_control_t \<Rightarrow> job_id multiset" where
  "runnable c = filter_mset (\<lambda>i. state_of c i = Some DT_JOB_STATE_QUEUED) (queued c)"

lemma queued_once:
  assumes "ctl_ok d c rest" and "queued c = add_mset i Q"
  shows "i \<notin># Q"
proof -
  have "refs_ok (keys c) (add_mset i (Q + (sum_list (map optm (sched c)) + sum_list (map optm (job_res c)) + rest)))"
    using assms by (simp add: ctl_ok_def ctl_refs_def queued_def ac_simps)
  from refs_ok_once [OF this] show ?thesis by simp
qed

lemma run_jobs_drain:
  assumes "ctl_ok 0 c rest" and "all_idle c" and "t < length (sched c)"
  shows "ctl_ok 0 (run_jobs t r k c) rest \<and> sched (run_jobs t r k c) = sched c \<and> waiting (run_jobs t r k c) = waiting c - k \<and>
    mset (executed (events (run_jobs t r k c))) + runnable (run_jobs t r k c) = mset (executed (events c)) + runnable c \<and>
    (\<forall>i. i \<in># queued c \<longrightarrow> i \<in># queued (run_jobs t r k c) \<or> heap (run_jobs t r k c) i = None)"
proof (induction k)
  case (Suc k)
  let ?c = "run_jobs t r k c" and ?c' = "run_jobs t r (Suc k) c"
  have idle: "all_idle ?c" "t < length (sched ?c)" using Suc assms by (simp_all add: all_idle_def)
  have ok: "ctl_ok 0 ?c rest" using Suc by simp
  note D = run_job_drains [OF ok idle, of "r k", folded run_jobs.simps(2)]
  from D(3) show ?case
  proof (elim disjE conjE exE)
    assume "waiting ?c = 0" "?c' = ?c"
    with Suc show ?thesis by simp
  next
    fix i assume i: "queued ?c = add_mset i (queued ?c')" "waiting ?c = Suc (waiting ?c')" "heap ?c' i = None"
      "executed (events ?c') = executed (events ?c) @ (if state_of ?c i = Some DT_JOB_STATE_QUEUED then [i] else [])"
      "\<forall>k. k \<noteq> i \<longrightarrow> state_of ?c' k = state_of ?c k"
    have "i \<notin># queued ?c'" by (rule queued_once [OF ok i(1)])
    then have "runnable ?c' = filter_mset (\<lambda>i. state_of ?c i = Some DT_JOB_STATE_QUEUED) (queued ?c')"
      unfolding runnable_def using i(5) by (intro filter_mset_cong refl) metis
    then have run: "mset (executed (events ?c')) + runnable ?c' = mset (executed (events ?c)) + runnable ?c"
      unfolding i(4) by (simp add: runnable_def i(1))
    have gone: "k = i \<or> k \<in># queued ?c' \<or> heap ?c' k = None" if "k \<in># queued ?c \<or> heap ?c k = None" for k
    proof (cases "k = i")
      case False
      then have "heap ?c k = None \<longleftrightarrow> heap ?c' k = None" using i(5) by (metis map_option_is_None state_of_def)
      then show ?thesis using that i(1) by auto
    qed simp
    have "waiting ?c' = waiting c - Suc k"
    proof -
      have "Suc (waiting ?c') = waiting c - k" using Suc i(2) by metis
      then show ?thesis by arith
    qed
    moreover have "j \<in># queued ?c' \<or> heap ?c' j = None" if "j \<in># queued c" for j
    proof (cases "j = i")
      case True
      with i(3) show ?thesis by simp
    next
      case False
      have "j \<in># queued ?c \<or> heap ?c j = None"
        using mp [OF spec [OF conjunct2 [OF conjunct2 [OF conjunct2 [OF conjunct2 [OF Suc]]]], of j] that] .
      from gone [OF this] False show ?thesis by (simp only: False simp_thms)
    qed
    moreover have "sched ?c' = sched c" using D(2) conjunct1 [OF conjunct2 [OF Suc]] by simp
    moreover have "mset (executed (events ?c')) + runnable ?c' = mset (executed (events c)) + runnable c"
      using run conjunct1 [OF conjunct2 [OF conjunct2 [OF conjunct2 [OF Suc]]]] by simp
    ultimately show ?thesis using D(1) by (intro conjI allI impI) 
  qed
qed (use assms in simp)

text \<open>
  C17: No queued job is stuck: from any reachable state in which no worker is busy, one worker that keeps taking jobs has taken
  all of them after as many steps as there are jobs in the queues, whatever they return: every one of them was
  executed exactly once, except those that had been cancelled, which were not executed, and every one was freed.
  Nothing else was executed; then every queue is empty, the counter of pending jobs is 0 and a further call finds nothing
  to do.
\<close>

theorem worker_drains_queues:
  assumes "js_start s0" and "js_step\<^sup>*\<^sup>* s0 s" and "all_idle (ctl s)" and "t < length (sched (ctl s))"
    and "c' = run_jobs t r (waiting (ctl s)) (ctl s)"
  shows "queues c' = replicate DT_JOB_QUEUE_MAX [] \<and> pending_jobs c' = 0 \<and> \<not> fault c' \<and>
    control_run_job t x c' = (c', True) \<and>
    mset (executed (events c')) = mset (executed (events (ctl s))) +
      filter_mset (\<lambda>i. state_of (ctl s) i = Some DT_JOB_STATE_QUEUED) (queued (ctl s)) \<and>
    (\<forall>i. i \<in># queued (ctl s) \<longrightarrow> heap c' i = None)"
proof -
  have ok: "ctl_ok 0 (ctl s) (rest_refs s)" using js_invD(1) [OF reach_inv(1) [OF assms(1,2)]] .
  note D = run_jobs_drain [OF ok assms(3,4), of r "waiting (ctl s)", folded assms(5)]
  have q: "queued c' = {#}" using D waiting_queued [of c'] by simp
  have ok': "ctl_ok 0 c' (rest_refs s)" and w: "waiting c' = 0" and idle: "all_idle c'" and t: "t < length (sched c')"
    using D assms(3,4) by (simp_all add: all_idle_def)
  have five: "length (queues c') = 5" using ok' by (simp add: ctl_defs)
  have empty: "queues c' = replicate 5 []"
    using w five by (intro replicate_eqI) (auto simp: waiting_def)
  have "length (filter (\<lambda>x. x \<noteq> None) (sched c')) = 0" using idle by (auto simp: all_idle_def)
  then have "pending_jobs c' = 0" using ok' w by (simp add: ctl_ok_def pending_ok_def waiting_def)
  moreover have "\<not> fault c'" using ok' by (simp add: ctl_ok_def)
  moreover have "control_run_job t x c' = (c', True)"
    by (simp add: control_run_job_def control_schedule_job_def empty upt_rec)
  moreover have "mset (executed (events c')) = mset (executed (events (ctl s))) + runnable (ctl s)"
    using D q by (simp add: runnable_def)
  moreover have "\<forall>i. i \<in># queued (ctl s) \<longrightarrow> heap c' i = None" using D q by simp
  ultimately show ?thesis using empty by (simp add: runnable_def)
qed

theorem worker_drains_queues_witness:
  "queues (run_jobs 0 (\<lambda>_. 0) 1 (ctl ex_js2)) = replicate 5 [] \<and>
   mset (executed (events (run_jobs 0 (\<lambda>_. 0) 1 (ctl ex_js2)))) = {#7#}"
proof -
  have steps: "js_step\<^sup>*\<^sup>* ex_js0 ex_js2" unfolding ex_js2_def by (rule submit_steps) code_simp+
  have "queues (ctl ex_js2) = [[], [], [], [7], []]" "\<forall>x\<in>set (sched (ctl ex_js2)). x = None" "0 < length (sched (ctl ex_js2))"
    by code_simp+
  then have "waiting (ctl ex_js2) = 1" "all_idle (ctl ex_js2)" "0 < length (sched (ctl ex_js2))"
    by (simp_all add: waiting_def all_idle_def)
  moreover have "state_of (ctl ex_js2) 7 = Some DT_JOB_STATE_QUEUED" "executed (events (ctl ex_js2)) = []" by code_simp+
  moreover have "queued (ctl ex_js2) = {#7#}" by (simp add: queued_def \<open>queues (ctl ex_js2) = _\<close>)
  ultimately show ?thesis using worker_drains_queues [OF ex_js_start steps, of 0 _ "\<lambda>_. 0" 0] by simp
qed

end
