(* ===== verification/Iop_Order_List.thy ===== *)
theory Iop_Order_List
  imports Prelude "HOL-Library.Sublist"
begin

text \<open>
  The order of the modules of a pixel pipe as a list of entries
  (\<open>src/common/iop_order.c\<close>): the two built-in orders, look-ups, the kind of a list, its
  renumbering, the text and binary forms it is stored in, the row of the \<open>module_order\<close> table
  and the merging of multiple instances. A C string is a list of characters; a fixed-size buffer
  keeps one less than its size. The database is a map from image ids to rows.
\<close>

section \<open>Entries\<close>

text \<open>
  The key of an entry is a union: a \<open>double\<close> in the built-in tables (here its bits), an \<open>int\<close>
  otherwise. Reading the \<open>int\<close> member of a key that holds a \<open>double\<close> gives its low 32 bits
  on a little-endian machine. The field \<open>name\<close> is only set by some functions; \<open>None\<close> is a
  name that was never written.
\<close>

datatype iop_order_key = IopOrderF "64 word" | IopOrder int

record dt_iop_order_entry_t =
  o_key :: iop_order_key
  operation :: string
  instance_nr :: int
  entry_name :: "string option"

primrec key_int :: "iop_order_key \<Rightarrow> int" where
  "key_int (IopOrderF b) = sint (ucast b :: 32 word)"
| "key_int (IopOrder n) = n"

abbreviation iop_order :: "dt_iop_order_entry_t \<Rightarrow> int" where
  "iop_order e \<equiv> key_int (o_key e)"

abbreviation OP_LEN :: nat where "OP_LEN \<equiv> 20"
abbreviation NAME_LEN :: nat where "NAME_LEN \<equiv> 25"

record dt_iop_order_rule_t =
  op_prev :: string
  op_next :: string

abbreviation DT_IOP_ORDER_CUSTOM :: int where "DT_IOP_ORDER_CUSTOM \<equiv> 0"
abbreviation DT_IOP_ORDER_RAW :: int where "DT_IOP_ORDER_RAW \<equiv> 1"
abbreviation DT_IOP_ORDER_JPG :: int where "DT_IOP_ORDER_JPG \<equiv> 2"
abbreviation DT_IOP_ORDER_LAST :: int where "DT_IOP_ORDER_LAST \<equiv> 3"

definition dt_iop_order_string :: "int \<Rightarrow> string" where
  "dt_iop_order_string order =
     (if DT_IOP_ORDER_LAST \<le> order then ''???''
      else [''custom'', ''0.9 RAW'', ''0.9 JPEG''] ! nat order)"


section \<open>The built-in orders\<close>

definition table_entry :: "64 word \<times> string \<Rightarrow> dt_iop_order_entry_t" where
  "table_entry p = \<lparr>o_key = IopOrderF (fst p), operation = snd p, instance_nr = 0, entry_name = None\<rparr>"

text \<open>The tables without the sentinel that ends them.\<close>

definition raw_order :: "dt_iop_order_entry_t list" where
  "raw_order = map table_entry
     [(0x3FF0000000000000, ''rawprepare''), (0x4008000000000000, ''temperature''),
      (0x4008CCCCC0000000, ''rasterfile''), (0x4010000000000000, ''highlights''),
      (0x4014000000000000, ''cacorrect''), (0x4018000000000000, ''hotpixels''),
      (0x401C000000000000, ''rawdenoise''), (0x4020000000000000, ''demosaic''),
      (0x4022000000000000, ''denoiseprofile''), (0x4024000000000000, ''bilateral''),
      (0x4026000000000000, ''rotatepixels''), (0x4028000000000000, ''scalepixels''),
      (0x402A000000000000, ''lens''), (0x402B000000000000, ''cacorrectrgb''),
      (0x402C000000000000, ''hazeremoval''), (0x402E000000000000, ''ashift''),
      (0x4030000000000000, ''flip''), (0x4030800000000000, ''enlargecanvas''),
      (0x4030B33340000000, ''overlay''), (0x4032000000000000, ''liquify''),
      (0x4034000000000000, ''retouch''), (0x4035000000000000, ''exposure''),
      (0x4036000000000000, ''mask_manager''), (0x4038000000000000, ''toneequal''),
      (0x4038800000000000, ''crop''), (0x4039000000000000, ''graduatednd''),
      (0x403A000000000000, ''profile_gamma''), (0x403C000000000000, ''colorin''),
      (0x403C800000000000, ''channelmixerrgb''), (0x403C800000000000, ''diffuse''),
      (0x403C800000000000, ''censorize''), (0x403C800000000000, ''negadoctor''),
      (0x403C800000000000, ''blurs''), (0x403C800000000000, ''primaries''),
      (0x403D000000000000, ''nlmeans''), (0x403E000000000000, ''colorchecker''),
      (0x4040000000000000, ''atrous''), (0x4040800000000000, ''lowpass''),
      (0x4041000000000000, ''highpass''), (0x4041800000000000, ''sharpen''),
      (0x4043000000000000, ''colormapping''), (0x4044400000000000, ''colorharmonizer''),
      (0x4044800000000000, ''colorbalance''), (0x40449999A0000000, ''colorequal''),
      (0x4044C00000000000, ''colorbalancergb''), (0x4045000000000000, ''rgbcurve''),
      (0x4045800000000000, ''rgblevels''), (0x4046000000000000, ''basecurve''),
      (0x4046A66660000000, ''sigmoid''), (0x4046C00000000000, ''agx''),
      (0x4047000000000000, ''filmicrgb''), (0x4042000000000000, ''lut3d''),
      (0x4048000000000000, ''tonecurve''), (0x4049000000000000, ''shadhi''),
      (0x404B000000000000, ''bilat''), (0x404B800000000000, ''colorcorrection''),
      (0x404C000000000000, ''colorcontrast''), (0x404C800000000000, ''velvia''),
      (0x404E000000000000, ''colorzones''), (0x404E800000000000, ''bloom''),
      (0x404F000000000000, ''colorize''), (0x404F800000000000, ''lowlight''),
      (0x4050000000000000, ''monochrome''), (0x4050400000000000, ''grain''),
      (0x4050800000000000, ''soften''), (0x4050C00000000000, ''splittoning''),
      (0x4051000000000000, ''vignette''), (0x4051400000000000, ''colorreconstruct''),
      (0x40515999A0000000, ''finalscale''), (0x4051800000000000, ''colorout''),
      (0x4052400000000000, ''overexposed''), (0x4052800000000000, ''rawoverexposed''),
      (0x4052C00000000000, ''dither''), (0x4053000000000000, ''borders''),
      (0x4053400000000000, ''watermark''), (0x4053800000000000, ''gamma'')]"

definition jpg_order :: "dt_iop_order_entry_t list" where
  "jpg_order = map table_entry
     [(0x3FF0000000000000, ''rawprepare''), (0x4008000000000000, ''temperature''),
      (0x4008CCCCC0000000, ''rasterfile''), (0x4010000000000000, ''highlights''),
      (0x4014000000000000, ''cacorrect''), (0x4018000000000000, ''hotpixels''),
      (0x401C000000000000, ''rawdenoise''), (0x4020000000000000, ''demosaic''),
      (0x403C000000000000, ''colorin''), (0x403C000000000000, ''denoiseprofile''),
      (0x403C000000000000, ''bilateral''), (0x403C000000000000, ''rotatepixels''),
      (0x403C000000000000, ''scalepixels''), (0x403C000000000000, ''lens''),
      (0x403C000000000000, ''cacorrectrgb''), (0x403C000000000000, ''hazeremoval''),
      (0x403C000000000000, ''ashift''), (0x403C000000000000, ''flip''),
      (0x403C000000000000, ''enlargecanvas''), (0x403C000000000000, ''overlay''),
      (0x403C000000000000, ''liquify''), (0x403C000000000000, ''retouch''),
      (0x403C000000000000, ''exposure''), (0x403C000000000000, ''mask_manager''),
      (0x403C000000000000, ''toneequal''), (0x403C000000000000, ''crop''),
      (0x403C000000000000, ''graduatednd''), (0x403C000000000000, ''profile_gamma''),
      (0x403C800000000000, ''channelmixerrgb''), (0x403C800000000000, ''diffuse''),
      (0x403C800000000000, ''censorize''), (0x403C800000000000, ''negadoctor''),
      (0x403C800000000000, ''blurs''), (0x403C800000000000, ''primaries''),
      (0x403D000000000000, ''nlmeans''), (0x403E000000000000, ''colorchecker''),
      (0x4040000000000000, ''atrous''), (0x4040800000000000, ''lowpass''),
      (0x4041000000000000, ''highpass''), (0x4041800000000000, ''sharpen''),
      (0x4043000000000000, ''colormapping''), (0x4044400000000000, ''colorharmonizer''),
      (0x4044800000000000, ''colorbalance''), (0x40449999A0000000, ''colorequal''),
      (0x4044C00000000000, ''colorbalancergb''), (0x4045000000000000, ''rgbcurve''),
      (0x4045800000000000, ''rgblevels''), (0x4046000000000000, ''basecurve''),
      (0x4046A66660000000, ''sigmoid''), (0x4046C00000000000, ''agx''),
      (0x4047000000000000, ''filmicrgb''), (0x4042000000000000, ''lut3d''),
      (0x4048000000000000, ''tonecurve''), (0x4049000000000000, ''shadhi''),
      (0x404B000000000000, ''bilat''), (0x404B800000000000, ''colorcorrection''),
      (0x404C000000000000, ''colorcontrast''), (0x404C800000000000, ''velvia''),
      (0x404E000000000000, ''colorzones''), (0x404E800000000000, ''bloom''),
      (0x404F000000000000, ''colorize''), (0x404F800000000000, ''lowlight''),
      (0x4050000000000000, ''monochrome''), (0x4050400000000000, ''grain''),
      (0x4050800000000000, ''soften''), (0x4050C00000000000, ''splittoning''),
      (0x4051000000000000, ''vignette''), (0x4051400000000000, ''colorreconstruct''),
      (0x4051600000000000, ''finalscale''), (0x4051800000000000, ''colorout''),
      (0x4052400000000000, ''overexposed''), (0x4052800000000000, ''rawoverexposed''),
      (0x4052C00000000000, ''dither''), (0x4053000000000000, ''borders''),
      (0x4053400000000000, ''watermark''), (0x4053800000000000, ''gamma'')]"

definition iop_order_tables :: "int \<Rightarrow> dt_iop_order_entry_t list" where
  "iop_order_tables v = (if v = DT_IOP_ORDER_RAW then raw_order
     else if v = DT_IOP_ORDER_JPG then jpg_order else [])"

definition DT_IMAGE_HDR :: int where "DT_IMAGE_HDR = 128"

text \<open>The flags column of the image, if there is a row for it.\<close>

definition ioppr_get_default_iop_order_version :: "int option \<Rightarrow> int" where
  "ioppr_get_default_iop_order_version flags =
     (let is_ldr = (case flags of None \<Rightarrow> False | Some f \<Rightarrow> bit f 7)
      in if is_ldr then DT_IOP_ORDER_JPG else DT_IOP_ORDER_RAW)"

text \<open>A row of \<open>main.module_order\<close>: the version and the text of the list.\<close>

type_synonym module_order_row = "int \<times> string option"

definition dt_ioppr_get_iop_order_version :: "int option \<Rightarrow> module_order_row option \<Rightarrow> int" where
  "dt_ioppr_get_iop_order_version flags row =
     (case row of
        None \<Rightarrow> ioppr_get_default_iop_order_version flags
      | Some (version, _) \<Rightarrow>
          if version = DT_IOP_ORDER_CUSTOM \<or> version = DT_IOP_ORDER_RAW \<or> version = DT_IOP_ORDER_JPG
          then version else ioppr_get_default_iop_order_version flags)"

definition dt_ioppr_get_iop_order_rules :: "dt_iop_order_rule_t list" where
  "dt_ioppr_get_iop_order_rules = map (\<lambda>(p, n). \<lparr>op_prev = p, op_next = n\<rparr>)
     [(''rawprepare'', ''temperature''), (''temperature'', ''highlights''), (''highlights'', ''cacorrect''),
      (''cacorrect'', ''hotpixels''), (''hotpixels'', ''rawdenoise''), (''rawdenoise'', ''demosaic''),
      (''demosaic'', ''colorin''), (''colorin'', ''colorout''), (''colorout'', ''gamma''),
      (''flip'', ''crop''), (''colorin'', ''channelmixerrgb'')]"


section \<open>Looking up\<close>

text \<open>A link is the position in the list.\<close>

definition entry_matches :: "string \<Rightarrow> int \<Rightarrow> dt_iop_order_entry_t \<Rightarrow> bool" where
  "entry_matches op_name multi_priority e \<longleftrightarrow>
     operation e = op_name \<and> (instance_nr e = multi_priority \<or> multi_priority = - 1)"

fun dt_ioppr_get_iop_order_link :: "dt_iop_order_entry_t list \<Rightarrow> string \<Rightarrow> int \<Rightarrow> nat option" where
  "dt_ioppr_get_iop_order_link [] op_name mp = None"
| "dt_ioppr_get_iop_order_link (e # es) op_name mp =
     (if entry_matches op_name mp e then Some 0
      else map_option Suc (dt_ioppr_get_iop_order_link es op_name mp))"

definition ioppr_get_iop_order_entry ::
  "dt_iop_order_entry_t list \<Rightarrow> string \<Rightarrow> int \<Rightarrow> dt_iop_order_entry_t option" where
  "ioppr_get_iop_order_entry xs op_name mp = map_option ((!) xs) (dt_ioppr_get_iop_order_link xs op_name mp)"

definition dt_ioppr_get_iop_order :: "dt_iop_order_entry_t list \<Rightarrow> string \<Rightarrow> int \<Rightarrow> int" where
  "dt_ioppr_get_iop_order xs op_name mp =
     (case ioppr_get_iop_order_entry xs op_name mp of None \<Rightarrow> INT_MAX | Some e \<Rightarrow> iop_order e)"

text \<open>The loop stops at the first entry of the operation.\<close>

fun dt_ioppr_get_iop_order_last :: "dt_iop_order_entry_t list \<Rightarrow> string \<Rightarrow> int" where
  "dt_ioppr_get_iop_order_last [] op_name = INT_MIN"
| "dt_ioppr_get_iop_order_last (e # es) op_name =
     (if op_name = operation e then max (iop_order e) INT_MIN
      else dt_ioppr_get_iop_order_last es op_name)"

definition dt_ioppr_is_iop_before :: "dt_iop_order_entry_t list \<Rightarrow> string \<Rightarrow> string \<Rightarrow> int \<Rightarrow> bool" where
  "dt_ioppr_is_iop_before xs base_operation op_name mp \<longleftrightarrow>
     dt_ioppr_get_iop_order xs op_name mp < dt_ioppr_get_iop_order xs base_operation (- 1)"

definition dt_sort_iop_list_by_order :: "dt_iop_order_entry_t \<Rightarrow> dt_iop_order_entry_t \<Rightarrow> int" where
  "dt_sort_iop_list_by_order a b =
     (if iop_order b < iop_order a then 1 else if iop_order a < iop_order b then - 1 else 0)"

text \<open>
  The inner loop that skips the other instances of the module, and the comparison with a table;
  past its end a table has the empty name of the sentinel.
\<close>

definition table_op :: "dt_iop_order_entry_t list \<Rightarrow> nat \<Rightarrow> string" where
  "table_op table k = (if k < length table then operation (table ! k) else [])"

function check_iop_list_equal ::
  "dt_iop_order_entry_t list \<Rightarrow> dt_iop_order_entry_t list \<Rightarrow> nat \<Rightarrow> bool" where
  "check_iop_list_equal [] table k = True"
| "check_iop_list_equal (e # es) table k =
     (if table_op table k \<noteq> operation e then False
      else check_iop_list_equal (dropWhile (\<lambda>x. operation x = table_op table k) es) table (k + 1))"
  by pat_completeness auto
termination
  by (relation "measure (\<lambda>(es, _, _). length es)") (auto simp: le_imp_less_Suc length_dropWhile_le)

definition dt_ioppr_get_iop_order_list_kind :: "dt_iop_order_entry_t list \<Rightarrow> int" where
  "dt_ioppr_get_iop_order_list_kind xs =
     (if check_iop_list_equal xs raw_order 0 then DT_IOP_ORDER_RAW
      else if check_iop_list_equal xs jpg_order 0 then DT_IOP_ORDER_JPG
      else DT_IOP_ORDER_CUSTOM)"

fun dt_ioppr_has_multiple_instances :: "dt_iop_order_entry_t list \<Rightarrow> bool" where
  "dt_ioppr_has_multiple_instances (a # b # es) =
     (operation a = operation b \<or> dt_ioppr_has_multiple_instances (b # es))"
| "dt_ioppr_has_multiple_instances es = False"

definition table_to_list :: "dt_iop_order_entry_t list \<Rightarrow> dt_iop_order_entry_t list" where
  "table_to_list entries =
     map (\<lambda>e. \<lparr>o_key = o_key e, operation = strlcpy OP_LEN (operation e), instance_nr = 0, entry_name = None\<rparr>) entries"

definition dt_ioppr_get_iop_order_list_version :: "int \<Rightarrow> dt_iop_order_entry_t list" where
  "dt_ioppr_get_iop_order_list_version version =
     (if version = DT_IOP_ORDER_RAW \<or> version = DT_IOP_ORDER_JPG
      then table_to_list (iop_order_tables version) else [])"

fun reset_from :: "int \<Rightarrow> dt_iop_order_entry_t list \<Rightarrow> dt_iop_order_entry_t list" where
  "reset_from n [] = []"
| "reset_from n (e # es) = e\<lparr>o_key := IopOrder n\<rparr> # reset_from (n + 100) es"

definition ioppr_reset_iop_order :: "dt_iop_order_entry_t list \<Rightarrow> dt_iop_order_entry_t list" where
  "ioppr_reset_iop_order xs = reset_from 100 xs"


section \<open>Text form\<close>

text \<open>\<open>%d\<close> of \<open>printf\<close> and of \<open>sscanf\<close>.\<close>

abbreviation digit :: "nat \<Rightarrow> char" where
  "digit d \<equiv> char_of (48 + d)"

fun show_nat :: "nat \<Rightarrow> string" where
  "show_nat n = (if n < 10 then [digit n] else show_nat (n div 10) @ [digit (n mod 10)])"

declare show_nat.simps [simp del]

definition show_int :: "int \<Rightarrow> string" where
  "show_int k = (if k < 0 then CHR ''-'' # show_nat (nat (- k)) else show_nat (nat k))"

definition is_space :: "char \<Rightarrow> bool" where
  "is_space c \<longleftrightarrow> of_char c = (32 :: nat) \<or> (9 \<le> (of_char c :: nat) \<and> of_char c \<le> (13 :: nat))"

definition is_digit :: "char \<Rightarrow> bool" where
  "is_digit c \<longleftrightarrow> 48 \<le> (of_char c :: nat) \<and> of_char c \<le> (57 :: nat)"

definition read_nat :: "string \<Rightarrow> nat" where
  "read_nat s = foldl (\<lambda>n c. 10 * n + (of_char c - 48)) 0 s"

text \<open>A number outside the range of \<open>long\<close> is cut to it, and the result to 32 bits.\<close>

definition scan_int :: "string \<Rightarrow> int option" where
  "scan_int s =
     (let s1 = dropWhile is_space s;
          neg = (s1 \<noteq> [] \<and> hd s1 = CHR ''-'');
          s2 = (if s1 \<noteq> [] \<and> (hd s1 = CHR ''-'' \<or> hd s1 = CHR ''+'') then tl s1 else s1);
          ds = takeWhile is_digit s2;
          v = (if neg then - int (read_nat ds) else int (read_nat ds));
          l = max (- (2 ^ 63)) (min (2 ^ 63 - 1) v)
      in if ds = [] then None else Some (sint (word_of_int l :: 32 word)))"

text \<open>The buffer of \<open>snprintf\<close> has 64 characters.\<close>

definition text_entry :: "dt_iop_order_entry_t \<Rightarrow> bool \<Rightarrow> string" where
  "text_entry e is_last =
     take 63 (operation e @ CHR '','' # show_int (instance_nr e) @ (if is_last then [] else [CHR '','']))"

fun dt_ioppr_serialize_text_iop_order_list :: "dt_iop_order_entry_t list \<Rightarrow> string" where
  "dt_ioppr_serialize_text_iop_order_list [] = []"
| "dt_ioppr_serialize_text_iop_order_list (e # es) =
     text_entry e (es = []) @ dt_ioppr_serialize_text_iop_order_list es"

text \<open>Splitting at a separator of one character.\<close>

function dt_util_str_to_glist :: "char \<Rightarrow> string \<Rightarrow> string list" where
  "dt_util_str_to_glist sep text =
     (if text = [] then []
      else if sep \<in> set text
      then let rest = tl (dropWhile (\<lambda>c. c \<noteq> sep) text)
           in takeWhile (\<lambda>c. c \<noteq> sep) text # (if rest = [] then [[]] else dt_util_str_to_glist sep rest)
      else [text])"
  by pat_completeness auto
termination
proof (relation "measure (\<lambda>(_, t). length t)")
  fix sep :: char and tx rest :: string
  assume "tx \<noteq> []" and r: "rest = tl (dropWhile (\<lambda>c. c \<noteq> sep) tx)"
  have "length rest \<le> length (dropWhile (\<lambda>c. c \<noteq> sep) tx) - 1" using r by simp
  moreover have "length (dropWhile (\<lambda>c. c \<noteq> sep) tx) \<le> length tx" by (rule length_dropWhile_le)
  moreover have "0 < length tx" using \<open>tx \<noteq> []\<close> by simp
  ultimately have "length rest < length tx" by linarith
  then show "((sep, rest), (sep, tx)) \<in> measure (\<lambda>(_, t). length t)" by simp
qed simp

declare dt_util_str_to_glist.simps [simp del]

text \<open>The sanity check reads the first and the last entry, which an empty list does not have.\<close>

definition ioppr_sanity_check_iop_order :: "dt_iop_order_entry_t list \<Rightarrow> bool cres" where
  "ioppr_sanity_check_iop_order xs =
     (if xs = [] then Undefined
      else Ret (operation (hd xs) = ''rawprepare'' \<and> operation (last xs) = ''gamma''))"

text \<open>\<open>None\<close> is the jump to the error label.\<close>

fun text_entries :: "string list \<Rightarrow> dt_iop_order_entry_t list option" where
  "text_entries [] = Some []"
| "text_entries [op_txt] = None"
| "text_entries (op_txt # inst # rest) =
     map_option (\<lambda>es. \<lparr>o_key = IopOrder 0, operation = strlcpy OP_LEN op_txt,
         instance_nr = (case scan_int inst of None \<Rightarrow> 0 | Some n \<Rightarrow> n), entry_name = None\<rparr> # es)
       (text_entries rest)"

definition dt_ioppr_deserialize_text_iop_order_list ::
  "string \<Rightarrow> dt_iop_order_entry_t list option cres" where
  "dt_ioppr_deserialize_text_iop_order_list buf =
     (case text_entries (dt_util_str_to_glist CHR '','' buf) of
        None \<Rightarrow> Ret None
      | Some es \<Rightarrow>
          let xs = ioppr_reset_iop_order es
          in case ioppr_sanity_check_iop_order xs of
               Undefined \<Rightarrow> Undefined
             | Ret ok \<Rightarrow> Ret (if ok then Some xs else None))"


section \<open>Binary form\<close>

definition bytes_of :: "string \<Rightarrow> 8 word list" where
  "bytes_of s = map (\<lambda>c. of_char c) s"

definition string_of :: "8 word list \<Rightarrow> string" where
  "string_of bs = map (\<lambda>b. char_of (unat b)) bs"

definition binary_entry :: "dt_iop_order_entry_t \<Rightarrow> 8 word list" where
  "binary_entry e =
     le_bytes 4 (word_of_nat (length (operation e)) :: 32 word) @ bytes_of (operation e) @
     le_bytes 4 (word_of_int (instance_nr e) :: 32 word)"

text \<open>The failed check of an empty list returns a null pointer.\<close>

definition dt_ioppr_serialize_iop_order_list :: "dt_iop_order_entry_t list \<Rightarrow> 8 word list option" where
  "dt_ioppr_serialize_iop_order_list xs = (if xs = [] then None else Some (concat (map binary_entry xs)))"

text \<open>
  Reading past the end of the buffer is undefined, and so is a name of 20 bytes, whose
  terminator does not fit the field.
\<close>

function binary_entries :: "8 word list \<Rightarrow> dt_iop_order_entry_t list option cres" where
  "binary_entries buf =
     (if buf = [] then Ret (Some [])
      else if length buf < 4 then Undefined
      else let len = le_int32 (take 4 buf); b1 = drop 4 buf
           in if len < 0 \<or> 20 < len then Ret None
              else if length b1 < nat len + 4 \<or> len = 20 then Undefined
              else let op_txt = takeWhile (\<lambda>c. c \<noteq> CHR 0x00) (string_of (take (nat len) b1));
                       inst = le_int32 (take 4 (drop (nat len) b1));
                       b2 = drop (nat len + 4) b1
                   in if inst < 0 \<or> 1000 < inst then Ret None
                      else case binary_entries b2 of
                        Undefined \<Rightarrow> Undefined
                      | Ret None \<Rightarrow> Ret None
                      | Ret (Some es) \<Rightarrow>
                          Ret (Some (\<lparr>o_key = IopOrder 0, operation = op_txt, instance_nr = inst, entry_name = None\<rparr> # es)))"
  by pat_completeness auto
termination
  by (relation "measure length") auto

declare binary_entries.simps [simp del]

definition dt_ioppr_deserialize_iop_order_list :: "8 word list \<Rightarrow> dt_iop_order_entry_t list option cres" where
  "dt_ioppr_deserialize_iop_order_list buf =
     (case binary_entries buf of
        Ret (Some es) \<Rightarrow> Ret (Some (ioppr_reset_iop_order es))
      | r \<Rightarrow> r)"


section \<open>The list of an image\<close>

definition dt_ioppr_has_iop_order_list :: "module_order_row option \<Rightarrow> bool" where
  "dt_ioppr_has_iop_order_list row = (case row of None \<Rightarrow> False | Some (_, txt) \<Rightarrow> txt \<noteq> None)"

definition row_list :: "module_order_row \<Rightarrow> dt_iop_order_entry_t list option cres" where
  "row_list row =
     (let (version, txt) = row
      in if version = DT_IOP_ORDER_CUSTOM \<or> txt \<noteq> None
         then case txt of
           None \<Rightarrow> Ret None
         | Some buf \<Rightarrow> dt_ioppr_deserialize_text_iop_order_list buf
         else if version = DT_IOP_ORDER_RAW \<or> version = DT_IOP_ORDER_JPG
         then Ret (Some (table_to_list (iop_order_tables version)))
         else Ret None)"

text \<open>\<open>flags\<close> is the column of the image row and \<open>row\<close> its \<open>module_order\<close> row.\<close>

definition dt_ioppr_get_iop_order_list ::
  "int \<Rightarrow> int option \<Rightarrow> module_order_row option \<Rightarrow> bool \<Rightarrow> dt_iop_order_entry_t list cres" where
  "dt_ioppr_get_iop_order_list imgid flags row sort_it =
     (let stored = (if 0 < imgid
                    then case row of None \<Rightarrow> Ret None | Some r \<Rightarrow> row_list r
                    else Ret None)
      in case stored of
           Undefined \<Rightarrow> Undefined
         | Ret found \<Rightarrow>
             let xs = (case found of
                         Some ys \<Rightarrow> ioppr_reset_iop_order ys
                       | None \<Rightarrow> table_to_list (iop_order_tables (ioppr_get_default_iop_order_version flags)))
             in Ret (if sort_it then g_list_sort dt_sort_iop_list_by_order xs else xs))"

text \<open>
  Writing: an insert and an update of the row of the image. \<open>ok1\<close> and \<open>ok2\<close> say whether
  the statements succeed.
\<close>

definition dt_ioppr_write_iop_order ::
  "bool \<Rightarrow> bool \<Rightarrow> int \<Rightarrow> dt_iop_order_entry_t list \<Rightarrow> int \<Rightarrow> (int \<rightharpoonup> module_order_row) \<Rightarrow>
    (int \<rightharpoonup> module_order_row) \<times> bool" where
  "dt_ioppr_write_iop_order ok1 ok2 kind xs imgid db =
     (if \<not> ok1 then (db, False)
      else let db1 = db(imgid \<mapsto> (0, None));
               row = (if kind = DT_IOP_ORDER_CUSTOM \<or> dt_ioppr_has_multiple_instances xs
                      then (kind, Some (dt_ioppr_serialize_text_iop_order_list xs))
                      else (kind, None))
           in if ok2 then (db1(imgid \<mapsto> row), True) else (db1, False))"

definition dt_ioppr_write_iop_order_list ::
  "bool \<Rightarrow> bool \<Rightarrow> dt_iop_order_entry_t list \<Rightarrow> int \<Rightarrow> (int \<rightharpoonup> module_order_row) \<Rightarrow>
    (int \<rightharpoonup> module_order_row) \<times> bool" where
  "dt_ioppr_write_iop_order_list ok1 ok2 xs imgid db =
     dt_ioppr_write_iop_order ok1 ok2 (dt_ioppr_get_iop_order_list_kind xs) xs imgid db"

text \<open>\<open>rows\<close> are the operations of the history with more than one instance.\<close>

definition dt_ioppr_get_multiple_instances_iop_order_list ::
  "dt_iop_order_entry_t list \<Rightarrow> (nat \<times> string) list \<Rightarrow> dt_iop_order_entry_t list" where
  "dt_ioppr_get_multiple_instances_iop_order_list xs rows =
     concat (map (\<lambda>(num, op_txt). map (\<lambda>k. \<lparr>o_key = IopOrder (dt_ioppr_get_iop_order xs op_txt 0),
        operation = strlcpy OP_LEN op_txt, instance_nr = int k, entry_name = None\<rparr>) [0..<num]) rows)"


section \<open>Multiple instances\<close>

definition count_entries_operation :: "dt_iop_order_entry_t list \<Rightarrow> string \<Rightarrow> nat" where
  "count_entries_operation xs op_txt = length (filter (\<lambda>e. operation e = op_txt) xs)"

definition dt_ioppr_iop_order_copy_deep :: "dt_iop_order_entry_t list \<Rightarrow> dt_iop_order_entry_t list" where
  "dt_ioppr_iop_order_copy_deep xs = map (\<lambda>e. e) xs"

definition dt_ioppr_extract_multi_instances_list :: "dt_iop_order_entry_t list \<Rightarrow> dt_iop_order_entry_t list" where
  "dt_ioppr_extract_multi_instances_list xs =
     filter (\<lambda>e. 1 < count_entries_operation xs (operation e)) xs"

text \<open>
  The cursor \<open>link\<close> splits the list: \<open>d\<close> is before it and it points to the first entry
  of \<open>r\<close>, or nowhere when \<open>r\<close> is empty.
\<close>

fun merge_loop ::
  "string \<Rightarrow> nat \<Rightarrow> nat \<Rightarrow> dt_iop_order_entry_t list \<Rightarrow> dt_iop_order_entry_t list \<Rightarrow>
    dt_iop_order_entry_t list \<Rightarrow> (dt_iop_order_entry_t list \<times> dt_iop_order_entry_t list) cres" where
  "merge_loop op_txt count_to item_nb [] d r = Ret (d, r)"
| "merge_loop op_txt count_to item_nb (m # ms) d r =
     (if item_nb + 1 \<le> count_to
      then case dropWhile (\<lambda>e. operation e \<noteq> op_txt) r of
             [] \<Rightarrow> Undefined
           | e # post \<Rightarrow>
               merge_loop op_txt count_to (item_nb + 1) ms
                 (d @ takeWhile (\<lambda>e. operation e \<noteq> op_txt) r @ [e\<lparr>instance_nr := instance_nr m\<rparr>]) post
      else merge_loop op_txt count_to (item_nb + 1) ms (d @ [m]) r)"

definition dt_ioppr_merge_module_multi_instance_iop_order_list ::
  "dt_iop_order_entry_t list \<Rightarrow> string \<Rightarrow> dt_iop_order_entry_t list \<Rightarrow> dt_iop_order_entry_t list cres" where
  "dt_ioppr_merge_module_multi_instance_iop_order_list xs op_txt mi =
     (let count_to = count_entries_operation xs op_txt
      in case merge_loop op_txt count_to 0 mi [] xs of
           Undefined \<Rightarrow> Undefined
         | Ret (d, r) \<Rightarrow>
             Ret (d @ (if length mi < count_to then filter (\<lambda>e. operation e \<noteq> op_txt) r else r)))"

function dt_ioppr_merge_multi_instance_iop_order_list ::
  "dt_iop_order_entry_t list \<Rightarrow> dt_iop_order_entry_t list \<Rightarrow> dt_iop_order_entry_t list cres" where
  "dt_ioppr_merge_multi_instance_iop_order_list xs [] = Ret xs"
| "dt_ioppr_merge_multi_instance_iop_order_list xs (e # es) =
     (case dt_ioppr_merge_module_multi_instance_iop_order_list xs (operation e)
             (e # filter (\<lambda>m. operation e = operation m) es) of
        Undefined \<Rightarrow> Undefined
      | Ret ys \<Rightarrow>
          dt_ioppr_merge_multi_instance_iop_order_list ys (filter (\<lambda>m. operation e \<noteq> operation m) es))"
  by pat_completeness auto
termination
  by (relation "measure (\<lambda>(_, es). length es)") (auto simp: le_imp_less_Suc)


section \<open>Renumbering\<close>

lemma length_reset_from [simp]: "length (reset_from n xs) = length xs"
  by (induction xs arbitrary: n) auto

lemma reset_from_nth:
  "i < length xs \<Longrightarrow> reset_from n xs ! i = (xs ! i)\<lparr>o_key := IopOrder (n + 100 * int i)\<rparr>"
proof (induction xs arbitrary: n i)
  case (Cons x xs)
  then show ?case by (cases i) (auto simp: algebra_simps)
qed simp

lemma reset_length [simp]: "length (ioppr_reset_iop_order xs) = length xs"
  by (simp add: ioppr_reset_iop_order_def)

lemma reset_nth:
  "i < length xs \<Longrightarrow> ioppr_reset_iop_order xs ! i = (xs ! i)\<lparr>o_key := IopOrder (100 + 100 * int i)\<rparr>"
  by (simp add: ioppr_reset_iop_order_def reset_from_nth)

lemma reset_map [simp]:
  assumes "\<And>e n. f (e\<lparr>o_key := IopOrder n\<rparr>) = f e"
  shows "map f (ioppr_reset_iop_order xs) = map f xs"
  by (rule nth_equalityI) (simp_all add: reset_nth assms)

lemma reset_orders: "map iop_order (ioppr_reset_iop_order xs) = map (\<lambda>i. 100 + 100 * int i) [0..<length xs]"
  by (rule nth_equalityI) (simp_all add: reset_nth)

lemma reset_empty [simp]: "ioppr_reset_iop_order xs = [] \<longleftrightarrow> xs = []"
  by (metis length_0_conv reset_length)

lemma reset_cong_keys:
  assumes "map (\<lambda>e. e\<lparr>o_key := IopOrder 0\<rparr>) xs = map (\<lambda>e. e\<lparr>o_key := IopOrder 0\<rparr>) ys"
  shows "ioppr_reset_iop_order xs = ioppr_reset_iop_order ys"
proof (rule nth_equalityI)
  have len: "length xs = length ys" using assms by (rule map_eq_imp_length_eq)
  then show "length (ioppr_reset_iop_order xs) = length (ioppr_reset_iop_order ys)" by simp
  fix i assume i: "i < length (ioppr_reset_iop_order xs)"
  then have "(xs ! i)\<lparr>o_key := IopOrder 0\<rparr> = (ys ! i)\<lparr>o_key := IopOrder 0\<rparr>"
    using arg_cong [OF assms, of "\<lambda>zs. zs ! i"] len by simp
  from arg_cong [OF this, of "\<lambda>e. e\<lparr>o_key := IopOrder (100 + 100 * int i)\<rparr>"]
  show "ioppr_reset_iop_order xs ! i = ioppr_reset_iop_order ys ! i" using i len by (simp add: reset_nth)
qed

interpretation list_order: gcompare dt_sort_iop_list_by_order iop_order "\<lambda>_. True"
  by unfold_locales (auto simp: dt_sort_iop_list_by_order_def)

lemma reset_sorted: "sorted_wrt (<) (map iop_order (ioppr_reset_iop_order xs))"
  unfolding reset_orders by (simp add: sorted_wrt_iff_nth_less)

lemma sort_reset [simp]: "g_list_sort dt_sort_iop_list_by_order (ioppr_reset_iop_order xs) = ioppr_reset_iop_order xs"
  using strict_sorted_imp_sorted [OF reset_sorted [of xs]] by (intro list_order.sort_sorted_id) simp_all


section \<open>Storage formats\<close>

text \<open>What a storage format keeps of a list: the operations and instances in their order.\<close>

definition renumbered :: "dt_iop_order_entry_t list \<Rightarrow> dt_iop_order_entry_t list" where
  "renumbered xs = ioppr_reset_iop_order
     (map (\<lambda>e. \<lparr>o_key = IopOrder 0, operation = operation e, instance_nr = instance_nr e, entry_name = None\<rparr>) xs)"

definition entry_ids :: "dt_iop_order_entry_t list \<Rightarrow> (string \<times> int) list" where
  "entry_ids xs = map (\<lambda>e. (operation e, instance_nr e)) xs"

lemma ids_renumbered [simp]: "entry_ids (renumbered xs) = entry_ids xs"
  by (simp add: entry_ids_def renumbered_def comp_def)

lemma renumbered_cong: "entry_ids xs = entry_ids ys \<Longrightarrow> renumbered xs = renumbered ys"
proof -
  assume ids: "entry_ids xs = entry_ids ys"
  have "map (\<lambda>e. \<lparr>o_key = IopOrder 0, operation = operation e, instance_nr = instance_nr e, entry_name = None\<rparr>) zs =
      map (\<lambda>(a, b). \<lparr>o_key = IopOrder 0, operation = a, instance_nr = b, entry_name = None\<rparr>) (entry_ids zs)" for zs
    by (simp add: entry_ids_def)
  with ids show ?thesis by (simp add: renumbered_def)
qed

lemma renumbered_orders: "map iop_order (renumbered xs) = map (\<lambda>i. 100 + 100 * int i) [0..<length xs]"
  by (simp only: renumbered_def reset_orders length_map)

locale iop_list_codec =
  fixes enc :: "dt_iop_order_entry_t list \<Rightarrow> 'e"
    and dec :: "'e \<Rightarrow> dt_iop_order_entry_t list option cres"
    and valid :: "dt_iop_order_entry_t list \<Rightarrow> bool"
  assumes decode_encode: "valid xs \<Longrightarrow> dec (enc xs) = Ret (Some (renumbered xs))"
begin

text \<open>The stored form determines the operations and instances.\<close>

lemma encode_inj: "valid xs \<Longrightarrow> valid ys \<Longrightarrow> enc xs = enc ys \<Longrightarrow> entry_ids xs = entry_ids ys"
  using decode_encode [of xs] decode_encode [of ys] ids_renumbered [of xs] ids_renumbered [of ys] by simp

text \<open>Storing what was read changes nothing.\<close>

lemma restore: "valid xs \<Longrightarrow> valid (renumbered xs) \<Longrightarrow> dec (enc (renumbered xs)) = dec (enc xs)"
  using decode_encode [of xs] decode_encode [of "renumbered xs"] renumbered_cong [of "renumbered xs" xs] by simp

end

subsection \<open>Numbers\<close>

lemma digit_char [simp]: "d < 10 \<Longrightarrow> of_char (digit d) = 48 + d"
  by (simp add: of_char_of)

lemma is_digit_digit [simp]: "d < 10 \<Longrightarrow> is_digit (digit d)"
  by (simp add: is_digit_def)

lemma show_nat_digits: "c \<in> set (show_nat n) \<Longrightarrow> is_digit c"
proof (induction n rule: show_nat.induct)
  case (1 n)
  then show ?case by (subst (asm) (2) show_nat.simps) (auto split: if_splits)
qed

lemma show_nat_nonempty [simp]: "show_nat n \<noteq> []"
  by (subst show_nat.simps) auto

lemma read_show_nat [simp]: "read_nat (show_nat n) = n"
proof (induction n rule: show_nat.induct)
  case (1 n)
  show ?case
  proof (cases "n < 10")
    case True
    then show ?thesis by (subst show_nat.simps) (simp add: read_nat_def)
  next
    case False
    then have "read_nat (show_nat n) = 10 * read_nat (show_nat (n div 10)) + n mod 10"
      by (subst show_nat.simps) (simp add: read_nat_def)
    then show ?thesis using 1 False by simp
  qed
qed

lemma length_show_nat: "n < 10 ^ k \<Longrightarrow> 0 < k \<Longrightarrow> length (show_nat n) \<le> k"
proof (induction n arbitrary: k rule: show_nat.induct)
  case (1 n)
  show ?case
  proof (cases "n < 10")
    case True
    then show ?thesis using 1 by (subst show_nat.simps) simp
  next
    case False
    then obtain j where j: "k = Suc j" "0 < j" using 1 by (cases k; cases "k - 1") auto
    have "n div 10 < 10 ^ j" using 1(2) j by (simp add: less_mult_imp_div_less mult.commute)
    with 1(1) [OF False, of j] j False show ?thesis by (subst show_nat.simps) simp
  qed
qed


lemma digit_not [simp]: "is_digit c \<Longrightarrow> c \<noteq> CHR '',''" "is_digit c \<Longrightarrow> c \<noteq> CHR ''-''" "is_digit c \<Longrightarrow> c \<noteq> CHR ''+''"
  "is_digit c \<Longrightarrow> \<not> is_space c"
  by (auto simp: is_digit_def is_space_def)

lemma show_nat_head: "is_digit (hd (show_nat n))"
  using show_nat_digits [of "hd (show_nat n)" n] by simp

lemma dropWhile_show_nat [simp]: "dropWhile is_space (show_nat n) = show_nat n"
  using show_nat_head [of n] show_nat_nonempty [of n] by (cases "show_nat n") auto

lemma takeWhile_show_nat [simp]: "takeWhile is_digit (show_nat n) = show_nat n"
  by (rule takeWhile_eq_all_conv [THEN iffD2]) (simp add: show_nat_digits)

lemma scan_show_int:
  assumes "INT_MIN \<le> k" and "k \<le> INT_MAX"
  shows "scan_int (show_int k) = Some k"
proof (cases "k < 0")
  case True
  have "\<not> is_space (CHR ''-'')" by (simp add: is_space_def)
  then show ?thesis using True assms
    by (simp add: scan_int_def show_int_def Let_def sint_word32_in_range)
next
  case False
  have "hd (show_nat (nat k)) \<noteq> CHR ''-''" "hd (show_nat (nat k)) \<noteq> CHR ''+''"
    using show_nat_head [of "nat k"] by (metis digit_not(2), metis digit_not(3))
  then show ?thesis using False assms
    by (simp add: scan_int_def show_int_def Let_def sint_word32_in_range)
qed

lemma comma_not_in_show_int: "CHR '','' \<notin> set (show_int k)"
  using show_nat_digits [of "CHR '',''"] by (auto simp: show_int_def is_digit_def)

lemma show_int_nonempty [simp]: "show_int k \<noteq> []"
  by (simp add: show_int_def)

lemma length_show_int:
  assumes "INT_MIN \<le> k" and "k \<le> INT_MAX"
  shows "length (show_int k) \<le> 11"
proof -
  have "nat \<bar>k\<bar> < 10 ^ 10" using assms by auto
  then have "length (show_nat (nat \<bar>k\<bar>)) \<le> 10" by (rule length_show_nat) simp
  then show ?thesis by (auto simp: show_int_def)
qed

subsection \<open>Text\<close>

lemma str_to_glist_item:
  assumes "sep \<notin> set a"
  shows "dt_util_str_to_glist sep (a @ sep # rest) =
    a # (if rest = [] then [[]] else dt_util_str_to_glist sep rest)"
proof -
  have "takeWhile (\<lambda>c. c \<noteq> sep) (a @ sep # rest) = a" "dropWhile (\<lambda>c. c \<noteq> sep) (a @ sep # rest) = sep # rest"
    using assms by (auto simp: takeWhile_append dropWhile_append)
  then show ?thesis by (subst dt_util_str_to_glist.simps) (simp add: Let_def)
qed

lemma str_to_glist_last: "sep \<notin> set a \<Longrightarrow> a \<noteq> [] \<Longrightarrow> dt_util_str_to_glist sep a = [a]"
  by (subst dt_util_str_to_glist.simps) simp

definition text_ok :: "dt_iop_order_entry_t \<Rightarrow> bool" where
  "text_ok e \<longleftrightarrow> length (operation e) < OP_LEN \<and> CHR '','' \<notin> set (operation e) \<and>
     INT_MIN \<le> instance_nr e \<and> instance_nr e \<le> INT_MAX"

text \<open>Nothing is cut from the text of an entry.\<close>

lemma text_entry_fits:
  "text_ok e \<Longrightarrow> text_entry e l = operation e @ CHR '','' # show_int (instance_nr e) @ (if l then [] else [CHR '',''])"
  using length_show_int [of "instance_nr e"] by (auto simp: text_entry_def text_ok_def)

lemma serialize_text_split:
  assumes "\<forall>e\<in>set xs. text_ok e" and "xs \<noteq> []"
  shows "dt_util_str_to_glist CHR '','' (dt_ioppr_serialize_text_iop_order_list xs) =
    concat (map (\<lambda>e. [operation e, show_int (instance_nr e)]) xs)"
  using assms
proof (induction xs)
  case (Cons e es)
  have ne: "dt_ioppr_serialize_text_iop_order_list es \<noteq> []" if "es \<noteq> []"
    using that Cons.prems by (cases es) (simp_all add: text_entry_fits)
  have op: "CHR '','' \<notin> set (operation e)" using Cons.prems by (simp add: text_ok_def)
  let ?r = "show_int (instance_nr e) @ (if es = [] then [] else CHR '','' # dt_ioppr_serialize_text_iop_order_list es)"
  have t: "dt_ioppr_serialize_text_iop_order_list (e # es) = operation e @ CHR '','' # ?r"
    using Cons.prems by (simp add: text_entry_fits)
  have "dt_util_str_to_glist CHR '','' ?r = show_int (instance_nr e) # concat (map (\<lambda>e. [operation e, show_int (instance_nr e)]) es)"
  proof (cases "es = []")
    case True
    then show ?thesis by (simp add: str_to_glist_last comma_not_in_show_int)
  next
    case False
    with ne show ?thesis using str_to_glist_item [OF comma_not_in_show_int] Cons by simp
  qed
  moreover have "?r \<noteq> []" by simp
  ultimately show ?case unfolding t str_to_glist_item [OF op] by simp
qed simp

lemma text_entries_split:
  assumes "\<forall>e\<in>set xs. text_ok e"
  shows "text_entries (concat (map (\<lambda>e. [operation e, show_int (instance_nr e)]) xs)) =
    Some (map (\<lambda>e. \<lparr>o_key = IopOrder 0, operation = operation e, instance_nr = instance_nr e, entry_name = None\<rparr>) xs)"
  using assms by (induction xs) (simp_all add: text_ok_def scan_show_int)

definition text_valid :: "dt_iop_order_entry_t list \<Rightarrow> bool" where
  "text_valid xs \<longleftrightarrow> xs \<noteq> [] \<and> operation (hd xs) = ''rawprepare'' \<and> operation (last xs) = ''gamma'' \<and>
     (\<forall>e\<in>set xs. text_ok e)"

lemma hd_last_renumbered:
  assumes "xs \<noteq> []"
  shows "operation (hd (renumbered xs)) = operation (hd xs)" and "operation (last (renumbered xs)) = operation (last xs)"
proof -
  have "map operation (renumbered xs) = map operation xs" by (simp add: renumbered_def comp_def)
  moreover have "renumbered xs \<noteq> []" using assms by (simp add: renumbered_def)
  ultimately show "operation (hd (renumbered xs)) = operation (hd xs)" "operation (last (renumbered xs)) = operation (last xs)"
    using assms by (metis hd_map, metis last_map)
qed

lemma text_decode_encode:
  assumes "text_valid xs"
  shows "dt_ioppr_deserialize_text_iop_order_list (dt_ioppr_serialize_text_iop_order_list xs) = Ret (Some (renumbered xs))"
proof -
  have ok: "\<forall>e\<in>set xs. text_ok e" "xs \<noteq> []" using assms by (simp_all add: text_valid_def)
  have "renumbered xs \<noteq> []" using ok(2) by (simp add: renumbered_def)
  then have "ioppr_sanity_check_iop_order (renumbered xs) = Ret True"
    using hd_last_renumbered [OF ok(2)] assms by (simp add: ioppr_sanity_check_iop_order_def text_valid_def)
  then show ?thesis using serialize_text_split [OF ok] text_entries_split [OF ok(1)]
    by (simp add: dt_ioppr_deserialize_text_iop_order_list_def Let_def renumbered_def)
qed

interpretation text_codec: iop_list_codec dt_ioppr_serialize_text_iop_order_list
    dt_ioppr_deserialize_text_iop_order_list text_valid
  by unfold_locales (rule text_decode_encode)


subsection \<open>Binary\<close>

lemma byte_char [simp]: "char_of (unat (of_char c :: 8 word)) = c"
proof -
  have "of_char c < (256 :: nat)" by simp
  then have "unat (of_nat (of_char c) :: 8 word) = of_char c" by (simp add: unat_of_nat)
  then have "unat (of_char c :: 8 word) = of_char c" by (simp add: of_nat_of_char)
  then show ?thesis by simp
qed

lemma string_of_bytes [simp]: "string_of (bytes_of s) = s"
  by (simp add: string_of_def bytes_of_def comp_def)

lemma length_bytes_of [simp]: "length (bytes_of s) = length s"
  by (simp add: bytes_of_def)

definition binary_ok :: "dt_iop_order_entry_t \<Rightarrow> bool" where
  "binary_ok e \<longleftrightarrow> length (operation e) < OP_LEN \<and> CHR 0x00 \<notin> set (operation e) \<and>
     0 \<le> instance_nr e \<and> instance_nr e \<le> 1000"

definition binary_valid :: "dt_iop_order_entry_t list \<Rightarrow> bool" where
  "binary_valid xs \<longleftrightarrow> xs \<noteq> [] \<and> (\<forall>e\<in>set xs. binary_ok e)"

lemma binary_entries_step:
  assumes "binary_ok e"
  shows "binary_entries (binary_entry e @ rest) =
    (case binary_entries rest of
       Ret (Some es) \<Rightarrow> Ret (Some (\<lparr>o_key = IopOrder 0, operation = operation e, instance_nr = instance_nr e,
         entry_name = None\<rparr> # es))
     | r \<Rightarrow> r)"
proof -
  let ?len = "word_of_nat (length (operation e)) :: 32 word"
  let ?inst = "word_of_int (instance_nr e) :: 32 word"
  have len: "sint ?len = int (length (operation e))"
    using assms sint_word32_in_range [of "int (length (operation e))"] by (simp add: binary_ok_def)
  have inst: "sint ?inst = instance_nr e"
    using assms by (intro sint_word32_in_range) (auto simp: binary_ok_def)
  have tw: "takeWhile (\<lambda>c. c \<noteq> CHR 0x00) (operation e) = operation e"
    using assms by (intro takeWhile_eq_all_conv [THEN iffD2]) (auto simp: binary_ok_def)
  have ne: "binary_entry e @ rest \<noteq> []"
    using length_le_bytes [of 4 ?len] by (auto simp: binary_entry_def simp del: length_le_bytes)
  show ?thesis using assms ne len inst tw
    by (subst binary_entries.simps) (auto simp: binary_entry_def Let_def binary_ok_def split: cres.split option.split)
qed

lemma binary_entries_concat:
  "\<forall>e\<in>set xs. binary_ok e \<Longrightarrow> binary_entries (concat (map binary_entry xs)) =
    Ret (Some (map (\<lambda>e. \<lparr>o_key = IopOrder 0, operation = operation e, instance_nr = instance_nr e, entry_name = None\<rparr>) xs))"
proof (induction xs)
  case Nil
  then show ?case by (subst binary_entries.simps) simp
next
  case (Cons e es)
  then show ?case using binary_entries_step [of e "concat (map binary_entry es)"] by simp
qed

interpretation binary_codec: iop_list_codec "\<lambda>xs. the (dt_ioppr_serialize_iop_order_list xs)"
    dt_ioppr_deserialize_iop_order_list binary_valid
  by unfold_locales
    (simp add: dt_ioppr_serialize_iop_order_list_def dt_ioppr_deserialize_iop_order_list_def binary_valid_def
      binary_entries_concat renumbered_def)


section \<open>The kind of a list\<close>

definition ops :: "dt_iop_order_entry_t list \<Rightarrow> string list" where
  "ops xs = map operation xs"

lemma ops_simps [simp]: "ops [] = []" "ops (x # xs) = operation x # ops xs" "length (ops xs) = length xs"
  "set (ops xs) = operation ` set xs"
  by (simp_all add: ops_def)

lemma ops_dropWhile: "ops (dropWhile (\<lambda>x. operation x = o') xs) = dropWhile (\<lambda>x. x = o') (ops xs)"
  by (simp add: ops_def dropWhile_map comp_def)

lemma check_iop_list_equal_iff:
  assumes "[] \<notin> set (ops xs)" and "k \<le> length table"
  shows "check_iop_list_equal xs table k \<longleftrightarrow> prefix (remdups_adj (ops xs)) (drop k (ops table))"
  using assms
proof (induction xs table k rule: check_iop_list_equal.induct)
  case (1 table k)
  then show ?case by simp
next
  case (2 e es table k)
  show ?case
  proof (cases "table_op table k = operation e")
    case False
    have "\<not> prefix (remdups_adj (ops (e # es))) (drop k (ops table))"
    proof
      assume "prefix (remdups_adj (ops (e # es))) (drop k (ops table))"
      then obtain zs where zs: "drop k (ops table) = remdups_adj (ops (e # es)) @ zs" by (auto simp: prefix_def)
      then have "drop k (ops table) = operation e # (remdups_adj (dropWhile (\<lambda>x. x = operation e) (ops es)) @ zs)"
        by (simp add: remdups_adj_Cons')
      then have "k < length table" "ops table ! k = operation e"
        by (metis drop_all length_0_conv leI length_map list.distinct(1) ops_def, metis hd_drop_conv_nth drop_all leI list.distinct(1) list.sel(1))
      then show False using False by (simp add: table_op_def ops_def)
    qed
    with False show ?thesis by simp
  next
    case True
    have k: "k < length table"
      using True 2(2) by (auto simp: table_op_def split: if_splits)
    have d: "drop k (ops table) = operation e # drop (k + 1) (ops table)"
      using k True by (simp add: table_op_def ops_def Cons_nth_drop_Suc [symmetric])
    let ?r = "dropWhile (\<lambda>x. operation x = table_op table k) es"
    have "[] \<notin> set (ops ?r)" using 2(2) set_dropWhileD by fastforce
    with 2(1) [OF _ this] k True
    have "check_iop_list_equal (e # es) table k \<longleftrightarrow> prefix (remdups_adj (ops ?r)) (drop (k + 1) (ops table))" by simp
    also have "\<dots> \<longleftrightarrow> prefix (remdups_adj (ops (e # es))) (drop k (ops table))"
      unfolding d by (simp add: remdups_adj_Cons' ops_dropWhile True)
    finally show ?thesis .
  qed
qed


lemma raw_order_ops: "[] \<notin> set (ops raw_order)" "length raw_order = 76"
  "\<forall>e\<in>set raw_order. length (operation e) < 20" "\<forall>e\<in>set raw_order. instance_nr e = 0"
  by code_simp+

lemma jpg_order_ops: "[] \<notin> set (ops jpg_order)" "length jpg_order = 76"
  "\<forall>e\<in>set jpg_order. length (operation e) < 20" "\<forall>e\<in>set jpg_order. instance_nr e = 0"
  by code_simp+

lemma table_to_list_ops: "\<forall>e\<in>set t. length (operation e) < 20 \<Longrightarrow> ops (table_to_list t) = ops t"
  by (simp add: ops_def table_to_list_def)

lemma reset_table: "ioppr_reset_iop_order (table_to_list t) = renumbered (table_to_list t)"
  unfolding renumbered_def by (rule reset_cong_keys) (simp add: table_to_list_def)

lemma ids_table: "entry_ids (table_to_list t) = map (\<lambda>e. (strlcpy OP_LEN (operation e), 0)) t"
  by (simp add: entry_ids_def table_to_list_def)

lemma no_multiple_remdups: "\<not> dt_ioppr_has_multiple_instances xs \<Longrightarrow> remdups_adj (ops xs) = ops xs"
  by (induction xs rule: dt_ioppr_has_multiple_instances.induct) auto

text \<open>A list of a built-in kind without multiple instances, as long as the table, is the table.\<close>

lemma full_kind_ids:
  assumes "check_iop_list_equal xs table 0" and "\<not> dt_ioppr_has_multiple_instances xs"
    and "[] \<notin> set (ops xs)" and "length xs = length table" and "\<forall>e\<in>set xs. instance_nr e = 0"
    and "\<forall>e\<in>set table. length (operation e) < 20"
  shows "entry_ids xs = entry_ids (table_to_list table)"
proof -
  have "prefix (ops xs) (ops table)"
    using assms(1) check_iop_list_equal_iff [OF assms(3), of 0 table] no_multiple_remdups [OF assms(2)] by simp
  then obtain zs where zs: "ops table = ops xs @ zs" by (auto simp: prefix_def)
  have "length (ops table) = length (ops xs) + length zs" unfolding zs by simp
  then have "zs = []" using assms(4) by simp
  with zs have "ops xs = ops table" by simp
  moreover have "entry_ids xs = map (\<lambda>p. (p, 0)) (ops xs)" using assms(5) by (simp add: entry_ids_def ops_def)
  moreover have "entry_ids (table_to_list table) = map (\<lambda>p. (p, 0)) (ops table)"
    using assms(6) by (simp add: ids_table ops_def)
  ultimately show ?thesis by simp
qed


section \<open>Merging\<close>

abbreviation of_op :: "string \<Rightarrow> dt_iop_order_entry_t list \<Rightarrow> dt_iop_order_entry_t list" where
  "of_op p xs \<equiv> filter (\<lambda>e. operation e = p) xs"

abbreviation not_op :: "string \<Rightarrow> dt_iop_order_entry_t list \<Rightarrow> dt_iop_order_entry_t list" where
  "not_op p xs \<equiv> filter (\<lambda>e. operation e \<noteq> p) xs"

lemma split_first_op:
  assumes "of_op p r \<noteq> []"
  obtains e post where "dropWhile (\<lambda>e. operation e \<noteq> p) r = e # post" and "operation e = p"
    and "of_op p r = e # of_op p post"
    and "not_op p r = takeWhile (\<lambda>e. operation e \<noteq> p) r @ not_op p post"
proof -
  let ?t = "takeWhile (\<lambda>e. operation e \<noteq> p) r"
  have "dropWhile (\<lambda>e. operation e \<noteq> p) r \<noteq> []" using assms by (auto simp: filter_empty_conv)
  then obtain e post where d: "dropWhile (\<lambda>e. operation e \<noteq> p) r = e # post" by (cases "dropWhile (\<lambda>e. operation e \<noteq> p) r") auto
  have e: "operation e = p" using hd_dropWhile [of "\<lambda>e. operation e \<noteq> p" r] d by simp
  have r: "r = ?t @ e # post" using takeWhile_dropWhile_id [of "\<lambda>e. operation e \<noteq> p" r] d by simp
  have t: "of_op p ?t = []" "not_op p ?t = ?t" by (auto simp: filter_empty_conv filter_id_conv dest: set_takeWhileD)
  have "of_op p r = of_op p ?t @ of_op p (e # post)" "not_op p r = not_op p ?t @ not_op p (e # post)"
    by (metis r filter_append)+
  then have "of_op p r = e # of_op p post" "not_op p r = ?t @ not_op p post" by (simp_all add: t e)
  with that d e show thesis by blast
qed

lemma merge_loop_spec:
  assumes "length (of_op p r) = count_to - item_nb" and "\<forall>m\<in>set ms. operation m = p"
  shows "\<exists>d' r'. merge_loop p count_to item_nb ms d r = Ret (d', r') \<and>
    not_op p (d' @ r') = not_op p (d @ r) \<and>
    map instance_nr (of_op p d') = map instance_nr (of_op p d @ ms) \<and>
    length (of_op p r') = count_to - (item_nb + length ms)"
  using assms
proof (induction ms arbitrary: item_nb d r)
  case (Cons m ms)
  show ?case
  proof (cases "item_nb + 1 \<le> count_to")
    case True
    then have "of_op p r \<noteq> []" using Cons.prems(1) by auto
    then obtain e post where s: "dropWhile (\<lambda>e. operation e \<noteq> p) r = e # post" "operation e = p"
      "of_op p r = e # of_op p post" "not_op p r = takeWhile (\<lambda>e. operation e \<noteq> p) r @ not_op p post"
      by (rule split_first_op)
    let ?d = "d @ takeWhile (\<lambda>e. operation e \<noteq> p) r @ [e\<lparr>instance_nr := instance_nr m\<rparr>]"
    have t: "of_op p (takeWhile (\<lambda>e. operation e \<noteq> p) r) = []" "not_op p (takeWhile (\<lambda>e. operation e \<noteq> p) r) = takeWhile (\<lambda>e. operation e \<noteq> p) r"
      by (auto simp: filter_empty_conv filter_id_conv dest: set_takeWhileD)
    have "length (of_op p post) = count_to - (item_nb + 1)" using Cons.prems(1) s(3) by simp
    from Cons.IH [OF this, of ?d] Cons.prems(2)
    obtain d' r' where "merge_loop p count_to (item_nb + 1) ms ?d post = Ret (d', r')"
      "not_op p (d' @ r') = not_op p (?d @ post)" "map instance_nr (of_op p d') = map instance_nr (of_op p ?d @ ms)"
      "length (of_op p r') = count_to - (item_nb + 1 + length ms)" by auto
    moreover have "not_op p (?d @ post) = not_op p (d @ r)" using s(2,4) t(2) by simp
    moreover have "map instance_nr (of_op p ?d @ ms) = map instance_nr (of_op p d @ m # ms)" using s(2) t(1) by simp
    ultimately show ?thesis using True s(1) by simp
  next
    case False
    then have "length (of_op p r) = count_to - (item_nb + 1)" using Cons.prems(1) by simp
    from Cons.IH [OF this, of "d @ [m]"] Cons.prems(2) False show ?thesis by simp
  qed
qed simp

lemma merge_module_spec:
  assumes "\<forall>m\<in>set mi. operation m = p"
  shows "\<exists>ys. dt_ioppr_merge_module_multi_instance_iop_order_list xs p mi = Ret ys \<and>
    not_op p ys = not_op p xs \<and> map instance_nr (of_op p ys) = map instance_nr mi"
proof -
  let ?n = "count_entries_operation xs p"
  obtain d r where m: "merge_loop p ?n 0 mi [] xs = Ret (d, r)" "not_op p (d @ r) = not_op p xs"
    "map instance_nr (of_op p d) = map instance_nr mi" "length (of_op p r) = ?n - length mi"
    using merge_loop_spec [of p xs ?n 0 mi "[]"] assms by (auto simp: count_entries_operation_def)
  let ?r = "if length mi < ?n then not_op p r else r"
  have "of_op p ?r = []" using m(4) by (auto simp: filter_empty_conv)
  moreover have "not_op p ?r = not_op p r" by simp
  ultimately show ?thesis using m
    by (intro exI [of _ "d @ ?r"]) (simp add: dt_ioppr_merge_module_multi_instance_iop_order_list_def Let_def)
qed


lemma filter_commute: "filter P (filter Q xs) = filter Q (filter P xs)"
  by (simp add: filter_filter conj_commute)

lemma filter_op_not: "p \<noteq> p' \<Longrightarrow> of_op p (not_op p' xs) = of_op p xs"
  by (auto intro!: filter_cong simp: filter_filter)

lemma merge_all_spec:
  "\<exists>ys. dt_ioppr_merge_multi_instance_iop_order_list xs mi = Ret ys \<and>
    (\<forall>p. map instance_nr (of_op p ys) = map instance_nr (of_op p (if p \<in> set (ops mi) then mi else xs))) \<and>
    filter (\<lambda>e. operation e \<notin> set (ops mi)) ys = filter (\<lambda>e. operation e \<notin> set (ops mi)) xs"
proof (induction xs mi rule: dt_ioppr_merge_multi_instance_iop_order_list.induct)
  case (1 xs)
  then show ?case by simp
next
  case (2 xs e es)
  let ?p = "operation e"
  let ?g = "e # filter (\<lambda>m. ?p = operation m) es"
  let ?r = "filter (\<lambda>m. ?p \<noteq> operation m) es"
  obtain ys where ys: "dt_ioppr_merge_module_multi_instance_iop_order_list xs ?p ?g = Ret ys"
    "not_op ?p ys = not_op ?p xs" "map instance_nr (of_op ?p ys) = map instance_nr ?g"
    using merge_module_spec [of ?g ?p xs] by auto
  from 2 [OF ys(1)] obtain zs where zs: "dt_ioppr_merge_multi_instance_iop_order_list ys ?r = Ret zs"
    "\<And>p. map instance_nr (of_op p zs) = map instance_nr (of_op p (if p \<in> set (ops ?r) then ?r else ys))"
    "filter (\<lambda>e. operation e \<notin> set (ops ?r)) zs = filter (\<lambda>e. operation e \<notin> set (ops ?r)) ys" by blast
  have set: "set (ops (e # es)) = insert ?p (set (ops ?r))" by auto
  have of_r: "of_op p ?r = of_op p (e # es)" if "p \<noteq> ?p" for p
    using that by (auto simp: filter_filter intro!: filter_cong)
  have of_ys: "of_op p ys = of_op p xs" if "p \<noteq> ?p" for p
    using filter_op_not [OF that, of ys] filter_op_not [OF that, of xs] ys(2) by simp
  have inst: "map instance_nr (of_op p zs) = map instance_nr (of_op p (if p \<in> set (ops (e # es)) then e # es else xs))" for p
  proof (cases "p = ?p")
    case True
    have "?p \<notin> set (ops ?r)" by auto
    with zs(2) [of ?p] ys(3) True show ?thesis by (simp add: eq_commute [of ?p])
  next
    case False
    then show ?thesis using zs(2) [of p] of_r [OF False] of_ys [OF False] set by auto
  qed
  have "filter (\<lambda>e'. operation e' \<notin> set (ops (e # es))) us = filter (\<lambda>e. operation e \<notin> set (ops ?r)) (not_op ?p us)" for us
    unfolding set by (auto simp: filter_filter intro!: filter_cong)
  moreover have "filter (\<lambda>e. operation e \<notin> set (ops ?r)) (not_op ?p us) = not_op ?p (filter (\<lambda>e. operation e \<notin> set (ops ?r)) us)" for us
    by (rule filter_commute)
  ultimately have "filter (\<lambda>e'. operation e' \<notin> set (ops (e # es))) zs = filter (\<lambda>e'. operation e' \<notin> set (ops (e # es))) xs"
    using zs(3) ys(2) by metis
  with inst ys(1) zs(1) show ?case by simp
qed


section \<open>Properties\<close>

text \<open>
  C30: The text form is a faithful format: for every list that starts with rawprepare, ends with
  gamma, and whose names are shorter than the field and free of commas, writing and reading back
  always succeeds and gives the same operations and instances in the same order, renumbered
  100, 200, and so on.
\<close>

theorem iop_list_text_round_trip:
  assumes "text_valid xs"
  shows "\<exists>ys. dt_ioppr_deserialize_text_iop_order_list (dt_ioppr_serialize_text_iop_order_list xs) = Ret (Some ys) \<and>
    entry_ids ys = entry_ids xs \<and> map iop_order ys = map (\<lambda>i. 100 + 100 * int i) [0..<length xs]"
  using text_codec.decode_encode [OF assms] by (simp add: renumbered_orders)

definition ex_list :: "dt_iop_order_entry_t list" where
  "ex_list = map (\<lambda>(p, i). \<lparr>o_key = IopOrder 0, operation = p, instance_nr = i, entry_name = None\<rparr>)
     [(''rawprepare'', 0), (''exposure'', 0), (''exposure'', 2), (''gamma'', 0)]"

theorem iop_list_text_round_trip_witness:
  "dt_ioppr_serialize_text_iop_order_list ex_list = ''rawprepare,0,exposure,0,exposure,2,gamma,0'' \<and>
   (\<exists>ys. dt_ioppr_deserialize_text_iop_order_list ''rawprepare,0,exposure,0,exposure,2,gamma,0'' = Ret (Some ys) \<and>
     entry_ids ys = [(''rawprepare'', 0), (''exposure'', 0), (''exposure'', 2), (''gamma'', 0)])"
proof -
  have v: "text_valid ex_list" by code_simp
  have s: "dt_ioppr_serialize_text_iop_order_list ex_list = ''rawprepare,0,exposure,0,exposure,2,gamma,0''" by code_simp
  have i: "entry_ids ex_list = [(''rawprepare'', 0), (''exposure'', 0), (''exposure'', 2), (''gamma'', 0)]" by code_simp
  from iop_list_text_round_trip [OF v] show ?thesis unfolding s i by auto
qed

text \<open>
  The binary form used for presets is a faithful format for lists whose names fit the field and
  whose instances lie between 0 and 1000: reading back always succeeds with the same operations and
  instances in the same order.
\<close>

theorem iop_list_binary_round_trip:
  assumes "binary_valid xs"
  shows "\<exists>buf ys. dt_ioppr_serialize_iop_order_list xs = Some buf \<and>
    length buf = sum_list (map (\<lambda>e. length (operation e) + 8) xs) \<and>
    dt_ioppr_deserialize_iop_order_list buf = Ret (Some ys) \<and> entry_ids ys = entry_ids xs"
proof -
  have "length (concat (map binary_entry xs)) = sum_list (map (\<lambda>e. length (operation e) + 8) xs)"
    by (induction xs) (simp_all add: binary_entry_def)
  then show ?thesis using binary_codec.decode_encode [OF assms] assms
    by (simp add: dt_ioppr_serialize_iop_order_list_def binary_valid_def)
qed

theorem iop_list_binary_round_trip_witness:
  "\<exists>buf ys. dt_ioppr_serialize_iop_order_list ex_list = Some buf \<and> length buf = 63 \<and>
     dt_ioppr_deserialize_iop_order_list buf = Ret (Some ys) \<and> entry_ids ys = entry_ids ex_list"
proof -
  have "binary_valid ex_list" "sum_list (map (\<lambda>e. length (operation e) + 8) ex_list) = 63" by code_simp+
  with iop_list_binary_round_trip [of ex_list] show ?thesis by simp
qed

text \<open>
  What the kind of a list means: it is one of the built-in kinds exactly when its operations,
  after grouped instances are counted once, are a prefix of that order; the RAW order is tried
  first. A proper prefix, even the empty list, is therefore taken for the RAW order.
\<close>

theorem iop_list_kind_spec:
  assumes "[] \<notin> set (ops xs)"
  shows "dt_ioppr_get_iop_order_list_kind xs =
    (if prefix (remdups_adj (ops xs)) (ops raw_order) then DT_IOP_ORDER_RAW
     else if prefix (remdups_adj (ops xs)) (ops jpg_order) then DT_IOP_ORDER_JPG else DT_IOP_ORDER_CUSTOM)"
  using check_iop_list_equal_iff [OF assms, of 0] by (simp add: dt_ioppr_get_iop_order_list_kind_def)

theorem iop_list_kind_spec_witness:
  "dt_ioppr_get_iop_order_list_kind ex_list = DT_IOP_ORDER_CUSTOM \<and> dt_ioppr_get_iop_order_list_kind [] = DT_IOP_ORDER_RAW"
proof -
  have o: "[] \<notin> set (ops ex_list)"
    "\<not> prefix (remdups_adj (ops ex_list)) (ops raw_order)" "\<not> prefix (remdups_adj (ops ex_list)) (ops jpg_order)"
    by code_simp+
  from iop_list_kind_spec [OF o(1)] iop_list_kind_spec [of "[]"] o(2,3) show ?thesis by simp
qed


lemma reset_renumbered [simp]: "ioppr_reset_iop_order (renumbered xs) = renumbered xs"
  unfolding renumbered_def by (rule reset_cong_keys) simp

lemma sort_renumbered [simp]: "g_list_sort dt_sort_iop_list_by_order (renumbered xs) = renumbered xs"
  using sort_reset [of "renumbered xs"] by simp

lemma row_list_reset:
  assumes "text_valid xs"
    and "dt_ioppr_get_iop_order_list_kind xs = DT_IOP_ORDER_CUSTOM \<or> dt_ioppr_has_multiple_instances xs \<or>
      length xs = length raw_order \<and> (\<forall>e\<in>set xs. instance_nr e = 0 \<and> operation e \<noteq> [])"
    and "dt_ioppr_write_iop_order_list True True xs imgid db = (db', ok)"
  shows "\<exists>row ys. db' imgid = Some row \<and> row_list row = Ret (Some ys) \<and> ioppr_reset_iop_order ys = renumbered xs"
proof (cases "dt_ioppr_get_iop_order_list_kind xs = DT_IOP_ORDER_CUSTOM \<or> dt_ioppr_has_multiple_instances xs")
  case True
  let ?row = "(dt_ioppr_get_iop_order_list_kind xs, Some (dt_ioppr_serialize_text_iop_order_list xs))"
  have "row_list ?row = Ret (Some (renumbered xs))"
    using text_codec.decode_encode [OF assms(1)] by (simp add: row_list_def)
  moreover have "db' imgid = Some ?row" using assms(3) True
    by (auto simp: dt_ioppr_write_iop_order_list_def dt_ioppr_write_iop_order_def)
  ultimately show ?thesis by auto
next
  case False
  let ?k = "dt_ioppr_get_iop_order_list_kind xs"
  have k: "?k = DT_IOP_ORDER_RAW \<or> ?k = DT_IOP_ORDER_JPG" and eq: "check_iop_list_equal xs (iop_order_tables ?k) 0"
    using False by (auto simp: dt_ioppr_get_iop_order_list_kind_def iop_order_tables_def split: if_splits)
  have full: "[] \<notin> set (ops xs)" "length xs = length (iop_order_tables ?k)" "\<forall>e\<in>set xs. instance_nr e = 0"
    "\<forall>e\<in>set (iop_order_tables ?k). length (operation e) < 20"
    using False assms(2) k raw_order_ops(2,3) jpg_order_ops(2,3) by (auto simp: iop_order_tables_def)
  have "entry_ids xs = entry_ids (table_to_list (iop_order_tables ?k))"
    using full_kind_ids [OF eq _ full] False by simp
  then have "ioppr_reset_iop_order (table_to_list (iop_order_tables ?k)) = renumbered xs"
    unfolding reset_table by (rule renumbered_cong [OF sym])
  moreover have "db' imgid = Some (?k, None)" using assms(3) False
    by (auto simp: dt_ioppr_write_iop_order_list_def dt_ioppr_write_iop_order_def)
  moreover have "row_list (?k, None) = Ret (Some (table_to_list (iop_order_tables ?k)))"
    using k by (auto simp: row_list_def)
  ultimately show ?thesis by auto
qed

text \<open>
  What is written to the database is read back: a valid list that is custom, or has grouped
  instances, or has every module of the built-in order once, is read back with the same operations
  and instances in the same order, sorted or not, and the rows of other images are untouched.
\<close>

theorem write_read_iop_order_list:
  assumes "text_valid xs" and "0 < imgid"
    and "dt_ioppr_get_iop_order_list_kind xs = DT_IOP_ORDER_CUSTOM \<or> dt_ioppr_has_multiple_instances xs \<or>
      length xs = length raw_order \<and> (\<forall>e\<in>set xs. instance_nr e = 0 \<and> operation e \<noteq> [])"
    and w: "dt_ioppr_write_iop_order_list True True xs imgid db = (db', ok)"
  shows "ok \<and> (\<exists>ys. dt_ioppr_get_iop_order_list imgid flags (db' imgid) sort_it = Ret ys \<and>
      entry_ids ys = entry_ids xs \<and> sorted_wrt (<) (map iop_order ys)) \<and>
    (\<forall>i. i \<noteq> imgid \<longrightarrow> db' i = db i)"
proof -
  obtain row ys where "db' imgid = Some row" "row_list row = Ret (Some ys)" "ioppr_reset_iop_order ys = renumbered xs"
    using row_list_reset [OF assms(1,3) w] by blast
  then have "dt_ioppr_get_iop_order_list imgid flags (db' imgid) sort_it = Ret (renumbered xs)"
    using assms(2) by (simp add: dt_ioppr_get_iop_order_list_def Let_def)
  moreover have "sorted_wrt (<) (map iop_order (renumbered xs))"
    using reset_sorted [of "renumbered xs"] by simp
  moreover have "ok" "\<forall>i. i \<noteq> imgid \<longrightarrow> db' i = db i"
    using w by (auto simp: dt_ioppr_write_iop_order_list_def dt_ioppr_write_iop_order_def Let_def)
  ultimately show ?thesis by simp
qed

theorem write_read_iop_order_list_witness:
  "\<exists>ys. dt_ioppr_get_iop_order_list 5 None (fst (dt_ioppr_write_iop_order_list True True ex_list 5 Map.empty) 5) True = Ret ys \<and>
     entry_ids ys = entry_ids ex_list"
proof -
  obtain db' ok where w: "dt_ioppr_write_iop_order_list True True ex_list 5 Map.empty = (db', ok)"
    by (cases "dt_ioppr_write_iop_order_list True True ex_list 5 Map.empty")
  have v: "text_valid ex_list" "dt_ioppr_has_multiple_instances ex_list" by code_simp+
  from write_read_iop_order_list [OF v(1) _ _ w, of None True] v(2) w show ?thesis by auto
qed

text \<open>
  Merging the multiple instances of one list into another always succeeds; afterwards every
  operation named in the merged list has exactly the instances it has there, in that order, every
  other operation has the instances it had, and the entries of the other operations keep their
  order.
\<close>

theorem merge_multi_instances_spec:
  "\<exists>ys. dt_ioppr_merge_multi_instance_iop_order_list xs mi = Ret ys \<and>
    (\<forall>p. map instance_nr (filter (\<lambda>e. operation e = p) ys) =
       map instance_nr (filter (\<lambda>e. operation e = p) (if p \<in> set (ops mi) then mi else xs))) \<and>
    filter (\<lambda>e. operation e \<notin> set (ops mi)) ys = filter (\<lambda>e. operation e \<notin> set (ops mi)) xs"
  by (rule merge_all_spec)

lemma link_bound: "dt_ioppr_get_iop_order_link xs p mp = Some i \<Longrightarrow> i < length xs"
  by (induction xs arbitrary: i) (auto split: if_splits)

lemma link_reset [simp]:
  "dt_ioppr_get_iop_order_link (reset_from n xs) p mp = dt_ioppr_get_iop_order_link xs p mp"
  by (induction xs arbitrary: n) (auto simp: entry_matches_def)

lemma get_iop_order_reset:
  "dt_ioppr_get_iop_order (ioppr_reset_iop_order xs) p mp =
    (case dt_ioppr_get_iop_order_link xs p mp of None \<Rightarrow> INT_MAX | Some i \<Rightarrow> 100 + 100 * int i)"
  using link_bound [of xs p mp]
  by (auto simp: dt_ioppr_get_iop_order_def ioppr_get_iop_order_entry_def ioppr_reset_iop_order_def reset_from_nth
      split: option.split)

text \<open>
  After renumbering a list of any size the program can hold, an operation is before another
  exactly when its entry comes earlier in the list; an operation without an entry is never before
  one.
\<close>

theorem is_iop_before_position:
  assumes "length xs < 20000000" and "dt_ioppr_get_iop_order_link xs base (- 1) = Some i"
  shows "dt_ioppr_is_iop_before (ioppr_reset_iop_order xs) base p mp \<longleftrightarrow>
    (case dt_ioppr_get_iop_order_link xs p mp of None \<Rightarrow> False | Some j \<Rightarrow> j < i)"
  using link_bound [OF assms(2)] assms
  by (auto simp: dt_ioppr_is_iop_before_def get_iop_order_reset split: option.split)

theorem is_iop_before_position_witness:
  "dt_ioppr_is_iop_before (ioppr_reset_iop_order ex_list) ''gamma'' ''exposure'' 2"
proof -
  have "length ex_list < 20000000" by (simp add: ex_list_def)
  moreover have "dt_ioppr_get_iop_order_link ex_list ''gamma'' (- 1) = Some 3"
    "dt_ioppr_get_iop_order_link ex_list ''exposure'' 2 = Some 2" by code_simp+
  ultimately show ?thesis using is_iop_before_position [of ex_list "''gamma''" 3] by simp
qed

text \<open>
  Without a stored order the built-in table is used as it is, with its \<open>double\<close> keys, and
  sorting it compares their low 32 bits: the sorted RAW fallback starts with colorequal and ends
  with sigmoid, while the table starts with rawprepare and ends with gamma.
\<close>

theorem fallback_sort_breaks_order:
  "\<exists>ys. dt_ioppr_get_iop_order_list 0 None None True = Ret ys \<and> operation (hd ys) = ''colorequal'' \<and>
     operation (last ys) = ''sigmoid'' \<and> operation (hd raw_order) = ''rawprepare'' \<and> operation (last raw_order) = ''gamma'' \<and> dt_ioppr_get_iop_order_list 0 None None False = Ret (table_to_list raw_order)"
proof -
  let ?ys = "g_list_sort dt_sort_iop_list_by_order (table_to_list raw_order)"
  have "operation (hd ?ys) = ''colorequal''" "operation (last ?ys) = ''sigmoid''"
    "operation (hd raw_order) = ''rawprepare''" "operation (last raw_order) = ''gamma''" by code_simp+
  then show ?thesis
    by (intro exI [of _ ?ys])
      (simp add: dt_ioppr_get_iop_order_list_def ioppr_get_default_iop_order_version_def iop_order_tables_def)
qed

end
