(* ===== verification/Iop_Order_Modules.thy ===== *)
theory Iop_Order_Modules
  imports Iop_Order_List
begin

text \<open>
  The order list and the modules of a develop session (\<open>src/common/iop_order.c\<close> and the
  look-ups of \<open>src/develop/imageop.c\<close>): resynchronising modules with the list, moving a
  module, the rules and fences that restrict moves, inserting instances and updating the list
  for the entries of a style or of copied modules. A module pointer is the field
  \<open>mod_ptr\<close>; the operation name of a module is the one of its shared object, of which
  \<open>module->op\<close> is a copy.
\<close>

section \<open>Modules\<close>

record dt_iop_module_t =
  mod_ptr :: nat
  mod_op :: string
  mod_priority :: int
  mod_order :: int
  mod_enabled :: bool
  mod_default_enabled :: bool
  mod_name :: string
  mod_name_hand_edited :: bool
  mod_fence :: bool

record dt_dev_history_item_t =
  hist_order :: int
  hist_enabled :: bool
  hist_priority :: int

record dt_develop_t =
  iop :: "dt_iop_module_t list"
  iop_order_list :: "dt_iop_order_entry_t list"
  history :: "dt_dev_history_item_t list"

definition dt_iop_module_is :: "dt_iop_module_t \<Rightarrow> string \<Rightarrow> bool" where
  "dt_iop_module_is m op_txt \<longleftrightarrow> mod_op m = op_txt"

definition dt_iop_module_is_gamma :: "dt_iop_module_t \<Rightarrow> bool" where
  "dt_iop_module_is_gamma m \<longleftrightarrow> dt_iop_module_is m ''gamma''"

definition dt_iop_get_module_by_op_priority ::
  "dt_iop_module_t list \<Rightarrow> string \<Rightarrow> int \<Rightarrow> dt_iop_module_t option" where
  "dt_iop_get_module_by_op_priority ms op_txt mp =
     find (\<lambda>m. dt_iop_module_is m op_txt \<and> (mod_priority m = mp \<or> mp = - 1)) ms"

definition dt_iop_get_module_by_instance_name ::
  "dt_iop_module_t list \<Rightarrow> string \<Rightarrow> string option \<Rightarrow> dt_iop_module_t option" where
  "dt_iop_get_module_by_instance_name ms op_txt multi_name =
     find (\<lambda>m. dt_iop_module_is m op_txt \<and> (multi_name = None \<or> multi_name = Some (mod_name m))) ms"

definition dt_iop_get_instance_name :: "dt_iop_module_t \<Rightarrow> string" where
  "dt_iop_get_instance_name m = (if 0 < mod_priority m \<or> mod_name_hand_edited m then mod_name m else [])"


section \<open>Synchronising the modules with the list\<close>

definition dt_ioppr_resync_iop_list :: "dt_develop_t \<Rightarrow> dt_develop_t" where
  "dt_ioppr_resync_iop_list dev =
     dev\<lparr>iop_order_list := filter (\<lambda>e.
       dt_iop_get_module_by_op_priority (iop dev) (operation e) (instance_nr e) \<noteq> None) (iop_order_list dev)\<rparr>"

definition dt_sort_iop_by_order :: "dt_iop_module_t \<Rightarrow> dt_iop_module_t \<Rightarrow> int" where
  "dt_sort_iop_by_order a b =
     (if mod_order b < mod_order a then 1 else if mod_order a < mod_order b then - 1 else 0)"

definition dt_ioppr_resync_modules_order :: "dt_develop_t \<Rightarrow> dt_develop_t" where
  "dt_ioppr_resync_modules_order dev =
     (let xs = ioppr_reset_iop_order (iop_order_list dev);
          ms = map (\<lambda>m. if mod_order m \<noteq> INT_MAX
                        then m\<lparr>mod_order := dt_ioppr_get_iop_order xs (mod_op m) (mod_priority m)\<rparr>
                        else m) (iop dev)
      in dev\<lparr>iop_order_list := xs, iop := g_list_sort dt_sort_iop_by_order ms\<rparr>)"

text \<open>The list of the image is the result of \<open>dt_ioppr_get_iop_order_list\<close>.\<close>

definition dt_ioppr_set_default_iop_order ::
  "int \<Rightarrow> int option \<Rightarrow> module_order_row option \<Rightarrow> dt_develop_t \<Rightarrow> dt_develop_t cres" where
  "dt_ioppr_set_default_iop_order imgid flags row dev =
     (case dt_ioppr_get_iop_order_list imgid flags row False of
        Undefined \<Rightarrow> Undefined
      | Ret xs \<Rightarrow> Ret (dt_ioppr_resync_modules_order (dev\<lparr>iop_order_list := ioppr_reset_iop_order xs\<rparr>)))"


section \<open>Instances\<close>

record iop_count =
  max_multi_priority :: int
  cnt :: nat
  max_multi_priority_enabled :: int
  cnt_enabled :: nat

definition count_iop_module :: "dt_iop_module_t list \<Rightarrow> string \<Rightarrow> iop_count" where
  "count_iop_module ms op_txt = foldl (\<lambda>c m.
     if dt_iop_module_is m op_txt
     then let c1 = c\<lparr>cnt := cnt c + 1, max_multi_priority := max (max_multi_priority c) (mod_priority m)\<rparr>
          in if mod_enabled m
             then c1\<lparr>cnt_enabled := cnt_enabled c1 + 1,
                     max_multi_priority_enabled := max (max_multi_priority_enabled c1) (mod_priority m)\<rparr>
             else c1
     else c) \<lparr>max_multi_priority = 0, cnt = 0, max_multi_priority_enabled = 0, cnt_enabled = 0\<rparr> ms"

text \<open>The entries before position \<open>i\<close>.\<close>

definition operation_already_handled :: "dt_iop_order_entry_t list \<Rightarrow> nat \<Rightarrow> string \<Rightarrow> bool" where
  "operation_already_handled entries i op_txt \<longleftrightarrow> (\<exists>e\<in>set (take i entries). operation e = op_txt)"

fun get_multi_priority_loop :: "dt_iop_module_t list \<Rightarrow> string \<Rightarrow> nat \<Rightarrow> bool \<Rightarrow> nat \<Rightarrow> int" where
  "get_multi_priority_loop [] op_txt n only_disabled seen = INT_MAX"
| "get_multi_priority_loop (m # ms) op_txt n only_disabled seen =
     (if (\<not> only_disabled \<or> \<not> mod_enabled m) \<and> dt_iop_module_is m op_txt
      then if seen + 1 = n then mod_priority m
           else get_multi_priority_loop ms op_txt n only_disabled (seen + 1)
      else get_multi_priority_loop ms op_txt n only_disabled seen)"

definition get_multi_priority :: "dt_develop_t \<Rightarrow> string \<Rightarrow> nat \<Rightarrow> bool \<Rightarrow> int" where
  "get_multi_priority dev op_txt n only_disabled = get_multi_priority_loop (iop dev) op_txt n only_disabled 0"

text \<open>Renumbering the entries of one operation.\<close>

fun renumber_entries ::
  "dt_develop_t \<Rightarrow> string \<Rightarrow> bool \<Rightarrow> nat \<Rightarrow> nat \<Rightarrow> int \<Rightarrow> dt_iop_order_entry_t list \<Rightarrow> dt_iop_order_entry_t list" where
  "renumber_entries dev op_txt app nb_replace nb mp [] = []"
| "renumber_entries dev op_txt app nb_replace nb mp (e # es) =
     (if operation e = op_txt
      then if nb + 1 \<le> nb_replace
           then e\<lparr>instance_nr := get_multi_priority dev (operation e) (nb + 1) app\<rparr>
                  # renumber_entries dev op_txt app nb_replace (nb + 1) mp es
           else e\<lparr>instance_nr := mp\<rparr> # renumber_entries dev op_txt app nb_replace (nb + 1) (mp + 1) es
      else e # renumber_entries dev op_txt app nb_replace nb mp es)"

text \<open>The position of the last entry of an operation.\<close>

fun last_link :: "dt_iop_order_entry_t list \<Rightarrow> string \<Rightarrow> nat option" where
  "last_link [] op_txt = None"
| "last_link (e # es) op_txt =
     (case last_link es op_txt of
        Some i \<Rightarrow> Some (Suc i)
      | None \<Rightarrow> if operation e = op_txt then Some 0 else None)"

definition update_for_entry ::
  "bool \<Rightarrow> nat \<Rightarrow> dt_iop_order_entry_t list \<times> dt_develop_t \<Rightarrow> dt_iop_order_entry_t list \<times> dt_develop_t" where
  "update_for_entry app i s =
     (let (entries, dev) = s;
          ep = entries ! i;
          force_append =
            (case entry_name ep of
               None \<Rightarrow> False
             | Some name \<Rightarrow> name \<noteq> [] \<and> dt_iop_get_module_by_instance_name (iop dev) (operation ep) (Some name) = None);
          c = count_iop_module (iop dev) (operation ep)
      in case last_link (iop_order_list dev) (operation ep) of
           None \<Rightarrow> (entries, dev)
         | Some l \<Rightarrow>
             if operation_already_handled entries i (operation ep) then (entries, dev)
             else
               let new_active_instances = count_entries_operation entries (operation ep);
                   nb_replace = (if app \<or> force_append then cnt c - cnt_enabled c else cnt c);
                   add_count = new_active_instances - nb_replace;
                   start_multi_priority = max_multi_priority c + 1;
                   entries' = renumber_entries dev (operation ep) app nb_replace 0 start_multi_priority entries;
                   added = map (\<lambda>k. \<lparr>o_key = IopOrder 0, operation = strlcpy OP_LEN (operation ep),
                             instance_nr = start_multi_priority + int k, entry_name = None\<rparr>) [0..<add_count];
                   xs = iop_order_list dev
               in (entries', dev\<lparr>iop_order_list := take (l + 1) xs @ added @ drop (l + 1) xs\<rparr>))"

definition ioppr_update_for_entries ::
  "dt_develop_t \<Rightarrow> dt_iop_order_entry_t list \<Rightarrow> bool \<Rightarrow> dt_develop_t \<times> dt_iop_order_entry_t list" where
  "ioppr_update_for_entries dev entry_list app =
     (case fold (update_for_entry app) [0..<length entry_list] (entry_list, dev) of
        (entries, dev1) \<Rightarrow>
          (dev1\<lparr>iop_order_list := ioppr_reset_iop_order (iop_order_list dev1)\<rparr>, entries))"

record dt_style_item_t =
  si_operation :: string
  si_priority :: int
  si_name :: string
  si_order :: int
  si_params_size :: nat

fun write_back_items ::
  "dt_iop_order_entry_t list \<Rightarrow> dt_style_item_t list \<Rightarrow> dt_iop_order_entry_t list \<Rightarrow> dt_style_item_t list" where
  "write_back_items xs [] es = []"
| "write_back_items xs (si # sis) es =
     (if 0 < si_params_size si
      then let mp = instance_nr (hd es)
           in si\<lparr>si_priority := mp, si_order := dt_ioppr_get_iop_order xs (si_operation si) mp\<rparr>
                # write_back_items xs sis (tl es)
      else si # write_back_items xs sis es)"

definition dt_ioppr_update_for_style_items ::
  "dt_develop_t \<Rightarrow> dt_style_item_t list \<Rightarrow> bool \<Rightarrow> dt_develop_t \<times> dt_style_item_t list" where
  "dt_ioppr_update_for_style_items dev st_items app =
     (let e_list = map (\<lambda>si. \<lparr>o_key = IopOrder 0, operation = si_operation si, instance_nr = si_priority si,
            entry_name = Some (strlcpy NAME_LEN (si_name si))\<rparr>) (filter (\<lambda>si. 0 < si_params_size si) st_items)
      in if e_list = [] then (dev, st_items)
         else case ioppr_update_for_entries dev e_list app of
           (dev1, es) \<Rightarrow> (dev1, write_back_items (iop_order_list dev1) st_items es))"

definition dt_ioppr_update_for_modules ::
  "dt_develop_t \<Rightarrow> dt_iop_module_t list \<Rightarrow> bool \<Rightarrow> dt_develop_t \<times> dt_iop_module_t list" where
  "dt_ioppr_update_for_modules dev ms app =
     (let e_list = map (\<lambda>m. \<lparr>o_key = IopOrder 0, operation = strlcpy OP_LEN (mod_op m), instance_nr = mod_priority m,
            entry_name = Some (strlcpy NAME_LEN (dt_iop_get_instance_name m))\<rparr>) ms
      in case ioppr_update_for_entries dev e_list app of
           (dev1, es) \<Rightarrow> (dev1, map2 (\<lambda>m e. m\<lparr>mod_priority := instance_nr e,
              mod_order := dt_ioppr_get_iop_order (iop_order_list dev1) (mod_op m) (instance_nr e)\<rparr>) ms es))"

text \<open>The entry of a new instance goes before the entry of the greatest instance.\<close>

fun insert_place :: "dt_iop_order_entry_t list \<Rightarrow> string \<Rightarrow> nat \<Rightarrow> int \<Rightarrow> nat option \<Rightarrow> nat option" where
  "insert_place [] op_txt pos max_instance place = place"
| "insert_place (e # es) op_txt pos max_instance place =
     (if operation e = op_txt \<and> max_instance < instance_nr e
      then insert_place es op_txt (pos + 1) (instance_nr e) (Some pos)
      else insert_place es op_txt (pos + 1) max_instance place)"

definition dt_ioppr_insert_module_instance :: "dt_develop_t \<Rightarrow> dt_iop_module_t \<Rightarrow> dt_develop_t" where
  "dt_ioppr_insert_module_instance dev m =
     (let xs = iop_order_list dev;
          e = \<lparr>o_key = IopOrder 0, operation = strlcpy OP_LEN (mod_op m), instance_nr = mod_priority m, entry_name = None\<rparr>
      in case insert_place xs (mod_op m) 0 (- 1) None of
           None \<Rightarrow> dev\<lparr>iop_order_list := xs @ [e]\<rparr>
         | Some p \<Rightarrow> dev\<lparr>iop_order_list := take p xs @ e # drop p xs\<rparr>)"

definition dt_ioppr_check_so_iop_order :: "string list \<Rightarrow> dt_iop_order_entry_t list \<Rightarrow> bool" where
  "dt_ioppr_check_so_iop_order so_ops xs = (\<exists>p\<in>set so_ops. ioppr_get_iop_order_entry xs p 0 = None)"



section \<open>Moving a module\<close>

definition rule_between :: "dt_iop_order_rule_t list \<Rightarrow> dt_iop_module_t \<Rightarrow> dt_iop_module_t \<Rightarrow> bool" where
  "rule_between rules a b \<longleftrightarrow>
     (\<exists>r\<in>set rules. dt_iop_module_is a (op_prev r) \<and> dt_iop_module_is b (op_next r))"

text \<open>
  Towards the end of the pipe: the modules after \<open>module\<close> up to \<open>module_next\<close>. The result is
  \<open>mod1\<close>, the one before \<open>module_next\<close>, and \<open>mod2\<close>.
\<close>

fun move_up_loop ::
  "dt_iop_order_rule_t list \<Rightarrow> dt_iop_module_t \<Rightarrow> dt_iop_module_t \<Rightarrow> dt_iop_module_t list \<Rightarrow>
    dt_iop_module_t option \<Rightarrow> dt_iop_module_t option \<times> dt_iop_module_t option" where
  "move_up_loop rules m n [] mod1 = (mod1, None)"
| "move_up_loop rules m n (x # xs) mod1 =
     (if mod_ptr x = mod_ptr n then (mod1, Some x)
      else if mod_fence x then (mod1, None)
      else if rule_between rules m x then (mod1, None)
      else move_up_loop rules m n xs (Some x))"

text \<open>Towards the start: the modules before \<open>module\<close>, the nearest one first.\<close>

fun move_down_loop ::
  "dt_iop_order_rule_t list \<Rightarrow> dt_iop_module_t \<Rightarrow> dt_iop_module_t \<Rightarrow> dt_iop_module_t list \<Rightarrow>
    dt_iop_module_t option \<Rightarrow> dt_iop_module_t option \<times> dt_iop_module_t option" where
  "move_down_loop rules m n [] mod2 = (None, mod2)"
| "move_down_loop rules m n (x # xs) mod2 =
     (if mod2 \<noteq> None then (Some x, mod2)
      else if mod_fence x then (None, mod2)
      else if rule_between rules x m then (None, mod2)
      else move_down_loop rules m n xs (if mod_ptr x = mod_ptr n then Some x else mod2))"

definition after_module :: "dt_iop_module_t \<Rightarrow> dt_iop_module_t list \<Rightarrow> dt_iop_module_t list option" where
  "after_module m ms =
     (case dropWhile (\<lambda>x. mod_ptr x \<noteq> mod_ptr m) ms of [] \<Rightarrow> None | _ # rest \<Rightarrow> Some rest)"

text \<open>\<open>mod1\<close> may be null when the target is reached: reading its order is then undefined.\<close>

definition dt_ioppr_check_can_move_before_iop ::
  "dt_iop_order_rule_t list \<Rightarrow> dt_iop_module_t list \<Rightarrow> dt_iop_module_t \<Rightarrow> dt_iop_module_t \<Rightarrow> bool cres" where
  "dt_ioppr_check_can_move_before_iop rules ms m n =
     (if mod_fence m then Ret False
      else if mod_order m < mod_order n
      then case after_module m ms of
             None \<Rightarrow> Ret False
           | Some rest \<Rightarrow>
               (case move_up_loop rules m n rest None of
                  (_, None) \<Rightarrow> Ret False
                | (None, Some _) \<Rightarrow> Undefined
                | (Some mod1, Some mod2) \<Rightarrow>
                    Ret (mod_ptr m \<noteq> mod_ptr mod1 \<and> mod_order mod1 \<noteq> mod_order mod2))
      else if mod_order n < mod_order m
      then case after_module m (rev ms) of
             None \<Rightarrow> Ret False
           | Some rest \<Rightarrow>
               (case move_down_loop rules m n rest None of
                  (None, _) \<Rightarrow> Ret False
                | (Some _, None) \<Rightarrow> Undefined
                | (Some mod1, Some mod2) \<Rightarrow>
                    Ret (mod_ptr m \<noteq> mod_ptr mod2 \<and> mod_order mod1 \<noteq> mod_order mod2))
      else Ret False)"

fun after_prev_loop :: "dt_iop_module_t \<Rightarrow> dt_iop_module_t list \<Rightarrow> dt_iop_module_t option \<Rightarrow> dt_iop_module_t option" where
  "after_prev_loop p [] nxt = nxt"
| "after_prev_loop p (x # xs) nxt = (if mod_ptr x = mod_ptr p then nxt else after_prev_loop p xs (Some x))"

definition dt_ioppr_check_can_move_after_iop ::
  "dt_iop_order_rule_t list \<Rightarrow> dt_iop_module_t list \<Rightarrow> dt_iop_module_t \<Rightarrow> dt_iop_module_t \<Rightarrow> bool cres" where
  "dt_ioppr_check_can_move_after_iop rules ms m p =
     (case after_prev_loop p (rev ms) None of
        None \<Rightarrow> Ret False
      | Some n \<Rightarrow> dt_ioppr_check_can_move_before_iop rules ms m n)"

text \<open>
  The list without its entry at \<open>i\<close>. When the link before which to insert is the removed one,
  the new list is linked to a node that is then freed.
\<close>

definition remove_link :: "nat \<Rightarrow> 'a list \<Rightarrow> 'a list" where
  "remove_link i xs = take i xs @ drop (i + 1) xs"

definition dt_ioppr_move_iop_before ::
  "dt_develop_t \<Rightarrow> dt_iop_module_t \<Rightarrow> dt_iop_module_t \<Rightarrow> (dt_develop_t \<times> bool) cres" where
  "dt_ioppr_move_iop_before dev m n =
     (let xs = iop_order_list dev
      in case (dt_ioppr_get_iop_order_link xs (mod_op n) (mod_priority n),
               dt_ioppr_get_iop_order_link xs (mod_op m) (mod_priority m)) of
           (Some nxt, Some current) \<Rightarrow>
             if nxt = current then Undefined
             else let ys = remove_link current xs;
                      p = (if current < nxt then nxt - 1 else nxt)
                  in Ret (dt_ioppr_resync_modules_order
                            (dev\<lparr>iop_order_list := take p ys @ xs ! current # drop p ys\<rparr>), True)
         | _ \<Rightarrow> Ret (dev, False))"

definition dt_ioppr_move_iop_after ::
  "dt_develop_t \<Rightarrow> dt_iop_module_t \<Rightarrow> dt_iop_module_t \<Rightarrow> dt_develop_t \<times> bool" where
  "dt_ioppr_move_iop_after dev m p =
     (let xs = iop_order_list dev
      in case (dt_ioppr_get_iop_order_link xs (mod_op p) (mod_priority p),
               dt_ioppr_get_iop_order_link xs (mod_op m) (mod_priority m)) of
           (Some prev, Some current) \<Rightarrow>
             let ys = remove_link current xs;
                 q = (if prev = current then length ys else if current < prev then prev else prev + 1)
             in (dt_ioppr_resync_modules_order
                   (dev\<lparr>iop_order_list := take q ys @ xs ! current # drop q ys\<rparr>), True)
         | _ \<Rightarrow> (dev, False))"


section \<open>Checks\<close>

definition get_fence_modules_list :: "dt_iop_module_t list \<Rightarrow> dt_iop_module_t list" where
  "get_fence_modules_list ms = filter mod_fence ms"

text \<open>The nearest fences after and before a module.\<close>

definition fence_step ::
  "dt_iop_module_t \<Rightarrow> dt_iop_module_t option \<times> dt_iop_module_t option \<Rightarrow> dt_iop_module_t \<Rightarrow>
    dt_iop_module_t option \<times> dt_iop_module_t option" where
  "fence_step m s f =
     (let (fence_prev, fence_next) = s
      in if mod_order m < mod_order f
         then (fence_prev, case fence_next of None \<Rightarrow> Some f
                 | Some g \<Rightarrow> if mod_order f < mod_order g then Some f else Some g)
         else if mod_order f < mod_order m
         then (case fence_prev of None \<Rightarrow> Some f
                 | Some g \<Rightarrow> if mod_order g < mod_order f then Some f else Some g, fence_next)
         else s)"

datatype rule_report =
    AfterFence dt_iop_module_t dt_iop_module_t
  | BeforeFence dt_iop_module_t dt_iop_module_t
  | RuleBroken dt_iop_order_rule_t dt_iop_module_t dt_iop_module_t

text \<open>The messages of the fence check.\<close>

definition check_fences :: "dt_iop_module_t list \<Rightarrow> rule_report list" where
  "check_fences ms = concat (map (\<lambda>m.
     if mod_order m = INT_MAX then []
     else case foldl (fence_step m) (None, None) (get_fence_modules_list ms) of
       (fence_prev, fence_next) \<Rightarrow>
         (case fence_next of None \<Rightarrow> [] | Some f \<Rightarrow> if mod_order f < mod_order m then [AfterFence m f] else []) @
         (case fence_prev of None \<Rightarrow> [] | Some f \<Rightarrow> if mod_order m < mod_order f then [BeforeFence m f] else [])) ms)"

definition check_module_rules ::
  "dt_iop_order_rule_t list \<Rightarrow> dt_iop_module_t list \<Rightarrow> dt_iop_module_t \<Rightarrow> dt_iop_module_t list \<Rightarrow> rule_report list" where
  "check_module_rules rules before m behind =
     (if mod_order m = INT_MAX then []
      else concat (map (\<lambda>r.
        if dt_iop_module_is m (op_prev r)
        then map (RuleBroken r m) (filter (\<lambda>x. mod_op x = op_next r) (rev before))
        else if dt_iop_module_is m (op_next r)
        then map (RuleBroken r m) (filter (\<lambda>x. mod_op x = op_prev r) behind)
        else []) rules))"

definition ioppr_check_rules :: "dt_iop_order_rule_t list \<Rightarrow> dt_iop_module_t list \<Rightarrow> rule_report list" where
  "ioppr_check_rules rules ms =
     check_fences ms @
     concat (map (\<lambda>i. check_module_rules rules (take i ms) (ms ! i) (drop (i + 1) ms)) [0..<length ms])"

text \<open>
  Both loops over the modules from the last one step to \<open>g_list_previous (dev->iop)\<close>, which is
  null: they look at the last module only.
\<close>

definition check_last_module :: "dt_iop_module_t list \<Rightarrow> bool" where
  "check_last_module ms =
     (ms = [] \<or> (let m = last ms in mod_order m = INT_MAX \<or> dt_iop_module_is_gamma m))"

definition check_last_used :: "dt_iop_module_t list \<Rightarrow> bool" where
  "check_last_used ms =
     (ms = [] \<or> (let m = last ms
       in mod_default_enabled m \<or> mod_order m = INT_MAX \<or> (\<not> mod_enabled m \<and> mod_priority m \<noteq> 0)))"

fun check_increasing :: "dt_iop_module_t option \<Rightarrow> dt_iop_module_t list \<Rightarrow> bool" where
  "check_increasing prev [] = True"
| "check_increasing prev (m # ms) =
     ((mod_order m = INT_MAX \<or> (case prev of None \<Rightarrow> True | Some p \<Rightarrow> mod_order p < mod_order m)) \<and>
      check_increasing (Some m) ms)"

definition check_history_item :: "dt_dev_history_item_t \<Rightarrow> bool" where
  "check_history_item h = (hist_order h \<noteq> INT_MAX \<or> (\<not> hist_enabled h \<and> hist_priority h \<noteq> 0))"

definition dt_ioppr_check_iop_order_ext :: "dt_develop_t \<Rightarrow> bool" where
  "dt_ioppr_check_iop_order_ext dev =
     (check_last_module (iop dev) \<and> check_last_used (iop dev) \<and> check_increasing None (iop dev) \<and>
      list_all check_history_item (history dev))"



section \<open>Modules in step with the list\<close>

definition mkey :: "dt_iop_module_t \<Rightarrow> string \<times> int" where
  "mkey m = (mod_op m, mod_priority m)"

text \<open>
  Every module has its entry and the other way round, the modules are in the order of the list, and
  no order is the mark of an unused module.
\<close>

definition list_ok :: "dt_iop_order_entry_t list \<Rightarrow> bool" where
  "list_ok xs \<longleftrightarrow> distinct (entry_ids xs) \<and> (\<forall>e\<in>set xs. instance_nr e \<noteq> - 1) \<and> length xs < 20000000"

definition dev_synced :: "dt_develop_t \<Rightarrow> bool" where
  "dev_synced dev \<longleftrightarrow> list_ok (iop_order_list dev) \<and> map mkey (iop dev) = entry_ids (iop_order_list dev) \<and>
     sorted_wrt (<) (map mod_order (iop dev)) \<and> (\<forall>m\<in>set (iop dev). mod_order m \<noteq> INT_MAX)"

lemma length_entry_ids [simp]: "length (entry_ids xs) = length xs"
  by (simp add: entry_ids_def)

lemma link_of_id:
  assumes "list_ok xs" and "i < length xs"
  shows "dt_ioppr_get_iop_order_link xs (fst (entry_ids xs ! i)) (snd (entry_ids xs ! i)) = Some i"
  using assms
proof (induction xs arbitrary: i)
  case (Cons e es)
  show ?case
  proof (cases i)
    case 0
    then show ?thesis by (simp add: entry_ids_def entry_matches_def)
  next
    case (Suc j)
    have j: "j < length es" "list_ok es" using Cons.prems Suc by (auto simp: list_ok_def entry_ids_def)
    have "entry_ids es ! j \<in> set (entry_ids es)" using j by simp
    then have "(operation e, instance_nr e) \<noteq> entry_ids es ! j"
      using Cons.prems(1) by (auto simp: list_ok_def entry_ids_def)
    moreover have "snd (entry_ids es ! j) \<noteq> - 1"
      using Cons.prems(1) j by (simp add: list_ok_def entry_ids_def)
    ultimately have "\<not> entry_matches (fst (entry_ids es ! j)) (snd (entry_ids es ! j)) e"
      by (auto simp: entry_matches_def prod_eq_iff)
    with Cons.IH [OF j(2,1)] Suc show ?thesis by (simp add: entry_ids_def)
  qed
qed simp

lemma order_of_id:
  assumes "list_ok xs" and "i < length xs"
  shows "dt_ioppr_get_iop_order (ioppr_reset_iop_order xs) (fst (entry_ids xs ! i)) (snd (entry_ids xs ! i)) =
    100 + 100 * int i"
  using link_of_id [OF assms] by (simp add: get_iop_order_reset)

interpretation module_order: gcompare dt_sort_iop_by_order mod_order "\<lambda>_. True"
  by unfold_locales (auto simp: dt_sort_iop_by_order_def)

lemma mkey_set_order [simp]: "mkey (m\<lparr>mod_order := x\<rparr>) = mkey m"
  by (simp add: mkey_def)

lemma sorted_mset_unique: "sorted xs \<Longrightarrow> sorted ys \<Longrightarrow> mset xs = mset ys \<Longrightarrow> xs = ys"
  by (metis properties_for_sort)

text \<open>
  Resynchronising brings any arrangement of the modules in step with the list.
\<close>

lemma resync_modules:
  assumes ok: "list_ok (iop_order_list dev)"
    and perm: "mset (map mkey (iop dev)) = mset (entry_ids (iop_order_list dev))"
    and used: "\<forall>m\<in>set (iop dev). mod_order m \<noteq> INT_MAX"
  shows "dev_synced (dt_ioppr_resync_modules_order dev)"
    and "entry_ids (iop_order_list (dt_ioppr_resync_modules_order dev)) = entry_ids (iop_order_list dev)"
proof -
  let ?xs = "iop_order_list dev" and ?n = "length (iop_order_list dev)"
  let ?r = "ioppr_reset_iop_order ?xs"
  let ?g = "\<lambda>k. dt_ioppr_get_iop_order ?r (fst k) (snd k)"
  let ?ms = "map (\<lambda>m. m\<lparr>mod_order := ?g (mkey m)\<rparr>) (iop dev)"
  let ?S = "g_list_sort dt_sort_iop_by_order ?ms"
  have dev': "dt_ioppr_resync_modules_order dev = dev\<lparr>iop_order_list := ?r, iop := ?S\<rparr>"
    using used by (simp add: dt_ioppr_resync_modules_order_def Let_def mkey_def cong: map_cong)
  have ids: "entry_ids ?r = entry_ids ?xs" by (simp add: entry_ids_def)
  have S_perm: "mset (map mkey ?S) = mset (entry_ids ?xs)"
    using perm by (simp add: multiset.map_comp comp_def)
  have g_ids: "map ?g (entry_ids ?xs) = map (\<lambda>i. 100 + 100 * int i) [0..<?n]"
    by (rule nth_equalityI) (simp_all add: order_of_id [OF ok])
  have S_g: "map mod_order ?S = map ?g (map mkey ?S)" by auto
  have "mset (map mod_order ?S) = mset (map ?g (entry_ids ?xs))"
    unfolding S_g mset_map using S_perm by (simp only: mset_map)
  then have orders: "map mod_order ?S = map (\<lambda>i. 100 + 100 * int i) [0..<?n]"
    unfolding g_ids by (intro sorted_mset_unique module_order.sort_sorted) (auto simp: sorted_iff_nth_mono)
  have len: "length ?S = ?n" using arg_cong [OF orders, of length] by simp
  have keys: "map mkey ?S = entry_ids ?xs"
  proof (rule nth_equalityI)
    fix k assume k: "k < length (map mkey ?S)"
    have "map mkey ?S ! k \<in> set (entry_ids ?xs)" using nth_mem [OF k] unfolding mset_eq_setD [OF S_perm] .
    then have "mkey (?S ! k) \<in> set (entry_ids ?xs)" using k by (simp only: nth_map length_map)
    then obtain p where p: "p < ?n" "mkey (?S ! k) = entry_ids ?xs ! p" by (auto simp: in_set_conv_nth)
    have "100 + 100 * int k = ?g (mkey (?S ! k))"
      using arg_cong [OF orders, of "\<lambda>l. l ! k"] arg_cong [OF S_g, of "\<lambda>l. l ! k"] k len by simp
    then have "k = p" using order_of_id [OF ok p(1)] p(2) by simp
    then show "map mkey ?S ! k = entry_ids ?xs ! k" using p k by simp
  qed (simp only: len length_map length_entry_ids)
  show "entry_ids (iop_order_list (dt_ioppr_resync_modules_order dev)) = entry_ids (iop_order_list dev)"
    using dev' ids by simp
  have "list_ok ?r" using ok ids by (auto simp: list_ok_def in_set_conv_nth reset_nth) (metis nth_mem)
  moreover have "mod_order m \<noteq> INT_MAX" if m: "m \<in> set ?S" for m
  proof -
    have "mod_order m \<in> set (map mod_order ?S)" using m by simp
    then show ?thesis using ok unfolding orders by (auto simp: list_ok_def)
  qed
  moreover have "sorted_wrt (<) (map mod_order ?S)" unfolding orders by (simp add: sorted_wrt_iff_nth_less)
  ultimately show "dev_synced (dt_ioppr_resync_modules_order dev)"
    unfolding dev' using keys ids by (simp add: dev_synced_def)
qed



section \<open>The specification of a move\<close>

text \<open>What moving \<open>a\<close> before \<open>b\<close> means for a list without repetitions.\<close>

definition moved_before :: "'a \<Rightarrow> 'a \<Rightarrow> 'a list \<Rightarrow> 'a list" where
  "moved_before a b ks =
     (let r = remove1 a ks in takeWhile (\<lambda>x. x \<noteq> b) r @ a # dropWhile (\<lambda>x. x \<noteq> b) r)"

definition moved_after :: "'a \<Rightarrow> 'a \<Rightarrow> 'a list \<Rightarrow> 'a list" where
  "moved_after a b ks =
     (let r = remove1 a ks in takeWhile (\<lambda>x. x \<noteq> b) r @ b # a # tl (dropWhile (\<lambda>x. x \<noteq> b) r))"

lemma mset_moved_before: "a \<in> set ks \<Longrightarrow> mset (moved_before a b ks) = mset ks"
proof -
  assume a: "a \<in> set ks"
  have "mset (takeWhile P r) + mset (dropWhile P r) = mset r" for P and r :: "'a list"
    by (metis mset_append takeWhile_dropWhile_id)
  with a show ?thesis by (simp add: moved_before_def Let_def)
qed

lemma moved_before_up:
  assumes "distinct (A @ a # B @ b # C)"
  shows "moved_before a b (A @ a # B @ b # C) = A @ B @ a # b # C"
proof -
  have "remove1 a (A @ a # B @ b # C) = A @ B @ b # C" using assms by (simp add: remove1_append)
  moreover have "b \<notin> set A" "b \<notin> set B" using assms by auto
  then have "takeWhile (\<lambda>x. x \<noteq> b) (A @ B @ b # C) = A @ B" "dropWhile (\<lambda>x. x \<noteq> b) (A @ B @ b # C) = b # C"
    by (auto simp: takeWhile_append dropWhile_append)
  ultimately show ?thesis by (simp add: moved_before_def)
qed

lemma moved_before_down:
  assumes "distinct (A @ b # B @ a # C)"
  shows "moved_before a b (A @ b # B @ a # C) = A @ a # b # B @ C"
proof -
  have "remove1 a (A @ b # B @ a # C) = A @ b # B @ C" using assms by (auto simp: remove1_append)
  moreover have "b \<notin> set A" using assms by auto
  then have "takeWhile (\<lambda>x. x \<noteq> b) (A @ b # B @ C) = A" "dropWhile (\<lambda>x. x \<noteq> b) (A @ b # B @ C) = b # B @ C"
    by (auto simp: takeWhile_append dropWhile_append)
  ultimately show ?thesis by (simp add: moved_before_def)
qed

text \<open>The link operations of the code on a list split at the two links.\<close>

lemma two_positions:
  assumes "i < length xs" and "j < length xs" and "i \<noteq> j"
  obtains A B C where "i < j" "xs = A @ xs ! i # B @ xs ! j # C" "length A = i" "length A + length B + 1 = j"
    | A B C where "j < i" "xs = A @ xs ! j # B @ xs ! i # C" "length A = j" "length A + length B + 1 = i"
proof -
  have split: "\<exists>A B C. xs = A @ xs ! p # B @ xs ! q # C \<and> length A = p \<and> length A + length B + 1 = q"
    if "p < q" "q < length xs" for p q
  proof (intro exI conjI)
    have "drop (Suc p) xs = take (q - Suc p) (drop (Suc p) xs) @ drop (q - Suc p) (drop (Suc p) xs)"
      by (simp only: append_take_drop_id)
    also have "drop (q - Suc p) (drop (Suc p) xs) = xs ! q # drop (Suc q) xs"
      using that by (simp add: Cons_nth_drop_Suc)
    finally show "xs = take p xs @ xs ! p # take (q - Suc p) (drop (Suc p) xs) @ xs ! q # drop (Suc q) xs"
      using that by (metis id_take_nth_drop less_trans)
  qed (use that in auto)
  show thesis
  proof (cases "i < j")
    case True
    with split [OF True assms(2)] that(1) show thesis by blast
  next
    case False
    with assms split [of j i] that(2) show thesis by (metis linorder_neqE_nat)
  qed
qed

lemma move_links:
  assumes "distinct ks" and "i < length ks" and "j < length ks" and "i \<noteq> j"
  defines "ys \<equiv> remove_link i ks" and "p \<equiv> if i < j then j - 1 else j"
  shows "take p ys @ ks ! i # drop p ys = moved_before (ks ! i) (ks ! j) ks"
  using assms(2-4)
proof (cases rule: two_positions)
  case (1 A B C)
  let ?a = "ks ! i" and ?b = "ks ! j"
  have "ys = A @ B @ ?b # C"
    unfolding ys_def remove_link_def by (subst (1 2) 1(2)) (simp add: 1(3) [symmetric])
  moreover have "p = length (A @ B)" using 1 by (simp add: p_def)
  moreover have "moved_before ?a ?b ks = A @ B @ ?a # ?b # C"
    using moved_before_up [of A ?a B ?b C] assms(1) 1(2) by metis
  ultimately show ?thesis by simp
next
  case (2 A B C)
  let ?a = "ks ! i" and ?b = "ks ! j"
  have "ys = A @ ?b # B @ C"
    unfolding ys_def remove_link_def by (subst (1 2) 2(2)) (simp add: 2(3,4) [symmetric])
  moreover have "p = length A" using 2 by (simp add: p_def)
  moreover have "moved_before ?a ?b ks = A @ ?a # ?b # B @ C"
    using moved_before_down [of A ?b B ?a C] assms(1) 2(2) by metis
  ultimately show ?thesis by simp
qed


lemma remove_link_map: "map f (remove_link i xs) = remove_link i (map f xs)"
  by (simp add: remove_link_def take_map drop_map)

lemma mset_reinsert:
  assumes "i < length xs"
  shows "mset (take p (remove_link i xs) @ xs ! i # drop p (remove_link i xs)) = mset xs"
proof -
  have "mset (take p ys) + mset (drop p ys) = mset ys" for ys :: "'a list"
    by (metis append_take_drop_id mset_append)
  then have "mset (take p (remove_link i xs) @ xs ! i # drop p (remove_link i xs)) =
      add_mset (xs ! i) (mset (remove_link i xs))" by simp
  also have "\<dots> = mset (take i xs @ xs ! i # drop (Suc i) xs)" by (simp add: remove_link_def)
  finally show ?thesis by (simp only: id_take_nth_drop [OF assms, symmetric])
qed

lemma synced_link:
  assumes "dev_synced dev" and "m \<in> set (iop dev)"
  obtains i where "i < length (iop_order_list dev)" "entry_ids (iop_order_list dev) ! i = mkey m"
    "dt_ioppr_get_iop_order_link (iop_order_list dev) (mod_op m) (mod_priority m) = Some i"
proof -
  have ok: "list_ok (iop_order_list dev)" and K: "map mkey (iop dev) = entry_ids (iop_order_list dev)"
    using assms(1) by (simp_all add: dev_synced_def)
  have "mkey m \<in> set (entry_ids (iop_order_list dev))" using assms(2) by (simp flip: K)
  then obtain i where i: "i < length (iop_order_list dev)" "entry_ids (iop_order_list dev) ! i = mkey m"
    by (auto simp: in_set_conv_nth)
  with link_of_id [OF ok i(1)] that show thesis by (simp add: mkey_def)
qed

lemma entry_ids_perm: "mset ys = mset xs \<Longrightarrow> mset (entry_ids ys) = mset (entry_ids xs)"
  by (simp add: entry_ids_def)

lemma list_ok_perm:
  assumes "list_ok xs" and "mset ys = mset xs"
  shows "list_ok ys"
proof -
  have "mset (entry_ids ys) = mset (entry_ids xs)" using assms(2) by (simp add: entry_ids_def)
  then have "distinct (entry_ids ys)" using assms(1) by (metis list_ok_def mset_eq_imp_distinct_iff)
  then show ?thesis using assms mset_eq_setD [OF assms(2)] mset_eq_length [OF assms(2)] by (simp add: list_ok_def)
qed

lemma move_iop_before_done:
  assumes sync: "dev_synced dev" and m: "m \<in> set (iop dev)" and n: "n \<in> set (iop dev)" and "mkey m \<noteq> mkey n"
  shows "\<exists>dev'. dt_ioppr_move_iop_before dev m n = Ret (dev', True) \<and> dev_synced dev' \<and>
    map mkey (iop dev') = moved_before (mkey m) (mkey n) (map mkey (iop dev))"
proof -
  let ?xs = "iop_order_list dev" and ?ids = "entry_ids (iop_order_list dev)"
  have ok: "list_ok ?xs" and K: "map mkey (iop dev) = ?ids" using sync by (simp_all add: dev_synced_def)
  obtain i where i: "i < length ?xs" "?ids ! i = mkey m"
    "dt_ioppr_get_iop_order_link ?xs (mod_op m) (mod_priority m) = Some i" using synced_link [OF sync m] .
  obtain j where j: "j < length ?xs" "?ids ! j = mkey n"
    "dt_ioppr_get_iop_order_link ?xs (mod_op n) (mod_priority n) = Some j" using synced_link [OF sync n] .
  have ij: "i \<noteq> j" using i j assms(4) by auto
  let ?p = "if i < j then j - 1 else j"
  define zs where "zs = take ?p (remove_link i ?xs) @ ?xs ! i # drop ?p (remove_link i ?xs)"
  have ids: "entry_ids zs = moved_before (mkey m) (mkey n) ?ids"
  proof -
    have "entry_ids zs = take ?p (remove_link i ?ids) @ ?ids ! i # drop ?p (remove_link i ?ids)"
      using i(1) by (simp add: zs_def entry_ids_def take_map drop_map flip: remove_link_map)
    also have "\<dots> = moved_before (?ids ! i) (?ids ! j) ?ids"
      by (rule move_links) (use ok i(1) j(1) ij in \<open>simp_all add: list_ok_def\<close>)
    finally show ?thesis by (simp add: i(2) j(2))
  qed
  have perm: "mset zs = mset ?xs" unfolding zs_def by (rule mset_reinsert [OF i(1)])
  let ?d = "dev\<lparr>iop_order_list := zs\<rparr>"
  have "mset (map mkey (iop ?d)) = mset (entry_ids (iop_order_list ?d))"
    using K entry_ids_perm [OF perm] by (simp del: mset_map)
  then have r: "dev_synced (dt_ioppr_resync_modules_order ?d)"
    "entry_ids (iop_order_list (dt_ioppr_resync_modules_order ?d)) = entry_ids zs"
    using resync_modules [of ?d] list_ok_perm [OF ok perm] sync by (auto simp: dev_synced_def)
  have "dt_ioppr_move_iop_before dev m n = Ret (dt_ioppr_resync_modules_order ?d, True)"
    using i(3) j(3) ij by (simp add: dt_ioppr_move_iop_before_def Let_def zs_def)
  moreover have "map mkey (iop (dt_ioppr_resync_modules_order ?d)) = moved_before (mkey m) (mkey n) (map mkey (iop dev))"
    using r ids K by (simp add: dev_synced_def)
  ultimately show ?thesis using r(1) by blast
qed

text \<open>
  C22: Moving a module before another, for modules in step with the order list: the call always
  succeeds, and afterwards the modules and the list are in step again and list the same modules,
  the moved one directly before the other, all others in their previous order.
\<close>

theorem move_iop_before_spec:
  assumes sync: "dev_synced dev" and m: "m \<in> set (iop dev)" and n: "n \<in> set (iop dev)" and "mkey m \<noteq> mkey n"
  shows "\<exists>dev'. dt_ioppr_move_iop_before dev m n = Ret (dev', True) \<and> dev_synced dev' \<and>
    map mkey (iop dev') = moved_before (mkey m) (mkey n) (map mkey (iop dev))"
  using move_iop_before_done [OF assms] .

definition pipe_module :: "nat \<Rightarrow> string \<Rightarrow> int \<Rightarrow> bool \<Rightarrow> dt_iop_module_t" where
  "pipe_module p op_txt ord fenced =
     \<lparr>mod_ptr = p, mod_op = op_txt, mod_priority = 0, mod_order = ord, mod_enabled = True, mod_default_enabled = True,
      mod_name = [], mod_name_hand_edited = False, mod_fence = fenced\<rparr>"

definition pipe_entry :: "string \<Rightarrow> int \<Rightarrow> dt_iop_order_entry_t" where
  "pipe_entry op_txt ord = \<lparr>o_key = IopOrder ord, operation = op_txt, instance_nr = 0, entry_name = None\<rparr>"

definition pipe_example :: dt_develop_t where
  "pipe_example = \<lparr>
     iop = [pipe_module 1 ''rawprepare'' 100 False, pipe_module 2 ''exposure'' 200 False,
            pipe_module 3 ''sharpen'' 300 False, pipe_module 4 ''colorout'' 400 True],
     iop_order_list = [pipe_entry ''rawprepare'' 100, pipe_entry ''exposure'' 200,
            pipe_entry ''sharpen'' 300, pipe_entry ''colorout'' 400],
     history = []\<rparr>"

lemma pipe_example_synced: "dev_synced pipe_example"
  by (simp add: dev_synced_def list_ok_def pipe_example_def pipe_module_def pipe_entry_def entry_ids_def mkey_def)

theorem move_iop_before_spec_witness:
  "\<exists>dev'. dt_ioppr_move_iop_before pipe_example (pipe_module 3 ''sharpen'' 300 False) (pipe_module 2 ''exposure'' 200 False)
       = Ret (dev', True) \<and> dev_synced dev' \<and>
     map mkey (iop dev') = moved_before (''sharpen'', 0) (''exposure'', 0) (map mkey (iop pipe_example))"
  using move_iop_before_spec [OF pipe_example_synced, of "pipe_module 3 ''sharpen'' 300 False"
      "pipe_module 2 ''exposure'' 200 False"]
  by (simp add: pipe_example_def pipe_module_def mkey_def)



section \<open>Allowed moves keep the rules and the fences\<close>

text \<open>No module that a rule puts after another comes before it.\<close>

definition rules_ok :: "dt_iop_order_rule_t list \<Rightarrow> (string \<times> int) list \<Rightarrow> bool" where
  "rules_ok rules = sorted_wrt (\<lambda>a b. \<not> (\<exists>r\<in>set rules. fst b = op_prev r \<and> fst a = op_next r))"

definition comes_before :: "'a \<Rightarrow> 'a \<Rightarrow> 'a list \<Rightarrow> bool" where
  "comes_before a b ks \<longleftrightarrow> a \<in> set (takeWhile (\<lambda>k. k \<noteq> b) ks)"

lemma takeWhile_absent [simp]: "b \<notin> set xs \<Longrightarrow> takeWhile (\<lambda>k. k \<noteq> b) xs = xs"
  by (auto simp: takeWhile_eq_all_conv)

lemma comes_before_append [simp]:
  "comes_before a b (xs @ ys) \<longleftrightarrow> a \<in> set (takeWhile (\<lambda>k. k \<noteq> b) xs) \<or> b \<notin> set xs \<and> comes_before a b ys"
  by (auto simp: comes_before_def takeWhile_append)

lemma comes_before_Cons [simp]: "comes_before a b (x # xs) \<longleftrightarrow> x \<noteq> b \<and> (a = x \<or> comes_before a b xs)"
  by (cases "x = b") (simp_all add: comes_before_def)

lemma rule_between_keys:
  "rule_between rules a b \<longleftrightarrow> (\<exists>r\<in>set rules. fst (mkey a) = op_prev r \<and> fst (mkey b) = op_next r)"
  by (simp add: rule_between_def dt_iop_module_is_def mkey_def)

text \<open>What a search that reaches its target has seen.\<close>

lemma move_up_loop_seen:
  "move_up_loop rules m n xs mod1 = (r, Some x) \<Longrightarrow>
     \<exists>B C. xs = B @ x # C \<and> mod_ptr x = mod_ptr n \<and> (\<forall>y\<in>set B. \<not> mod_fence y \<and> \<not> rule_between rules m y)"
proof (induction xs arbitrary: mod1)
  case (Cons a xs)
  show ?case
  proof (cases "mod_ptr a = mod_ptr n")
    case True
    with Cons.prems show ?thesis by (intro exI [of _ "[]"] exI [of _ xs]) auto
  next
    case False
    with Cons.prems have a: "\<not> mod_fence a" "\<not> rule_between rules m a"
      and "move_up_loop rules m n xs (Some a) = (r, Some x)" by (auto split: if_splits)
    from Cons.IH [OF this(3)] obtain B C where "xs = B @ x # C" "mod_ptr x = mod_ptr n"
      "\<forall>y\<in>set B. \<not> mod_fence y \<and> \<not> rule_between rules m y" by blast
    with a show ?thesis by (intro exI [of _ "a # B"] exI [of _ C]) auto
  qed
qed simp

lemma move_down_loop_seen:
  "move_down_loop rules m n xs None = (Some r, Some x) \<Longrightarrow>
     \<exists>B C. xs = B @ x # C \<and> mod_ptr x = mod_ptr n \<and> (\<forall>y\<in>set (x # B). \<not> mod_fence y \<and> \<not> rule_between rules y m)"
proof (induction xs)
  case (Cons a xs)
  have a: "\<not> mod_fence a" "\<not> rule_between rules a m" using Cons.prems by (auto split: if_splits)
  show ?case
  proof (cases "mod_ptr a = mod_ptr n")
    case True
    with Cons.prems a have "x = a" by (cases xs) auto
    with True a show ?thesis by (intro exI [of _ "[]"] exI [of _ xs]) auto
  next
    case False
    with Cons.prems have "move_down_loop rules m n xs None = (Some r, Some x)" by (auto split: if_splits)
    from Cons.IH [OF this] obtain B C where "xs = B @ x # C" "mod_ptr x = mod_ptr n"
      "\<forall>y\<in>set (x # B). \<not> mod_fence y \<and> \<not> rule_between rules y m" by blast
    with a show ?thesis by (intro exI [of _ "a # B"] exI [of _ C]) auto
  qed
qed simp

lemma after_module_split:
  assumes "after_module m ms = Some rest"
  shows "\<exists>A x. ms = A @ x # rest \<and> mod_ptr x = mod_ptr m"
proof -
  from assms obtain x where x: "dropWhile (\<lambda>y. mod_ptr y \<noteq> mod_ptr m) ms = x # rest"
    by (auto simp: after_module_def split: list.splits)
  have "ms = takeWhile (\<lambda>y. mod_ptr y \<noteq> mod_ptr m) ms @ x # rest" using x by (metis takeWhile_dropWhile_id)
  moreover have "mod_ptr x = mod_ptr m" using dropWhile_eq_Cons_conv [THEN iffD1, OF x] by simp
  ultimately show ?thesis by blast
qed

lemma ptr_unique: "distinct (map mod_ptr ms) \<Longrightarrow> x \<in> set ms \<Longrightarrow> y \<in> set ms \<Longrightarrow> mod_ptr x = mod_ptr y \<Longrightarrow> x = y"
  by (meson distinct_map inj_onD)

text \<open>The modules between a module and the place it may be moved to.\<close>

lemma can_move_before_split:
  assumes ok: "dt_ioppr_check_can_move_before_iop rules ms m n = Ret True"
    and ptrs: "distinct (map mod_ptr ms)" and m: "m \<in> set ms" and n: "n \<in> set ms"
  obtains A B C where "ms = A @ m # B @ n # C" "\<not> mod_fence m" "\<forall>y\<in>set B. \<not> mod_fence y \<and> \<not> rule_between rules m y"
    | A B C where "ms = A @ n # B @ m # C" "\<not> mod_fence m" "\<forall>y\<in>set (n # B). \<not> mod_fence y \<and> \<not> rule_between rules y m"
proof -
  have fence: "\<not> mod_fence m" using ok by (auto simp: dt_ioppr_check_can_move_before_iop_def split: if_splits)
  consider "mod_order m < mod_order n" | "mod_order n < mod_order m"
    using ok by (auto simp: dt_ioppr_check_can_move_before_iop_def split: if_splits)
  then show thesis
  proof cases
    case 1
    then obtain rest r x where a: "after_module m ms = Some rest" and l: "move_up_loop rules m n rest None = (r, Some x)"
      using ok fence by (auto simp: dt_ioppr_check_can_move_before_iop_def split: option.splits prod.splits)
    obtain A y where A: "ms = A @ y # rest" "mod_ptr y = mod_ptr m" using after_module_split [OF a] by blast
    obtain B C where B: "rest = B @ x # C" "mod_ptr x = mod_ptr n"
      "\<forall>y\<in>set B. \<not> mod_fence y \<and> \<not> rule_between rules m y" using move_up_loop_seen [OF l] by blast
    have "y = m" "x = n" using A B m n by (auto intro: ptr_unique [OF ptrs])
    with A B that(1) fence show thesis by simp
  next
    case 2
    then obtain rest r x where a: "after_module m (rev ms) = Some rest"
      and l: "move_down_loop rules m n rest None = (Some r, Some x)"
      using ok fence by (auto simp: dt_ioppr_check_can_move_before_iop_def split: option.splits prod.splits)
    obtain A y where A: "rev ms = A @ y # rest" "mod_ptr y = mod_ptr m" using after_module_split [OF a] by blast
    obtain B C where B: "rest = B @ x # C" "mod_ptr x = mod_ptr n"
      "\<forall>y\<in>set (x # B). \<not> mod_fence y \<and> \<not> rule_between rules y m" using move_down_loop_seen [OF l] by blast
    have ms: "ms = rev C @ x # rev B @ y # rev A" using arg_cong [OF A(1), of rev] B(1) by simp
    then have "y = m" "x = n" using A B m n by (auto intro: ptr_unique [OF ptrs])
    with ms B that(2) fence show thesis by simp
  qed
qed


lemma key_image: "distinct (map mkey ms) \<Longrightarrow> f \<in> set ms \<Longrightarrow> set ys \<subseteq> set ms \<Longrightarrow> mkey f \<in> mkey ` set ys \<longleftrightarrow> f \<in> set ys"
  by (meson distinct_map inj_on_image_mem_iff)

lemma rules_ok_moved_up:
  assumes "rules_ok rules (map mkey (A @ m # B @ n # C))" and "\<forall>y\<in>set B. \<not> rule_between rules m y"
  shows "rules_ok rules (map mkey (A @ B @ m # n # C))"
  using assms unfolding rules_ok_def rule_between_keys by (auto simp: sorted_wrt_append)

lemma rules_ok_moved_down:
  assumes "rules_ok rules (map mkey (A @ n # B @ m # C))" and "\<forall>y\<in>set (n # B). \<not> rule_between rules y m"
  shows "rules_ok rules (map mkey (A @ m # n # B @ C))"
  using assms unfolding rules_ok_def rule_between_keys by (auto simp: sorted_wrt_append)

text \<open>
  C33: A move that \<open>dt_ioppr_check_can_move_before_iop\<close> allows, carried out by
  \<open>dt_ioppr_move_iop_before\<close>, leaves the pipe consistent: it succeeds, an order that respects the
  rules still respects them, and no module crosses a fence.
\<close>

theorem allowed_move_keeps_rules_and_fences:
  assumes sync: "dev_synced dev" and ptrs: "distinct (map mod_ptr (iop dev))"
    and m: "m \<in> set (iop dev)" and n: "n \<in> set (iop dev)"
    and ok: "dt_ioppr_check_can_move_before_iop rules (iop dev) m n = Ret True"
  shows "\<exists>dev'. dt_ioppr_move_iop_before dev m n = Ret (dev', True) \<and> dev_synced dev' \<and>
    (rules_ok rules (map mkey (iop dev)) \<longrightarrow> rules_ok rules (map mkey (iop dev'))) \<and>
    (\<forall>f\<in>set (iop dev). \<forall>x\<in>set (iop dev). mod_fence f \<longrightarrow>
       comes_before (mkey x) (mkey f) (map mkey (iop dev')) = comes_before (mkey x) (mkey f) (map mkey (iop dev)))"
proof -
  have dist: "distinct (map mkey (iop dev))" using sync by (simp add: dev_synced_def list_ok_def)
  show ?thesis
    using ok ptrs m n
  proof (cases rule: can_move_before_split)
    case (1 A B C)
    have mn: "mkey m \<noteq> mkey n" using dist unfolding 1(1) by auto
    obtain dev' where dev': "dt_ioppr_move_iop_before dev m n = Ret (dev', True)" "dev_synced dev'"
      "map mkey (iop dev') = moved_before (mkey m) (mkey n) (map mkey (iop dev))"
      using move_iop_before_done [OF sync m n mn] by blast
    have k: "map mkey (iop dev') = map mkey (A @ B @ m # n # C)"
      using dev'(3) moved_before_up [of "map mkey A" "mkey m" "map mkey B" "mkey n" "map mkey C"] dist
      by (simp add: 1(1))
    have "comes_before (mkey x) (mkey f) (map mkey (iop dev')) = comes_before (mkey x) (mkey f) (map mkey (iop dev))"
      if f: "f \<in> set (iop dev)" "mod_fence f" for f x
    proof -
      have "f \<notin> set (m # B)" using f(2) 1(2,3) by auto
      then have "mkey f \<notin> mkey ` set (m # B)" using key_image [OF dist f(1), of "m # B"] 1(1) by auto
      then show ?thesis unfolding k by (auto simp: 1(1))
    qed
    then show ?thesis using dev'(1,2) rules_ok_moved_up [of rules A m B n C] 1 k by metis
  next
    case (2 A B C)
    have mn: "mkey m \<noteq> mkey n" using dist unfolding 2(1) by auto
    obtain dev' where dev': "dt_ioppr_move_iop_before dev m n = Ret (dev', True)" "dev_synced dev'"
      "map mkey (iop dev') = moved_before (mkey m) (mkey n) (map mkey (iop dev))"
      using move_iop_before_done [OF sync m n mn] by blast
    have k: "map mkey (iop dev') = map mkey (A @ m # n # B @ C)"
      using dev'(3) moved_before_down [of "map mkey A" "mkey n" "map mkey B" "mkey m" "map mkey C"] dist
      by (simp add: 2(1))
    have "comes_before (mkey x) (mkey f) (map mkey (iop dev')) = comes_before (mkey x) (mkey f) (map mkey (iop dev))"
      if f: "f \<in> set (iop dev)" "mod_fence f" for f x
    proof -
      have "f \<notin> set (m # n # B)" using f(2) 2(2,3) by auto
      then have "mkey f \<notin> mkey ` set (m # n # B)" using key_image [OF dist f(1), of "m # n # B"] 2(1) by auto
      then show ?thesis unfolding k by (auto simp: 2(1))
    qed
    then show ?thesis using dev'(1,2) rules_ok_moved_down [of rules A n B m C] 2 k by metis
  qed
qed

definition pipe_rules :: "dt_iop_order_rule_t list" where
  "pipe_rules = [\<lparr>op_prev = ''rawprepare'', op_next = ''exposure''\<rparr>]"

theorem allowed_move_keeps_rules_and_fences_witness:
  "dt_ioppr_check_can_move_before_iop pipe_rules (iop pipe_example)
     (pipe_module 3 ''sharpen'' 300 False) (pipe_module 2 ''exposure'' 200 False) = Ret True \<and>
   (\<exists>dev'. dt_ioppr_move_iop_before pipe_example (pipe_module 3 ''sharpen'' 300 False) (pipe_module 2 ''exposure'' 200 False)
       = Ret (dev', True) \<and> rules_ok pipe_rules (map mkey (iop dev')))"
proof -
  have v: "dt_ioppr_check_can_move_before_iop pipe_rules (iop pipe_example)
     (pipe_module 3 ''sharpen'' 300 False) (pipe_module 2 ''exposure'' 200 False) = Ret True" by code_simp
  have "pipe_module 3 ''sharpen'' 300 False \<in> set (iop pipe_example)"
    "pipe_module 2 ''exposure'' 200 False \<in> set (iop pipe_example)" "distinct (map mod_ptr (iop pipe_example))"
    "rules_ok pipe_rules (map mkey (iop pipe_example))"
    by (simp_all add: pipe_example_def pipe_module_def rules_ok_def pipe_rules_def mkey_def)
  with allowed_move_keeps_rules_and_fences [OF pipe_example_synced _ _ _ v] v show ?thesis by blast
qed


section \<open>What the checks miss\<close>

text \<open>
  Asking whether a module may be moved before the one that already follows it reads through a
  null pointer: the loop stops at its first step, before \<open>mod1\<close> is set, and \<open>mod1->iop_order\<close> is
  compared. It happens for every module that is not a fence.
\<close>

theorem can_move_before_next_undefined:
  assumes "distinct (map mod_ptr (A @ m # n # C))" and "\<not> mod_fence m" and "mod_order m < mod_order n"
  shows "dt_ioppr_check_can_move_before_iop rules (A @ m # n # C) m n = Undefined"
proof -
  have "after_module m (A @ m # n # C) = Some (n # C)"
  proof -
    have "\<forall>x\<in>set A. mod_ptr x \<noteq> mod_ptr m" 
      using assms(1) imageI [of _ "set A" mod_ptr] by (simp, metis)
    then have "dropWhile (\<lambda>x. mod_ptr x \<noteq> mod_ptr m) (A @ m # n # C) = m # n # C" by simp
    then show ?thesis by (simp add: after_module_def)
  qed
  then show ?thesis using assms by (simp add: dt_ioppr_check_can_move_before_iop_def)
qed

theorem can_move_before_next_undefined_witness:
  "dt_ioppr_check_can_move_before_iop [] (iop pipe_example)
     (pipe_module 2 ''exposure'' 200 False) (pipe_module 3 ''sharpen'' 300 False) = Undefined"
  using can_move_before_next_undefined [of "[pipe_module 1 ''rawprepare'' 100 False]"
      "pipe_module 2 ''exposure'' 200 False" "pipe_module 3 ''sharpen'' 300 False" "[pipe_module 4 ''colorout'' 400 True]" "[]"]
  by (simp add: pipe_example_def pipe_module_def)

lemma nearest_fences:
  assumes "foldl (fence_step m) s fs = (p, q)" and "\<forall>f. fst s = Some f \<longrightarrow> mod_order f < mod_order m"
    and "\<forall>f. snd s = Some f \<longrightarrow> mod_order m < mod_order f"
  shows "(\<forall>f. p = Some f \<longrightarrow> mod_order f < mod_order m) \<and> (\<forall>f. q = Some f \<longrightarrow> mod_order m < mod_order f)"
  using assms
proof (induction fs arbitrary: s)
  case (Cons g fs)
  show ?case
    by (rule Cons.IH [of "fence_step m s g"])
      (use Cons.prems in \<open>auto simp: fence_step_def Let_def split: prod.splits option.splits if_splits\<close>)
qed auto

text \<open>
  The fence check of \<open>_ioppr_check_rules\<close> never reports anything, whatever the modules are: the
  fences it compares a module with were chosen by the comparison it then tests the opposite of.
\<close>

theorem fence_check_never_reports: "check_fences ms = []"
proof -
  have "(case foldl (fence_step m) (None, None) (get_fence_modules_list ms) of
       (p, q) \<Rightarrow> (case q of None \<Rightarrow> [] | Some f \<Rightarrow> if mod_order f < mod_order m then [AfterFence m f] else []) @
         (case p of None \<Rightarrow> [] | Some f \<Rightarrow> if mod_order m < mod_order f then [BeforeFence m f] else [])) = []" for m
    using nearest_fences [of m "(None, None)" "get_fence_modules_list ms"] by (force split: prod.split option.split)
  then show ?thesis by (auto simp: check_fences_def)
qed



section \<open>Duplicate orders\<close>

text \<open>Division of the C language, towards zero.\<close>

definition c_half :: "int \<Rightarrow> int" where
  "c_half a = (if 0 \<le> a then a div 2 else - ((- a) div 2))"

text \<open>
  The loop of \<open>dt_ioppr_check_duplicate_iop_order\<close> on the list from position \<open>start\<close> on, at position
  \<open>i\<close>; \<open>used p\<close> tells whether the module at \<open>p\<close> has a history item. The call on the rest of the list
  works on the same nodes. The loop restarts after it, and may not end: it takes fuel.
\<close>

definition move_dup_back :: "nat \<Rightarrow> dt_iop_module_t list \<Rightarrow> dt_iop_module_t list" where
  "move_dup_back i ms =
     (let p = ms ! (i - 1)
      in if 2 \<le> i
         then let m0 = ms ! (i - 2)
              in if mod_order p \<noteq> mod_order m0
                 then ms[i - 1 := p\<lparr>mod_order := mod_order p - c_half (mod_order p - mod_order m0)\<rparr>] else ms
         else ms[i - 1 := p\<lparr>mod_order := mod_order p - 1\<rparr>])"

primrec check_dup_loop ::
  "nat \<Rightarrow> (nat \<Rightarrow> bool) \<Rightarrow> nat \<Rightarrow> nat \<Rightarrow> dt_iop_module_t list \<Rightarrow> dt_iop_module_t list option" where
  "check_dup_loop 0 used start i ms = None"
| "check_dup_loop (Suc n) used start i ms =
     (if length ms \<le> i then Some ms
      else
        let m = ms ! i; p = ms ! (i - 1)
        in if mod_order m = mod_order p \<and> mod_order m \<noteq> INT_MAX
           then if \<not> mod_enabled m \<and> \<not> used (mod_ptr m)
                then if i + 1 < length ms
                     then let m1 = ms ! (i + 1)
                          in if mod_order m \<noteq> mod_order m1
                             then check_dup_loop n used start (i + 1)
                                    (ms[i := m\<lparr>mod_order := mod_order m + c_half (mod_order m1 - mod_order m)\<rparr>])
                             else case check_dup_loop n used i (i + 1) ms of
                                    None \<Rightarrow> None
                                  | Some ms' \<Rightarrow> check_dup_loop n used start (start + 1) ms'
                     else check_dup_loop n used start (i + 1) (ms[i := m\<lparr>mod_order := mod_order m + 1\<rparr>])
                else if \<not> mod_enabled p \<and> \<not> used (mod_ptr p)
                then check_dup_loop n used start (i + 1) (move_dup_back i ms)
                else check_dup_loop n used start (i + 1) ms
           else check_dup_loop n used start (i + 1) ms)"

definition dt_ioppr_check_duplicate_iop_order ::
  "nat \<Rightarrow> (nat \<Rightarrow> bool) \<Rightarrow> dt_iop_module_t list \<Rightarrow> dt_iop_module_t list option" where
  "dt_ioppr_check_duplicate_iop_order n used ms = check_dup_loop n used 0 1 ms"

text \<open>On modules in step with the order list there is nothing to do.\<close>

lemma check_dup_loop_id:
  assumes "sorted_wrt (<) (map mod_order ms)"
  shows "0 < i \<Longrightarrow> length ms - i < n \<Longrightarrow> check_dup_loop n used start i ms = Some ms"
proof (induction n arbitrary: i)
  case (Suc n)
  have "mod_order (ms ! (i - 1)) < mod_order (ms ! i)" if "i < length ms"
    using sorted_wrt_nth_less [OF assms, of "i - 1" i] that Suc.prems(1) by simp
  with Suc show ?case by (auto simp: Let_def)
qed simp

lemma check_duplicate_synced:
  assumes "dev_synced dev" and "length (iop dev) < n"
  shows "dt_ioppr_check_duplicate_iop_order n used (iop dev) = Some (iop dev)"
  unfolding dt_ioppr_check_duplicate_iop_order_def
  by (rule check_dup_loop_id) (use assms in \<open>auto simp: dev_synced_def\<close>)

text \<open>
  \<open>dt_ioppr_check_duplicate_iop_order\<close> does not return when three modules in a row have the same
  order, the one in the middle is disabled and without history and the last one is enabled: the
  middle one is handed to the recursive call, which cannot move it either, and the list is scanned
  from its start again, unchanged.
\<close>

theorem check_duplicate_diverges:
  assumes "length ms = 3" and "mod_order (ms ! 0) = k" and "mod_order (ms ! 1) = k" and "mod_order (ms ! 2) = k"
    and "k \<noteq> INT_MAX" and "\<not> mod_enabled (ms ! 1)" and "\<not> used (mod_ptr (ms ! 1))" and "mod_enabled (ms ! 2)"
  shows "dt_ioppr_check_duplicate_iop_order n used ms = None"
proof -
  have last: "check_dup_loop n used 1 2 ms = Some ms \<or> check_dup_loop n used 1 2 ms = None" for n
  proof (cases n)
    case (Suc m)
    then show ?thesis using assms by (cases m) (simp_all add: Let_def move_dup_back_def)
  qed simp
  have "check_dup_loop n used 0 1 ms = None" for n
  proof (induction n)
    case (Suc n)
    then show ?case using assms last [of n] by (auto simp: Let_def numeral_2_eq_2)
  qed simp
  then show ?thesis by (simp add: dt_ioppr_check_duplicate_iop_order_def)
qed

theorem check_duplicate_diverges_witness:
  "dt_ioppr_check_duplicate_iop_order 1000 (\<lambda>_. False)
     [pipe_module 1 ''rawprepare'' 100 False, (pipe_module 2 ''sharpen'' 100 False)\<lparr>mod_enabled := False\<rparr>,
      pipe_module 3 ''exposure'' 100 False] = None"
  by (rule check_duplicate_diverges [of _ 100]) (simp_all add: pipe_module_def)

end
