(* ===== verification/Dng_Opcode.thy ===== *)
theory Dng_Opcode
  imports Prelude "HOL-Library.Monad_Syntax"
begin

text \<open>
  The opcode lists of a DNG file (\<open>src/common/dng_opcode.c\<close>): list 2 holds the gain maps,
  list 3 the lens corrections. A buffer is its bytes; reading outside of it is the value
  \<open>None\<close>. Offsets and sizes are 32-bit words and wrap around as in the code, \<open>float\<close> and
  \<open>double\<close> values are their bits, and the conversion of the C language from \<open>double\<close> to
  \<open>float\<close> is a parameter.
\<close>

section \<open>Reading big-endian values\<close>

definition be_uint :: "8 word list \<Rightarrow> int" where
  "be_uint bs = foldl (\<lambda>n b. 256 * n + uint b) 0 bs"

definition read_at :: "nat \<Rightarrow> 8 word list \<Rightarrow> nat \<Rightarrow> 'a::len word option" where
  "read_at k buf i = (if i + k \<le> length buf then Some (word_of_int (be_uint (take k (drop i buf)))) else None)"

definition get_double :: "8 word list \<Rightarrow> nat \<Rightarrow> 64 word option" where
  "get_double = read_at 8"

definition get_float :: "8 word list \<Rightarrow> nat \<Rightarrow> 32 word option" where
  "get_float = read_at 4"

definition get_long :: "8 word list \<Rightarrow> nat \<Rightarrow> 32 word option" where
  "get_long = read_at 4"


section \<open>The loop over the opcodes\<close>

text \<open>
  The two functions have the same loop and differ in what they do with an opcode. A handler gets
  the buffer, the position of the parameters, the opcode and the size of the parameters; its second
  result says whether the loop goes on.
\<close>

type_synonym 's handler = "8 word list \<Rightarrow> nat \<Rightarrow> 32 word \<Rightarrow> 32 word \<Rightarrow> 's \<Rightarrow> ('s \<times> bool) option"

fun opcode_loop :: "'s handler \<Rightarrow> 8 word list \<Rightarrow> 32 word \<Rightarrow> nat \<Rightarrow> 32 word \<Rightarrow> 's \<Rightarrow> 's option" where
  "opcode_loop h buf buf_size 0 offset s = Some s"
| "opcode_loop h buf buf_size (Suc n) offset s = do {
     opcode_id \<leftarrow> get_long buf (unat offset);
     flags \<leftarrow> get_long buf (unat (offset + 8));
     param_size \<leftarrow> get_long buf (unat (offset + 12));
     if buf_size < offset + 16 + param_size then Some s
     else do {
       (s', go_on) \<leftarrow> h buf (unat (offset + 16)) opcode_id param_size s;
       if go_on then opcode_loop h buf buf_size n (offset + (16 + param_size)) s' else Some s'
     }
   }"

section \<open>List 2: gain maps\<close>

definition OPCODE_ID_GAINMAP :: "32 word" where "OPCODE_ID_GAINMAP = 9"
definition OPCODE_ID_WARP_RECTILINEAR :: "32 word" where "OPCODE_ID_WARP_RECTILINEAR = 1"
definition OPCODE_ID_VIGNETTE_RADIAL :: "32 word" where "OPCODE_ID_VIGNETTE_RADIAL = 3"

record dt_dng_gain_map_t =
  gm_top :: "32 word"
  gm_left :: "32 word"
  gm_bottom :: "32 word"
  gm_right :: "32 word"
  gm_plane :: "32 word"
  gm_planes :: "32 word"
  row_pitch :: "32 word"
  col_pitch :: "32 word"
  map_points_v :: "32 word"
  map_points_h :: "32 word"
  map_spacing_v :: "64 word"
  map_spacing_h :: "64 word"
  map_origin_v :: "64 word"
  map_origin_h :: "64 word"
  map_planes :: "32 word"
  map_gain :: "32 word list"

definition gain_count :: "32 word \<Rightarrow> nat" where
  "gain_count param_size = unat ((param_size - 76) div 4)"

text \<open>
  The index of a gain is an \<open>int\<close>. Where it overflows the behaviour of the code is undefined, which is \<open>None\<close>, too.
\<close>

definition get_gain :: "8 word list \<Rightarrow> nat \<Rightarrow> nat \<Rightarrow> 32 word option" where
  "get_gain buf p i = (if 76 + 4 * i < 2 ^ 31 then get_float buf (p + (76 + 4 * i)) else None)"

definition read_gain_map :: "8 word list \<Rightarrow> nat \<Rightarrow> 32 word \<Rightarrow> dt_dng_gain_map_t option" where
  "read_gain_map buf p param_size = do {
     t \<leftarrow> get_long buf p;
     l \<leftarrow> get_long buf (p + 4);
     b \<leftarrow> get_long buf (p + 8);
     r \<leftarrow> get_long buf (p + 12);
     plane \<leftarrow> get_long buf (p + 16);
     planes \<leftarrow> get_long buf (p + 20);
     rp \<leftarrow> get_long buf (p + 24);
     cp \<leftarrow> get_long buf (p + 28);
     pv \<leftarrow> get_long buf (p + 32);
     ph \<leftarrow> get_long buf (p + 36);
     sv \<leftarrow> get_double buf (p + 40);
     sh \<leftarrow> get_double buf (p + 48);
     ov \<leftarrow> get_double buf (p + 56);
     oh \<leftarrow> get_double buf (p + 64);
     mp \<leftarrow> get_long buf (p + 72);
     gains \<leftarrow> those (map (get_gain buf p) [0..<gain_count param_size]);
     Some \<lparr>gm_top = t, gm_left = l, gm_bottom = b, gm_right = r, gm_plane = plane, gm_planes = planes,
       row_pitch = rp, col_pitch = cp, map_points_v = pv, map_points_h = ph, map_spacing_v = sv,
       map_spacing_h = sh, map_origin_v = ov, map_origin_h = oh, map_planes = mp, map_gain = gains\<rparr>
   }"

definition handle_list_2 :: "dt_dng_gain_map_t list handler" where
  "handle_list_2 buf p opcode_id param_size gms =
     (if opcode_id = OPCODE_ID_GAINMAP
      then do { gm \<leftarrow> read_gain_map buf p param_size; Some (gms @ [gm], True) }
      else Some (gms, True))"

definition dt_dng_opcode_process_opcode_list_2 ::
  "8 word list \<Rightarrow> 32 word \<Rightarrow> dt_dng_gain_map_t list option" where
  "dt_dng_opcode_process_opcode_list_2 buf buf_size = do {
     n \<leftarrow> get_long buf 0;
     opcode_loop handle_list_2 buf buf_size (unat n) 4 []
   }"


section \<open>List 3: lens corrections\<close>

datatype correction_type = CORRECTION_TYPE_NONE | CORRECTION_TYPE_SONY | CORRECTION_TYPE_FUJI
  | CORRECTION_TYPE_DNG | CORRECTION_TYPE_OLYMPUS

text \<open>The DNG member of the correction data of an image, and the kind of its correction.\<close>

record dng_correction =
  dng_planes :: int
  cwarp :: "32 word list list"
  centre_warp :: "32 word list"
  cvig :: "32 word list"
  centre_vig :: "32 word list"
  has_warp :: bool
  has_vignette :: bool
  exif_correction_type :: correction_type

definition read_doubles :: "8 word list \<Rightarrow> nat \<Rightarrow> nat \<Rightarrow> nat \<Rightarrow> 64 word list option" where
  "read_doubles buf p from_index n = those (map (\<lambda>i. get_double buf (p + 8 * (i + from_index))) [0..<n])"

definition handle_warp :: "(64 word \<Rightarrow> 32 word) \<Rightarrow> 8 word list \<Rightarrow> nat \<Rightarrow> dng_correction \<Rightarrow> (dng_correction \<times> bool) option" where
  "handle_warp to_float buf p cd = do {
     w \<leftarrow> get_long buf p;
     let planes = sint w;
     if planes \<noteq> 1 \<and> planes \<noteq> 3 then Some (cd, False)
     else do {
       rows \<leftarrow> those (map (\<lambda>k. read_doubles buf (p + 4) (k * 6) 6) [0..<nat planes]);
       centre \<leftarrow> read_doubles buf (p + 4) (nat planes * 6) 2;
       Some (cd\<lparr>dng_planes := planes,
                cwarp := map (map to_float) rows @ drop (nat planes) (cwarp cd),
                centre_warp := map to_float centre,
                exif_correction_type := CORRECTION_TYPE_DNG, has_warp := True\<rparr>, True)
     }
   }"

definition handle_vignette :: "(64 word \<Rightarrow> 32 word) \<Rightarrow> 8 word list \<Rightarrow> nat \<Rightarrow> dng_correction \<Rightarrow> (dng_correction \<times> bool) option" where
  "handle_vignette to_float buf p cd = do {
     vig \<leftarrow> read_doubles buf p 0 5;
     centre \<leftarrow> read_doubles buf p 5 2;
     Some (cd\<lparr>cvig := map to_float vig, centre_vig := map to_float centre, has_vignette := True,
              exif_correction_type := CORRECTION_TYPE_DNG\<rparr>, True)
   }"

definition handle_list_3 :: "(64 word \<Rightarrow> 32 word) \<Rightarrow> dng_correction handler" where
  "handle_list_3 to_float buf p opcode_id param_size cd =
     (if opcode_id = OPCODE_ID_WARP_RECTILINEAR then handle_warp to_float buf p cd
      else if opcode_id = OPCODE_ID_VIGNETTE_RADIAL then handle_vignette to_float buf p cd
      else Some (cd, True))"

definition dt_dng_opcode_process_opcode_list_3 ::
  "(64 word \<Rightarrow> 32 word) \<Rightarrow> 8 word list \<Rightarrow> 32 word \<Rightarrow> dng_correction \<Rightarrow> dng_correction option" where
  "dt_dng_opcode_process_opcode_list_3 to_float buf buf_size cd = do {
     n \<leftarrow> get_long buf 0;
     opcode_loop (handle_list_3 to_float) buf buf_size (unat n) 4 (cd\<lparr>has_warp := False, has_vignette := False\<rparr>)
   }"



section \<open>The byte format\<close>

definition be_bytes :: "nat \<Rightarrow> 'a::len word \<Rightarrow> 8 word list" where
  "be_bytes n w = rev (le_bytes n w)"

lemma length_be_bytes [simp]: "length (be_bytes n w) = n"
  by (simp add: be_bytes_def)

lemma le_bytes_Suc: "le_bytes (Suc n) w = ucast w # le_bytes n (drop_bit 8 w)"
  by (simp add: le_bytes_def upt_conv_Cons drop_bit_drop_bit ac_simps flip: map_Suc_upt del: upt_Suc)

lemma be_uint_be_bytes: "be_uint (be_bytes n w) = uint w mod 256 ^ n"
proof -
  have "foldr (\<lambda>b n. 256 * n + uint b) (le_bytes n w) 0 = uint w mod 256 ^ n"
  proof (induction n arbitrary: w)
    case (Suc n)
    have "uint (ucast w :: 8 word) = uint w mod 256"
      by (simp add: unsigned_ucast_eq take_bit_eq_mod)
    moreover have "uint (drop_bit 8 w) = uint w div 256"
      by (subst unsigned_drop_bit_eq) (simp add: drop_bit_eq_div take_bit_eq_mod)
    ultimately show ?case using Suc.IH [of "drop_bit 8 w"] by (simp add: le_bytes_Suc zmod_zmult2_eq)
  qed (simp add: le_bytes_def)
  then show ?thesis by (simp add: be_uint_def be_bytes_def foldl_conv_foldr)
qed

lemma read_at_here:
  fixes w :: "'a::len word"
  assumes "LENGTH('a) = 8 * k"
  shows "read_at k (be_bytes k w @ ys) 0 = Some w"
proof -
  have "uint w < 256 ^ k" using uint_lt2p [of w] assms by (simp add: power_mult)
  then show ?thesis by (simp add: read_at_def be_uint_be_bytes)
qed

lemma read_at_skip: "length xs \<le> i \<Longrightarrow> read_at k (xs @ ys) i = read_at k ys (i - length xs)"
  by (auto simp: read_at_def)

lemma get_long_fields [simp]:
  "get_long (be_bytes 4 w @ ys) 0 = Some w"
  "k \<le> i \<Longrightarrow> get_long (be_bytes k v @ ys) i = get_long ys (i - k)"
  "get_long (pre @ ys) (length pre + i) = get_long ys i"
  "get_long (pre @ ys) (length pre) = get_long ys 0"
  by (simp_all add: get_long_def read_at_here read_at_skip)

lemma get_float_fields [simp]:
  "get_float (be_bytes 4 w @ ys) 0 = Some w"
  "k \<le> i \<Longrightarrow> get_float (be_bytes k v @ ys) i = get_float ys (i - k)"
  "get_float (pre @ ys) (length pre + i) = get_float ys i"
  by (simp_all add: get_float_def read_at_here read_at_skip)

lemma get_double_fields [simp]:
  "get_double (be_bytes 8 w @ ys) 0 = Some w"
  "k \<le> i \<Longrightarrow> get_double (be_bytes k v @ ys) i = get_double ys (i - k)"
  "get_double (pre @ ys) (length pre + i) = get_double ys i"
  by (simp_all add: get_double_def read_at_here read_at_skip)

lemma those_map_Some:
  assumes "length xs = n" and "\<And>i. i < n \<Longrightarrow> f i = Some (xs ! i)"
  shows "those (map f [0..<n]) = Some xs"
proof -
  have "those (map Some zs) = Some zs" for zs :: "'a list" by (induction zs) auto
  moreover have "map f [0..<n] = map Some xs" using assms by (intro nth_equalityI) auto
  ultimately show ?thesis by simp
qed

lemma get_float_nth:
  "i < length gs \<Longrightarrow> get_float (concat (map (be_bytes 4) gs) @ post) (4 * i) = Some (gs ! i)"
proof (induction gs arbitrary: i)
  case (Cons g gs)
  then show ?case by (cases i) auto
qed simp

lemma get_double_nth:
  "i < length gs \<Longrightarrow> get_double (concat (map (be_bytes 8) gs) @ post) (8 * i) = Some (gs ! i)"
proof (induction gs arbitrary: i)
  case (Cons g gs)
  then show ?case by (cases i) auto
qed simp

lemma length_encoded [simp]: "length (concat (map (be_bytes k) gs)) = k * length gs"
  by (induction gs) auto

lemma read_doubles_encoded:
  assumes "j + n \<le> length gs"
  shows "read_doubles (pre @ concat (map (be_bytes 8) gs) @ post) (length pre) j n = Some (take n (drop j gs))"
  unfolding read_doubles_def
proof (rule those_map_Some)
  fix i assume i: "i < n"
  have "get_double (concat (map (be_bytes 8) gs) @ post) (8 * (i + j)) = Some (gs ! (i + j))"
    by (rule get_double_nth) (use assms i in simp)
  then show "get_double (pre @ concat (map (be_bytes 8) gs) @ post) (length pre + 8 * (i + j)) = Some (take n (drop j gs) ! i)"
    using assms i by (simp add: add.commute)
qed (use assms in simp)

text \<open>A gain map as the parameters of its opcode.\<close>

definition gain_header :: "dt_dng_gain_map_t \<Rightarrow> 8 word list" where
  "gain_header gm = be_bytes 4 (gm_top gm) @ be_bytes 4 (gm_left gm) @ be_bytes 4 (gm_bottom gm) @
     be_bytes 4 (gm_right gm) @ be_bytes 4 (gm_plane gm) @ be_bytes 4 (gm_planes gm) @
     be_bytes 4 (row_pitch gm) @ be_bytes 4 (col_pitch gm) @ be_bytes 4 (map_points_v gm) @
     be_bytes 4 (map_points_h gm) @ be_bytes 8 (map_spacing_v gm) @ be_bytes 8 (map_spacing_h gm) @
     be_bytes 8 (map_origin_v gm) @ be_bytes 8 (map_origin_h gm) @ be_bytes 4 (map_planes gm)"

definition encode_gain_map :: "dt_dng_gain_map_t \<Rightarrow> 8 word list" where
  "encode_gain_map gm = gain_header gm @ concat (map (be_bytes 4) (map_gain gm))"

lemma length_gain_header [simp]: "length (gain_header gm) = 76"
  by (simp add: gain_header_def)

lemma gain_count_encoded:
  assumes "76 + 4 * n < 2 ^ 32"
  shows "gain_count (of_nat (76 + 4 * n)) = n"
proof -
  have "(of_nat (76 + 4 * n) :: 32 word) - 76 = of_nat (4 * n)" by simp
  moreover have "unat (of_nat (4 * n) :: 32 word) = 4 * n"
    using assms by (subst unat_of_nat) (simp add: take_bit_nat_eq_self)
  then have "unat (of_nat (4 * n) div 4 :: 32 word) = n" by (simp add: unat_div)
  ultimately show ?thesis by (simp only: gain_count_def)
qed

lemma read_gain_map_encoded:
  assumes "length (encode_gain_map gm) < 2 ^ 31"
  shows "read_gain_map (pre @ encode_gain_map gm @ post) (length pre) (of_nat (length (encode_gain_map gm))) = Some gm"
proof -
  let ?buf = "pre @ encode_gain_map gm @ post"
  have n: "gain_count (of_nat (length (encode_gain_map gm))) = length (map_gain gm)"
    using gain_count_encoded [of "length (map_gain gm)"] assms by (simp add: encode_gain_map_def)
  have len: "length (encode_gain_map gm) = 76 + 4 * length (map_gain gm)"
    by (simp add: encode_gain_map_def)
  have "those (map (get_gain ?buf (length pre)) [0..<length (map_gain gm)]) = Some (map_gain gm)"
  proof (rule those_map_Some)
    fix i assume i: "i < length (map_gain gm)"
    have "get_float ?buf (length pre + (76 + 4 * i)) = get_float (gain_header gm @ concat (map (be_bytes 4) (map_gain gm)) @ post)
        (length (gain_header gm) + 4 * i)"
      by (simp only: get_float_fields encode_gain_map_def append_assoc length_gain_header)
    then have "get_float ?buf (length pre + (76 + 4 * i)) = Some (map_gain gm ! i)"
      using get_float_nth [OF i, of post] by (simp only: get_float_fields)
    then show "get_gain ?buf (length pre) i = Some (map_gain gm ! i)"
      using i assms unfolding len by (simp add: get_gain_def)
  qed simp
  then show ?thesis unfolding read_gain_map_def n by (simp add: encode_gain_map_def gain_header_def)
qed


section \<open>Reading back an encoded list\<close>

text \<open>An opcode in the file: its number, the version that introduced it, its flags, its parameters.\<close>

definition encode_frame :: "32 word \<Rightarrow> 32 word \<Rightarrow> 32 word \<Rightarrow> 8 word list \<Rightarrow> 8 word list" where
  "encode_frame opcode_id version flags ps =
     be_bytes 4 opcode_id @ be_bytes 4 version @ be_bytes 4 flags @ be_bytes 4 (of_nat (length ps) :: 32 word) @ ps"

definition encode_frames ::
  "('o \<Rightarrow> 32 word) \<Rightarrow> ('o \<Rightarrow> 8 word list) \<Rightarrow> (32 word \<times> 32 word \<times> 'o) list \<Rightarrow> 8 word list" where
  "encode_frames op_id op_params xs = concat (map (\<lambda>(v, f, x). encode_frame (op_id x) v f (op_params x)) xs)"

definition encode_opcode_list ::
  "('o \<Rightarrow> 32 word) \<Rightarrow> ('o \<Rightarrow> 8 word list) \<Rightarrow> (32 word \<times> 32 word \<times> 'o) list \<Rightarrow> 8 word list" where
  "encode_opcode_list op_id op_params xs =
     be_bytes 4 (of_nat (length xs) :: 32 word) @ encode_frames op_id op_params xs"

lemma length_encode_frame [simp]: "length (encode_frame i v f ps) = 16 + length ps"
  by (simp add: encode_frame_def)

lemma length_frames_ge: "16 * length xs \<le> length (encode_frames op_id op_params xs)"
  by (induction xs) (auto simp: encode_frames_def)

lemma unat_of_nat32 [simp]: "n < 2 ^ 32 \<Longrightarrow> unat (of_nat n :: 32 word) = n"
  by (subst unat_of_nat) (simp add: take_bit_nat_eq_self)

text \<open>
  What a handler promises: on the parameters of an opcode it knows or skips, wherever they are in the
  buffer, it has the effect of that opcode and goes on.
\<close>

locale opcode_handler =
  fixes h :: "'s handler" and op_id :: "'o \<Rightarrow> 32 word" and op_params :: "'o \<Rightarrow> 8 word list"
    and op_ok :: "'o \<Rightarrow> bool" and effect :: "'o \<Rightarrow> 's \<Rightarrow> 's"
  assumes handles: "op_ok x \<Longrightarrow> length (op_params x) < 2 ^ 32 \<Longrightarrow>
    h (pre @ op_params x @ post) (length pre) (op_id x) (of_nat (length (op_params x))) s = Some (effect x s, True)"
begin

lemma loop_encoded:
  assumes "\<forall>(v, f, x)\<in>set xs. op_ok x"
    and "buf = pre @ encode_frames op_id op_params xs @ post" and "length buf < 2 ^ 32"
  shows "opcode_loop h buf (of_nat (length buf)) (length xs) (of_nat (length pre)) s =
    Some (fold (\<lambda>(v, f, x). effect x) xs s)"
  using assms
proof (induction xs arbitrary: pre s)
  case (Cons y ys)
  obtain v f x where y: "y = (v, f, x)" by (cases y)
  let ?ps = "op_params x" and ?rest = "encode_frames op_id op_params ys @ post"
  have buf: "buf = pre @ encode_frame (op_id x) v f ?ps @ ?rest"
    using Cons.prems(2) by (simp add: y encode_frames_def)
  have len: "length pre + 16 + length ?ps \<le> length buf" by (simp add: buf)
  have bound: "length pre + 16 + length ?ps < 2 ^ 32" using len Cons.prems(3) by linarith
  have off: "unat (of_nat (length pre) + of_nat k :: 32 word) = length pre + k" if "k \<le> 16" for k
    using bound that unat_of_nat32 [of "length pre + k"] by simp
  have at: "get_long buf (unat (of_nat (length pre) :: 32 word)) = Some (op_id x)"
    "get_long buf (unat (of_nat (length pre) + 8 :: 32 word)) = Some f"
    "get_long buf (unat (of_nat (length pre) + 12 :: 32 word)) = Some (of_nat (length ?ps))"
    using off [of 0] off [of 8] off [of 12] by (simp_all add: buf encode_frame_def)
  have fits: "\<not> of_nat (length buf) < of_nat (length pre) + 16 + (of_nat (length ?ps) :: 32 word)"
  proof -
    have "of_nat (length pre) + 16 + (of_nat (length ?ps) :: 32 word) = of_nat (length pre + 16 + length ?ps)" by simp
    then show ?thesis using len bound Cons.prems(3) by (simp only: word_less_nat_alt unat_of_nat32 not_less)
  qed
  let ?pre = "pre @ be_bytes 4 (op_id x) @ be_bytes 4 v @ be_bytes 4 f @ be_bytes 4 (of_nat (length ?ps) :: 32 word)"
  have "h buf (unat (of_nat (length pre) + 16 :: 32 word)) (op_id x) (of_nat (length ?ps)) s = Some (effect x s, True)"
    using handles [of x ?pre ?rest s] off [of 16] bound Cons.prems(1) by (simp add: buf encode_frame_def y)
  moreover have "opcode_loop h buf (of_nat (length buf)) (length ys) (of_nat (length (?pre @ ?ps))) (effect x s) =
      Some (fold (\<lambda>(v, f, x). effect x) ys (effect x s))"
    by (rule Cons.IH) (use Cons.prems in \<open>auto simp: buf encode_frame_def\<close>)
  moreover have "of_nat (length (?pre @ ?ps)) = of_nat (length pre) + (16 + (of_nat (length ?ps) :: 32 word))"
    by (simp add: algebra_simps)
  ultimately show ?case using at fits by (simp add: y)
qed simp

lemma process_encoded:
  assumes "\<forall>(v, f, x)\<in>set xs. op_ok x" and "buf = encode_opcode_list op_id op_params xs @ post"
    and "length buf < 2 ^ 32"
  shows "get_long buf 0 = Some (of_nat (length xs))"
    and "opcode_loop h buf (of_nat (length buf)) (unat (of_nat (length xs) :: 32 word)) 4 s =
      Some (fold (\<lambda>(v, f, x). effect x) xs s)"
proof -
  show "get_long buf 0 = Some (of_nat (length xs))" by (simp add: assms(2) encode_opcode_list_def)
  have "length xs < 2 ^ 32" using assms(2,3) length_frames_ge [of xs op_id op_params]
    by (simp add: encode_opcode_list_def)
  then show "opcode_loop h buf (of_nat (length buf)) (unat (of_nat (length xs) :: 32 word)) 4 s =
      Some (fold (\<lambda>(v, f, x). effect x) xs s)"
    using loop_encoded [of xs buf "be_bytes 4 (of_nat (length xs) :: 32 word)" post s] assms
    by (simp add: encode_opcode_list_def)
qed

end

text \<open>The opcodes of list 2 and of list 3. A gain map has less than 2 GiB.\<close>

datatype opcode_2 = GainMap dt_dng_gain_map_t | Other2 "32 word" "8 word list"

primrec id_2 :: "opcode_2 \<Rightarrow> 32 word" where
  "id_2 (GainMap gm) = OPCODE_ID_GAINMAP"
| "id_2 (Other2 i ps) = i"

primrec params_2 :: "opcode_2 \<Rightarrow> 8 word list" where
  "params_2 (GainMap gm) = encode_gain_map gm"
| "params_2 (Other2 i ps) = ps"

primrec ok_2 :: "opcode_2 \<Rightarrow> bool" where
  "ok_2 (GainMap gm) = (length (encode_gain_map gm) < 2 ^ 31)"
| "ok_2 (Other2 i ps) = (i \<noteq> OPCODE_ID_GAINMAP)"

primrec effect_2 :: "opcode_2 \<Rightarrow> dt_dng_gain_map_t list \<Rightarrow> dt_dng_gain_map_t list" where
  "effect_2 (GainMap gm) gms = gms @ [gm]"
| "effect_2 (Other2 i ps) gms = gms"

interpretation list_2: opcode_handler handle_list_2 id_2 params_2 ok_2 effect_2
proof
  fix x pre post s
  assume "ok_2 x" and "length (params_2 x) < 2 ^ 32"
  then show "handle_list_2 (pre @ params_2 x @ post) (length pre) (id_2 x) (of_nat (length (params_2 x))) s =
      Some (effect_2 x s, True)"
    using read_gain_map_encoded by (cases x) (auto simp: handle_list_2_def)
qed

datatype opcode_3 = WarpRectilinear "64 word list list" "64 word list" | VignetteRadial "64 word list" "64 word list"
  | Other3 "32 word" "8 word list"

primrec id_3 :: "opcode_3 \<Rightarrow> 32 word" where
  "id_3 (WarpRectilinear rows centre) = OPCODE_ID_WARP_RECTILINEAR"
| "id_3 (VignetteRadial vig centre) = OPCODE_ID_VIGNETTE_RADIAL"
| "id_3 (Other3 i ps) = i"

primrec params_3 :: "opcode_3 \<Rightarrow> 8 word list" where
  "params_3 (WarpRectilinear rows centre) =
     be_bytes 4 (of_nat (length rows) :: 32 word) @ concat (map (be_bytes 8) (concat rows @ centre))"
| "params_3 (VignetteRadial vig centre) = concat (map (be_bytes 8) (vig @ centre))"
| "params_3 (Other3 i ps) = ps"

primrec ok_3 :: "opcode_3 \<Rightarrow> bool" where
  "ok_3 (WarpRectilinear rows centre) \<longleftrightarrow>
     (length rows = 1 \<or> length rows = 3) \<and> list_all (\<lambda>r. length r = 6) rows \<and> length centre = 2"
| "ok_3 (VignetteRadial vig centre) \<longleftrightarrow> length vig = 5 \<and> length centre = 2"
| "ok_3 (Other3 i ps) \<longleftrightarrow> i \<noteq> OPCODE_ID_WARP_RECTILINEAR \<and> i \<noteq> OPCODE_ID_VIGNETTE_RADIAL"

text \<open>A correction replaces the one of the same kind; planes it does not give keep their coefficients.\<close>

primrec effect_3 :: "(64 word \<Rightarrow> 32 word) \<Rightarrow> opcode_3 \<Rightarrow> dng_correction \<Rightarrow> dng_correction" where
  "effect_3 to_float (WarpRectilinear rows centre) cd =
     cd\<lparr>dng_planes := int (length rows), cwarp := map (map to_float) rows @ drop (length rows) (cwarp cd),
        centre_warp := map to_float centre, exif_correction_type := CORRECTION_TYPE_DNG, has_warp := True\<rparr>"
| "effect_3 to_float (VignetteRadial vig centre) cd =
     cd\<lparr>cvig := map to_float vig, centre_vig := map to_float centre, has_vignette := True,
        exif_correction_type := CORRECTION_TYPE_DNG\<rparr>"
| "effect_3 to_float (Other3 i ps) cd = cd"

lemma read_doubles_after:
  "j + n \<le> length gs \<Longrightarrow>
     read_doubles (pre @ be_bytes 4 w @ concat (map (be_bytes 8) gs) @ post) (length pre + 4) j n = Some (take n (drop j gs))"
  using read_doubles_encoded [of j n gs "pre @ be_bytes 4 w" post] by simp

lemma handle_warp_encoded:
  assumes "ok_3 (WarpRectilinear rows centre)"
  shows "handle_warp to_float (pre @ params_3 (WarpRectilinear rows centre) @ post) (length pre) cd =
    Some (effect_3 to_float (WarpRectilinear rows centre) cd, True)"
proof -
  let ?gs = "concat rows @ centre" and ?w = "of_nat (length rows) :: 32 word"
  let ?buf = "pre @ be_bytes 4 ?w @ concat (map (be_bytes 8) ?gs) @ post"
  consider r where "rows = [r]" "length r = 6" | r1 r2 r3 where "rows = [r1, r2, r3]" "length r1 = 6" "length r2 = 6" "length r3 = 6"
    using assms by (auto simp: length_Suc_conv numeral_3_eq_3)
  then have "length ?gs = 6 * length rows + 2 \<and> sint ?w = int (length rows) \<and> (length rows = 1 \<or> length rows = 3) \<and>
      (\<forall>k<length rows. take 6 (drop (k * 6) ?gs) = rows ! k) \<and> drop (length rows * 6) ?gs = centre"
    using assms by cases (auto simp: less_Suc_eq numeral_3_eq_3)
  then have lens: "length ?gs = 6 * length rows + 2" and w: "sint ?w = int (length rows)"
    and planes: "length rows = 1 \<or> length rows = 3"
    and row: "\<forall>k<length rows. take 6 (drop (k * 6) ?gs) = rows ! k"
    and rest: "drop (length rows * 6) ?gs = centre" by blast+
  have "those (map (\<lambda>k. read_doubles ?buf (length pre + 4) (k * 6) 6) [0..<length rows]) = Some rows"
    by (rule those_map_Some) (use read_doubles_after [of _ 6 ?gs pre ?w post] row lens in \<open>auto simp del: concat_append map_append\<close>)
  moreover have "read_doubles ?buf (length pre + 4) (length rows * 6) 2 = Some centre"
    using read_doubles_after [of "length rows * 6" 2 ?gs pre ?w post] lens rest assms by simp
  ultimately show ?thesis using w planes by (auto simp: handle_warp_def)
qed

interpretation list_3: opcode_handler "handle_list_3 to_float" id_3 params_3 ok_3 "effect_3 to_float" for to_float
proof
  fix x pre post s
  assume ok: "ok_3 x"
  show "handle_list_3 to_float (pre @ params_3 x @ post) (length pre) (id_3 x) (of_nat (length (params_3 x))) s =
      Some (effect_3 to_float x s, True)"
  proof (cases x)
    case (WarpRectilinear rows centre)
    then show ?thesis using handle_warp_encoded ok by (simp add: handle_list_3_def)
  next
    case (VignetteRadial vig centre)
    then have "read_doubles (pre @ params_3 x @ post) (length pre) 0 5 = Some vig"
      "read_doubles (pre @ params_3 x @ post) (length pre) 5 2 = Some centre"
      using ok read_doubles_encoded [of _ _ "vig @ centre" pre post] by simp_all
    then show ?thesis using VignetteRadial
      by (simp add: handle_list_3_def handle_vignette_def OPCODE_ID_WARP_RECTILINEAR_def OPCODE_ID_VIGNETTE_RADIAL_def)
  qed (use ok in \<open>simp add: handle_list_3_def\<close>)
qed


section \<open>Properties\<close>

definition gain_maps_of :: "(32 word \<times> 32 word \<times> opcode_2) list \<Rightarrow> dt_dng_gain_map_t list" where
  "gain_maps_of xs = concat (map (\<lambda>(v, f, x). case x of GainMap gm \<Rightarrow> [gm] | Other2 _ _ \<Rightarrow> []) xs)"

lemma fold_effect_2: "fold (\<lambda>(v, f, x). effect_2 x) xs gms = gms @ gain_maps_of xs"
  by (induction xs arbitrary: gms) (auto simp: gain_maps_of_def split: opcode_2.split)

text \<open>
  C40: Reading an OpcodeList2 that encodes any sequence of opcodes, followed by any bytes, stays
  inside the buffer and gives exactly its gain maps, in their order and with every field and gain
  value; opcodes of other kinds are skipped. The bounds are that the buffer has less than 4 GiB and each
  gain map less than 2 GiB, since the index of a gain in it is an \<open>int\<close>.
\<close>

theorem gain_maps_round_trip:
  assumes "list_all (\<lambda>(v, f, x). ok_2 x) xs" and "buf = encode_opcode_list id_2 params_2 xs @ post"
    and "length buf < 2 ^ 32"
  shows "dt_dng_opcode_process_opcode_list_2 buf (of_nat (length buf)) = Some (gain_maps_of xs)"
  using list_2.process_encoded(1) [of xs buf post] list_2.process_encoded(2) [of xs buf post "[]"] assms
  by (simp add: dt_dng_opcode_process_opcode_list_2_def fold_effect_2 list_all_iff case_prod_beta)

definition ex_gain_map :: dt_dng_gain_map_t where
  "ex_gain_map = \<lparr>gm_top = 0, gm_left = 0, gm_bottom = 3000, gm_right = 4000, gm_plane = 0, gm_planes = 1,
     row_pitch = 2, col_pitch = 2, map_points_v = 1, map_points_h = 2, map_spacing_v = 4607182418800017408,
     map_spacing_h = 4607182418800017408, map_origin_v = 0, map_origin_h = 0, map_planes = 1,
     map_gain = [1065353216, 1066192077]\<rparr>"

definition ex_list_2 :: "(32 word \<times> 32 word \<times> opcode_2) list" where
  "ex_list_2 = [(17039360, 1, Other2 5 [1, 2, 3]), (17039360, 0, GainMap ex_gain_map)]"

theorem gain_maps_round_trip_witness:
  "dt_dng_opcode_process_opcode_list_2 (encode_opcode_list id_2 params_2 ex_list_2) 123 = Some [ex_gain_map]"
proof -
  have len: "length (encode_opcode_list id_2 params_2 ex_list_2) = 123"
    by (simp add: encode_opcode_list_def encode_frames_def ex_list_2_def encode_gain_map_def ex_gain_map_def)
  show ?thesis
    using gain_maps_round_trip [of ex_list_2 "encode_opcode_list id_2 params_2 ex_list_2" "[]"] len
    by (simp add: ex_list_2_def OPCODE_ID_GAINMAP_def gain_maps_of_def encode_gain_map_def ex_gain_map_def)
qed

text \<open>
  Reading an OpcodeList3 that encodes any sequence of warps with one or three planes, vignettes
  and other opcodes stays inside the buffer and has the effect of these opcodes one after the other,
  starting from no warp and no vignette.
\<close>

theorem lens_corrections_round_trip:
  assumes "list_all (\<lambda>(v, f, x). ok_3 x) xs" and "buf = encode_opcode_list id_3 params_3 xs @ post"
    and "length buf < 2 ^ 32"
  shows "dt_dng_opcode_process_opcode_list_3 to_float buf (of_nat (length buf)) cd =
    Some (fold (\<lambda>(v, f, x). effect_3 to_float x) xs (cd\<lparr>has_warp := False, has_vignette := False\<rparr>))"
  using list_3.process_encoded(1) [of xs buf post]
    list_3.process_encoded(2) [of xs buf post to_float "cd\<lparr>has_warp := False, has_vignette := False\<rparr>"] assms
  by (simp add: dt_dng_opcode_process_opcode_list_3_def list_all_iff case_prod_beta)

definition ex_list_3 :: "(32 word \<times> 32 word \<times> opcode_3) list" where
  "ex_list_3 = [(17039360, 1, VignetteRadial [1, 2, 3, 4, 5] [6, 7]), (17039360, 1, WarpRectilinear [[1, 2, 3, 4, 5, 6]] [7, 8])]"

definition no_correction :: dng_correction where
  "no_correction = \<lparr>dng_planes = 0, cwarp = replicate 3 (replicate 6 0), centre_warp = [0, 0], cvig = replicate 5 0,
     centre_vig = [0, 0], has_warp = False, has_vignette = False, exif_correction_type = CORRECTION_TYPE_NONE\<rparr>"

theorem lens_corrections_round_trip_witness:
  "map_option (\<lambda>cd. (dng_planes cd, hd (cwarp cd), cvig cd, has_warp cd, has_vignette cd))
     (dt_dng_opcode_process_opcode_list_3 ucast (encode_opcode_list id_3 params_3 ex_list_3) 160 no_correction) =
   Some (1, [1, 2, 3, 4, 5, 6], [1, 2, 3, 4, 5], True, True)"
proof -
  have len: "length (encode_opcode_list id_3 params_3 ex_list_3) = 160"
    by (simp add: encode_opcode_list_def encode_frames_def ex_list_3_def)
  show ?thesis
    using lens_corrections_round_trip [of ex_list_3 "encode_opcode_list id_3 params_3 ex_list_3" "[]" ucast no_correction] len
    by (simp add: ex_list_3_def)
qed

lemma get_long_outside: "length buf < i + 4 \<Longrightarrow> get_long buf i = None"
  by (simp add: get_long_def read_at_def)

lemma short_header_overrun: "length buf < 20 \<Longrightarrow> opcode_loop h buf sz (Suc k) 4 s = None"
  using get_long_outside [of buf 16] by simp

lemma short_gain_map_overrun: "length buf < p + 76 \<Longrightarrow> read_gain_map buf p sz = None"
  using get_long_outside [of buf "p + 72"] by (simp add: read_gain_map_def)

text \<open>
  A gain map of more than 2 GiB makes the index overflow, although its size fits the 32 bits it is declared with.
\<close>

lemma big_gain_map_overflows:
  assumes "2 ^ 31 \<le> 76 + 4 * i" and "i < gain_count param_size"
  shows "read_gain_map buf p param_size = None"
proof -
  have "get_gain buf p i = None" using assms(1) by (simp add: get_gain_def)
  moreover have "i \<in> set [0..<gain_count param_size]" using assms(2) by simp
  ultimately have "None \<in> set (map (get_gain buf p) [0..<gain_count param_size])" by (metis image_eqI list.set_map)
  moreover have "None \<in> set xs \<Longrightarrow> those xs = None" for xs :: "32 word option list"
    by (induction xs) (auto split: option.split)
  ultimately show ?thesis by (simp add: read_gain_map_def split: Option.bind_split)
qed

text \<open>
  A damaged list is read outside of its buffer: the header of an opcode is read before the size is
  checked, so every buffer that announces an opcode and is shorter than 20 bytes is overrun; and the
  check does not compare the parameters with the 76 bytes every gain map needs, so a last gain map
  with fewer is overrun too, although its size is consistent.
\<close>

theorem damaged_opcode_list_overrun:
  "(\<forall>buf n. get_long buf 0 = Some n \<longrightarrow> n \<noteq> 0 \<longrightarrow> length buf < 20 \<longrightarrow>
      dt_dng_opcode_process_opcode_list_2 buf (of_nat (length buf)) = None \<and>
      dt_dng_opcode_process_opcode_list_3 to_float buf (of_nat (length buf)) cd = None) \<and>
   (\<forall>v f ps. length ps < 76 \<longrightarrow>
      dt_dng_opcode_process_opcode_list_2
        (be_bytes 4 (1 :: 32 word) @ encode_frame OPCODE_ID_GAINMAP v f ps) (of_nat (20 + length ps)) = None)"
proof (intro conjI allI impI)
  fix buf n assume "get_long buf 0 = Some n" "n \<noteq> 0" "length buf < 20"
  moreover then obtain k where "unat n = Suc k" by (metis not0_implies_Suc unat_eq_zero)
  ultimately show "dt_dng_opcode_process_opcode_list_2 buf (of_nat (length buf)) = None"
    "dt_dng_opcode_process_opcode_list_3 to_float buf (of_nat (length buf)) cd = None"
    using short_header_overrun
    by (simp_all add: dt_dng_opcode_process_opcode_list_2_def dt_dng_opcode_process_opcode_list_3_def del: opcode_loop.simps)
next
  fix v f ps assume ps: "length (ps :: 8 word list) < 76"
  let ?buf = "be_bytes 4 (1 :: 32 word) @ encode_frame OPCODE_ID_GAINMAP v f ps"
  have "handle_list_2 ?buf 20 OPCODE_ID_GAINMAP (of_nat (length ps)) [] = None"
    using short_gain_map_overrun [of ?buf 20] ps by (simp add: handle_list_2_def)
  then show "dt_dng_opcode_process_opcode_list_2 ?buf (of_nat (20 + length ps)) = None"
    by (simp add: dt_dng_opcode_process_opcode_list_2_def encode_frame_def)
qed

theorem damaged_opcode_list_overrun_witness:
  "dt_dng_opcode_process_opcode_list_2 [0, 0, 0, 1] 4 = None \<and>
   dt_dng_opcode_process_opcode_list_2
     (be_bytes 4 (1 :: 32 word) @ encode_frame OPCODE_ID_GAINMAP 17039360 0 [0, 0, 0, 0]) 24 = None"
proof -
  have "get_long [0, 0, 0, 1] 0 = Some 1" by code_simp
  then show ?thesis using damaged_opcode_list_overrun [THEN conjunct1, rule_format, of "[0, 0, 0, 1]" 1]
    damaged_opcode_list_overrun [THEN conjunct2, rule_format, of "[0, 0, 0, 0]" 17039360 0] by simp
qed

end
