(* ===== verification/Calculator.thy ===== *)
theory Calculator
  imports Prelude "HOL-Library.Monad_Syntax"
begin

text \<open>
  The calculator of the sliders (\<open>src/common/calculator.c\<close>): a scanner and a recursive descent
  parser that evaluates while it parses. The arithmetic of \<open>double\<close> and the number scanner of
  GLib are parameters, the fields of \<open>double_ops\<close>. The functions of the parser take fuel, one unit per call
  or loop iteration; \<open>None\<close> means that it ran out, which the properties exclude.
\<close>

section \<open>Tokens\<close>

datatype operators_t = O_PLUS | O_INC | O_MINUS | O_DEC | O_MULTIPLY | O_DIVISION | O_MODULO | O_POWER
  | O_RATIO | O_LEFTROUND | O_RIGHTROUND

datatype 'd token_t = T_NUMBER 'd | T_OPERATOR operators_t

record 'd double_ops =
  d_add :: "'d \<Rightarrow> 'd \<Rightarrow> 'd"
  d_sub :: "'d \<Rightarrow> 'd \<Rightarrow> 'd"
  d_mul :: "'d \<Rightarrow> 'd \<Rightarrow> 'd"
  d_div :: "'d \<Rightarrow> 'd \<Rightarrow> 'd"
  d_fmod :: "'d \<Rightarrow> 'd \<Rightarrow> 'd"
  d_pow :: "'d \<Rightarrow> 'd \<Rightarrow> 'd"
  d_less :: "'d \<Rightarrow> 'd \<Rightarrow> bool"
  d_nan :: 'd
  d_one :: 'd
  d_minus_one :: 'd
  d_strtod :: "string \<Rightarrow> 'd \<times> string"

text \<open>The state of the parser: the current token and the rest of the text.\<close>

type_synonym 'd parser_state = "'d token_t option \<times> string"

definition read_number :: "'d double_ops \<Rightarrow> string \<Rightarrow> 'd parser_state" where
  "read_number D cs = (case d_strtod D cs of (v, rest) \<Rightarrow> (Some (T_NUMBER v), rest))"

text \<open>Blanks and characters that start no token are skipped.\<close>

fun get_token :: "'d double_ops \<Rightarrow> 'd \<Rightarrow> string \<Rightarrow> 'd parser_state" where
  "get_token D x [] = (None, [])"
| "get_token D x (c # cs) =
     (if c = CHR '' '' \<or> c = CHR 0x09 then get_token D x cs
      else if c = CHR ''+'' then
        (case cs of d # ds \<Rightarrow> if d = CHR ''+'' then (Some (T_OPERATOR O_INC), ds) else (Some (T_OPERATOR O_PLUS), cs)
         | [] \<Rightarrow> (Some (T_OPERATOR O_PLUS), cs))
      else if c = CHR ''-'' then
        (case cs of d # ds \<Rightarrow> if d = CHR ''-'' then (Some (T_OPERATOR O_DEC), ds) else (Some (T_OPERATOR O_MINUS), cs)
         | [] \<Rightarrow> (Some (T_OPERATOR O_MINUS), cs))
      else if c = CHR ''*'' then (Some (T_OPERATOR O_MULTIPLY), cs)
      else if c = CHR ''/'' then (Some (T_OPERATOR O_DIVISION), cs)
      else if c = CHR ''%'' then (Some (T_OPERATOR O_MODULO), cs)
      else if c = CHR ''^'' then (Some (T_OPERATOR O_POWER), cs)
      else if c = CHR '':'' then (Some (T_OPERATOR O_RATIO), cs)
      else if c = CHR ''('' then (Some (T_OPERATOR O_LEFTROUND), cs)
      else if c = CHR '')'' then (Some (T_OPERATOR O_RIGHTROUND), cs)
      else if c = CHR ''x'' \<or> c = CHR ''X'' then (Some (T_NUMBER x), cs)
      else if c \<in> set ''0123456789.,'' then read_number D (c # cs)
      else get_token D x cs)"


section \<open>The parser\<close>

definition additive_op :: "'d double_ops \<Rightarrow> operators_t \<Rightarrow> ('d \<Rightarrow> 'd \<Rightarrow> 'd) option" where
  "additive_op D oper = (case oper of O_PLUS \<Rightarrow> Some (d_add D) | O_MINUS \<Rightarrow> Some (d_sub D) | _ \<Rightarrow> None)"

definition d_ratio :: "'d double_ops \<Rightarrow> 'd \<Rightarrow> 'd \<Rightarrow> 'd" where
  "d_ratio D l r = d_div D (if d_less D r l then l else r) (if d_less D l r then l else r)"

definition multiplicative_op :: "'d double_ops \<Rightarrow> operators_t \<Rightarrow> ('d \<Rightarrow> 'd \<Rightarrow> 'd) option" where
  "multiplicative_op D oper =
     (case oper of O_MULTIPLY \<Rightarrow> Some (d_mul D) | O_DIVISION \<Rightarrow> Some (d_div D)
      | O_MODULO \<Rightarrow> Some (d_fmod D) | O_RATIO \<Rightarrow> Some (d_ratio D) | _ \<Rightarrow> None)"

text \<open>The operator a loop goes on with, when the current token is one of its operators.\<close>

definition loop_op :: "(operators_t \<Rightarrow> 'f option) \<Rightarrow> 'd parser_state \<Rightarrow> 'f option" where
  "loop_op ops s = (case fst s of Some (T_OPERATOR oper) \<Rightarrow> ops oper | _ \<Rightarrow> None)"

definition power_op :: "'d double_ops \<Rightarrow> operators_t \<Rightarrow> ('d \<Rightarrow> 'd \<Rightarrow> 'd) option" where
  "power_op D oper = (case oper of O_POWER \<Rightarrow> Some (d_pow D) | _ \<Rightarrow> None)"

text \<open>
  The functions of the parser call each other; a call names one of them, or one of their loops with
  the value \<open>left\<close> it has so far.
\<close>

datatype 'd parser_call = ParseAdditive | AdditiveLoop 'd | ParseMultiplicative | MultiplicativeLoop 'd
  | ParsePower | PowerLoop 'd | ParseUnary | ParsePrimary

type_synonym 'd parser_result = "('d \<times> 'd parser_state) option"

text \<open>The body of a function that parses operands of the next level and loops over its operators.\<close>

definition parse_operands ::
  "'d double_ops \<Rightarrow> ('d parser_state \<Rightarrow> 'd parser_result) \<Rightarrow> ('d \<Rightarrow> 'd parser_state \<Rightarrow> 'd parser_result) \<Rightarrow>
    'd parser_state \<Rightarrow> 'd parser_result" where
  "parse_operands D operand loop s =
     (if fst s = None then Some (d_nan D, s) else do { (left, s1) \<leftarrow> operand s; loop left s1 })"

definition operator_loop ::
  "'d double_ops \<Rightarrow> 'd \<Rightarrow> (operators_t \<Rightarrow> ('d \<Rightarrow> 'd \<Rightarrow> 'd) option) \<Rightarrow>
    ('d parser_state \<Rightarrow> 'd parser_result) \<Rightarrow> ('d \<Rightarrow> 'd parser_state \<Rightarrow> 'd parser_result) \<Rightarrow>
    'd \<Rightarrow> 'd parser_state \<Rightarrow> 'd parser_result" where
  "operator_loop D x ops operand loop left s =
     (case loop_op ops s of
        None \<Rightarrow> Some (left, s)
      | Some f \<Rightarrow> do { (right, s1) \<leftarrow> operand (get_token D x (snd s)); loop (f left right) s1 })"

definition unary_body ::
  "'d double_ops \<Rightarrow> 'd \<Rightarrow> ('d parser_state \<Rightarrow> 'd parser_result) \<Rightarrow> ('d parser_state \<Rightarrow> 'd parser_result) \<Rightarrow>
    'd parser_state \<Rightarrow> 'd parser_result" where
  "unary_body D x unary primary s =
     (if fst s = None then Some (d_nan D, s)
      else if fst s = Some (T_OPERATOR O_MINUS)
      then do { (v, s1) \<leftarrow> unary (get_token D x (snd s)); Some (d_mul D (d_minus_one D) v, s1) }
      else if fst s = Some (T_OPERATOR O_PLUS) then unary (get_token D x (snd s))
      else primary s)"

definition primary_body ::
  "'d double_ops \<Rightarrow> 'd \<Rightarrow> ('d parser_state \<Rightarrow> 'd parser_result) \<Rightarrow> 'd parser_state \<Rightarrow> 'd parser_result" where
  "primary_body D x expression s =
     (case fst s of
        Some (T_NUMBER v) \<Rightarrow> Some (v, get_token D x (snd s))
      | Some (T_OPERATOR oper) \<Rightarrow>
          if oper = O_LEFTROUND
          then do {
            (v, s1) \<leftarrow> expression (get_token D x (snd s));
            if fst s1 = Some (T_OPERATOR O_RIGHTROUND) then Some (v, get_token D x (snd s1)) else Some (d_nan D, s1) }
          else Some (d_nan D, s)
      | None \<Rightarrow> Some (d_nan D, s))"

definition parse_step ::
  "'d double_ops \<Rightarrow> 'd \<Rightarrow> ('d parser_call \<Rightarrow> 'd parser_state \<Rightarrow> 'd parser_result) \<Rightarrow>
    'd parser_call \<Rightarrow> 'd parser_state \<Rightarrow> 'd parser_result" where
  "parse_step D x P call = (case call of
     ParseAdditive \<Rightarrow> parse_operands D (P ParseMultiplicative) (\<lambda>left. P (AdditiveLoop left))
   | AdditiveLoop left \<Rightarrow> operator_loop D x (additive_op D) (P ParseMultiplicative) (\<lambda>left. P (AdditiveLoop left)) left
   | ParseMultiplicative \<Rightarrow> parse_operands D (P ParsePower) (\<lambda>left. P (MultiplicativeLoop left))
   | MultiplicativeLoop left \<Rightarrow> operator_loop D x (multiplicative_op D) (P ParsePower) (\<lambda>left. P (MultiplicativeLoop left)) left
   | ParsePower \<Rightarrow> parse_operands D (P ParseUnary) (\<lambda>left. P (PowerLoop left))
   | PowerLoop left \<Rightarrow> operator_loop D x (power_op D) (P ParseUnary) (\<lambda>left. P (PowerLoop left)) left
   | ParseUnary \<Rightarrow> unary_body D x (P ParseUnary) (P ParsePrimary)
   | ParsePrimary \<Rightarrow> primary_body D x (P ParseAdditive))"

primrec parse :: "'d double_ops \<Rightarrow> 'd \<Rightarrow> nat \<Rightarrow> 'd parser_call \<Rightarrow> 'd parser_state \<Rightarrow> 'd parser_result" where
  "parse D x 0 = (\<lambda>call s. None)"
| "parse D x (Suc n) = parse_step D x (parse D x n)"

text \<open>\<open>_parse_expression\<close> and the public function; \<open>formula\<close> is \<open>None\<close> for a null pointer.\<close>

definition parse_expression :: "'d double_ops \<Rightarrow> 'd \<Rightarrow> nat \<Rightarrow> 'd parser_state \<Rightarrow> ('d \<times> 'd parser_state) option" where
  "parse_expression D x n s = parse D x n ParseAdditive s"

definition strdelimit :: "string \<Rightarrow> string" where
  "strdelimit cs = map (\<lambda>c. if c = CHR '','' then CHR ''.'' else c) cs"

definition dt_calculator_solve :: "'d double_ops \<Rightarrow> nat \<Rightarrow> 'd \<Rightarrow> string option \<Rightarrow> 'd option" where
  "dt_calculator_solve D n x formula =
     (case formula of
        None \<Rightarrow> Some (d_nan D)
      | Some txt \<Rightarrow>
          if txt = [] then Some (d_nan D)
          else
            let s = get_token D x (strdelimit txt)
            in if fst s = Some (T_OPERATOR O_INC) then Some (d_add D x (d_one D))
               else if fst s = Some (T_OPERATOR O_DEC) then Some (d_sub D x (d_one D))
               else do { (v, s1) \<leftarrow> parse_expression D x n s; Some (if fst s1 = None then v else d_nan D) })"



section \<open>More fuel does not change a result\<close>

definition le_res :: "('s \<Rightarrow> 'r option) \<Rightarrow> ('s \<Rightarrow> 'r option) \<Rightarrow> bool" where
  "le_res f g \<longleftrightarrow> (\<forall>s r. f s = Some r \<longrightarrow> g s = Some r)"

lemma le_resI: "(\<And>s r. f s = Some r \<Longrightarrow> g s = Some r) \<Longrightarrow> le_res f g"
  by (simp only: le_res_def) blast

lemma le_resD: "le_res f g \<Longrightarrow> f s = Some r \<Longrightarrow> g s = Some r"
  by (simp add: le_res_def)

lemma bind_mono:
  assumes "Option.bind a f = Some r" and "\<And>v. a = Some v \<Longrightarrow> b = Some v" and "\<And>v. f v = Some r \<Longrightarrow> g v = Some r"
  shows "Option.bind b g = Some r"
  using assms by (auto simp: bind_eq_Some_conv)

lemma parse_operands_mono:
  "le_res f f' \<Longrightarrow> (\<And>l. le_res (g l) (g' l)) \<Longrightarrow> le_res (parse_operands D f g) (parse_operands D f' g')"
  by (rule le_resI) (auto simp: parse_operands_def split: if_splits prod.splits elim!: bind_mono dest: le_resD)

lemma operator_loop_mono:
  "le_res f f' \<Longrightarrow> (\<And>l. le_res (g l) (g' l)) \<Longrightarrow>
     le_res (operator_loop D x ops f g l) (operator_loop D x ops f' g' l)"
  by (rule le_resI) (auto simp: operator_loop_def split: option.splits prod.splits elim!: bind_mono dest: le_resD)

lemma unary_body_mono: "le_res f f' \<Longrightarrow> le_res g g' \<Longrightarrow> le_res (unary_body D x f g) (unary_body D x f' g')"
  by (rule le_resI) (auto simp: unary_body_def split: if_splits prod.splits elim!: bind_mono dest: le_resD)

lemma primary_body_mono: "le_res f f' \<Longrightarrow> le_res (primary_body D x f) (primary_body D x f')"
  by (rule le_resI)
    (auto simp: primary_body_def split: option.splits token_t.splits if_splits prod.splits elim!: bind_mono dest: le_resD)

lemmas body_mono = parse_operands_mono operator_loop_mono unary_body_mono primary_body_mono

lemma parse_step_mono: "(\<And>c. le_res (P c) (Q c)) \<Longrightarrow> le_res (parse_step D x P c) (parse_step D x Q c)"
  by (cases c) (auto simp: parse_step_def intro!: body_mono)

lemma parse_mono_Suc: "le_res (parse D x n c) (parse D x (Suc n) c)"
proof (induction n arbitrary: c)
  case (Suc n)
  then show ?case by (simp only: parse.simps parse_step_mono)
qed (simp add: le_res_def)

lemma parse_mono:
  assumes "m \<le> n" and "parse D x m c s = Some r"
  shows "parse D x n c s = Some r"
  using assms(1)
proof (induction n rule: dec_induct)
  case (step n)
  then show ?case using le_resD [OF parse_mono_Suc [of D x n c]] by blast
qed (rule assms(2))


section \<open>The parser always returns\<close>

definition strtod_ok :: "'d double_ops \<Rightarrow> bool" where
  "strtod_ok D \<longleftrightarrow> (\<forall>cs. length (snd (d_strtod D cs)) \<le> length cs)"

primrec token_size :: "'d token_t option \<Rightarrow> nat" where
  "token_size None = 0"
| "token_size (Some t) = (case t of T_NUMBER _ \<Rightarrow> 1 | T_OPERATOR _ \<Rightarrow> 2)"

definition state_size :: "'d parser_state \<Rightarrow> nat" where
  "state_size s = 2 * length (snd s) + token_size (fst s)"

primrec call_rank :: "'d parser_call \<Rightarrow> nat" where
  "call_rank ParseAdditive = 5"
| "call_rank (AdditiveLoop v) = 1"
| "call_rank ParseMultiplicative = 4"
| "call_rank (MultiplicativeLoop v) = 1"
| "call_rank ParsePower = 3"
| "call_rank (PowerLoop v) = 1"
| "call_rank ParseUnary = 2"
| "call_rank ParsePrimary = 1"

lemma call_rank_pos: "0 < call_rank c"
  by (cases c) simp_all

lemma get_token_size:
  assumes "strtod_ok D"
  shows "state_size (get_token D x p) \<le> 2 * length p + 1"
proof (induction p)
  case (Cons c cs)
  have "length (snd (d_strtod D (c # cs))) \<le> length (c # cs)" using assms unfolding strtod_ok_def by blast
  with Cons show ?case
    by (auto simp: state_size_def read_number_def split: prod.splits list.splits)
qed (simp add: state_size_def)

lemma next_token_size:
  assumes "strtod_ok D"
  shows "fst s = Some t \<Longrightarrow> state_size (get_token D x (snd s)) \<le> state_size s"
    and "fst s = Some (T_OPERATOR oper) \<Longrightarrow> state_size (get_token D x (snd s)) < state_size s"
  using get_token_size [OF assms, of x "snd s"] by (auto simp: state_size_def split: token_t.splits)

lemma parse_returns:
  assumes D: "strtod_ok D"
  shows "call_rank c + 6 * state_size s \<le> n \<Longrightarrow> \<exists>v s'. parse D x n c s = Some (v, s') \<and> state_size s' \<le> state_size s"
proof (induction n arbitrary: c s)
  case (Suc n)
  note step = next_token_size [OF D]
  have operands: "\<exists>v s'. parse_operands D (parse D x n c1) (\<lambda>l. parse D x n (c2 l)) s = Some (v, s') \<and> state_size s' \<le> state_size s"
    if r1: "call_rank c1 + 6 * state_size s \<le> n"  and r2: "\<And>l. call_rank (c2 l) + 6 * state_size s \<le> n" for c1 c2
  proof (cases "fst s")
    case (Some t)
    obtain v s1 where 1: "parse D x n c1 s = Some (v, s1)" "state_size s1 \<le> state_size s" using Suc.IH [OF r1] by blast
    have "call_rank (c2 v) + 6 * state_size s1 \<le> n" using r2 [of v] 1(2) by linarith
    from Suc.IH [OF this] 1 Some show ?thesis by (force simp: parse_operands_def)
  qed (simp add: parse_operands_def)
  have loop: "\<exists>v s'. operator_loop D x ops (parse D x n c1) (\<lambda>l. parse D x n (c2 l)) left s = Some (v, s') \<and> state_size s' \<le> state_size s"
    if r1: "call_rank c1 + 6 * state_size s \<le> n + 5"  and r2: "\<And>l. call_rank (c2 l) + 6 * state_size s \<le> n + 5" for c1 c2 ops left
  proof (cases "loop_op ops s")
    case (Some f)
    then obtain oper where t: "fst s = Some (T_OPERATOR oper)" by (auto simp: loop_op_def split: option.splits token_t.splits)
    let ?s = "get_token D x (snd s)"
    have "call_rank c1 + 6 * state_size ?s \<le> n" using step(2) [OF t, of x] r1 by linarith
    then obtain v s1 where 1: "parse D x n c1 ?s = Some (v, s1)" "state_size s1 \<le> state_size ?s" using Suc.IH by blast
    have "call_rank (c2 (f left v)) + 6 * state_size s1 \<le> n" using r2 [of "f left v"] 1(2) step(2) [OF t, of x] by linarith
    from Suc.IH [OF this] 1 Some step(2) [OF t, of x] show ?thesis by (force simp: operator_loop_def)
  qed (simp add: operator_loop_def)
  have after: "\<exists>v s'. parse D x n c' (get_token D x (snd s)) = Some (v, s') \<and> state_size s' < state_size s"
    if r1: "fst s = Some (T_OPERATOR oper)" and r2: "call_rank c' + 6 * state_size s \<le> n + 6" for oper c'
    using Suc.IH [of c' "get_token D x (snd s)"] step(2) [OF r1, of x] r2 by fastforce
  show ?case
  proof (cases c)
    case ParseUnary
    note r = Suc.prems [unfolded ParseUnary]
    consider "fst s = None" | "fst s = Some (T_OPERATOR O_MINUS)" | "fst s = Some (T_OPERATOR O_PLUS)"
      | "fst s \<noteq> None" "fst s \<noteq> Some (T_OPERATOR O_MINUS)" "fst s \<noteq> Some (T_OPERATOR O_PLUS)" by blast
    then show ?thesis
    proof cases
      case 4
      then show ?thesis using Suc.IH [of ParsePrimary s] r by (auto simp: ParseUnary parse_step_def unary_body_def)
    qed (use after [of O_MINUS ParseUnary] after [of O_PLUS ParseUnary] r in
        \<open>force simp: ParseUnary parse_step_def unary_body_def\<close>)+
  next
    case ParsePrimary
    show ?thesis
    proof (cases "fst s = Some (T_OPERATOR O_LEFTROUND)")
      case True
      then obtain v s1 where 1: "parse D x n ParseAdditive (get_token D x (snd s)) = Some (v, s1)" "state_size s1 < state_size s"
        using after [of O_LEFTROUND ParseAdditive] Suc.prems ParsePrimary by auto
      then show ?thesis using True ParsePrimary step(1) [of s1 "T_OPERATOR O_RIGHTROUND" x]
        by (auto simp: parse_step_def primary_body_def simp del: split_paired_Ex)
    next
      case False
      then show ?thesis using ParsePrimary step(1) [of s _ x]
        by (auto simp: parse_step_def primary_body_def simp del: split_paired_Ex split: option.split token_t.split)
    qed
  qed (use operands loop Suc.prems in \<open>auto simp: parse_step_def\<close>)
next
  case 0
  then show ?case using call_rank_pos [of c] by simp
qed



section \<open>What is parsed\<close>

text \<open>The levels of the grammar, from sums to primary expressions.\<close>

definition level_call :: "nat \<Rightarrow> 'd parser_call" where
  "level_call l = [ParseAdditive, ParseMultiplicative, ParsePower, ParseUnary, ParsePrimary] ! l"

definition level_loop :: "nat \<Rightarrow> 'd \<Rightarrow> 'd parser_call" where
  "level_loop l v = [AdditiveLoop v, MultiplicativeLoop v, PowerLoop v] ! l"

definition level_ops :: "'d double_ops \<Rightarrow> nat \<Rightarrow> operators_t \<Rightarrow> ('d \<Rightarrow> 'd \<Rightarrow> 'd) option" where
  "level_ops D l = [additive_op D, multiplicative_op D, power_op D] ! l"

lemma three_levels: "l < 3 \<longleftrightarrow> l = 0 \<or> l = 1 \<or> l = (2 :: nat)"
  by auto

lemma parse_step_level:
  assumes "l < 3"
  shows "parse_step D x P (level_call l) = parse_operands D (P (level_call (Suc l))) (\<lambda>v. P (level_loop l v))"
    and "parse_step D x P (level_loop l v) =
      operator_loop D x (level_ops D l) (P (level_call (Suc l))) (\<lambda>v. P (level_loop l v)) v"
  using assms by (auto simp: three_levels parse_step_def level_call_def level_loop_def level_ops_def)

lemma level_ops_disjoint:
  "l < 3 \<Longrightarrow> m < 3 \<Longrightarrow> level_ops D l oper = Some f \<Longrightarrow> l \<noteq> m \<Longrightarrow> level_ops D m oper = None"
  by (auto simp: three_levels level_ops_def additive_op_def multiplicative_op_def power_op_def split: operators_t.splits)

text \<open>The parser has a result for some fuel.\<close>

definition runs :: "'d double_ops \<Rightarrow> 'd \<Rightarrow> 'd parser_call \<Rightarrow> 'd parser_state \<Rightarrow> 'd \<times> 'd parser_state \<Rightarrow> bool" where
  "runs D x c s r \<longleftrightarrow> (\<exists>n. parse D x n c s = Some r)"

lemma runs_fuel: "runs D x c s r \<Longrightarrow> runs D x c' s' r' \<Longrightarrow> \<exists>n. parse D x n c s = Some r \<and> parse D x n c' s' = Some r'"
  unfolding runs_def by (metis le_cases parse_mono)

lemma runs_step: "parse_step D x (parse D x n) c s = Some r \<Longrightarrow> runs D x c s r"
  unfolding runs_def by (intro exI [of _ "Suc n"]) simp

lemma runs_operands:
  assumes "l < 3" and "fst s \<noteq> None" and "runs D x (level_call (Suc l)) s (v, s1)" and "runs D x (level_loop l v) s1 r"
  shows "runs D x (level_call l) s r"
proof -
  obtain n where n: "parse D x n (level_call (Suc l)) s = Some (v, s1)" "parse D x n (level_loop l v) s1 = Some r"
    using runs_fuel [OF assms(3,4)] by blast
  show ?thesis by (rule runs_step [of _ _ n]) (use assms(1,2) n in \<open>auto simp: parse_step_level parse_operands_def\<close>)
qed

lemma runs_loop_stop: "l < 3 \<Longrightarrow> loop_op (level_ops D l) s = None \<Longrightarrow> runs D x (level_loop l v) s (v, s)"
  by (rule runs_step [of _ _ 0]) (simp add: parse_step_level operator_loop_def)

lemma runs_loop_step:
  assumes "l < 3" and "loop_op (level_ops D l) s = Some f"
    and "runs D x (level_call (Suc l)) (get_token D x (snd s)) (w, s1)" and "runs D x (level_loop l (f v w)) s1 r"
  shows "runs D x (level_loop l v) s r"
proof -
  obtain n where n: "parse D x n (level_call (Suc l)) (get_token D x (snd s)) = Some (w, s1)"
    "parse D x n (level_loop l (f v w)) s1 = Some r" using runs_fuel [OF assms(3,4)] by blast
  show ?thesis by (rule runs_step [of _ _ n]) (use assms(1,2) n in \<open>simp add: parse_step_level operator_loop_def\<close>)
qed

text \<open>The tokens a state still delivers.\<close>

primrec lexes :: "'d double_ops \<Rightarrow> 'd \<Rightarrow> 'd token_t list \<Rightarrow> 'd parser_state \<Rightarrow> bool" where
  "lexes D x [] s \<longleftrightarrow> fst s = None"
| "lexes D x (t # ts) s \<longleftrightarrow> fst s = Some t \<and> lexes D x ts (get_token D x (snd s))"

text \<open>The next token is no operator of the levels from \<open>l\<close> on.\<close>

definition head_free :: "'d double_ops \<Rightarrow> nat \<Rightarrow> 'd token_t list \<Rightarrow> bool" where
  "head_free D l ts \<longleftrightarrow>
     (case ts of T_OPERATOR oper # _ \<Rightarrow> \<forall>m<3. l \<le> m \<longrightarrow> level_ops D m oper = None | _ \<Rightarrow> True)"

lemma head_free_stops:
  "l < 3 \<Longrightarrow> head_free D l ts \<Longrightarrow> lexes D x ts s \<Longrightarrow> loop_op (level_ops D l) s = None"
  by (cases ts) (auto simp: head_free_def loop_op_def split: token_t.splits)

lemma head_free_weaken: "head_free D l ts \<Longrightarrow> l \<le> m \<Longrightarrow> head_free D m ts"
  by (auto simp: head_free_def split: list.splits token_t.splits)

text \<open>
  Tokens that a level of the parser reads completely, with their value; and tokens after which the
  loop of the level goes on with their value.
\<close>

definition reads_as :: "'d double_ops \<Rightarrow> 'd \<Rightarrow> nat \<Rightarrow> 'd token_t list \<Rightarrow> 'd \<Rightarrow> bool" where
  "reads_as D x l ts v \<longleftrightarrow> (\<forall>s rest. lexes D x (ts @ rest) s \<longrightarrow> head_free D l rest \<longrightarrow>
     (\<exists>s'. lexes D x rest s' \<and> runs D x (level_call l) s (v, s')))"

definition continues :: "'d double_ops \<Rightarrow> 'd \<Rightarrow> nat \<Rightarrow> 'd token_t list \<Rightarrow> 'd \<Rightarrow> bool" where
  "continues D x l ts v \<longleftrightarrow> (\<forall>s rest. lexes D x (ts @ rest) s \<longrightarrow> head_free D (Suc l) rest \<longrightarrow>
     (\<exists>s'. lexes D x rest s' \<and> (\<forall>r. runs D x (level_loop l v) s' r \<longrightarrow> runs D x (level_call l) s r)))"

lemma continues_complete:
  assumes "l < 3" and "continues D x l ts v"
  shows "reads_as D x l ts v"
  unfolding reads_as_def
proof (intro allI impI)
  fix s rest assume "lexes D x (ts @ rest) s" and free: "head_free D l rest"
  then obtain s' where s': "lexes D x rest s'" "\<forall>r. runs D x (level_loop l v) s' r \<longrightarrow> runs D x (level_call l) s r"
    using assms(2) head_free_weaken [OF free, of "Suc l"] unfolding continues_def by fastforce
  with runs_loop_stop [OF assms(1) head_free_stops [OF assms(1) free s'(1)]]
  show "\<exists>s'. lexes D x rest s' \<and> runs D x (level_call l) s (v, s')" by blast
qed

lemma complete_continues:
  assumes "l < 3" and "ts \<noteq> []" and "reads_as D x (Suc l) ts v"
  shows "continues D x l ts v"
  unfolding continues_def
proof (intro allI impI)
  fix s rest assume lex: "lexes D x (ts @ rest) s" and "head_free D (Suc l) rest"
  then obtain s' where s': "lexes D x rest s'" "runs D x (level_call (Suc l)) s (v, s')"
    using assms(3) unfolding reads_as_def by blast
  have "fst s \<noteq> None" using lex assms(2) by (cases ts) auto
  with runs_operands [OF assms(1) _ s'(2)] s'(1)
  show "\<exists>s'. lexes D x rest s' \<and> (\<forall>r. runs D x (level_loop l v) s' r \<longrightarrow> runs D x (level_call l) s r)" by blast
qed

lemma continues_operator:
  assumes "l < 3" and "continues D x l ts v" and "reads_as D x (Suc l) us w" and "level_ops D l oper = Some f"
  shows "continues D x l (ts @ T_OPERATOR oper # us) (f v w)"
  unfolding continues_def
proof (intro allI impI)
  fix s rest assume "lexes D x ((ts @ T_OPERATOR oper # us) @ rest) s" and free: "head_free D (Suc l) rest"
  then have lex: "lexes D x (ts @ T_OPERATOR oper # us @ rest) s" by simp
  have "head_free D (Suc l) (T_OPERATOR oper # us @ rest)"
    using level_ops_disjoint [OF assms(1) _ assms(4)] by (simp add: head_free_def)
  then obtain s1 where s1: "lexes D x (T_OPERATOR oper # us @ rest) s1"
    "\<forall>r. runs D x (level_loop l v) s1 r \<longrightarrow> runs D x (level_call l) s r"
    using assms(2) lex unfolding continues_def by blast
  then have "lexes D x (us @ rest) (get_token D x (snd s1))" by simp
  then obtain s2 where s2: "lexes D x rest s2" "runs D x (level_call (Suc l)) (get_token D x (snd s1)) (w, s2)"
    using assms(3) free unfolding reads_as_def by blast
  have "loop_op (level_ops D l) s1 = Some f" using s1(1) assms(4) by (simp add: loop_op_def)
  then have "\<forall>r. runs D x (level_loop l (f v w)) s2 r \<longrightarrow> runs D x (level_call l) s r"
    using runs_loop_step [OF assms(1) _ s2(2)] s1(2) by blast
  with s2(1) show "\<exists>s'. lexes D x rest s' \<and> (\<forall>r. runs D x (level_loop l (f v w)) s' r \<longrightarrow> runs D x (level_call l) s r)" by blast
qed

lemma completeD:
  "reads_as D x l ts v \<Longrightarrow> lexes D x (ts @ rest) s \<Longrightarrow> head_free D l rest \<Longrightarrow>
     \<exists>s' n. lexes D x rest s' \<and> parse D x n (level_call l) s = Some (v, s')"
  unfolding reads_as_def runs_def by blast

text \<open>Numbers, brackets and signs.\<close>

lemma complete_number: "reads_as D x 4 [T_NUMBER v] v"
  unfolding reads_as_def
proof (intro allI impI)
  fix s rest assume "lexes D x ([T_NUMBER v] @ rest) s"
  then have "fst s = Some (T_NUMBER v)" "lexes D x rest (get_token D x (snd s))" by simp_all
  then show "\<exists>s'. lexes D x rest s' \<and> runs D x (level_call 4) s (v, s')"
    by (intro exI [of _ "get_token D x (snd s)"] conjI runs_step [of _ _ 0])
      (simp_all add: parse_step_def level_call_def primary_body_def)
qed

lemma complete_brackets:
  assumes "reads_as D x 0 ts v"
  shows "reads_as D x 4 (T_OPERATOR O_LEFTROUND # ts @ [T_OPERATOR O_RIGHTROUND]) v"
  unfolding reads_as_def
proof (intro allI impI)
  fix s rest assume "lexes D x ((T_OPERATOR O_LEFTROUND # ts @ [T_OPERATOR O_RIGHTROUND]) @ rest) s"
  then have s: "fst s = Some (T_OPERATOR O_LEFTROUND)"
    and lex: "lexes D x (ts @ T_OPERATOR O_RIGHTROUND # rest) (get_token D x (snd s))" by simp_all
  have "head_free D 0 (T_OPERATOR O_RIGHTROUND # rest)"
    by (simp add: head_free_def three_levels level_ops_def additive_op_def multiplicative_op_def power_op_def)
  then obtain s1 n where s1: "lexes D x (T_OPERATOR O_RIGHTROUND # rest) s1"
    "parse D x n (level_call 0) (get_token D x (snd s)) = Some (v, s1)"
    using assms lex unfolding reads_as_def runs_def by blast
  then show "\<exists>s'. lexes D x rest s' \<and> runs D x (level_call 4) s (v, s')"
    using s by (intro exI [of _ "get_token D x (snd s1)"] conjI runs_step [of _ _ n])
      (simp_all add: parse_step_def level_call_def primary_body_def)
qed

definition sign :: "'d token_t \<Rightarrow> bool" where
  "sign t \<longleftrightarrow> t = T_OPERATOR O_MINUS \<or> t = T_OPERATOR O_PLUS"

lemma complete_unsigned:
  assumes "reads_as D x 4 ts v" and "ts \<noteq> []" and "\<not> sign (hd ts)"
  shows "reads_as D x 3 ts v"
  unfolding reads_as_def
proof (intro allI impI)
  fix s rest assume lex: "lexes D x (ts @ rest) s" and "head_free D 3 rest"
  then obtain s' n where s': "lexes D x rest s'" "parse D x n (level_call 4) s = Some (v, s')"
    using completeD [OF assms(1)] head_free_weaken [of D 3 rest 4] by fastforce
  have "fst s = Some (hd ts)" using lex assms(2) by (cases ts) auto
  then have "runs D x (level_call 3) s (v, s')"
    using s'(2) assms(3) by (intro runs_step [of _ _ n]) (auto simp: parse_step_def level_call_def unary_body_def sign_def)
  with s'(1) show "\<exists>s'. lexes D x rest s' \<and> runs D x (level_call 3) s (v, s')" by blast
qed

lemma complete_signed:
  assumes "reads_as D x 3 ts v"
  shows "reads_as D x 3 (T_OPERATOR O_MINUS # ts) (d_mul D (d_minus_one D) v)" and "reads_as D x 3 (T_OPERATOR O_PLUS # ts) v"
proof -
  have operand: "\<exists>s' n. lexes D x rest s' \<and> parse D x n (level_call 3) (get_token D x (snd s)) = Some (v, s') \<and> fst s = Some t"
    if "lexes D x ((t # ts) @ rest) s" "head_free D 3 rest" for s rest t
    using completeD [OF assms, of rest "get_token D x (snd s)"] that by simp
  have "\<exists>s'. lexes D x rest s' \<and> runs D x (level_call 3) s (d_mul D (d_minus_one D) v, s')"
    if "lexes D x ((T_OPERATOR O_MINUS # ts) @ rest) s" "head_free D 3 rest" for s rest
  proof -
    from operand [OF that] obtain s' n where "lexes D x rest s'"
      "parse D x n (level_call 3) (get_token D x (snd s)) = Some (v, s')" "fst s = Some (T_OPERATOR O_MINUS)" by blast
    then show ?thesis by (intro exI [of _ s'] conjI runs_step [of _ _ n]) (simp_all add: parse_step_def level_call_def unary_body_def)
  qed
  then show "reads_as D x 3 (T_OPERATOR O_MINUS # ts) (d_mul D (d_minus_one D) v)" unfolding reads_as_def by blast
  have "\<exists>s'. lexes D x rest s' \<and> runs D x (level_call 3) s (v, s')"
    if "lexes D x ((T_OPERATOR O_PLUS # ts) @ rest) s" "head_free D 3 rest" for s rest
  proof -
    from operand [OF that] obtain s' n where "lexes D x rest s'"
      "parse D x n (level_call 3) (get_token D x (snd s)) = Some (v, s')" "fst s = Some (T_OPERATOR O_PLUS)" by blast
    then show ?thesis by (intro exI [of _ s'] conjI runs_step [of _ _ n]) (simp_all add: parse_step_def level_call_def unary_body_def)
  qed
  then show "reads_as D x 3 (T_OPERATOR O_PLUS # ts) v" unfolding reads_as_def by blast
qed

text \<open>From a level to the levels below it.\<close>

lemma levels_below:
  assumes "reads_as D x 3 ts v" and "ts \<noteq> []"
  shows "l \<le> 3 \<Longrightarrow> reads_as D x l ts v" and "l < 3 \<Longrightarrow> continues D x l ts v"
proof -
  have below: "continues D x l ts v \<and> reads_as D x l ts v" if "l < 3" "reads_as D x (Suc l) ts v" for l
    using complete_continues [OF that(1) assms(2) that(2)] continues_complete [OF that(1)] by (intro conjI)
  have "reads_as D x (Suc 2) ts v" using assms(1) by simp
  note 2 = below [OF _ this, simplified]
  have 1: "continues D x 1 ts v \<and> reads_as D x 1 ts v" by (rule below) (use 2 in \<open>simp_all add: numeral_2_eq_2\<close>)
  have 0: "continues D x 0 ts v \<and> reads_as D x 0 ts v" by (rule below) (use 1 in simp_all)
  show "l \<le> 3 \<Longrightarrow> reads_as D x l ts v" using 0 1 2 assms(1) three_levels [of l] by (cases "l = 3") auto
  show "l < 3 \<Longrightarrow> continues D x l ts v" using 0 1 2 three_levels [of l] by auto
qed

lemma continues_below:
  assumes "continues D x k ts v" and "k < 3" and "ts \<noteq> []" and "l \<le> k"
  shows "continues D x l ts v"
  using assms(4)
proof (induction l rule: inc_induct)
  case (step l)
  then have "Suc l < 3" using assms(2) by simp
  from continues_complete [OF this step.IH] complete_continues [OF _ assms(3)] this show ?case by simp
qed (rule assms(1))

section \<open>Expressions\<close>

datatype binop = Add | Sub | Mul | Div | Mod | Ratio | Pow

datatype expr = Lit string | Var | Neg expr | Pos expr | Bin binop expr expr

primrec op_token :: "binop \<Rightarrow> operators_t" where
  "op_token Add = O_PLUS" | "op_token Sub = O_MINUS" | "op_token Mul = O_MULTIPLY" | "op_token Div = O_DIVISION"
| "op_token Mod = O_MODULO" | "op_token Ratio = O_RATIO" | "op_token Pow = O_POWER"

primrec op_level :: "binop \<Rightarrow> nat" where
  "op_level Add = 0" | "op_level Sub = 0" | "op_level Mul = 1" | "op_level Div = 1"
| "op_level Mod = 1" | "op_level Ratio = 1" | "op_level Pow = 2"

primrec op_fun :: "'d double_ops \<Rightarrow> binop \<Rightarrow> 'd \<Rightarrow> 'd \<Rightarrow> 'd" where
  "op_fun D Add = d_add D" | "op_fun D Sub = d_sub D" | "op_fun D Mul = d_mul D" | "op_fun D Div = d_div D"
| "op_fun D Mod = d_fmod D" | "op_fun D Ratio = d_ratio D" | "op_fun D Pow = d_pow D"

text \<open>The value of an expression; \<open>num\<close> gives the value of a literal.\<close>

primrec eval_expr :: "'d double_ops \<Rightarrow> (string \<Rightarrow> 'd) \<Rightarrow> 'd \<Rightarrow> expr \<Rightarrow> 'd" where
  "eval_expr D num x (Lit s) = num s"
| "eval_expr D num x Var = x"
| "eval_expr D num x (Neg e) = d_mul D (d_minus_one D) (eval_expr D num x e)"
| "eval_expr D num x (Pos e) = eval_expr D num x e"
| "eval_expr D num x (Bin b e1 e2) = op_fun D b (eval_expr D num x e1) (eval_expr D num x e2)"

text \<open>
  Writing an expression with as few brackets as the precedences allow: all binary operators
  group to the left, and a sign binds stronger than any of them.
\<close>

datatype sym = SNum string | SX | SOp operators_t

definition bracket :: "bool \<Rightarrow> sym list \<Rightarrow> sym list" where
  "bracket b ss = (if b then SOp O_LEFTROUND # ss @ [SOp O_RIGHTROUND] else ss)"

primrec syms :: "nat \<Rightarrow> expr \<Rightarrow> sym list" where
  "syms l (Lit s) = [SNum s]"
| "syms l Var = [SX]"
| "syms l (Neg e) = bracket (3 < l) (SOp O_MINUS # syms 3 e)"
| "syms l (Pos e) = bracket (3 < l) (SOp O_PLUS # syms 3 e)"
| "syms l (Bin b e1 e2) =
     bracket (op_level b < l) (syms (op_level b) e1 @ SOp (op_token b) # syms (Suc (op_level b)) e2)"

primrec sym_token :: "(string \<Rightarrow> 'd) \<Rightarrow> 'd \<Rightarrow> sym \<Rightarrow> 'd token_t" where
  "sym_token num x (SNum s) = T_NUMBER (num s)"
| "sym_token num x SX = T_NUMBER x"
| "sym_token num x (SOp oper) = T_OPERATOR oper"

lemma op_level_ops: "op_level b < 3" "level_ops D (op_level b) (op_token b) = Some (op_fun D b)"
  by (cases b; simp add: level_ops_def additive_op_def multiplicative_op_def power_op_def)+

lemma bracketed:
  assumes "reads_as D x 0 (map (sym_token num x) ss) v"
  shows "l \<le> 4 \<Longrightarrow> reads_as D x l (map (sym_token num x) (bracket True ss)) v"
    and "l < 3 \<Longrightarrow> continues D x l (map (sym_token num x) (bracket True ss)) v"
proof -
  let ?ts = "map (sym_token num x) (bracket True ss)"
  have 4: "reads_as D x 4 ?ts v" using complete_brackets [OF assms] by (simp add: bracket_def)
  then have 3: "reads_as D x 3 ?ts v" by (rule complete_unsigned) (simp_all add: bracket_def sign_def)
  show "l \<le> 4 \<Longrightarrow> reads_as D x l ?ts v" using 4 levels_below(1) [OF 3, of l] by (cases "l = 4") (auto simp: bracket_def)
  show "l < 3 \<Longrightarrow> continues D x l ?ts v" using levels_below(2) [OF 3] by (simp add: bracket_def)
qed

lemma syms_nonempty [simp]: "syms l e \<noteq> []"
  by (cases e) (auto simp: bracket_def)

text \<open>Every level of the parser reads an expression written for that level, with its value.\<close>

lemma expression_parses:
  "(\<forall>l\<le>4. reads_as D x l (map (sym_token num x) (syms l e)) (eval_expr D num x e)) \<and>
   (\<forall>l<3. continues D x l (map (sym_token num x) (syms l e)) (eval_expr D num x e))"
proof (induction e)
  case (Lit s)
  have 3: "reads_as D x 3 [T_NUMBER (num s)] (num s)"
    by (rule complete_unsigned [OF complete_number]) (simp_all add: sign_def)
  show ?case using complete_number levels_below [OF 3] by (auto simp: le_Suc_eq numeral_eq_Suc)
next
  case Var
  have 3: "reads_as D x 3 [T_NUMBER x] x" by (rule complete_unsigned [OF complete_number]) (simp_all add: sign_def)
  show ?case using complete_number levels_below [OF 3] by (auto simp: le_Suc_eq numeral_eq_Suc)
next
  case (Neg e)
  let ?ss = "SOp O_MINUS # syms 3 e"
  have 3: "reads_as D x 3 (map (sym_token num x) ?ss) (eval_expr D num x (Neg e))"
    using complete_signed(1) [OF Neg.IH [THEN conjunct1, rule_format, of 3]] by simp
  then show ?case using levels_below [OF 3] bracketed [OF levels_below(1) [OF 3, of 0]]
    by (auto simp: bracket_def)
next
  case (Pos e)
  let ?ss = "SOp O_PLUS # syms 3 e"
  have 3: "reads_as D x 3 (map (sym_token num x) ?ss) (eval_expr D num x (Pos e))"
    using complete_signed(2) [OF Pos.IH [THEN conjunct1, rule_format, of 3]] by simp
  then show ?case using levels_below [OF 3] bracketed [OF levels_below(1) [OF 3, of 0]]
    by (auto simp: bracket_def)
next
  case (Bin b e1 e2)
  let ?k = "op_level b" and ?v = "eval_expr D num x (Bin b e1 e2)"
  let ?ss = "syms ?k e1 @ SOp (op_token b) # syms (Suc ?k) e2"
  have k: "continues D x ?k (map (sym_token num x) ?ss) ?v"
  proof -
    have "continues D x ?k (map (sym_token num x) (syms ?k e1)) (eval_expr D num x e1)"
      "reads_as D x (Suc ?k) (map (sym_token num x) (syms (Suc ?k) e2)) (eval_expr D num x e2)"
      using Bin.IH op_level_ops(1) [of b] by simp_all
    from continues_operator [OF op_level_ops(1) this op_level_ops(2)] show ?thesis by simp
  qed
  have below: "continues D x l (map (sym_token num x) ?ss) ?v \<and> reads_as D x l (map (sym_token num x) ?ss) ?v"
    if "l \<le> ?k" for l
    using continues_below [OF k op_level_ops(1) _ that] continues_complete [of l] op_level_ops(1) [of b] that by auto
  show ?case using below bracketed [OF conjunct2 [OF below [of 0]]] by (auto simp: bracket_def not_less)
qed


section \<open>The text of an expression\<close>

primrec op_text :: "operators_t \<Rightarrow> string" where
  "op_text O_PLUS = ''+''" | "op_text O_INC = ''++''" | "op_text O_MINUS = ''-''" | "op_text O_DEC = ''--''"
| "op_text O_MULTIPLY = ''*''" | "op_text O_DIVISION = ''/''" | "op_text O_MODULO = ''%''" | "op_text O_POWER = ''^''"
| "op_text O_RATIO = '':''" | "op_text O_LEFTROUND = ''(''" | "op_text O_RIGHTROUND = '')''"

primrec sym_text :: "sym \<Rightarrow> string" where
  "sym_text (SNum s) = s"
| "sym_text SX = ''x''"
| "sym_text (SOp oper) = op_text oper"

text \<open>
  A text spells symbols when it has them in their order, with any blanks and tabs before, between and after them, and no
  symbol runs into what follows: a number ends before a blank, an operator or a bracket, and two plus or two minus
  signs do not touch, since they would be read as one operator.
\<close>

abbreviation is_blank :: "char \<Rightarrow> bool" where
  "is_blank c \<equiv> c = CHR '' '' \<or> c = CHR 0x09"

abbreviation follows_number :: "char \<Rightarrow> bool" where
  "follows_number c \<equiv> is_blank c \<or> c \<in> set ''+-*/%^:()''"

definition ends_before :: "sym \<Rightarrow> string \<Rightarrow> bool" where
  "ends_before s rest \<longleftrightarrow> rest = [] \<or>
     (case s of
        SNum t \<Rightarrow> follows_number (hd rest)
      | SX \<Rightarrow> True
      | SOp oper \<Rightarrow> (oper = O_PLUS \<longrightarrow> hd rest \<noteq> CHR ''+'') \<and> (oper = O_MINUS \<longrightarrow> hd rest \<noteq> CHR ''-''))"

primrec spells :: "sym list \<Rightarrow> string \<Rightarrow> bool" where
  "spells [] txt \<longleftrightarrow> list_all is_blank txt"
| "spells (s # ss) txt \<longleftrightarrow>
     (let t = dropWhile is_blank txt; n = length (sym_text s)
      in take n t = sym_text s \<and> ends_before s (drop n t) \<and> spells ss (drop n t))"

primrec literals :: "expr \<Rightarrow> string set" where
  "literals (Lit s) = {s}"
| "literals Var = {}"
| "literals (Neg e) = literals e"
| "literals (Pos e) = literals e"
| "literals (Bin b e1 e2) = literals e1 \<union> literals e2"

text \<open>
  What is relied on for a literal: it starts with a digit or the point, it has no comma, and the
  number scanner reads exactly the literal when it is followed by a blank, an operator, a bracket or the end.
\<close>

definition reads_literal :: "'d double_ops \<Rightarrow> (string \<Rightarrow> 'd) \<Rightarrow> string \<Rightarrow> bool" where
  "reads_literal D num s \<longleftrightarrow> s \<noteq> [] \<and> hd s \<in> set ''0123456789.'' \<and> CHR '','' \<notin> set s \<and>
     (\<forall>rest. rest = [] \<or> follows_number (hd rest) \<longrightarrow> d_strtod D (s @ rest) = (num s, rest))"

definition readable :: "'d double_ops \<Rightarrow> (string \<Rightarrow> 'd) \<Rightarrow> sym \<Rightarrow> bool" where
  "readable D num s = (case s of SNum t \<Rightarrow> reads_literal D num t | _ \<Rightarrow> True)"

lemma get_token_number: "c \<in> set ''0123456789.'' \<Longrightarrow> get_token D x (c # cs) = read_number D (c # cs)"
  by (simp only: list.set insert_iff empty_iff simp_thms) (elim disjE; simp)

lemma get_token_sym:
  assumes "readable D num s" and "ends_before s rest"
  shows "get_token D x (sym_text s @ rest) = (Some (sym_token num x s), rest)"
proof (cases s)
  case (SNum t)
  then have t: "t \<noteq> []" "hd t \<in> set ''0123456789.''" "d_strtod D (t @ rest) = (num t, rest)"
    using assms unfolding readable_def reads_literal_def ends_before_def by (simp_all only: sym.case) blast+
  then have "get_token D x (t @ rest) = read_number D (t @ rest)"
    using get_token_number [OF t(2), of D x "tl t @ rest"] by (metis append_Cons list.collapse t(1))
  then show ?thesis using SNum t(3) by (simp add: read_number_def)
next
  case (SOp oper)
  then show ?thesis using assms(2) by (cases oper; cases rest) (auto simp: ends_before_def)
qed simp

lemma get_token_blanks: "get_token D x cs = get_token D x (dropWhile is_blank cs)"
  by (induction cs) auto

lemma spells_Cons:
  assumes "spells (s # ss) cs"
  obtains rest where "dropWhile is_blank cs = sym_text s @ rest" and "ends_before s rest" and "spells ss rest"
  using assms append_take_drop_id [of "length (sym_text s)" "dropWhile is_blank cs"]
  by (simp add: Let_def) (metis that)

lemma spells_lexes:
  "\<forall>s\<in>set ss. readable D num s \<Longrightarrow> spells ss cs \<Longrightarrow> lexes D x (map (sym_token num x) ss) (get_token D x cs)"
proof (induction ss arbitrary: cs)
  case Nil
  then have "dropWhile is_blank cs = []" by (simp add: list_all_iff dropWhile_eq_Nil_conv)
  with get_token_blanks [of D x cs] have "get_token D x cs = (None, [])" by (simp only: get_token.simps)
  then show ?case by simp
next
  case (Cons s ss)
  from Cons.prems(2) obtain rest where
    rest: "dropWhile is_blank cs = sym_text s @ rest" "ends_before s rest" "spells ss rest" by (rule spells_Cons)
  have "get_token D x cs = (Some (sym_token num x s), rest)"
    using get_token_sym [OF _ rest(2), of D num x] Cons.prems(1) get_token_blanks [of D x cs] rest(1) by simp
  with Cons.IH [OF _ rest(3)] Cons.prems(1) show ?case by simp
qed

lemma syms_readable: "\<forall>t\<in>literals e. reads_literal D num t \<Longrightarrow> s \<in> set (syms l e) \<Longrightarrow> readable D num s"
  by (induction e arbitrary: l) (auto simp: bracket_def readable_def split: if_splits)

lemma strdelimit_spelled:
  assumes "\<forall>s\<in>set ss. readable D num s" and "spells ss cs"
  shows "strdelimit cs = cs"
proof -
  have sym: "CHR '','' \<notin> set (sym_text s)" if "readable D num s" for s
  proof (cases s)
    case (SNum t)
    with that have "reads_literal D num t" by (simp add: readable_def)
    then show ?thesis unfolding reads_literal_def SNum sym_text.simps by blast
  next
    case (SOp oper)
    then show ?thesis by (cases oper) simp_all
  qed simp
  have blanks: "CHR '','' \<notin> set (takeWhile is_blank cs)" for cs by (auto dest: set_takeWhileD)
  have comma: "CHR '','' \<notin> set cs" using assms
  proof (induction ss arbitrary: cs)
    case (Cons s ss)
    from Cons.prems(2) obtain rest where
      rest: "dropWhile is_blank cs = sym_text s @ rest" "spells ss rest" by (rule spells_Cons)
    have "CHR '','' \<notin> set rest" using Cons.IH [OF _ rest(2)] Cons.prems(1) by simp
    then have "CHR '','' \<notin> set (dropWhile is_blank cs)" unfolding rest(1) using sym Cons.prems(1) by simp
    with blanks [of cs] have "CHR '','' \<notin> set (takeWhile is_blank cs @ dropWhile is_blank cs)"
      by (simp only: set_append Un_iff simp_thms)
    then show ?case by (simp only: takeWhile_dropWhile_id simp_thms)
  next
    case Nil
    then have blank: "\<forall>c\<in>set cs. is_blank c" by (simp only: spells.simps list_all_iff)
    show ?case
    proof
      assume "CHR '','' \<in> set cs"
      from bspec [OF blank this] show False by simp
    qed
  qed
  show ?thesis unfolding strdelimit_def
  proof (rule map_idI)
    fix c assume "c \<in> set cs"
    then have "c \<noteq> CHR '',''" using comma by blast
    then show "(if c = CHR '','' then CHR ''.'' else c) = c" by (simp only: if_False)
  qed
qed

lemma syms_no_step: "hd (syms l e) \<noteq> SOp O_INC" "hd (syms l e) \<noteq> SOp O_DEC"
proof (induction e arbitrary: l)
  case (Bin b e1 e2)
  { case 1 then show ?case using Bin.IH(1) by (simp add: bracket_def hd_append) }
  { case 2 then show ?case using Bin.IH(2) by (simp add: bracket_def hd_append) }
qed (auto simp: bracket_def)


section \<open>Properties\<close>

definition calculator_fuel :: "string \<Rightarrow> nat" where
  "calculator_fuel txt = 5 + 6 * (2 * length txt + 1)"

lemma parse_from_text:
  assumes "strtod_ok D" and "calculator_fuel txt \<le> n"
  shows "\<exists>v s. parse_expression D x n (get_token D x (strdelimit txt)) = Some (v, s)"
proof -
  have "length (strdelimit txt) = length txt" by (simp add: strdelimit_def)
  with get_token_size [OF assms(1), of x "strdelimit txt"] assms(2)
  have "call_rank (ParseAdditive :: 'a parser_call) + 6 * state_size (get_token D x (strdelimit txt)) \<le> n"
    by (simp add: calculator_fuel_def)
  from parse_returns [OF assms(1) this, of x] show ?thesis by (auto simp: parse_expression_def)
qed

text \<open>
  The calculator always returns, on every text, well-formed or not: if the number scanner never
  reads past the end, the fuel linear in the length of the text is enough, and any larger amount
  gives the same value.
\<close>

theorem calculator_returns:
  assumes "strtod_ok D"
  shows "\<exists>v. \<forall>n\<ge>calculator_fuel txt. dt_calculator_solve D n x (Some txt) = Some v"
proof -
  let ?s = "get_token D x (strdelimit txt)" and ?f = "calculator_fuel txt"
  obtain v s where f: "parse_expression D x ?f ?s = Some (v, s)" using parse_from_text [OF assms order_refl] by blast
  have same: "parse_expression D x n ?s = parse_expression D x ?f ?s" if "?f \<le> n" for n
    using parse_mono [OF that f [unfolded parse_expression_def]] f by (simp only: parse_expression_def)
  have stable: "dt_calculator_solve D n x (Some txt) = dt_calculator_solve D ?f x (Some txt)" if "?f \<le> n" for n
    by (simp only: dt_calculator_solve_def Let_def option.case same [OF that])
  have "\<exists>v. dt_calculator_solve D ?f x (Some txt) = Some v"
    unfolding dt_calculator_solve_def Let_def option.case f Option.bind.simps prod.case by (simp split: if_split)
  then obtain w where w: "dt_calculator_solve D ?f x (Some txt) = Some w" ..
  show ?thesis by (intro exI [of _ w] allI impI) (simp only: stable w)
qed

text \<open>A scanner for whole numbers, to try the calculator with.\<close>

definition digit_value :: "char \<Rightarrow> int" where
  "digit_value c = int (of_char c :: nat) - 48"

definition int_strtod :: "string \<Rightarrow> int \<times> string" where
  "int_strtod cs = (let ds = takeWhile (\<lambda>c. c \<in> set ''0123456789'') cs
     in (foldl (\<lambda>n c. 10 * n + digit_value c) 0 ds, drop (length ds) cs))"

definition int_ops :: "int double_ops" where
  "int_ops = \<lparr>d_add = (+), d_sub = (-), d_mul = (*), d_div = (div), d_fmod = (mod),
     d_pow = (\<lambda>a b. a ^ nat b), d_less = (<), d_nan = - 999, d_one = 1, d_minus_one = - 1, d_strtod = int_strtod\<rparr>"

lemma int_ops_ok: "strtod_ok int_ops"
  by (simp add: strtod_ok_def int_ops_def int_strtod_def Let_def)

theorem calculator_returns_witness:
  "\<exists>v. dt_calculator_solve int_ops (calculator_fuel ''2*(3+x)'') 4 (Some ''2*(3+x)'') = Some v"
  using calculator_returns [OF int_ops_ok, of "''2*(3+x)''" 4] by blast

text \<open>
  C32: The calculator computes the usual value: for every expression, written with the brackets its
  operators need (products before sums, powers before products, signs before powers, all operators
  grouping to the left) and with or without blanks, the result is the value of the expression. Its numbers are written
  with a point and end before a blank, an operator or a bracket; a blank is needed only between two plus and between two minus
  signs, which touching are read as one operator.
\<close>

theorem calculator_evaluates:
  assumes D: "strtod_ok D" and lits: "\<forall>t\<in>literals e. reads_literal D num t" and sp: "spells (syms 0 e) txt"
    and n: "calculator_fuel txt \<le> n"
  shows "dt_calculator_solve D n x (Some txt) = Some (eval_expr D num x e)"
proof -
  let ?s = "get_token D x txt" and ?ts = "map (sym_token num x) (syms 0 e)"
  have ok: "\<forall>s\<in>set (syms 0 e). readable D num s" using syms_readable [OF lits] by blast
  have lex: "lexes D x (?ts @ []) ?s" using spells_lexes [OF ok sp, of x] by simp
  have "reads_as D x 0 ?ts (eval_expr D num x e)"
    using expression_parses [THEN conjunct1, rule_format, of 0] by simp
  from completeD [OF this lex] obtain s' m where
    m: "fst s' = None" "parse D x m ParseAdditive ?s = Some (eval_expr D num x e, s')"
    by (auto simp: head_free_def level_call_def simp del: split_paired_Ex)
  obtain v s where v: "parse D x n ParseAdditive ?s = Some (v, s)"
    using parse_from_text [OF D n, of x] strdelimit_spelled [OF ok sp] by (auto simp: parse_expression_def)
  have "(v, s) = (eval_expr D num x e, s')"
    using parse_mono [OF max.cobounded1 m(2), of n] parse_mono [OF max.cobounded2 v, of m] by simp
  moreover have "fst ?s = Some (sym_token num x (hd (syms 0 e)))" using lex by (cases "syms 0 e") auto
  then have "fst ?s \<noteq> Some (T_OPERATOR O_INC)" "fst ?s \<noteq> Some (T_OPERATOR O_DEC)"
    using syms_no_step [where e = e and l = 0] by (cases "hd (syms 0 e)"; auto)+
  moreover have "txt \<noteq> []" using \<open>fst ?s = Some _\<close> by auto
  ultimately show ?thesis using v m(1) strdelimit_spelled [OF ok sp]
    by (simp add: dt_calculator_solve_def parse_expression_def)
qed

lemma digits_read:
  assumes "ds \<noteq> []" and "set ds \<subseteq> set ''0123456789''"
  shows "reads_literal int_ops (\<lambda>ds. foldl (\<lambda>n c. 10 * n + digit_value c) 0 ds) ds"
proof -
  have "takeWhile (\<lambda>c. c \<in> set ''0123456789'') (ds @ rest) = ds" if "rest = [] \<or> follows_number (hd rest)" for rest
  proof -
    have "takeWhile (\<lambda>c. c \<in> set ''0123456789'') rest = []" using that by (cases rest) auto
    moreover have "\<forall>c\<in>set ds. c \<in> set ''0123456789''" using assms(2) by blast
    ultimately show ?thesis by (simp only: takeWhile_append append_Nil2 if_P simp_thms)
  qed
  then have "\<forall>rest. rest = [] \<or> follows_number (hd rest) \<longrightarrow>
      d_strtod int_ops (ds @ rest) = (foldl (\<lambda>n c. 10 * n + digit_value c) 0 ds, rest)"
    unfolding int_ops_def int_strtod_def Let_def double_ops.simps by (metis append_eq_conv_conj)
  moreover have "hd ds \<in> set ''0123456789''" using assms by (meson hd_in_set subsetD)
  then have "hd ds \<in> set ''0123456789.''" by (simp, blast)
  moreover have "CHR '','' \<notin> set ''0123456789''" by simp
  then have "CHR '','' \<notin> set ds" using assms(2) by blast
  ultimately show ?thesis using assms(1) unfolding reads_literal_def by blast
qed

theorem calculator_evaluates_witness:
  "dt_calculator_solve int_ops 1000 4 (Some ''2*(3+x) - -2^3^2'') = Some (2 * (3 + 4) - 64)"
proof -
  let ?e = "Bin Sub (Bin Mul (Lit ''2'') (Bin Add (Lit ''3'') Var)) (Bin Pow (Bin Pow (Neg (Lit ''2'')) (Lit ''3'')) (Lit ''2''))"
  have "spells (syms 0 ?e) ''2*(3+x) - -2^3^2''" by code_simp
  moreover have "\<forall>t\<in>literals ?e. reads_literal int_ops (\<lambda>ds. foldl (\<lambda>n c. 10 * n + digit_value c) 0 ds) t"
    using digits_read [of "''2''"] digits_read [of "''3''"] by simp
  ultimately show ?thesis using calculator_evaluates [OF int_ops_ok, of ?e _ _ 1000 4]
    by (simp add: int_ops_def calculator_fuel_def digit_value_def)
qed

end
