(* ===== verification/History_Db.thy ===== *)
theory History_Db
  imports Undo Iop_Order_List
begin

text \<open>
  The history stack of an image in the library database (\<open>src/common/history.c\<close>) and its
  snapshots for undo (\<open>src/common/history_snapshot.c\<close>). A table is the list of its rows, or a
  map when it has a primary key; a nullable column is an option, and the conditions of the SQL
  statements follow SQLite's treatment of \<open>NULL\<close>. A statement fails when it violates a
  constraint of the schema (\<open>src/common/database.c\<close>). What these functions call in other
  components is logged in \<open>calls\<close>; the functions of the darkroom, which read and write the
  same tables, and the MD5 sum of GLib are parameters.
\<close>

section \<open>Tables\<close>

type_synonym blob = "8 word list"

record history_row =
  h_imgid :: int
  h_num :: "int option"
  h_module :: "int option"
  h_operation :: "string option"
  h_op_params :: "blob option"
  h_enabled :: "int option"
  h_blendop_params :: "blob option"
  h_blendop_version :: "int option"
  h_multi_priority :: "int option"
  h_multi_name :: "string option"
  h_multi_name_hand_edited :: "int option"

record masks_history_row =
  m_imgid :: int
  m_num :: "int option"
  m_formid :: "int option"
  m_form :: "int option"
  m_name :: "string option"
  m_version :: "int option"
  m_points :: "blob option"
  m_points_count :: "int option"
  m_source :: "blob option"

text \<open>The columns of \<open>main.images\<close> that are read or written; the aspect ratio as its bits.\<close>

record image_row =
  i_history_end :: "int option"
  i_aspect_ratio :: "64 word"
  i_thumb_timestamp :: int
  i_thumb_maxmip :: int

record history_hash_row =
  basic_hash :: "blob option"
  auto_hash :: "blob option"
  current_hash :: "blob option"
  mipmap_hash :: "blob option"

text \<open>The rows of the snapshot tables carry the number of the snapshot.\<close>

record tables =
  t_images :: "int \<rightharpoonup> image_row"
  t_history :: "history_row list"
  t_masks :: "masks_history_row list"
  t_module_order :: "int \<rightharpoonup> module_order_row"
  t_history_hash :: "int \<rightharpoonup> history_hash_row"
  t_snap_history :: "(int \<times> history_row) list"
  t_snap_masks :: "(int \<times> masks_history_row) list"
  t_snap_order :: "(int \<times> int \<times> module_order_row) list"

text \<open>Calls into other components, in the order they are made.\<close>

datatype library_call =
    dt_overlays_remove int
  | remove_preset_flag int
  | dt_dev_reload_history_items
  | dt_mipmap_cache_remove int
  | dt_image_update_final_size int
  | dt_tag_detach_by_string string int
  | dt_image_cache_unset_change_timestamp int
  | dt_image_write_sidecar_file int
  | dt_image_set_aspect_ratio int
  | SIGNAL_DEVELOP_MIPMAP_UPDATED int
  | SIGNAL_TAG_CHANGED

text \<open>
  The library: the tables, the number of open transactions, the tables as they were at the
  outermost \<open>BEGIN\<close>, and the log.
\<close>

record library =
  db :: tables
  trxid :: int
  saved :: "tables option"
  calls :: "library_call list"

text \<open>
  What the functions rely on: whether the image is open in the darkroom, what reloading the history there
  does to the library, and the checksum.
\<close>

record history_env =
  dt_dev_is_current_image :: "int \<Rightarrow> bool"
  env_reload :: "library \<Rightarrow> library"
  env_md5 :: "blob \<Rightarrow> blob"

definition dt_is_valid_imgid :: "int \<Rightarrow> bool" where
  "dt_is_valid_imgid n \<longleftrightarrow> n > 0"

definition log_call :: "library_call \<Rightarrow> library \<Rightarrow> library" where
  "log_call c L = L\<lparr>calls := calls L @ [c]\<rparr>"

definition on_db :: "(tables \<Rightarrow> tables) \<Rightarrow> library \<Rightarrow> library" where
  "on_db f L = L\<lparr>db := f (db L)\<rparr>"


section \<open>SQL\<close>

text \<open>\<open>sqlite3_column_int\<close> of a \<open>NULL\<close> is 0.\<close>

definition sql_int :: "int option \<Rightarrow> int" where
  "sql_int x = (case x of None \<Rightarrow> 0 | Some n \<Rightarrow> n)"

text \<open>Whether a row passes \<open>WHERE x < k\<close>, \<open>WHERE x <= k\<close> and \<open>WHERE x NOT IN ys\<close>.\<close>

definition sql_lt :: "int option \<Rightarrow> int \<Rightarrow> bool" where
  "sql_lt x k = (case x of None \<Rightarrow> False | Some n \<Rightarrow> n < k)"

definition sql_le :: "int option \<Rightarrow> int \<Rightarrow> bool" where
  "sql_le x k = (case x of None \<Rightarrow> False | Some n \<Rightarrow> n \<le> k)"

definition sql_ge :: "int option \<Rightarrow> int \<Rightarrow> bool" where
  "sql_ge x k = (case x of None \<Rightarrow> False | Some n \<Rightarrow> k \<le> n)"

definition sql_not_in :: "int option \<Rightarrow> int option list \<Rightarrow> bool" where
  "sql_not_in x ys \<longleftrightarrow> ys = [] \<or> x \<noteq> None \<and> None \<notin> set ys \<and> x \<notin> set ys"

text \<open>\<open>MAX\<close> skips \<open>NULL\<close> and is \<open>NULL\<close> when nothing is left.\<close>

fun sql_max :: "int option list \<Rightarrow> int option" where
  "sql_max [] = None"
| "sql_max (None # xs) = sql_max xs"
| "sql_max (Some n # xs) = (case sql_max xs of None \<Rightarrow> Some n | Some m \<Rightarrow> Some (max n m))"

text \<open>Conditions with the third value \<open>NULL\<close>.\<close>

definition sql_eq :: "'a option \<Rightarrow> 'a option \<Rightarrow> bool option" where
  "sql_eq x y = (case (x, y) of (Some a, Some b) \<Rightarrow> Some (a = b) | _ \<Rightarrow> None)"

fun sql_or :: "bool option \<Rightarrow> bool option \<Rightarrow> bool option" where
  "sql_or (Some True) y = Some True"
| "sql_or x (Some True) = Some True"
| "sql_or (Some False) y = y"
| "sql_or None y = None"

fun sql_and :: "bool option \<Rightarrow> bool option \<Rightarrow> bool option" where
  "sql_and (Some False) y = Some False"
| "sql_and x (Some False) = Some False"
| "sql_and (Some True) y = y"
| "sql_and None y = None"

text \<open>
  Transactions nest by counting only: an inner one is neither committed nor rolled back on its own.
\<close>

definition dt_database_start_transaction :: "library \<Rightarrow> library" where
  "dt_database_start_transaction L =
     (let L1 = L\<lparr>trxid := trxid L + 1\<rparr>
      in if trxid L = 0 \<and> saved L = None then L1\<lparr>saved := Some (db L)\<rparr> else L1)"

definition dt_database_release_transaction :: "library \<Rightarrow> library" where
  "dt_database_release_transaction L =
     (let L1 = L\<lparr>trxid := trxid L - 1\<rparr>
      in if trxid L = 1 then L1\<lparr>saved := None\<rparr> else L1)"

definition dt_database_rollback_transaction :: "library \<Rightarrow> library" where
  "dt_database_rollback_transaction L =
     (let L1 = L\<lparr>trxid := trxid L - 1\<rparr>
      in if trxid L = 1
         then case saved L of None \<Rightarrow> L1 | Some T \<Rightarrow> L1\<lparr>db := T, saved := None\<rparr>
         else L1)"

text \<open>
  The rows of a history belong to an existing image, and \<open>module_order\<close> has at most one row per
  image. A failed insertion changes nothing.
\<close>

definition insert_history :: "history_row list \<Rightarrow> tables \<Rightarrow> tables \<times> bool" where
  "insert_history rs T =
     (if \<forall>r\<in>set rs. t_images T (h_imgid r) \<noteq> None then (T\<lparr>t_history := t_history T @ rs\<rparr>, True)
      else (T, False))"

definition insert_masks :: "masks_history_row list \<Rightarrow> tables \<Rightarrow> tables \<times> bool" where
  "insert_masks rs T =
     (if \<forall>r\<in>set rs. t_images T (m_imgid r) \<noteq> None then (T\<lparr>t_masks := t_masks T @ rs\<rparr>, True)
      else (T, False))"

definition insert_module_order :: "(int \<times> module_order_row) list \<Rightarrow> tables \<Rightarrow> tables \<times> bool" where
  "insert_module_order rs T =
     (if distinct (map fst rs) \<and> (\<forall>r\<in>set rs. t_module_order T (fst r) = None)
      then (T\<lparr>t_module_order := t_module_order T ++ map_of rs\<rparr>, True)
      else (T, False))"

definition update_image :: "int \<Rightarrow> (image_row \<Rightarrow> image_row) \<Rightarrow> tables \<Rightarrow> tables" where
  "update_image imgid f T = T\<lparr>t_images := (t_images T)(imgid := map_option f (t_images T imgid))\<rparr>"

definition dt_image_set_history_end :: "int \<Rightarrow> int \<Rightarrow> tables \<Rightarrow> tables \<times> bool" where
  "dt_image_set_history_end imgid history_end T =
     (update_image imgid (\<lambda>r. r\<lparr>i_history_end := Some history_end\<rparr>) T, True)"

text \<open>The column \<open>history_end\<close> as the functions read it: 0 without a row.\<close>

definition read_history_end :: "tables \<Rightarrow> int \<Rightarrow> int" where
  "read_history_end T imgid = (case t_images T imgid of None \<Rightarrow> 0 | Some r \<Rightarrow> sql_int (i_history_end r))"


section \<open>The history hash\<close>

abbreviation DT_HISTORY_HASH_NONE :: "32 word" where "DT_HISTORY_HASH_NONE \<equiv> 0"
abbreviation DT_HISTORY_HASH_BASIC :: "32 word" where "DT_HISTORY_HASH_BASIC \<equiv> 1"
abbreviation DT_HISTORY_HASH_AUTO :: "32 word" where "DT_HISTORY_HASH_AUTO \<equiv> 2"
abbreviation DT_HISTORY_HASH_CURRENT :: "32 word" where "DT_HISTORY_HASH_CURRENT \<equiv> 4"

text \<open>A history row belongs to an instance of a module.\<close>

abbreviation h_key :: "history_row \<Rightarrow> string option \<times> int option" where
  "h_key r \<equiv> (h_operation r, h_multi_priority r)"

text \<open>
  \<open>GROUP BY operation, multi_priority\<close> with \<open>MAX(num)\<close>: the row of each group with the highest
  number, in the order of the numbers. Equal numbers are taken in the order of the table.
\<close>

definition max_row :: "history_row list \<Rightarrow> history_row" where
  "max_row rs = foldl (\<lambda>b r. if sql_int (h_num b) < sql_int (h_num r) then r else b) (hd rs) (tl rs)"

definition latest_rows :: "history_row list \<Rightarrow> history_row list" where
  "latest_rows rs = sort_key (\<lambda>r. sql_int (h_num r))
     (map (\<lambda>k. max_row (filter (\<lambda>r. h_key r = k) rs)) (remdups (map h_key rs)))"

definition text_bytes :: "string \<Rightarrow> blob" where
  "text_bytes s = map of_char s"

definition blob_bytes :: "blob option \<Rightarrow> blob" where
  "blob_bytes b = (case b of None \<Rightarrow> [] | Some bs \<Rightarrow> bs)"

definition int_bytes :: "int \<Rightarrow> blob" where
  "int_bytes n = map (\<lambda>i. word_of_int (n div 256 ^ i)) [0..<4]"

definition row_bytes :: "history_row \<Rightarrow> blob" where
  "row_bytes r = blob_bytes (map_option text_bytes (h_operation r)) @ blob_bytes (h_op_params r) @
     blob_bytes (h_blendop_params r)"

definition order_bytes :: "module_order_row option \<Rightarrow> blob" where
  "order_bytes row = (case row of None \<Rightarrow> []
     | Some (version, txt) \<Rightarrow> int_bytes version @
         (if version = DT_IOP_ORDER_CUSTOM then blob_bytes (map_option text_bytes txt) else []))"

definition hashed_rows :: "tables \<Rightarrow> int \<Rightarrow> history_row list" where
  "hashed_rows T imgid =
     filter (\<lambda>r. sql_int (h_enabled r) \<noteq> 0)
       (latest_rows (filter (\<lambda>r. h_imgid r = imgid \<and> sql_le (h_num r) (read_history_end T imgid))
          (t_history T)))"

definition history_hash_compute_from_db :: "history_env \<Rightarrow> int \<Rightarrow> tables \<Rightarrow> blob option" where
  "history_hash_compute_from_db E imgid T =
     (if \<not> dt_is_valid_imgid imgid then None
      else let rows = hashed_rows T imgid
           in if rows = [] then None
              else Some (env_md5 E (concat (map row_bytes rows) @ order_bytes (t_module_order T imgid))))"

definition no_hashes :: history_hash_row where
  "no_hashes = \<lparr>basic_hash = None, auto_hash = None, current_hash = None, mipmap_hash = None\<rparr>"

definition set_hashes :: "32 word \<Rightarrow> blob \<Rightarrow> history_hash_row \<Rightarrow> history_hash_row" where
  "set_hashes type hash r =
     \<lparr>basic_hash = if type AND DT_HISTORY_HASH_BASIC \<noteq> 0 then Some hash else basic_hash r,
      auto_hash = if type AND DT_HISTORY_HASH_AUTO \<noteq> 0 then Some hash else auto_hash r,
      current_hash = if type AND DT_HISTORY_HASH_CURRENT \<noteq> 0 then Some hash else current_hash r,
      mipmap_hash = mipmap_hash r\<rparr>"

definition dt_history_hash_write_from_history :: "history_env \<Rightarrow> int \<Rightarrow> 32 word \<Rightarrow> tables \<Rightarrow> tables" where
  "dt_history_hash_write_from_history E imgid type T =
     (if \<not> dt_is_valid_imgid imgid then T
      else case history_hash_compute_from_db E imgid T of
        None \<Rightarrow> T
      | Some hash \<Rightarrow>
          if type AND (DT_HISTORY_HASH_BASIC OR DT_HISTORY_HASH_AUTO OR DT_HISTORY_HASH_CURRENT) = 0
            \<or> t_images T imgid = None then T
          else T\<lparr>t_history_hash := (t_history_hash T)(imgid \<mapsto>
                  set_hashes type hash (case t_history_hash T imgid of None \<Rightarrow> no_hashes | Some r \<Rightarrow> r))\<rparr>)"

text \<open>\<open>INSERT OR REPLACE\<close> writes a new row: the mipmap hash becomes \<open>NULL\<close>.\<close>

definition dt_history_hash_write ::
  "int \<Rightarrow> blob option \<Rightarrow> blob option \<Rightarrow> blob option \<Rightarrow> tables \<Rightarrow> tables" where
  "dt_history_hash_write imgid basic auto_apply current T =
     (if dt_is_valid_imgid imgid \<and> (basic \<noteq> None \<or> auto_apply \<noteq> None \<or> current \<noteq> None)
        \<and> t_images T imgid \<noteq> None
      then T\<lparr>t_history_hash := (t_history_hash T)(imgid \<mapsto>
             \<lparr>basic_hash = basic, auto_hash = auto_apply, current_hash = current, mipmap_hash = None\<rparr>)\<rparr>
      else T)"

definition dt_history_hash_read :: "int \<Rightarrow> tables \<Rightarrow> blob option \<times> blob option \<times> blob option" where
  "dt_history_hash_read imgid T =
     (case t_history_hash T imgid of None \<Rightarrow> (None, None, None)
      | Some r \<Rightarrow> (basic_hash r, auto_hash r, current_hash r))"

definition dt_history_hash_is_mipmap_synced :: "int \<Rightarrow> tables \<Rightarrow> bool" where
  "dt_history_hash_is_mipmap_synced imgid T \<longleftrightarrow> dt_is_valid_imgid imgid \<and>
     (case t_history_hash T imgid of None \<Rightarrow> False
      | Some r \<Rightarrow> sql_eq (mipmap_hash r) (current_hash r) = Some True)"

definition dt_history_hash_set_mipmap :: "int \<Rightarrow> tables \<Rightarrow> tables" where
  "dt_history_hash_set_mipmap imgid T =
     (if dt_is_valid_imgid imgid
      then T\<lparr>t_history_hash := (t_history_hash T)(imgid :=
             map_option (\<lambda>r. r\<lparr>mipmap_hash := current_hash r\<rparr>) (t_history_hash T imgid))\<rparr>
      else T)"

definition dt_history_hash_get_status :: "int \<Rightarrow> tables \<Rightarrow> 32 word" where
  "dt_history_hash_get_status imgid T =
     (if \<not> dt_is_valid_imgid imgid then DT_HISTORY_HASH_NONE
      else case t_history_hash T imgid of
        None \<Rightarrow> DT_HISTORY_HASH_BASIC
      | Some r \<Rightarrow>
          let differs = (\<lambda>x. sql_or (Some (x = None)) (map_option Not (sql_eq (current_hash r) x)))
          in if sql_eq (basic_hash r) (current_hash r) = Some True then DT_HISTORY_HASH_BASIC
             else if sql_eq (auto_hash r) (current_hash r) = Some True then DT_HISTORY_HASH_AUTO
             else if sql_and (differs (basic_hash r)) (differs (auto_hash r)) = Some True
             then DT_HISTORY_HASH_CURRENT
             else DT_HISTORY_HASH_BASIC)"



section \<open>Snapshots\<close>

record dt_undo_lt_history_t =
  lt_imgid :: int
  lt_before :: int
  lt_before_history_end :: int
  lt_after :: int
  lt_after_history_end :: int

definition dummy_row :: "int \<Rightarrow> history_row" where
  "dummy_row imgid = \<lparr>h_imgid = imgid, h_num = None, h_module = None, h_operation = None,
     h_op_params = None, h_enabled = None, h_blendop_params = None, h_blendop_version = None,
     h_multi_priority = None, h_multi_name = None, h_multi_name_hand_edited = Some 0\<rparr>"

definition order_rows :: "tables \<Rightarrow> int \<Rightarrow> (int \<times> module_order_row) list" where
  "order_rows T imgid = (case t_module_order T imgid of None \<Rightarrow> [] | Some r \<Rightarrow> [(imgid, r)])"

text \<open>
  Without a history a dummy row keeps the number of the snapshot in use. The snapshot tables have no
  constraint, so that the insertions succeed and the transaction is committed.
\<close>

definition snapshot_rows :: "int \<Rightarrow> int \<Rightarrow> int \<Rightarrow> tables \<Rightarrow> tables" where
  "snapshot_rows imgid snap_id history_end T =
     (if history_end = 0
      then T\<lparr>t_snap_history := t_snap_history T @ [(snap_id, dummy_row imgid)]\<rparr>
      else T\<lparr>t_snap_history := t_snap_history T @ map (Pair snap_id)
               (filter (\<lambda>r. h_imgid r = imgid \<and> sql_lt (h_num r) history_end) (t_history T)),
             t_snap_masks := t_snap_masks T @ map (Pair snap_id)
               (filter (\<lambda>r. m_imgid r = imgid \<and> sql_lt (m_num r) history_end) (t_masks T)),
             t_snap_order := t_snap_order T @ map (Pair snap_id) (order_rows T imgid)\<rparr>)"

definition dt_history_snapshot_create :: "int \<Rightarrow> int \<Rightarrow> int \<Rightarrow> library \<Rightarrow> library" where
  "dt_history_snapshot_create imgid snap_id history_end L =
     dt_database_release_transaction
       (on_db (snapshot_rows imgid snap_id history_end) (dt_database_start_transaction L))"

definition next_snap_id :: "tables \<Rightarrow> int \<Rightarrow> int" where
  "next_snap_id T imgid =
     sql_int (sql_max (map (Some \<circ> fst) (filter (\<lambda>(i, r). h_imgid r = imgid) (t_snap_history T)))) + 1"

text \<open>The result is the number of the snapshot and the end of the history.\<close>

definition dt_history_snapshot_undo_create :: "int \<Rightarrow> library \<Rightarrow> int \<times> int \<times> library" where
  "dt_history_snapshot_undo_create imgid L =
     (let snap_id = next_snap_id (db L) imgid;
          history_end = read_history_end (db L) imgid
      in (snap_id, history_end, dt_history_snapshot_create imgid snap_id history_end L))"

text \<open>What \<open>dt_history_delete_on_image_ext\<close> does without undo.\<close>

definition delete_rows :: "int \<Rightarrow> tables \<Rightarrow> tables" where
  "delete_rows imgid T =
     (update_image imgid (\<lambda>r. r\<lparr>i_history_end := Some 0, i_aspect_ratio := 0,
                                 i_thumb_timestamp := - 1, i_thumb_maxmip := 0\<rparr>) T)
       \<lparr>t_history := filter (\<lambda>r. h_imgid r \<noteq> imgid) (t_history T),
        t_module_order := (t_module_order T)(imgid := None),
        t_masks := filter (\<lambda>r. m_imgid r \<noteq> imgid) (t_masks T),
        t_history_hash := (t_history_hash T)(imgid := None)\<rparr>"

definition delete_init :: "history_env \<Rightarrow> int \<Rightarrow> library \<Rightarrow> library" where
  "delete_init E imgid L =
     (let L1 = log_call (remove_preset_flag imgid) L
      in if dt_dev_is_current_image E imgid
         then env_reload E (log_call dt_dev_reload_history_items L1) else L1)"

definition delete_on_image_db :: "history_env \<Rightarrow> int \<Rightarrow> bool \<Rightarrow> library \<Rightarrow> library" where
  "delete_on_image_db E imgid init_history L =
     (let L1 = log_call (dt_overlays_remove imgid) (on_db (delete_rows imgid) L);
          L2 = (if init_history then delete_init E imgid L1 else L1);
          L3 = fold log_call
            [dt_mipmap_cache_remove imgid, dt_image_update_final_size imgid,
             dt_tag_detach_by_string ''darktable|style|%'' imgid,
             dt_tag_detach_by_string ''darktable|changed'' imgid,
             dt_image_cache_unset_change_timestamp imgid] L2;
          L4 = on_db (dt_history_hash_write_from_history E imgid DT_HISTORY_HASH_CURRENT) L3
      in log_call (SIGNAL_DEVELOP_MIPMAP_UPDATED imgid) L4)"

text \<open>The rows of a snapshot of an image.\<close>

definition snap_rows :: "tables \<Rightarrow> int \<Rightarrow> int \<Rightarrow> history_row list" where
  "snap_rows T imgid snap_id =
     map snd (filter (\<lambda>(i, r). h_imgid r = imgid \<and> i = snap_id) (t_snap_history T))"

definition snap_masks :: "tables \<Rightarrow> int \<Rightarrow> int \<Rightarrow> masks_history_row list" where
  "snap_masks T imgid snap_id =
     map snd (filter (\<lambda>(i, r). m_imgid r = imgid \<and> i = snap_id) (t_snap_masks T))"

definition snap_orders :: "tables \<Rightarrow> int \<Rightarrow> int \<Rightarrow> (int \<times> module_order_row) list" where
  "snap_orders T imgid snap_id =
     map snd (filter (\<lambda>(i, r). fst r = imgid \<and> i = snap_id) (t_snap_order T))"

definition restore_rows :: "int \<Rightarrow> int \<Rightarrow> tables \<Rightarrow> tables \<times> bool" where
  "restore_rows imgid snap_id T =
     (let (T1, ok1) = insert_history (snap_rows T imgid snap_id) T;
          (T2, ok2) = insert_masks (snap_masks T1 imgid snap_id) T1;
          (T3, ok3) = insert_module_order (snap_orders T2 imgid snap_id) T2
      in (T3, ok1 \<and> ok2 \<and> ok3))"

definition history_snapshot_restore :: "history_env \<Rightarrow> int \<Rightarrow> int \<Rightarrow> int \<Rightarrow> library \<Rightarrow> library" where
  "history_snapshot_restore E imgid snap_id history_end L =
     (let L0 = dt_database_start_transaction L;
          L1 = (if dt_is_valid_imgid imgid then delete_on_image_db E imgid False L0 else L0);
          L2 = log_call SIGNAL_TAG_CHANGED L1;
          (T3, ok1) = (if history_end = 0 then (db L2, True) else restore_rows imgid snap_id (db L2));
          (T4, ok2) = dt_image_set_history_end imgid history_end T3;
          L4 = L2\<lparr>db := T4\<rparr>;
          L5 = (if ok1 \<and> ok2 then dt_database_release_transaction L4
                else dt_database_rollback_transaction L4)
      in on_db (dt_history_hash_write_from_history E imgid DT_HISTORY_HASH_CURRENT) L5)"

definition dt_history_snapshot_restore :: "history_env \<Rightarrow> int \<Rightarrow> int \<Rightarrow> int \<Rightarrow> library \<Rightarrow> library" where
  "dt_history_snapshot_restore E imgid snap_id history_end L =
     (if history_end \<noteq> - 1 then history_snapshot_restore E imgid snap_id history_end L else L)"

definition dt_history_snapshot_clear :: "int \<Rightarrow> int \<Rightarrow> tables \<Rightarrow> tables" where
  "dt_history_snapshot_clear imgid snap_id T =
     T\<lparr>t_snap_history := filter (\<lambda>(i, r). \<not> (i = snap_id \<and> h_imgid r = imgid)) (t_snap_history T),
       t_snap_masks := filter (\<lambda>(i, r). \<not> (i = snap_id \<and> m_imgid r = imgid)) (t_snap_masks T),
       t_snap_order := filter (\<lambda>(i, r). \<not> (i = snap_id \<and> fst r = imgid)) (t_snap_order T)\<rparr>"

definition dt_history_snapshot_undo_lt_history_data_free :: "dt_undo_lt_history_t \<Rightarrow> library \<Rightarrow> library" where
  "dt_history_snapshot_undo_lt_history_data_free hist L =
     (let L1 = on_db (dt_history_snapshot_clear (lt_imgid hist) (lt_after hist)) L
      in if lt_before hist = 0
         then on_db (dt_history_snapshot_clear (lt_imgid hist) (lt_before hist)) L1 else L1)"

definition dt_history_snapshot_undo_pop :: "history_env \<Rightarrow> (unit, dt_undo_lt_history_t, library) undo_fn" where
  "dt_history_snapshot_undo_pop E user_data type data action imgs L =
     (case data of
        Some hist \<Rightarrow>
          if type = DT_UNDO_LT_HISTORY
          then (imgs @ [lt_imgid hist],
                case action of
                  DT_ACTION_UNDO \<Rightarrow> history_snapshot_restore E (lt_imgid hist) (lt_before hist)
                                      (lt_before_history_end hist) L
                | DT_ACTION_REDO \<Rightarrow> history_snapshot_restore E (lt_imgid hist) (lt_after hist)
                                      (lt_after_history_end hist) L)
          else (imgs, L)
      | None \<Rightarrow> (imgs, L))"


section \<open>Deleting a history\<close>

text \<open>
  The undo manager beside the library. The data of its items are history snapshots; the destructors that
  a call of the manager runs are applied to the library.
\<close>

type_synonym lt_undo = "(unit, dt_undo_lt_history_t, library) dt_undo_t"
type_synonym lt_session = "library \<times> lt_undo"

definition run_free :: "lt_undo \<Rightarrow> lt_undo \<Rightarrow> library \<Rightarrow> library" where
  "run_free U U' L =
     fold (\<lambda>d L. case d of None \<Rightarrow> L | Some hist \<Rightarrow> dt_history_snapshot_undo_lt_history_data_free hist L)
       (drop (length (freed U)) (freed U')) L"

definition record_lt_history :: "history_env \<Rightarrow> dt_undo_lt_history_t \<Rightarrow> rat \<Rightarrow> lt_undo \<Rightarrow> lt_undo" where
  "record_lt_history E hist now U =
     dt_undo_record U None DT_UNDO_LT_HISTORY (Some hist) (dt_history_snapshot_undo_pop E) True now"

text \<open>
  \<open>t1\<close>, \<open>t2\<close> and \<open>t3\<close> are the times of the calls of the undo manager. \<open>None\<close> is a failed assertion of
  \<open>dt_undo_end_group\<close>.
\<close>

definition dt_history_delete_on_image_ext ::
  "history_env \<Rightarrow> rat \<times> rat \<times> rat \<Rightarrow> int \<Rightarrow> bool \<Rightarrow> bool \<Rightarrow> lt_session \<Rightarrow> lt_session option" where
  "dt_history_delete_on_image_ext E ts imgid undo init_history S =
     (case (ts, S) of ((t1, t2, t3), (L, U)) \<Rightarrow>
      if \<not> dt_is_valid_imgid imgid then Some (L, U)
      else if \<not> undo then Some (delete_on_image_db E imgid init_history L, U)
      else let (before, before_end, L1) = dt_history_snapshot_undo_create imgid L;
               L2 = delete_on_image_db E imgid init_history L1;
               (after, after_end, L3) = dt_history_snapshot_undo_create imgid L2;
               hist = \<lparr>lt_imgid = imgid, lt_before = before, lt_before_history_end = before_end,
                       lt_after = after, lt_after_history_end = after_end\<rparr>;
               U1 = dt_undo_start_group U DT_UNDO_LT_HISTORY t1;
               U2 = record_lt_history E hist t2 U1
           in case dt_undo_end_group U2 t3 of
                None \<Rightarrow> None
              | Some U3 \<Rightarrow> Some (run_free U U3 L3, U3))"

definition dt_history_delete_on_image ::
  "history_env \<Rightarrow> rat \<times> rat \<times> rat \<Rightarrow> int \<Rightarrow> lt_session \<Rightarrow> lt_session option" where
  "dt_history_delete_on_image E ts imgid S =
     (if dt_is_valid_imgid imgid
      then map_option (\<lambda>(L, U). (log_call SIGNAL_TAG_CHANGED L, U))
             (dt_history_delete_on_image_ext E ts imgid True True S)
      else Some S)"

text \<open>\<open>by_aspect\<close>: the collection is sorted by aspect ratio.\<close>

definition dt_history_delete ::
  "history_env \<Rightarrow> bool \<Rightarrow> rat \<Rightarrow> int \<Rightarrow> bool \<Rightarrow> lt_session \<Rightarrow> lt_session" where
  "dt_history_delete E by_aspect now imgid undo S =
     (case S of (L, U) \<Rightarrow>
      if \<not> dt_is_valid_imgid imgid then (L, U)
      else let (L', U') =
             (if undo
              then let (before, before_end, L1) = dt_history_snapshot_undo_create imgid L;
                       L2 = delete_on_image_db E imgid True L1;
                       (after, after_end, L3) = dt_history_snapshot_undo_create imgid L2;
                       hist = \<lparr>lt_imgid = imgid, lt_before = before, lt_before_history_end = before_end,
                               lt_after = after, lt_after_history_end = after_end\<rparr>;
                       U1 = record_lt_history E hist now U
                   in (run_free U U1 L3, U1)
              else (delete_on_image_db E imgid True L, U))
           in (if by_aspect then log_call (dt_image_set_aspect_ratio imgid) L' else L', U'))"


section \<open>Compressing and truncating a history\<close>

definition history_end_attop :: "tables \<Rightarrow> int \<Rightarrow> int" where
  "history_end_attop T imgid =
     (let size = sql_int (sql_max (map h_num (filter (\<lambda>r. h_imgid r = imgid) (t_history T))));
          e = read_history_end T imgid
      in if size = 0 \<and> e = 0 then - 1 else if e > size then 1 else 0)"

abbreviation mask_manager :: string where "mask_manager \<equiv> ''mask_manager''"

text \<open>\<open>SELECT MAX(num) ... GROUP BY operation, multi_priority\<close>.\<close>

definition group_max_nums :: "history_row list \<Rightarrow> int option list" where
  "group_max_nums rs =
     map (\<lambda>k. sql_max (map h_num (filter (\<lambda>r. h_key r = k) rs))) (remdups (map h_key rs))"

definition delete_superseded :: "int \<Rightarrow> int \<Rightarrow> tables \<Rightarrow> tables" where
  "delete_superseded imgid my_history_end T =
     (let nums = group_max_nums (filter (\<lambda>r. h_imgid r = imgid \<and> sql_lt (h_num r) my_history_end) (t_history T))
      in T\<lparr>t_history := filter (\<lambda>r. \<not> (h_imgid r = imgid \<and> sql_not_in (h_num r) nums)) (t_history T)\<rparr>)"

definition delete_managers :: "int \<Rightarrow> tables \<Rightarrow> tables" where
  "delete_managers imgid T =
     T\<lparr>t_history := filter (\<lambda>r. \<not> (h_imgid r = imgid \<and> h_operation r = Some mask_manager)) (t_history T)\<rparr>"

definition delete_old_masks :: "int \<Rightarrow> int \<Rightarrow> tables \<Rightarrow> tables" where
  "delete_old_masks imgid my_history_end T =
     (let newest = sql_max (map m_num (filter (\<lambda>r. m_imgid r = imgid \<and> sql_lt (m_num r) my_history_end) (t_masks T)))
      in T\<lparr>t_masks := filter (\<lambda>r. \<not> (m_imgid r = imgid \<and> sql_not_in (m_num r) [newest])) (t_masks T)\<rparr>)"

definition manager_row :: "int \<Rightarrow> history_row" where
  "manager_row imgid = \<lparr>h_imgid = imgid, h_num = Some 0, h_module = Some 1,
     h_operation = Some mask_manager, h_op_params = None, h_enabled = Some 0, h_blendop_params = None,
     h_blendop_version = Some 0, h_multi_priority = Some 0, h_multi_name = Some [],
     h_multi_name_hand_edited = None\<rparr>"

definition add_manager :: "int \<Rightarrow> bool \<Rightarrow> tables \<Rightarrow> tables" where
  "add_manager imgid manager_position T =
     (let T1 = T\<lparr>t_masks := map (\<lambda>r. if m_imgid r = imgid then r\<lparr>m_num := Some 0\<rparr> else r) (t_masks T)\<rparr>;
          T2 = (if manager_position then T1
                else update_image imgid (\<lambda>r. r\<lparr>i_history_end := map_option (\<lambda>n. n + 1) (i_history_end r)\<rparr>)
                  (T1\<lparr>t_history := map (\<lambda>r. if h_imgid r = imgid
                       then r\<lparr>h_num := map_option (\<lambda>n. n + 1) (h_num r)\<rparr> else r) (t_history T1)\<rparr>))
      in fst (insert_history [manager_row imgid] T2))"

definition compress_tables :: "int \<Rightarrow> int \<Rightarrow> tables \<Rightarrow> tables" where
  "compress_tables imgid my_history_end T =
     (let manager_position = (length (filter (\<lambda>r. h_imgid r = imgid \<and> h_operation r = Some mask_manager
             \<and> h_num r = Some 0) (t_history T)) = 1);
          T1 = delete_old_masks imgid my_history_end
                 (delete_managers imgid (delete_superseded imgid my_history_end T));
          masks_count = length (filter (\<lambda>r. m_imgid r = imgid) (t_masks T1))
      in if masks_count > 0 then add_manager imgid manager_position T1 else T1)"

definition dt_history_compress_on_image ::
  "history_env \<Rightarrow> rat \<times> rat \<times> rat \<Rightarrow> int \<Rightarrow> lt_session \<Rightarrow> lt_session option" where
  "dt_history_compress_on_image E ts imgid S =
     (case S of (L, U) \<Rightarrow>
      if \<not> dt_is_valid_imgid imgid then Some (L, U)
      else let my_history_end = read_history_end (db L) imgid
           in if my_history_end = 0 then dt_history_delete_on_image E ts imgid (L, U)
              else let L1 = on_db (compress_tables imgid my_history_end) (dt_database_start_transaction L);
                       L2 = on_db (dt_history_hash_write_from_history E imgid DT_HISTORY_HASH_CURRENT) L1
                   in Some (log_call (SIGNAL_DEVELOP_MIPMAP_UPDATED imgid)
                             (dt_database_release_transaction L2), U))"

definition truncate_tables :: "int \<Rightarrow> int \<Rightarrow> tables \<Rightarrow> tables" where
  "truncate_tables imgid history_end T =
     fst (dt_image_set_history_end imgid history_end
       (T\<lparr>t_history := filter (\<lambda>r. \<not> (h_imgid r = imgid \<and> sql_ge (h_num r) history_end)) (t_history T),
          t_masks := filter (\<lambda>r. \<not> (m_imgid r = imgid \<and> sql_ge (m_num r) history_end)) (t_masks T)\<rparr>))"

definition dt_history_truncate_on_image ::
  "history_env \<Rightarrow> rat \<times> rat \<times> rat \<Rightarrow> int \<Rightarrow> int \<Rightarrow> lt_session \<Rightarrow> lt_session option" where
  "dt_history_truncate_on_image E ts imgid history_end S =
     (case S of (L, U) \<Rightarrow>
      if \<not> dt_is_valid_imgid imgid then Some (L, U)
      else if history_end = 0 then dt_history_delete_on_image E ts imgid (L, U)
      else let L1 = on_db (truncate_tables imgid history_end) (dt_database_start_transaction L);
               L2 = on_db (dt_history_hash_write_from_history E imgid DT_HISTORY_HASH_CURRENT) L1
           in Some (log_call (SIGNAL_DEVELOP_MIPMAP_UPDATED imgid)
                     (dt_database_release_transaction L2), U))"

text \<open>
  The renumbering of \<open>dt_history_compress\<close>: \<open>n\<close> numbers from \<open>index\<close> on are left to look at.
\<close>

primrec renumber_loop :: "int \<Rightarrow> nat \<Rightarrow> int \<Rightarrow> int \<Rightarrow> history_row list \<Rightarrow> history_row list \<times> int" where
  "renumber_loop imgid 0 index done rs = (rs, done)"
| "renumber_loop imgid (Suc n) index done rs =
     (if \<exists>r\<in>set rs. h_imgid r = imgid \<and> h_num r = Some index
      then renumber_loop imgid n (index + 1) (done + 1)
             (map (\<lambda>r. if h_imgid r = imgid \<and> h_num r = Some index then r\<lparr>h_num := Some done\<rparr> else r) rs)
      else renumber_loop imgid n (index + 1) done rs)"

definition renumber_tables :: "int \<Rightarrow> tables \<Rightarrow> tables" where
  "renumber_tables imgid T =
     (let rs = filter (\<lambda>r. h_imgid r = imgid) (t_history T);
          mx = sql_int (sql_max (map h_num rs));
          size = length rs;
          (rows, done) = (if size > 0 \<and> mx > 0 then renumber_loop imgid (nat (mx + 1)) 0 0 (t_history T)
                          else (t_history T, 0))
      in fst (dt_image_set_history_end imgid done (T\<lparr>t_history := rows\<rparr>)))"

text \<open>The second result is the value the function returns.\<close>

definition dt_history_compress ::
  "history_env \<Rightarrow> rat \<times> rat \<times> rat \<Rightarrow> int \<Rightarrow> lt_session \<Rightarrow> (lt_session \<times> bool) option" where
  "dt_history_compress E ts imgid S =
     (if \<not> dt_is_valid_imgid imgid then Some (S, False)
      else let test = history_end_attop (db (fst S)) imgid;
               S1 = (if test = 1
                     then map_option (\<lambda>(L, U). (log_call (dt_image_write_sidecar_file imgid)
                            (on_db (renumber_tables imgid) L), U))
                            (dt_history_compress_on_image E ts imgid S)
                     else Some S)
           in map_option (\<lambda>(L, U).
                ((on_db (dt_history_hash_write_from_history E imgid DT_HISTORY_HASH_CURRENT) L, U), test = 1)) S1)"

definition dt_history_check_module_exists :: "int \<Rightarrow> string \<Rightarrow> bool \<Rightarrow> tables \<Rightarrow> bool" where
  "dt_history_check_module_exists imgid op_name enabled T \<longleftrightarrow> dt_is_valid_imgid imgid \<and>
     (\<exists>r\<in>set (t_history T). h_imgid r = imgid \<and> h_operation r = Some op_name
        \<and> (h_enabled r = Some 1 \<or> h_enabled r = Some (of_bool enabled)))"



section \<open>The stack of an image\<close>

abbreviation row_num :: "history_row \<Rightarrow> int" where
  "row_num r \<equiv> sql_int (h_num r)"

definition img_rows :: "tables \<Rightarrow> int \<Rightarrow> history_row list" where
  "img_rows T imgid = filter (\<lambda>r. h_imgid r = imgid) (t_history T)"

definition img_masks :: "tables \<Rightarrow> int \<Rightarrow> masks_history_row list" where
  "img_masks T imgid = filter (\<lambda>r. m_imgid r = imgid) (t_masks T)"

text \<open>The numbers of the rows of an image are distinct and not negative.\<close>

definition numbered :: "history_row list \<Rightarrow> bool" where
  "numbered rs \<longleftrightarrow> distinct (map row_num rs) \<and> (\<forall>r\<in>set rs. h_num r \<noteq> None \<and> 0 \<le> row_num r)"

text \<open>The active items from the bottom to the top, without their numbers.\<close>

definition item :: "history_row \<Rightarrow> history_row" where
  "item r = r\<lparr>h_num := None\<rparr>"

definition active_stack :: "tables \<Rightarrow> int \<Rightarrow> history_row list" where
  "active_stack T imgid =
     map item (sort_key row_num
       (filter (\<lambda>r. sql_lt (h_num r) (read_history_end T imgid)) (img_rows T imgid)))"

text \<open>What compression means: the last item of each instance stays; the mask managers go.\<close>

fun compressed :: "history_row list \<Rightarrow> history_row list" where
  "compressed [] = []"
| "compressed (r # rs) =
     (if h_key r \<in> h_key ` set rs \<or> h_operation r = Some mask_manager then compressed rs
      else r # compressed rs)"

lemma sql_lt_num: "h_num r \<noteq> None \<Longrightarrow> sql_lt (h_num r) k \<longleftrightarrow> row_num r < k"
  by (auto simp: sql_lt_def sql_int_def)

lemma h_num_eq: "h_num r \<noteq> None \<Longrightarrow> h_num r = Some n \<longleftrightarrow> row_num r = n"
  by (auto simp: sql_int_def)

lemma row_num_inject:
  "h_num r \<noteq> None \<Longrightarrow> h_num t \<noteq> None \<Longrightarrow> h_num r = h_num t \<longleftrightarrow> row_num r = row_num t"
  by (auto simp: sql_int_def)

lemma compressed_sorted:
  assumes "sorted_wrt (\<lambda>a b. row_num a < row_num b) rs"
  shows "compressed rs = filter (\<lambda>r. \<not> (\<exists>r'\<in>set rs. h_key r' = h_key r \<and> row_num r < row_num r')
    \<and> h_operation r \<noteq> Some mask_manager) rs"
  using assms
proof (induction rs)
  case (Cons r rs)
  have "filter (\<lambda>x. \<not> (\<exists>r'\<in>set (r # rs). h_key r' = h_key x \<and> row_num x < row_num r')
      \<and> h_operation x \<noteq> Some mask_manager) rs = compressed rs"
  proof -
    have "(\<exists>r'\<in>set (r # rs). h_key r' = h_key x \<and> row_num x < row_num r') \<longleftrightarrow>
        (\<exists>r'\<in>set rs. h_key r' = h_key x \<and> row_num x < row_num r')" if "x \<in> set rs" for x
      using that Cons.prems by (auto simp: not_less_iff_gr_or_eq)
    then show ?thesis using Cons by (simp cong: filter_cong)
  qed
  moreover have "(\<exists>r'\<in>set (r # rs). h_key r' = h_key r \<and> row_num r < row_num r') \<longleftrightarrow> h_key r \<in> h_key ` set rs"
    using Cons.prems by (auto simp: image_iff) metis+
  ultimately show ?case by (simp only: compressed.simps filter.simps) simp
qed simp

lemma compressed_map_item: "compressed (map item rs) = map item (compressed rs)"
  by (induction rs) (auto simp: item_def image_iff)

text \<open>The rows that the grouped query keeps.\<close>

lemma sql_max_None: "sql_max xs = None \<longleftrightarrow> (\<forall>x\<in>set xs. x = None)"
  by (induction xs rule: sql_max.induct) (auto split: option.splits)

lemma sql_max_Some:
  "sql_max xs = Some m \<longleftrightarrow> Some m \<in> set xs \<and> (\<forall>n. Some n \<in> set xs \<longrightarrow> n \<le> m)"
proof (induction xs arbitrary: m rule: sql_max.induct)
  case (3 n xs)
  show ?case
  proof (cases "sql_max xs")
    case None
    then have "\<forall>x\<in>set xs. x = None" by (simp add: sql_max_None)
    with None show ?thesis by auto
  next
    case (Some k)
    with 3 have "Some k \<in> set xs" "\<forall>n. Some n \<in> set xs \<longrightarrow> n \<le> k" by blast+
    with Some show ?thesis by (fastforce simp: max_def)
  qed
qed auto

lemma sql_max_rows:
  assumes "rs \<noteq> []" and "\<forall>r\<in>set rs. h_num r \<noteq> None"
  shows "\<exists>r\<in>set rs. sql_max (map h_num rs) = h_num r \<and> (\<forall>r'\<in>set rs. row_num r' \<le> row_num r)"
proof -
  from assms have "sql_max (map h_num rs) \<noteq> None" by (cases rs) (auto simp: sql_max_None)
  then obtain m where m: "sql_max (map h_num rs) = Some m" by auto
  then obtain r where r: "r \<in> set rs" "h_num r = Some m" and b: "\<And>n. Some n \<in> set (map h_num rs) \<Longrightarrow> n \<le> m"
    by (auto simp: sql_max_Some)
  moreover have "row_num r' \<le> row_num r" if "r' \<in> set rs" for r'
    using that assms(2) r(2) b [of "row_num r'"] by (force simp: sql_int_def split: option.splits)
  ultimately show ?thesis using m by (metis (no_types))
qed

lemma group_max_superseded:
  assumes "numbered rs" and "r \<in> set rs"
  shows "sql_not_in (h_num r) (group_max_nums rs) \<longleftrightarrow>
    (\<exists>r'\<in>set rs. h_key r' = h_key r \<and> row_num r < row_num r')"
proof -
  define grp where "grp k = filter (\<lambda>r. h_key r = k) rs" for k
  have nums: "\<forall>r\<in>set (grp k). h_num r \<noteq> None" for k
    using assms(1) by (simp add: grp_def numbered_def)
  have top: "\<exists>t\<in>set (grp (h_key x)). sql_max (map h_num (grp (h_key x))) = h_num t \<and>
      (\<forall>r'\<in>set (grp (h_key x)). row_num r' \<le> row_num t)" if "x \<in> set rs" for x
    using sql_max_rows [OF _ nums, of "h_key x"] that by (force simp: grp_def filter_empty_conv)
  have inj: "a = b" if "a \<in> set rs" "b \<in> set rs" "h_num a = h_num b" for a b
    using that assms(1) by (auto simp: numbered_def distinct_map intro: inj_onD [of row_num])
  have gm: "set (group_max_nums rs) = (\<lambda>x. sql_max (map h_num (grp (h_key x)))) ` set rs"
    by (simp only: group_max_nums_def grp_def set_map set_remdups image_image)
  have "None \<notin> set (group_max_nums rs)"
  proof
    assume "None \<in> set (group_max_nums rs)"
    then obtain x where x: "x \<in> set rs" "sql_max (map h_num (grp (h_key x))) = None" unfolding gm by auto
    from top [OF x(1)] nums [of "h_key x"] x(2) show False by force
  qed
  moreover have "h_num r \<noteq> None" using assms by (auto simp: numbered_def)
  moreover have "group_max_nums rs \<noteq> []" using assms(2) by (auto simp: group_max_nums_def)
  moreover have "h_num r \<in> set (group_max_nums rs) \<longleftrightarrow>
      \<not> (\<exists>r'\<in>set rs. h_key r' = h_key r \<and> row_num r < row_num r')"
  proof
    assume "h_num r \<in> set (group_max_nums rs)"
    then obtain x where x: "x \<in> set rs" "h_num r = sql_max (map h_num (grp (h_key x)))" unfolding gm by blast
    obtain t where t: "t \<in> set (grp (h_key x))" "sql_max (map h_num (grp (h_key x))) = h_num t"
      "\<forall>r'\<in>set (grp (h_key x)). row_num r' \<le> row_num t" using top [OF x(1)] by blast
    with x inj [of r t] assms(2) have "r = t" by (auto simp: grp_def)
    with t show "\<not> (\<exists>r'\<in>set rs. h_key r' = h_key r \<and> row_num r < row_num r')"
      by (auto simp: grp_def not_less)
  next
    assume n: "\<not> (\<exists>r'\<in>set rs. h_key r' = h_key r \<and> row_num r < row_num r')"
    obtain t where t: "t \<in> set (grp (h_key r))" "sql_max (map h_num (grp (h_key r))) = h_num t"
      "\<forall>r'\<in>set (grp (h_key r)). row_num r' \<le> row_num t" using top [OF assms(2)] by blast
    have "row_num r = row_num t" using n t(1,3) assms(2) by (force simp: grp_def)
    then have "h_num r = h_num t" using nums [of "h_key r"] t(1) assms by (subst row_num_inject) (auto simp: numbered_def)
    then show "h_num r \<in> set (group_max_nums rs)" using t(2) assms(2) unfolding gm by (intro image_eqI [where x = r]) simp_all
  qed
  ultimately show ?thesis by (auto simp: sql_not_in_def)
qed


lemma sort_rows:
  assumes "numbered rs"
  shows "sorted_wrt (\<lambda>a b. row_num a < row_num b) (sort_key row_num rs)"
  using assms
  by (simp add: numbered_def sorted_wrt_map [symmetric, where f = row_num] strict_sorted_iff
      distinct_map distinct_sort)

text \<open>The step that deletes what is superseded, and then the managers.\<close>

definition kept :: "history_row list \<Rightarrow> history_row list" where
  "kept rs = filter (\<lambda>r. \<not> (\<exists>r'\<in>set rs. h_key r' = h_key r \<and> row_num r < row_num r')
     \<and> h_operation r \<noteq> Some mask_manager) rs"

lemma sort_kept:
  assumes "numbered rs"
  shows "sort_key row_num (kept rs) = compressed (sort_key row_num rs)"
  using compressed_sorted [OF sort_rows [OF assms]] by (simp add: kept_def filter_sort)

lemma numbered_filter: "numbered rs \<Longrightarrow> numbered (filter P rs)"
  by (auto simp: numbered_def distinct_map intro: inj_on_subset)

lemma img_rows_delete:
  assumes "numbered (img_rows T imgid)" and "\<forall>r\<in>set (img_rows T imgid). row_num r < e"
  shows "img_rows (delete_managers imgid (delete_superseded imgid e T)) imgid = kept (img_rows T imgid)"
proof -
  let ?rs = "img_rows T imgid"
  have rs: "filter (\<lambda>r. h_imgid r = imgid \<and> sql_lt (h_num r) e) (t_history T) = ?rs"
    using assms by (auto simp: img_rows_def numbered_def sql_lt_num intro!: filter_cong)
  have "img_rows (delete_managers imgid (delete_superseded imgid e T)) imgid =
      filter (\<lambda>r. \<not> sql_not_in (h_num r) (group_max_nums ?rs) \<and> h_operation r \<noteq> Some mask_manager) ?rs"
    unfolding rs [symmetric]
    by (auto simp: img_rows_def delete_managers_def delete_superseded_def Let_def rs intro!: filter_cong)
  also have "\<dots> = kept ?rs"
    unfolding kept_def by (rule filter_cong) (simp_all add: group_max_superseded [OF assms(1)])
  finally show ?thesis .
qed

text \<open>Changing the numbers of the rows of an image.\<close>

definition renum :: "int \<Rightarrow> (int \<Rightarrow> int) \<Rightarrow> history_row \<Rightarrow> history_row" where
  "renum imgid f r = (if h_imgid r = imgid then r\<lparr>h_num := map_option f (h_num r)\<rparr> else r)"

lemma renum_simps [simp]:
  "h_imgid (renum imgid f r) = h_imgid r" "h_key (renum imgid f r) = h_key r"
  "item (renum imgid f r) = item r"
  "h_num (renum imgid f r) = (if h_imgid r = imgid then map_option f (h_num r) else h_num r)"
  by (simp_all add: renum_def item_def)

definition rank :: "int set \<Rightarrow> int \<Rightarrow> int" where
  "rank N n = int (card {m \<in> N. m < n})"

lemma rank_le:
  assumes "\<forall>m\<in>N. 0 \<le> m" and "0 \<le> n"
  shows "rank N n \<le> n"
proof -
  have "card {m \<in> N. m < n} \<le> card {0..<n}"
    using assms by (intro card_mono) auto
  with assms show ?thesis by (simp add: rank_def)
qed

lemma rank_Suc:
  assumes "finite N"
  shows "rank N (n + 1) = (if n \<in> N then rank N n + 1 else rank N n)"
proof -
  have "{m \<in> N. m < n + 1} = (if n \<in> N then insert n {m \<in> N. m < n} else {m \<in> N. m < n})"
    by (auto simp: less_le)
  with assms show ?thesis by (simp add: rank_def)
qed

lemma renumber_loop_rank:
  fixes rs :: "history_row list" and imgid :: int
  defines "N \<equiv> {n. \<exists>r\<in>set rs. h_imgid r = imgid \<and> h_num r = Some n}"
  assumes "\<forall>n\<in>N. 0 \<le> n" and "0 \<le> i"
  shows "renumber_loop imgid k i (rank N i) (map (renum imgid (\<lambda>n. if n < i then rank N n else n)) rs) =
    (map (renum imgid (\<lambda>n. if n < i + int k then rank N n else n)) rs, rank N (i + int k))"
  using assms(3)
proof (induction k arbitrary: i)
  case (Suc k)
  let ?f = "\<lambda>i n. if n < i then rank N n else n"
  have fin: "finite N"
  proof -
    have "N \<subseteq> row_num ` set rs" by (force simp: N_def sql_int_def image_iff)
    then show ?thesis by (rule finite_subset) simp
  qed
  have below: "rank N n \<noteq> i" if "n < i" "n \<in> N" for n
    using rank_le [OF assms(2), of n] assms(2) that by force
  have ex: "(\<exists>r\<in>set (map (renum imgid (?f i)) rs). h_imgid r = imgid \<and> h_num r = Some i) \<longleftrightarrow> i \<in> N"
  proof
    assume "\<exists>r\<in>set (map (renum imgid (?f i)) rs). h_imgid r = imgid \<and> h_num r = Some i"
    then obtain r where r0: "r \<in> set rs" "h_imgid r = imgid" "map_option (?f i) (h_num r) = Some i"
      by auto
    then obtain n where r: "h_num r = Some n" "?f i n = i" by blast
    with r0 have "n \<in> N" by (auto simp: N_def)
    with below r(2) show "i \<in> N" by (auto split: if_splits)
  next
    assume "i \<in> N"
    then obtain r where r: "r \<in> set rs" "h_imgid r = imgid" "h_num r = Some i" by (auto simp: N_def)
    then have "h_imgid (renum imgid (?f i) r) = imgid \<and> h_num (renum imgid (?f i) r) = Some i"
      by simp
    with r(1) show "\<exists>r\<in>set (map (renum imgid (?f i)) rs). h_imgid r = imgid \<and> h_num r = Some i"
      unfolding set_map by (meson imageI)
  qed
  have step: "map (\<lambda>r. if h_imgid r = imgid \<and> h_num r = Some i then r\<lparr>h_num := Some (rank N i)\<rparr> else r)
      (map (renum imgid (?f i)) rs) = map (renum imgid (?f (i + 1))) rs"
  proof -
    have "(if h_imgid (renum imgid (?f i) r) = imgid \<and> h_num (renum imgid (?f i) r) = Some i
        then (renum imgid (?f i) r)\<lparr>h_num := Some (rank N i)\<rparr> else renum imgid (?f i) r) =
        renum imgid (?f (i + 1)) r" if "r \<in> set rs" for r
    proof (cases "h_num r")
      case (Some n)
      show ?thesis
      proof (cases "h_imgid r = imgid")
        case True
        with that Some have "n \<in> N" by (auto simp: N_def)
        with True Some below [of n] show ?thesis by (auto simp: renum_def)
      qed (simp add: renum_def)
    qed (simp add: renum_def)
    then show ?thesis by simp
  qed
  have same: "map (renum imgid (?f i)) rs = map (renum imgid (?f (i + 1))) rs" if "i \<notin> N"
  proof -
    have "map_option (?f i) (h_num r) = map_option (?f (i + 1)) (h_num r)" if "r \<in> set rs" "h_imgid r = imgid" for r
      using that \<open>i \<notin> N\<close> by (cases "h_num r") (auto simp: N_def)
    then show ?thesis by (auto simp: renum_def)
  qed
  have "renumber_loop imgid (Suc k) i (rank N i) (map (renum imgid (?f i)) rs) =
      renumber_loop imgid k (i + 1) (rank N (i + 1)) (map (renum imgid (?f (i + 1))) rs)"
  proof (cases "i \<in> N")
    case True
    then show ?thesis by (simp only: renumber_loop.simps ex step rank_Suc [OF fin] if_True)
  next
    case False
    then show ?thesis
      by (simp only: renumber_loop.simps ex rank_Suc [OF fin] if_False) (simp only: same [OF False])
  qed
  with Suc.IH [of "i + 1"] Suc.prems show ?case by (simp add: add.assoc)
qed simp


lemma rank_sorted:
  assumes "sorted_wrt (<) ns"
  shows "map (rank (set ns)) ns = map int [0..<length ns]"
proof (rule nth_equalityI)
  fix i assume "i < length (map (rank (set ns)) ns)"
  then have i: "i < length ns" by simp
  have "{m \<in> set ns. m < ns ! i} = (\<lambda>j. ns ! j) ` {..<i}"
  proof -
    have "ns ! j < ns ! i \<longleftrightarrow> j < i" if "j < length ns" for j
      using assms that i by (metis linorder_neqE_nat order_less_asym sorted_wrt_nth_less)
    then show ?thesis using i by (auto simp: in_set_conv_nth) (metis order_less_trans)
  qed
  moreover have "inj_on (\<lambda>j. ns ! j) {..<i}"
    using assms i by (intro inj_onI) (metis lessThan_iff linorder_neqE_nat order_less_irrefl order_less_trans sorted_wrt_nth_less)
  ultimately show "map (rank (set ns)) ns ! i = map int [0..<length ns] ! i"
    using i by (simp add: rank_def card_image)
qed simp

text \<open>The numbers of sorted rows after the renumbering.\<close>

lemma sort_renum_rank:
  assumes "numbered rs" and "\<forall>r\<in>set rs. h_imgid r = imgid"
  defines "N \<equiv> row_num ` set rs"
  shows "map item (sort_key row_num (map (renum imgid (rank N)) rs)) = map item (sort_key row_num rs)"
    and "map h_num (sort_key row_num (map (renum imgid (rank N)) rs)) = map (Some \<circ> int) [0..<length rs]"
proof -
  let ?S = "sort_key row_num rs"
  have srt: "sorted_wrt (<) (map row_num ?S)"
    using sort_rows [OF assms(1)] by (simp add: sorted_wrt_map)
  have N: "N = set (map row_num ?S)" by (simp add: N_def)
  have rn: "row_num (renum imgid (rank N) r) = rank N (row_num r)"
      "h_num (renum imgid (rank N) r) = Some (rank N (row_num r))" if "r \<in> set rs" for r
    using that assms(1,2) by (auto simp: numbered_def sql_int_def)
  have ranks: "map (rank N \<circ> row_num) ?S = map int [0..<length rs]"
    using rank_sorted [OF srt] N by simp
  then have nums: "map row_num (map (renum imgid (rank N)) ?S) = map int [0..<length rs]"
    unfolding ranks [symmetric] map_map by (intro map_cong) (simp_all only: o_apply rn(1) set_sort)
  have "sort_key row_num (map (renum imgid (rank N)) rs) = map (renum imgid (rank N)) ?S"
  proof (rule sort_key_inj_key_eq)
    show "mset (map (renum imgid (rank N)) rs) = mset (map (renum imgid (rank N)) ?S)"
      by (metis mset_map mset_sort)
    have "distinct (map row_num (map (renum imgid (rank N)) ?S))" unfolding nums by (simp add: distinct_map)
    then show "inj_on row_num (set (map (renum imgid (rank N)) rs))"
      by (metis distinct_map set_map set_sort)
    show "sorted (map row_num (map (renum imgid (rank N)) ?S))" unfolding nums
      by (simp add: sorted_iff_nth_mono)
  qed
  moreover have "map h_num (map (renum imgid (rank N)) ?S) = map Some (map (rank N \<circ> row_num) ?S)"
    unfolding map_map by (intro map_cong) (simp_all only: o_apply rn(2) set_sort)
  ultimately show "map item (sort_key row_num (map (renum imgid (rank N)) rs)) = map item ?S"
    and "map h_num (sort_key row_num (map (renum imgid (rank N)) rs)) = map (Some \<circ> int) [0..<length rs]"
    using ranks by simp_all
qed



section \<open>Compression\<close>

lemmas compress_defs = delete_managers_def delete_superseded_def delete_old_masks_def add_manager_def
  update_image_def insert_history_def Let_def

text \<open>The rows of the other images and what the history hash writes.\<close>

lemma filter_update_other:
  "(\<And>x. P x \<Longrightarrow> \<not> Q x \<and> \<not> Q (f x)) \<Longrightarrow> filter Q (map (\<lambda>r. if P r then f r else r) xs) = filter Q xs"
  by (induction xs) auto

lemma filter_delete_other:
  "(\<And>x. P x \<Longrightarrow> \<not> Q x) \<Longrightarrow> filter Q (filter (\<lambda>r. P r \<longrightarrow> R r) xs) = filter Q xs"
  by (induction xs) auto

lemma delete_steps_frame [dt_frames]:
  assumes "j \<noteq> imgid"
  shows "img_rows (delete_old_masks imgid e (delete_managers imgid (delete_superseded imgid e T))) j = img_rows T j"
    and "img_masks (delete_old_masks imgid e (delete_managers imgid (delete_superseded imgid e T))) j = img_masks T j"
  using assms
  by (simp_all add: compress_defs img_rows_def img_masks_def filter_delete_other [where P = "\<lambda>r. h_imgid r = imgid"]
      filter_delete_other [where P = "\<lambda>r. m_imgid r = imgid"] del: filter_filter)

lemma add_manager_frame [dt_frames]:
  assumes "j \<noteq> imgid"
  shows "img_rows (add_manager imgid mp T) j = img_rows T j"
    and "img_masks (add_manager imgid mp T) j = img_masks T j"
  by (simp_all add: compress_defs img_rows_def img_masks_def manager_row_def assms assms [symmetric]
      filter_update_other [where P = "\<lambda>r. h_imgid r = imgid" and Q = "\<lambda>r. h_imgid r = j"]
      filter_update_other [where P = "\<lambda>r. m_imgid r = imgid" and Q = "\<lambda>r. m_imgid r = j"])

lemma compress_tables_frame [dt_frames]:
  assumes "j \<noteq> imgid"
  shows "img_rows (compress_tables imgid e T) j = img_rows T j"
    and "img_masks (compress_tables imgid e T) j = img_masks T j"
  using assms by (simp_all add: compress_tables_def Let_def dt_frames)

lemma hash_write_frame [dt_frames, simp]:
  "t_history (dt_history_hash_write_from_history E imgid type T) = t_history T"
  "t_masks (dt_history_hash_write_from_history E imgid type T) = t_masks T"
  "t_images (dt_history_hash_write_from_history E imgid type T) = t_images T"
  "t_module_order (dt_history_hash_write_from_history E imgid type T) = t_module_order T"
  "t_snap_history (dt_history_hash_write_from_history E imgid type T) = t_snap_history T"
  "t_snap_masks (dt_history_hash_write_from_history E imgid type T) = t_snap_masks T"
  "t_snap_order (dt_history_hash_write_from_history E imgid type T) = t_snap_order T"
  by (simp_all add: dt_history_hash_write_from_history_def split: option.splits)

lemma transaction_db [simp]:
  "db (dt_database_start_transaction L) = db L" "db (dt_database_release_transaction L) = db L"
  "db (log_call c L) = db L" "db (on_db f L) = f (db L)"
  by (simp_all add: dt_database_start_transaction_def dt_database_release_transaction_def log_call_def
      on_db_def Let_def)

text \<open>The masks of the newest number stay.\<close>

lemma newest_masks:
  assumes "\<forall>m\<in>set (img_masks T imgid). sql_lt (m_num m) e"
  shows "img_masks (delete_old_masks imgid e T) imgid =
    filter (\<lambda>m. \<forall>m'\<in>set (img_masks T imgid). sql_int (m_num m') \<le> sql_int (m_num m)) (img_masks T imgid)"
proof -
  let ?ms = "img_masks T imgid"
  have ms: "filter (\<lambda>r. m_imgid r = imgid \<and> sql_lt (m_num r) e) (t_masks T) = ?ms"
    using assms by (auto simp: img_masks_def intro!: filter_cong)
  have some: "m_num m = Some (sql_int (m_num m))" if "m \<in> set ?ms" for m
    using assms that by (auto simp: sql_lt_def sql_int_def split: option.splits)
  have "\<not> sql_not_in (m_num m) [sql_max (map m_num ?ms)] \<longleftrightarrow>
      (\<forall>m'\<in>set ?ms. sql_int (m_num m') \<le> sql_int (m_num m))" if m: "m \<in> set ?ms" for m
  proof -
    have "sql_max (map m_num ?ms) \<noteq> None"
      unfolding sql_max_None using m some [OF m] by (metis imageI list.set_map option.distinct(1))
    then obtain k where k: "sql_max (map m_num ?ms) = Some k" by blast
    then have "Some k \<in> m_num ` set ?ms" "\<forall>n. Some n \<in> m_num ` set ?ms \<longrightarrow> n \<le> k" by (simp_all add: sql_max_Some)
    then have "m_num m = Some k \<longleftrightarrow> (\<forall>m'\<in>set ?ms. sql_int (m_num m') \<le> sql_int (m_num m))"
      using m some by (metis (no_types, opaque_lifting) antisym imageE image_eqI option.inject)
    with k some [OF m] show ?thesis by (auto simp: sql_not_in_def)
  qed
  then show ?thesis
    by (simp add: delete_old_masks_def Let_def ms) (auto simp: img_masks_def intro!: filter_cong)
qed

lemma newest_masks_empty:
  assumes "\<forall>m\<in>set (img_masks T imgid). sql_lt (m_num m) e"
  shows "img_masks (delete_old_masks imgid e T) imgid = [] \<longleftrightarrow> img_masks T imgid = []"
proof -
  let ?ms = "img_masks T imgid"
  have "\<exists>m\<in>set ?ms. \<forall>m'\<in>set ?ms. sql_int (m_num m') \<le> sql_int (m_num m)" if "?ms \<noteq> []"
  proof -
    have "Max ((sql_int \<circ> m_num) ` set ?ms) \<in> (sql_int \<circ> m_num) ` set ?ms"
      using that by (intro Max_in) auto
    then obtain m where "m \<in> set ?ms" "Max ((sql_int \<circ> m_num) ` set ?ms) = sql_int (m_num m)" by auto
    then show ?thesis by (metis (no_types) List.finite_set Max_ge finite_imageI imageI o_apply)
  qed
  then show ?thesis by (auto simp: newest_masks [OF assms] filter_empty_conv)
qed


text \<open>Whether the bottom item is a mask manager.\<close>

definition manager_at_0 :: "tables \<Rightarrow> int \<Rightarrow> bool" where
  "manager_at_0 T imgid \<longleftrightarrow> length (filter (\<lambda>r. h_imgid r = imgid \<and> h_operation r = Some mask_manager
     \<and> h_num r = Some 0) (t_history T)) = 1"

definition shift_by :: "bool \<Rightarrow> int \<Rightarrow> int" where
  "shift_by mp n = (if mp then n else n + 1)"

lemma shift_by_simps: "shift_by True = (\<lambda>n. n)" "shift_by False = (\<lambda>n. n + 1)"
  by (simp_all add: fun_eq_iff shift_by_def)

lemma add_manager_rows:
  assumes "t_images T imgid \<noteq> None"
  shows "img_rows (add_manager imgid mp T) imgid =
      map (renum imgid (shift_by mp)) (img_rows T imgid) @ [manager_row imgid]"
    and "img_masks (add_manager imgid mp T) imgid = map (\<lambda>m. m\<lparr>m_num := Some 0\<rparr>) (img_masks T imgid)"
proof -
  have rows: "filter (\<lambda>r. h_imgid r = imgid) (map (\<lambda>r. if h_imgid r = imgid then f r else r) xs) =
      map f (filter (\<lambda>r. h_imgid r = imgid) xs)" if "\<And>r. h_imgid (f r) = h_imgid r" for f xs
    using that by (induction xs) auto
  have masks: "filter (\<lambda>r. m_imgid r = imgid) (map (\<lambda>r. if m_imgid r = imgid then f r else r) xs) =
      map f (filter (\<lambda>r. m_imgid r = imgid) xs)" if "\<And>r. m_imgid (f r) = m_imgid r" for f xs
    using that by (induction xs) auto
  show "img_rows (add_manager imgid mp T) imgid =
      map (renum imgid (shift_by mp)) (img_rows T imgid) @ [manager_row imgid]"
    using assms
    by (cases mp) (auto simp: compress_defs img_rows_def manager_row_def rows renum_def shift_by_simps option.map_ident
        map_idI)
  show "img_masks (add_manager imgid mp T) imgid = map (\<lambda>m. m\<lparr>m_num := Some 0\<rparr>) (img_masks T imgid)"
    using assms by (auto simp: compress_defs img_masks_def masks)
qed

lemma compress_tables_rows:
  assumes "numbered (img_rows T imgid)" and "\<forall>r\<in>set (img_rows T imgid). row_num r < e"
    and "\<forall>m\<in>set (img_masks T imgid). sql_lt (m_num m) e" and "t_images T imgid \<noteq> None"
  shows "img_rows (compress_tables imgid e T) imgid =
      (if img_masks T imgid = [] then kept (img_rows T imgid)
       else map (renum imgid (shift_by (manager_at_0 T imgid))) (kept (img_rows T imgid)) @ [manager_row imgid])"
    and "img_masks (compress_tables imgid e T) imgid =
      map (\<lambda>m. m\<lparr>m_num := Some 0\<rparr>)
        (filter (\<lambda>m. \<forall>m'\<in>set (img_masks T imgid). sql_int (m_num m') \<le> sql_int (m_num m)) (img_masks T imgid))"
    and "t_images (compress_tables imgid e T) imgid \<noteq> None"
proof -
  let ?D = "delete_managers imgid (delete_superseded imgid e T)"
  let ?T1 = "delete_old_masks imgid e ?D"
  have D: "img_masks ?D imgid = img_masks T imgid" and im: "t_images ?T1 = t_images T"
    and r1: "img_rows ?T1 imgid = kept (img_rows T imgid)"
    using img_rows_delete [OF assms(1,2)] by (simp_all add: compress_defs img_masks_def img_rows_def)
  note m = newest_masks [of ?D imgid e, unfolded D, OF assms(3)] newest_masks_empty [of ?D imgid e, unfolded D, OF assms(3)]
  have c: "compress_tables imgid e T =
      (if img_masks T imgid = [] then ?T1 else add_manager imgid (manager_at_0 T imgid) ?T1)"
    using m(2) by (simp add: compress_tables_def Let_def manager_at_0_def img_masks_def)
  show "img_rows (compress_tables imgid e T) imgid =
      (if img_masks T imgid = [] then kept (img_rows T imgid)
       else map (renum imgid (shift_by (manager_at_0 T imgid))) (kept (img_rows T imgid)) @ [manager_row imgid])"
    unfolding c using add_manager_rows(1) [of ?T1 imgid] assms(4) r1 im by simp
  show "img_masks (compress_tables imgid e T) imgid = map (\<lambda>m. m\<lparr>m_num := Some 0\<rparr>)
      (filter (\<lambda>m. \<forall>m'\<in>set (img_masks T imgid). sql_int (m_num m') \<le> sql_int (m_num m)) (img_masks T imgid))"
    unfolding c using add_manager_rows(2) [of ?T1 imgid] assms(4) m im by simp
  show "t_images (compress_tables imgid e T) imgid \<noteq> None"
    unfolding c using assms(4) im by (simp add: compress_defs)
qed

text \<open>The manager goes below the shifted rows.\<close>

lemma manager_below:
  assumes "numbered rs" and "\<forall>r\<in>set rs. h_imgid r = imgid" and "mp \<Longrightarrow> \<forall>r\<in>set rs. row_num r \<noteq> 0"
  defines "ys \<equiv> map (renum imgid (shift_by mp)) rs @ [manager_row imgid]"
  shows "numbered ys" and "map item (sort_key row_num ys) = item (manager_row imgid) # map item (sort_key row_num rs)"
proof -
  let ?f = "renum imgid (shift_by mp)"
  have num: "h_num (?f r) \<noteq> None" "row_num (?f r) = shift_by mp (row_num r)" "0 < row_num (?f r)"
    if r: "r \<in> set rs" for r
  proof -
    from r assms(1) obtain n where n: "h_num r = Some n" "row_num r = n" "0 \<le> n"
      by (auto simp: numbered_def sql_int_def)
    with r assms(3) have "mp \<Longrightarrow> n \<noteq> 0" by auto
    with n r assms(2) show "h_num (?f r) \<noteq> None" "row_num (?f r) = shift_by mp (row_num r)" "0 < row_num (?f r)"
      by (auto simp: shift_by_def sql_int_def)
  qed
  have mono: "shift_by mp a < shift_by mp b \<longleftrightarrow> a < b" "shift_by mp a = shift_by mp b \<longleftrightarrow> a = b" for a b
    by (auto simp: shift_by_def)
  have nums: "map row_num (map ?f xs) = map (shift_by mp \<circ> row_num) xs" if "set xs \<subseteq> set rs" for xs
    unfolding map_map using that num(2) by (intro map_cong) (auto simp del: renum_simps)
  have m: "row_num (manager_row imgid) = 0" "h_num (manager_row imgid) \<noteq> None"
    by (simp_all add: manager_row_def sql_int_def)
  have "distinct (map row_num (map ?f rs))"
    unfolding nums [OF order_refl] using assms(1) by (simp add: numbered_def distinct_map inj_on_def mono)
  moreover have "0 \<notin> set (map row_num (map ?f rs))" using num(3) by (force simp del: renum_simps)
  ultimately show n: "numbered ys"
    using num m unfolding ys_def numbered_def by (auto simp del: renum_simps intro: less_imp_le)
  have "sort_key row_num ys = manager_row imgid # map ?f (sort_key row_num rs)"
  proof (rule sort_key_inj_key_eq)
    show "mset ys = mset (manager_row imgid # map ?f (sort_key row_num rs))"
      by (simp add: ys_def mset_map)
    show "inj_on row_num (set ys)" using n by (simp add: numbered_def distinct_map)
    have "sorted (map row_num (map ?f (sort_key row_num rs)))"
      using sorted_sort_key [of row_num rs] unfolding nums [OF set_sort [THEN equalityD1]] sorted_map
      by (rule sorted_wrt_mono_rel [rotated]) (simp add: shift_by_def)
    then show "sorted (map row_num (manager_row imgid # map ?f (sort_key row_num rs)))"
      using num(3) m by (auto simp del: renum_simps intro: less_imp_le)
  qed
  then show "map item (sort_key row_num ys) = item (manager_row imgid) # map item (sort_key row_num rs)"
    by simp
qed


lemma numbered_some:
  "numbered rs \<Longrightarrow> r \<in> set rs \<Longrightarrow> h_num r = Some (row_num r)"
  "numbered rs \<Longrightarrow> r \<in> set rs \<Longrightarrow> 0 \<le> row_num r"
  by (auto simp: numbered_def sql_int_def)

lemma numbered_max:
  assumes "numbered rs" and "r \<in> set rs"
  shows "row_num r \<le> sql_int (sql_max (map h_num rs))"
proof -
  from assms(2) have "rs \<noteq> []" by auto
  with sql_max_rows [of rs] assms(1) obtain t where "sql_max (map h_num rs) = h_num t"
    "\<forall>r'\<in>set rs. row_num r' \<le> row_num t" by (auto simp: numbered_def)
  with assms(2) show ?thesis by simp
qed

text \<open>The loop from the bottom to the highest number gives each row its rank.\<close>

lemma renumber_loop_all:
  assumes "numbered (filter (\<lambda>r. h_imgid r = imgid) rows)"
  defines "R \<equiv> filter (\<lambda>r. h_imgid r = imgid) rows"
  assumes "0 \<le> mx" and "\<forall>r\<in>set R. row_num r \<le> mx"
  shows "renumber_loop imgid (nat (mx + 1)) 0 0 rows =
    (map (renum imgid (rank (row_num ` set R))) rows, int (length R))"
proof -
  define N where "N = {n. \<exists>r\<in>set rows. h_imgid r = imgid \<and> h_num r = Some n}"
  have N: "N = row_num ` set R"
    using numbered_some(1) [OF assms(1)] by (force simp: N_def R_def sql_int_def)
  have pos: "\<forall>n\<in>N. 0 \<le> n" using numbered_some(2) [OF assms(1)] by (auto simp: N R_def)
  have same: "map (renum imgid f) rows = map (renum imgid g) rows" if "\<forall>n\<in>N. f n = g n" for f g
  proof (intro map_cong)
    fix r assume "r \<in> set rows"
    with that show "renum imgid f r = renum imgid g r"
      by (cases "h_num r") (auto simp: renum_def N_def)
  qed simp
  have "map (renum imgid (\<lambda>n. n)) rows = rows"
    by (intro map_idI) (simp add: renum_def option.map_ident)
  then have start: "map (renum imgid (\<lambda>n. if n < 0 then rank N n else n)) rows = rows"
    using same [of "\<lambda>n. if n < 0 then rank N n else n" "\<lambda>n. n"] pos by force
  have "{m \<in> N. m < 0} = {}" using pos by force
  then have "rank N 0 = 0" by (simp only: rank_def card.empty of_nat_0)
  with renumber_loop_rank [of rows imgid 0 "nat (mx + 1)", folded N_def] pos start assms(3)
  have "renumber_loop imgid (nat (mx + 1)) 0 0 rows =
      (map (renum imgid (\<lambda>n. if n < mx + 1 then rank N n else n)) rows, rank N (mx + 1))"
    by simp
  also have "map (renum imgid (\<lambda>n. if n < mx + 1 then rank N n else n)) rows = map (renum imgid (rank N)) rows"
    by (rule same) (use assms(4) N in force)
  also have "rank N (mx + 1) = int (length R)"
  proof -
    have "{m \<in> N. m < mx + 1} = N" using assms(4) by (force simp: N)
    moreover have "card N = length R"
      using assms(1) unfolding R_def [symmetric] N numbered_def by (simp add: card_image distinct_card distinct_map)
    ultimately show ?thesis by (simp add: rank_def)
  qed
  finally show ?thesis by (simp add: N)
qed

lemma numbered_pos:
  assumes "numbered rs" and "2 \<le> length rs"
  shows "\<exists>r\<in>set rs. 0 < row_num r"
proof -
  from assms(2) obtain a b c where rs: "rs = a # b # c" by (cases rs rule: remdups_adj.cases) auto
  with assms(1) have "row_num a \<noteq> row_num b" by (simp add: numbered_def)
  with numbered_some(2) [OF assms(1)] rs show ?thesis by force
qed

lemma renumber_tables_spec:
  fixes T imgid
  defines "R \<equiv> img_rows T imgid"
  defines "T' \<equiv> renumber_tables imgid T"
  assumes "numbered R" and "length R \<noteq> 1 \<or> (\<exists>r\<in>set R. 0 < row_num r)" and "t_images T imgid \<noteq> None"
  shows "img_rows T' imgid = map (renum imgid (rank (row_num ` set R))) R"
    and "read_history_end T' imgid = int (length R)"
    and "j \<noteq> imgid \<Longrightarrow> img_rows T' j = img_rows T j" and "t_masks T' = t_masks T"
proof -
  have T': "t_history T' = map (renum imgid (rank (row_num ` set R))) (t_history T) \<and>
      t_images T' = t_images (fst (dt_image_set_history_end imgid (int (length R)) T)) \<and> t_masks T' = t_masks T"
  proof (cases "R = []")
    case True
    then have "\<forall>r\<in>set (t_history T). h_imgid r \<noteq> imgid" by (simp add: R_def img_rows_def filter_empty_conv)
    then have "map (renum imgid f) (t_history T) = t_history T" for f
      by (intro map_idI) (auto simp: renum_def)
    with True show ?thesis
      by (simp add: T'_def renumber_tables_def Let_def R_def img_rows_def dt_image_set_history_end_def update_image_def)
  next
    case False
    have "\<exists>r\<in>set R. 0 < row_num r"
      using assms(4) numbered_pos [OF assms(3)] False by (cases R rule: remdups_adj.cases) auto
    with numbered_max [OF assms(3)] have mx: "0 < sql_int (sql_max (map h_num R))" by force
    with renumber_loop_all [of imgid "t_history T", folded img_rows_def, folded R_def, OF assms(3) less_imp_le [OF mx]]
      numbered_max [OF assms(3)] False show ?thesis
      by (simp add: T'_def renumber_tables_def Let_def R_def [symmetric, unfolded img_rows_def]
          dt_image_set_history_end_def update_image_def)
  qed
  then show "img_rows T' imgid = map (renum imgid (rank (row_num ` set R))) R"
    by (simp add: img_rows_def R_def filter_map comp_def)
  show "read_history_end T' imgid = int (length R)"
    using T' assms(5) by (auto simp: read_history_end_def dt_image_set_history_end_def update_image_def sql_int_def)
  show "img_rows T' j = img_rows T j" if "j \<noteq> imgid"
  proof -
    have "filter (\<lambda>r. h_imgid r = j) (map (renum imgid f) xs) = filter (\<lambda>r. h_imgid r = j) xs" for f xs
      using that by (induction xs) (auto simp: renum_def)
    then show ?thesis using T' by (simp add: img_rows_def)
  qed
  show "t_masks T' = t_masks T" using T' by blast
qed


text \<open>
  After the compression of the tables the sorted items are the compressed ones, under a manager when
  there are masks.
\<close>

lemma manager_at_0_kept:
  assumes "numbered (img_rows T imgid)" and "manager_at_0 T imgid" and "r \<in> set (kept (img_rows T imgid))"
  shows "row_num r \<noteq> 0"
proof
  assume z: "row_num r = 0"
  from assms(2) have "filter (\<lambda>r. h_imgid r = imgid \<and> h_operation r = Some mask_manager
     \<and> h_num r = Some 0) (t_history T) \<noteq> []" by (auto simp: manager_at_0_def)
  then obtain m where m: "m \<in> set (img_rows T imgid)" "h_operation m = Some mask_manager" "row_num m = 0"
    by (auto simp: filter_empty_conv img_rows_def sql_int_def)
  from assms(3) have "r \<in> set (img_rows T imgid)" "h_operation r \<noteq> Some mask_manager" by (auto simp: kept_def)
  with m z assms(1) show False by (auto simp: numbered_def distinct_map dest: inj_onD [of row_num _ r m])
qed

lemma compress_tables_sorted:
  assumes "numbered (img_rows T imgid)" and "\<forall>r\<in>set (img_rows T imgid). row_num r < e"
    and "\<forall>m\<in>set (img_masks T imgid). sql_lt (m_num m) e" and "t_images T imgid \<noteq> None"
  shows "numbered (img_rows (compress_tables imgid e T) imgid)"
    and "map item (sort_key row_num (img_rows (compress_tables imgid e T) imgid)) =
      (if img_masks T imgid = [] then [] else [item (manager_row imgid)]) @
      compressed (map item (sort_key row_num (img_rows T imgid)))"
proof -
  let ?K = "kept (img_rows T imgid)"
  have K: "numbered ?K" "\<forall>r\<in>set ?K. h_imgid r = imgid"
    using numbered_filter [OF assms(1)] by (auto simp: kept_def img_rows_def)
  note m = manager_below [OF K, of "manager_at_0 T imgid"] manager_at_0_kept [OF assms(1)]
  show "numbered (img_rows (compress_tables imgid e T) imgid)"
    using m K(1) by (auto simp: compress_tables_rows(1) [OF assms])
  show "map item (sort_key row_num (img_rows (compress_tables imgid e T) imgid)) =
      (if img_masks T imgid = [] then [] else [item (manager_row imgid)]) @
      compressed (map item (sort_key row_num (img_rows T imgid)))"
    using m by (auto simp: compress_tables_rows(1) [OF assms] sort_kept [OF assms(1)] compressed_map_item)
qed

lemma attop_bounds:
  assumes "history_end_attop T imgid = 1" and "numbered (img_rows T imgid)"
  shows "\<forall>r\<in>set (img_rows T imgid). row_num r < read_history_end T imgid" and "0 < read_history_end T imgid"
proof -
  from assms(1) have top: "sql_int (sql_max (map h_num (img_rows T imgid))) < read_history_end T imgid"
    by (auto simp: history_end_attop_def Let_def img_rows_def split: if_splits)
  with numbered_max [OF assms(2)] show "\<forall>r\<in>set (img_rows T imgid). row_num r < read_history_end T imgid" by force
  show "0 < read_history_end T imgid"
  proof (cases "img_rows T imgid")
    case Nil
    with top show ?thesis by (simp add: sql_int_def)
  next
    case (Cons r rs)
    with numbered_max [OF assms(2), of r] numbered_some(2) [OF assms(2), of r] top show ?thesis by simp
  qed
qed

lemma consecutive_rows:
  assumes "map h_num (sort_key row_num rs) = map (Some \<circ> int) [0..<n]"
  shows "numbered rs" and "\<forall>r\<in>set rs. row_num r < int n"
proof -
  have "map row_num (sort_key row_num rs) = map sql_int (map h_num (sort_key row_num rs))" by simp
  also have "\<dots> = map int [0..<n]" unfolding assms by (simp add: sql_int_def)
  finally have nums: "map row_num (sort_key row_num rs) = map int [0..<n]" .
  then have "set (map row_num (sort_key row_num rs)) = int ` {0..<n}" by simp
  then have rng: "row_num ` set rs = int ` {0..<n}" by simp
  then show "\<forall>r\<in>set rs. row_num r < int n" by force
  from nums have "distinct (map row_num (sort_key row_num rs))" by (simp add: distinct_map)
  then have "distinct (map row_num rs)" by (simp add: distinct_map distinct_sort)
  moreover have "h_num r \<noteq> None" if "r \<in> set rs" for r
  proof -
    from that have "h_num r \<in> set (map h_num (sort_key row_num rs))" by simp
    then show ?thesis unfolding assms by auto
  qed
  ultimately show "numbered rs" using rng by (force simp: numbered_def)
qed

lemma active_stack_all:
  assumes "\<forall>r\<in>set (img_rows T imgid). row_num r < read_history_end T imgid" and "numbered (img_rows T imgid)"
  shows "active_stack T imgid = map item (sort_key row_num (img_rows T imgid))"
proof -
  have "filter (\<lambda>r. sql_lt (h_num r) (read_history_end T imgid)) (img_rows T imgid) = img_rows T imgid"
    using assms by (intro filter_True) (auto simp: numbered_def sql_lt_num)
  then show ?thesis by (simp add: active_stack_def)
qed

text \<open>
  C7: compressing a history whose end is at the top keeps what the image looks like. Read from the bottom to the
  top, the new stack is the old one with only the last item of every instance of a module and without
  its mask managers; when the image has masks, one mask manager lies at the bottom. The rows are
  numbered from 0 without gaps, \<open>history_end\<close> is their number, of the masks those of the newest number stay,
  and the rows of other images do not change. The result must not be a single row.
\<close>

theorem compress_keeps_effective_stack:
  assumes "dt_is_valid_imgid imgid" and "t_images (db L) imgid = Some r"
    and "history_end_attop (db L) imgid = 1" and "numbered (img_rows (db L) imgid)"
    and "\<forall>m\<in>set (img_masks (db L) imgid). sql_lt (m_num m) (read_history_end (db L) imgid)"
    and "new = (if img_masks (db L) imgid = [] then [] else [item (manager_row imgid)]) @
      compressed (active_stack (db L) imgid)" and "length new \<noteq> 1"
    and "dt_history_compress E ts imgid (L, U) = Some ((L', U'), ok)"
  shows "ok \<and> U' = U \<and> active_stack (db L') imgid = new \<and> read_history_end (db L') imgid = int (length new) \<and>
    map h_num (sort_key row_num (img_rows (db L') imgid)) = map (Some \<circ> int) [0..<length new] \<and>
    img_masks (db L') imgid = map (\<lambda>m. m\<lparr>m_num := Some 0\<rparr>)
      (filter (\<lambda>m. \<forall>m'\<in>set (img_masks (db L) imgid). sql_int (m_num m') \<le> sql_int (m_num m))
        (img_masks (db L) imgid)) \<and>
    (\<forall>j. j \<noteq> imgid \<longrightarrow> img_rows (db L') j = img_rows (db L) j \<and> img_masks (db L') j = img_masks (db L) j)"
proof -
  let ?T = "db L" and ?e = "read_history_end (db L) imgid"
  let ?C = "dt_history_hash_write_from_history E imgid DT_HISTORY_HASH_CURRENT (compress_tables imgid ?e ?T)"
  let ?R = "img_rows ?C imgid"
  note top = attop_bounds [OF assms(3,4)]
  have im: "t_images ?T imgid \<noteq> None" using assms(2) by simp
  note c = compress_tables_sorted [OF assms(4) top(1) assms(5) im]
    compress_tables_rows [OF assms(4) top(1) assms(5) im]
  have R: "?R = img_rows (compress_tables imgid ?e ?T) imgid" by (simp add: img_rows_def)
  have nR: "numbered ?R" and new: "map item (sort_key row_num ?R) = new"
    using c(1,2) active_stack_all [OF top(1) assms(4)] assms(6) unfolding R by simp_all
  then have len: "length ?R = length new" by (metis length_map length_sort)
  have imC: "t_images ?C imgid \<noteq> None" using c(5) by simp
  note s = renumber_tables_spec [OF nR disjI1 imC, unfolded len, OF assms(7)]
  note k = sort_renum_rank [OF nR, of imgid]
  have "db L' = dt_history_hash_write_from_history E imgid DT_HISTORY_HASH_CURRENT (renumber_tables imgid ?C)"
    and "ok" "U' = U"
    using assms(1,3,8) top(2)
    by (auto simp: dt_history_compress_def dt_history_compress_on_image_def Let_def)
  moreover have items: "map item (sort_key row_num (img_rows (renumber_tables imgid ?C) imgid)) = new"
    and nums: "map h_num (sort_key row_num (img_rows (renumber_tables imgid ?C) imgid)) = map (Some \<circ> int) [0..<length new]"
    using k new len unfolding s(1) by (auto simp: img_rows_def)
  moreover have "active_stack (renumber_tables imgid ?C) imgid = new"
    using active_stack_all [of "renumber_tables imgid ?C" imgid] consecutive_rows [OF nums] s(2) items by simp
  moreover have "img_rows (renumber_tables imgid ?C) j = img_rows ?T j \<and> img_masks (renumber_tables imgid ?C) j = img_masks ?T j"
    if "j \<noteq> imgid" for j
    using s(3) [OF that] s(4) compress_tables_frame [OF that, of ?e ?T] by (simp add: img_rows_def img_masks_def)
  moreover have "img_masks (renumber_tables imgid ?C) imgid = img_masks (compress_tables imgid ?e ?T) imgid"
    using s(4) by (simp add: img_masks_def)
  ultimately show ?thesis
    using c(4) s(2) by (simp add: active_stack_def read_history_end_def img_rows_def img_masks_def)
qed


text \<open>A library with one edited image, for examples.\<close>

definition example_row :: "int \<Rightarrow> string \<Rightarrow> blob \<Rightarrow> history_row" where
  "example_row n op_name params = \<lparr>h_imgid = 1, h_num = Some n, h_module = Some 1, h_operation = Some op_name,
     h_op_params = Some params, h_enabled = Some 1, h_blendop_params = None, h_blendop_version = Some 0,
     h_multi_priority = Some 0, h_multi_name = Some [], h_multi_name_hand_edited = Some 0\<rparr>"

definition example_mask :: "int \<Rightarrow> int \<Rightarrow> masks_history_row" where
  "example_mask n formid = \<lparr>m_imgid = 1, m_num = Some n, m_formid = Some formid, m_form = Some 1,
     m_name = None, m_version = Some 6, m_points = None, m_points_count = Some 0, m_source = None\<rparr>"

definition example_library :: "history_row list \<Rightarrow> masks_history_row list \<Rightarrow> int \<Rightarrow> library" where
  "example_library rows masks e = \<lparr>db =
     \<lparr>t_images = [1 \<mapsto> \<lparr>i_history_end = Some e, i_aspect_ratio = 0, i_thumb_timestamp = 0, i_thumb_maxmip = 0\<rparr>],
      t_history = rows, t_masks = masks, t_module_order = [1 \<mapsto> (DT_IOP_ORDER_RAW, None)], t_history_hash = Map.empty,
      t_snap_history = [], t_snap_masks = [], t_snap_order = []\<rparr>,
     trxid = 0, saved = None, calls = []\<rparr>"

definition example_env :: history_env where
  "example_env = \<lparr>dt_dev_is_current_image = (\<lambda>_. False), env_reload = id, env_md5 = id\<rparr>"

lemmas example_defs = example_row_def example_mask_def example_library_def example_env_def img_rows_def img_masks_def
  dt_is_valid_imgid_def numbered_def sql_int_def sql_lt_def read_history_end_def history_end_attop_def Let_def
  active_stack_def item_def manager_row_def

lemma history_compress_returns:
  assumes "dt_is_valid_imgid imgid" and "history_end_attop (db L) imgid = 1" and "read_history_end (db L) imgid \<noteq> 0"
  shows "\<exists>L'. dt_history_compress E ts imgid (L, U) = Some ((L', U), True)"
  using assms by (simp add: dt_history_compress_def dt_history_compress_on_image_def Let_def)

theorem compress_keeps_effective_stack_witness:
  "let L = example_library [example_row 0 ''exposure'' [1], example_row 1 mask_manager [],
        example_row 2 ''sharpen'' [5], example_row 3 ''exposure'' [2]] [example_mask 0 7, example_mask 1 7] 4
   in \<exists>L'. dt_history_compress example_env (0, 0, 0) 1 (L, dt_undo_init) = Some ((L', dt_undo_init), True) \<and>
     active_stack (db L') 1 = map item [manager_row 1, example_row 0 ''sharpen'' [5], example_row 0 ''exposure'' [2]] \<and>
     read_history_end (db L') 1 = 3 \<and> img_masks (db L') 1 = [example_mask 0 7]"
proof -
  define L where "L = example_library [example_row 0 ''exposure'' [1], example_row 1 mask_manager [],
        example_row 2 ''sharpen'' [5], example_row 3 ''exposure'' [2]] [example_mask 0 7, example_mask 1 7] 4"
  have v: "dt_is_valid_imgid 1" and t: "history_end_attop (db L) 1 = 1" and e: "read_history_end (db L) 1 = 4"
    by (simp_all add: L_def example_defs)
  obtain r where im: "t_images (db L) 1 = Some r" by (simp add: L_def example_library_def)
  have n: "numbered (img_rows (db L) 1)" by (simp add: L_def example_defs)
  have m: "\<forall>m\<in>set (img_masks (db L) 1). sql_lt (m_num m) (read_history_end (db L) 1)"
    by (simp add: L_def example_defs)
  have new: "map item [manager_row 1, example_row 0 ''sharpen'' [5], example_row 0 ''exposure'' [2]] =
      (if img_masks (db L) 1 = [] then [] else [item (manager_row 1)]) @ compressed (active_stack (db L) 1)"
    by (simp add: L_def example_defs)
  obtain L' where c: "dt_history_compress example_env (0, 0, 0) 1 (L, dt_undo_init) = Some ((L', dt_undo_init), True)"
    using history_compress_returns [OF v t] e by fastforce
  note s = compress_keeps_effective_stack [OF v im t n m new _ c]
  have "img_masks (db L') 1 = [example_mask 0 7]"
    using s by (simp add: L_def example_defs)
  then show ?thesis using s c by (simp add: L_def [symmetric])
qed

lemma renumber_single:
  assumes "img_rows T imgid = [r]" and "h_num r = Some 0"
  shows "renumber_tables imgid T = fst (dt_image_set_history_end imgid 0 T)"
  using assms by (simp add: renumber_tables_def Let_def img_rows_def sql_int_def)

text \<open>
  The history of an image with a single item (number 0) and no mask is lost by the compression: the row stays, but
  \<open>history_end\<close> becomes 0, so that no item is active any more. The renumbering is skipped when the highest number is 0.
\<close>

theorem compress_loses_single_item:
  assumes "dt_is_valid_imgid imgid" and "t_images (db L) imgid = Some im"
    and "history_end_attop (db L) imgid = 1" and "img_rows (db L) imgid = [r]" and "h_num r = Some 0"
    and "h_operation r \<noteq> Some mask_manager" and "img_masks (db L) imgid = []"
    and "dt_history_compress E ts imgid (L, U) = Some ((L', U'), ok)"
  shows "active_stack (db L) imgid = [item r] \<and>
    img_rows (db L') imgid = [r] \<and> read_history_end (db L') imgid = 0 \<and> active_stack (db L') imgid = []"
proof -
  let ?T = "db L" and ?e = "read_history_end (db L) imgid"
  let ?C = "dt_history_hash_write_from_history E imgid DT_HISTORY_HASH_CURRENT (compress_tables imgid ?e ?T)"
  have n: "numbered (img_rows ?T imgid)" using assms(4,5) by (simp add: numbered_def sql_int_def)
  note top = attop_bounds [OF assms(3) n]
  have "kept [r] = [r]" using assms(6) by (simp add: kept_def)
  then have R: "img_rows ?C imgid = [r]" and im: "t_images ?C imgid \<noteq> None"
    using compress_tables_rows [OF n top(1), of] assms(2,4,7) by (auto simp: img_rows_def)
  have d: "db L' = dt_history_hash_write_from_history E imgid DT_HISTORY_HASH_CURRENT (renumber_tables imgid ?C)"
    using assms(1,3,8) top(2)
    by (auto simp: dt_history_compress_def dt_history_compress_on_image_def Let_def)
  from renumber_single [OF R assms(5)] have "img_rows (db L') imgid = [r]" "read_history_end (db L') imgid = 0"
    using R im unfolding d
    by (auto simp: dt_image_set_history_end_def update_image_def img_rows_def read_history_end_def sql_int_def)
  moreover have "active_stack ?T imgid = [item r]"
    using active_stack_all [OF top(1) n] assms(4) by simp
  ultimately show ?thesis using assms(5) by (simp add: active_stack_def sql_lt_def)
qed

theorem compress_loses_single_item_witness:
  "let L = example_library [example_row 0 ''exposure'' [1]] [] 1
   in \<exists>L'. dt_history_compress example_env (0, 0, 0) 1 (L, dt_undo_init) = Some ((L', dt_undo_init), True) \<and>
     active_stack (db L) 1 = [item (example_row 0 ''exposure'' [1])] \<and> active_stack (db L') 1 = []"
proof -
  define L where "L = example_library [example_row 0 ''exposure'' [1]] [] 1"
  have v: "dt_is_valid_imgid 1" and t: "history_end_attop (db L) 1 = 1" and e: "read_history_end (db L) 1 \<noteq> 0"
    and r: "img_rows (db L) 1 = [example_row 0 ''exposure'' [1]]" and m: "img_masks (db L) 1 = []"
    by (simp_all add: L_def example_defs)
  obtain im where im: "t_images (db L) 1 = Some im" by (simp add: L_def example_library_def)
  obtain L' where c: "dt_history_compress example_env (0, 0, 0) 1 (L, dt_undo_init) = Some ((L', dt_undo_init), True)"
    using history_compress_returns [OF v t e] by blast
  have "h_num (example_row 0 ''exposure'' [1]) = Some 0"
    "h_operation (example_row 0 ''exposure'' [1]) \<noteq> Some mask_manager" by (simp_all add: example_row_def)
  from compress_loses_single_item [OF v im t r this m c] c show ?thesis by (simp add: L_def [symmetric])
qed


text \<open>
  Compressing brings back masks that were undone. When no mask of the image has a number below \<open>history_end\<close>, the
  sub-query that selects the newest of them yields \<open>NULL\<close> and nothing is deleted: the masks above the end of the history,
  which belong to undone items, all stay, are numbered 0 and get a mask manager at the bottom of the history.
\<close>

theorem compress_revives_undone_masks:
  assumes "dt_is_valid_imgid imgid" and "t_images (db L) imgid = Some im" and "read_history_end (db L) imgid \<noteq> 0"
    and "img_masks (db L) imgid \<noteq> []"
    and "\<forall>m\<in>set (img_masks (db L) imgid). sql_ge (m_num m) (read_history_end (db L) imgid)"
    and "dt_history_compress_on_image E ts imgid (L, U) = Some (L', U')"
  shows "img_masks (db L') imgid = map (\<lambda>m. m\<lparr>m_num := Some 0\<rparr>) (img_masks (db L) imgid) \<and>
    manager_row imgid \<in> set (img_rows (db L') imgid)"
proof -
  let ?T = "db L" and ?e = "read_history_end (db L) imgid"
  let ?T1 = "delete_old_masks imgid ?e (delete_managers imgid (delete_superseded imgid ?e ?T))"
  have d: "db L' = dt_history_hash_write_from_history E imgid DT_HISTORY_HASH_CURRENT (compress_tables imgid ?e ?T)"
    using assms(1,3,6) by (auto simp: dt_history_compress_on_image_def Let_def)
  have "filter (\<lambda>r. m_imgid r = imgid \<and> sql_lt (m_num r) ?e) (t_masks ?T) = []"
    using assms(5) by (auto simp: filter_empty_conv img_masks_def sql_ge_def sql_lt_def split: option.splits)
  then have m1: "img_masks ?T1 imgid = img_masks ?T imgid" and im1: "t_images ?T1 imgid \<noteq> None"
    using assms(2) by (simp_all add: compress_defs sql_not_in_def img_masks_def)
  have "compress_tables imgid ?e ?T = add_manager imgid (manager_at_0 ?T imgid) ?T1"
    using m1 assms(4) by (simp add: compress_tables_def Let_def manager_at_0_def img_masks_def)
  with add_manager_rows [OF im1] m1 show ?thesis unfolding d by (simp add: img_rows_def img_masks_def)
qed

theorem compress_revives_undone_masks_witness:
  "let L = example_library [example_row 0 ''exposure'' [1], example_row 1 ''sharpen'' [5]] [example_mask 1 7] 1
   in \<exists>L'. dt_history_compress_on_image example_env (0, 0, 0) 1 (L, dt_undo_init) = Some (L', dt_undo_init) \<and>
     img_masks (db L') 1 = [example_mask 0 7] \<and> manager_row 1 \<in> set (img_rows (db L') 1)"
proof -
  define L where "L = example_library [example_row 0 ''exposure'' [1], example_row 1 ''sharpen'' [5]] [example_mask 1 7] 1"
  have v: "dt_is_valid_imgid 1" and e: "read_history_end (db L) 1 \<noteq> 0" and m: "img_masks (db L) 1 \<noteq> []"
    and ge: "\<forall>m\<in>set (img_masks (db L) 1). sql_ge (m_num m) (read_history_end (db L) 1)"
    by (simp_all add: L_def example_defs sql_ge_def)
  obtain im where im: "t_images (db L) 1 = Some im" by (simp add: L_def example_library_def)
  obtain L' where c: "dt_history_compress_on_image example_env (0, 0, 0) 1 (L, dt_undo_init) = Some (L', dt_undo_init)"
    using v e by (simp add: dt_history_compress_on_image_def Let_def)
  from compress_revives_undone_masks [OF v im e m ge c]
  have "img_masks (db L') 1 = [example_mask 0 7]" "manager_row 1 \<in> set (img_rows (db L') 1)"
    by (simp_all add: L_def example_mask_def example_library_def img_masks_def)
  with c show ?thesis by (simp add: L_def [symmetric])
qed

end
