(* ===== verification/History_Undo.thy ===== *)
theory History_Undo
  imports History_Db
begin

text \<open>
  Undo of a deleted history: the snapshots of \<open>src/common/history_snapshot.c\<close> as a client of the undo
  manager of \<open>src/common/undo.c\<close>. The view of an image is what a snapshot is meant to preserve.
\<close>

section \<open>The view of an image\<close>

type_synonym history_view = "int \<times> history_row list \<times> masks_history_row list \<times> module_order_row option"

definition active_rows :: "tables \<Rightarrow> int \<Rightarrow> history_row list" where
  "active_rows T imgid = filter (\<lambda>r. sql_lt (h_num r) (read_history_end T imgid)) (img_rows T imgid)"

definition active_masks :: "tables \<Rightarrow> int \<Rightarrow> masks_history_row list" where
  "active_masks T imgid = filter (\<lambda>m. sql_lt (m_num m) (read_history_end T imgid)) (img_masks T imgid)"

definition image_view :: "tables \<Rightarrow> int \<Rightarrow> history_view" where
  "image_view T imgid =
     (read_history_end T imgid, active_rows T imgid, active_masks T imgid, t_module_order T imgid)"

text \<open>What the restoration of a snapshot gives: without a history the module order is lost, too.\<close>

definition snapshot_view :: "tables \<Rightarrow> int \<Rightarrow> history_view" where
  "snapshot_view T imgid = (if read_history_end T imgid = 0 then (0, [], [], None) else image_view T imgid)"

text \<open>The snapshot \<open>snap_id\<close> of an image holds a view.\<close>

definition snapshot_holds :: "int \<Rightarrow> int \<Rightarrow> tables \<Rightarrow> history_view \<Rightarrow> bool" where
  "snapshot_holds imgid snap_id T v = (case v of (e, rows, masks, order) \<Rightarrow>
     t_images T imgid \<noteq> None \<and>
     (if e = 0 then rows = [] \<and> masks = [] \<and> order = None
      else snap_rows T imgid snap_id = rows \<and> snap_masks T imgid snap_id = masks \<and>
        snap_orders T imgid snap_id = (case order of None \<Rightarrow> [] | Some r \<Rightarrow> [(imgid, r)]) \<and>
        (\<forall>r\<in>set rows. sql_lt (h_num r) e) \<and> (\<forall>m\<in>set masks. sql_lt (m_num m) e)))"

text \<open>What the snapshots of an image depend on.\<close>

definition snapshots :: "int \<Rightarrow> tables \<Rightarrow> bool \<times> (int \<times> history_row) list \<times> (int \<times> masks_history_row) list \<times>
    (int \<times> int \<times> module_order_row) list" where
  "snapshots imgid T = (t_images T imgid \<noteq> None, t_snap_history T, t_snap_masks T, t_snap_order T)"

lemma snapshot_holds_cong:
  "snapshots imgid T = snapshots imgid T' \<Longrightarrow> snapshot_holds imgid i T v \<Longrightarrow> snapshot_holds imgid i T' v"
  by (auto simp: snapshots_def snapshot_holds_def snap_rows_def snap_masks_def snap_orders_def split: prod.splits)

lemma delete_rows_snapshots [dt_frames]: "snapshots imgid (delete_rows j T) = snapshots imgid T"
  by (simp add: snapshots_def delete_rows_def update_image_def)

lemma hash_write_snapshots [dt_frames]:
  "snapshots imgid (dt_history_hash_write_from_history E j type T) = snapshots imgid T"
  by (simp add: snapshots_def)

lemma fold_log [simp]:
  "db (fold log_call cs L) = db L" "trxid (fold log_call cs L) = trxid L" "saved (fold log_call cs L) = saved L"
  by (induction cs arbitrary: L) (simp_all add: log_call_def)

lemma library_fields [simp]:
  "trxid (log_call c L) = trxid L" "saved (log_call c L) = saved L"
  "trxid (on_db f L) = trxid L" "saved (on_db f L) = saved L"
  by (simp_all add: log_call_def on_db_def)

lemma delete_db_no_init [simp]:
  "db (delete_on_image_db E imgid False L) =
     dt_history_hash_write_from_history E imgid DT_HISTORY_HASH_CURRENT (delete_rows imgid (db L))"
  "trxid (delete_on_image_db E imgid False L) = trxid L" "saved (delete_on_image_db E imgid False L) = saved L"
  by (simp_all add: delete_on_image_db_def Let_def)

text \<open>Reloading the history in the darkroom leaves the snapshots alone.\<close>

definition reload_keeps_snapshots :: "history_env \<Rightarrow> int \<Rightarrow> bool" where
  "reload_keeps_snapshots E imgid \<longleftrightarrow> (\<forall>L. snapshots imgid (db (env_reload E L)) = snapshots imgid (db L))"

lemma delete_db_snapshots [dt_frames]:
  assumes "reload_keeps_snapshots E imgid"
  shows "snapshots imgid (db (delete_on_image_db E j init L)) = snapshots imgid (db L)"
  using assms
  by (simp add: delete_on_image_db_def delete_init_def Let_def dt_frames reload_keeps_snapshots_def)


section \<open>Restoring a snapshot\<close>

lemma snap_rows_imgid:
  "r \<in> set (snap_rows T imgid i) \<Longrightarrow> h_imgid r = imgid" "m \<in> set (snap_masks T imgid i) \<Longrightarrow> m_imgid m = imgid"
  by (auto simp: snap_rows_def snap_masks_def)

text \<open>Into an image without history and module order the rows of a snapshot can always be inserted.\<close>

lemma restore_rows_inserts:
  assumes "t_images T imgid \<noteq> None" and "t_module_order T imgid = None"
    and "snap_orders T imgid i = (case order of None \<Rightarrow> [] | Some r \<Rightarrow> [(imgid, r)])"
  shows "restore_rows imgid i T =
    (T\<lparr>t_history := t_history T @ snap_rows T imgid i, t_masks := t_masks T @ snap_masks T imgid i,
       t_module_order := (t_module_order T)(imgid := order)\<rparr>, True)"
proof -
  have "insert_history (snap_rows T imgid i) T = (T\<lparr>t_history := t_history T @ snap_rows T imgid i\<rparr>, True)"
    using assms(1) by (auto simp: insert_history_def snap_rows_imgid)
  moreover have "insert_masks ms T' = (T'\<lparr>t_masks := t_masks T' @ ms\<rparr>, True)"
    if "ms = snap_masks T imgid i" "t_images T' = t_images T" for ms T'
    using assms(1) that by (auto simp: insert_masks_def snap_rows_imgid)
  moreover have "t_module_order T = (t_module_order T)(imgid := None)" using assms(2) by (simp add: fun_upd_idem)
  moreover have "snap_masks (T\<lparr>t_history := h\<rparr>) imgid i = snap_masks T imgid i"
    "snap_orders (T\<lparr>t_history := h, t_masks := m\<rparr>) imgid i = snap_orders T imgid i" for h m
    by (simp_all add: snap_masks_def snap_orders_def)
  ultimately show ?thesis
    using assms(2,3) by (cases order) (simp_all add: restore_rows_def insert_module_order_def)
qed

lemma restore_gives_view:
  fixes E :: history_env
  assumes "dt_is_valid_imgid imgid" and "snapshot_holds imgid i (db L) (e, rows, masks, order)"
  defines "L' \<equiv> history_snapshot_restore E imgid i e L"
  shows "image_view (db L') imgid = (e, rows, masks, order)"
    and "j \<noteq> imgid \<Longrightarrow> img_rows (db L') j = img_rows (db L) j \<and> img_masks (db L') j = img_masks (db L) j"
proof -
  let ?D = "delete_rows imgid (db L)"
  let ?H = "dt_history_hash_write_from_history E imgid DT_HISTORY_HASH_CURRENT"
  have h: "snapshot_holds imgid i (?H ?D) (e, rows, masks, order)"
    by (rule snapshot_holds_cong [OF _ assms(2)]) (simp add: dt_frames)
  have clean: "img_rows (?H ?D) imgid = []" "img_masks (?H ?D) imgid = []" "t_module_order (?H ?D) imgid = None"
    by (simp_all add: img_rows_def img_masks_def delete_rows_def update_image_def)
  have other: "img_rows (?H ?D) j = img_rows (db L) j \<and> img_masks (?H ?D) j = img_masks (db L) j" if "j \<noteq> imgid"
    using that by (auto simp: img_rows_def img_masks_def delete_rows_def update_image_def intro!: filter_cong)
  define T3 where "T3 = (if e = 0 then ?H ?D else fst (restore_rows imgid i (?H ?D)))"
  have ok: "e \<noteq> 0 \<Longrightarrow> snd (restore_rows imgid i (?H ?D))"
    and T3: "t_images T3 = t_images (?H ?D)" "t_history T3 = t_history (?H ?D) @ rows"
      "t_masks T3 = t_masks (?H ?D) @ masks" "t_module_order T3 imgid = order"
    using h clean(3) restore_rows_inserts [of "?H ?D" imgid i order]
    by (auto simp: T3_def snapshot_holds_def split: if_splits)
  have db: "db L' = ?H (fst (dt_image_set_history_end imgid e T3))"
    using assms(1) ok
    by (auto simp: L'_def history_snapshot_restore_def Let_def T3_def dt_image_set_history_end_def
        dt_database_release_transaction_def split: prod.splits)
  have ids: "\<forall>r\<in>set rows. h_imgid r = imgid \<and> sql_lt (h_num r) e" "\<forall>m\<in>set masks. m_imgid m = imgid \<and> sql_lt (m_num m) e"
    using h by (auto simp: snapshot_holds_def snap_rows_imgid split: if_splits)
  have "img_rows (db L') imgid = rows" "img_masks (db L') imgid = masks" "t_module_order (db L') imgid = order"
    "read_history_end (db L') imgid = e"
    using clean(1,2) ids h T3
    by (auto simp: db dt_image_set_history_end_def update_image_def img_rows_def img_masks_def read_history_end_def
        sql_int_def snapshot_holds_def)
  then show "image_view (db L') imgid = (e, rows, masks, order)"
    using ids by (simp add: image_view_def active_rows_def active_masks_def)
  have no: "filter (\<lambda>r. h_imgid r = j) rows = []" "filter (\<lambda>m. m_imgid m = j) masks = []" if "j \<noteq> imgid"
    using ids that by (auto simp: filter_empty_conv)
  show "img_rows (db L') j = img_rows (db L) j \<and> img_masks (db L') j = img_masks (db L) j" if "j \<noteq> imgid"
    using other [OF that] no [OF that] T3
    by (simp add: db dt_image_set_history_end_def update_image_def img_rows_def img_masks_def)
qed



section \<open>Creating a snapshot\<close>

text \<open>No mask or module order is stored under a number that is not in use yet.\<close>

definition snapshots_ok :: "tables \<Rightarrow> int \<Rightarrow> bool" where
  "snapshots_ok T imgid \<longleftrightarrow>
     (\<forall>(i, m)\<in>set (t_snap_masks T). m_imgid m = imgid \<longrightarrow> i < next_snap_id T imgid) \<and>
     (\<forall>(i, r)\<in>set (t_snap_order T). fst r = imgid \<longrightarrow> i < next_snap_id T imgid)"

lemma next_snap_id_above:
  assumes "(i, r) \<in> set (t_snap_history T)" and "h_imgid r = imgid"
  shows "i < next_snap_id T imgid"
proof -
  let ?xs = "map (Some \<circ> fst) (filter (\<lambda>(i, r). h_imgid r = imgid) (t_snap_history T))"
  have i: "Some i \<in> set ?xs" using assms by force
  then obtain m where m: "sql_max ?xs = Some m" using sql_max_None [of ?xs] by (metis option.collapse option.distinct(1))
  then have "i \<le> m" using i by (simp only: sql_max_Some)
  with m show ?thesis by (simp add: next_snap_id_def sql_int_def)
qed

lemma snapshot_create_db [simp]:
  "db (dt_history_snapshot_create imgid i e L) = snapshot_rows imgid i e (db L)"
  by (simp add: dt_history_snapshot_create_def)

lemma create_holds:
  assumes "snapshots_ok T imgid" and "t_images T imgid \<noteq> None" and "i = next_snap_id T imgid"
  shows "snapshot_holds imgid i (snapshot_rows imgid i (read_history_end T imgid) T) (snapshot_view T imgid)"
proof (cases "read_history_end T imgid = 0")
  case True
  with assms(2) show ?thesis by (simp add: snapshot_holds_def snapshot_view_def snapshot_rows_def)
next
  case False
  have "snap_rows T imgid i = []" using next_snap_id_above assms(3) by (fastforce simp: snap_rows_def filter_empty_conv)
  moreover have "snap_masks T imgid i = []" "snap_orders T imgid i = []"
    using assms(1,3) by (fastforce simp: snap_masks_def snap_orders_def snapshots_ok_def filter_empty_conv)+
  ultimately show ?thesis
    using False assms(2)
    by (simp add: snapshot_holds_def snapshot_view_def snapshot_rows_def image_view_def active_rows_def active_masks_def
        snap_rows_def snap_masks_def snap_orders_def img_rows_def img_masks_def order_rows_def comp_def
        cong: conj_cong split: option.splits)
qed

text \<open>Other snapshots are not touched by a new one, or by the removal of one.\<close>

lemma create_keeps:
  assumes "snapshot_holds imgid i T v" and "i \<noteq> j"
  shows "snapshot_holds imgid i (snapshot_rows imgid j e T) v"
  using assms
  by (auto simp: snapshot_holds_def snapshot_rows_def snap_rows_def snap_masks_def snap_orders_def split: prod.splits)

lemma filter_clear:
  "j \<noteq> imgid \<or> i \<noteq> k \<Longrightarrow> filter (\<lambda>(n, r). P r = imgid \<and> n = i) (filter (\<lambda>(n, r). n = k \<longrightarrow> P r \<noteq> j) xs) =
    filter (\<lambda>(n, r). P r = imgid \<and> n = i) xs"
  by (induction xs) auto

lemma clear_keeps:
  assumes "snapshot_holds imgid i T v" and "j \<noteq> imgid \<or> i \<noteq> k"
  shows "snapshot_holds imgid i (dt_history_snapshot_clear j k T) v"
proof -
  from assms(2) have "snap_rows (dt_history_snapshot_clear j k T) imgid i = snap_rows T imgid i"
    "snap_masks (dt_history_snapshot_clear j k T) imgid i = snap_masks T imgid i"
    "snap_orders (dt_history_snapshot_clear j k T) imgid i = snap_orders T imgid i"
    by (simp_all add: dt_history_snapshot_clear_def snap_rows_def snap_masks_def snap_orders_def filter_clear del: filter_filter)
  moreover have "t_images (dt_history_snapshot_clear j k T) = t_images T"
    by (simp add: dt_history_snapshot_clear_def)
  ultimately show ?thesis using assms(1) by (cases v) (simp add: snapshot_holds_def)
qed

text \<open>The data of an item do not name the snapshot \<open>i\<close>.\<close>

definition spares :: "int \<Rightarrow> int \<Rightarrow> dt_undo_lt_history_t option \<Rightarrow> bool" where
  "spares imgid i d \<longleftrightarrow> (\<forall>hist. d = Some hist \<and> lt_imgid hist = imgid \<longrightarrow> lt_after hist \<noteq> i \<and> lt_before hist \<noteq> i)"

lemma run_free_keeps:
  assumes "snapshot_holds imgid i (db L) v" and "freed U' = freed U @ ds" and "\<forall>d\<in>set ds. spares imgid i d"
  shows "snapshot_holds imgid i (db (run_free U U' L)) v"
proof -
  have "snapshot_holds imgid i (db (fold (\<lambda>d L. case d of None \<Rightarrow> L
      | Some hist \<Rightarrow> dt_history_snapshot_undo_lt_history_data_free hist L) ds L)) v"
    using assms(1,3)
  proof (induction ds arbitrary: L)
    case (Cons d ds)
    show ?case
    proof (cases d)
      case None
      with Cons show ?thesis by simp
    next
      case (Some hist)
      with Cons.prems have "lt_imgid hist \<noteq> imgid \<or> i \<noteq> lt_after hist" "lt_imgid hist \<noteq> imgid \<or> i \<noteq> lt_before hist"
        by (auto simp: spares_def)
      with Cons.prems(1) have "snapshot_holds imgid i (db (dt_history_snapshot_undo_lt_history_data_free hist L)) v"
        by (auto simp: dt_history_snapshot_undo_lt_history_data_free_def Let_def intro!: clear_keeps)
      with Cons Some show ?thesis by simp
    qed
  qed simp
  then show ?thesis by (simp add: run_free_def assms(2))
qed

text \<open>The snapshots are a client of the undo manager.\<close>

interpretation history_client: snapshot_client "dt_history_snapshot_undo_pop E" DT_UNDO_LT_HISTORY
  "\<lambda>hist L v. dt_is_valid_imgid (lt_imgid hist) \<and> fst v = lt_before_history_end hist \<and>
     snapshot_holds (lt_imgid hist) (lt_before hist) (db L) v"
  "\<lambda>hist L. image_view (db L) (lt_imgid hist)" lt_imgid for E
proof
  fix d :: dt_undo_lt_history_t and w :: library and v :: history_view and u :: "unit option" and imgs :: "int list"
  show "fst (dt_history_snapshot_undo_pop E u DT_UNDO_LT_HISTORY (Some d) DT_ACTION_UNDO imgs w) = imgs @ [lt_imgid d]"
    by (simp add: dt_history_snapshot_undo_pop_def)
  assume h: "dt_is_valid_imgid (lt_imgid d) \<and> fst v = lt_before_history_end d \<and>
    snapshot_holds (lt_imgid d) (lt_before d) (db w) v"
  obtain e rows masks order where v: "v = (e, rows, masks, order)" by (cases v)
  with h have "image_view (db (history_snapshot_restore E (lt_imgid d) (lt_before d) e w)) (lt_imgid d) = v"
    using restore_gives_view(1) [of "lt_imgid d" "lt_before d" w e rows masks order E] by blast
  with h v show "image_view (db (snd (dt_history_snapshot_undo_pop E u DT_UNDO_LT_HISTORY (Some d) DT_ACTION_UNDO imgs w)))
      (lt_imgid d) = v"
    by (simp add: dt_history_snapshot_undo_pop_def)
qed


text \<open>The record that deleting a history with undo makes, and the library just before the undo.\<close>

lemma deleted_record:
  assumes "dt_is_valid_imgid imgid" and "t_images (db L) imgid \<noteq> None" and "snapshots_ok (db L) imgid"
    and "read_history_end (db L) imgid = 0 \<or> active_rows (db L) imgid \<noteq> []" and "reload_keeps_snapshots E imgid"
    and "group U = DT_UNDO_NONE" and "\<not> disable_next U"
    and "\<forall>d\<in>set (free_undo_data (redo_list U)). spares imgid (next_snap_id (db L) imgid) d"
    and "dt_history_delete_on_image E ts imgid (L, U) = Some (L1, U1)"
  shows "\<exists>hist. lt_imgid hist = imgid \<and> lt_before_history_end hist = read_history_end (db L) imgid \<and>
    history_client.recorded E U hist ts = Some U1 \<and>
    snapshot_holds imgid (lt_before hist) (db L1) (snapshot_view (db L) imgid)"
proof -
  obtain t1 t2 t3 where ts: "ts = (t1, t2, t3)" by (cases ts)
  let ?i = "next_snap_id (db L) imgid" and ?e = "read_history_end (db L) imgid"
  let ?L1 = "dt_history_snapshot_create imgid ?i ?e L"
  let ?L2 = "delete_on_image_db E imgid True ?L1"
  let ?j = "next_snap_id (db ?L2) imgid" and ?e2 = "read_history_end (db ?L2) imgid"
  let ?L3 = "dt_history_snapshot_create imgid ?j ?e2 ?L2"
  define h where "h = \<lparr>lt_imgid = imgid, lt_before = ?i, lt_before_history_end = ?e, lt_after = ?j, lt_after_history_end = ?e2\<rparr>"
  define X where "X = ?L3"
  obtain U3 where U3: "history_client.recorded E U h ts = Some U3" and fr: "freed U3 = freed U @ free_undo_data (redo_list U)"
    using history_client.recorded_lists [OF assms(6,7), of E h ts] by blast
  have "dt_history_delete_on_image E ts imgid (L, U) = map_option (\<lambda>(L, U). (log_call SIGNAL_TAG_CHANGED L, U))
      (case history_client.recorded E U h ts of None \<Rightarrow> None | Some U3 \<Rightarrow> Some (run_free U U3 X, U3))"
    using assms(1)
    unfolding dt_history_delete_on_image_def dt_history_delete_on_image_ext_def dt_history_snapshot_undo_create_def
      history_client.recorded_def record_lt_history_def h_def X_def ts Let_def prod.case not_True_eq_False if_False
    by (simp only: if_True not_True_eq_False if_False)
  then have run: "U1 = U3" "db L1 = db (run_free U U3 X)"
    using assms(9) unfolding U3 by simp_all
  have h1: "snapshot_holds imgid ?i (db ?L1) (snapshot_view (db L) imgid)"
    using create_holds [OF assms(3,2) refl] by simp
  have s2: "snapshots imgid (db ?L2) = snapshots imgid (db ?L1)" by (rule delete_db_snapshots [OF assms(5)])
  obtain r where "(?i, r) \<in> set (t_snap_history (db ?L1))" "h_imgid r = imgid"
  proof (cases "?e = 0")
    case True
    then have "t_snap_history (db ?L1) = t_snap_history (db L) @ [(?i, dummy_row imgid)]"
      by (simp only: snapshot_create_db snapshot_rows_def if_True) simp
    then show ?thesis by (intro that [of "dummy_row imgid"]) (simp_all add: dummy_row_def)
  next
    case False
    with assms(4) obtain r where r: "r \<in> set (active_rows (db L) imgid)" by (metis last_in_set)
    have "t_snap_history (db ?L1) = t_snap_history (db L) @ map (Pair ?i) (active_rows (db L) imgid)"
      using False by (simp add: snapshot_rows_def active_rows_def img_rows_def conj_commute)
    with r show ?thesis by (intro that [of r]) (auto simp: active_rows_def img_rows_def)
  qed
  then have "(?i, r) \<in> set (t_snap_history (db ?L2))" "h_imgid r = imgid" using s2 by (auto simp: snapshots_def)
  then have "?i < ?j" by (rule next_snap_id_above)
  with snapshot_holds_cong [OF s2 [symmetric] h1] have "snapshot_holds imgid ?i (db ?L3) (snapshot_view (db L) imgid)"
    by (simp add: create_keeps)
  then have "snapshot_holds imgid ?i (db X) (snapshot_view (db L) imgid)" by (simp only: X_def)
  from run_free_keeps [OF this fr assms(8)] run U3 show ?thesis by (intro exI [of _ h]) (simp add: h_def)
qed

end
