(* ===== verification/Develop_History.thy ===== *)
theory Develop_History
  imports Iop_Order_Modules History_Db
begin

text \<open>
  The history stack of a develop session (\<open>src/develop/develop.c\<close>): adding an item for a module, going back to an
  earlier state, removing a module, duplicating one, and writing the stack to the library. A module is named by
  its pointer; its parameters and blending parameters are stored beside the list of modules. What a module's
  shared object provides is constant and part of the environment, as are the presets and the part of
  \<open>dt_iop_commit_blend_params\<close> that adjusts blending parameters. The shared objects, and the instance numbers, of two modules
  are the same when their operations are. The user interface and the raster masks of modules are left out.
\<close>

section \<open>The session\<close>

text \<open>A shape of a drawn mask; \<open>f_points\<close> are the bytes of its points.\<close>

record masks_form =
  f_formid :: int
  f_type :: int
  f_name :: string
  f_version :: int
  f_has_functions :: bool
  f_points :: "blob list"
  f_source :: blob

record history_item =
  it_module :: nat
  it_enabled :: bool
  it_params :: blob
  it_blend_params :: blob
  it_op_name :: string
  it_iop_order :: int
  it_multi_priority :: int
  it_multi_name :: string
  it_multi_name_hand_edited :: bool
  it_forms :: "masks_form list"
  it_focus_hash :: bool

record module_info =
  default_params :: blob
  default_blendop_params :: blob
  hide_enable_button :: bool
  is_hidden :: bool
  supports_blending :: bool
  module_version :: int

record dev_env =
  info :: "nat \<Rightarrow> module_info"
  auto_module_name_update :: bool
  dt_presets_get_module_label :: "string \<Rightarrow> blob \<Rightarrow> bool \<Rightarrow> blob \<Rightarrow> string option"
  commit_blend :: "nat \<Rightarrow> blob \<Rightarrow> blob"
  blend_version :: int

text \<open>
  The flags are those set on the three pipes of the darkroom, as are \<open>s_dirty\<close> and \<open>s_cache_obsolete\<close>; \<open>s_saves\<close>
  counts the requests of an automatic save.
\<close>

record session =
  s_iop :: "dt_iop_module_t list"
  s_order :: "dt_iop_order_entry_t list"
  s_history :: "history_item list"
  s_history_end :: int
  s_params :: "nat \<Rightarrow> blob"
  s_blend :: "nat \<Rightarrow> blob"
  s_forms :: "masks_form list"
  s_focus_hash :: bool
  s_last_module :: "nat option"
  s_changed :: "32 word"
  s_autosaving :: bool
  s_saves :: nat
  s_dirty :: bool
  s_timestamp :: "32 word"
  s_cache_obsolete :: bool

text \<open>The user interface, as far as the session looks at it: \<open>g_ready\<close> is that there is one and it is not being updated.\<close>

record dev_gui =
  g_ready :: bool
  g_attached :: bool
  g_postpone_invalidate :: bool
  g_module :: "nat option"

definition DT_DEV_PIPE_UNCHANGED :: "32 word" where "DT_DEV_PIPE_UNCHANGED = 0"
definition DT_DEV_PIPE_TOP_CHANGED :: "32 word" where "DT_DEV_PIPE_TOP_CHANGED = 1"
definition DT_DEV_PIPE_REMOVE :: "32 word" where "DT_DEV_PIPE_REMOVE = 2"
definition DT_DEV_PIPE_SYNCH :: "32 word" where "DT_DEV_PIPE_SYNCH = 4"
definition DT_DEV_PIPE_ZOOMED :: "32 word" where "DT_DEV_PIPE_ZOOMED = 8"

definition module_at :: "session \<Rightarrow> nat \<Rightarrow> dt_iop_module_t" where
  "module_at S p = the (find (\<lambda>m. mod_ptr m = p) (s_iop S))"

definition upd_module :: "nat \<Rightarrow> (dt_iop_module_t \<Rightarrow> dt_iop_module_t) \<Rightarrow> session \<Rightarrow> session" where
  "upd_module p f S = S\<lparr>s_iop := map (\<lambda>m. if mod_ptr m = p then f m else m) (s_iop S)\<rparr>"

text \<open>The part of the session that the functions of \<open>iop_order.c\<close> work on.\<close>

definition order_part :: "session \<Rightarrow> dt_develop_t" where
  "order_part S = \<lparr>iop = s_iop S, iop_order_list = s_order S,
     history = map (\<lambda>h. \<lparr>hist_order = it_iop_order h, hist_enabled = it_enabled h,
                         hist_priority = it_multi_priority h\<rparr>) (s_history S)\<rparr>"

definition with_order_part :: "dt_develop_t \<Rightarrow> session \<Rightarrow> session" where
  "with_order_part d S = S\<lparr>s_iop := iop d, s_order := iop_order_list d\<rparr>"

text \<open>\<open>g_list_nth\<close> with a signed position: a negative one is past the end.\<close>

definition g_list_nth :: "'a list \<Rightarrow> int \<Rightarrow> 'a option" where
  "g_list_nth xs n = (if 0 \<le> n \<and> n < int (length xs) then Some (xs ! nat n) else None)"


section \<open>Adding an item\<close>

definition dev_auto_module_label :: "dev_env \<Rightarrow> nat \<Rightarrow> session \<Rightarrow> session" where
  "dev_auto_module_label E p S =
     (let m = module_at S p
      in if \<not> is_hidden (info E p) \<and> \<not> mod_name_hand_edited m \<and> auto_module_name_update E
         then let preset = dt_presets_get_module_label E (mod_op m) (s_params S p)
                             (s_params S p = default_params (info E p)) (s_blend S p);
                  label = (case preset of
                             Some n \<Rightarrow> strlcpy 128 n
                           | None \<Rightarrow> if mod_priority m \<noteq> 0 then show_int (mod_priority m) else [])
              in upd_module p (\<lambda>m. m\<lparr>mod_name := label\<rparr>) S
         else S)"

text \<open>
  Items above the end of the history are dropped, except those of modules that are always on and have no
  item below it.
\<close>

definition earlier_entry :: "session \<Rightarrow> history_item \<Rightarrow> bool" where
  "earlier_entry S h \<longleftrightarrow> (\<exists>k\<in>set (take (nat (s_history_end S)) (s_history S)).
     mod_op (module_at S (it_module k)) = mod_op (module_at S (it_module h)))"

definition obsolete :: "dev_env \<Rightarrow> session \<Rightarrow> history_item \<Rightarrow> bool" where
  "obsolete E S h \<longleftrightarrow>
     \<not> hide_enable_button (info E (it_module h)) \<and> \<not> mod_default_enabled (module_at S (it_module h))
     \<or> earlier_entry S h"

definition drop_obsolete :: "dev_env \<Rightarrow> session \<Rightarrow> session" where
  "drop_obsolete E S =
     (if s_history_end S < 0 then S
      else let below = take (nat (s_history_end S)) (s_history S);
               kept = filter (\<lambda>h. \<not> obsolete E S h) (drop (nat (s_history_end S)) (s_history S));
               e = min (s_history_end S) (int (length (below @ kept)))
           in S\<lparr>s_history := below @ kept, s_history_end := e + int (length kept)\<rparr>)"

text \<open>
  A copy of a shape; without functions the size of a point is unknown and the points are not copied. In a list, the shape with
  the number of \<open>u\<close> is replaced by it.
\<close>

definition dt_masks_dup_masks_form :: "masks_form \<Rightarrow> masks_form" where
  "dt_masks_dup_masks_form f = f\<lparr>f_points := if f_has_functions f then f_points f else []\<rparr>"

definition dt_masks_dup_forms_deep :: "masks_form list \<Rightarrow> masks_form option \<Rightarrow> masks_form list" where
  "dt_masks_dup_forms_deep fs u = map (\<lambda>f. case u of
     None \<Rightarrow> dt_masks_dup_masks_form f
   | Some v \<Rightarrow> dt_masks_dup_masks_form (if f_formid f \<noteq> f_formid v then f else v)) fs"

definition new_item_for :: "nat \<Rightarrow> bool \<Rightarrow> session \<Rightarrow> history_item" where
  "new_item_for p include_masks S =
     (let m = module_at S p
      in \<lparr>it_module = p, it_enabled = mod_enabled m, it_params = s_params S p, it_blend_params = s_blend S p,
          it_op_name = strlcpy 20 (mod_op m), it_iop_order = mod_order m, it_multi_priority = mod_priority m,
          it_multi_name = strlcpy 128 (mod_name m), it_multi_name_hand_edited = mod_name_hand_edited m,
          it_forms = if include_masks then dt_masks_dup_forms_deep (s_forms S) None else [],
          it_focus_hash = s_focus_hash S\<rparr>)"

definition changed_item :: "dev_env \<Rightarrow> nat \<Rightarrow> bool \<Rightarrow> session \<Rightarrow> history_item \<Rightarrow> history_item" where
  "changed_item E p include_masks S h =
     (let m = module_at S p
      in h\<lparr>it_params := s_params S p,
           it_blend_params := if supports_blending (info E p) then s_blend S p else it_blend_params h,
           it_iop_order := mod_order m, it_multi_priority := mod_priority m,
           it_multi_name_hand_edited := mod_name_hand_edited m, it_multi_name := mod_name m,
           it_enabled := mod_enabled m,
           it_forms := if include_masks then dt_masks_dup_forms_deep (s_forms S) None else it_forms h\<rparr>)"

text \<open>
  Whether a new item is pushed. The code also compares instances, priorities and sizes, which are the same
  once the module is.
\<close>

definition needs_new_item :: "nat \<Rightarrow> bool \<Rightarrow> bool \<Rightarrow> session \<Rightarrow> bool" where
  "needs_new_item p new_item include_masks S =
     (case g_list_nth (s_history S) (s_history_end S - 1) of
        None \<Rightarrow> True
      | Some h \<Rightarrow> new_item \<or> p \<noteq> it_module h \<or>
          s_focus_hash S \<noteq> it_focus_hash h \<and> (include_masks \<or> it_params h \<noteq> s_params S p))"

definition set_changed :: "bool \<Rightarrow> 32 word \<Rightarrow> session \<Rightarrow> session" where
  "set_changed no_image flag S = (if no_image then S else S\<lparr>s_changed := s_changed S OR flag\<rparr>)"

definition push_or_change :: "dev_env \<Rightarrow> nat \<Rightarrow> bool \<Rightarrow> bool \<Rightarrow> bool \<Rightarrow> session \<Rightarrow> session" where
  "push_or_change E p new_item no_image include_masks S =
     (if needs_new_item p new_item include_masks S
      then set_changed no_image DT_DEV_PIPE_SYNCH
             (S\<lparr>s_history_end := s_history_end S + 1,
                s_history := s_history S @ [new_item_for p include_masks S]\<rparr>)
      else let n = nat (s_history_end S - 1)
           in set_changed no_image DT_DEV_PIPE_TOP_CHANGED
                (S\<lparr>s_history := (s_history S)[n := changed_item E p include_masks S (s_history S ! n)]\<rparr>))"

definition enable_module :: "bool \<Rightarrow> nat \<Rightarrow> session \<Rightarrow> session" where
  "enable_module enable p S = (if enable then upd_module p (\<lambda>m. m\<lparr>mod_enabled := True\<rparr>) S else S)"

definition note_change :: "nat \<Rightarrow> bool \<Rightarrow> session \<Rightarrow> session" where
  "note_change p no_image S =
     S\<lparr>s_last_module := if mod_enabled (module_at S p) \<and> \<not> no_image then Some p else s_last_module S,
       s_saves := if s_autosaving S then s_saves S + 1 else s_saves S\<rparr>"

definition dev_add_history_item_ext ::
  "dev_env \<Rightarrow> nat \<Rightarrow> bool \<Rightarrow> bool \<Rightarrow> bool \<Rightarrow> bool \<Rightarrow> bool \<Rightarrow> session \<Rightarrow> session" where
  "dev_add_history_item_ext E p enable new_item no_image include_masks auto_name_module S =
     (let S1 = (if auto_name_module then dev_auto_module_label E p S else S);
          S2 = drop_obsolete E S1;
          S3 = enable_module enable p S2;
          S4 = push_or_change E p new_item no_image include_masks S3
      in note_change p no_image S4)"

definition dt_dev_add_history_item_ext :: "dev_env \<Rightarrow> nat \<Rightarrow> bool \<Rightarrow> bool \<Rightarrow> session \<Rightarrow> session" where
  "dt_dev_add_history_item_ext E p enable no_image S =
     dev_add_history_item_ext E p enable False no_image False True S"

text \<open>Without a module the mask manager is meant; without one of those nothing happens.\<close>

definition dt_dev_add_masks_history_item_ext ::
  "dev_env \<Rightarrow> nat option \<Rightarrow> bool \<Rightarrow> bool \<Rightarrow> session \<Rightarrow> session" where
  "dt_dev_add_masks_history_item_ext E m enable no_image S =
     (let (p, en) = (case m of
             Some p \<Rightarrow> (Some p, enable)
           | None \<Rightarrow> (map_option mod_ptr (find (\<lambda>m. dt_iop_module_is m ''mask_manager'') (s_iop S)), False))
      in case p of None \<Rightarrow> S | Some p \<Rightarrow> dev_add_history_item_ext E p en False no_image True True S)"

definition dt_dev_invalidate_all :: "session \<Rightarrow> session" where
  "dt_dev_invalidate_all S = S\<lparr>s_dirty := True, s_timestamp := s_timestamp S + 1\<rparr>"

text \<open>
  The variants with a user interface; the undo records, the tag and the time stamp of the change and the redrawing are left out.
\<close>

definition dev_add_history_item :: "dev_env \<Rightarrow> dev_gui \<Rightarrow> nat \<Rightarrow> bool \<Rightarrow> bool \<Rightarrow> session \<Rightarrow> session" where
  "dev_add_history_item E G p enable new_item S =
     (if \<not> g_ready G then S
      else let S1 = dev_auto_module_label E p S;
               S2 = (if g_attached G then dev_add_history_item_ext E p enable new_item False False False S1 else S1)
           in if \<not> g_postpone_invalidate G \<or> g_module G \<noteq> Some p then dt_dev_invalidate_all S2 else S2)"

definition dt_dev_add_history_item :: "dev_env \<Rightarrow> dev_gui \<Rightarrow> nat \<Rightarrow> bool \<Rightarrow> session \<Rightarrow> session" where
  "dt_dev_add_history_item E G p enable S = dev_add_history_item E G p enable False S"

definition dt_dev_add_new_history_item :: "dev_env \<Rightarrow> dev_gui \<Rightarrow> nat \<Rightarrow> bool \<Rightarrow> session \<Rightarrow> session" where
  "dt_dev_add_new_history_item E G p enable S = dev_add_history_item E G p enable True S"

definition dt_dev_pipe_synch_all :: "session \<Rightarrow> session" where
  "dt_dev_pipe_synch_all S = S\<lparr>s_changed := s_changed S OR DT_DEV_PIPE_SYNCH\<rparr>"

definition dt_dev_add_masks_history_item :: "dev_env \<Rightarrow> dev_gui \<Rightarrow> nat option \<Rightarrow> bool \<Rightarrow> session \<Rightarrow> session" where
  "dt_dev_add_masks_history_item E G m enable S =
     dt_dev_invalidate_all (dt_dev_pipe_synch_all
       (if g_attached G then dt_dev_add_masks_history_item_ext E m enable False S else S))"

definition dt_dev_get_history_item :: "session \<Rightarrow> string \<Rightarrow> history_item option" where
  "dt_dev_get_history_item S op_txt = find (\<lambda>h. it_op_name h = op_txt) (rev (s_history S))"


section \<open>Going to a state of the history\<close>

definition reset_module :: "session \<Rightarrow> dt_iop_module_t \<Rightarrow> dt_iop_module_t" where
  "reset_module S m = m\<lparr>mod_enabled := mod_default_enabled m,
     mod_order := if mod_priority m = 0 then dt_ioppr_get_iop_order (s_order S) (mod_op m) (mod_priority m) else INT_MAX\<rparr>"

definition reset_modules :: "dev_env \<Rightarrow> session \<Rightarrow> session" where
  "reset_modules E S = S\<lparr>s_iop := map (reset_module S) (s_iop S),
     s_params := (\<lambda>p. if p \<in> mod_ptr ` set (s_iop S) then default_params (info E p) else s_params S p),
     s_blend := (\<lambda>p. if p \<in> mod_ptr ` set (s_iop S) then commit_blend E p (default_blendop_params (info E p))
                     else s_blend S p)\<rparr>"

definition apply_item :: "dev_env \<Rightarrow> history_item \<Rightarrow> session \<Rightarrow> session" where
  "apply_item E h S =
     (upd_module (it_module h) (\<lambda>m. m\<lparr>mod_order := it_iop_order h, mod_enabled := it_enabled h,
          mod_name := strlcpy 128 (it_multi_name h), mod_name_hand_edited := it_multi_name_hand_edited h\<rparr>) S)
       \<lparr>s_params := (s_params S)(it_module h := it_params h),
        s_blend := (s_blend S)(it_module h := commit_blend E (it_module h) (it_blend_params h))\<rparr>"

text \<open>The shapes of the last item that has any.\<close>

definition last_forms :: "history_item list \<Rightarrow> masks_form list" where
  "last_forms hs = foldl (\<lambda>fs h. if it_forms h \<noteq> [] then it_forms h else fs) [] hs"

definition dt_masks_replace_current_forms :: "masks_form list \<Rightarrow> session \<Rightarrow> session" where
  "dt_masks_replace_current_forms fs S = S\<lparr>s_forms := dt_masks_dup_forms_deep fs None\<rparr>"

definition items_between :: "session \<Rightarrow> int \<Rightarrow> int \<Rightarrow> history_item list" where
  "items_between S a b =
     (if min a b < 0 then [] else drop (nat (min a b)) (take (nat (max a b)) (s_history S)))"

text \<open>
  \<open>n\<close> is fuel for the search of duplicate orders, which may not end. The checks of the order only print.
\<close>

definition dt_dev_pop_history_items_ext :: "dev_env \<Rightarrow> nat \<Rightarrow> int \<Rightarrow> session \<Rightarrow> session option" where
  "dt_dev_pop_history_items_ext E n k S =
     (let end_prev = s_history_end S;
          S1 = reset_modules E (S\<lparr>s_history_end := k\<rparr>);
          active = take (nat k) (s_history S);
          S2 = fold (apply_item E) active S1;
          S3 = with_order_part (dt_ioppr_resync_modules_order (order_part S2)) S2
      in case dt_ioppr_check_duplicate_iop_order n (\<lambda>p. p \<in> it_module ` set (s_history S3)) (s_iop S3) of
           None \<Rightarrow> None
         | Some ms \<Rightarrow>
             let S4 = S3\<lparr>s_iop := ms\<rparr>
             in Some (if \<exists>h\<in>set (items_between S end_prev k). it_forms h \<noteq> []
                      then dt_masks_replace_current_forms (last_forms active) S4 else S4))"


definition dt_dev_pixelpipe_rebuild :: "session \<Rightarrow> session" where
  "dt_dev_pixelpipe_rebuild S =
     dt_dev_invalidate_all (S\<lparr>s_changed := s_changed S OR DT_DEV_PIPE_REMOVE, s_cache_obsolete := True\<rparr>)"

text \<open>
  The copy of the list that is compared holds the same modules, so both sides of the comparison are orders after the change.
  Updating the widgets is left out.
\<close>

definition dt_dev_pop_history_items :: "dev_env \<Rightarrow> nat \<Rightarrow> int \<Rightarrow> session \<Rightarrow> session option" where
  "dt_dev_pop_history_items E n k S =
     (let dev_iop = map mod_ptr (s_iop S)
      in case dt_dev_pop_history_items_ext E n k S of
           None \<Rightarrow> None
         | Some S1 \<Rightarrow>
             let dev_iop_changed = (length dev_iop \<noteq> length (s_iop S1) \<or>
                   (\<exists>(p, m)\<in>set (zip dev_iop (s_iop S1)). mod_order m \<noteq> mod_order (module_at S1 p)))
             in Some (dt_dev_invalidate_all
                  (if \<not> dev_iop_changed then dt_dev_pipe_synch_all S1 else dt_dev_pixelpipe_rebuild S1)))"


section \<open>Removing a module\<close>

text \<open>The items of the module, and how many there were: each one lowers the end of the history.\<close>

definition dt_dev_module_remove :: "bool \<Rightarrow> nat \<Rightarrow> session \<Rightarrow> session" where
  "dt_dev_module_remove gui_attached p S =
     (let S1 = (if gui_attached
                then S\<lparr>s_history := filter (\<lambda>h. it_module h \<noteq> p) (s_history S),
                       s_history_end := s_history_end S - int (length (filter (\<lambda>h. it_module h = p) (s_history S)))\<rparr>
                else S)
      in S1\<lparr>s_iop := takeWhile (\<lambda>m. mod_ptr m \<noteq> p) (s_iop S) @ tl (dropWhile (\<lambda>m. mod_ptr m \<noteq> p) (s_iop S))\<rparr>)"



section \<open>A new instance of a module\<close>

text \<open>The first number from \<open>pname\<close> on that is not the name of an instance; \<open>n\<close> is fuel.\<close>

fun free_name :: "nat \<Rightarrow> string list \<Rightarrow> int \<Rightarrow> string option" where
  "free_name 0 names pname = None"
| "free_name (Suc n) names pname =
     (let mname = strlcpy 128 (show_int pname)
      in if mname \<in> set names then free_name n names (pname + 1) else Some mname)"

fun insert_sorted_iop :: "dt_iop_module_t \<Rightarrow> dt_iop_module_t list \<Rightarrow> dt_iop_module_t list" where
  "insert_sorted_iop m [] = [m]"
| "insert_sorted_iop m (x # xs) =
     (if dt_sort_iop_by_order m x \<le> 0 then m # x # xs else x # insert_sorted_iop m xs)"

text \<open>
  \<open>new\<close> is the module that \<open>dt_iop_load_module\<close> creates from the shared object of the base module, \<open>None\<close>
  when it fails; its order is 0. The second result is the new module.
\<close>

definition dt_dev_module_duplicate_ext ::
  "nat \<Rightarrow> dt_iop_module_t option \<Rightarrow> nat \<Rightarrow> bool \<Rightarrow> session \<Rightarrow> (session \<times> dt_iop_module_t option) option" where
  "dt_dev_module_duplicate_ext n new base reorder_iop S =
     (case new of
        None \<Rightarrow> Some (S, None)
      | Some m0 \<Rightarrow>
          let b = module_at S base;
              same = filter (\<lambda>m. mod_op m = mod_op b) (s_iop S);
              pmax = foldl max 0 (map mod_priority same) + 1;
              m1 = m0\<lparr>mod_priority := pmax\<rparr>;
              S1 = with_order_part (dt_ioppr_insert_module_instance (order_part S) m1) S
          in case free_name n (map mod_name same) pmax of
               None \<Rightarrow> None
             | Some mname \<Rightarrow>
                 let m2 = m1\<lparr>mod_name := mname, mod_name_hand_edited := False\<rparr>;
                     S2 = S1\<lparr>s_iop := insert_sorted_iop m2 (s_iop S1)\<rparr>;
                     S3 = (if reorder_iop
                           then with_order_part (fst (dt_ioppr_move_iop_after (order_part S2) m2 b)) S2
                           else S2)
                 in Some (S3, Some m2))"


section \<open>Writing the history to the library\<close>

text \<open>A form without functions is not written: the statement is prepared but never executed.\<close>

definition form_row :: "int \<Rightarrow> int \<Rightarrow> masks_form \<Rightarrow> masks_history_row" where
  "form_row imgid num f = \<lparr>m_imgid = imgid, m_num = Some num, m_formid = Some (f_formid f),
     m_form = Some (f_type f), m_name = Some (f_name f), m_version = Some (f_version f),
     m_points = Some (concat (f_points f)), m_points_count = Some (int (length (f_points f))),
     m_source = Some (f_source f)\<rparr>"

definition dt_masks_write_masks_history_item :: "int \<Rightarrow> int \<Rightarrow> masks_form \<Rightarrow> tables \<Rightarrow> tables" where
  "dt_masks_write_masks_history_item imgid num f T =
     (if f_has_functions f then fst (insert_masks [form_row imgid num f] T) else T)"

definition empty_row :: "int \<Rightarrow> int \<Rightarrow> history_row" where
  "empty_row imgid num = (dummy_row imgid)\<lparr>h_num := Some num, h_multi_name_hand_edited := None\<rparr>"

text \<open>The columns that are updated from an item. The operation is the one of the module.\<close>

definition fill_row :: "dev_env \<Rightarrow> session \<Rightarrow> history_item \<Rightarrow> history_row \<Rightarrow> history_row" where
  "fill_row E S h r = r\<lparr>h_operation := Some (mod_op (module_at S (it_module h))),
     h_op_params := Some (it_params h), h_module := Some (module_version (info E (it_module h))),
     h_enabled := Some (of_bool (it_enabled h)), h_blendop_params := Some (it_blend_params h),
     h_blendop_version := Some (blend_version E), h_multi_priority := Some (it_multi_priority h),
     h_multi_name := Some (it_multi_name h),
     h_multi_name_hand_edited := Some (of_bool (it_multi_name_hand_edited h))\<rparr>"

definition dev_write_history_item ::
  "dev_env \<Rightarrow> session \<Rightarrow> int \<Rightarrow> history_item \<Rightarrow> int \<Rightarrow> tables \<Rightarrow> tables" where
  "dev_write_history_item E S imgid h num T =
     (let T1 = (if \<exists>r\<in>set (t_history T). h_imgid r = imgid \<and> h_num r = Some num then T
                else fst (insert_history [empty_row imgid num] T));
          T2 = T1\<lparr>t_history := map (\<lambda>r. if h_imgid r = imgid \<and> h_num r = Some num then fill_row E S h r else r)
                               (t_history T1)\<rparr>
      in fold (dt_masks_write_masks_history_item imgid num) (it_forms h) T2)"

definition cleanup_history :: "int \<Rightarrow> tables \<Rightarrow> tables" where
  "cleanup_history imgid T = T\<lparr>t_history := filter (\<lambda>r. h_imgid r \<noteq> imgid) (t_history T),
     t_masks := filter (\<lambda>r. m_imgid r \<noteq> imgid) (t_masks T)\<rparr>"

primrec write_items :: "dev_env \<Rightarrow> session \<Rightarrow> int \<Rightarrow> history_item list \<Rightarrow> int \<Rightarrow> tables \<Rightarrow> tables" where
  "write_items E S imgid [] i T = T"
| "write_items E S imgid (h # hs) i T = write_items E S imgid hs (i + 1) (dev_write_history_item E S imgid h i T)"

definition dt_dev_write_history_ext :: "dev_env \<Rightarrow> history_env \<Rightarrow> session \<Rightarrow> int \<Rightarrow> tables \<Rightarrow> tables" where
  "dt_dev_write_history_ext E H S imgid T =
     (let T1 = write_items E S imgid (s_history S) 0 (cleanup_history imgid T);
          T2 = fst (dt_image_set_history_end imgid (s_history_end S) T1);
          T3 = T2\<lparr>t_module_order := fst (dt_ioppr_write_iop_order_list True True (s_order S) imgid (t_module_order T2))\<rparr>
      in dt_history_hash_write_from_history H imgid DT_HISTORY_HASH_CURRENT T3)"

definition dt_dev_write_history :: "dev_env \<Rightarrow> history_env \<Rightarrow> session \<Rightarrow> int \<Rightarrow> library \<Rightarrow> library" where
  "dt_dev_write_history E H S imgid L =
     dt_database_release_transaction
       (on_db (dt_dev_write_history_ext E H S imgid) (dt_database_start_transaction L))"



section \<open>Well-formed sessions\<close>

text \<open>
  Modules have different addresses, every item belongs to a module of the session, and the end of the history lies
  within it.
\<close>

abbreviation ptrs :: "session \<Rightarrow> nat set" where
  "ptrs S \<equiv> mod_ptr ` set (s_iop S)"

definition session_ok :: "session \<Rightarrow> bool" where
  "session_ok S \<longleftrightarrow> distinct (map mod_ptr (s_iop S)) \<and> it_module ` set (s_history S) \<subseteq> ptrs S \<and>
     0 \<le> s_history_end S \<and> s_history_end S \<le> int (length (s_history S))"

lemma find_ptr:
  "distinct (map mod_ptr ms) \<Longrightarrow> m \<in> set ms \<Longrightarrow> find (\<lambda>x. mod_ptr x = mod_ptr m) ms = Some m"
  by (induction ms) force+

lemma module_at_eq: "session_ok S \<Longrightarrow> m \<in> set (s_iop S) \<Longrightarrow> module_at S (mod_ptr m) = m"
  by (simp add: session_ok_def module_at_def find_ptr)

lemma find_ptr_in:
  "p \<in> mod_ptr ` set ms \<Longrightarrow> \<exists>m\<in>set ms. mod_ptr m = p \<and> find (\<lambda>x. mod_ptr x = p) ms = Some m"
  by (induction ms) auto

lemma module_at_in: "p \<in> ptrs S \<Longrightarrow> module_at S p \<in> set (s_iop S) \<and> mod_ptr (module_at S p) = p"
  using find_ptr_in [of p "s_iop S"] by (auto simp: module_at_def)

lemma module_at_upd:
  assumes "\<And>m. mod_ptr (f m) = mod_ptr m" and "p \<in> ptrs S"
  shows "module_at (upd_module q f S) p = (if p = q then f (module_at S p) else module_at S p)"
proof -
  have "find (\<lambda>m. mod_ptr m = p) (map (\<lambda>m. if mod_ptr m = q then f m else m) ms) =
      map_option (\<lambda>m. if p = q then f m else m) (find (\<lambda>m. mod_ptr m = p) ms)" for ms
    using assms(1) by (induction ms) auto
  moreover obtain m where "find (\<lambda>m. mod_ptr m = p) (s_iop S) = Some m"
    using find_ptr_in [OF assms(2)] by blast
  ultimately show ?thesis by (auto simp: module_at_def upd_module_def)
qed

lemma upd_module_simps [simp]:
  "s_history (upd_module p f S) = s_history S" "s_history_end (upd_module p f S) = s_history_end S"
  "s_params (upd_module p f S) = s_params S" "s_blend (upd_module p f S) = s_blend S"
  "s_order (upd_module p f S) = s_order S" "s_forms (upd_module p f S) = s_forms S"
  "s_focus_hash (upd_module p f S) = s_focus_hash S"
  by (simp_all add: upd_module_def)

lemma upd_module_ptrs:
  "(\<And>m. mod_ptr (f m) = mod_ptr m) \<Longrightarrow> map mod_ptr (s_iop (upd_module p f S)) = map mod_ptr (s_iop S)"
  by (simp add: upd_module_def)

lemma upd_module_ok [dt_invs]:
  "(\<And>m. mod_ptr (f m) = mod_ptr m) \<Longrightarrow> session_ok S \<Longrightarrow> session_ok (upd_module p f S)"
  using upd_module_ptrs [of f p S] by (simp add: session_ok_def) (metis list.set_map)

lemma auto_label_ok [dt_invs]: "session_ok S \<Longrightarrow> session_ok (dev_auto_module_label E p S)"
  by (simp add: dev_auto_module_label_def Let_def upd_module_ok)

lemma auto_label_simps [simp]:
  "s_history (dev_auto_module_label E p S) = s_history S"
  "s_history_end (dev_auto_module_label E p S) = s_history_end S"
  "s_params (dev_auto_module_label E p S) = s_params S" "s_blend (dev_auto_module_label E p S) = s_blend S"
  "s_forms (dev_auto_module_label E p S) = s_forms S"
  by (simp_all add: dev_auto_module_label_def Let_def)

text \<open>Dropping what is above the end leaves the items below and those of modules that are always on.\<close>

definition kept_above :: "dev_env \<Rightarrow> session \<Rightarrow> history_item list" where
  "kept_above E S = filter (\<lambda>h. \<not> obsolete E S h) (drop (nat (s_history_end S)) (s_history S))"

lemma drop_obsolete_eq:
  fixes E :: dev_env
  assumes "session_ok S"
  defines "base \<equiv> take (nat (s_history_end S)) (s_history S) @ kept_above E S"
  shows "drop_obsolete E S = S\<lparr>s_history := base, s_history_end := int (length base)\<rparr>"
  using assms(1)
  by (auto simp: base_def drop_obsolete_def Let_def kept_above_def session_ok_def min_def intro!: arg_cong2 [where f = s_history_end_update])

lemma drop_obsolete_ok [dt_invs]:
  assumes "session_ok S"
  shows "session_ok (drop_obsolete E S)"
  using assms by (auto simp: drop_obsolete_eq session_ok_def kept_above_def dest!: in_set_takeD in_set_dropD)

lemma push_or_change_ok [dt_invs]:
  assumes "session_ok S" and "s_history_end S = int (length (s_history S))" and "p \<in> ptrs S"
  shows "session_ok (push_or_change E p ni no_image masks S)"
proof (cases "needs_new_item p ni masks S")
  case True
  with assms show ?thesis
    by (auto simp: push_or_change_def session_ok_def set_changed_def new_item_for_def Let_def)
next
  case False
  then have ne: "s_history S \<noteq> []" using assms(2) by (auto simp: needs_new_item_def g_list_nth_def split: if_splits)
  have "it_module (changed_item E p masks S h) = it_module h" for h by (simp add: changed_item_def Let_def)
  moreover have "s_history S ! nat (s_history_end S - 1) \<in> set (s_history S)" using assms(2) ne
    by (intro nth_mem) (cases "s_history S", auto)
  ultimately show ?thesis
    using assms False
    by (auto simp: push_or_change_def session_ok_def set_changed_def Let_def dest!: set_update_subset_insert [THEN subsetD])
qed

lemma enable_module_ok [dt_invs]: "session_ok S \<Longrightarrow> session_ok (enable_module en p S)"
  by (simp add: enable_module_def upd_module_ok)

lemma note_change_ok [dt_invs]: "session_ok (note_change p no_image S) \<longleftrightarrow> session_ok S"
  by (simp add: note_change_def session_ok_def)

text \<open>The steps before an item is pushed or changed, with what they keep.\<close>

definition prepared :: "dev_env \<Rightarrow> nat \<Rightarrow> bool \<Rightarrow> bool \<Rightarrow> session \<Rightarrow> session" where
  "prepared E p en auto S =
     enable_module en p (drop_obsolete E (if auto then dev_auto_module_label E p S else S))"

lemma add_item_prepared:
  "dev_add_history_item_ext E p en ni no_image masks auto S =
     note_change p no_image (push_or_change E p ni no_image masks (prepared E p en auto S))"
  by (simp add: dev_add_history_item_ext_def prepared_def Let_def)

lemma prepared_facts:
  assumes "session_ok S"
  shows "session_ok (prepared E p en auto S)" "ptrs (prepared E p en auto S) = ptrs S"
    "s_history_end (prepared E p en auto S) = int (length (s_history (prepared E p en auto S)))"
    "s_params (prepared E p en auto S) = s_params S" "s_blend (prepared E p en auto S) = s_blend S"
    "s_order (prepared E p en auto S) = s_order S" "s_forms (prepared E p en auto S) = s_forms S"
proof -
  define S1 where "S1 = (if auto then dev_auto_module_label E p S else S)"
  have ok1: "session_ok S1" using assms by (simp add: S1_def dt_invs)
  have P: "prepared E p en auto S = enable_module en p (drop_obsolete E S1)" by (simp add: prepared_def S1_def)
  show "session_ok (prepared E p en auto S)" unfolding P using ok1 by (simp add: dt_invs)
  have "map mod_ptr (s_iop (prepared E p en auto S)) = map mod_ptr (s_iop S)"
    by (simp add: P S1_def enable_module_def upd_module_ptrs dev_auto_module_label_def Let_def drop_obsolete_def)
  then show "ptrs (prepared E p en auto S) = ptrs S" by (metis list.set_map)
  show "s_history_end (prepared E p en auto S) = int (length (s_history (prepared E p en auto S)))"
    "s_params (prepared E p en auto S) = s_params S" "s_blend (prepared E p en auto S) = s_blend S"
    "s_order (prepared E p en auto S) = s_order S" "s_forms (prepared E p en auto S) = s_forms S"
    unfolding P using ok1
    by (simp_all add: enable_module_def drop_obsolete_eq, simp_all add: S1_def dev_auto_module_label_def Let_def)
qed

lemma add_item_ok [dt_invs]:
  assumes "session_ok S" and "p \<in> ptrs S"
  shows "session_ok (dev_add_history_item_ext E p en ni no_image masks auto S)"
  using assms by (simp add: add_item_prepared dt_invs prepared_facts)

text \<open>What an added item records of its module, and what it leaves below.\<close>

lemma upd_ops [simp]: "(\<And>m. mod_op (f m) = mod_op m) \<Longrightarrow> map mod_op (s_iop (upd_module p f S)) = map mod_op (s_iop S)"
  by (simp add: upd_module_def)

lemma find_upd:
  "(\<And>m. mod_ptr (f m) = mod_ptr m) \<Longrightarrow>
    find (\<lambda>m. mod_ptr m = q) (map (\<lambda>m. if mod_ptr m = p then f m else m) ms) =
    map_option (\<lambda>m. if q = p then f m else m) (find (\<lambda>m. mod_ptr m = q) ms)"
  by (induction ms) auto

lemma kept_above_label:
  assumes "session_ok S"
  shows "kept_above E (dev_auto_module_label E p S) = kept_above E S"
proof -
  have at: "mod_op (module_at (dev_auto_module_label E p S) q) = mod_op (module_at S q)"
    "mod_default_enabled (module_at (dev_auto_module_label E p S) q) = mod_default_enabled (module_at S q)"
    if "q \<in> ptrs S" for q
    using that by (simp_all add: dev_auto_module_label_def Let_def module_at_upd)
  have in_ptrs: "it_module h \<in> ptrs S" if "h \<in> set (s_history S)" for h
    using assms that by (auto simp: session_ok_def)
  have "earlier_entry (dev_auto_module_label E p S) h = earlier_entry S h" if "it_module h \<in> ptrs S" for h
    unfolding earlier_entry_def by (rule bex_cong) (auto simp: at that in_ptrs dest!: in_set_takeD)
  then have "obsolete E (dev_auto_module_label E p S) h = obsolete E S h" if "h \<in> set (s_history S)" for h
    using that in_ptrs by (simp add: obsolete_def at)
  then show ?thesis unfolding kept_above_def by (auto intro!: filter_cong dest!: in_set_dropD)
qed

lemma prepared_history:
  assumes "session_ok S"
  shows "s_history (prepared E p en auto S) = take (nat (s_history_end S)) (s_history S) @ kept_above E S"
  using assms by (simp add: prepared_def enable_module_def drop_obsolete_eq auto_label_ok kept_above_label)

lemma prepared_module:
  assumes "session_ok S" and "q \<in> ptrs S"
  shows "mod_enabled (module_at (prepared E p en auto S) q) = (en \<and> q = p \<or> mod_enabled (module_at S q))"
    and "mod_order (module_at (prepared E p en auto S) q) = mod_order (module_at S q)"
    and "mod_priority (module_at (prepared E p en auto S) q) = mod_priority (module_at S q)"
proof -
  define S1 where "S1 = (if auto then dev_auto_module_label E p S else S)"
  have at1: "mod_enabled (module_at S1 q) = mod_enabled (module_at S q)"
    "mod_order (module_at S1 q) = mod_order (module_at S q)"
    "mod_priority (module_at S1 q) = mod_priority (module_at S q)"
    using assms(2) by (simp_all add: S1_def dev_auto_module_label_def Let_def module_at_upd)
  have "map mod_ptr (s_iop S1) = map mod_ptr (s_iop S)"
    by (simp add: S1_def dev_auto_module_label_def Let_def upd_module_ptrs)
  then have "ptrs S1 = ptrs S" by (metis list.set_map)
  then have q: "q \<in> ptrs (drop_obsolete E S1)" using assms(2) by (simp add: drop_obsolete_def Let_def)
  have at2: "module_at (drop_obsolete E S1) q = module_at S1 q"
    by (simp add: module_at_def drop_obsolete_def Let_def)
  have P: "prepared E p en auto S = enable_module en p (drop_obsolete E S1)" by (simp add: prepared_def S1_def)
  show "mod_enabled (module_at (prepared E p en auto S) q) = (en \<and> q = p \<or> mod_enabled (module_at S q))"
    "mod_order (module_at (prepared E p en auto S) q) = mod_order (module_at S q)"
    "mod_priority (module_at (prepared E p en auto S) q) = mod_priority (module_at S q)"
    unfolding P using module_at_upd [OF _ q, of "mod_enabled_update (\<lambda>_. True)" p] at1 at2
    by (cases "q = p"; simp add: enable_module_def)+
qed

lemma note_change_simps [simp]:
  "s_history (note_change p ni S) = s_history S" "s_history_end (note_change p ni S) = s_history_end S"
  "s_params (note_change p ni S) = s_params S" "s_blend (note_change p ni S) = s_blend S"
  "s_iop (note_change p ni S) = s_iop S" "s_forms (note_change p ni S) = s_forms S"
  "s_order (note_change p ni S) = s_order S" "s_changed (note_change p ni S) = s_changed S"
  by (simp_all add: note_change_def)

lemma set_changed_simps [simp]:
  "s_history (set_changed ni fl S) = s_history S" "s_history_end (set_changed ni fl S) = s_history_end S"
  "s_params (set_changed ni fl S) = s_params S" "s_blend (set_changed ni fl S) = s_blend S"
  "s_iop (set_changed ni fl S) = s_iop S" "s_forms (set_changed ni fl S) = s_forms S"
  "s_order (set_changed ni fl S) = s_order S"
  by (simp_all add: set_changed_def)

lemma push_or_change_simps [simp]:
  "s_params (push_or_change E p ni no_image masks S) = s_params S"
  "s_blend (push_or_change E p ni no_image masks S) = s_blend S"
  "s_iop (push_or_change E p ni no_image masks S) = s_iop S"
  "s_forms (push_or_change E p ni no_image masks S) = s_forms S"
  "s_order (push_or_change E p ni no_image masks S) = s_order S"
  by (simp_all add: push_or_change_def Let_def)

text \<open>Pushing or changing: the history ends with an item of the module, and everything else is kept.\<close>

definition top_item :: "session \<Rightarrow> history_item" where
  "top_item S = last (take (nat (s_history_end S)) (s_history S))"

lemma push_or_change_history:
  fixes E :: dev_env and p :: nat and ni no_image masks :: bool
  assumes "s_history_end S = int (length (s_history S))"
  defines "S' \<equiv> push_or_change E p ni no_image masks S"
  shows "s_history_end S' = int (length (s_history S'))"
    and "s_history S' \<noteq> []"
    and "it_module (last (s_history S')) = p"
    and "it_params (last (s_history S')) = s_params S p"
    and "it_enabled (last (s_history S')) = mod_enabled (module_at S p)"
    and "it_iop_order (last (s_history S')) = mod_order (module_at S p)"
    and "supports_blending (info E p) \<Longrightarrow> it_blend_params (last (s_history S')) = s_blend S p"
    and "masks \<Longrightarrow> it_forms (last (s_history S')) = dt_masks_dup_forms_deep (s_forms S) None"
    and "butlast (s_history S') = s_history S \<or>
         \<not> ni \<and> s_history S \<noteq> [] \<and> it_module (last (s_history S)) = p \<and>
         butlast (s_history S') = butlast (s_history S)"
proof -
  show "s_history_end S' = int (length (s_history S'))" using assms(1)
    by (simp add: S'_def push_or_change_def Let_def)
  define H where "H = s_history S"
  have top: "g_list_nth (s_history S) (s_history_end S - 1) = (if H = [] then None else Some (last H))"
    using assms(1) by (auto simp: g_list_nth_def H_def last_conv_nth nat_diff_distrib neq_Nil_conv)
  have nth: "H ! nat (s_history_end S - 1) = last H" if "H \<noteq> []"
    using assms(1) that by (auto simp: H_def last_conv_nth nat_diff_distrib neq_Nil_conv)
  have upd: "H[nat (s_history_end S - 1) := x] = butlast H @ [x]" if "H \<noteq> []" for x
  proof -
    have "nat (s_history_end S - 1) = length (butlast H)" using assms(1) that by (auto simp: H_def)
    then show ?thesis using that by (metis append_butlast_last_id list_update_length)
  qed
  show "s_history S' \<noteq> []" "it_module (last (s_history S')) = p" "it_params (last (s_history S')) = s_params S p"
    "it_enabled (last (s_history S')) = mod_enabled (module_at S p)"
    "it_iop_order (last (s_history S')) = mod_order (module_at S p)"
    "supports_blending (info E p) \<Longrightarrow> it_blend_params (last (s_history S')) = s_blend S p"
    "masks \<Longrightarrow> it_forms (last (s_history S')) = dt_masks_dup_forms_deep (s_forms S) None"
    "butlast (s_history S') = s_history S \<or>
         \<not> ni \<and> s_history S \<noteq> [] \<and> it_module (last (s_history S)) = p \<and>
         butlast (s_history S') = butlast (s_history S)"
    unfolding S'_def push_or_change_def needs_new_item_def top
    using upd nth by (auto simp: H_def [symmetric] Let_def new_item_for_def changed_item_def)
qed

lemma add_item_facts:
  fixes E :: dev_env and p :: nat and en ni no_image masks auto :: bool
  assumes "session_ok S" and "p \<in> ptrs S"
  defines "S' \<equiv> dev_add_history_item_ext E p en ni no_image masks auto S"
    and "base \<equiv> take (nat (s_history_end S)) (s_history S) @ kept_above E S"
  shows "session_ok S' \<and> s_history_end S' = int (length (s_history S')) \<and> s_history S' \<noteq> [] \<and>
    it_module (last (s_history S')) = p \<and> it_params (last (s_history S')) = s_params S p \<and>
    it_enabled (last (s_history S')) = (en \<or> mod_enabled (module_at S p)) \<and>
    (masks \<longrightarrow> it_forms (last (s_history S')) = dt_masks_dup_forms_deep (s_forms S) None) \<and>
    (supports_blending (info E p) \<longrightarrow> it_blend_params (last (s_history S')) = s_blend S p) \<and>
    (butlast (s_history S') = base \<or>
       \<not> ni \<and> base \<noteq> [] \<and> it_module (last base) = p \<and> butlast (s_history S') = butlast base) \<and>
    s_params S' = s_params S \<and> s_blend S' = s_blend S"
proof -
  define P where "P = prepared E p en auto S"
  note facts = prepared_facts [OF assms(1), of E p en auto, folded P_def]
  have hist: "s_history P = base" using prepared_history [OF assms(1)] by (simp add: P_def base_def)
  have S': "S' = note_change p no_image (push_or_change E p ni no_image masks P)"
    by (simp add: S'_def P_def add_item_prepared)
  show ?thesis
    using push_or_change_history [OF facts(3), where E = E and p = p and ni = ni and no_image = no_image and masks = masks]
      add_item_ok [OF assms(1,2), of E en ni no_image masks auto]
      prepared_module(1) [OF assms(1,2), of E p en auto] facts(4-7)
    unfolding S'_def [symmetric] unfolding S' P_def [symmetric] hist by auto
qed

text \<open>
  C25: Adding an item for a module of a well-formed session leaves a well-formed session whose history
  is all active and ends with an item that holds the module's parameters and state; below it are
  the items that were active, then those above the end that belong to always-on modules without an earlier item. The
  last of them is replaced only when it belongs to the same module and no new item was asked for. The
  parameters of the modules are not touched.
\<close>

theorem add_history_item_spec:
  fixes E :: dev_env and p :: nat and en ni no_image masks auto :: bool
  assumes "session_ok S" and "p \<in> ptrs S"
  defines "S' \<equiv> dev_add_history_item_ext E p en ni no_image masks auto S"
    and "base \<equiv> take (nat (s_history_end S)) (s_history S) @ kept_above E S"
  shows "session_ok S' \<and> s_history_end S' = int (length (s_history S')) \<and> s_history S' \<noteq> [] \<and>
    it_module (last (s_history S')) = p \<and> it_params (last (s_history S')) = s_params S p \<and>
    it_enabled (last (s_history S')) = (en \<or> mod_enabled (module_at S p)) \<and>
    (masks \<longrightarrow> it_forms (last (s_history S')) = dt_masks_dup_forms_deep (s_forms S) None) \<and>
    (supports_blending (info E p) \<longrightarrow> it_blend_params (last (s_history S')) = s_blend S p) \<and>
    (butlast (s_history S') = base \<or>
       \<not> ni \<and> base \<noteq> [] \<and> it_module (last base) = p \<and> butlast (s_history S') = butlast base) \<and>
    s_params S' = s_params S \<and> s_blend S' = s_blend S"
  unfolding S'_def base_def by (rule add_item_facts [OF assms(1,2)])

definition example_session :: session where
  "example_session = \<lparr>
     s_iop = iop pipe_example, s_order = iop_order_list pipe_example,
     s_history = [], s_history_end = 0, s_params = (\<lambda>p. [of_nat p]), s_blend = (\<lambda>p. []), s_forms = [],
     s_focus_hash = False, s_last_module = None, s_changed = 0, s_autosaving = False, s_saves = 0, s_dirty = False,
     s_timestamp = 0, s_cache_obsolete = False\<rparr>"

definition example_dev_env :: dev_env where
  "example_dev_env = \<lparr>
     info = (\<lambda>p. \<lparr>default_params = [0], default_blendop_params = [], hide_enable_button = p = 1, is_hidden = False,
                  supports_blending = True, module_version = 1\<rparr>),
     auto_module_name_update = True, dt_presets_get_module_label = (\<lambda>_ _ _ _. None),
     commit_blend = (\<lambda>_ b. b), blend_version = 11\<rparr>"

lemma example_session_ok: "session_ok example_session"
  by (simp add: session_ok_def example_session_def pipe_example_def pipe_module_def)

theorem add_history_item_spec_witness:
  "s_params (dev_add_history_item_ext example_dev_env 2 True False False False True example_session) =
     s_params example_session \<and>
   session_ok (dev_add_history_item_ext example_dev_env 2 True False False False True example_session)"
proof -
  have "2 \<in> ptrs example_session" by (simp add: example_session_def pipe_example_def pipe_module_def)
  then show ?thesis
    using add_history_item_spec [OF example_session_ok, of 2 example_dev_env True False False False True] by simp
qed


section \<open>What a state of the history means\<close>

text \<open>
  The specification of a state of the history: a module has what the last active item for it records, and its
  defaults when there is none.
\<close>

definition last_item :: "nat \<Rightarrow> history_item list \<Rightarrow> history_item option" where
  "last_item q hs = find (\<lambda>h. it_module h = q) (rev hs)"

lemma last_item_simps [simp]:
  "last_item q [] = None"
  "last_item q (hs @ [h]) = (if it_module h = q then Some h else last_item q hs)"
  by (simp_all add: last_item_def)

lemma last_item_module: "last_item q hs = Some h \<Longrightarrow> it_module h = q \<and> h \<in> set hs"
  by (auto simp: last_item_def find_Some_iff in_set_conv_nth rev_nth) (metis Suc_diff_Suc Suc_less_eq diff_less_Suc)

lemma last_item_None: "last_item q hs = None \<longleftrightarrow> q \<notin> it_module ` set hs"
  by (auto simp: last_item_def find_None_iff)

definition stamp :: "history_item \<Rightarrow> dt_iop_module_t \<Rightarrow> dt_iop_module_t" where
  "stamp h m = m\<lparr>mod_order := it_iop_order h, mod_enabled := it_enabled h,
     mod_name := strlcpy 128 (it_multi_name h), mod_name_hand_edited := it_multi_name_hand_edited h\<rparr>"

definition stamped :: "history_item list \<Rightarrow> dt_iop_module_t \<Rightarrow> dt_iop_module_t" where
  "stamped hs m = (case last_item (mod_ptr m) hs of None \<Rightarrow> m | Some h \<Rightarrow> stamp h m)"

lemma stamp_key [simp]: "mod_ptr (stamp h m) = mod_ptr m" "mkey (stamp h m) = mkey m"
  "mod_priority (stamp h m) = mod_priority m" "mod_op (stamp h m) = mod_op m"
  by (simp_all add: stamp_def mkey_def)

lemma stamped_key [simp]: "mod_ptr (stamped hs m) = mod_ptr m" "mkey (stamped hs m) = mkey m"
  "mod_priority (stamped hs m) = mod_priority m" "mod_op (stamped hs m) = mod_op m"
  by (simp_all add: stamped_def split: option.split)

lemma apply_item_simps:
  "s_iop (apply_item E h S) = map (\<lambda>m. if mod_ptr m = it_module h then stamp h m else m) (s_iop S)"
  "s_params (apply_item E h S) = (s_params S)(it_module h := it_params h)"
  "s_blend (apply_item E h S) = (s_blend S)(it_module h := commit_blend E (it_module h) (it_blend_params h))"
  "s_history (apply_item E h S) = s_history S" "s_history_end (apply_item E h S) = s_history_end S"
  "s_order (apply_item E h S) = s_order S" "s_forms (apply_item E h S) = s_forms S"
  by (simp_all add: apply_item_def upd_module_def stamp_def)

lemma apply_items:
  "s_iop (fold (apply_item E) hs S) = map (stamped hs) (s_iop S) \<and>
   s_params (fold (apply_item E) hs S) q = (case last_item q hs of None \<Rightarrow> s_params S q | Some h \<Rightarrow> it_params h) \<and>
   s_blend (fold (apply_item E) hs S) q =
     (case last_item q hs of None \<Rightarrow> s_blend S q | Some h \<Rightarrow> commit_blend E q (it_blend_params h)) \<and>
   s_history (fold (apply_item E) hs S) = s_history S \<and> s_history_end (fold (apply_item E) hs S) = s_history_end S \<and>
   s_order (fold (apply_item E) hs S) = s_order S \<and> s_forms (fold (apply_item E) hs S) = s_forms S"
proof (induction hs rule: rev_induct)
  case Nil
  then show ?case by (simp add: stamped_def map_idI)
next
  case (snoc h hs)
  have "(if mod_ptr (stamped hs m) = it_module h then stamp h (stamped hs m) else stamped hs m) = stamped (hs @ [h]) m" for m
    by (auto simp: stamped_def stamp_def eq_commute split: option.split)
  with snoc.IH show ?case by (simp add: apply_item_simps)
qed

text \<open>The state of a module: its parameters come from the history, its order from the list of the session.\<close>

definition active_items :: "session \<Rightarrow> history_item list" where
  "active_items S = take (nat (s_history_end S)) (s_history S)"

definition replay_params :: "dev_env \<Rightarrow> history_item list \<Rightarrow> nat \<Rightarrow> blob" where
  "replay_params E hs q = (case last_item q hs of None \<Rightarrow> default_params (info E q) | Some h \<Rightarrow> it_params h)"

definition replay_blend :: "dev_env \<Rightarrow> history_item list \<Rightarrow> nat \<Rightarrow> blob" where
  "replay_blend E hs q = commit_blend E q
     (case last_item q hs of None \<Rightarrow> default_blendop_params (info E q) | Some h \<Rightarrow> it_blend_params h)"

definition list_position :: "dt_iop_order_entry_t list \<Rightarrow> dt_iop_module_t \<Rightarrow> int" where
  "list_position xs m = dt_ioppr_get_iop_order (ioppr_reset_iop_order xs) (mod_op m) (mod_priority m)"

definition replay_module ::
  "dt_iop_order_entry_t list \<Rightarrow> history_item list \<Rightarrow> dt_iop_module_t \<Rightarrow> dt_iop_module_t" where
  "replay_module xs hs m =
     (case last_item (mod_ptr m) hs of
        None \<Rightarrow> m\<lparr>mod_enabled := mod_default_enabled m,
                  mod_order := if mod_priority m = 0 then list_position xs m else INT_MAX\<rparr>
      | Some h \<Rightarrow> (stamp h m)\<lparr>mod_order := if it_iop_order h = INT_MAX then INT_MAX else list_position xs m\<rparr>)"

lemma replay_module_key [simp]: "mod_ptr (replay_module xs hs m) = mod_ptr m" "mkey (replay_module xs hs m) = mkey m"
  by (simp_all add: replay_module_def mkey_def stamp_def split: option.split)

text \<open>Distinct modules have distinct places in the list.\<close>

lemma link_key:
  "dt_ioppr_get_iop_order_link xs a b = Some i \<Longrightarrow> b \<noteq> - 1 \<Longrightarrow> i < length xs \<and> entry_ids xs ! i = (a, b)"
  by (induction xs arbitrary: i)
    (auto simp: entry_ids_def entry_matches_def nth_Cons' split: if_splits option.splits)

lemma list_position_inj:
  assumes "list_position xs m = list_position xs m'" and "list_position xs m \<noteq> INT_MAX"
    and "mod_priority m \<noteq> - 1" and "mod_priority m' \<noteq> - 1"
  shows "mkey m = mkey m'"
  using assms link_key [of xs "mod_op m" "mod_priority m"] link_key [of xs "mod_op m'" "mod_priority m'"]
  by (auto simp: list_position_def get_iop_order_reset mkey_def split: option.splits)

lemma check_dup_loop_unique:
  assumes "\<And>i. 0 < i \<Longrightarrow> i < length ms \<Longrightarrow> mod_order (ms ! i) = mod_order (ms ! (i - 1)) \<Longrightarrow> mod_order (ms ! i) = INT_MAX"
  shows "0 < i \<Longrightarrow> length ms - i < n \<Longrightarrow> check_dup_loop n used start i ms = Some ms"
proof (induction n arbitrary: i)
  case (Suc n)
  then show ?case using assms [of i] by (auto simp: Let_def)
qed simp

lemma check_duplicate_unique:
  assumes keys: "distinct (map mkey ms)" and n: "length ms < n"
    and inj: "\<And>m m'. m \<in> set ms \<Longrightarrow> m' \<in> set ms \<Longrightarrow> mod_order m = mod_order m' \<Longrightarrow> mod_order m \<noteq> INT_MAX \<Longrightarrow> mkey m = mkey m'"
  shows "dt_ioppr_check_duplicate_iop_order n used ms = Some ms"
  unfolding dt_ioppr_check_duplicate_iop_order_def
proof (rule check_dup_loop_unique)
  fix i assume i: "0 < i" "i < length ms" "mod_order (ms ! i) = mod_order (ms ! (i - 1))"
  have "map mkey ms ! i \<noteq> map mkey ms ! (i - 1)"
    using keys i by (subst nth_eq_iff_index_eq) auto
  then show "mod_order (ms ! i) = INT_MAX" using inj [of "ms ! i" "ms ! (i - 1)"] i by auto
qed (use n in auto)

text \<open>Resetting, applying the active items and resynchronising gives the specified state.\<close>

lemma reset_then_stamp:
  assumes "\<forall>e\<in>set (s_order S). iop_order e \<noteq> INT_MAX"
  shows "(let m' = stamped hs (reset_module S m)
          in if mod_order m' \<noteq> INT_MAX then m'\<lparr>mod_order := list_position (s_order S) m'\<rparr> else m') =
    replay_module (s_order S) hs m"
proof -
  have link: "dt_ioppr_get_iop_order xs a b = INT_MAX \<longleftrightarrow> dt_ioppr_get_iop_order_link xs a b = None"
    if "\<forall>e\<in>set xs. iop_order e \<noteq> INT_MAX" for xs a b
    using that by (induction xs) (auto simp: dt_ioppr_get_iop_order_def ioppr_get_iop_order_entry_def split: option.splits)
  have none: "list_position (s_order S) m = INT_MAX" if "dt_ioppr_get_iop_order (s_order S) (mod_op m) (mod_priority m) = INT_MAX"
    using that link [OF assms] by (simp add: list_position_def get_iop_order_reset)
  show ?thesis
    using none by (auto simp: Let_def stamped_def reset_module_def replay_module_def stamp_def list_position_def split: option.split)
qed

definition order_ready :: "nat \<Rightarrow> session \<Rightarrow> bool" where
  "order_ready n S \<longleftrightarrow> distinct (map mkey (s_iop S)) \<and> (\<forall>m\<in>set (s_iop S). mod_priority m \<noteq> - 1) \<and>
     (\<forall>e\<in>set (s_order S). iop_order e \<noteq> INT_MAX) \<and> length (s_iop S) < n"

lemma replace_forms_simps [simp]:
  "s_iop (dt_masks_replace_current_forms fs S) = s_iop S" "s_history (dt_masks_replace_current_forms fs S) = s_history S"
  "s_history_end (dt_masks_replace_current_forms fs S) = s_history_end S"
  "s_params (dt_masks_replace_current_forms fs S) = s_params S" "s_blend (dt_masks_replace_current_forms fs S) = s_blend S"
  "s_order (dt_masks_replace_current_forms fs S) = s_order S"
  "s_forms (dt_masks_replace_current_forms fs S) = dt_masks_dup_forms_deep fs None"
  by (simp_all add: dt_masks_replace_current_forms_def)

lemma dup_forms_Nil [simp]: "dt_masks_dup_forms_deep fs u = [] \<longleftrightarrow> fs = []"
  by (simp add: dt_masks_dup_forms_deep_def)

lemma with_order_part_simps [simp]:
  "s_params (with_order_part d S) = s_params S" "s_blend (with_order_part d S) = s_blend S"
  "s_history (with_order_part d S) = s_history S" "s_history_end (with_order_part d S) = s_history_end S"
  "s_forms (with_order_part d S) = s_forms S" "s_iop (with_order_part d S) = iop d"
  "s_order (with_order_part d S) = iop_order_list d"
  by (simp_all add: with_order_part_def)

lemma with_order_part_iop [simp]: "(with_order_part d S)\<lparr>s_iop := iop d\<rparr> = with_order_part d S"
  by (simp add: with_order_part_def)

text \<open>The session at the moment the duplicate check starts.\<close>

definition replayed :: "dev_env \<Rightarrow> int \<Rightarrow> session \<Rightarrow> session" where
  "replayed E k S =
     (let S2 = fold (apply_item E) (take (nat k) (s_history S)) (reset_modules E (S\<lparr>s_history_end := k\<rparr>))
      in with_order_part (dt_ioppr_resync_modules_order (order_part S2)) S2)"

lemma replayed_facts:
  fixes k :: int
  assumes "order_ready n S"
  defines "hs \<equiv> take (nat k) (s_history S)"
  shows "s_iop (replayed E k S) = g_list_sort dt_sort_iop_by_order (map (replay_module (s_order S) hs) (s_iop S))"
    and "q \<in> ptrs S \<Longrightarrow> s_params (replayed E k S) q = replay_params E hs q"
    and "q \<in> ptrs S \<Longrightarrow> s_blend (replayed E k S) q = replay_blend E hs q"
    and "s_history (replayed E k S) = s_history S" "s_history_end (replayed E k S) = k"
    and "s_forms (replayed E k S) = s_forms S"
    and "s_order (replayed E k S) = ioppr_reset_iop_order (s_order S)"
proof -
  let ?R = "reset_modules E (S\<lparr>s_history_end := k\<rparr>)"
  let ?S2 = "fold (apply_item E) hs ?R"
  have A: "s_iop ?S2 = map (stamped hs) (map (reset_module S) (s_iop S))" "s_order ?S2 = s_order S"
    "s_history ?S2 = s_history S" "s_history_end ?S2 = k" "s_forms ?S2 = s_forms S"
    using apply_items [of E hs ?R] by (simp_all add: reset_modules_def reset_module_def)
  have B: "s_params ?S2 q = (case last_item q hs of None \<Rightarrow> s_params ?R q | Some h \<Rightarrow> it_params h)"
    "s_blend ?S2 q = (case last_item q hs of None \<Rightarrow> s_blend ?R q | Some h \<Rightarrow> commit_blend E q (it_blend_params h))" for q
    using apply_items [of E hs ?R q] by simp_all
  have R: "replayed E k S = with_order_part (dt_ioppr_resync_modules_order (order_part ?S2)) ?S2"
    by (simp add: replayed_def hs_def Let_def)
  have mods: "map (\<lambda>m. if mod_order m \<noteq> INT_MAX then m\<lparr>mod_order := list_position (s_order S) m\<rparr> else m)
      (s_iop ?S2) = map (replay_module (s_order S) hs) (s_iop S)"
    using reset_then_stamp [of S hs] assms(1) unfolding A(1) order_ready_def Let_def list.map_comp comp_def
    by (intro map_cong) auto
  show "s_iop (replayed E k S) = g_list_sort dt_sort_iop_by_order (map (replay_module (s_order S) hs) (s_iop S))"
    "s_order (replayed E k S) = ioppr_reset_iop_order (s_order S)"
    unfolding R using mods [unfolded list_position_def]
    by (simp_all add: with_order_part_def dt_ioppr_resync_modules_order_def Let_def order_part_def A(2) list_position_def)
  show "s_history (replayed E k S) = s_history S" "s_history_end (replayed E k S) = k" "s_forms (replayed E k S) = s_forms S"
    unfolding R by (simp_all add: with_order_part_def A)
  show "q \<in> ptrs S \<Longrightarrow> s_params (replayed E k S) q = replay_params E hs q"
    "q \<in> ptrs S \<Longrightarrow> s_blend (replayed E k S) q = replay_blend E hs q"
    unfolding R with_order_part_simps B replay_params_def replay_blend_def
    by (simp_all add: reset_modules_def split: option.split)
qed

lemma pop_replayed:
  assumes "order_ready n S"
  shows "dt_dev_pop_history_items_ext E n k S =
    Some (if \<exists>h\<in>set (items_between S (s_history_end S) k). it_forms h \<noteq> []
          then dt_masks_replace_current_forms (last_forms (take (nat k) (s_history S))) (replayed E k S) else replayed E k S)"
proof -
  let ?hs = "take (nat k) (s_history S)" and ?ms = "s_iop (replayed E k S)"
  note iop = replayed_facts(1) [OF assms, where E = E and k = k]
  have perm: "mset ?ms = mset (map (replay_module (s_order S) ?hs) (s_iop S))" unfolding iop by simp
  have "mset (map mkey ?ms) = image_mset mkey (mset ?ms)" by simp
  also have "\<dots> = mset (map mkey (s_iop S))" unfolding perm by (simp add: multiset.map_comp comp_def)
  finally have "mset (map mkey ?ms) = mset (map mkey (s_iop S))" .
  from mset_eq_imp_distinct_iff [OF this] have keys: "distinct (map mkey ?ms)" using assms by (simp add: order_ready_def)
  have "dt_ioppr_check_duplicate_iop_order n used ?ms = Some ?ms" for used
  proof (rule check_duplicate_unique [OF keys])
    show "length ?ms < n" using assms mset_eq_length [OF perm] by (simp add: order_ready_def)
    fix m m' assume m: "m \<in> set ?ms" "m' \<in> set ?ms" "mod_order m = mod_order m'" "mod_order m \<noteq> INT_MAX"
    have o: "mod_order x = INT_MAX \<or> mod_order x = list_position (s_order S) x \<and> mod_priority x \<noteq> - 1"
      if "x \<in> set ?ms" for x
      using that assms unfolding iop
      by (auto simp: replay_module_def stamp_def list_position_def order_ready_def split: option.splits)
    then show "mkey m = mkey m'" using m list_position_inj [of "s_order S" m m'] by metis
  qed
  then show ?thesis
    by (simp add: dt_dev_pop_history_items_ext_def replayed_def Let_def replayed_facts(4) [OF assms, unfolded replayed_def Let_def])
qed

text \<open>The masks: without a change between the two ends, the last shapes are the same.\<close>

lemma last_forms_append:
  "last_forms (hs @ gs) = (if \<exists>h\<in>set gs. it_forms h \<noteq> [] then last_forms gs else last_forms hs)"
  by (induction gs rule: rev_induct) (auto simp: last_forms_def)

lemma items_between_commute: "items_between S a b = items_between S b a"
  by (simp add: items_between_def min.commute max.commute)

lemma last_forms_between:
  assumes "0 \<le> a" "a \<le> b" and "\<not> (\<exists>h\<in>set (items_between S a b). it_forms h \<noteq> [])"
  shows "last_forms (take (nat a) (s_history S)) = last_forms (take (nat b) (s_history S))"
proof -
  have "take (nat b) (s_history S) = take (nat a) (s_history S) @ items_between S a b"
    using assms(1,2) by (simp add: items_between_def) (metis append_take_drop_id min.absorb1 nat_mono take_take)
  then show ?thesis using assms(3) by (metis last_forms_append)
qed

lemma pop_facts:
  assumes "session_ok S" and "order_ready n S" and "0 \<le> k" and "k \<le> int (length (s_history S))"
  shows "\<exists>S'. dt_dev_pop_history_items_ext E n k S = Some S' \<and> session_ok S' \<and>
    s_history S' = s_history S \<and> s_history_end S' = k \<and>
    mset (s_iop S') = mset (map (replay_module (s_order S) (take (nat k) (s_history S))) (s_iop S)) \<and>
    sorted (map mod_order (s_iop S')) \<and>
    (\<forall>q\<in>ptrs S. s_params S' q = replay_params E (take (nat k) (s_history S)) q \<and>
                 s_blend S' q = replay_blend E (take (nat k) (s_history S)) q) \<and>
    (s_forms S = dt_masks_dup_forms_deep (last_forms (active_items S)) None \<longrightarrow>
      s_forms S' = dt_masks_dup_forms_deep (last_forms (active_items S')) None)"
proof -
  let ?R = "replayed E k S" and ?hs = "take (nat k) (s_history S)"
  define S' where "S' = (if \<exists>h\<in>set (items_between S (s_history_end S) k). it_forms h \<noteq> []
    then dt_masks_replace_current_forms (last_forms ?hs) ?R else ?R)"
  note R = replayed_facts [OF assms(2), where E = E and k = k]
  have same: "s_iop S' = s_iop ?R" "s_history S' = s_history S" "s_history_end S' = k"
    "s_params S' = s_params ?R" "s_blend S' = s_blend ?R" by (simp_all add: S'_def R)
  have perm: "mset (s_iop ?R) = mset (map (replay_module (s_order S) ?hs) (s_iop S))" by (simp add: R(1))
  have "mset (map mod_ptr (s_iop ?R)) = image_mset mod_ptr (mset (s_iop ?R))" by simp
  also have "\<dots> = mset (map mod_ptr (s_iop S))" unfolding perm by (simp add: multiset.map_comp comp_def)
  finally have P: "mset (map mod_ptr (s_iop ?R)) = mset (map mod_ptr (s_iop S))" .
  have "distinct (map mod_ptr (s_iop ?R))" using assms(1) mset_eq_imp_distinct_iff [OF P] by (simp add: session_ok_def)
  moreover have "ptrs ?R = ptrs S" using mset_eq_setD [OF P] by simp
  ultimately have ok: "session_ok S'" using assms by (simp add: session_ok_def same)
  have "last_forms ?hs = last_forms (active_items S)" if
    "\<not> (\<exists>h\<in>set (items_between S (s_history_end S) k). it_forms h \<noteq> [])"
  proof (cases "s_history_end S \<le> k")
    case True
    then show ?thesis using that assms(1) last_forms_between [of "s_history_end S" k S]
      by (simp add: active_items_def session_ok_def)
  next
    case False
    then show ?thesis using that assms(3) last_forms_between [of k "s_history_end S" S]
      by (simp add: active_items_def items_between_commute [of S k])
  qed
  then have forms: "s_forms S = dt_masks_dup_forms_deep (last_forms (active_items S)) None \<longrightarrow>
      s_forms S' = dt_masks_dup_forms_deep (last_forms (active_items S')) None"
    by (auto simp: S'_def R active_items_def)
  have "sorted (map mod_order (s_iop S'))" unfolding same R(1) by (intro module_order.sort_sorted) simp
  then show ?thesis
    using ok forms perm R(2,3) same by (intro exI [of _ S']) (auto simp: pop_replayed [OF assms(2)] S'_def)
qed

text \<open>
  C3: Going to a state of the history returns, and gives the session that the state means: a module with an item among the
  first \<open>k\<close> has the parameters, the blending parameters, the name and the switch of the last one; a module without one has its default
  parameters and its default switch, and keeps its current name; further instances (of a priority other than 0) without an item are set aside; the others
  take the place the list of the session gives them, the modules are in that order, and the history is unchanged. When the shapes were
  those of the active items before, they are those of the active items afterwards. Asked of the session (\<open>session_ok\<close>, \<open>order_ready\<close>): the modules have
  distinct addresses and the items belong to them; no two modules have the same operation and priority, no priority is -1, no
  entry of the order list has the order \<open>INT_MAX\<close>, and the fuel for the search of duplicate orders exceeds the number of modules. Without
  them the search need not end (\<open>check_duplicate_diverges\<close>).
\<close>

theorem pop_history_items_spec:
  assumes "session_ok S" and "order_ready n S" and "0 \<le> k" and "k \<le> int (length (s_history S))"
  shows "\<exists>S'. dt_dev_pop_history_items_ext E n k S = Some S' \<and> session_ok S' \<and>
    s_history S' = s_history S \<and> s_history_end S' = k \<and>
    mset (s_iop S') = mset (map (replay_module (s_order S) (take (nat k) (s_history S))) (s_iop S)) \<and>
    sorted (map mod_order (s_iop S')) \<and>
    (\<forall>q\<in>ptrs S. s_params S' q = replay_params E (take (nat k) (s_history S)) q \<and>
                 s_blend S' q = replay_blend E (take (nat k) (s_history S)) q) \<and>
    (s_forms S = dt_masks_dup_forms_deep (last_forms (active_items S)) None \<longrightarrow>
      s_forms S' = dt_masks_dup_forms_deep (last_forms (active_items S')) None)"
  by (rule pop_facts [OF assms])

definition edited_session :: session where
  "edited_session =
     dev_add_history_item_ext example_dev_env 1 True True False False True
       (dev_add_history_item_ext example_dev_env 2 True True False False True example_session)"

lemma add_item_keys:
  "map mkey (s_iop (dev_add_history_item_ext E p en ni no_image masks auto S)) = map mkey (s_iop S)"
  "map mod_ptr (s_iop (dev_add_history_item_ext E p en ni no_image masks auto S)) = map mod_ptr (s_iop S)"
  "s_order (dev_add_history_item_ext E p en ni no_image masks auto S) = s_order S"
proof -
  have upd: "map mkey (s_iop (upd_module p f X)) = map mkey (s_iop X)" if "\<And>m. mkey (f m) = mkey m" for f X
    using that by (simp add: upd_module_def)
  have drop: "s_iop (drop_obsolete E X) = s_iop X" "s_order (drop_obsolete E X) = s_order X" for X
    by (simp_all add: drop_obsolete_def Let_def)
  have prep: "map mkey (s_iop (prepared E p en auto S)) = map mkey (s_iop S)"
    "map mod_ptr (s_iop (prepared E p en auto S)) = map mod_ptr (s_iop S)"
    "s_order (prepared E p en auto S) = s_order S"
    by (simp_all add: prepared_def enable_module_def dev_auto_module_label_def Let_def drop upd upd_module_ptrs mkey_def)
  show "map mkey (s_iop (dev_add_history_item_ext E p en ni no_image masks auto S)) = map mkey (s_iop S)"
    "map mod_ptr (s_iop (dev_add_history_item_ext E p en ni no_image masks auto S)) = map mod_ptr (s_iop S)"
    "s_order (dev_add_history_item_ext E p en ni no_image masks auto S) = s_order S"
    unfolding add_item_prepared note_change_simps push_or_change_simps by (fact prep)+
qed

lemma add_item_ptrs: "ptrs (dev_add_history_item_ext E p en ni no_image masks auto S) = ptrs S"
  using add_item_keys(2) by (metis list.set_map)

lemma example_ptrs: "ptrs example_session = {1, 2, 3, 4}"
  by (simp add: example_session_def pipe_example_def pipe_module_def)

lemma edited_ok: "session_ok edited_session"
proof -
  let ?S = "dev_add_history_item_ext example_dev_env 2 True True False False True example_session"
  have "session_ok ?S" by (rule add_item_ok [OF example_session_ok]) (unfold example_ptrs, simp)
  moreover have "1 \<in> ptrs ?S" unfolding add_item_ptrs example_ptrs by simp
  ultimately show ?thesis unfolding edited_session_def by (rule add_item_ok)
qed

lemma add_item_order_ready:
  "order_ready n (dev_add_history_item_ext E p en ni no_image masks auto S) \<longleftrightarrow> order_ready n S"
proof -
  have "(\<forall>m\<in>set (s_iop X). mod_priority m \<noteq> - 1) \<longleftrightarrow> (\<forall>k\<in>set (map mkey (s_iop X)). snd k \<noteq> - 1)" for X
    by (simp add: mkey_def)
  moreover have "length (s_iop X) = length (map mkey (s_iop X))" for X by simp
  ultimately have "order_ready n X \<longleftrightarrow> distinct (map mkey (s_iop X)) \<and> (\<forall>k\<in>set (map mkey (s_iop X)). snd k \<noteq> - 1) \<and>
      (\<forall>e\<in>set (s_order X). iop_order e \<noteq> INT_MAX) \<and> length (map mkey (s_iop X)) < n" for X
    unfolding order_ready_def by metis
  then show ?thesis by (simp only: add_item_keys)
qed

lemma example_order_ready: "order_ready 5 example_session"
  by (simp add: order_ready_def example_session_def pipe_example_def pipe_module_def pipe_entry_def mkey_def
      eval_nat_numeral)

theorem pop_history_items_spec_witness:
  "\<exists>S'. dt_dev_pop_history_items_ext example_dev_env 5 0 edited_session = Some S' \<and> s_history_end S' = 0"
proof -
  have "order_ready 5 edited_session" by (simp only: edited_session_def add_item_order_ready example_order_ready)
  then show ?thesis using pop_history_items_spec [OF edited_ok, of 5 0 example_dev_env] by auto
qed

text \<open>When the sorted modules have the orders of the old list at every place, sorting did not move any.\<close>

lemma stable_sort_same:
  assumes "map mod_order (g_list_sort dt_sort_iop_by_order ms) = map mod_order ms"
  shows "g_list_sort dt_sort_iop_by_order ms = ms"
proof -
  have "sorted (map mod_order ms)" unfolding assms [symmetric] by (intro module_order.sort_sorted) simp
  then show ?thesis by (simp add: module_order.sort_is_sort_key sort_key_id_if_sorted)
qed

lemma apply_items_frame [simp]:
  "s_changed (fold (apply_item E) hs S) = s_changed S" "s_timestamp (fold (apply_item E) hs S) = s_timestamp S"
  by (induction hs arbitrary: S) (simp_all add: apply_item_def upd_module_def)

lemma replayed_frame [simp]: "s_changed (replayed E k S) = s_changed S" "s_timestamp (replayed E k S) = s_timestamp S"
  by (simp_all add: replayed_def Let_def with_order_part_def reset_modules_def)

lemma pop_frame:
  assumes "order_ready n S"
  shows "\<exists>S1. dt_dev_pop_history_items_ext E n k S = Some S1 \<and>
    s_iop S1 = g_list_sort dt_sort_iop_by_order (map (replay_module (s_order S) (take (nat k) (s_history S))) (s_iop S)) \<and>
    s_changed S1 = s_changed S \<and> s_timestamp S1 = s_timestamp S"
  using replayed_facts(1) [OF assms, of E k]
  by (simp add: pop_replayed [OF assms] dt_masks_replace_current_forms_def)

lemma find_ptr_index:
  "distinct (map mod_ptr ms) \<Longrightarrow> i < length ms \<Longrightarrow> mset ns = mset ms \<Longrightarrow> find (\<lambda>m. mod_ptr m = mod_ptr (ms ! i)) ns = Some (ms ! i)"
proof -
  assume d: "distinct (map mod_ptr ms)" and i: "i < length ms" and perm: "mset ns = mset ms"
  have in': "ms ! i \<in> set ns" using i mset_eq_setD [OF perm] by simp
  then obtain m where m: "find (\<lambda>m. mod_ptr m = mod_ptr (ms ! i)) ns = Some m"
    by (cases "find (\<lambda>m. mod_ptr m = mod_ptr (ms ! i)) ns") (auto simp: find_None_iff)
  then have "m \<in> set ms" "mod_ptr m = mod_ptr (ms ! i)"
    using mset_eq_setD [OF perm] by (auto simp: find_Some_iff)
  then show ?thesis using m d i by (metis distinct_map inj_onD nth_mem)
qed

text \<open>What the comparison of the two lists finds.\<close>

lemma compare_orders:
  assumes "distinct (map mod_ptr ms)" and "s_iop S1 = g_list_sort dt_sort_iop_by_order ms"
  shows "(\<exists>(p, m)\<in>set (zip (map mod_ptr ms) (s_iop S1)). mod_order m \<noteq> mod_order (module_at S1 p)) \<longleftrightarrow>
    map mod_ptr (s_iop S1) \<noteq> map mod_ptr ms"
proof -
  have perm: "mset (s_iop S1) = mset ms" unfolding assms(2) by (simp add: module_order.sort_is_sort_key)
  have len: "length (s_iop S1) = length ms" using mset_eq_length [OF perm] .
  have at: "module_at S1 (mod_ptr (ms ! i)) = ms ! i" if "i < length ms" for i
    using find_ptr_index [OF assms(1) that perm] by (simp add: module_at_def)
  have "(\<exists>(p, m)\<in>set (zip (map mod_ptr ms) (s_iop S1)). mod_order m \<noteq> mod_order (module_at S1 p)) \<longleftrightarrow>
      (\<exists>i<length ms. mod_order (s_iop S1 ! i) \<noteq> mod_order (module_at S1 (mod_ptr (ms ! i))))"
    using len by (force simp: set_zip)
  also have "\<dots> \<longleftrightarrow> map mod_order (s_iop S1) \<noteq> map mod_order ms"
    using at len by (auto simp: list_eq_iff_nth_eq)
  also have "\<dots> \<longleftrightarrow> s_iop S1 \<noteq> ms" using stable_sort_same [of ms] unfolding assms(2) by metis
  also have "s_iop S1 \<noteq> ms \<longleftrightarrow> map mod_ptr (s_iop S1) \<noteq> map mod_ptr ms"
    using assms(1) mset_eq_setD [OF perm] by (metis distinct_map inj_on_map_eq_map sup_idem)
  finally show ?thesis .
qed

lemma pop_items_facts:
  assumes "distinct (map mod_ptr (s_iop S))" and "order_ready n S"
  shows "\<exists>S1. dt_dev_pop_history_items_ext E n k S = Some S1 \<and>
    dt_dev_pop_history_items E n k S = Some (dt_dev_invalidate_all
      (if map mod_ptr (s_iop S1) = map mod_ptr (s_iop S) then dt_dev_pipe_synch_all S1 else dt_dev_pixelpipe_rebuild S1)) \<and>
    s_changed S1 = s_changed S \<and> s_timestamp S1 = s_timestamp S"
proof -
  let ?ms = "map (replay_module (s_order S) (take (nat k) (s_history S))) (s_iop S)"
  obtain S1 where S1: "dt_dev_pop_history_items_ext E n k S = Some S1"
    "s_iop S1 = g_list_sort dt_sort_iop_by_order ?ms" "s_changed S1 = s_changed S" "s_timestamp S1 = s_timestamp S"
    using pop_frame [OF assms(2)] by blast
  have ptrs: "map mod_ptr ?ms = map mod_ptr (s_iop S)" by simp
  have "length (s_iop S1) = length (s_iop S)" unfolding S1(2) by (simp add: module_order.sort_is_sort_key)
  then have "length (map mod_ptr (s_iop S)) \<noteq> length (s_iop S1) \<or>
      (\<exists>(p, m)\<in>set (zip (map mod_ptr (s_iop S)) (s_iop S1)). mod_order m \<noteq> mod_order (module_at S1 p)) \<longleftrightarrow>
      map mod_ptr (s_iop S1) \<noteq> map mod_ptr (s_iop S)"
    unfolding compare_orders [of ?ms S1, unfolded ptrs, OF assms(1) S1(2)] by simp
  then have "dt_dev_pop_history_items E n k S = Some (dt_dev_invalidate_all
      (if map mod_ptr (s_iop S1) = map mod_ptr (s_iop S) then dt_dev_pipe_synch_all S1 else dt_dev_pixelpipe_rebuild S1))"
    by (simp only: dt_dev_pop_history_items_def Let_def S1(1) option.case not_not)
  then show ?thesis using S1 by blast
qed

text \<open>
  Going to a state of the history from the user interface asks the pipes for exactly what is needed: they follow the
  history again when the modules are in the order they were in, and are built anew when any place changed. The comparison sees
  every change although both lists hold the same modules.
\<close>

theorem pop_asks_for_rebuild:
  assumes "session_ok S" and "order_ready n S"
  shows "\<exists>S'. dt_dev_pop_history_items E n k S = Some S' \<and>
    s_changed S' = s_changed S OR
      (if map mod_ptr (s_iop S') = map mod_ptr (s_iop S) then DT_DEV_PIPE_SYNCH else DT_DEV_PIPE_REMOVE) \<and>
    s_dirty S' \<and> s_timestamp S' \<noteq> s_timestamp S"
proof -
  have "distinct (map mod_ptr (s_iop S))" using assms(1) by (simp add: session_ok_def)
  from pop_items_facts [OF this assms(2), where E = E and k = k] obtain S1 where
    "dt_dev_pop_history_items E n k S = Some (dt_dev_invalidate_all
      (if map mod_ptr (s_iop S1) = map mod_ptr (s_iop S) then dt_dev_pipe_synch_all S1 else dt_dev_pixelpipe_rebuild S1))"
    "s_changed S1 = s_changed S" "s_timestamp S1 = s_timestamp S" by blast
  then show ?thesis
    by (simp add: dt_dev_invalidate_all_def dt_dev_pipe_synch_all_def dt_dev_pixelpipe_rebuild_def)
qed

theorem pop_asks_for_rebuild_witness:
  "\<exists>S'. dt_dev_pop_history_items example_dev_env 5 0 example_session = Some S' \<and> s_dirty S' \<and>
     s_timestamp S' \<noteq> s_timestamp example_session"
  using pop_asks_for_rebuild [OF example_session_ok example_order_ready, of example_dev_env 0] by fastforce


section \<open>Editing and going back\<close>

text \<open>A module is in step with the history when it has the parameters the active items give it.\<close>

definition in_step :: "dev_env \<Rightarrow> session \<Rightarrow> nat \<Rightarrow> bool" where
  "in_step E S q \<longleftrightarrow> s_params S q = replay_params E (active_items S) q \<and>
     s_blend S q = replay_blend E (active_items S) q"

text \<open>The active items after adding one: another module is governed by what was active and what was kept.\<close>

lemma last_item_other:
  "it_module (last hs) = p \<Longrightarrow> hs \<noteq> [] \<Longrightarrow> q \<noteq> p \<Longrightarrow> last_item q (butlast hs) = last_item q hs"
  using last_item_simps(2) [of q "butlast hs" "last hs"] by simp

lemma add_item_active:
  fixes E :: dev_env and p :: nat and en ni no_image masks auto :: bool
  assumes "session_ok S" and "p \<in> ptrs S"
  defines "S' \<equiv> dev_add_history_item_ext E p en ni no_image masks auto S"
  shows "active_items S' = s_history S'"
    and "last_item p (active_items S') = Some (last (s_history S'))"
    and "q \<noteq> p \<Longrightarrow> last_item q (active_items S') = last_item q (active_items S @ kept_above E S)"
proof -
  let ?base = "active_items S @ kept_above E S"
  note A = add_item_facts [OF assms(1,2), of E en ni no_image masks auto, folded S'_def active_items_def]
  show act: "active_items S' = s_history S'" using A by (simp add: active_items_def)
  have top: "s_history S' \<noteq> []" "it_module (last (s_history S')) = p" using A by simp_all
  then show "last_item p (active_items S') = Some (last (s_history S'))" unfolding act
    using last_item_simps(2) [of p "butlast (s_history S')" "last (s_history S')"] by simp
  have b: "butlast (s_history S') = ?base \<or>
      ?base \<noteq> [] \<and> it_module (last ?base) = p \<and> butlast (s_history S') = butlast ?base"
    using A by blast
  show "last_item q (active_items S') = last_item q ?base" if q: "q \<noteq> p"
  proof -
    have "last_item q (active_items S') = last_item q (butlast (s_history S'))"
      unfolding act by (rule last_item_other [symmetric]) (use top q in auto)
    also have "\<dots> = last_item q ?base" using b last_item_other [of ?base p q] q by metis
    finally show ?thesis .
  qed
qed

text \<open>
  Recording an edit keeps the session in step with its history: when every module but the edited one was in step,
  and no item above the end is kept, every module is in step afterwards, the edited one included.
\<close>

theorem edit_keeps_in_step:
  assumes "session_ok S" and "p \<in> ptrs S" and "kept_above E S = []"
    and "\<forall>q\<in>ptrs S. q \<noteq> p \<longrightarrow> in_step E S q"
    and "supports_blending (info E p)" and "commit_blend E p (s_blend S p) = s_blend S p"
  shows "\<forall>q\<in>ptrs S. in_step E (dev_add_history_item_ext E p en ni no_image masks auto S) q"
proof
  fix q assume q: "q \<in> ptrs S"
  let ?S' = "dev_add_history_item_ext E p en ni no_image masks auto S"
  note A = add_item_facts [OF assms(1,2), of E en ni no_image masks auto]
  note L = add_item_active [OF assms(1,2), where E = E and en = en and ni = ni and no_image = no_image
      and masks = masks and auto = auto]
  show "in_step E ?S' q"
  proof (cases "q = p")
    case True
    then show ?thesis using A L(2) assms(5,6) by (simp add: in_step_def replay_params_def replay_blend_def)
  next
    case False
    then have "in_step E S q" using assms(4) q by blast
    moreover have "last_item q (active_items ?S') = last_item q (active_items S)" using L(3) [OF False] assms(3) by simp
    ultimately show ?thesis using A by (simp add: in_step_def replay_params_def replay_blend_def)
  qed
qed

text \<open>
  An item above the end of the history that belongs to an always-on module becomes active when another
  module is edited, while the parameters in the module stay what they were: from then on the module is out of step with the
  history, which is what the pixel pipes and a reload of the image follow.
\<close>

theorem kept_item_breaks_step:
  assumes "session_ok S" and "p \<in> ptrs S"
    and "last_item q (active_items S @ kept_above E S) = Some h" and "q \<noteq> p" and "it_params h \<noteq> s_params S q"
  shows "\<not> in_step E (dev_add_history_item_ext E p en ni no_image masks auto S) q \<and>
    replay_params E (active_items (dev_add_history_item_ext E p en ni no_image masks auto S)) q = it_params h"
  using assms add_item_facts [OF assms(1,2), of E en ni no_image masks auto]
    add_item_active(3) [OF assms(1,2,4), where E = E and en = en and ni = ni and no_image = no_image
      and masks = masks and auto = auto]
  by (simp add: in_step_def replay_params_def)

text \<open>
  Undoing an edit: for a state of the history before the last active item, going there after the edit gives every
  module the same parameters and blending parameters as going there without the edit.
\<close>

theorem edit_keeps_earlier_states:
  assumes "session_ok S" and "p \<in> ptrs S" and "order_ready n S" and "0 \<le> k" and "k < s_history_end S"
  shows "\<exists>A B. dt_dev_pop_history_items_ext E n k (dev_add_history_item_ext E p en ni no_image masks auto S) = Some A \<and>
    dt_dev_pop_history_items_ext E n k S = Some B \<and> s_history_end A = k \<and> s_history_end B = k \<and>
    (\<forall>q\<in>ptrs S. s_params A q = s_params B q \<and> s_blend A q = s_blend B q)"
proof -
  let ?S' = "dev_add_history_item_ext E p en ni no_image masks auto S"
  let ?base = "active_items S @ kept_above E S"
  note A = add_item_facts [OF assms(1,2), of E en ni no_image masks auto, folded active_items_def]
  have len: "nat k < length (active_items S)" using assms(1,4,5) by (simp add: active_items_def session_ok_def nat_less_iff)
  have "butlast (s_history ?S') = ?base \<or> butlast (s_history ?S') = butlast ?base" using A by blast
  then have "length (butlast (s_history ?S')) = length ?base \<or> length (butlast (s_history ?S')) = length (butlast ?base)"
    and pre: "take (nat k) (butlast (s_history ?S')) = take (nat k) (active_items S)"
    using len by (metis, auto simp: take_butlast)
  moreover have "length (butlast H) = length ?base \<or> length (butlast H) = length (butlast ?base) \<Longrightarrow> H \<noteq> [] \<Longrightarrow>
      nat k < length H" for H :: "history_item list"
    using len unfolding length_butlast by (cases "length H") auto
  moreover have "s_history ?S' \<noteq> []" using A by blast
  ultimately have long: "nat k < length (s_history ?S')" by blast
  then have same: "take (nat k) (s_history ?S') = take (nat k) (s_history S)"
    using len pre by (simp add: take_butlast active_items_def)
  have k': "k \<le> int (length (s_history ?S'))" using long assms(4) by linarith
  have k: "k \<le> int (length (s_history S))" using assms(1,5) by (simp add: session_ok_def)
  have ready: "order_ready n ?S'" using assms(3) by (simp only: add_item_order_ready)
  obtain X where X: "dt_dev_pop_history_items_ext E n k ?S' = Some X" "s_history_end X = k"
      "\<forall>q\<in>ptrs ?S'. s_params X q = replay_params E (take (nat k) (s_history ?S')) q \<and>
         s_blend X q = replay_blend E (take (nat k) (s_history ?S')) q"
    using pop_facts [OF add_item_ok [OF assms(1,2)] ready assms(4) k', of E]
    by (elim exE conjE) (rule that; assumption)
  obtain Y where Y: "dt_dev_pop_history_items_ext E n k S = Some Y" "s_history_end Y = k"
      "\<forall>q\<in>ptrs S. s_params Y q = replay_params E (take (nat k) (s_history S)) q \<and>
         s_blend Y q = replay_blend E (take (nat k) (s_history S)) q"
    using pop_facts [OF assms(1,3,4) k, of E] by (elim exE conjE) (rule that; assumption)
  show ?thesis using X Y by (intro exI [of _ X] exI [of _ Y]) (simp add: add_item_ptrs same)
qed

definition fresh_session :: "blob \<Rightarrow> session" where
  "fresh_session x = example_session\<lparr>s_params := (\<lambda>p. [0])(2 := x)\<rparr>"

lemma fresh_ok: "session_ok (fresh_session x)" "ptrs (fresh_session x) = {1, 2, 3, 4}" "kept_above E (fresh_session x) = []"
  using example_session_ok example_ptrs
  by (simp_all add: fresh_session_def session_ok_def kept_above_def, simp add: example_session_def)

theorem edit_keeps_in_step_witness:
  "in_step example_dev_env (dev_add_history_item_ext example_dev_env 2 True False False False True (fresh_session [5])) 2"
proof -
  have "\<forall>q\<in>ptrs (fresh_session [5]). q \<noteq> 2 \<longrightarrow> in_step example_dev_env (fresh_session [5]) q"
    unfolding fresh_ok
    by (simp add: in_step_def active_items_def fresh_session_def example_session_def replay_params_def replay_blend_def
        example_dev_env_def)
  then have "\<forall>q\<in>ptrs (fresh_session [5]).
      in_step example_dev_env (dev_add_history_item_ext example_dev_env 2 True False False False True (fresh_session [5])) q"
    by (intro edit_keeps_in_step fresh_ok) (simp_all add: fresh_ok(2) example_dev_env_def)
  then show ?thesis unfolding fresh_ok by blast
qed

text \<open>The module at 1 is always on; its item is above the end.\<close>

definition undone_session :: session where
  "undone_session = (fresh_session [5])\<lparr>s_history :=
     [(new_item_for 1 False example_session)\<lparr>it_params := [7]\<rparr>]\<rparr>"

lemma undone_facts:
  "session_ok undone_session" "ptrs undone_session = {1, 2, 3, 4}" "active_items undone_session = []"
  "kept_above example_dev_env undone_session = [(new_item_for 1 False example_session)\<lparr>it_params := [7]\<rparr>]"
  "s_params undone_session = (\<lambda>p. [0])(2 := [5])" "it_module (new_item_for 1 False example_session) = 1"
proof -
  have mods: "s_iop undone_session = iop pipe_example" "s_history_end undone_session = 0"
    "s_history undone_session = [(new_item_for 1 False example_session)\<lparr>it_params := [7]\<rparr>]"
    by (simp_all add: undone_session_def fresh_session_def example_session_def)
  show params: "s_params undone_session = (\<lambda>p. [0])(2 := [5])"
    by (simp add: undone_session_def fresh_session_def)
  show P: "ptrs undone_session = {1, 2, 3, 4}" unfolding mods by (simp add: pipe_example_def pipe_module_def)
  show item: "it_module (new_item_for 1 False example_session) = 1" by (simp add: new_item_for_def Let_def)
  show "session_ok undone_session" unfolding session_ok_def P mods using item
    by (simp add: pipe_example_def pipe_module_def)
  show "active_items undone_session = []" by (simp add: active_items_def mods)
  show "kept_above example_dev_env undone_session = [(new_item_for 1 False example_session)\<lparr>it_params := [7]\<rparr>]"
    unfolding kept_above_def obsolete_def earlier_entry_def mods using item
    by (simp add: example_dev_env_def module_at_def mods pipe_example_def pipe_module_def)
qed

theorem kept_item_breaks_step_witness:
  "\<not> in_step example_dev_env (dev_add_history_item_ext example_dev_env 2 True False False False True undone_session) 1"
  using kept_item_breaks_step [OF undone_facts(1), of 2 1 example_dev_env
      "(new_item_for 1 False example_session)\<lparr>it_params := [7]\<rparr>" True False False False True] undone_facts(6)
  unfolding undone_facts(2-5) by (simp add: last_item_def)

theorem edit_keeps_earlier_states_witness:
  "\<exists>A B. dt_dev_pop_history_items_ext example_dev_env 5 0
      (dev_add_history_item_ext example_dev_env 2 True False False False True edited_session) = Some A \<and>
    dt_dev_pop_history_items_ext example_dev_env 5 0 edited_session = Some B \<and> s_params A 2 = s_params B 2"
proof -
  have P: "ptrs edited_session = {1, 2, 3, 4}" by (simp only: edited_session_def add_item_ptrs example_ptrs)
  have "order_ready 5 edited_session" by (simp only: edited_session_def add_item_order_ready example_order_ready)
  moreover have "0 < s_history_end edited_session"
  proof -
    let ?S = "dev_add_history_item_ext example_dev_env 2 True True False False True example_session"
    have "session_ok ?S" by (rule add_item_ok [OF example_session_ok]) (unfold example_ptrs, simp)
    moreover have "1 \<in> ptrs ?S" unfolding add_item_ptrs example_ptrs by simp
    ultimately show ?thesis using add_item_facts [of ?S 1 example_dev_env True True False False True]
      unfolding edited_session_def by auto
  qed
  ultimately show ?thesis
    using edit_keeps_earlier_states [OF edited_ok, of 2 5 0 example_dev_env True False False False True]
    unfolding P by blast
qed


section \<open>Shapes of masks\<close>

lemma last_forms_Nil: "last_forms hs = [] \<longleftrightarrow> (\<forall>h\<in>set hs. it_forms h = [])"
  by (induction hs rule: rev_induct) (auto simp: last_forms_def)

lemma pop_order_ready:
  assumes "order_ready n S" and "dt_dev_pop_history_items_ext E n k S = Some S'"
  shows "order_ready n S'"
proof -
  note R = replayed_facts [OF assms(1), where E = E and k = k]
  have S': "s_iop S' = s_iop (replayed E k S)" "s_order S' = ioppr_reset_iop_order (s_order S)"
    using assms(2) R(7) by (auto simp: pop_replayed [OF assms(1)] split: if_splits)
  have "mset (map mkey (s_iop S')) = image_mset mkey (mset (s_iop S'))" by simp
  also have "\<dots> = mset (map mkey (s_iop S))" unfolding S' R(1) by (simp add: multiset.map_comp comp_def)
  finally have M: "mset (map mkey (s_iop S')) = mset (map mkey (s_iop S))" .
  have "(\<forall>m\<in>set (s_iop S'). mod_priority m \<noteq> - 1) \<longleftrightarrow> (\<forall>k\<in>set (map mkey (s_iop S')). snd k \<noteq> - 1)" by (simp add: mkey_def)
  also have "\<dots> \<longleftrightarrow> (\<forall>m\<in>set (s_iop S). mod_priority m \<noteq> - 1)" unfolding mset_eq_setD [OF M] by (simp add: mkey_def)
  finally have pri: "\<forall>m\<in>set (s_iop S'). mod_priority m \<noteq> - 1" using assms(1) by (simp add: order_ready_def)
  have "iop_order e \<noteq> INT_MAX" if "e \<in> set (s_order S')" for e
  proof -
    obtain i where "i < length (s_order S)" "e = ioppr_reset_iop_order (s_order S) ! i"
      using \<open>e \<in> set (s_order S')\<close> unfolding S' by (auto simp: in_set_conv_nth)
    then have "iop_order e = 100 + 100 * int i" by (simp add: reset_nth)
    then show ?thesis by presburger
  qed
  then show ?thesis
    using assms(1) pri mset_eq_imp_distinct_iff [OF M] arg_cong [OF M, of size] by (simp add: order_ready_def)
qed

text \<open>
  Deleting the last shape cannot be recorded: an item without shapes is taken for one that does not change them,
  so after going back to the start and forward again the shapes of an earlier item are there.
\<close>

theorem deleted_shapes_come_back:
  fixes E :: dev_env and en no_image :: bool
  assumes "session_ok S" and "p \<in> ptrs S" and "order_ready n S" and "s_forms S = []"
    and "\<exists>h\<in>set (butlast (active_items S)). it_forms h \<noteq> []"
  defines "S1 \<equiv> dt_dev_add_masks_history_item_ext E (Some p) en no_image S"
  shows "s_forms S1 = [] \<and> (\<exists>S2 S3. dt_dev_pop_history_items_ext E n 0 S1 = Some S2 \<and>
    dt_dev_pop_history_items_ext E n (s_history_end S1) S2 = Some S3 \<and>
    s_history S3 = s_history S1 \<and> s_history_end S3 = s_history_end S1 \<and> s_forms S3 \<noteq> [])"
proof -
  have S1: "S1 = dev_add_history_item_ext E p en False no_image True True S"
    by (simp add: S1_def dt_dev_add_masks_history_item_ext_def)
  note A = add_item_facts [OF assms(1,2), of E en False no_image True True, folded S1 active_items_def]
  have ok: "session_ok S1" and len: "s_history_end S1 = int (length (s_history S1))"
    and b: "butlast (s_history S1) = active_items S @ kept_above E S \<or>
      butlast (s_history S1) = butlast (active_items S @ kept_above E S)"
    using A by blast+
  have ready: "order_ready n S1" using assms(3) by (simp only: S1 add_item_order_ready)
  obtain h where h: "h \<in> set (butlast (active_items S))" "it_forms h \<noteq> []" using assms(5) by blast
  then have "h \<in> set (butlast (s_history S1))" using b by (auto simp: butlast_append dest: in_set_butlastD)
  then have h1: "h \<in> set (s_history S1)" by (rule in_set_butlastD)
  have forms: "s_forms S1 = []" using assms(4) by (simp add: S1 add_item_prepared prepared_facts [OF assms(1)])
  obtain S2 where S2: "dt_dev_pop_history_items_ext E n 0 S1 = Some S2" "s_history S2 = s_history S1" "s_history_end S2 = 0"
    using pop_facts [OF ok ready order_refl of_nat_0_le_iff, of E] by (elim exE conjE) (rule that; assumption)
  have ready2: "order_ready n S2" by (rule pop_order_ready [OF ready S2(1)])
  let ?k = "s_history_end S1"
  have "items_between S2 (s_history_end S2) ?k = s_history S1" by (simp add: items_between_def S2 len)
  then have "dt_dev_pop_history_items_ext E n ?k S2 = Some (dt_masks_replace_current_forms (last_forms (s_history S1)) (replayed E ?k S2))"
    using h(2) h1 by (auto simp: pop_replayed [OF ready2] S2 len)
  moreover have "last_forms (s_history S1) \<noteq> []" using h(2) h1 by (auto simp: last_forms_Nil)
  ultimately show ?thesis using forms S2 replayed_facts(4,5) [OF ready2, where E = E and k = ?k] by auto
qed

definition shaped_session :: session where
  "shaped_session = example_session\<lparr>s_history :=
     [(new_item_for 2 False example_session)\<lparr>it_forms := [\<lparr>f_formid = 7, f_type = 1, f_name = ''circle'',
        f_version = 6, f_has_functions = True, f_points = [[1]], f_source = []\<rparr>]\<rparr>,
      new_item_for 3 False example_session], s_history_end := 2\<rparr>"

theorem deleted_shapes_come_back_witness:
  "\<exists>S2 S3. dt_dev_pop_history_items_ext example_dev_env 5 0
       (dt_dev_add_masks_history_item_ext example_dev_env (Some 2) True False shaped_session) = Some S2 \<and>
     dt_dev_pop_history_items_ext example_dev_env 5
       (s_history_end (dt_dev_add_masks_history_item_ext example_dev_env (Some 2) True False shaped_session)) S2 = Some S3 \<and>
     s_forms S3 \<noteq> []"
proof -
  have P: "ptrs shaped_session = {1, 2, 3, 4}" using example_ptrs by (simp add: shaped_session_def)
  have mods: "it_module (new_item_for p m S) = p" for p m S by (simp add: new_item_for_def Let_def)
  have "session_ok shaped_session" using example_session_ok unfolding session_ok_def P
    by (simp add: shaped_session_def mods)
  moreover have "order_ready 5 shaped_session" using example_order_ready by (simp add: order_ready_def shaped_session_def)
  moreover have "\<exists>h\<in>set (butlast (active_items shaped_session)). it_forms h \<noteq> []" "s_forms shaped_session = []"
    by (simp_all add: active_items_def shaped_session_def example_session_def)
  ultimately show ?thesis
    using deleted_shapes_come_back [of shaped_session 2 5 example_dev_env True False] unfolding P by blast
qed


section \<open>Removing a module\<close>

text \<open>
  Removing a module takes its items out of the history, and keeps the others in order. The end of the history
  moves down by all items removed, also by those that were above it: as many of the last active items of other
  modules are undone, and when there are not enough the end is negative.
\<close>

theorem module_remove_moves_end:
  fixes p :: nat
  assumes "session_ok S"
  defines "others \<equiv> filter (\<lambda>h. it_module h \<noteq> p)"
    and "undone \<equiv> length (filter (\<lambda>h. it_module h = p) (drop (nat (s_history_end S)) (s_history S)))"
  shows "s_history (dt_dev_module_remove True p S) = others (s_history S) \<and>
    mset (s_iop (dt_dev_module_remove True p S)) = filter_mset (\<lambda>m. mod_ptr m \<noteq> p) (mset (s_iop S)) \<and>
    s_history_end (dt_dev_module_remove True p S) = int (length (others (active_items S))) - int undone \<and>
    active_items (dt_dev_module_remove True p S) =
      take (length (others (active_items S)) - undone) (others (active_items S))"
proof -
  let ?H = "s_history S" and ?e = "nat (s_history_end S)"
  have e: "s_history_end S = int ?e" "?e \<le> length ?H" using assms(1) by (auto simp: session_ok_def)
  have count: "length (filter (\<lambda>h. it_module h = p) xs) + length (filter (\<lambda>h. it_module h \<noteq> p) xs) = length xs" for xs
    using sum_length_filter_compl [of "\<lambda>h. it_module h = p" xs] by simp
  have split: "filter Q ?H = filter Q (take ?e ?H) @ filter Q (drop ?e ?H)" for Q
    by (metis append_take_drop_id filter_append)
  have en: "s_history_end (dt_dev_module_remove True p S) = int (length (others (active_items S))) - int undone"
  proof -
    have "length (take ?e ?H) = ?e" using e(2) by simp
    then have "s_history_end S = int (length (filter (\<lambda>h. it_module h = p) (take ?e ?H))) +
        int (length (filter (\<lambda>h. it_module h \<noteq> p) (take ?e ?H)))"
      using count [of "take ?e ?H"] e(1) by linarith
    then show ?thesis using arg_cong [OF split [of "\<lambda>h. it_module h = p"], of length]
      unfolding dt_dev_module_remove_def Let_def others_def undone_def active_items_def by simp
  qed
  have hist: "s_history (dt_dev_module_remove True p S) = others ?H"
    by (simp add: dt_dev_module_remove_def Let_def others_def)
  have "others ?H = others (active_items S) @ others (drop ?e ?H)" unfolding others_def active_items_def by (rule split)
  then have act: "active_items (dt_dev_module_remove True p S) =
      take (length (others (active_items S)) - undone) (others (active_items S))"
    by (simp add: active_items_def [of "dt_dev_module_remove True p S"] en hist nat_diff_distrib')
  have ms: "mset (takeWhile (\<lambda>m. mod_ptr m \<noteq> p) ms @ tl (dropWhile (\<lambda>m. mod_ptr m \<noteq> p) ms)) =
      filter_mset (\<lambda>m. mod_ptr m \<noteq> p) (mset ms)" if "distinct (map mod_ptr ms)" for ms
    using that
  proof (induction ms)
    case (Cons m ms)
    then have "mod_ptr m = p \<Longrightarrow> filter (\<lambda>m. mod_ptr m \<noteq> p) ms = ms" by (intro filter_True) (auto simp: image_iff)
    with Cons show ?case by (cases "mod_ptr m = p") (simp_all flip: mset_filter)
  qed simp
  have "s_iop (dt_dev_module_remove True p S) =
      takeWhile (\<lambda>m. mod_ptr m \<noteq> p) (s_iop S) @ tl (dropWhile (\<lambda>m. mod_ptr m \<noteq> p) (s_iop S))"
    by (simp add: dt_dev_module_remove_def Let_def)
  with ms [of "s_iop S"] assms(1)
  have "mset (s_iop (dt_dev_module_remove True p S)) = filter_mset (\<lambda>m. mod_ptr m \<noteq> p) (mset (s_iop S))"
    by (simp only: session_ok_def)
  then show ?thesis using en hist act by blast
qed

text \<open>A session where the removed module has an item above the end.\<close>

definition removal_session :: session where
  "removal_session = example_session\<lparr>s_history :=
     [new_item_for 2 False example_session, new_item_for 3 False example_session, new_item_for 2 False example_session],
     s_history_end := 2\<rparr>"

theorem module_remove_moves_end_witness:
  "active_items removal_session = [new_item_for 2 False example_session, new_item_for 3 False example_session] \<and>
   s_history (dt_dev_module_remove True 2 removal_session) = [new_item_for 3 False example_session] \<and>
   active_items (dt_dev_module_remove True 2 removal_session) = []"
proof -
  have mods: "it_module (new_item_for p m S) = p" for p m S by (simp add: new_item_for_def Let_def)
  have "session_ok removal_session" using example_session_ok example_ptrs unfolding session_ok_def
    by (simp add: removal_session_def mods)
  from module_remove_moves_end [OF this, of 2] show ?thesis
    by (simp add: removal_session_def active_items_def mods)
qed


section \<open>Writing the history\<close>

text \<open>The specification of a row, column by column, and of the rows of the shapes.\<close>

definition item_row :: "dev_env \<Rightarrow> session \<Rightarrow> int \<Rightarrow> int \<Rightarrow> history_item \<Rightarrow> history_row" where
  "item_row E S imgid num h =
     \<lparr>h_imgid = imgid, h_num = Some num,
      h_module = Some (module_version (info E (it_module h))), h_operation = Some (mod_op (module_at S (it_module h))),
      h_op_params = Some (it_params h), h_enabled = Some (if it_enabled h then 1 else 0),
      h_blendop_params = Some (it_blend_params h), h_blendop_version = Some (blend_version E),
      h_multi_priority = Some (it_multi_priority h), h_multi_name = Some (it_multi_name h),
      h_multi_name_hand_edited = Some (if it_multi_name_hand_edited h then 1 else 0)\<rparr>"

definition item_masks :: "int \<Rightarrow> int \<Rightarrow> history_item \<Rightarrow> masks_history_row list" where
  "item_masks imgid num h =
     map (\<lambda>f. \<lparr>m_imgid = imgid, m_num = Some num, m_formid = Some (f_formid f), m_form = Some (f_type f), m_name = Some (f_name f),
               m_version = Some (f_version f), m_points = Some (concat (f_points f)),
               m_points_count = Some (int (length (f_points f))), m_source = Some (f_source f)\<rparr>) (filter f_has_functions (it_forms h))"

lemma item_row_eq: "item_row E S imgid num h = fill_row E S h (empty_row imgid num)"
  by (simp add: item_row_def fill_row_def empty_row_def dummy_row_def)

lemma item_masks_eq: "item_masks imgid num h = map (form_row imgid num) (filter f_has_functions (it_forms h))"
  by (simp add: item_masks_def form_row_def)

lemma item_row_simps [simp]: "h_num (item_row E S imgid num h) = Some num" "h_imgid (item_row E S imgid num h) = imgid"
  by (simp_all add: item_row_def)

lemma form_row_simps [simp]: "m_imgid (form_row imgid num f) = imgid"
  by (simp add: form_row_def)

lemma write_forms:
  assumes "t_images T imgid \<noteq> None"
  shows "fold (dt_masks_write_masks_history_item imgid num) fs T =
    T\<lparr>t_masks := t_masks T @ map (form_row imgid num) (filter f_has_functions fs)\<rparr>"
  using assms by (induction fs arbitrary: T) (simp_all add: dt_masks_write_masks_history_item_def insert_masks_def)

lemma write_item:
  assumes "t_images T imgid \<noteq> None" and "\<forall>r\<in>set (t_history T). h_imgid r = imgid \<longrightarrow> h_num r \<noteq> Some num"
  shows "dev_write_history_item E S imgid h num T =
    T\<lparr>t_history := t_history T @ [item_row E S imgid num h], t_masks := t_masks T @ item_masks imgid num h\<rparr>"
proof -
  have "map (\<lambda>r. if h_imgid r = imgid \<and> h_num r = Some num then fill_row E S h r else r)
      (t_history T @ [empty_row imgid num]) = t_history T @ [item_row E S imgid num h]"
    using assms(2) by (auto simp: item_row_eq empty_row_def dummy_row_def intro!: map_idI)
  moreover have "h_imgid (empty_row imgid num) = imgid" by (simp add: empty_row_def dummy_row_def)
  ultimately show ?thesis
    using assms by (auto simp: dev_write_history_item_def insert_history_def write_forms item_masks_eq)
qed

primrec stack_rows :: "dev_env \<Rightarrow> session \<Rightarrow> int \<Rightarrow> history_item list \<Rightarrow> int \<Rightarrow> history_row list" where
  "stack_rows E S imgid [] i = []"
| "stack_rows E S imgid (h # hs) i = item_row E S imgid i h # stack_rows E S imgid hs (i + 1)"

primrec stack_masks :: "int \<Rightarrow> history_item list \<Rightarrow> int \<Rightarrow> masks_history_row list" where
  "stack_masks imgid [] i = []"
| "stack_masks imgid (h # hs) i = item_masks imgid i h @ stack_masks imgid hs (i + 1)"

lemma write_items_eq:
  assumes "t_images T imgid \<noteq> None" and "\<forall>r\<in>set (t_history T). h_imgid r = imgid \<longrightarrow> (\<exists>n<i. h_num r = Some n)"
  shows "write_items E S imgid hs i T =
    T\<lparr>t_history := t_history T @ stack_rows E S imgid hs i, t_masks := t_masks T @ stack_masks imgid hs i\<rparr>"
  using assms
proof (induction hs arbitrary: i T)
  case (Cons h hs)
  let ?T = "dev_write_history_item E S imgid h i T"
  have T: "?T = T\<lparr>t_history := t_history T @ [item_row E S imgid i h], t_masks := t_masks T @ item_masks imgid i h\<rparr>"
    using Cons.prems by (intro write_item) auto
  have "\<forall>r\<in>set (t_history ?T). h_imgid r = imgid \<longrightarrow> (\<exists>n<i + 1. h_num r = Some n)"
    using Cons.prems(2) unfolding T by (auto intro: less_trans)
  with Cons.IH [of ?T "i + 1"] Cons.prems(1) show ?case by (simp add: T)
qed simp

lemma stack_rows_nth:
  "length (stack_rows E S imgid hs i) = length hs"
  "k < length hs \<Longrightarrow> stack_rows E S imgid hs i ! k = item_row E S imgid (i + int k) (hs ! k)"
  "stack_rows E S imgid hs i = map (\<lambda>k. item_row E S imgid (i + int k) (hs ! k)) [0..<length hs]"
proof -
  show "stack_rows E S imgid hs i = map (\<lambda>k. item_row E S imgid (i + int k) (hs ! k)) [0..<length hs]"
  proof (induction hs arbitrary: i)
    case (Cons h hs)
    then show ?case by (simp add: upt_conv_Cons map_Suc_upt [symmetric] comp_def algebra_simps del: upt_Suc)
  qed simp
  show "length (stack_rows E S imgid hs i) = length hs" by (induction hs arbitrary: i) auto
  show "k < length hs \<Longrightarrow> stack_rows E S imgid hs i ! k = item_row E S imgid (i + int k) (hs ! k)"
    by (induction hs arbitrary: i k) (auto simp: nth_Cons' algebra_simps)
qed

lemma stack_rows_facts:
  "map h_num (stack_rows E S imgid hs i) = map (\<lambda>k. Some (i + int k)) [0..<length hs]"
  "map row_num (stack_rows E S imgid hs i) = map (\<lambda>k. i + int k) [0..<length hs]"
  "map item (stack_rows E S imgid hs i) = map (\<lambda>h. item (item_row E S imgid 0 h)) hs"
  "\<forall>r\<in>set (stack_rows E S imgid hs i). h_imgid r = imgid \<and> h_num r \<noteq> None"
proof -
  have "item (item_row E S imgid k h) = item (item_row E S imgid 0 h)" for k h
    by (simp add: item_def item_row_def)
  then show "map item (stack_rows E S imgid hs i) = map (\<lambda>h. item (item_row E S imgid 0 h)) hs"
    by (intro nth_equalityI) (simp_all add: stack_rows_nth)
  show "map h_num (stack_rows E S imgid hs i) = map (\<lambda>k. Some (i + int k)) [0..<length hs]"
    "map row_num (stack_rows E S imgid hs i) = map (\<lambda>k. i + int k) [0..<length hs]"
    by (intro nth_equalityI; simp add: stack_rows_nth sql_int_def)+
  show "\<forall>r\<in>set (stack_rows E S imgid hs i). h_imgid r = imgid \<and> h_num r \<noteq> None"
    by (induction hs arbitrary: i) auto
qed

lemma stack_rows_below:
  "filter (\<lambda>r. sql_lt (h_num r) e) (stack_rows E S imgid hs i) = stack_rows E S imgid (take (nat (e - i)) hs) i"
proof (induction hs arbitrary: i)
  case (Cons h hs)
  show ?case
  proof (cases "i < e")
    case True
    then have "nat (e - i) = Suc (nat (e - (i + 1)))" by simp
    with True Cons show ?thesis by (simp add: sql_lt_def)
  next
    case False
    have "filter (\<lambda>r. sql_lt (h_num r) e) (stack_rows E S imgid hs (i + 1)) = []" using False Cons by simp
    with False show ?thesis by (simp add: sql_lt_def)
  qed
qed simp

lemma stack_rows_numbered:
  assumes "0 \<le> i"
  shows "numbered (stack_rows E S imgid hs i)" and "sorted (map row_num (stack_rows E S imgid hs i))"
proof -
  have nums: "map row_num (stack_rows E S imgid hs i) = map (\<lambda>k. i + int k) [0..<length hs]" by (rule stack_rows_facts(2))
  have "row_num r \<in> (\<lambda>k. i + int k) ` {0..<length hs}" if "r \<in> set (stack_rows E S imgid hs i)" for r
    using that arg_cong [OF nums, of set] by (simp only: list.set_map set_upt) (metis imageI)
  then have "\<forall>r\<in>set (stack_rows E S imgid hs i). 0 \<le> row_num r" using assms by fastforce
  moreover have "distinct (map row_num (stack_rows E S imgid hs i))" unfolding nums by (simp add: distinct_map inj_on_def)
  ultimately show "numbered (stack_rows E S imgid hs i)"
    using stack_rows_facts(4) [of E S imgid hs i] by (simp add: numbered_def)
  show "sorted (map row_num (stack_rows E S imgid hs i))" unfolding nums by (simp add: sorted_iff_nth_mono)
qed

lemma stack_masks_img: "\<forall>m\<in>set (stack_masks imgid hs i). m_imgid m = imgid"
  by (induction hs arbitrary: i) (auto simp: item_masks_def)

text \<open>The tables after the history is written.\<close>

lemma write_history_tables:
  fixes E :: dev_env and H :: history_env and S :: session
  assumes "t_images T imgid = Some r"
  defines "T' \<equiv> dt_dev_write_history_ext E H S imgid T"
  shows "img_rows T' imgid = stack_rows E S imgid (s_history S) 0"
    and "img_masks T' imgid = stack_masks imgid (s_history S) 0"
    and "read_history_end T' imgid = s_history_end S"
    and "j \<noteq> imgid \<Longrightarrow> img_rows T' j = img_rows T j \<and> img_masks T' j = img_masks T j \<and> t_images T' j = t_images T j"
proof -
  let ?T0 = "cleanup_history imgid T"
  have W: "write_items E S imgid (s_history S) 0 ?T0 =
      ?T0\<lparr>t_history := t_history ?T0 @ stack_rows E S imgid (s_history S) 0,
          t_masks := t_masks ?T0 @ stack_masks imgid (s_history S) 0\<rparr>"
    by (rule write_items_eq) (use assms(1) in \<open>auto simp: cleanup_history_def\<close>)
  have T': "t_history T' = filter (\<lambda>r. h_imgid r \<noteq> imgid) (t_history T) @ stack_rows E S imgid (s_history S) 0"
    "t_masks T' = filter (\<lambda>r. m_imgid r \<noteq> imgid) (t_masks T) @ stack_masks imgid (s_history S) 0"
    "t_images T' = (t_images T)(imgid := Some (r\<lparr>i_history_end := Some (s_history_end S)\<rparr>))"
    using assms(1)
    unfolding T'_def dt_dev_write_history_ext_def Let_def W hash_write_frame
    by (simp_all add: dt_image_set_history_end_def update_image_def cleanup_history_def)
  have own: "filter (\<lambda>r. h_imgid r = j) (stack_rows E S imgid hs i) = (if j = imgid then stack_rows E S imgid hs i else [])"
    "filter (\<lambda>r. m_imgid r = j) (stack_masks imgid hs i) = (if j = imgid then stack_masks imgid hs i else [])" for hs i j
    using stack_rows_facts(4) [of E S imgid hs i] stack_masks_img [of imgid hs i]
    by (auto simp: filter_empty_conv)
  show "img_rows T' imgid = stack_rows E S imgid (s_history S) 0"
    "img_masks T' imgid = stack_masks imgid (s_history S) 0"
    "read_history_end T' imgid = s_history_end S"
    "j \<noteq> imgid \<Longrightarrow> img_rows T' j = img_rows T j \<and> img_masks T' j = img_masks T j \<and> t_images T' j = t_images T j"
    by (simp_all add: img_rows_def img_masks_def T' own read_history_end_def sql_int_def conj_commute cong: conj_cong)
qed

lemma write_history_keeps_trxid:
  "trxid (dt_dev_write_history E H S imgid L) = trxid L"
  by (simp add: dt_dev_write_history_def dt_database_start_transaction_def dt_database_release_transaction_def on_db_def Let_def)

text \<open>
  C16: Saving a session: the rows of the image in the history table are exactly the items of the session, numbered from 0
  without gaps, each with the operation of its module and the parameters, switch, blending parameters, priority and name it
  records; the items that count are the active ones in their order, and the shapes of every item are stored under its number. What was there
  before is gone, other images are untouched, and the transaction is closed.
\<close>

theorem write_history_spec:
  assumes "t_images (db L) imgid = Some r" and "session_ok S"
  shows "let L' = dt_dev_write_history E H S imgid L in
    map h_num (img_rows (db L') imgid) = map (\<lambda>k. Some (int k)) [0..<length (s_history S)] \<and>
    img_rows (db L') imgid = map (\<lambda>k. item_row E S imgid (int k) (s_history S ! k)) [0..<length (s_history S)] \<and>
    active_stack (db L') imgid = map (\<lambda>h. item (item_row E S imgid 0 h)) (active_items S) \<and>
    numbered (img_rows (db L') imgid) \<and> read_history_end (db L') imgid = s_history_end S \<and>
    img_masks (db L') imgid = stack_masks imgid (s_history S) 0 \<and>
    (\<forall>j. j \<noteq> imgid \<longrightarrow> img_rows (db L') j = img_rows (db L) j \<and> img_masks (db L') j = img_masks (db L) j) \<and>
    trxid L' = trxid L"
proof -
  let ?T = "dt_dev_write_history_ext E H S imgid (db L)"
  have T: "db (dt_dev_write_history E H S imgid L) = ?T" by (simp add: dt_dev_write_history_def)
  note W = write_history_tables [OF assms(1), where E = E and H = H and S = S]
  have "active_stack ?T imgid = map item (sort_key row_num (stack_rows E S imgid (active_items S) 0))"
    unfolding active_stack_def W(1,3) stack_rows_below by (simp add: active_items_def)
  also have "\<dots> = map (\<lambda>h. item (item_row E S imgid 0 h)) (active_items S)"
    using stack_rows_numbered(2) [of 0 E S imgid "active_items S"]
    by (simp add: sort_key_id_if_sorted stack_rows_facts(3))
  finally show ?thesis
    using W stack_rows_numbered(1) [of 0 E S imgid "s_history S"]
    by (simp add: T Let_def stack_rows_facts(1) stack_rows_nth(3) [where i = 0, simplified, symmetric] write_history_keeps_trxid)
qed

theorem write_history_spec_witness:
  "map h_num (img_rows (db (dt_dev_write_history example_dev_env example_env removal_session 1
       (example_library [example_row 0 ''sharpen'' []] [] 1))) 1) = [Some 0, Some 1, Some 2]"
proof -
  have mods: "it_module (new_item_for p m S) = p" for p m S by (simp add: new_item_for_def Let_def)
  have ok: "session_ok removal_session" using example_session_ok example_ptrs unfolding session_ok_def
    by (simp add: removal_session_def mods)
  have im: "\<exists>r. t_images (db (example_library [example_row 0 ''sharpen'' []] [] 1)) 1 = Some r"
    by (simp add: example_library_def)
  have "length (s_history removal_session) = 3" by (simp add: removal_session_def)
  then show ?thesis using im write_history_spec [OF _ ok] by (fastforce simp: Let_def upt_rec)
qed


section \<open>A new instance\<close>

lemma free_name_some:
  "free_name n names k = Some x \<Longrightarrow> x \<notin> set names"
  by (induction n arbitrary: k) (auto simp: Let_def split: if_splits)

lemma free_name_none:
  "free_name n names k = None \<Longrightarrow> i < n \<Longrightarrow> strlcpy 128 (show_int (k + int i)) \<in> set names"
proof (induction n arbitrary: k i)
  case (Suc n)
  have "strlcpy 128 (show_int k) \<in> set names" "free_name n names (k + 1) = None"
    using Suc.prems(1) by (auto simp: Let_def split: if_splits)
  with Suc.IH [of "k + 1"] Suc.prems(2) show ?case by (cases i) (auto simp: add.assoc)
qed simp

lemma free_name_returns:
  assumes "INT_MIN \<le> k" and "k + int (length names) \<le> INT_MAX" and "length names < n"
  shows "\<exists>x. free_name n names k = Some x \<and> x \<notin> set names"
proof (cases "free_name n names k")
  case None
  let ?f = "\<lambda>i. strlcpy 128 (show_int (k + int i))"
  have range: "INT_MIN \<le> k + int i \<and> k + int i \<le> INT_MAX" if "i \<le> length names" for i using assms that by simp
  have f: "?f i = show_int (k + int i)" if "i \<le> length names" for i
  proof -
    have "length (show_int (k + int i)) \<le> 11" by (rule length_show_int) (use range [OF that] in auto)
    then show ?thesis by (intro strlcpy_fits) simp
  qed
  have "inj_on ?f {..length names}"
  proof (rule inj_onI)
    fix i j assume ij: "i \<in> {..length names}" "j \<in> {..length names}" "?f i = ?f j"
    then have "scan_int (show_int (k + int i)) = scan_int (show_int (k + int j))" by (simp add: f)
    moreover have "scan_int (show_int (k + int x)) = Some (k + int x)" if "x \<le> length names" for x
      by (rule scan_show_int) (use range [OF that] in auto)
    ultimately show "i = j" using ij by simp
  qed
  then have "card {..length names} \<le> card (set names)"
    by (rule card_inj_on_le) (use free_name_none [OF None] assms(3) in auto)
  also have "\<dots> \<le> length names" by (rule card_length)
  finally show ?thesis by simp
qed (auto dest: free_name_some)

lemma insert_module_entries:
  "mset (entry_ids (iop_order_list (dt_ioppr_insert_module_instance d m))) =
     add_mset (strlcpy OP_LEN (mod_op m), mod_priority m) (mset (entry_ids (iop_order_list d)))"
  "iop (dt_ioppr_insert_module_instance d m) = iop d"
proof -
  have "mset (take p xs @ e # drop p xs) = add_mset e (mset xs)" for p and xs :: "dt_iop_order_entry_t list" and e
    by (metis append_take_drop_id mset.simps(2) mset_append union_mset_add_mset_right)
  then show "mset (entry_ids (iop_order_list (dt_ioppr_insert_module_instance d m))) =
     add_mset (strlcpy OP_LEN (mod_op m), mod_priority m) (mset (entry_ids (iop_order_list d)))"
    by (simp add: dt_ioppr_insert_module_instance_def Let_def entry_ids_def split: option.split)
  show "iop (dt_ioppr_insert_module_instance d m) = iop d"
    by (simp add: dt_ioppr_insert_module_instance_def Let_def split: option.split)
qed

lemma mset_insert_sorted [simp]: "mset (insert_sorted_iop m xs) = add_mset m (mset xs)"
  by (induction xs) auto

lemma resync_perm:
  "mset (map mkey (iop (dt_ioppr_resync_modules_order d))) = mset (map mkey (iop d))"
  "entry_ids (iop_order_list (dt_ioppr_resync_modules_order d)) = entry_ids (iop_order_list d)"
  by (simp_all add: dt_ioppr_resync_modules_order_def Let_def multiset.map_comp comp_def if_distrib entry_ids_def cong: if_cong)

lemma order_ids_perm: "mset xs = mset ys \<Longrightarrow> mset (entry_ids xs) = mset (entry_ids ys)"
  by (simp add: entry_ids_def)

lemma foldl_max:
  fixes a :: int
  shows "a \<le> foldl max a xs" and "x \<in> set xs \<Longrightarrow> x \<le> foldl max a xs"
    and "a \<le> b \<Longrightarrow> \<forall>x\<in>set xs. x \<le> b \<Longrightarrow> foldl max a xs \<le> b"
proof -
  show le: "a \<le> foldl max a xs" for a :: int and xs
    by (induction xs arbitrary: a) (auto intro: order_trans [OF max.cobounded1])
  show "x \<in> set xs \<Longrightarrow> x \<le> foldl max a xs"
    by (induction xs arbitrary: a) (auto intro: order_trans [OF max.cobounded2 le])
  show "a \<le> b \<Longrightarrow> \<forall>x\<in>set xs. x \<le> b \<Longrightarrow> foldl max a xs \<le> b"
    by (induction xs arbitrary: a) auto
qed

lemma move_iop_after_perm:
  "mset (map mkey (iop (fst (dt_ioppr_move_iop_after d m q)))) = mset (map mkey (iop d))"
  "mset (entry_ids (iop_order_list (fst (dt_ioppr_move_iop_after d m q)))) = mset (entry_ids (iop_order_list d))"
proof -
  have perm: "mset (take k ys @ x # drop k ys) = add_mset x (mset ys)" for k and ys :: "dt_iop_order_entry_t list" and x
    by (metis append_take_drop_id mset.simps(2) mset_append union_mset_add_mset_right)
  have "add_mset (xs ! i) (mset (remove_link i xs)) = mset xs" if "i < length xs" for i and xs :: "dt_iop_order_entry_t list"
    using that by (metis id_take_nth_drop mset.simps(2) mset_append remove_link_def Suc_eq_plus1 union_mset_add_mset_right)
  moreover have "i < length xs" if "dt_ioppr_get_iop_order_link xs a b = Some i" for xs a b i
    using that by (rule link_bound)
  ultimately have moved: "mset (take k (remove_link i xs) @ xs ! i # drop k (remove_link i xs)) = mset xs"
    if "dt_ioppr_get_iop_order_link xs a b = Some i" for xs a b i k
    using that by (simp only: perm)
  have moved_end: "mset (remove_link i xs @ [xs ! i]) = mset xs" if "dt_ioppr_get_iop_order_link xs a b = Some i" for xs a b i
    using moved [OF that, of "length (remove_link i xs)"] by simp
  show "mset (map mkey (iop (fst (dt_ioppr_move_iop_after d m q)))) = mset (map mkey (iop d))"
    by (auto simp: dt_ioppr_move_iop_after_def Let_def resync_perm simp del: mset_map split: option.split)
  show "mset (entry_ids (iop_order_list (fst (dt_ioppr_move_iop_after d m q)))) = mset (entry_ids (iop_order_list d))"
    by (auto simp: dt_ioppr_move_iop_after_def Let_def resync_perm simp del: mset_append mset.simps(2)
        intro!: order_ids_perm moved moved_end split: option.split)
qed

text \<open>
  Duplicating a module returns the new instance: its number is larger than that of every instance of the operation,
  its name is none of theirs, the search of the name ends, the session has exactly one module more and the order
  list exactly one entry more, that of the new instance, wherever it is moved.
\<close>

theorem module_duplicate_spec:
  assumes "base \<in> ptrs S" and "mod_op m0 = mod_op (module_at S base)"
    and "same = filter (\<lambda>m. mod_op m = mod_op m0) (s_iop S)"
    and "\<forall>m\<in>set same. mod_priority m \<le> 1000000000" and "length same < 1000000000" and "length same < n"
  shows "\<exists>S' new. dt_dev_module_duplicate_ext n (Some m0) base reorder S = Some (S', Some new) \<and>
    mod_op new = mod_op m0 \<and> (\<forall>m\<in>set same. mod_priority m < mod_priority new \<and> mod_name m \<noteq> mod_name new) \<and>
    mset (map mkey (s_iop S')) = add_mset (mkey new) (mset (map mkey (s_iop S))) \<and>
    mset (entry_ids (s_order S')) =
      add_mset (strlcpy OP_LEN (mod_op new), mod_priority new) (mset (entry_ids (s_order S))) \<and>
    s_history S' = s_history S \<and> s_params S' = s_params S"
proof -
  define pmax where "pmax = foldl max 0 (map mod_priority same) + 1"
  have p: "\<forall>m\<in>set same. mod_priority m < pmax" "0 < pmax" "pmax \<le> 1000000001"
    using assms(4) foldl_max(1) [of 0 "map mod_priority same"] foldl_max(2) [of _ "map mod_priority same" 0]
      foldl_max(3) [of 0 1000000000 "map mod_priority same"]
    unfolding pmax_def by (fastforce, linarith, simp)
  obtain x where x: "free_name n (map mod_name same) pmax = Some x" "x \<notin> set (map mod_name same)"
    using free_name_returns [of pmax "map mod_name same" n] p assms(5,6) by auto
  define m1 where "m1 = m0\<lparr>mod_priority := pmax\<rparr>"
  define m2 where "m2 = m1\<lparr>mod_name := x, mod_name_hand_edited := False\<rparr>"
  define S1 where "S1 = with_order_part (dt_ioppr_insert_module_instance (order_part S) m1) S"
  define S2 where "S2 = S1\<lparr>s_iop := insert_sorted_iop m2 (s_iop S1)\<rparr>"
  define S3 where "S3 = (if reorder
    then with_order_part (fst (dt_ioppr_move_iop_after (order_part S2) m2 (module_at S base))) S2 else S2)"
  have res: "dt_dev_module_duplicate_ext n (Some m0) base reorder S = Some (S3, Some m2)"
    using x(1) assms(2,3)
    by (simp add: dt_dev_module_duplicate_ext_def Let_def pmax_def m1_def m2_def S1_def S2_def S3_def)
  have k: "mod_op m2 = mod_op m0" "mod_priority m2 = pmax" "mod_name m2 = x" "mkey m2 = mkey m1"
    "mod_op m1 = mod_op m0" "mod_priority m1 = pmax"
    by (simp_all add: m2_def m1_def mkey_def)
  have part: "iop (order_part X) = s_iop X" "iop_order_list (order_part X) = s_order X" for X
    by (simp_all add: order_part_def)
  have S2: "mset (map mkey (s_iop S2)) = add_mset (mkey m2) (mset (map mkey (s_iop S)))"
    "mset (entry_ids (s_order S2)) = add_mset (strlcpy OP_LEN (mod_op m2), mod_priority m2) (mset (entry_ids (s_order S)))"
    "s_history S2 = s_history S" "s_params S2 = s_params S"
    by (simp_all add: S2_def S1_def insert_module_entries part k)
  then have "mset (map mkey (s_iop S3)) = add_mset (mkey m2) (mset (map mkey (s_iop S)))"
    "mset (entry_ids (s_order S3)) = add_mset (strlcpy OP_LEN (mod_op m2), mod_priority m2) (mset (entry_ids (s_order S)))"
    "s_history S3 = s_history S" "s_params S3 = s_params S"
    using move_iop_after_perm [of "order_part S2" m2 "module_at S base"] unfolding S3_def
    by (simp_all only: part with_order_part_simps split: if_split) auto
  moreover have "\<forall>m\<in>set same. mod_name m \<noteq> mod_name m2" using x(2) k(3) by (metis imageI list.set_map)
  ultimately show ?thesis using res p(1) k by (intro exI [of _ S3] exI [of _ m2]) simp
qed

theorem module_duplicate_spec_witness:
  "\<exists>S' new. dt_dev_module_duplicate_ext 3 (Some (pipe_module 9 ''exposure'' 0 False)) 2 True example_session = Some (S', Some new) \<and>
     mod_op new = ''exposure'' \<and> 0 < mod_priority new \<and> mod_name new \<noteq> []"
proof -
  have at: "module_at example_session 2 = pipe_module 2 ''exposure'' 200 False"
    by (simp add: module_at_def example_session_def pipe_example_def pipe_module_def)
  have same: "filter (\<lambda>m. mod_op m = ''exposure'') (s_iop example_session) = [pipe_module 2 ''exposure'' 200 False]"
    by (simp add: example_session_def pipe_example_def pipe_module_def)
  have "mod_op (pipe_module p n i f) = n" "mod_priority (pipe_module p n i f) = 0" "mod_name (pipe_module p n i f) = []"
    for p n i f by (simp_all add: pipe_module_def)
  then show ?thesis
    using module_duplicate_spec [of 2 example_session "pipe_module 9 ''exposure'' 0 False"
        "[pipe_module 2 ''exposure'' 200 False]" 3 True]
    by (auto simp: at same example_ptrs)
qed



section \<open>Sequences of operations\<close>

text \<open>Edits, mask edits and visits of earlier states, in any order.\<close>

inductive session_step :: "dev_env \<Rightarrow> nat \<Rightarrow> session \<Rightarrow> session \<Rightarrow> bool" for E n where
  step_add: "p \<in> ptrs S \<Longrightarrow> session_step E n S (dev_add_history_item_ext E p en ni no_image masks auto S)"
| step_masks: "m = None \<or> m = Some p \<and> p \<in> ptrs S \<Longrightarrow>
    session_step E n S (dt_dev_add_masks_history_item_ext E m en no_image S)"
| step_pop: "0 \<le> k \<Longrightarrow> k \<le> int (length (s_history S)) \<Longrightarrow> dt_dev_pop_history_items_ext E n k S = Some S' \<Longrightarrow>
    session_step E n S S'"

definition session_inv :: "nat \<Rightarrow> session \<Rightarrow> bool" where
  "session_inv n S \<longleftrightarrow> session_ok S \<and> order_ready n S"

lemma add_item_inv: "session_inv n S \<Longrightarrow> p \<in> ptrs S \<Longrightarrow> session_inv n (dev_add_history_item_ext E p en ni no_image masks auto S)"
  by (simp add: session_inv_def add_item_ok add_item_order_ready)

lemma session_step_inv: "session_step E n S S' \<Longrightarrow> session_inv n S \<Longrightarrow> session_inv n S'"
proof (induction rule: session_step.induct)
  case (step_add p S en ni no_image masks auto)
  then show ?case by (simp add: add_item_inv)
next
  case (step_masks m p S en no_image)
  have "mod_ptr x \<in> ptrs S" if "find P (s_iop S) = Some x" for P x
    using that by (auto simp: find_Some_iff)
  with step_masks show ?case
    by (auto simp: dt_dev_add_masks_history_item_ext_def add_item_inv split: option.splits)
next
  case (step_pop k S S')
  then have ok: "session_ok S" and ready: "order_ready n S" by (simp_all add: session_inv_def)
  obtain X where "dt_dev_pop_history_items_ext E n k S = Some X" "session_ok X"
    using pop_facts [OF ok ready step_pop.hyps(1,2), of E] by blast
  then show ?case using step_pop.hyps(3) pop_order_ready [OF ready step_pop.hyps(3)] by (simp add: session_inv_def)
qed

interpretation dev_sessions: invariant_system "session_inv n" "session_step E n" "session_inv n" for E n
  by unfold_locales (auto intro: session_step_inv)

text \<open>
  C31: A session stays well-formed under every sequence of edits, mask edits and visits of earlier states: the modules
  have distinct addresses, every item of the history belongs to a module of the session, and the end of the history lies within
  it; no two modules have the same operation and priority, no priority is -1, no entry of the order list has the order \<open>INT_MAX\<close>, and the fuel
  \<open>n\<close> exceeds the number of modules (\<open>order_ready\<close>); so every state of the history can be visited, and the visit ends.
\<close>

theorem session_stays_well_formed:
  assumes "session_inv n S" and "(session_step E n)\<^sup>*\<^sup>* S T" and "0 \<le> k" and "k \<le> int (length (s_history T))"
  shows "session_ok T \<and> (\<exists>T'. dt_dev_pop_history_items_ext E n k T = Some T' \<and> s_history_end T' = k)"
proof -
  have "session_inv n T" by (rule dev_sessions.reach_invar [OF assms(1,2)])
  then have ok: "session_ok T" "order_ready n T" by (simp_all add: session_inv_def)
  then show ?thesis using pop_facts [OF ok assms(3,4), of E] by blast
qed

theorem session_stays_well_formed_witness:
  "\<exists>T'. dt_dev_pop_history_items_ext example_dev_env 5 0 edited_session = Some T' \<and> s_history_end T' = 0"
proof -
  let ?S = "dev_add_history_item_ext example_dev_env 2 True True False False True example_session"
  have "session_step example_dev_env 5 example_session ?S" by (rule step_add) (simp add: example_ptrs)
  moreover have "session_step example_dev_env 5 ?S edited_session"
    unfolding edited_session_def by (rule step_add) (unfold add_item_ptrs example_ptrs, simp)
  ultimately have run: "(session_step example_dev_env 5)\<^sup>*\<^sup>* example_session edited_session" by simp
  have "session_inv 5 example_session" by (simp add: session_inv_def example_session_ok example_order_ready)
  from session_stays_well_formed [OF this run, of 0] show ?thesis by simp
qed

end
