(* ===== verification/Masks_Groups.thy ===== *)
theory Masks_Groups
  imports Develop_History Pixelpipe_Cache
begin

text \<open>
  Shapes and groups of drawn masks (\<open>src/develop/masks/masks.c\<close>): the look-up of a shape by its number, fresh
  numbers, adding a shape to a group with the check that a group does not contain itself, moving and ungrouping,
  the hash of a group, the cleanup of shapes the history does not use, and reading the shapes of an
  image from the library. A point of a group is the bytes of its structure. Functions that follow groups into
  groups recurse without end on a group that contains itself: they take fuel, and \<open>None\<close> is that they do not return.
\<close>

unbundle bit_operations_syntax

section \<open>Shapes\<close>

definition DT_MASKS_CIRCLE :: "32 word" where "DT_MASKS_CIRCLE = 1"
definition DT_MASKS_PATH :: "32 word" where "DT_MASKS_PATH = 2"
definition DT_MASKS_GROUP :: "32 word" where "DT_MASKS_GROUP = 4"
definition DT_MASKS_CLONE :: "32 word" where "DT_MASKS_CLONE = 8"
definition DT_MASKS_GRADIENT :: "32 word" where "DT_MASKS_GRADIENT = 16"
definition DT_MASKS_ELLIPSE :: "32 word" where "DT_MASKS_ELLIPSE = 32"
definition DT_MASKS_BRUSH :: "32 word" where "DT_MASKS_BRUSH = 64"

definition DT_MASKS_STATE_USE :: "32 word" where "DT_MASKS_STATE_USE = 1"
definition DT_MASKS_STATE_SHOW :: "32 word" where "DT_MASKS_STATE_SHOW = 2"
definition DT_MASKS_STATE_UNION :: "32 word" where "DT_MASKS_STATE_UNION = 8"

definition dt_masks_version :: int where "dt_masks_version = 6"

definition type_word :: "masks_form \<Rightarrow> 32 word" where
  "type_word f = word_of_int (f_type f)"

abbreviation is_group :: "masks_form \<Rightarrow> bool" where
  "is_group f \<equiv> type_word f AND DT_MASKS_GROUP \<noteq> 0"

text \<open>The size of a point of the shapes of a type; other types have no functions.\<close>

definition point_struct_size :: "32 word \<Rightarrow> nat option" where
  "point_struct_size t =
     (if t AND DT_MASKS_CIRCLE \<noteq> 0 then Some 16
      else if t AND DT_MASKS_ELLIPSE \<noteq> 0 then Some 28
      else if t AND DT_MASKS_BRUSH \<noteq> 0 then Some 44
      else if t AND DT_MASKS_PATH \<noteq> 0 then Some 36
      else if t AND DT_MASKS_GRADIENT \<noteq> 0 then Some 28
      else if t AND DT_MASKS_GROUP \<noteq> 0 then Some 16
      else None)"

text \<open>\<open>fid\<close> is the time plus a counter.\<close>

definition dt_masks_create :: "int \<Rightarrow> int \<Rightarrow> masks_form" where
  "dt_masks_create type fid =
     \<lparr>f_formid = fid, f_type = type, f_name = [], f_version = dt_masks_version,
      f_has_functions = point_struct_size (word_of_int type) \<noteq> None, f_points = [], f_source = replicate 8 0\<rparr>"

definition dt_masks_get_from_id_ext :: "masks_form list \<Rightarrow> int \<Rightarrow> masks_form option" where
  "dt_masks_get_from_id_ext fs fid = find (\<lambda>f. f_formid f = fid) fs"





section \<open>Groups\<close>

text \<open>The fields of a point of a group.\<close>

definition pt_formid :: "blob \<Rightarrow> int" where "pt_formid b = le_int32 (take 4 b)"
definition pt_parentid :: "blob \<Rightarrow> int" where "pt_parentid b = le_int32 (take 4 (drop 4 b))"
definition pt_state :: "blob \<Rightarrow> blob" where "pt_state b = take 4 (drop 8 b)"
definition pt_opacity :: "blob \<Rightarrow> blob" where "pt_opacity b = take 4 (drop 12 b)"

definition group_point :: "int \<Rightarrow> int \<Rightarrow> 32 word \<Rightarrow> 32 word \<Rightarrow> blob" where
  "group_point formid parentid state opacity =
     le_bytes 4 (word_of_int formid :: 32 word) @ le_bytes 4 (word_of_int parentid :: 32 word) @
     le_bytes 4 state @ le_bytes 4 opacity"

text \<open>
  How many ways lead from a group to the group \<open>formid\<close>: the count is an \<open>int\<close>, here 32 bits that wrap around.
\<close>

primrec find_in_group :: "nat \<Rightarrow> masks_form list \<Rightarrow> masks_form \<Rightarrow> int \<Rightarrow> 32 word option" where
  "find_in_group 0 fs grp formid = None"
| "find_in_group (Suc n) fs grp formid =
     (if \<not> is_group grp then Some 0
      else if f_formid grp = formid then Some 1
      else foldl (\<lambda>acc pt.
        case acc of
          None \<Rightarrow> None
        | Some nb \<Rightarrow>
            (case dt_masks_get_from_id_ext fs (pt_formid pt) of
               None \<Rightarrow> Some nb
             | Some f \<Rightarrow> if is_group f then map_option ((+) nb) (find_in_group n fs f formid) else Some nb))
        (Some 0) (f_points grp))"

text \<open>The exact number of these ways, which the count agrees with up to the width.\<close>

primrec group_ways :: "nat \<Rightarrow> masks_form list \<Rightarrow> masks_form \<Rightarrow> int \<Rightarrow> nat option" where
  "group_ways 0 fs grp formid = None"
| "group_ways (Suc n) fs grp formid =
     (if is_group grp \<and> f_formid grp \<noteq> formid
      then foldl (\<lambda>acc pt.
        case acc of
          None \<Rightarrow> None
        | Some nb \<Rightarrow>
            (case dt_masks_get_from_id_ext fs (pt_formid pt) of
               None \<Rightarrow> Some nb
             | Some f \<Rightarrow> if is_group f then map_option ((+) nb) (group_ways n fs f formid) else Some nb))
        (Some 0) (f_points grp)
      else Some (of_bool (is_group grp)))"

lemma foldl_map_option:
  assumes "\<And>acc x. x \<in> set xs \<Longrightarrow> g (map_option h acc) x = map_option h (f acc x)"
  shows "foldl g (map_option h acc) xs = map_option h (foldl f acc xs)"
  using assms by (induction xs arbitrary: acc) simp_all

lemma find_in_group_counts:
  "find_in_group n fs grp formid = map_option of_nat (group_ways n fs grp formid)"
proof (induction n arbitrary: grp)
  case (Suc n)
  let ?g = "\<lambda>acc pt. case acc of None \<Rightarrow> None | Some nb \<Rightarrow>
      (case dt_masks_get_from_id_ext fs (pt_formid pt) of None \<Rightarrow> Some nb
       | Some f \<Rightarrow> if is_group f then map_option ((+) nb) (find_in_group n fs f formid) else Some nb)"
  let ?f = "\<lambda>acc pt. case acc of None \<Rightarrow> None | Some nb \<Rightarrow>
      (case dt_masks_get_from_id_ext fs (pt_formid pt) of None \<Rightarrow> Some nb
       | Some f \<Rightarrow> if is_group f then map_option ((+) nb) (group_ways n fs f formid) else Some nb)"
  have "foldl ?g (map_option of_nat (Some 0)) (f_points grp) = map_option of_nat (foldl ?f (Some 0) (f_points grp))"
    by (rule foldl_map_option) (auto simp: Suc.IH option.map_comp comp_def split: option.split)
  then show ?case by simp
qed simp

text \<open>
  The result is the group with the new point; \<open>None\<close> inside is a refused shape. \<open>opacity\<close> is the bits of the configured one.
\<close>

definition dt_masks_group_add_form ::
  "nat \<Rightarrow> masks_form list \<Rightarrow> 32 word \<Rightarrow> masks_form \<Rightarrow> masks_form \<Rightarrow> masks_form option option" where
  "dt_masks_group_add_form n fs opacity grp form =
     (if \<not> is_group grp then Some None
      else
        let add = grp\<lparr>f_points := f_points grp @ [group_point (f_formid form) (f_formid grp)
              ((DT_MASKS_STATE_SHOW OR DT_MASKS_STATE_USE) OR (if f_points grp \<noteq> [] then DT_MASKS_STATE_UNION else 0))
              opacity]\<rparr>
        in if \<not> is_group form then Some (Some add)
           else map_option (\<lambda>nb. if nb = 0 then Some add else None) (find_in_group n fs form (f_formid grp)))"

text \<open>The changed group in the list of shapes.\<close>

definition put_form :: "masks_form \<Rightarrow> masks_form list \<Rightarrow> masks_form list" where
  "put_form g fs = map (\<lambda>f. if f_formid f = f_formid g then g else f) fs"

text \<open>The points that \<open>dt_masks_group_ungroup\<close> appends to a group that is not among those it follows.\<close>

primrec dt_masks_group_ungroup :: "nat \<Rightarrow> masks_form list \<Rightarrow> masks_form \<Rightarrow> blob list option" where
  "dt_masks_group_ungroup 0 fs grp = None"
| "dt_masks_group_ungroup (Suc n) fs grp =
     (if \<not> is_group grp then Some []
      else foldl (\<lambda>acc pt.
        case acc of
          None \<Rightarrow> None
        | Some pts \<Rightarrow>
            (case dt_masks_get_from_id_ext fs (pt_formid pt) of
               None \<Rightarrow> Some pts
             | Some f \<Rightarrow>
                 if is_group f then map_option (\<lambda>ps. pts @ ps) (dt_masks_group_ungroup n fs f)
                 else Some (pts @ [pt])))
        (Some []) (f_points grp))"

text \<open>Moving a shape by one place.\<close>

definition dt_masks_form_move :: "masks_form \<Rightarrow> int \<Rightarrow> bool \<Rightarrow> masks_form" where
  "dt_masks_form_move grp formid up =
     (let pos = length (takeWhile (\<lambda>pt. pt_formid pt \<noteq> formid) (f_points grp));
          n = length (f_points grp)
      in if \<not> is_group grp \<or> pos = n \<or> \<not> up \<and> pos = 0 \<or> up \<and> pos = n - 1 then grp
         else let pt = f_points grp ! pos;
                  rest = take pos (f_points grp) @ drop (pos + 1) (f_points grp);
                  q = (if up then pos + 1 else pos - 1)
              in grp\<lparr>f_points := take q rest @ pt # drop q rest\<rparr>)"

primrec dt_masks_group_hash :: "nat \<Rightarrow> masks_form list \<Rightarrow> 64 word \<Rightarrow> masks_form \<Rightarrow> 64 word option" where
  "dt_masks_group_hash 0 fs hash form = None"
| "dt_masks_group_hash (Suc n) fs hash form =
     (let h1 = dt_hash hash (le_bytes 4 (type_word form));
          h2 = dt_hash h1 (le_bytes 4 (word_of_int (f_formid form) :: 32 word));
          h3 = dt_hash h2 (le_bytes 4 (word_of_int (f_version form) :: 32 word));
          h4 = dt_hash h3 (f_source form)
      in foldl (\<lambda>acc pt.
           case acc of
             None \<Rightarrow> None
           | Some h \<Rightarrow>
               if is_group form
               then (case dt_masks_get_from_id_ext fs (pt_formid pt) of
                       None \<Rightarrow> Some h
                     | Some f \<Rightarrow> dt_masks_group_hash n fs (dt_hash (dt_hash h (pt_state pt)) (pt_opacity pt)) f)
               else if f_has_functions form then Some (dt_hash h pt) else Some h)
           (Some h4) (f_points form))"


text \<open>The hash of the mask with a number, with fuel that is enough when no group contains itself.\<close>

definition mask_group_hash :: "masks_form list \<Rightarrow> int \<Rightarrow> 64 word \<Rightarrow> 64 word" where
  "mask_group_hash fs mask_id hash =
     (case dt_masks_get_from_id_ext fs mask_id of
        None \<Rightarrow> hash
      | Some grp \<Rightarrow> the (dt_masks_group_hash (Suc (length fs)) fs hash grp))"


section \<open>Shapes that are not used\<close>

text \<open>The table of used numbers, as long as the list of shapes, filled from the left; 0 is a free place.\<close>

primrec note_used :: "int \<Rightarrow> int list \<Rightarrow> int list" where
  "note_used fid [] = []"
| "note_used fid (u # us) = (if u = 0 then fid # us else if u = fid then u # us else u # note_used fid us)"

primrec table_has :: "int \<Rightarrow> int list \<Rightarrow> bool" where
  "table_has fid [] = False"
| "table_has fid (u # us) = (if u = fid then True else if u = 0 then False else table_has fid us)"

primrec cleanup_unused_recurs :: "nat \<Rightarrow> masks_form list \<Rightarrow> int \<Rightarrow> int list \<Rightarrow> int list option" where
  "cleanup_unused_recurs 0 fs formid used = None"
| "cleanup_unused_recurs (Suc n) fs formid used =
     (let used1 = note_used formid used
      in case dt_masks_get_from_id_ext fs formid of
           None \<Rightarrow> Some used1
         | Some f \<Rightarrow>
             if is_group f
             then foldl (\<lambda>acc pt. case acc of None \<Rightarrow> None | Some us \<Rightarrow> cleanup_unused_recurs n fs (pt_formid pt) us)
                    (Some used1) (f_points f)
             else Some used1)"

text \<open>\<open>mask_id\<close> is at byte 24 of the blending parameters.\<close>

definition blend_mask_id :: "blob \<Rightarrow> int" where
  "blend_mask_id b = le_int32 (take 4 (drop 24 b))"

definition masks_cleanup_unused ::
  "nat \<Rightarrow> masks_form list \<Rightarrow> history_item list \<Rightarrow> int \<Rightarrow> (masks_form list \<times> bool) option" where
  "masks_cleanup_unused n fs items history_end =
     (let used = foldl (\<lambda>acc h.
            case acc of
              None \<Rightarrow> None
            | Some us \<Rightarrow> if 0 < blend_mask_id (it_blend_params h)
                         then cleanup_unused_recurs n fs (blend_mask_id (it_blend_params h)) us else Some us)
            (Some (replicate (length fs) 0)) (take (nat history_end) items)
      in case used of
           None \<Rightarrow> None
         | Some us \<Rightarrow> Some (filter (\<lambda>f. table_has (f_formid f) us) fs, \<exists>f\<in>set fs. \<not> table_has (f_formid f) us))"

text \<open>From the last item down; \<open>k\<close> items are left and \<open>history_end\<close> is where the shapes of the item end to be the current ones.\<close>

primrec cleanup_items :: "nat \<Rightarrow> nat \<Rightarrow> int \<Rightarrow> history_item list \<Rightarrow> history_item list option" where
  "cleanup_items n 0 history_end items = Some items"
| "cleanup_items n (Suc k) history_end items =
     (let h = items ! k
      in if it_forms h \<noteq> [] \<and> it_op_name h = ''mask_manager''
         then case masks_cleanup_unused n (it_forms h) items history_end of
                None \<Rightarrow> None
              | Some (fs, _) \<Rightarrow> cleanup_items n k (int k) (items[k := h\<lparr>it_forms := fs\<rparr>])
         else cleanup_items n k history_end items)"

definition dt_masks_cleanup_unused_from_list :: "nat \<Rightarrow> history_item list \<Rightarrow> history_item list option" where
  "dt_masks_cleanup_unused_from_list n items = cleanup_items n (length items) (int (length items)) items"

definition dt_masks_cleanup_unused :: "dev_env \<Rightarrow> dev_gui \<Rightarrow> nat \<Rightarrow> session \<Rightarrow> session option" where
  "dt_masks_cleanup_unused E G n S =
     (case dt_masks_cleanup_unused_from_list n (s_history S) of
        None \<Rightarrow> None
      | Some items \<Rightarrow>
          let active = take (nat (s_history_end S)) items;
              module = foldl (\<lambda>m h. if it_op_name h \<noteq> ''mask_manager'' then Some (it_module h) else m) None active;
              S1 = dt_masks_replace_current_forms (last_forms active) (S\<lparr>s_history := items\<rparr>)
          in Some (case module of
               Some p \<Rightarrow> dt_dev_add_history_item E G p (mod_enabled (module_at S1 p)) S1
             | None \<Rightarrow> dt_dev_add_masks_history_item E G None True S1))"


section \<open>Reading the shapes of an image\<close>

text \<open>
  A \<open>memcpy\<close> of each point; the column holds their bytes one after another. Rows as the program writes them: name, source
  and points are there.
\<close>

definition split_points :: "nat \<Rightarrow> nat \<Rightarrow> blob \<Rightarrow> blob list" where
  "split_points nb sz b = map (\<lambda>i. take sz (drop (i * sz) b)) [0..<nb]"

definition form_of_row :: "masks_history_row \<Rightarrow> masks_form" where
  "form_of_row r =
     (let f = dt_masks_create (sql_int (m_form r)) (sql_int (m_formid r))
      in f\<lparr>f_name := strlcpy 128 (case m_name r of None \<Rightarrow> [] | Some s \<Rightarrow> s), f_version := sql_int (m_version r),
           f_source := take 8 (case m_source r of None \<Rightarrow> [] | Some b \<Rightarrow> b),
           f_points := (case point_struct_size (type_word f) of
                          None \<Rightarrow> []
                        | Some sz \<Rightarrow> split_points (nat (sql_int (m_points_count r))) sz
                                         (case m_points r of None \<Rightarrow> [] | Some b \<Rightarrow> b))\<rparr>)"

text \<open>
  The rows of the image below the end of the history, by number. \<open>items\<close> is the history, each item with its number;
  \<open>hist_item\<close> and \<open>hist_item_last\<close> are positions in it, the second that of the item whose shapes become the current
  ones. Without a snapshot.
\<close>

record mask_reader =
  rd_items :: "(int \<times> history_item) list"
  rd_num_prev :: int
  rd_hist_item :: "nat option"
  rd_hist_item_last :: "nat option"

definition find_num :: "int \<Rightarrow> (int \<times> history_item) list \<Rightarrow> nat option" where
  "find_num num items = (let k = length (takeWhile (\<lambda>p. fst p \<noteq> num) items) in if k < length items then Some k else None)"

definition add_form_at :: "masks_form \<Rightarrow> nat \<Rightarrow> (int \<times> history_item) list \<Rightarrow> (int \<times> history_item) list" where
  "add_form_at f k items = items[k := (fst (items ! k), (snd (items ! k))\<lparr>it_forms := it_forms (snd (items ! k)) @ [f]\<rparr>)]"

definition read_mask_row :: "int \<Rightarrow> mask_reader \<Rightarrow> masks_history_row \<Rightarrow> mask_reader" where
  "read_mask_row history_end R r =
     (let num = sql_int (m_num r); f = form_of_row r
      in if f_version f \<noteq> dt_masks_version then R
         else let R1 = (if rd_num_prev R \<noteq> num
                        then R\<lparr>rd_hist_item := find_num num (rd_items R), rd_num_prev := num\<rparr> else R);
                  R2 = (case rd_hist_item R1 of
                          Some k \<Rightarrow> R1\<lparr>rd_items := add_form_at f k (rd_items R1)\<rparr>
                        | None \<Rightarrow> R1)
              in if num < history_end then R2\<lparr>rd_hist_item_last := rd_hist_item R2\<rparr> else R2)"

definition dt_masks_read_masks_history ::
  "int \<Rightarrow> tables \<Rightarrow> int \<Rightarrow> (int \<times> history_item) list \<Rightarrow> (int \<times> history_item) list \<times> masks_form list" where
  "dt_masks_read_masks_history imgid T history_end items =
     (let rows = sort_key (\<lambda>r. sql_int (m_num r))
            (filter (\<lambda>r. sql_lt (m_num r) history_end) (img_masks T imgid));
          R = foldl (read_mask_row history_end)
            \<lparr>rd_items = items, rd_num_prev = - 1, rd_hist_item = None, rd_hist_item_last = None\<rparr> rows
      in (rd_items R,
          dt_masks_dup_forms_deep
            (case rd_hist_item_last R of None \<Rightarrow> [] | Some k \<Rightarrow> it_forms (snd (rd_items R ! k))) None))"


section \<open>Fresh numbers\<close>





section \<open>Groups that do not contain themselves\<close>

text \<open>From a group to the shapes it contains, for the shapes that exist.\<close>

definition child :: "masks_form list \<Rightarrow> int \<Rightarrow> int \<Rightarrow> bool" where
  "child fs a b \<longleftrightarrow> (\<exists>f g. dt_masks_get_from_id_ext fs a = Some f \<and> is_group f \<and> b \<in> pt_formid ` set (f_points f) \<and>
     dt_masks_get_from_id_ext fs b = Some g)"

definition no_self_inclusion :: "masks_form list \<Rightarrow> bool" where
  "no_self_inclusion fs \<longleftrightarrow> (\<forall>a. \<not> (child fs)\<^sup>+\<^sup>+ a a)"

lemma get_from_id: "dt_masks_get_from_id_ext fs i = Some f \<Longrightarrow> f \<in> set fs \<and> f_formid f = i"
  by (auto simp: dt_masks_get_from_id_ext_def find_Some_iff)

lemma get_distinct: "distinct (map f_formid fs) \<Longrightarrow> f \<in> set fs \<Longrightarrow> dt_masks_get_from_id_ext fs (f_formid f) = Some f"
  unfolding dt_masks_get_from_id_ext_def by (induction fs) force+

text \<open>Without self-inclusion, following groups is well-founded.\<close>

lemma child_wf:
  assumes "no_self_inclusion fs"
  shows "wf {(b, a). child fs a b}"
proof (rule finite_acyclic_wf)
  have "{(b, a). child fs a b} \<subseteq> (f_formid ` set fs) \<times> (f_formid ` set fs)"
    by (auto simp: child_def dest!: get_from_id) (metis imageI)
  then show "finite {(b, a). child fs a b}" by (rule finite_subset) simp
  have "(a, a) \<notin> {(b, a). child fs a b}\<^sup>+" for a
  proof
    assume "(a, a) \<in> {(b, a). child fs a b}\<^sup>+"
    moreover have "{(b, a). child fs a b} = {(a, b). child fs a b}\<inverse>" by auto
    ultimately have "(a, a) \<in> {(a, b). child fs a b}\<^sup>+" by (metis trancl_converse converse_iff)
    then show False using assms by (simp add: no_self_inclusion_def tranclp_unfold)
  qed
  then show "acyclic {(b, a). child fs a b}" by (simp add: acyclic_def)
qed

lemma foldl_not_None:
  assumes "\<And>x y. x \<in> set xs \<Longrightarrow> step (Some y) x \<noteq> None"
  shows "foldl step (Some y) xs \<noteq> None"
  using assms
proof (induction xs arbitrary: y)
  case (Cons x xs)
  then obtain z where "step (Some y) x = Some z" by fastforce
  with Cons show ?case by simp
qed simp

text \<open>
  A function that follows groups returns for enough fuel when it does for what it finds in the points of a group. The
  argument is the same for all of them.
\<close>

lemma follow_groups:
  assumes "no_self_inclusion fs"
    and step: "\<And>n a f. dt_masks_get_from_id_ext fs a = Some f \<Longrightarrow>
      (\<And>b g. child fs a b \<Longrightarrow> dt_masks_get_from_id_ext fs b = Some g \<Longrightarrow> ok n g) \<Longrightarrow> ok (Suc n) f"
    and f: "dt_masks_get_from_id_ext fs a = Some f"
  shows "\<forall>\<^sub>F n in sequentially. ok n f"
  using f
proof (induction a arbitrary: f rule: wf_induct_rule [OF child_wf [OF assms(1)]])
  case (1 a)
  have "finite {b. child fs a b}"
  proof (rule finite_subset)
    show "{b. child fs a b} \<subseteq> f_formid ` set fs" by (auto simp: child_def dest!: get_from_id) (metis imageI)
  qed simp
  moreover have "\<forall>b\<in>{b. child fs a b}. \<forall>\<^sub>F n in sequentially. \<forall>g. dt_masks_get_from_id_ext fs b = Some g \<longrightarrow> ok n g"
  proof
    fix b assume b: "b \<in> {b. child fs a b}"
    then obtain g where g: "dt_masks_get_from_id_ext fs b = Some g" by (auto simp: child_def)
    then have "\<forall>\<^sub>F n in sequentially. ok n g" using 1 b by simp
    then show "\<forall>\<^sub>F n in sequentially. \<forall>g. dt_masks_get_from_id_ext fs b = Some g \<longrightarrow> ok n g"
      by (rule eventually_mono) (use g in auto)
  qed
  ultimately have "\<forall>\<^sub>F n in sequentially. \<forall>b\<in>{b. child fs a b}. \<forall>g. dt_masks_get_from_id_ext fs b = Some g \<longrightarrow> ok n g"
    by (rule eventually_ball_finite)
  then have "\<forall>\<^sub>F n in sequentially. ok (Suc n) f"
    by (rule eventually_mono) (use step [OF 1(2)] in auto)
  then show ?case by (rule eventually_sequentially_Suc [THEN iffD1])
qed

lemma child_point:
  "dt_masks_get_from_id_ext fs a = Some f \<Longrightarrow> is_group f \<Longrightarrow> pt \<in> set (f_points f) \<Longrightarrow>
    dt_masks_get_from_id_ext fs (pt_formid pt) = Some g \<Longrightarrow> child fs a (pt_formid pt)"
  by (auto simp: child_def)

lemma group_hash_returns:
  assumes "no_self_inclusion fs" and "dt_masks_get_from_id_ext fs a = Some f"
  shows "\<forall>\<^sub>F n in sequentially. \<forall>h. dt_masks_group_hash n fs h f \<noteq> None"
proof (rule follow_groups [OF assms(1) _ assms(2)], intro allI)
  fix n a f h
  assume f: "dt_masks_get_from_id_ext fs a = Some f"
    and sub: "\<And>b g. child fs a b \<Longrightarrow> dt_masks_get_from_id_ext fs b = Some g \<Longrightarrow> \<forall>h. dt_masks_group_hash n fs h g \<noteq> None"
  have sub': "\<exists>y. dt_masks_group_hash n fs h g = Some y"
    if "is_group f" "pt \<in> set (f_points f)" "dt_masks_get_from_id_ext fs (pt_formid pt) = Some g" for pt g h
    using sub [OF child_point [OF f that] that(3)] by auto
  show "dt_masks_group_hash (Suc n) fs h f \<noteq> None"
    unfolding dt_masks_group_hash.simps Let_def
    by (rule foldl_not_None) (auto split: option.split intro: sub')
qed

lemma reach_ids: "(child fs)\<^sup>+\<^sup>+ a b \<Longrightarrow> b \<in> f_formid ` set fs"
proof (induction rule: tranclp.induct)
  case (r_into_trancl a b)
  then obtain g where "dt_masks_get_from_id_ext fs b = Some g" by (auto simp: child_def)
  then show ?case using get_from_id by blast
next
  case (trancl_into_trancl a b c)
  then obtain g where "dt_masks_get_from_id_ext fs c = Some g" by (auto simp: child_def)
  then show ?case using get_from_id by blast
qed

lemma group_hash_enough:
  assumes "no_self_inclusion fs" and "dt_masks_get_from_id_ext fs a = Some f" and "card {b. (child fs)\<^sup>+\<^sup>+ a b} < n"
  shows "dt_masks_group_hash n fs h f \<noteq> None"
  using assms(2,3)
proof (induction n arbitrary: a f h)
  case (Suc n)
  have fin: "finite {b. (child fs)\<^sup>+\<^sup>+ c b}" for c
    by (rule finite_subset [of _ "f_formid ` set fs"]) (use reach_ids in auto)
  have sub: "\<exists>y. dt_masks_group_hash n fs h g = Some y"
    if "is_group f" "pt \<in> set (f_points f)" "dt_masks_get_from_id_ext fs (pt_formid pt) = Some g" for pt g h
  proof -
    have c: "child fs a (pt_formid pt)" by (rule child_point [OF Suc.prems(1) that])
    define A B where "A = {b. (child fs)\<^sup>+\<^sup>+ (pt_formid pt) b}" and "B = {b. (child fs)\<^sup>+\<^sup>+ a b}"
    have "A \<subseteq> B" using tranclp_into_tranclp2 [where r = "child fs", OF c] unfolding A_def B_def by blast
    moreover have "pt_formid pt \<in> B" using c unfolding B_def by blast
    moreover have "pt_formid pt \<notin> A" using assms(1) unfolding A_def by (simp add: no_self_inclusion_def)
    ultimately have "A \<subset> B" by blast
    then have "card A < card B" unfolding B_def by (rule psubset_card_mono [OF fin])
    then have "card {b. (child fs)\<^sup>+\<^sup>+ (pt_formid pt) b} < n"
      using Suc.prems(2) unfolding A_def B_def by simp
    from Suc.IH [OF that(3) this] show ?thesis by auto
  qed
  show ?case
    unfolding dt_masks_group_hash.simps Let_def
    by (rule foldl_not_None) (auto split: option.split intro: sub)
qed simp

lemma mask_group_hash_returns:
  assumes "no_self_inclusion fs" and "dt_masks_get_from_id_ext fs a = Some f"
  shows "dt_masks_group_hash (Suc (length fs)) fs h f = Some (mask_group_hash fs a h)"
proof -
  have "{b. (child fs)\<^sup>+\<^sup>+ a b} \<subseteq> f_formid ` set fs"
    using reach_ids by auto
  then have "card {b. (child fs)\<^sup>+\<^sup>+ a b} \<le> card (f_formid ` set fs)" by (intro card_mono) auto
  also have "\<dots> \<le> length fs" by (metis card_length list.set_map length_map)
  finally show ?thesis
    using group_hash_enough [OF assms, of "Suc (length fs)" h] assms(2) by (auto simp: mask_group_hash_def)
qed

lemma group_ways_returns:
  assumes "no_self_inclusion fs" and "dt_masks_get_from_id_ext fs a = Some f"
  shows "\<forall>\<^sub>F n in sequentially. \<forall>fid. group_ways n fs f fid \<noteq> None"
proof (rule follow_groups [OF assms(1) _ assms(2)], intro allI)
  fix n a f fid
  assume f: "dt_masks_get_from_id_ext fs a = Some f"
    and sub: "\<And>b g. child fs a b \<Longrightarrow> dt_masks_get_from_id_ext fs b = Some g \<Longrightarrow> \<forall>fid. group_ways n fs g fid \<noteq> None"
  have sub': "\<exists>y. group_ways n fs g fid = Some y"
    if "is_group f" "pt \<in> set (f_points f)" "dt_masks_get_from_id_ext fs (pt_formid pt) = Some g" for pt g
    using sub [OF child_point [OF f that] that(3)] by auto
  have "foldl (\<lambda>acc pt. case acc of None \<Rightarrow> None | Some nb \<Rightarrow>
      (case dt_masks_get_from_id_ext fs (pt_formid pt) of None \<Rightarrow> Some nb
       | Some f \<Rightarrow> if is_group f then map_option ((+) nb) (group_ways n fs f fid) else Some nb))
      (Some 0) (f_points f) \<noteq> None" if "is_group f"
    by (rule foldl_not_None) (use that in \<open>auto split: option.split intro: sub'\<close>)
  then show "group_ways (Suc n) fs f fid \<noteq> None" by simp
qed

lemma ungroup_returns:
  assumes "no_self_inclusion fs" and "dt_masks_get_from_id_ext fs a = Some f"
  shows "\<forall>\<^sub>F n in sequentially. dt_masks_group_ungroup n fs f \<noteq> None"
proof (rule follow_groups [OF assms(1) _ assms(2)])
  fix n a f
  assume f: "dt_masks_get_from_id_ext fs a = Some f"
    and sub: "\<And>b g. child fs a b \<Longrightarrow> dt_masks_get_from_id_ext fs b = Some g \<Longrightarrow> dt_masks_group_ungroup n fs g \<noteq> None"
  have sub': "\<exists>y. dt_masks_group_ungroup n fs g = Some y"
    if "is_group f" "pt \<in> set (f_points f)" "dt_masks_get_from_id_ext fs (pt_formid pt) = Some g" for pt g
    using sub [OF child_point [OF f that] that(3)] by auto
  have "foldl (\<lambda>acc pt. case acc of None \<Rightarrow> None | Some pts \<Rightarrow>
      (case dt_masks_get_from_id_ext fs (pt_formid pt) of None \<Rightarrow> Some pts
       | Some f \<Rightarrow> if is_group f then map_option (\<lambda>ps. pts @ ps) (dt_masks_group_ungroup n fs f) else Some (pts @ [pt])))
      (Some []) (f_points f) \<noteq> None" if "is_group f"
    by (rule foldl_not_None) (use that in \<open>auto split: option.split intro: sub'\<close>)
  then show "dt_masks_group_ungroup (Suc n) fs f \<noteq> None" by simp
qed

lemma cleanup_recurs_returns:
  assumes "no_self_inclusion fs"
  shows "\<forall>\<^sub>F n in sequentially. \<forall>us. cleanup_unused_recurs n fs a us \<noteq> None"
proof (cases "dt_masks_get_from_id_ext fs a")
  case None
  then have "\<forall>us. cleanup_unused_recurs (Suc n) fs a us \<noteq> None" for n by (simp add: Let_def)
  then have "\<forall>\<^sub>F n in sequentially. \<forall>us. cleanup_unused_recurs (Suc n) fs a us \<noteq> None" by simp
  then show ?thesis by (rule eventually_sequentially_Suc [THEN iffD1])
next
  case (Some f)
  have "\<forall>\<^sub>F n in sequentially. \<forall>us. cleanup_unused_recurs (Suc n) fs (f_formid f) us \<noteq> None"
  proof (rule follow_groups [OF assms _ Some], intro allI)
    fix n a f us
    assume f: "dt_masks_get_from_id_ext fs a = Some f"
      and sub: "\<And>b g. child fs a b \<Longrightarrow> dt_masks_get_from_id_ext fs b = Some g \<Longrightarrow>
        \<forall>us. cleanup_unused_recurs (Suc n) fs (f_formid g) us \<noteq> None"
    have a: "f_formid f = a" using get_from_id [OF f] by simp
    have sub': "\<exists>y. cleanup_unused_recurs (Suc n) fs (pt_formid pt) us = Some y"
      if "is_group f" "pt \<in> set (f_points f)" for pt us
    proof (cases "dt_masks_get_from_id_ext fs (pt_formid pt)")
      case None
      then show ?thesis by (simp add: Let_def)
    next
      case (Some g)
      then show ?thesis using sub [OF child_point [OF f that Some] Some] get_from_id [OF Some] by auto
    qed
    have "foldl (\<lambda>acc pt. case acc of None \<Rightarrow> None | Some us \<Rightarrow> cleanup_unused_recurs (Suc n) fs (pt_formid pt) us)
        (Some (note_used a us)) (f_points f) \<noteq> None" if "is_group f"
      by (rule foldl_not_None) (use sub' [OF that] in auto)
    then show "cleanup_unused_recurs (Suc (Suc n)) fs (f_formid f) us \<noteq> None"
      unfolding a by (subst cleanup_unused_recurs.simps) (simp add: f Let_def del: cleanup_unused_recurs.simps)
  qed
  then have "\<forall>\<^sub>F n in sequentially. \<forall>us. cleanup_unused_recurs (Suc n) fs a us \<noteq> None"
    using get_from_id [OF Some] by simp
  then show ?thesis by (rule eventually_sequentially_Suc [THEN iffD1])
qed

text \<open>What the search of a group finds.\<close>

lemma foldl_add:
  fixes c :: "'a \<Rightarrow> nat option"
  assumes "foldl (\<lambda>acc x. case acc of None \<Rightarrow> None | Some k \<Rightarrow> map_option ((+) k) (c x)) (Some k0) xs = Some nb"
  shows "(\<forall>x\<in>set xs. c x \<noteq> None) \<and> nb = k0 + sum_list (map (\<lambda>x. the (c x)) xs)"
  using assms
proof (induction xs arbitrary: k0)
  case (Cons x xs)
  have None: "foldl (\<lambda>acc x. case acc of None \<Rightarrow> None | Some k \<Rightarrow> map_option ((+) k) (c x)) None ys = None" for ys
    by (induction ys) auto
  show ?case
  proof (cases "c x")
    case None
    with Cons.prems \<open>\<And>ys. foldl _ None ys = None\<close> show ?thesis by simp
  next
    case (Some k)
    with Cons.IH [of "k0 + k"] Cons.prems show ?thesis by simp
  qed
qed simp

lemma group_ways_reaches:
  assumes "dt_masks_get_from_id_ext fs a = Some f" and "group_ways n fs f gid = Some nb"
    and "(child fs)\<^sup>*\<^sup>* a gid" and "dt_masks_get_from_id_ext fs gid = Some g" and "is_group g"
  shows "nb \<noteq> 0"
  using assms(1-3)
proof (induction n arbitrary: a f nb)
  case (Suc n)
  have fa: "f_formid f = a" using get_from_id [OF Suc.prems(1)] by simp
  show ?case
  proof (cases "a = gid")
    case True
    with Suc.prems(1,2) assms(4,5) fa show ?thesis by simp
  next
    case False
    then obtain b where b: "child fs a b" "(child fs)\<^sup>*\<^sup>* b gid" using Suc.prems(3) by (metis converse_rtranclpE)
    then obtain h where h: "is_group f" "b \<in> pt_formid ` set (f_points f)" "dt_masks_get_from_id_ext fs b = Some h"
      using Suc.prems(1) by (auto simp: child_def)
    have hg: "is_group h"
    proof (cases "b = gid")
      case True
      then show ?thesis using assms(4,5) h(3) by simp
    next
      case False
      then obtain c where "child fs b c" using b(2) by (metis converse_rtranclpE)
      then show ?thesis using h(3) by (auto simp: child_def)
    qed
    let ?c = "\<lambda>pt. case dt_masks_get_from_id_ext fs (pt_formid pt) of None \<Rightarrow> Some 0
      | Some f \<Rightarrow> if is_group f then group_ways n fs f gid else Some 0"
    have "group_ways (Suc n) fs f gid =
        foldl (\<lambda>acc pt. case acc of None \<Rightarrow> None | Some k \<Rightarrow> map_option ((+) k) (?c pt)) (Some 0) (f_points f)"
      using h(1) fa False by (auto intro!: foldl_cong split: option.split)
    with Suc.prems(2) have F: "(\<forall>x\<in>set (f_points f). ?c x \<noteq> None) \<and> nb = 0 + sum_list (map (\<lambda>x. the (?c x)) (f_points f))"
      by (intro foldl_add) simp
    obtain pt where pt: "pt \<in> set (f_points f)" "pt_formid pt = b" using h(2) by auto
    have "?c pt = group_ways n fs h gid" using pt(2) h(3) hg by simp
    moreover have "?c pt \<noteq> None" using F pt(1) by blast
    ultimately obtain k where k: "?c pt = group_ways n fs h gid" "group_ways n fs h gid = Some k" by auto
    then have "the (?c pt) \<noteq> 0" using Suc.IH [OF h(3) k(2) b(2)] by simp
    moreover have "the (?c pt) \<le> sum_list (map (\<lambda>x. the (?c x)) (f_points f))"
      using pt(1) by (intro member_le_sum_list) auto
    ultimately show ?thesis using F by linarith
  qed
qed simp

lemma get_put_form:
  assumes "f_formid g' = f_formid g" and "g \<in> set fs"
  shows "dt_masks_get_from_id_ext (put_form g' fs) i = (if i = f_formid g then Some g' else dt_masks_get_from_id_ext fs i)"
  using assms(2)
proof (induction fs)
  case (Cons f fs)
  have other: "i \<noteq> f_formid g \<Longrightarrow> find (\<lambda>f. f_formid f = i) (put_form g' xs) = find (\<lambda>f. f_formid f = i) xs" for xs
    by (induction xs) (auto simp: put_form_def assms(1))
  have "g \<in> set xs \<Longrightarrow> find (\<lambda>f. f_formid f = f_formid g) (put_form g' xs) = Some g'" for xs
    by (induction xs) (auto simp: put_form_def assms(1))
  from this [OF Cons.prems] other [of "f # fs"] show ?case by (cases "i = f_formid g") (simp_all add: dt_masks_get_from_id_ext_def)
qed simp

lemma group_point_formid:
  "INT_MIN \<le> k \<Longrightarrow> k \<le> INT_MAX \<Longrightarrow> pt_formid (group_point k parent st op) = k"
  by (simp add: pt_formid_def group_point_def sint_word32_in_range)

text \<open>A point \<open>pt\<close> of a group \<open>parent\<close>: every byte of it.\<close>

definition point_fields :: "int \<Rightarrow> int \<Rightarrow> 32 word \<Rightarrow> 32 word \<Rightarrow> blob \<Rightarrow> bool" where
  "point_fields formid parent state op pt \<longleftrightarrow>
     length pt = 16 \<and> pt_formid pt = formid \<and> pt_parentid pt = parent \<and>
     pt_state pt = le_bytes 4 state \<and> pt_opacity pt = le_bytes 4 op"

lemma group_point_fields:
  "INT_MIN \<le> k \<Longrightarrow> k \<le> INT_MAX \<Longrightarrow> INT_MIN \<le> parent \<Longrightarrow> parent \<le> INT_MAX \<Longrightarrow>
    point_fields k parent st op (group_point k parent st op)"
  by (simp add: point_fields_def pt_formid_def pt_parentid_def pt_state_def pt_opacity_def group_point_def
      sint_word32_in_range)

lemma acyclic_rel: "no_self_inclusion fs \<longleftrightarrow> acyclic {(a, b). child fs a b}"
  by (simp add: no_self_inclusion_def acyclic_def tranclp_unfold)

text \<open>
  C8: Adding a shape to a group of shapes none of which contains itself always returns, and never makes a group contain itself:
  the shape is refused only when it is a group; otherwise the group gets one more point, its last, and is the same in
  every other field and point. The new point names the shape and the group, its opacity is the configured one, and
  its state is shown and used, and united with what comes before when the group was not empty. No group contains
  itself afterwards. Neither do the computations that follow groups run forever: the hash of a shape, ungrouping it,
  the search in it and the marking of what it uses all return. The numbers of shapes are distinct and fit an \<open>int\<close>, and
  fewer than \<open>2^31\<close> ways lead from the shape to the group, so that the count of the search, an \<open>int\<close>, does not overflow.
\<close>

theorem groups_never_contain_themselves:
  assumes "no_self_inclusion fs" and "distinct (map f_formid fs)" and "grp \<in> set fs" and "is_group grp" and "form \<in> set fs"
    and "INT_MIN \<le> f_formid form" and "f_formid form \<le> INT_MAX"
    and "INT_MIN \<le> f_formid grp" and "f_formid grp \<le> INT_MAX"
    and "\<And>n k. group_ways n fs form (f_formid grp) = Some k \<Longrightarrow> k < 2 ^ 31"
  shows "\<forall>\<^sub>F n in sequentially.
    (\<exists>h. dt_masks_group_hash n fs h0 form = Some h) \<and> (\<exists>ps. dt_masks_group_ungroup n fs form = Some ps) \<and>
    (\<exists>us. cleanup_unused_recurs n fs (f_formid form) used = Some us) \<and>
    (\<exists>r. dt_masks_group_add_form n fs op grp form = Some r \<and>
      (case r of
         None \<Rightarrow> is_group form
       | Some grp' \<Rightarrow>
           (\<exists>pt. grp' = grp\<lparr>f_points := f_points grp @ [pt]\<rparr> \<and>
              point_fields (f_formid form) (f_formid grp) (if f_points grp = [] then 3 else 11) op pt) \<and>
           no_self_inclusion (put_form grp' fs)))"
proof -
  let ?a = "f_formid grp" and ?b = "f_formid form"
  have ga: "dt_masks_get_from_id_ext fs ?a = Some grp" and gb: "dt_masks_get_from_id_ext fs ?b = Some form"
    using get_distinct [OF assms(2)] assms(3,5) by auto
  have add: "no_self_inclusion (put_form grp' fs)"
    if g': "f_formid grp' = ?a" "is_group grp'" "map pt_formid (f_points grp') = map pt_formid (f_points grp) @ [?b]"
      and free: "\<not> (child fs)\<^sup>*\<^sup>* ?b ?a" for grp'
  proof -
    have pts: "pt_formid ` set (f_points grp') = insert ?b (pt_formid ` set (f_points grp))"
      using arg_cong [OF g'(3), of set] by simp
    have get: "dt_masks_get_from_id_ext (put_form grp' fs) i = (if i = ?a then Some grp' else dt_masks_get_from_id_ext fs i)" for i
      by (rule get_put_form [OF g'(1) assms(3)])
    have "child (put_form grp' fs) x y \<longleftrightarrow> child fs x y \<or> x = ?a \<and> y = ?b" for x y
      using g'(2) assms(4) ga gb unfolding child_def get by (auto simp: pts)
    then have "{(x, y). child (put_form grp' fs) x y} = insert (?a, ?b) {(x, y). child fs x y}" by auto
    moreover have "(?b, ?a) \<notin> {(x, y). child fs x y}\<^sup>*" using free rtranclp_rtrancl_eq [where r = "child fs" and x = ?b and y = ?a] by simp
    ultimately show ?thesis using assms(1) by (simp add: acyclic_rel acyclic_insert)
  qed
  have E: "\<forall>\<^sub>F n in sequentially. (\<forall>h. dt_masks_group_hash n fs h form \<noteq> None) \<and> dt_masks_group_ungroup n fs form \<noteq> None \<and>
      (\<forall>us. cleanup_unused_recurs n fs ?b us \<noteq> None) \<and> (\<forall>fid. group_ways n fs form fid \<noteq> None)"
    by (intro eventually_conj group_hash_returns [OF assms(1) gb] ungroup_returns [OF assms(1) gb]
        cleanup_recurs_returns [OF assms(1)] group_ways_returns [OF assms(1) gb])
  have "\<exists>r. dt_masks_group_add_form n fs op grp form = Some r \<and>
      (case r of None \<Rightarrow> is_group form
       | Some grp' \<Rightarrow>
           (\<exists>pt. grp' = grp\<lparr>f_points := f_points grp @ [pt]\<rparr> \<and>
              point_fields ?b ?a (if f_points grp = [] then 3 else 11) op pt) \<and>
           no_self_inclusion (put_form grp' fs))"
    if some: "group_ways n fs form ?a \<noteq> None" for n
  proof -
    have st: "(DT_MASKS_STATE_SHOW OR DT_MASKS_STATE_USE) OR (if f_points grp \<noteq> [] then DT_MASKS_STATE_UNION else 0) =
        (if f_points grp = [] then 3 else 11)"
      by (simp add: DT_MASKS_STATE_SHOW_def DT_MASKS_STATE_USE_def DT_MASKS_STATE_UNION_def)
    define grp' where "grp' = grp\<lparr>f_points := f_points grp @ [group_point ?b ?a
      ((DT_MASKS_STATE_SHOW OR DT_MASKS_STATE_USE) OR (if f_points grp \<noteq> [] then DT_MASKS_STATE_UNION else 0)) op]\<rparr>"
    have g': "f_formid grp' = ?a" "is_group grp'" "map pt_formid (f_points grp') = map pt_formid (f_points grp) @ [?b]"
      using assms(4) by (simp_all add: grp'_def type_word_def group_point_formid [OF assms(6,7)])
    have pt: "\<exists>pt. grp' = grp\<lparr>f_points := f_points grp @ [pt]\<rparr> \<and>
        point_fields ?b ?a (if f_points grp = [] then 3 else 11) op pt"
      unfolding grp'_def st using group_point_fields [OF assms(6-9)] by blast
    have A: "dt_masks_group_add_form n fs op grp form = (if \<not> is_group form then Some (Some grp')
        else map_option (\<lambda>nb :: 32 word. if nb = 0 then Some grp' else None) (map_option of_nat (group_ways n fs form ?a)))"
      using assms(4) unfolding dt_masks_group_add_form_def Let_def grp'_def find_in_group_counts by simp
    show ?thesis
    proof (cases "is_group form")
      case False
      have "\<not> (child fs)\<^sup>*\<^sup>* ?b ?a"
      proof
        assume "(child fs)\<^sup>*\<^sup>* ?b ?a"
        then have "?b = ?a \<or> (\<exists>c. child fs ?b c)" by (metis converse_rtranclpE)
        then show False using False ga gb assms(4) by (auto simp: child_def)
      qed
      then show ?thesis using A False add [OF g'] pt by simp
    next
      case True
      obtain nb where nb: "group_ways n fs form ?a = Some nb" using some by auto
      have "(of_nat nb :: 32 word) = 0 \<longleftrightarrow> nb = 0"
        using assms(10) [OF nb] by (simp add: word_of_nat_eq_0_iff nat_dvd_not_less) (use nat_dvd_not_less in force)
      moreover have "nb = 0 \<Longrightarrow> \<not> (child fs)\<^sup>*\<^sup>* ?b ?a" using group_ways_reaches [OF gb nb _ ga assms(4)] by blast
      ultimately show ?thesis using A True nb add [OF g'] pt by simp
    qed
  qed
  then show ?thesis by (intro eventually_mono [OF E]) auto
qed

text \<open>A group in which there is nothing yet and another which contains it: the first one refuses the second.\<close>

definition two_groups :: "masks_form list" where
  "two_groups =
     [(dt_masks_create 4 1)\<lparr>f_points := [group_point 2 1 3 0]\<rparr>, dt_masks_create 4 2]"

lemma two_groups_facts:
  "no_self_inclusion two_groups" "distinct (map f_formid two_groups)" "two_groups ! 1 \<in> set two_groups"
  "is_group (two_groups ! 1)" "two_groups ! 0 \<in> set two_groups" "f_formid (two_groups ! 0) = 1"
  "is_group (two_groups ! 0)" "f_formid (two_groups ! 1) = 2" "f_points (two_groups ! 1) = []"
proof -
  have get: "dt_masks_get_from_id_ext two_groups a = (if a = 1 then Some (two_groups ! 0) else if a = 2 then Some (two_groups ! 1) else None)" for a
    by (simp add: dt_masks_get_from_id_ext_def two_groups_def dt_masks_create_def)
  have "child two_groups a b \<longleftrightarrow> a = 1 \<and> b = 2" for a b
    unfolding child_def get by (auto simp: two_groups_def dt_masks_create_def type_word_def DT_MASKS_GROUP_def group_point_formid)
  then have "{(a, b). child two_groups a b} = {(1, 2)}" by auto
  then show "no_self_inclusion two_groups" by (simp only: acyclic_rel) (simp add: acyclic_insert wf_acyclic)
qed (simp_all add: two_groups_def dt_masks_create_def type_word_def DT_MASKS_GROUP_def)

lemma two_groups_ways: "group_ways n two_groups (two_groups ! 0) 2 = Some k \<Longrightarrow> k < 2 ^ 31"
proof (cases n)
  case (Suc m)
  assume "group_ways n two_groups (two_groups ! 0) 2 = Some k"
  then have "k = 1 \<or> m = 0"
    unfolding Suc by (cases m) (auto simp: two_groups_def dt_masks_create_def type_word_def DT_MASKS_GROUP_def
        dt_masks_get_from_id_ext_def group_point_formid split: if_splits)
  moreover have "group_ways (Suc 0) two_groups (two_groups ! 0) 2 = None"
    by (simp add: two_groups_def dt_masks_create_def type_word_def DT_MASKS_GROUP_def
        dt_masks_get_from_id_ext_def group_point_formid)
  ultimately show ?thesis using \<open>group_ways n _ _ _ = _\<close> Suc by auto
qed simp

theorem groups_never_contain_themselves_witness:
  "\<exists>n.
    (\<exists>h. dt_masks_group_hash n two_groups 0 (two_groups ! 0) = Some h) \<and>
    (\<exists>ps. dt_masks_group_ungroup n two_groups (two_groups ! 0) = Some ps) \<and>
    (\<exists>us. cleanup_unused_recurs n two_groups (f_formid (two_groups ! 0)) [] = Some us) \<and>
    (\<exists>r. dt_masks_group_add_form n two_groups 0 (two_groups ! 1) (two_groups ! 0) = Some r \<and>
      (case r of
         None \<Rightarrow> is_group (two_groups ! 0)
       | Some grp' \<Rightarrow>
           (\<exists>pt. grp' = (two_groups ! 1)\<lparr>f_points := f_points (two_groups ! 1) @ [pt]\<rparr> \<and>
              point_fields (f_formid (two_groups ! 0)) (f_formid (two_groups ! 1))
                (if f_points (two_groups ! 1) = [] then 3 else 11) 0 pt) \<and>
           no_self_inclusion (put_form grp' two_groups)))"
  by (rule eventually_happens' [OF sequentially_bot groups_never_contain_themselves])
    (use two_groups_facts two_groups_ways in \<open>simp_all del: One_nat_def\<close>)


section \<open>The cleanup keeps what is used\<close>

text \<open>The table with the numbers \<open>xs\<close> in it.\<close>

definition id_table :: "nat \<Rightarrow> int list \<Rightarrow> int list" where
  "id_table N xs = xs @ replicate (N - length xs) 0"

lemma note_used_table:
  "fid \<noteq> 0 \<Longrightarrow> 0 \<notin> set xs \<Longrightarrow>
    note_used fid (xs @ replicate k 0) = (if fid \<in> set xs \<or> k = 0 then xs @ replicate k 0 else xs @ fid # replicate (k - 1) 0)"
  by (induction xs; cases k) auto

lemma table_has_table: "fid \<noteq> 0 \<Longrightarrow> 0 \<notin> set xs \<Longrightarrow> table_has fid (xs @ replicate k 0) \<longleftrightarrow> fid \<in> set xs"
  by (induction xs; cases k) auto

text \<open>There is room for every number of a shape.\<close>

definition table_ok :: "masks_form list \<Rightarrow> int list \<Rightarrow> bool" where
  "table_ok fs xs \<longleftrightarrow> distinct xs \<and> set xs \<subseteq> f_formid ` set fs"

lemma note_used_ok:
  assumes "0 \<notin> f_formid ` set fs" and "table_ok fs xs" and "a \<in> f_formid ` set fs"
  shows "\<exists>ys. note_used a (id_table (length fs) xs) = id_table (length fs) ys \<and> table_ok fs ys \<and> set ys = set xs \<union> {a}"
proof (cases "a \<in> set xs")
  case True
  have "a \<noteq> 0" "0 \<notin> set xs" using assms by (auto simp: table_ok_def)
  then show ?thesis using assms True note_used_table [of a xs "length fs - length xs"]
    by (intro exI [of _ xs]) (simp add: id_table_def insert_absorb)
next
  case False
  have "set (a # xs) \<subseteq> f_formid ` set fs" using assms by (simp add: table_ok_def)
  then have "card (set (a # xs)) \<le> card (f_formid ` set fs)" by (intro card_mono) auto
  also have "\<dots> \<le> length fs" by (metis card_length list.set_map length_map)
  finally have L: "length xs < length fs" using False assms(2) by (simp add: table_ok_def distinct_card)
  moreover have "a \<noteq> 0" "0 \<notin> set xs" using assms by (auto simp: table_ok_def)
  ultimately have "note_used a (id_table (length fs) xs) = id_table (length fs) (xs @ [a])"
    using False note_used_table [of a xs "length fs - length xs"] by (simp add: id_table_def)
  then show ?thesis using assms False by (intro exI [of _ "xs @ [a]"]) (auto simp: table_ok_def)
qed

lemma foldl_tables:
  assumes "\<And>x xs us. x \<in> set ps \<Longrightarrow> table_ok fs xs \<Longrightarrow> step x (id_table (length fs) xs) = Some us \<Longrightarrow>
      \<exists>ys. us = id_table (length fs) ys \<and> table_ok fs ys \<and> set ys = set xs \<union> g x"
    and "foldl (\<lambda>acc x. case acc of None \<Rightarrow> None | Some us \<Rightarrow> step x us) (Some (id_table (length fs) xs)) ps = Some us"
    and "table_ok fs xs"
  shows "\<exists>ys. us = id_table (length fs) ys \<and> table_ok fs ys \<and> set ys = set xs \<union> (\<Union>x\<in>set ps. g x)"
  using assms
proof (induction ps arbitrary: xs)
  case (Cons x ps)
  have None: "foldl (\<lambda>acc x. case acc of None \<Rightarrow> None | Some us \<Rightarrow> step x us) None qs = None" for qs
    by (induction qs) auto
  obtain vs where vs: "step x (id_table (length fs) xs) = Some vs"
    using Cons.prems(2) None by (cases "step x (id_table (length fs) xs)") auto
  obtain zs where zs: "vs = id_table (length fs) zs" "table_ok fs zs" "set zs = set xs \<union> g x"
    using Cons.prems(1) [OF _ Cons.prems(3) vs] by auto
  have "foldl (\<lambda>acc x. case acc of None \<Rightarrow> None | Some us \<Rightarrow> step x us) (Some (id_table (length fs) zs)) ps = Some us"
    using Cons.prems(2) by (simp add: vs zs(1))
  from Cons.IH [OF Cons.prems(1) this zs(2)] show ?case using zs(3) by fastforce
qed auto

text \<open>Every group contains only shapes that exist.\<close>

definition groups_closed :: "masks_form list \<Rightarrow> bool" where
  "groups_closed fs \<longleftrightarrow> (\<forall>f\<in>set fs. is_group f \<longrightarrow> pt_formid ` set (f_points f) \<subseteq> f_formid ` set fs)"

lemma get_exists: "a \<in> f_formid ` set fs \<Longrightarrow> \<exists>f. dt_masks_get_from_id_ext fs a = Some f"
  by (cases "dt_masks_get_from_id_ext fs a") (auto simp: dt_masks_get_from_id_ext_def find_None_iff)

lemma reach_step:
  "{b. (child fs)\<^sup>*\<^sup>* a b} = insert a (\<Union>c\<in>{c. child fs a c}. {b. (child fs)\<^sup>*\<^sup>* c b})"
  by (auto intro: converse_rtranclp_into_rtranclp elim: converse_rtranclpE)

lemma cleanup_recurs_table:
  assumes "0 \<notin> f_formid ` set fs" and "groups_closed fs"
    and "table_ok fs xs" and "a \<in> f_formid ` set fs" and "cleanup_unused_recurs n fs a (id_table (length fs) xs) = Some us"
  shows "\<exists>ys. us = id_table (length fs) ys \<and> table_ok fs ys \<and> set ys = set xs \<union> {b. (child fs)\<^sup>*\<^sup>* a b}"
  using assms(3-5)
proof (induction n arbitrary: a xs us)
  case (Suc n)
  obtain f where f: "dt_masks_get_from_id_ext fs a = Some f" using get_exists [OF Suc.prems(2)] by auto
  obtain zs where zs: "note_used a (id_table (length fs) xs) = id_table (length fs) zs" "table_ok fs zs" "set zs = set xs \<union> {a}"
    using note_used_ok [OF assms(1) Suc.prems(1,2)] by auto
  show ?case
  proof (cases "is_group f")
    case False
    then have "{c. child fs a c} = {}" using f by (auto simp: child_def)
    then show ?thesis using Suc.prems(3) False f zs reach_step [of fs a] by auto
  next
    case True
    have pts: "pt_formid pt \<in> f_formid ` set fs" if "pt \<in> set (f_points f)" for pt
      using assms(2) get_from_id [OF f] True that unfolding groups_closed_def by blast
    have kids: "{c. child fs a c} = pt_formid ` set (f_points f)"
      using f True pts get_exists by (auto simp: child_def)
    have "foldl (\<lambda>acc pt. case acc of None \<Rightarrow> None | Some us \<Rightarrow> cleanup_unused_recurs n fs (pt_formid pt) us)
        (Some (id_table (length fs) zs)) (f_points f) = Some us"
      using Suc.prems(3) f True by (simp add: Let_def zs(1))
    from foldl_tables [OF _ this zs(2), where g = "\<lambda>pt. {b. (child fs)\<^sup>*\<^sup>* (pt_formid pt) b}"] Suc.IH pts
    obtain ys where "us = id_table (length fs) ys" "table_ok fs ys"
      "set ys = set zs \<union> (\<Union>pt\<in>set (f_points f). {b. (child fs)\<^sup>*\<^sup>* (pt_formid pt) b})" by metis
    then show ?thesis using zs(3) reach_step [of fs a] kids by auto
  qed
qed simp

lemma find_filter_id: "P b \<Longrightarrow> dt_masks_get_from_id_ext (filter (\<lambda>f. P (f_formid f)) fs) b = dt_masks_get_from_id_ext fs b"
  unfolding dt_masks_get_from_id_ext_def by (induction fs) auto

text \<open>The shapes an active item uses: its mask and what that contains.\<close>

definition uses_form :: "masks_form list \<Rightarrow> history_item list \<Rightarrow> int \<Rightarrow> bool" where
  "uses_form fs hs b \<longleftrightarrow>
     (\<exists>h\<in>set hs. 0 < blend_mask_id (it_blend_params h) \<and> (child fs)\<^sup>*\<^sup>* (blend_mask_id (it_blend_params h)) b)"

text \<open>
  C18: The cleanup of a list of shapes, when groups contain only shapes of the list and not themselves and the
  masks of the active history items are in the list: it returns, and keeps exactly the shapes that an active item's mask is or
  contains, in their order; it reports that it removed something exactly when it did. Every shape an active item uses is
  found as before.
\<close>

theorem cleanup_keeps_used_shapes:
  assumes "no_self_inclusion fs" and "groups_closed fs" and "distinct (map f_formid fs)" and "0 \<notin> f_formid ` set fs"
    and "\<forall>h\<in>set (take (nat e) items). 0 < blend_mask_id (it_blend_params h) \<longrightarrow>
      blend_mask_id (it_blend_params h) \<in> f_formid ` set fs"
  shows "\<forall>\<^sub>F n in sequentially. \<exists>kept removed. masks_cleanup_unused n fs items e = Some (kept, removed) \<and>
    kept = filter (\<lambda>f. uses_form fs (take (nat e) items) (f_formid f)) fs \<and> (removed \<longleftrightarrow> kept \<noteq> fs) \<and>
    (\<forall>b. uses_form fs (take (nat e) items) b \<longrightarrow> dt_masks_get_from_id_ext kept b = dt_masks_get_from_id_ext fs b)"
proof -
  let ?hs = "take (nat e) items" and ?m = "\<lambda>h. blend_mask_id (it_blend_params h)"
  let ?step = "\<lambda>n h us. if 0 < ?m h then cleanup_unused_recurs n fs (?m h) us else Some us"
  let ?kept = "filter (\<lambda>f. uses_form fs ?hs (f_formid f)) fs"
  have E: "\<forall>\<^sub>F n in sequentially. \<forall>h\<in>set ?hs. \<forall>us. cleanup_unused_recurs n fs (?m h) us \<noteq> None"
    by (intro eventually_ball_finite ballI cleanup_recurs_returns [OF assms(1)]) simp
  have get: "dt_masks_get_from_id_ext ?kept b = dt_masks_get_from_id_ext fs b" if "uses_form fs ?hs b" for b
    using that by (rule find_filter_id)
  have result: "masks_cleanup_unused n fs items e = Some (?kept, ?kept \<noteq> fs)"
    if ret: "\<forall>h\<in>set ?hs. \<forall>us. cleanup_unused_recurs n fs (?m h) us \<noteq> None" for n
  proof -
    have "foldl (\<lambda>acc h. case acc of None \<Rightarrow> None | Some us \<Rightarrow> ?step n h us) (Some (id_table (length fs) [])) ?hs \<noteq> None"
      by (rule foldl_not_None) (use ret in auto)
    then obtain us where us: "foldl (\<lambda>acc h. case acc of None \<Rightarrow> None | Some us \<Rightarrow> ?step n h us)
        (Some (id_table (length fs) [])) ?hs = Some us" by auto
    have "\<exists>ys. us = id_table (length fs) ys \<and> table_ok fs ys \<and>
        set ys = set [] \<union> (\<Union>h\<in>set ?hs. if 0 < ?m h then {b. (child fs)\<^sup>*\<^sup>* (?m h) b} else {})"
      using cleanup_recurs_table [OF assms(4,2)] assms(5)
      by (intro foldl_tables [OF _ us]) (auto simp: table_ok_def split: if_splits)
    then obtain ys where ys: "us = id_table (length fs) ys" "table_ok fs ys"
      and set_ys: "set ys = set [] \<union> (\<Union>h\<in>set ?hs. if 0 < ?m h then {b. (child fs)\<^sup>*\<^sup>* (?m h) b} else {})"
      by blast
    have used: "b \<in> set ys \<longleftrightarrow> uses_form fs ?hs b" for b unfolding set_ys uses_form_def by auto
    have "table_has (f_formid f) us \<longleftrightarrow> uses_form fs ?hs (f_formid f)" if "f \<in> set fs" for f
    proof -
      have "f_formid f \<noteq> 0" "0 \<notin> set ys" using assms(4) that ys(2) by (auto simp: table_ok_def)
      then show ?thesis using table_has_table ys(1) used by (simp add: id_table_def)
    qed
    then have "filter (\<lambda>f. table_has (f_formid f) us) fs = ?kept" and "(\<exists>f\<in>set fs. \<not> table_has (f_formid f) us) \<longleftrightarrow> ?kept \<noteq> fs"
      by (simp_all add: filter_id_conv cong: filter_cong)
    then show ?thesis using us by (simp add: masks_cleanup_unused_def id_table_def)
  qed
  show ?thesis by (intro eventually_mono [OF E]) (use result get in simp)
qed

text \<open>An item whose blending parameters name a mask, with nothing else in it.\<close>

definition item_with_mask :: "int \<Rightarrow> history_item" where
  "item_with_mask m =
     \<lparr>it_module = 1, it_enabled = True, it_params = [], it_blend_params = replicate 24 0 @ le_bytes 4 (word_of_int m :: 32 word),
      it_op_name = ''exposure'', it_iop_order = 1, it_multi_priority = 0, it_multi_name = [],
      it_multi_name_hand_edited = False, it_forms = [], it_focus_hash = False\<rparr>"

lemma blend_mask_id_item [simp]:
  "INT_MIN \<le> m \<Longrightarrow> m \<le> INT_MAX \<Longrightarrow> blend_mask_id (it_blend_params (item_with_mask m)) = m"
  by (simp add: blend_mask_id_def item_with_mask_def sint_word32_in_range)

lemma two_groups_child: "child two_groups a b \<longleftrightarrow> a = 1 \<and> b = 2"
proof -
  have get: "dt_masks_get_from_id_ext two_groups a = (if a = 1 then Some (two_groups ! 0) else if a = 2 then Some (two_groups ! 1) else None)" for a
    by (simp add: dt_masks_get_from_id_ext_def two_groups_def dt_masks_create_def)
  show ?thesis
    unfolding child_def get by (auto simp: two_groups_def dt_masks_create_def type_word_def DT_MASKS_GROUP_def group_point_formid)
qed

theorem cleanup_keeps_used_shapes_witness:
  "\<exists>n. masks_cleanup_unused n two_groups [item_with_mask 2] 1 = Some ([two_groups ! 1], True)"
proof -
  have forms: "two_groups = [two_groups ! 0, two_groups ! 1]" by (simp add: two_groups_def)
  have closed: "groups_closed two_groups"
    by (simp add: groups_closed_def two_groups_def dt_masks_create_def group_point_formid)
  have "(child two_groups)\<^sup>*\<^sup>* 2 b \<longleftrightarrow> b = 2" for b
    by (auto elim: converse_rtranclpE simp: two_groups_child)
  then have uses: "uses_form two_groups [item_with_mask 2] b \<longleftrightarrow> b = 2" for b by (simp add: uses_form_def)
  have ids: "f_formid ` set two_groups = {1, 2}" by (simp add: two_groups_def dt_masks_create_def)
  have "filter (\<lambda>f. f_formid f = 2) two_groups = [two_groups ! 1]" "two_groups \<noteq> [two_groups ! 1]"
    by (simp_all add: two_groups_def dt_masks_create_def)
  then show ?thesis
    using eventually_happens' [OF sequentially_bot cleanup_keeps_used_shapes
        [OF two_groups_facts(1) closed two_groups_facts(2), of "1" "[item_with_mask 2]"]]
    by (simp add: uses ids)
qed

text \<open>
  A mask that is no longer in the list of shapes takes a place in the table of used numbers, which is only as long
  as the list: with the list of a group and the one shape in it, and two items of which the first still names a mask
  that has been removed, the cleanup deletes the shape although the group of the second item uses it.
\<close>

theorem removed_mask_costs_a_shape:
  assumes "is_group grp" and "f_points grp = [pt]" and "pt_formid pt = f_formid circle" and "\<not> is_group circle"
    and "f_formid grp \<noteq> f_formid circle" and "f_formid circle \<noteq> 0"
    and "blend_mask_id (it_blend_params h1) = gone" and "0 < gone" and "gone \<noteq> f_formid grp" and "gone \<noteq> f_formid circle"
    and "blend_mask_id (it_blend_params h2) = f_formid grp" and "0 < f_formid grp"
  shows "masks_cleanup_unused (Suc (Suc n)) [grp, circle] [h1, h2] 2 = Some ([grp], True) \<and>
    uses_form [grp, circle] [h1, h2] (f_formid circle)"
proof -
  have get: "dt_masks_get_from_id_ext [grp, circle] gone = None"
    "dt_masks_get_from_id_ext [grp, circle] (f_formid grp) = Some grp"
    "dt_masks_get_from_id_ext [grp, circle] (f_formid circle) = Some circle"
    using assms(5,9,10) by (simp_all add: dt_masks_get_from_id_ext_def)
  have "child [grp, circle] (f_formid grp) (f_formid circle)" using assms(1-3) get by (simp add: child_def)
  then have "uses_form [grp, circle] [h1, h2] (f_formid circle)" using assms(11,12) by (auto simp: uses_form_def)
  moreover have "cleanup_unused_recurs (Suc (Suc n)) [grp, circle] gone [0, 0] = Some [gone, 0]"
    using get by (simp add: Let_def)
  moreover have "cleanup_unused_recurs (Suc (Suc n)) [grp, circle] (f_formid grp) [gone, 0] = Some [gone, f_formid grp]"
    using get assms by (simp add: Let_def)
  ultimately show ?thesis
    using assms(5-12) by (simp add: masks_cleanup_unused_def numeral_2_eq_2 del: cleanup_unused_recurs.simps)
qed

definition one_shape_group :: masks_form where
  "one_shape_group = (dt_masks_create 4 20)\<lparr>f_points := [group_point 5 20 3 0]\<rparr>"

theorem removed_mask_costs_a_shape_witness:
  "masks_cleanup_unused (Suc (Suc 0)) [one_shape_group, dt_masks_create 1 5] [item_with_mask 9, item_with_mask 20] 2 =
     Some ([one_shape_group], True) \<and>
   uses_form [one_shape_group, dt_masks_create 1 5] [item_with_mask 9, item_with_mask 20] 5"
proof -
  have "is_group one_shape_group" "f_points one_shape_group = [group_point 5 20 3 0]" "f_formid one_shape_group = 20"
    "\<not> is_group (dt_masks_create 1 5)" "f_formid (dt_masks_create 1 5) = 5" "pt_formid (group_point 5 20 3 0) = 5"
    by (simp_all add: one_shape_group_def dt_masks_create_def type_word_def DT_MASKS_GROUP_def group_point_formid)
  then show ?thesis
    using removed_mask_costs_a_shape [of one_shape_group "group_point 5 20 3 0" "dt_masks_create 1 5" "item_with_mask 9" 9
        "item_with_mask 20" 0] by simp
qed


section \<open>What is written is read\<close>

text \<open>A shape as the program holds it: of a type with functions and of the current version, its points of the size of the type.\<close>

definition stored_shape :: "masks_form \<Rightarrow> bool" where
  "stored_shape f \<longleftrightarrow> f_has_functions f \<and> f_version f = dt_masks_version \<and> length (f_source f) = 8 \<and> length (f_name f) < 128 \<and>
     (case point_struct_size (type_word f) of None \<Rightarrow> False | Some sz \<Rightarrow> \<forall>pt\<in>set (f_points f). length pt = sz)"

lemma split_points_concat: "\<forall>pt\<in>set pts. length pt = sz \<Longrightarrow> split_points (length pts) sz (concat pts) = pts"
proof (induction pts)
  case (Cons pt pts)
  have "split_points (Suc k) sz b = take sz b # split_points k sz (drop sz b)" for k b
    by (simp add: split_points_def upt_conv_Cons add.commute flip: map_Suc_upt del: upt_Suc)
  with Cons show ?case by simp
qed (simp add: split_points_def)

lemma form_of_row_form_row: "stored_shape f \<Longrightarrow> form_of_row (form_row imgid num f) = f"
  by (cases f) (auto simp: stored_shape_def form_of_row_def form_row_def dt_masks_create_def type_word_def Let_def sql_int_def
      split_points_concat split: option.splits)

text \<open>The rows of one item.\<close>

lemma read_item_rows:
  assumes "\<forall>f\<in>set fs. stored_shape f" and "fs \<noteq> []" and "k < e" and "rd_num_prev R < k"
    and "find_num k (rd_items R) = Some i"
  shows "foldl (read_mask_row e) R (map (form_row imgid k) fs) =
    R\<lparr>rd_items := (rd_items R)[i := (fst (rd_items R ! i), (snd (rd_items R ! i))\<lparr>it_forms := it_forms (snd (rd_items R ! i)) @ fs\<rparr>)],
      rd_num_prev := k, rd_hist_item := Some i, rd_hist_item_last := Some i\<rparr>"
  using assms
proof (induction fs rule: rev_induct)
  case (snoc f fs)
  have i: "i < length (rd_items R)" using snoc.prems(5) by (auto simp: find_num_def Let_def split: if_splits)
  have f: "sql_int (m_num (form_row imgid k f)) = k" "form_of_row (form_row imgid k f) = f" "f_version f = dt_masks_version"
    using snoc.prems(1) form_of_row_form_row by (simp_all add: form_row_def sql_int_def stored_shape_def)
  show ?case
  proof (cases "fs = []")
    case True
    then show ?thesis using snoc.prems f i by (simp add: read_mask_row_def Let_def add_form_at_def)
  next
    case False
    then show ?thesis using snoc f i by (simp add: read_mask_row_def Let_def add_form_at_def)
  qed
qed simp

text \<open>The history as it is before the shapes are read, and after those of the first \<open>m\<close> items are.\<close>

definition numbered_items :: "nat \<Rightarrow> history_item list \<Rightarrow> (int \<times> history_item) list" where
  "numbered_items m hs = map (\<lambda>k. (int k, if k < m then hs ! k else (hs ! k)\<lparr>it_forms := []\<rparr>)) [0..<length hs]"

lemma numbered_items_step:
  assumes "m < length hs"
  shows "find_num (int m) (numbered_items m hs) = Some m" and "numbered_items m hs ! m = (int m, (hs ! m)\<lparr>it_forms := []\<rparr>)"
    and "(numbered_items m hs)[m := (int m, hs ! m)] = numbered_items (Suc m) hs"
proof -
  have "takeWhile (\<lambda>p. fst p \<noteq> int m) (numbered_items m hs) = take m (numbered_items m hs)"
    using assms by (intro takeWhile_eq_take_P_nth) (auto simp: numbered_items_def)
  then show "find_num (int m) (numbered_items m hs) = Some m" using assms by (simp add: find_num_def numbered_items_def)
qed (use assms in \<open>auto simp: numbered_items_def intro!: nth_equalityI simp: nth_list_update\<close>)

lemma stack_masks_append: "stack_masks imgid (hs @ gs) i = stack_masks imgid hs i @ stack_masks imgid gs (i + int (length hs))"
  by (induction hs arbitrary: i) (simp_all add: algebra_simps)

lemma read_rows:
  assumes "\<forall>h\<in>set hs. \<forall>f\<in>set (it_forms h). stored_shape f" and "m \<le> length hs" and "int m \<le> e"
  shows "\<exists>R. foldl (read_mask_row e)
      \<lparr>rd_items = numbered_items 0 hs, rd_num_prev = - 1, rd_hist_item = None, rd_hist_item_last = None\<rparr>
      (stack_masks imgid (take m hs) 0) = R \<and>
    rd_items R = numbered_items m hs \<and> rd_num_prev R < int m \<and>
    last_forms (take m hs) = (case rd_hist_item_last R of None \<Rightarrow> [] | Some k \<Rightarrow> it_forms (hs ! k)) \<and>
    (case rd_hist_item_last R of None \<Rightarrow> True | Some k \<Rightarrow> k < m)"
  using assms(2,3)
proof (induction m)
  case 0
  then show ?case by (simp add: last_forms_def)
next
  case (Suc m)
  let ?h = "hs ! m"
  let ?R0 = "\<lparr>rd_items = numbered_items 0 hs, rd_num_prev = - 1, rd_hist_item = None, rd_hist_item_last = None\<rparr>"
  have m: "m < length hs" using Suc.prems by simp
  define R where "R = foldl (read_mask_row e) ?R0 (stack_masks imgid (take m hs) 0)"
  have R: "rd_items R = numbered_items m hs" "rd_num_prev R < int m"
    "last_forms (take m hs) = (case rd_hist_item_last R of None \<Rightarrow> [] | Some k \<Rightarrow> it_forms (hs ! k))"
    "case rd_hist_item_last R of None \<Rightarrow> True | Some k \<Rightarrow> k < m"
    using Suc unfolding R_def by auto
  have ok: "\<forall>f\<in>set (it_forms ?h). stored_shape f" using bspec [OF assms(1) nth_mem [OF m]] .
  then have "filter f_has_functions (it_forms ?h) = it_forms ?h" by (auto simp: filter_id_conv stored_shape_def)
  then have fold: "foldl (read_mask_row e) ?R0 (stack_masks imgid (take (Suc m) hs) 0) =
      foldl (read_mask_row e) R (map (form_row imgid (int m)) (it_forms ?h))"
    using m by (simp add: take_Suc_conv_app_nth stack_masks_append item_masks_eq R_def min_def)
  have last: "last_forms (take (Suc m) hs) = (if it_forms ?h \<noteq> [] then it_forms ?h else last_forms (take m hs))"
    using m by (simp add: take_Suc_conv_app_nth last_forms_def)
  show ?case
  proof (cases "it_forms ?h = []")
    case True
    then have "?h\<lparr>it_forms := []\<rparr> = ?h" by simp
    then have "numbered_items (Suc m) hs = numbered_items m hs"
      by (auto simp: numbered_items_def less_Suc_eq)
    then show ?thesis using fold last True R by (auto split: option.splits)
  next
    case False
    have "foldl (read_mask_row e) R (map (form_row imgid (int m)) (it_forms ?h)) =
        R\<lparr>rd_items := numbered_items (Suc m) hs, rd_num_prev := int m, rd_hist_item := Some m, rd_hist_item_last := Some m\<rparr>"
      using read_item_rows [OF ok False, where R = R and k = "int m" and e = e and i = m and imgid = imgid] R(1,2) Suc.prems
        numbered_items_step [OF m] by simp
    then show ?thesis using fold last False by simp
  qed
qed

lemma stack_masks_below:
  "filter (\<lambda>r. sql_lt (m_num r) e) (stack_masks imgid hs i) = stack_masks imgid (take (nat (e - i)) hs) i"
proof (induction hs arbitrary: i)
  case (Cons h hs)
  have I: "filter (\<lambda>r. sql_lt (m_num r) e) (item_masks imgid i h) = (if i < e then item_masks imgid i h else [])"
    by (auto simp: item_masks_eq form_row_def sql_lt_def filter_id_conv filter_empty_conv)
  show ?case
  proof (cases "i < e")
    case True
    then have "nat (e - i) = Suc (nat (e - (i + 1)))" by simp
    with True Cons I show ?thesis by simp
  next
    case False
    then show ?thesis using Cons [of "i + 1"] I by simp
  qed
qed simp

lemma sorted_const: "sorted (map (\<lambda>_. c) xs)"
  by (induction xs) auto

lemma stack_masks_sorted: "sorted (map (\<lambda>r. sql_int (m_num r)) (stack_masks imgid hs i))"
proof (induction hs arbitrary: i)
  case (Cons h hs)
  have "\<forall>r\<in>set (stack_masks imgid hs k). k \<le> sql_int (m_num r)" for k
    by (induction hs arbitrary: k) (force simp: item_masks_eq form_row_def sql_int_def)+
  from this [of "i + 1"] Cons show ?case
    by (fastforce simp: sorted_append item_masks_eq form_row_def sql_int_def sorted_const comp_def)
qed simp

text \<open>
  C26: Reading the shapes of an image after its session was saved: every active history item gets back exactly the shapes it
  had, in their order and with all their fields, the items above the end of the history get none, and the current
  shapes are those the active history ends with, as after moving in the history.
\<close>

theorem saved_shapes_are_read:
  assumes "t_images (db L) imgid = Some r" and "session_ok S"
    and "\<forall>h\<in>set (s_history S). \<forall>f\<in>set (it_forms h). stored_shape f"
  shows "dt_masks_read_masks_history imgid (db (dt_dev_write_history E H S imgid L)) (s_history_end S)
      (map (\<lambda>k. (int k, (s_history S ! k)\<lparr>it_forms := []\<rparr>)) [0..<length (s_history S)]) =
    (map (\<lambda>k. (int k, if int k < s_history_end S then s_history S ! k else (s_history S ! k)\<lparr>it_forms := []\<rparr>))
        [0..<length (s_history S)],
     dt_masks_dup_forms_deep (last_forms (active_items S)) None)"
proof -
  let ?hs = "s_history S" and ?e = "s_history_end S"
  have e: "0 \<le> ?e" "?e \<le> int (length ?hs)" using assms(2) by (simp_all add: session_ok_def)
  have db: "db (dt_dev_write_history E H S imgid L) = dt_dev_write_history_ext E H S imgid (db L)"
    by (simp add: dt_dev_write_history_def)
  have rows: "sort_key (\<lambda>r. sql_int (m_num r)) (filter (\<lambda>r. sql_lt (m_num r) ?e)
      (img_masks (db (dt_dev_write_history E H S imgid L)) imgid)) = stack_masks imgid (take (nat ?e) ?hs) 0"
    unfolding db write_history_tables(2) [OF assms(1)] stack_masks_below
    by (simp add: sort_key_id_if_sorted stack_masks_sorted)
  have zero: "map (\<lambda>k. (int k, (?hs ! k)\<lparr>it_forms := []\<rparr>)) [0..<length ?hs] = numbered_items 0 ?hs"
    by (simp add: numbered_items_def)
  have done': "numbered_items (nat ?e) ?hs = map (\<lambda>k. (int k, if int k < ?e then ?hs ! k else (?hs ! k)\<lparr>it_forms := []\<rparr>)) [0..<length ?hs]"
    by (auto simp: numbered_items_def zless_nat_eq_int_zless)
  define R where "R = foldl (read_mask_row ?e)
      \<lparr>rd_items = numbered_items 0 ?hs, rd_num_prev = - 1, rd_hist_item = None, rd_hist_item_last = None\<rparr>
      (stack_masks imgid (take (nat ?e) ?hs) 0)"
  have R: "rd_items R = numbered_items (nat ?e) ?hs"
    "last_forms (active_items S) = (case rd_hist_item_last R of None \<Rightarrow> [] | Some k \<Rightarrow> it_forms (?hs ! k))"
    "case rd_hist_item_last R of None \<Rightarrow> True | Some k \<Rightarrow> k < nat ?e"
    using read_rows [OF assms(3), where m = "nat ?e" and e = ?e and imgid = imgid] e
    unfolding R_def active_items_def by auto
  have "(case rd_hist_item_last R of None \<Rightarrow> [] | Some k \<Rightarrow> it_forms (snd (rd_items R ! k))) = last_forms (active_items S)"
    using R e by (auto simp: numbered_items_def split: option.splits)
  then show ?thesis
    unfolding dt_masks_read_masks_history_def rows zero by (simp add: R(1) done' flip: R_def)
qed

definition stored_circle :: masks_form where
  "stored_circle = (dt_masks_create 1 7)\<lparr>f_points := [replicate 16 1]\<rparr>"

definition stored_session :: session where
  "stored_session = example_session\<lparr>s_history :=
     [(new_item_for 2 False example_session)\<lparr>it_forms := [stored_circle]\<rparr>], s_history_end := 1\<rparr>"

theorem saved_shapes_are_read_witness:
  "dt_masks_read_masks_history 1 (db (dt_dev_write_history example_dev_env example_env stored_session 1
       (example_library [example_row 0 ''sharpen'' []] [] 1))) 1
       [(0, (new_item_for 2 False example_session)\<lparr>it_forms := []\<rparr>)] =
     ([(0, (new_item_for 2 False example_session)\<lparr>it_forms := [stored_circle]\<rparr>)], [stored_circle])"
proof -
  have P: "ptrs stored_session = {1, 2, 3, 4}" using example_ptrs by (simp add: stored_session_def)
  have mods: "it_module (new_item_for p m S) = p" for p m S by (simp add: new_item_for_def Let_def)
  have ok: "session_ok stored_session" using example_session_ok unfolding session_ok_def P
    by (simp add: stored_session_def mods)
  have im: "\<exists>r. t_images (db (example_library [example_row 0 ''sharpen'' []] [] 1)) 1 = Some r"
    by (simp add: example_library_def)
  have circle: "stored_shape stored_circle" "dt_masks_dup_masks_form stored_circle = stored_circle"
    by (simp_all add: stored_shape_def stored_circle_def dt_masks_create_def type_word_def point_struct_size_def
        DT_MASKS_CIRCLE_def dt_masks_dup_masks_form_def)
  have S: "s_history stored_session = [(new_item_for 2 False example_session)\<lparr>it_forms := [stored_circle]\<rparr>]"
    "s_history_end stored_session = 1" by (simp_all add: stored_session_def)
  have forms: "dt_masks_dup_forms_deep (last_forms (active_items stored_session)) None = [stored_circle]"
    by (simp add: active_items_def S last_forms_def dt_masks_dup_forms_deep_def circle)
  obtain r where "t_images (db (example_library [example_row 0 ''sharpen'' []] [] 1)) 1 = Some r" using im by blast
  from saved_shapes_are_read [OF this ok, where E = example_dev_env and H = example_env] show ?thesis
    using circle forms by (simp add: S)
qed

end
