(* ===== verification/Pipe_Nodes.thy ===== *)
theory Pipe_Nodes
  imports Masks_Groups
begin

text \<open>
  The nodes of a pixel pipe and how they follow the history of the session
  (\<open>src/develop/pixelpipe_hb.c\<close>, \<open>dt_iop_commit_params\<close> of \<open>src/develop/imageop.c\<close>): making and dropping the
  nodes, committing parameters to them, following all of the history or only its top item, and what a change flag leads to. A
  module's own \<open>commit_params\<close> and \<open>init_pipe\<close> are called through function pointers and are arguments of the
  model, with the contract the pipe relies on as a locale; the default implementations keep it. The fields of the
  blending parameters that are looked at are read by functions of the environment.
\<close>

unbundle bit_operations_syntax

section \<open>Pieces\<close>

record piece =
  pp_module :: nat
  pp_enabled :: bool
  pp_data :: blob
  pp_blend :: blob
  pp_hash :: "64 word"
  pp_cl_ready :: bool
  pp_tiling_ready :: bool
  pp_masks_cached :: bool

text \<open>The cropping exposer is a field of the develop structure, shared by its pipes.\<close>

record pipe_state =
  np_session :: session
  np_nodes :: "piece list"
  np_iop :: "nat list"
  np_order :: "dt_iop_order_entry_t list"
  np_cache :: "unit dt_dev_pixelpipe_t"
  np_want_detail :: bool
  np_scharr_hash :: "64 word"
  np_exposer :: "nat option"
  np_changed :: "32 word"
  np_shutdown :: int

record pipe_env =
  pe_dev :: dev_env
  pe_commit :: "nat \<Rightarrow> blob \<Rightarrow> piece \<Rightarrow> piece"
  pe_init :: "nat \<Rightarrow> piece \<Rightarrow> piece"
  pe_process_cl :: "nat \<Rightarrow> bool"
  pe_allow_tiling :: "nat \<Rightarrow> bool"
  pe_crop_exposer :: "nat \<Rightarrow> bool"
  pe_instance :: "nat \<Rightarrow> 32 word"
  pe_mask_mode :: "blob \<Rightarrow> 32 word"
  pe_details_set :: "blob \<Rightarrow> bool"
  pe_raster_source :: "blob \<Rightarrow> string \<times> int"
  pe_rawprepare_supported :: bool
  pe_filter_out :: "string list"
  pe_gui_module :: "nat option"
  pe_blend_size :: nat

definition DT_DEV_PIXELPIPE_STOP_NO :: int where "DT_DEV_PIXELPIPE_STOP_NO = 0"
definition DT_DEV_PIXELPIPE_STOP_NODES :: int where "DT_DEV_PIXELPIPE_STOP_NODES = 1"

definition DEVELOP_MASK_DISABLED :: "32 word" where "DEVELOP_MASK_DISABLED = 0"
definition DEVELOP_MASK_ENABLED :: "32 word" where "DEVELOP_MASK_ENABLED = 1"
definition DEVELOP_MASK_RASTER :: "32 word" where "DEVELOP_MASK_RASTER = 8"

text \<open>The functions of a module that has none of its own.\<close>

definition default_commit_params :: "nat \<Rightarrow> blob \<Rightarrow> piece \<Rightarrow> piece" where
  "default_commit_params p params pc = pc\<lparr>pp_data := params\<rparr>"

definition default_init_pipe :: "(nat \<Rightarrow> nat) \<Rightarrow> nat \<Rightarrow> piece \<Rightarrow> piece" where
  "default_init_pipe params_size p pc = pc\<lparr>pp_data := replicate (params_size p) 0\<rparr>"

definition dt_dev_pixelpipe_usedetails :: "pipe_state \<Rightarrow> pipe_state" where
  "dt_dev_pixelpipe_usedetails P =
     (if np_want_detail P then P
      else P\<lparr>np_cache := dt_dev_pixelpipe_cache_invalidate_later (np_cache P) 0, np_want_detail := True\<rparr>)"

definition dt_dev_clear_scharr_mask :: "pipe_state \<Rightarrow> pipe_state" where
  "dt_dev_clear_scharr_mask P =
     P\<lparr>np_scharr_hash := 0, np_nodes := map (\<lambda>pc. pc\<lparr>pp_masks_cached := False\<rparr>) (np_nodes P)\<rparr>"


section \<open>Committing parameters\<close>

text \<open>
  The module whose raster mask is used; the default blending parameters, recognised by their address, use none.
\<close>

definition new_raster :: "pipe_env \<Rightarrow> session \<Rightarrow> bool \<Rightarrow> blob \<Rightarrow> dt_iop_module_t option" where
  "new_raster E S is_default blend =
     (if is_default then None
      else find (\<lambda>m. dt_iop_module_is m (fst (pe_raster_source E blend)) \<and> mod_priority m = snd (pe_raster_source E blend))
             (s_iop S))"

definition string_bytes :: "string \<Rightarrow> 8 word list" where
  "string_bytes s = map (\<lambda>c. word_of_nat (of_char c)) s"

definition is_blending :: "pipe_env \<Rightarrow> nat \<Rightarrow> blob \<Rightarrow> bool" where
  "is_blending E p blend \<longleftrightarrow> supports_blending (info (pe_dev E) p) \<and>
     (pe_mask_mode E blend \<noteq> DEVELOP_MASK_DISABLED \<or> pe_gui_module E = Some p)"

definition commit_hash :: "pipe_env \<Rightarrow> session \<Rightarrow> nat \<Rightarrow> blob \<Rightarrow> 64 word" where
  "commit_hash E S p blend =
     (let h1 = dt_hash DT_INITHASH (string_bytes (mod_op (module_at S p)));
          h2 = dt_hash h1 (le_bytes 4 (pe_instance E p));
          h3 = dt_hash h2 (s_params S p)
      in if is_blending E p blend then mask_group_hash (s_forms S) (blend_mask_id blend) (dt_hash h3 blend) else h3)"

text \<open>The module's blending parameters are replaced as well; its parameters are not.\<close>

definition dt_iop_commit_params ::
  "pipe_env \<Rightarrow> bool \<Rightarrow> blob \<Rightarrow> blob \<Rightarrow> piece \<Rightarrow> pipe_state \<Rightarrow> piece \<times> pipe_state" where
  "dt_iop_commit_params E is_default params blend pc P =
     (let p = pp_module pc;
          S = (np_session P)\<lparr>s_blend := (s_blend (np_session P))(p := commit_blend (pe_dev E) p blend)\<rparr>;
          raster = new_raster E S is_default blend;
          pc1 = pc\<lparr>pp_blend := blend, pp_cl_ready := pe_process_cl E p \<or> pp_cl_ready pc,
                   pp_tiling_ready := pe_allow_tiling E p \<or> pp_tiling_ready pc\<rparr>;
          pc2 = pe_commit E p params pc1;
          hash = (if pp_enabled pc2 then commit_hash E S p blend else DT_INVALID_HASH);
          P1 = P\<lparr>np_session := S\<rparr>;
          P2 = (case raster of
                  Some m \<Rightarrow> if pp_enabled pc2 \<and> is_blending E p blend \<and> pe_mask_mode E blend AND DEVELOP_MASK_RASTER \<noteq> 0
                            then P1\<lparr>np_cache := dt_dev_pixelpipe_cache_invalidate_later (np_cache P1) (mod_order m)\<rparr>
                            else P1
                | None \<Rightarrow> P1)
      in (pc2\<lparr>pp_hash := hash\<rparr>, P2))"


section \<open>Following the history\<close>

text \<open>
  Whether a piece is on: the item's switch, corrected for modules that raw images need or other images do
  not have, for an item without a place, and for modules that are filtered out.
\<close>

definition synch_enabled :: "pipe_env \<Rightarrow> session \<Rightarrow> history_item \<Rightarrow> bool" where
  "synch_enabled E S h =
     (let m = module_at S (it_module h);
          raw = pe_rawprepare_supported E;
          active = it_enabled h;
          e1 = (if dt_iop_module_is m ''demosaic'' \<or> dt_iop_module_is m ''rawprepare''
                then (if raw \<and> \<not> active then True else if \<not> raw \<and> active then False else active)
                else if dt_iop_module_is m ''rawdenoise'' \<or> dt_iop_module_is m ''hotpixels'' \<or> dt_iop_module_is m ''cacorrect''
                then (if \<not> raw \<and> active then False else active)
                else active);
          e2 = (if active \<and> it_iop_order h = INT_MAX then False else e1)
      in e2 \<and> \<not> (\<exists>f\<in>set (pe_filter_out E). dt_iop_module_is m f))"

definition wants_details :: "pipe_env \<Rightarrow> piece \<Rightarrow> bool" where
  "wants_details E pc \<longleftrightarrow> pp_enabled pc \<and> pe_details_set E (pp_blend pc) \<and>
     pe_mask_mode E (pp_blend pc) > DEVELOP_MASK_ENABLED"

definition synch_piece :: "pipe_env \<Rightarrow> history_item \<Rightarrow> piece \<Rightarrow> pipe_state \<Rightarrow> piece \<times> pipe_state" where
  "synch_piece E h pc P =
     (let p = pp_module pc;
          P1 = (if pe_crop_exposer E p then P\<lparr>np_exposer := if it_enabled h then Some p else None\<rparr> else P);
          pc1 = pc\<lparr>pp_enabled := synch_enabled E (np_session P) h\<rparr>;
          (pc2, P2) = dt_iop_commit_params E False (it_params h) (it_blend_params h) pc1 P1
      in (pc2, if wants_details E pc2 then dt_dev_pixelpipe_usedetails P2 else P2))"

text \<open>A pass over the nodes that changes some of them.\<close>

primrec over_nodes ::
  "(piece \<Rightarrow> bool) \<Rightarrow> (piece \<Rightarrow> pipe_state \<Rightarrow> piece \<times> pipe_state) \<Rightarrow> piece list \<Rightarrow> pipe_state \<Rightarrow> piece list \<times> pipe_state" where
  "over_nodes sel f [] P = ([], P)"
| "over_nodes sel f (pc # pcs) P =
     (let (pc', P1) = (if sel pc then f pc P else (pc, P));
          (pcs', P2) = over_nodes sel f pcs P1
      in (pc' # pcs', P2))"

definition with_nodes :: "piece list \<times> pipe_state \<Rightarrow> pipe_state" where
  "with_nodes r = (snd r)\<lparr>np_nodes := fst r\<rparr>"

definition dev_pixelpipe_synch :: "pipe_env \<Rightarrow> history_item \<Rightarrow> pipe_state \<Rightarrow> pipe_state" where
  "dev_pixelpipe_synch E h P =
     with_nodes (over_nodes (\<lambda>pc. pp_module pc = it_module h) (synch_piece E h) (np_nodes P) P)"

definition reset_piece :: "pipe_env \<Rightarrow> piece \<Rightarrow> pipe_state \<Rightarrow> piece \<times> pipe_state" where
  "reset_piece E pc P =
     (let p = pp_module pc
      in dt_iop_commit_params E True (default_params (info (pe_dev E) p)) (default_blendop_params (info (pe_dev E) p))
           (pc\<lparr>pp_hash := DT_INVALID_HASH, pp_enabled := mod_default_enabled (module_at (np_session P) p)\<rparr>) P)"

definition dt_dev_pixelpipe_synch_all :: "pipe_env \<Rightarrow> pipe_state \<Rightarrow> pipe_state" where
  "dt_dev_pixelpipe_synch_all E P =
     (let P1 = P\<lparr>np_exposer := None\<rparr>;
          P2 = with_nodes (over_nodes (\<lambda>_. True) (reset_piece E) (np_nodes P1) P1);
          P3 = (dt_dev_clear_scharr_mask P2)\<lparr>np_want_detail := False\<rparr>
      in fold (dev_pixelpipe_synch E) (active_items (np_session P)) P3)"

definition dt_dev_pixelpipe_synch_top :: "pipe_env \<Rightarrow> pipe_state \<Rightarrow> pipe_state" where
  "dt_dev_pixelpipe_synch_top E P =
     (case g_list_nth (s_history (np_session P)) (s_history_end (np_session P) - 1) of
        Some h \<Rightarrow> dev_pixelpipe_synch E h P
      | None \<Rightarrow> P)"


section \<open>Making and dropping the nodes\<close>

definition dt_dev_pixelpipe_set_shutdown :: "int \<Rightarrow> pipe_state \<Rightarrow> pipe_state" where
  "dt_dev_pixelpipe_set_shutdown stopper P = P\<lparr>np_shutdown := stopper\<rparr>"

definition dt_dev_pixelpipe_cleanup_nodes :: "pipe_state \<Rightarrow> pipe_state" where
  "dt_dev_pixelpipe_cleanup_nodes P =
     (let P1 = (dt_dev_pixelpipe_set_shutdown DT_DEV_PIXELPIPE_STOP_NODES P)\<lparr>np_nodes := []\<rparr>
      in (dt_dev_clear_scharr_mask P1)\<lparr>np_want_detail := False, np_iop := [], np_order := []\<rparr>)"

definition new_piece :: "pipe_env \<Rightarrow> dt_iop_module_t \<Rightarrow> piece" where
  "new_piece E m =
     (pe_init E (mod_ptr m)
        \<lparr>pp_module = mod_ptr m, pp_enabled = mod_enabled m, pp_data = [], pp_blend = [], pp_hash = DT_INVALID_HASH,
         pp_cl_ready = False, pp_tiling_ready = False, pp_masks_cached = False\<rparr>)
       \<lparr>pp_blend := replicate (pe_blend_size E) 0\<rparr>"

text \<open>The assertions that the pipe was cleaned up.\<close>

definition dt_dev_pixelpipe_create_nodes :: "pipe_env \<Rightarrow> pipe_state \<Rightarrow> pipe_state cres" where
  "dt_dev_pixelpipe_create_nodes E P =
     (if np_nodes P \<noteq> [] \<or> np_iop P \<noteq> [] \<or> np_order P \<noteq> [] then Undefined
      else Ret (P\<lparr>np_shutdown := DT_DEV_PIXELPIPE_STOP_NO, np_order := s_order (np_session P),
                 np_iop := map mod_ptr (s_iop (np_session P)),
                 np_nodes := map (new_piece E) (s_iop (np_session P))\<rparr>))"

text \<open>The dimensions that are computed at the end are left out.\<close>

definition dt_dev_pixelpipe_change :: "pipe_env \<Rightarrow> pipe_state \<Rightarrow> pipe_state cres" where
  "dt_dev_pixelpipe_change E P =
     (let ch = np_changed P;
          sync_all = ch AND (DT_DEV_PIPE_SYNCH OR DT_DEV_PIPE_REMOVE) \<noteq> 0;
          sync_remove = ch AND DT_DEV_PIPE_REMOVE \<noteq> 0;
          P1 = (if ch AND DT_DEV_PIPE_TOP_CHANGED \<noteq> 0 \<and> \<not> sync_all then dt_dev_pixelpipe_synch_top E P else P);
          P2 = (if ch AND DT_DEV_PIPE_SYNCH \<noteq> 0 \<and> \<not> sync_remove then dt_dev_pixelpipe_synch_all E P1 else P1);
          P3 = (if sync_remove
                then (case dt_dev_pixelpipe_create_nodes E (dt_dev_pixelpipe_cleanup_nodes P2) of
                        Undefined \<Rightarrow> Undefined
                      | Ret P' \<Rightarrow> Ret (dt_dev_pixelpipe_synch_all E P'))
                else Ret P2)
      in case P3 of Undefined \<Rightarrow> Undefined | Ret P' \<Rightarrow> Ret (P'\<lparr>np_changed := DT_DEV_PIPE_UNCHANGED\<rparr>))"

text \<open>Switching off what comes after or before an operation; the list of nodes must not be empty.\<close>

definition dt_dev_pixelpipe_disable_before :: "string \<Rightarrow> pipe_state \<Rightarrow> pipe_state cres" where
  "dt_dev_pixelpipe_disable_before op_txt P =
     (let is_op = (\<lambda>pc. dt_iop_module_is (module_at (np_session P) (pp_module pc)) op_txt)
      in if np_nodes P = [] then Undefined
         else Ret (P\<lparr>np_nodes := map (\<lambda>pc. pc\<lparr>pp_enabled := False\<rparr>) (takeWhile (\<lambda>pc. \<not> is_op pc) (np_nodes P))
                                @ dropWhile (\<lambda>pc. \<not> is_op pc) (np_nodes P)\<rparr>))"

definition dt_dev_pixelpipe_disable_after :: "string \<Rightarrow> pipe_state \<Rightarrow> pipe_state cres" where
  "dt_dev_pixelpipe_disable_after op_txt P =
     (let is_op = (\<lambda>pc. dt_iop_module_is (module_at (np_session P) (pp_module pc)) op_txt);
          back = rev (np_nodes P)
      in if np_nodes P = [] then Undefined
         else Ret (P\<lparr>np_nodes := rev (map (\<lambda>pc. pc\<lparr>pp_enabled := False\<rparr>) (takeWhile (\<lambda>pc. \<not> is_op pc) back)
                                     @ dropWhile (\<lambda>pc. \<not> is_op pc) back)\<rparr>))"

definition dt_iop_module_is_skipped ::
  "(nat \<Rightarrow> 32 word) \<Rightarrow> (nat \<Rightarrow> 32 word) \<Rightarrow> nat option \<Rightarrow> session \<Rightarrow> dt_iop_module_t \<Rightarrow> bool" where
  "dt_iop_module_is_skipped operation_tags_filter operation_tags gui S m =
     (case gui of
        None \<Rightarrow> False
      | Some g \<Rightarrow> g \<noteq> mod_ptr m \<and> operation_tags_filter g AND operation_tags (mod_ptr m) \<noteq> 0 \<and>
          mod_order (module_at S g) < mod_order m)"

definition skip_piece_on_tags ::
  "(nat \<Rightarrow> 32 word) \<Rightarrow> (nat \<Rightarrow> 32 word) \<Rightarrow> nat option \<Rightarrow> bool \<Rightarrow> session \<Rightarrow> piece \<Rightarrow> bool" where
  "skip_piece_on_tags flt tags gui basic S pc =
     (let m = module_at S (pp_module pc)
      in \<not> pp_enabled pc \<or> mod_order m = INT_MAX \<or> dt_iop_module_is_skipped flt tags gui S m \<and> basic)"



section \<open>What the pipe relies on\<close>

text \<open>
  The contract of a module's \<open>commit_params\<close>: it belongs to the module, leaves the blending data, and what it stores and
  whether the piece stays on follow from the parameters and from whether the piece is on, not from what was committed before.
\<close>

locale module_commit =
  fixes commit :: "nat \<Rightarrow> blob \<Rightarrow> piece \<Rightarrow> piece"
  assumes keeps_module: "pp_module (commit p a pc) = pp_module pc"
    and keeps_blend: "pp_blend (commit p a pc) = pp_blend pc"
    and data_from_params: "pp_enabled pc = pp_enabled pc' \<Longrightarrow> pp_data (commit p a pc) = pp_data (commit p a pc')"
    and enabled_from_params: "pp_enabled pc = pp_enabled pc' \<Longrightarrow> pp_enabled (commit p a pc) = pp_enabled (commit p a pc')"

interpretation default_commit: module_commit default_commit_params
  by unfold_locales (simp_all add: default_commit_params_def)

text \<open>What a piece is for the processing, and what committing parameters makes of it.\<close>

definition piece_state :: "piece \<Rightarrow> bool \<times> blob \<times> blob \<times> 64 word" where
  "piece_state pc = (pp_enabled pc, pp_data pc, pp_blend pc, pp_hash pc)"

definition blank_piece :: "nat \<Rightarrow> bool \<Rightarrow> piece" where
  "blank_piece p en = \<lparr>pp_module = p, pp_enabled = en, pp_data = [], pp_blend = [], pp_hash = DT_INVALID_HASH,
     pp_cl_ready = False, pp_tiling_ready = False, pp_masks_cached = False\<rparr>"

definition committed :: "pipe_env \<Rightarrow> session \<Rightarrow> nat \<Rightarrow> bool \<Rightarrow> blob \<Rightarrow> blob \<Rightarrow> bool \<times> blob \<times> blob \<times> 64 word" where
  "committed E S p en params blend =
     (let pc = pe_commit E p params (blank_piece p en)
      in (pp_enabled pc, pp_data pc, blend, if pp_enabled pc then commit_hash E S p blend else DT_INVALID_HASH))"

definition followed :: "pipe_env \<Rightarrow> session \<Rightarrow> history_item list \<Rightarrow> nat \<Rightarrow> bool \<times> blob \<times> blob \<times> 64 word" where
  "followed E S hs p =
     (case last_item p hs of
        None \<Rightarrow> committed E S p (mod_default_enabled (module_at S p)) (default_params (info (pe_dev E) p))
                  (default_blendop_params (info (pe_dev E) p))
      | Some h \<Rightarrow> committed E S p (synch_enabled E S h) (it_params h) (it_blend_params h))"

text \<open>The pipe only writes the blending parameters of the session.\<close>

definition core :: "session \<Rightarrow> session" where
  "core S = S\<lparr>s_blend := (\<lambda>_. [])\<rparr>"

lemma core_blend [simp]: "core (S\<lparr>s_blend := b\<rparr>) = core S"
  by (simp add: core_def)

lemma core_fields:
  assumes "core S = core S'"
  shows "s_iop S = s_iop S'" "s_history S = s_history S'" "s_history_end S = s_history_end S'" "s_params S = s_params S'"
    "s_forms S = s_forms S'" "s_order S = s_order S'"
proof -
  have "s_iop (core S) = s_iop (core S')" "s_history (core S) = s_history (core S')"
    "s_history_end (core S) = s_history_end (core S')" "s_params (core S) = s_params (core S')"
    "s_forms (core S) = s_forms (core S')" "s_order (core S) = s_order (core S')" by (simp_all only: assms)
  then show "s_iop S = s_iop S'" "s_history S = s_history S'" "s_history_end S = s_history_end S'" "s_params S = s_params S'"
    "s_forms S = s_forms S'" "s_order S = s_order S'" by (simp_all add: core_def)
qed

lemma core_cong:
  assumes "core S = core S'"
  shows "module_at S = module_at S'" "active_items S = active_items S'" "commit_hash E S = commit_hash E S'"
    "synch_enabled E S = synch_enabled E S'" "committed E S = committed E S'" "followed E S = followed E S'"
proof -
  note F = core_fields [OF assms]
  show m: "module_at S = module_at S'" by (intro ext) (simp add: module_at_def F)
  show "active_items S = active_items S'" by (simp add: active_items_def F)
  show h: "commit_hash E S = commit_hash E S'" by (intro ext) (simp add: commit_hash_def F m Let_def)
  show e: "synch_enabled E S = synch_enabled E S'" by (intro ext) (simp add: synch_enabled_def m)
  show c: "committed E S = committed E S'" by (intro ext) (simp only: committed_def h)
  show "followed E S = followed E S'" by (intro ext) (simp only: followed_def c e m)
qed

text \<open>A pass over the nodes, when the function works like committing parameters.\<close>

definition pieces_follow :: "(nat \<Rightarrow> bool) \<Rightarrow> (nat \<Rightarrow> bool \<times> blob \<times> blob \<times> 64 word) \<Rightarrow> piece list \<Rightarrow> piece list \<Rightarrow> bool" where
  "pieces_follow Q G pcs pcs' \<longleftrightarrow> list_all2 (\<lambda>pc pc'. pp_module pc' = pp_module pc \<and>
     piece_state pc' = (if Q (pp_module pc) then G (pp_module pc) else piece_state pc)) pcs pcs'"

lemma over_nodes_facts:
  fixes pcs :: "piece list"
  assumes step: "\<And>pc P. core (np_session P) = C \<Longrightarrow> Q (pp_module pc) \<Longrightarrow>
      pp_module (fst (f pc P)) = pp_module pc \<and> piece_state (fst (f pc P)) = G (pp_module pc) \<and>
      core (np_session (snd (f pc P))) = C \<and>
      s_blend (np_session (snd (f pc P))) = (s_blend (np_session P))(pp_module pc := B (pp_module pc)) \<and>
      np_exposer (snd (f pc P)) = X (pp_module pc) (np_exposer P)"
    and X: "\<And>p x. X p (X p x) = X p x"
    and one: "\<And>p q. Q p \<Longrightarrow> Q q \<Longrightarrow> X p = X q"
    and C: "core (np_session P) = C"
  defines "R \<equiv> over_nodes (\<lambda>pc. Q (pp_module pc)) f pcs P"
  shows "pieces_follow Q G pcs (fst R) \<and> core (np_session (snd R)) = C \<and>
    (\<forall>q. s_blend (np_session (snd R)) q =
      (if q \<in> pp_module ` set pcs \<and> Q q then B q else s_blend (np_session P) q)) \<and>
    np_exposer (snd R) = (case filter (\<lambda>pc. Q (pp_module pc)) pcs of
      [] \<Rightarrow> np_exposer P | pc # _ \<Rightarrow> X (pp_module pc) (np_exposer P))"
  using C unfolding R_def
proof (induction pcs arbitrary: P)
  case Nil
  then show ?case by (simp add: pieces_follow_def)
next
  case (Cons pc pcs)
  show ?case
  proof (cases "Q (pp_module pc)")
    case False
    with Cons.IH [OF Cons.prems] show ?thesis
      by (auto simp: pieces_follow_def split_beta Let_def)
  next
    case True
    let ?P = "snd (f pc P)"
    note st = step [OF Cons.prems True]
    note IH = Cons.IH [of ?P]
    have ex: "(case filter (\<lambda>pc. Q (pp_module pc)) pcs of [] \<Rightarrow> np_exposer ?P
        | pc # _ \<Rightarrow> X (pp_module pc) (np_exposer ?P)) = X (pp_module pc) (np_exposer P)"
    proof (cases "filter (\<lambda>pc. Q (pp_module pc)) pcs")
      case (Cons pc' r)
      then have "Q (pp_module pc')" using filter_set [of "\<lambda>pc. Q (pp_module pc)" pcs]
        by (metis (mono_tags, lifting) filter_eq_Cons_iff)
      then show ?thesis using st one [OF True] X Cons by simp
    qed (use st in simp)
    show ?thesis using IH st True ex by (auto simp: pieces_follow_def split_beta Let_def)
  qed
qed

lemma with_nodes_simps [simp]:
  "np_nodes (with_nodes r) = fst r" "np_session (with_nodes r) = np_session (snd r)"
  "np_exposer (with_nodes r) = np_exposer (snd r)"
  by (simp_all add: with_nodes_def)

definition exposer_after :: "pipe_env \<Rightarrow> nat set \<Rightarrow> history_item list \<Rightarrow> nat option \<Rightarrow> nat option" where
  "exposer_after E ms hs x = foldl (\<lambda>x h. if pe_crop_exposer E (it_module h) \<and> it_module h \<in> ms
     then (if it_enabled h then Some (it_module h) else None) else x) x hs"

lemma pieces_follow_modules: "pieces_follow Q G pcs pcs' \<Longrightarrow> map pp_module pcs' = map pp_module pcs"
  by (simp add: pieces_follow_def list_all2_conv_all_nth list_eq_iff_nth_eq)

context module_commit
begin

lemma commit_params_facts:
  assumes "pe_commit E = commit"
  shows "pp_module (fst (dt_iop_commit_params E d params blend pc P)) = pp_module pc"
    and "piece_state (fst (dt_iop_commit_params E d params blend pc P)) =
      committed E (np_session P) (pp_module pc) (pp_enabled pc) params blend"
    and "np_session (snd (dt_iop_commit_params E d params blend pc P)) = (np_session P)\<lparr>s_blend :=
      (s_blend (np_session P))(pp_module pc := commit_blend (pe_dev E) (pp_module pc) blend)\<rparr>"
    and "np_exposer (snd (dt_iop_commit_params E d params blend pc P)) = np_exposer P"
proof -
  show "pp_module (fst (dt_iop_commit_params E d params blend pc P)) = pp_module pc"
    by (simp add: dt_iop_commit_params_def Let_def assms keeps_module)
  let ?S = "(np_session P)\<lparr>s_blend := (s_blend (np_session P))(pp_module pc := commit_blend (pe_dev E) (pp_module pc) blend)\<rparr>"
  let ?pc = "pc\<lparr>pp_blend := blend, pp_cl_ready := pe_process_cl E (pp_module pc) \<or> pp_cl_ready pc,
    pp_tiling_ready := pe_allow_tiling E (pp_module pc) \<or> pp_tiling_ready pc\<rparr>"
  have "commit_hash E ?S = commit_hash E (np_session P)" by (rule core_cong) simp
  moreover have "pp_enabled (commit (pp_module pc) params ?pc) =
      pp_enabled (commit (pp_module pc) params (blank_piece (pp_module pc) (pp_enabled pc)))"
    by (rule enabled_from_params) (simp add: blank_piece_def)
  moreover have "pp_data (commit (pp_module pc) params ?pc) =
      pp_data (commit (pp_module pc) params (blank_piece (pp_module pc) (pp_enabled pc)))"
    by (rule data_from_params) (simp add: blank_piece_def)
  ultimately show "piece_state (fst (dt_iop_commit_params E d params blend pc P)) =
      committed E (np_session P) (pp_module pc) (pp_enabled pc) params blend"
    by (simp add: dt_iop_commit_params_def Let_def assms keeps_blend piece_state_def committed_def)
  show "np_session (snd (dt_iop_commit_params E d params blend pc P)) = ?S"
    "np_exposer (snd (dt_iop_commit_params E d params blend pc P)) = np_exposer P"
    by (simp_all add: dt_iop_commit_params_def Let_def split: option.split)
qed

lemma synch_piece_facts:
  assumes "pe_commit E = commit"
  shows "pp_module (fst (synch_piece E h pc P)) = pp_module pc"
    and "piece_state (fst (synch_piece E h pc P)) =
      committed E (np_session P) (pp_module pc) (synch_enabled E (np_session P) h) (it_params h) (it_blend_params h)"
    and "np_session (snd (synch_piece E h pc P)) = (np_session P)\<lparr>s_blend :=
      (s_blend (np_session P))(pp_module pc := commit_blend (pe_dev E) (pp_module pc) (it_blend_params h))\<rparr>"
    and "np_exposer (snd (synch_piece E h pc P)) =
      (if pe_crop_exposer E (pp_module pc) then (if it_enabled h then Some (pp_module pc) else None) else np_exposer P)"
  using commit_params_facts [OF assms, of False "it_params h" "it_blend_params h"
      "pc\<lparr>pp_enabled := synch_enabled E (np_session P) h\<rparr>"
      "if pe_crop_exposer E (pp_module pc) then P\<lparr>np_exposer := if it_enabled h then Some (pp_module pc) else None\<rparr> else P"]
  by (simp_all add: synch_piece_def Let_def split_beta dt_dev_pixelpipe_usedetails_def split: if_splits)

lemma synch_facts:
  fixes h :: history_item
  assumes "pe_commit E = commit" and "core (np_session P) = core S"
  defines "P' \<equiv> dev_pixelpipe_synch E h P"
  shows "pieces_follow (\<lambda>p. p = it_module h)
      (\<lambda>p. committed E S p (synch_enabled E S h) (it_params h) (it_blend_params h)) (np_nodes P) (np_nodes P')"
    and "core (np_session P') = core S"
    and "s_blend (np_session P') q = (if q \<in> pp_module ` set (np_nodes P) \<and> q = it_module h
      then commit_blend (pe_dev E) q (it_blend_params h) else s_blend (np_session P) q)"
    and "np_exposer P' = (if pe_crop_exposer E (it_module h) \<and> it_module h \<in> pp_module ` set (np_nodes P)
      then (if it_enabled h then Some (it_module h) else None) else np_exposer P)"
proof -
  let ?p = "it_module h"
  let ?X = "\<lambda>p x. if pe_crop_exposer E p then (if it_enabled h then Some p else None) else x"
  let ?R = "over_nodes (\<lambda>pc. pp_module pc = ?p) (synch_piece E h) (np_nodes P) P"
  have "pieces_follow (\<lambda>p. p = ?p) (\<lambda>p. committed E S p (synch_enabled E S h) (it_params h) (it_blend_params h))
      (np_nodes P) (fst ?R) \<and> core (np_session (snd ?R)) = core S \<and>
    (\<forall>q. s_blend (np_session (snd ?R)) q = (if q \<in> pp_module ` set (np_nodes P) \<and> q = ?p
      then commit_blend (pe_dev E) q (it_blend_params h) else s_blend (np_session P) q)) \<and>
    np_exposer (snd ?R) = (case filter (\<lambda>pc. pp_module pc = ?p) (np_nodes P) of
      [] \<Rightarrow> np_exposer P | pc # _ \<Rightarrow> ?X (pp_module pc) (np_exposer P))"
  proof (rule over_nodes_facts)
    fix pc :: piece and P :: pipe_state assume C: "core (np_session P) = core S"
    show "pp_module (fst (synch_piece E h pc P)) = pp_module pc \<and>
      piece_state (fst (synch_piece E h pc P)) =
        committed E S (pp_module pc) (synch_enabled E S h) (it_params h) (it_blend_params h) \<and>
      core (np_session (snd (synch_piece E h pc P))) = core S \<and>
      s_blend (np_session (snd (synch_piece E h pc P))) =
        (s_blend (np_session P))(pp_module pc := commit_blend (pe_dev E) (pp_module pc) (it_blend_params h)) \<and>
      np_exposer (snd (synch_piece E h pc P)) = ?X (pp_module pc) (np_exposer P)"
      using synch_piece_facts [OF assms(1), of h pc P] C core_cong(4,5) [OF C, of E] by simp
  qed (use assms(2) in auto)
  moreover have "(case filter (\<lambda>pc. pp_module pc = ?p) pcs of [] \<Rightarrow> x | pc # _ \<Rightarrow> ?X (pp_module pc) x) =
      (if pe_crop_exposer E ?p \<and> ?p \<in> pp_module ` set pcs then (if it_enabled h then Some ?p else None) else x)" for pcs x
    by (induction pcs) auto
  moreover have "P' = with_nodes ?R" by (simp add: P'_def dev_pixelpipe_synch_def)
  ultimately show "pieces_follow (\<lambda>p. p = it_module h)
      (\<lambda>p. committed E S p (synch_enabled E S h) (it_params h) (it_blend_params h)) (np_nodes P) (np_nodes P')"
    "core (np_session P') = core S"
    "s_blend (np_session P') q = (if q \<in> pp_module ` set (np_nodes P) \<and> q = it_module h
      then commit_blend (pe_dev E) q (it_blend_params h) else s_blend (np_session P) q)"
    "np_exposer P' = (if pe_crop_exposer E (it_module h) \<and> it_module h \<in> pp_module ` set (np_nodes P)
      then (if it_enabled h then Some (it_module h) else None) else np_exposer P)"
    by (simp_all only: with_nodes_simps)
qed

lemma reset_facts:
  assumes "pe_commit E = commit" and "core (np_session P) = core S"
  defines "R \<equiv> over_nodes (\<lambda>_. True) (reset_piece E) (np_nodes P) P"
  shows "pieces_follow (\<lambda>p. True) (followed E S []) (np_nodes P) (fst R) \<and> core (np_session (snd R)) = core S \<and>
    (\<forall>q. s_blend (np_session (snd R)) q =
      (if q \<in> pp_module ` set (np_nodes P) then replay_blend (pe_dev E) [] q else s_blend (np_session P) q)) \<and>
    np_exposer (snd R) = np_exposer P"
proof -
  have "pieces_follow (\<lambda>p. True) (followed E S []) (np_nodes P) (fst R) \<and> core (np_session (snd R)) = core S \<and>
    (\<forall>q. s_blend (np_session (snd R)) q =
      (if q \<in> pp_module ` set (np_nodes P) \<and> True then replay_blend (pe_dev E) [] q else s_blend (np_session P) q)) \<and>
    np_exposer (snd R) = (case filter (\<lambda>pc. True) (np_nodes P) of [] \<Rightarrow> np_exposer P | pc # _ \<Rightarrow> np_exposer P)"
    unfolding R_def
  proof (rule over_nodes_facts [where X = "\<lambda>_ x. x"])
    fix pc :: piece and P :: pipe_state assume C: "core (np_session P) = core S"
    let ?p = "pp_module pc"
    show "pp_module (fst (reset_piece E pc P)) = ?p \<and>
      piece_state (fst (reset_piece E pc P)) = followed E S [] ?p \<and>
      core (np_session (snd (reset_piece E pc P))) = core S \<and>
      s_blend (np_session (snd (reset_piece E pc P))) =
        (s_blend (np_session P))(?p := replay_blend (pe_dev E) [] ?p) \<and>
      np_exposer (snd (reset_piece E pc P)) = np_exposer P"
      using commit_params_facts [OF assms(1), where d = True and params = "default_params (info (pe_dev E) ?p)"
          and blend = "default_blendop_params (info (pe_dev E) ?p)" and P = P
          and pc = "pc\<lparr>pp_hash := DT_INVALID_HASH, pp_enabled := mod_default_enabled (module_at (np_session P) ?p)\<rparr>"]
        core_cong(1) [OF C] core_cong(5) [OF C, of E] C
      by (simp add: reset_piece_def Let_def followed_def replay_blend_def)
  qed (use assms(2) in auto)
  then show ?thesis by (simp split: list.splits)
qed

lemma fold_synch_facts:
  assumes "pe_commit E = commit" and "core (np_session P) = core S"
    and "\<And>pc. pc \<in> set (np_nodes P) \<Longrightarrow> piece_state pc = followed E S gs (pp_module pc)"
    and "\<And>q. q \<in> pp_module ` set (np_nodes P) \<Longrightarrow> s_blend (np_session P) q = replay_blend (pe_dev E) gs q"
  shows "(let P' = fold (dev_pixelpipe_synch E) hs P in
    map pp_module (np_nodes P') = map pp_module (np_nodes P) \<and>
    (\<forall>pc\<in>set (np_nodes P'). piece_state pc = followed E S (gs @ hs) (pp_module pc)) \<and>
    core (np_session P') = core S \<and>
    (\<forall>q\<in>pp_module ` set (np_nodes P). s_blend (np_session P') q = replay_blend (pe_dev E) (gs @ hs) q) \<and>
    np_exposer P' = exposer_after E (pp_module ` set (np_nodes P)) hs (np_exposer P))"
proof (induction hs rule: rev_induct)
  case Nil
  then show ?case using assms(2-4) by (auto simp: exposer_after_def)
next
  case (snoc h hs)
  let ?P = "fold (dev_pixelpipe_synch E) hs P"
  let ?Q = "dev_pixelpipe_synch E h ?P"
  have IH: "map pp_module (np_nodes ?P) = map pp_module (np_nodes P)"
    "\<forall>pc\<in>set (np_nodes ?P). piece_state pc = followed E S (gs @ hs) (pp_module pc)" "core (np_session ?P) = core S"
    "\<forall>q\<in>pp_module ` set (np_nodes P). s_blend (np_session ?P) q = replay_blend (pe_dev E) (gs @ hs) q"
    "np_exposer ?P = exposer_after E (pp_module ` set (np_nodes P)) hs (np_exposer P)"
    using snoc.IH by (simp_all add: Let_def)
  have ms: "pp_module ` set (np_nodes ?P) = pp_module ` set (np_nodes P)" using IH(1) by (metis list.set_map)
  note F = synch_facts [OF assms(1) IH(3), of h]
  have "piece_state pc = followed E S (gs @ hs @ [h]) (pp_module pc)" if pc: "pc \<in> set (np_nodes ?Q)" for pc
  proof -
    obtain i where i: "i < length (np_nodes ?Q)" "pc = np_nodes ?Q ! i" using pc by (auto simp: in_set_conv_nth)
    then have i': "i < length (np_nodes ?P)" using F(1) by (simp add: pieces_follow_def list_all2_conv_all_nth)
    then have "pp_module pc = pp_module (np_nodes ?P ! i)"
      "piece_state pc = (if pp_module (np_nodes ?P ! i) = it_module h
        then committed E S (pp_module (np_nodes ?P ! i)) (synch_enabled E S h) (it_params h) (it_blend_params h)
        else piece_state (np_nodes ?P ! i))"
      using F(1) i by (simp_all add: pieces_follow_def list_all2_conv_all_nth)
    moreover have "piece_state (np_nodes ?P ! i) = followed E S (gs @ hs) (pp_module (np_nodes ?P ! i))"
      using IH(2) i' by simp
    ultimately show ?thesis using last_item_simps(2) [of _ "gs @ hs" h] by (simp add: followed_def)
  qed
  moreover have "s_blend (np_session ?Q) q = replay_blend (pe_dev E) (gs @ hs @ [h]) q"
    if "q \<in> pp_module ` set (np_nodes P)" for q
  proof -
    have "s_blend (np_session ?P) q = replay_blend (pe_dev E) (gs @ hs) q" using IH(4) that by blast
    then show ?thesis
      using F(3) [of q] that last_item_simps(2) [of q "gs @ hs" h] unfolding ms by (simp add: replay_blend_def)
  qed
  moreover have "np_exposer ?Q = exposer_after E (pp_module ` set (np_nodes P)) (hs @ [h]) (np_exposer P)"
    unfolding F(4) ms IH(5) by (simp add: exposer_after_def)
  ultimately show ?case using F(2) pieces_follow_modules [OF F(1)] IH(1) by (simp add: Let_def)
qed

lemma synch_all_facts:
  fixes P :: pipe_state
  assumes "pe_commit E = commit"
  defines "P' \<equiv> dt_dev_pixelpipe_synch_all E P" and "hs \<equiv> active_items (np_session P)"
  shows "map pp_module (np_nodes P') = map pp_module (np_nodes P)"
    and "\<forall>pc\<in>set (np_nodes P'). piece_state pc = followed E (np_session P) hs (pp_module pc)"
    and "core (np_session P') = core (np_session P)"
    and "\<forall>q\<in>pp_module ` set (np_nodes P). s_blend (np_session P') q = replay_blend (pe_dev E) hs q"
    and "np_exposer P' = exposer_after E (pp_module ` set (np_nodes P)) hs None"
proof -
  define P1 where "P1 = P\<lparr>np_exposer := None\<rparr>"
  have P1: "np_nodes P1 = np_nodes P" "np_session P1 = np_session P" "np_exposer P1 = None" by (simp_all add: P1_def)
  let ?R = "over_nodes (\<lambda>_. True) (reset_piece E) (np_nodes P1) P1"
  let ?P3 = "(dt_dev_clear_scharr_mask (with_nodes ?R))\<lparr>np_want_detail := False\<rparr>"
  have R: "pieces_follow (\<lambda>p. True) (followed E (np_session P) []) (np_nodes P) (fst ?R)"
    "core (np_session (snd ?R)) = core (np_session P)"
    "\<forall>q. s_blend (np_session (snd ?R)) q =
      (if q \<in> pp_module ` set (np_nodes P) then replay_blend (pe_dev E) [] q else s_blend (np_session P) q)"
    "np_exposer (snd ?R) = None"
    using reset_facts [OF assms(1), of P1 "np_session P"] by (simp_all add: P1)
  have P3: "np_session ?P3 = np_session (snd ?R)" "np_exposer ?P3 = None"
    "np_nodes ?P3 = map (\<lambda>pc. pc\<lparr>pp_masks_cached := False\<rparr>) (fst ?R)"
    using R(4) by (simp_all add: dt_dev_clear_scharr_mask_def)
  have ms: "map pp_module (np_nodes ?P3) = map pp_module (np_nodes P)"
    using pieces_follow_modules [OF R(1)] by (simp add: P3 comp_def)
  have ms': "pp_module ` set (np_nodes ?P3) = pp_module ` set (np_nodes P)" using ms by (metis list.set_map)
  have st: "piece_state pc = followed E (np_session P) [] (pp_module pc)" if "pc \<in> set (np_nodes ?P3)" for pc
    using that R(1) unfolding P3(3)
    by (auto simp: pieces_follow_def list_all2_conv_all_nth in_set_conv_nth piece_state_def)
  have bl: "s_blend (np_session ?P3) q = replay_blend (pe_dev E) [] q" if "q \<in> pp_module ` set (np_nodes ?P3)" for q
    using that R(3) unfolding ms' by (simp add: P3)
  have P': "P' = fold (dev_pixelpipe_synch E) hs ?P3"
    by (simp add: P'_def dt_dev_pixelpipe_synch_all_def hs_def Let_def P1_def)
  have C: "core (np_session ?P3) = core (np_session P)" using R(2) by (simp only: P3)
  note F = fold_synch_facts [OF assms(1) C st bl, of hs, unfolded Let_def, folded P', unfolded ms ms' P3(2) append_Nil]
  show "map pp_module (np_nodes P') = map pp_module (np_nodes P)"
    "\<forall>pc\<in>set (np_nodes P'). piece_state pc = followed E (np_session P) hs (pp_module pc)"
    "core (np_session P') = core (np_session P)"
    "\<forall>q\<in>pp_module ` set (np_nodes P). s_blend (np_session P') q = replay_blend (pe_dev E) hs q"
    "np_exposer P' = exposer_after E (pp_module ` set (np_nodes P)) hs None"
    using F by blast+
qed

lemma synch_top_facts:
  fixes P :: pipe_state
  assumes "pe_commit E = commit" and hs: "active_items (np_session P) = hs @ [h]"
    and len: "s_history_end (np_session P) = int (length (s_history (np_session P)))"
    and others: "\<forall>pc\<in>set (np_nodes P). pp_module pc \<noteq> it_module h \<longrightarrow>
      piece_state pc = followed E (np_session P) (hs @ [h]) (pp_module pc)"
  defines "P' \<equiv> dt_dev_pixelpipe_synch_top E P"
  shows "map pp_module (np_nodes P') = map pp_module (np_nodes P)"
    and "\<forall>pc\<in>set (np_nodes P'). piece_state pc = followed E (np_session P) (hs @ [h]) (pp_module pc)"
    and "core (np_session P') = core (np_session P)"
    and "s_blend (np_session P') q = (if q \<in> pp_module ` set (np_nodes P) \<and> q = it_module h
      then commit_blend (pe_dev E) q (it_blend_params h) else s_blend (np_session P) q)"
    and "np_exposer P' = exposer_after E (pp_module ` set (np_nodes P)) [h] (np_exposer P)"
proof -
  have H: "s_history (np_session P) = hs @ [h]" using hs len by (simp add: active_items_def)
  then have "g_list_nth (s_history (np_session P)) (s_history_end (np_session P) - 1) = Some h"
    using len by (simp add: g_list_nth_def)
  then have P': "P' = dev_pixelpipe_synch E h P" by (simp add: P'_def dt_dev_pixelpipe_synch_top_def)
  note F = synch_facts [OF assms(1) refl, of h P, folded P']
  show "map pp_module (np_nodes P') = map pp_module (np_nodes P)" by (rule pieces_follow_modules [OF F(1)])
  show "core (np_session P') = core (np_session P)" by (rule F(2))
  show "s_blend (np_session P') q = (if q \<in> pp_module ` set (np_nodes P) \<and> q = it_module h
      then commit_blend (pe_dev E) q (it_blend_params h) else s_blend (np_session P) q)" by (rule F(3))
  show "np_exposer P' = exposer_after E (pp_module ` set (np_nodes P)) [h] (np_exposer P)"
    unfolding F(4) by (simp add: exposer_after_def)
  show "\<forall>pc\<in>set (np_nodes P'). piece_state pc = followed E (np_session P) (hs @ [h]) (pp_module pc)"
  proof
    fix pc assume pc: "pc \<in> set (np_nodes P')"
    obtain i where i: "i < length (np_nodes P')" "pc = np_nodes P' ! i" using pc by (auto simp: in_set_conv_nth)
    then have i': "i < length (np_nodes P)" using F(1) by (simp add: pieces_follow_def list_all2_conv_all_nth)
    then have "pp_module pc = pp_module (np_nodes P ! i)"
      "piece_state pc = (if pp_module (np_nodes P ! i) = it_module h
        then committed E (np_session P) (pp_module (np_nodes P ! i)) (synch_enabled E (np_session P) h) (it_params h) (it_blend_params h)
        else piece_state (np_nodes P ! i))"
      using F(1) i by (simp_all add: pieces_follow_def list_all2_conv_all_nth)
    then show "piece_state pc = followed E (np_session P) (hs @ [h]) (pp_module pc)"
      using others i' by (simp add: followed_def)
  qed
qed

end

text \<open>
  Following the whole history gives every piece of the pipe exactly what the state of the history means:
  the parameters and blending parameters of the last active item of its module, or the defaults, on or off
  as that item says (corrected for the kind of image), and the hash of the module. No node is added or lost, and of the
  session only the blending parameters of the modules are written, to those same values.
\<close>

theorem synch_all_follows_history:
  assumes "module_commit (pe_commit E)"
  shows "let P' = dt_dev_pixelpipe_synch_all E P; hs = active_items (np_session P) in
    map pp_module (np_nodes P') = map pp_module (np_nodes P) \<and>
    (\<forall>pc\<in>set (np_nodes P'). piece_state pc = followed E (np_session P) hs (pp_module pc)) \<and>
    core (np_session P') = core (np_session P) \<and>
    (\<forall>q\<in>pp_module ` set (np_nodes P). s_blend (np_session P') q = replay_blend (pe_dev E) hs q) \<and>
    np_exposer P' = exposer_after E (pp_module ` set (np_nodes P)) hs None"
  using module_commit.synch_all_facts [OF assms refl, of P] by (simp add: Let_def)

text \<open>
  C21: When only the top item of the history changed, following that item alone does what following the whole
  history does: if every other piece and the crop exposer were as the history says (with another top item of the same
  module), the pieces, the exposer and the blending parameters of the modules end up the same.
\<close>

theorem synch_top_equals_synch_all:
  assumes "module_commit (pe_commit E)" and "active_items (np_session P) = hs @ [h]"
    and "s_history_end (np_session P) = int (length (s_history (np_session P)))"
    and "\<forall>pc\<in>set (np_nodes P). pp_module pc \<noteq> it_module h \<longrightarrow>
      piece_state pc = followed E (np_session P) (hs @ [h]) (pp_module pc)"
    and "\<forall>q\<in>pp_module ` set (np_nodes P). q \<noteq> it_module h \<longrightarrow>
      s_blend (np_session P) q = replay_blend (pe_dev E) (hs @ [h]) q"
    and "np_exposer P = exposer_after E (pp_module ` set (np_nodes P)) (hs @ [h0]) None" and "it_module h0 = it_module h"
  shows "let P1 = dt_dev_pixelpipe_synch_top E P; P2 = dt_dev_pixelpipe_synch_all E P in
    map piece_state (np_nodes P1) = map piece_state (np_nodes P2) \<and> np_exposer P1 = np_exposer P2 \<and>
    (\<forall>q\<in>pp_module ` set (np_nodes P). s_blend (np_session P1) q = s_blend (np_session P2) q)"
proof -
  let ?P1 = "dt_dev_pixelpipe_synch_top E P" and ?P2 = "dt_dev_pixelpipe_synch_all E P"
  note T = module_commit.synch_top_facts [OF assms(1) refl assms(2-4)]
  note A = module_commit.synch_all_facts [OF assms(1) refl, of P, unfolded assms(2)]
  have "map piece_state (np_nodes ?P1) = map (followed E (np_session P) (hs @ [h])) (map pp_module (np_nodes ?P1))"
    using T(2) by simp
  also have "map pp_module (np_nodes ?P1) = map pp_module (np_nodes ?P2)" by (simp only: T(1) A(1))
  also have "map (followed E (np_session P) (hs @ [h])) (map pp_module (np_nodes ?P2)) = map piece_state (np_nodes ?P2)"
    using A(2) by simp
  finally have "map piece_state (np_nodes ?P1) = map piece_state (np_nodes ?P2)" .
  moreover have "np_exposer ?P1 = np_exposer ?P2"
    unfolding T(5) A(5) assms(6) using assms(7) by (simp add: exposer_after_def)
  moreover have "s_blend (np_session ?P1) q = s_blend (np_session ?P2) q" if "q \<in> pp_module ` set (np_nodes P)" for q
  proof -
    have "s_blend (np_session ?P2) q = replay_blend (pe_dev E) (hs @ [h]) q" using A(4) that by blast
    moreover have "q \<noteq> it_module h \<Longrightarrow> s_blend (np_session P) q = replay_blend (pe_dev E) (hs @ [h]) q"
      using assms(5) that by blast
    ultimately show ?thesis using that by (cases "q = it_module h") (simp_all add: T(4) replay_blend_def)
  qed
  ultimately show ?thesis by (simp add: Let_def)
qed


section \<open>From an edit to the pipe\<close>

lemma find_upd_keep:
  assumes "\<And>m. mod_ptr (f m) = mod_ptr m" and "\<And>m. g (f m) = g m"
  shows "g (module_at (upd_module p f S) q) = g (module_at S q)"
proof -
  have "find (\<lambda>m. mod_ptr m = q) (s_iop (upd_module p f S)) =
      map_option (\<lambda>m. if q = p then f m else m) (find (\<lambda>m. mod_ptr m = q) (s_iop S))"
    by (simp add: upd_module_def find_upd [OF assms(1)])
  then show ?thesis using assms(2) by (cases "find (\<lambda>m. mod_ptr m = q) (s_iop S)") (simp_all add: module_at_def)
qed

lemma add_item_keeps:
  assumes "\<And>m. g (m\<lparr>mod_enabled := True\<rparr>) = g m" and "\<And>m l. g (m\<lparr>mod_name := l\<rparr>) = g m"
  shows "g (module_at (dev_add_history_item_ext E p en ni no_image masks auto S) q) = g (module_at S q)"
proof -
  have at: "module_at (note_change p ni S) q = module_at S q" "module_at (push_or_change E p n ni masks S) q = module_at S q"
    "module_at (drop_obsolete E S) q = module_at S q" for p ni n masks S
    by (simp_all add: module_at_def drop_obsolete_def Let_def)
  show ?thesis
    using assms unfolding add_item_prepared prepared_def at enable_module_def dev_auto_module_label_def Let_def
    by (simp add: at find_upd_keep)
qed

lemma add_item_followed:
  fixes E :: pipe_env and en ni no_image masks auto :: bool
  assumes "session_ok S" and "p \<in> ptrs S" and "kept_above (pe_dev E) S = []" and "q \<noteq> p"
  defines "S' \<equiv> dev_add_history_item_ext (pe_dev E) p en ni no_image masks auto S"
  shows "followed E S' (active_items S') q = followed E S (active_items S) q"
proof -
  note A = add_item_facts [OF assms(1,2), of "pe_dev E" en ni no_image masks auto, folded S'_def]
  have last: "last_item q (active_items S') = last_item q (active_items S)"
    unfolding S'_def using add_item_active(3) [OF assms(1,2,4)] assms(3) by simp
  have at: "mod_op (module_at S' r) = mod_op (module_at S r)"
    "mod_default_enabled (module_at S' r) = mod_default_enabled (module_at S r)" for r
    unfolding S'_def by (rule add_item_keeps; simp)+
  have "s_params S' = s_params S" "s_forms S' = s_forms S" using A
    by (simp, simp add: S'_def add_item_prepared prepared_facts [OF assms(1)])
  then have hash: "commit_hash E S' r b = commit_hash E S r b" for r b by (simp add: commit_hash_def at Let_def)
  have "committed E S' r en params blend = committed E S r en params blend" for r en params blend
    by (simp only: committed_def hash)
  moreover have "synch_enabled E S' h = synch_enabled E S h" for h
    by (simp only: synch_enabled_def dt_iop_module_is_def Let_def at)
  ultimately show ?thesis by (simp only: followed_def last at)
qed

lemma add_item_flag:
  fixes E :: dev_env and en ni masks auto :: bool
  assumes "session_ok S" and "p \<in> ptrs S" and "s_changed S = 0"
  defines "S' \<equiv> dev_add_history_item_ext E p en ni False masks auto S"
  shows "s_changed S' = DT_DEV_PIPE_SYNCH \<or> s_changed S' = DT_DEV_PIPE_TOP_CHANGED"
proof -
  have "s_changed (prepared E p en auto S) = s_changed S"
    by (simp add: prepared_def enable_module_def drop_obsolete_def dev_auto_module_label_def upd_module_def Let_def)
  then show ?thesis using assms(3)
    by (simp add: S'_def add_item_prepared push_or_change_def set_changed_def Let_def DT_DEV_PIPE_SYNCH_def DT_DEV_PIPE_TOP_CHANGED_def)
qed

text \<open>
  C2: An edit reaches the pixel pipe: when the pieces of the other modules were in step with the history and
  nothing was undone above it, recording the edit of a module and handling the change flag this sets leaves
  every piece as the new history says, clears the flag and keeps the nodes, whether a new item was made (everything is followed) or
  the top item was changed (only it is).
\<close>

theorem edit_reaches_pipe:
  fixes E :: pipe_env and P :: pipe_state
  assumes "module_commit (pe_commit E)" and "session_ok (np_session P)" and "p \<in> ptrs (np_session P)"
    and "kept_above (pe_dev E) (np_session P) = []" and "s_changed (np_session P) = DT_DEV_PIPE_UNCHANGED"
    and "\<forall>pc\<in>set (np_nodes P). pp_module pc \<noteq> p \<longrightarrow>
      piece_state pc = followed E (np_session P) (active_items (np_session P)) (pp_module pc)"
    and "S' = dev_add_history_item_ext (pe_dev E) p en ni False masks auto (np_session P)"
  shows "\<exists>P'. dt_dev_pixelpipe_change E (P\<lparr>np_session := S', np_changed := s_changed S'\<rparr>) = Ret P' \<and>
    np_changed P' = DT_DEV_PIPE_UNCHANGED \<and> map pp_module (np_nodes P') = map pp_module (np_nodes P) \<and>
    core (np_session P') = core S' \<and>
    (\<forall>pc\<in>set (np_nodes P'). piece_state pc = followed E S' (active_items S') (pp_module pc))"
proof -
  let ?S = "np_session P"
  define Q where "Q = P\<lparr>np_session := S', np_changed := s_changed S'\<rparr>"
  have Q: "np_session Q = S'" "np_nodes Q = np_nodes P" "np_changed Q = s_changed S'" by (simp_all add: Q_def)
  note facts = add_item_facts [OF assms(2,3), of "pe_dev E" en ni False masks auto, folded assms(7)]
  note act = add_item_active [OF assms(2,3), where E = "pe_dev E" and en = en and ni = ni and no_image = False
      and masks = masks and auto = auto, folded assms(7)]
  consider (all) "s_changed S' = DT_DEV_PIPE_SYNCH" | (top) "s_changed S' = DT_DEV_PIPE_TOP_CHANGED"
    using add_item_flag [OF assms(2,3), where E = "pe_dev E" and en = en and ni = ni and masks = masks and auto = auto]
      assms(5,7) by (auto simp: DT_DEV_PIPE_UNCHANGED_def)
  then show ?thesis
  proof cases
    case all
    have "dt_dev_pixelpipe_change E Q = Ret ((dt_dev_pixelpipe_synch_all E Q)\<lparr>np_changed := DT_DEV_PIPE_UNCHANGED\<rparr>)"
      using all by (simp add: dt_dev_pixelpipe_change_def Let_def Q DT_DEV_PIPE_SYNCH_def DT_DEV_PIPE_REMOVE_def
          DT_DEV_PIPE_TOP_CHANGED_def)
    moreover note module_commit.synch_all_facts [OF assms(1) refl, of Q, unfolded Q]
    ultimately show ?thesis unfolding Q_def [symmetric] by simp
  next
    case top
    let ?h = "last (s_history S')"
    have hs: "active_items S' = butlast (s_history S') @ [?h]" using act(1) facts by simp
    have h: "it_module ?h = p" using facts by simp
    have oth: "piece_state pc = followed E S' (butlast (s_history S') @ [?h]) (pp_module pc)"
      if "pc \<in> set (np_nodes P)" "pp_module pc \<noteq> p" for pc
      using assms(6) that add_item_followed [OF assms(2-4) that(2), of en ni False masks auto, folded assms(7)]
      unfolding hs [symmetric] by metis
    have "dt_dev_pixelpipe_change E Q = Ret ((dt_dev_pixelpipe_synch_top E Q)\<lparr>np_changed := DT_DEV_PIPE_UNCHANGED\<rparr>)"
      using top by (simp add: dt_dev_pixelpipe_change_def Let_def Q DT_DEV_PIPE_SYNCH_def DT_DEV_PIPE_REMOVE_def
          DT_DEV_PIPE_TOP_CHANGED_def)
    moreover note module_commit.synch_top_facts [OF assms(1) refl, of Q, unfolded Q, OF hs _ _]
    ultimately show ?thesis unfolding Q_def [symmetric] hs using facts oth h by simp
  qed
qed

lemma rebuild_facts:
  fixes E :: pipe_env and P :: pipe_state
  assumes "module_commit (pe_commit E)" and "\<And>q pc. pp_module (pe_init E q pc) = pp_module pc"
    and "np_changed P AND DT_DEV_PIPE_REMOVE \<noteq> 0"
  shows "\<exists>P'. dt_dev_pixelpipe_change E P = Ret P' \<and> np_changed P' = DT_DEV_PIPE_UNCHANGED \<and>
    map pp_module (np_nodes P') = map mod_ptr (s_iop (np_session P)) \<and> core (np_session P') = core (np_session P) \<and>
    (\<forall>pc\<in>set (np_nodes P'). piece_state pc = followed E (np_session P) (active_items (np_session P)) (pp_module pc))"
proof -
  define Q where "Q = (dt_dev_pixelpipe_cleanup_nodes P)\<lparr>np_shutdown := DT_DEV_PIXELPIPE_STOP_NO,
    np_order := s_order (np_session P), np_iop := map mod_ptr (s_iop (np_session P)),
    np_nodes := map (new_piece E) (s_iop (np_session P))\<rparr>"
  have clean: "np_nodes (dt_dev_pixelpipe_cleanup_nodes P) = []" "np_iop (dt_dev_pixelpipe_cleanup_nodes P) = []"
    "np_order (dt_dev_pixelpipe_cleanup_nodes P) = []" "np_session (dt_dev_pixelpipe_cleanup_nodes P) = np_session P"
    by (simp_all add: dt_dev_pixelpipe_cleanup_nodes_def dt_dev_clear_scharr_mask_def dt_dev_pixelpipe_set_shutdown_def Let_def)
  have "dt_dev_pixelpipe_create_nodes E (dt_dev_pixelpipe_cleanup_nodes P) = Ret Q"
    by (simp add: dt_dev_pixelpipe_create_nodes_def clean Q_def)
  moreover have "np_changed P AND (DT_DEV_PIPE_SYNCH OR DT_DEV_PIPE_REMOVE) \<noteq> 0"
  proof
    assume "np_changed P AND (DT_DEV_PIPE_SYNCH OR DT_DEV_PIPE_REMOVE) = 0"
    then have "(np_changed P AND (DT_DEV_PIPE_SYNCH OR DT_DEV_PIPE_REMOVE)) AND DT_DEV_PIPE_REMOVE = 0" by simp
    moreover have "(DT_DEV_PIPE_SYNCH OR DT_DEV_PIPE_REMOVE) AND DT_DEV_PIPE_REMOVE = DT_DEV_PIPE_REMOVE"
      by (simp add: DT_DEV_PIPE_SYNCH_def DT_DEV_PIPE_REMOVE_def)
    ultimately show False using assms(3) by (simp add: and.assoc)
  qed
  ultimately have change: "dt_dev_pixelpipe_change E P =
      Ret ((dt_dev_pixelpipe_synch_all E Q)\<lparr>np_changed := DT_DEV_PIPE_UNCHANGED\<rparr>)"
    using assms(3) by (simp add: dt_dev_pixelpipe_change_def Let_def)
  have Q: "np_session Q = np_session P" "map pp_module (np_nodes Q) = map mod_ptr (s_iop (np_session P))"
    by (simp_all add: Q_def clean new_piece_def assms(2))
  show ?thesis using module_commit.synch_all_facts [OF assms(1) refl, of Q] unfolding change Q by simp
qed

lemma change_synch:
  assumes "np_changed P AND DT_DEV_PIPE_REMOVE = 0" and "np_changed P AND DT_DEV_PIPE_SYNCH \<noteq> 0"
  shows "dt_dev_pixelpipe_change E P = Ret ((dt_dev_pixelpipe_synch_all E P)\<lparr>np_changed := DT_DEV_PIPE_UNCHANGED\<rparr>)"
proof -
  have "np_changed P AND (DT_DEV_PIPE_SYNCH OR DT_DEV_PIPE_REMOVE) = np_changed P AND DT_DEV_PIPE_SYNCH"
    by (simp add: assms(1) bit.conj_disj_distrib)
  then show ?thesis using assms by (simp add: dt_dev_pixelpipe_change_def Let_def)
qed

text \<open>
  C15: Going to a state of the history from the user interface reaches the pipe, also when it moves modules: however the flags
  stood, afterwards there is a node for every module in the new order, every piece is as the new state of the history says,
  and the flags are cleared.
\<close>

theorem pop_reaches_pipe:
  fixes E :: pipe_env and P :: pipe_state
  assumes "module_commit (pe_commit E)" and "\<And>q pc. pp_module (pe_init E q pc) = pp_module pc"
    and "session_ok (np_session P)" and "order_ready n (np_session P)"
    and "map pp_module (np_nodes P) = map mod_ptr (s_iop (np_session P))"
    and "dt_dev_pop_history_items (pe_dev E) n k (np_session P) = Some S'"
  shows "\<exists>P'. dt_dev_pixelpipe_change E (P\<lparr>np_session := S', np_changed := s_changed S'\<rparr>) = Ret P' \<and>
    np_changed P' = DT_DEV_PIPE_UNCHANGED \<and> map pp_module (np_nodes P') = map mod_ptr (s_iop S') \<and>
    core (np_session P') = core S' \<and>
    (\<forall>pc\<in>set (np_nodes P'). piece_state pc = followed E S' (active_items S') (pp_module pc))"
proof -
  define Q where "Q = P\<lparr>np_session := S', np_changed := s_changed S'\<rparr>"
  have Q: "np_session Q = S'" "np_changed Q = s_changed S'" "np_nodes Q = np_nodes P" by (simp_all add: Q_def)
  have "distinct (map mod_ptr (s_iop (np_session P)))" using assms(3) by (simp add: session_ok_def)
  from pop_items_facts [OF this assms(4), where E = "pe_dev E" and k = k] assms(6) obtain S1 where
    "S' = dt_dev_invalidate_all (if map mod_ptr (s_iop S1) = map mod_ptr (s_iop (np_session P)) then dt_dev_pipe_synch_all S1
      else dt_dev_pixelpipe_rebuild S1)" by auto
  then have flag: "s_changed S' AND DT_DEV_PIPE_REMOVE \<noteq> 0 \<or>
      s_changed S' AND DT_DEV_PIPE_SYNCH \<noteq> 0 \<and> map mod_ptr (s_iop S') = map mod_ptr (s_iop (np_session P))"
    by (cases "map mod_ptr (s_iop S1) = map mod_ptr (s_iop (np_session P))")
      (simp_all add: dt_dev_invalidate_all_def dt_dev_pipe_synch_all_def dt_dev_pixelpipe_rebuild_def word_ao_absorbs
        DT_DEV_PIPE_REMOVE_def DT_DEV_PIPE_SYNCH_def)
  show ?thesis
  proof (cases "np_changed Q AND DT_DEV_PIPE_REMOVE = 0")
    case False
    from rebuild_facts [OF assms(1,2) this] show ?thesis unfolding Q_def [symmetric] Q by simp
  next
    case True
    then have "np_changed Q AND DT_DEV_PIPE_SYNCH \<noteq> 0" "map mod_ptr (s_iop S') = map pp_module (np_nodes Q)"
      using flag by (simp_all add: Q assms(5))
    then show ?thesis
      using change_synch [OF True] module_commit.synch_all_facts [OF assms(1) refl, of Q] unfolding Q_def [symmetric] Q by simp
  qed
qed

text \<open>
  C36: The hash of a piece is taken from the parameters in the module, not from those committed to the piece. So when
  editing another module makes the undone item of an always-on module active again, the piece is on before
  and after with the same hash, although other parameters are committed to it: cached buffers computed with the old ones are
  taken for the new state.
\<close>

theorem stale_hash_after_kept_item:
  fixes E :: pipe_env and P :: pipe_state
  assumes "pe_commit E = default_commit_params" and "S = np_session P" and "session_ok S" and "p \<in> ptrs S"
    and "q \<in> pp_module ` set (np_nodes P)" and "q \<noteq> p" and "last_item q (active_items S) = None"
    and "last_item q (active_items S @ kept_above (pe_dev E) S) = Some h"
    and "mod_default_enabled (module_at S q)" and "synch_enabled E S h"
    and "it_params h \<noteq> default_params (info (pe_dev E) q)"
    and "\<not> is_blending E q (default_blendop_params (info (pe_dev E) q))" and "\<not> is_blending E q (it_blend_params h)"
    and "S' = dev_add_history_item_ext (pe_dev E) p en ni no_image masks auto S"
  shows "\<exists>pc\<in>set (np_nodes (dt_dev_pixelpipe_synch_all E P)).
    \<exists>pc'\<in>set (np_nodes (dt_dev_pixelpipe_synch_all E (P\<lparr>np_session := S'\<rparr>))).
      pp_module pc = q \<and> pp_module pc' = q \<and> pp_enabled pc \<and> pp_enabled pc' \<and>
      pp_data pc = default_params (info (pe_dev E) q) \<and> pp_data pc' = it_params h \<and> pp_hash pc = pp_hash pc'"
proof -
  let ?P' = "P\<lparr>np_session := S'\<rparr>"
  note A = module_commit.synch_all_facts [OF default_commit.module_commit_axioms, OF assms(1), of P]
  note B = module_commit.synch_all_facts [OF default_commit.module_commit_axioms, OF assms(1), of ?P']
  note facts = add_item_facts [OF assms(3,4), of "pe_dev E" en ni no_image masks auto, folded assms(14)]
  have last: "last_item q (active_items S') = Some h"
    unfolding assms(14) using add_item_active(3) [OF assms(3,4,6)] assms(8) by simp
  have at: "mod_op (module_at S' r) = mod_op (module_at S r)" for r unfolding assms(14) by (rule add_item_keeps; simp)
  have "s_params S' = s_params S" using facts by simp
  then have hash: "commit_hash E S q (default_blendop_params (info (pe_dev E) q)) = commit_hash E S' q (it_blend_params h)"
    using assms(12,13) by (simp add: commit_hash_def Let_def at)
  have "synch_enabled E S' h = synch_enabled E S h" by (simp only: synch_enabled_def dt_iop_module_is_def Let_def at)
  then have en: "synch_enabled E S' h" using assms(10) by simp
  obtain pc where pc: "pc \<in> set (np_nodes (dt_dev_pixelpipe_synch_all E P))" "pp_module pc = q"
    using assms(5) A(1) by (metis image_iff list.set_map)
  obtain pc' where pc': "pc' \<in> set (np_nodes (dt_dev_pixelpipe_synch_all E ?P'))" "pp_module pc' = q"
  proof -
    have "q \<in> set (map pp_module (np_nodes (dt_dev_pixelpipe_synch_all E ?P')))" using assms(5) unfolding B(1) by simp
    then show ?thesis using that by auto
  qed
  have "piece_state pc = followed E S (active_items S) q" "piece_state pc' = followed E S' (active_items S') q"
    using A(2) B(2) pc pc' assms(2) by simp_all
  then show ?thesis using pc pc' assms(7,9) en last hash
    by (intro bexI [OF _ pc(1)] bexI [OF _ pc'(1)])
      (simp add: followed_def committed_def piece_state_def assms(1) default_commit_params_def blank_piece_def Let_def)
qed


section \<open>Examples\<close>

definition example_pipe_env :: pipe_env where
  "example_pipe_env = \<lparr>pe_dev = example_dev_env, pe_commit = default_commit_params, pe_init = default_init_pipe (\<lambda>_. 1),
     pe_process_cl = (\<lambda>_. False), pe_allow_tiling = (\<lambda>_. True), pe_crop_exposer = (\<lambda>_. False), pe_instance = (\<lambda>_. 0),
     pe_mask_mode = (\<lambda>_. 0), pe_details_set = (\<lambda>_. False), pe_raster_source = (\<lambda>_. ([], 0)),
     pe_rawprepare_supported = True, pe_filter_out = [], pe_gui_module = None,
     pe_blend_size = 0\<rparr>"

definition example_pipe :: "session \<Rightarrow> nat list \<Rightarrow> 32 word \<Rightarrow> pipe_state" where
  "example_pipe S ps flags = \<lparr>np_session = S, np_nodes = map (\<lambda>p. blank_piece p False) ps, np_iop = ps, np_order = s_order S,
     np_cache = ex_pipe, np_want_detail = False, np_scharr_hash = 0, np_exposer = None, np_changed = flags,
     np_shutdown = 0\<rparr>"

lemma example_commit: "module_commit (pe_commit example_pipe_env)"
  using default_commit.module_commit_axioms by (simp add: example_pipe_env_def)

lemma example_pipe_simps [simp]:
  "np_session (example_pipe S ps flags) = S" "np_changed (example_pipe S ps flags) = flags"
  "map pp_module (np_nodes (example_pipe S ps flags)) = ps" "pp_module ` set (np_nodes (example_pipe S ps flags)) = set ps"
  "np_exposer (example_pipe S ps flags) = None"
  by (simp_all add: example_pipe_def blank_piece_def comp_def image_image)

theorem synch_all_follows_history_witness:
  "map pp_module (np_nodes (dt_dev_pixelpipe_synch_all example_pipe_env (example_pipe edited_session [1, 2] 0))) = [1, 2]"
  using synch_all_follows_history [OF example_commit, of "example_pipe edited_session [1, 2] 0"] by (simp add: Let_def)

theorem synch_top_equals_synch_all_witness:
  "let P = example_pipe ((fresh_session [5])\<lparr>s_history := [new_item_for 2 False (fresh_session [5])], s_history_end := 1\<rparr>) [2] 0
   in map piece_state (np_nodes (dt_dev_pixelpipe_synch_top example_pipe_env P)) =
      map piece_state (np_nodes (dt_dev_pixelpipe_synch_all example_pipe_env P))"
proof -
  let ?h = "new_item_for 2 False (fresh_session [5])"
  define S where "S = (fresh_session [5])\<lparr>s_history := [?h], s_history_end := 1\<rparr>"
  let ?P = "example_pipe S [2] 0"
  have h: "it_module ?h = 2" by (simp add: new_item_for_def Let_def)
  have "active_items (np_session ?P) = [] @ [?h]" "s_history_end (np_session ?P) = int (length (s_history (np_session ?P)))"
    by (simp_all add: active_items_def S_def)
  moreover have "\<forall>pc\<in>set (np_nodes ?P). pp_module pc \<noteq> it_module ?h \<longrightarrow>
      piece_state pc = followed example_pipe_env (np_session ?P) ([] @ [?h]) (pp_module pc)"
    unfolding h by (simp add: example_pipe_def blank_piece_def)
  moreover have "np_exposer ?P = exposer_after example_pipe_env (pp_module ` set (np_nodes ?P)) ([] @ [?h]) None"
    by (simp add: exposer_after_def example_pipe_env_def)
  ultimately show ?thesis
    using synch_top_equals_synch_all [OF example_commit, of ?P "[]" ?h ?h] h by (simp add: Let_def S_def)
qed

theorem edit_reaches_pipe_witness:
  "\<exists>P'. dt_dev_pixelpipe_change example_pipe_env ((example_pipe (fresh_session [5]) [2] 0)
       \<lparr>np_session := dev_add_history_item_ext example_dev_env 2 True False False False True (fresh_session [5]),
        np_changed := s_changed (dev_add_history_item_ext example_dev_env 2 True False False False True (fresh_session [5]))\<rparr>)
     = Ret P' \<and> np_changed P' = DT_DEV_PIPE_UNCHANGED"
proof -
  have "s_changed (fresh_session [5]) = DT_DEV_PIPE_UNCHANGED"
    by (simp add: fresh_session_def example_session_def DT_DEV_PIPE_UNCHANGED_def)
  moreover have "pe_dev example_pipe_env = example_dev_env" by (simp add: example_pipe_env_def)
  moreover have "\<forall>pc\<in>set (np_nodes (example_pipe (fresh_session [5]) [2] 0)). pp_module pc = 2"
    by (simp add: example_pipe_def blank_piece_def)
  ultimately show ?thesis
    using edit_reaches_pipe [OF example_commit, of "example_pipe (fresh_session [5]) [2] 0" 2 _ True False False True, OF _ _ _ _ _ refl]
      fresh_ok by auto
qed

theorem stale_hash_after_kept_item_witness:
  "\<exists>pc\<in>set (np_nodes (dt_dev_pixelpipe_synch_all example_pipe_env (example_pipe undone_session [1] 0))).
   \<exists>pc'\<in>set (np_nodes (dt_dev_pixelpipe_synch_all example_pipe_env ((example_pipe undone_session [1] 0)\<lparr>np_session :=
       dev_add_history_item_ext example_dev_env 2 True False False False True undone_session\<rparr>))).
     pp_data pc = [0] \<and> pp_data pc' = [7] \<and> pp_hash pc = pp_hash pc'"
proof -
  let ?h = "(new_item_for 1 False example_session)\<lparr>it_params := [7]\<rparr>"
  have env: "pe_dev example_pipe_env = example_dev_env" "pe_commit example_pipe_env = default_commit_params"
    "is_blending example_pipe_env q b \<longleftrightarrow> False" for q b
    by (simp_all add: example_pipe_env_def is_blending_def DEVELOP_MASK_DISABLED_def)
  have at: "module_at undone_session 1 = pipe_module 1 ''rawprepare'' 100 False"
    by (simp add: module_at_def undone_session_def fresh_session_def example_session_def pipe_example_def pipe_module_def)
  have en: "synch_enabled example_pipe_env undone_session ?h"
    using undone_facts(6) at
    by (simp add: synch_enabled_def dt_iop_module_is_def pipe_module_def example_pipe_env_def new_item_for_def Let_def
        module_at_def example_session_def pipe_example_def)
  have "default_params (info example_dev_env 1) = [0]" by (simp add: example_dev_env_def)
  then show ?thesis
    using stale_hash_after_kept_item [where E = example_pipe_env and P = "example_pipe undone_session [1] 0" and p = 2
        and q = 1 and h = ?h and en = True and ni = False and no_image = False and masks = False and auto = True,
        OF env(2) refl _ _ _ _ _ _ _ _ _ _ _ refl] undone_facts en at
    unfolding env by (auto simp: last_item_def pipe_module_def)
qed

theorem pop_reaches_pipe_witness:
  "\<exists>S' P'. dt_dev_pop_history_items example_dev_env 5 0 example_session = Some S' \<and>
     dt_dev_pixelpipe_change example_pipe_env ((example_pipe example_session [1, 2, 3, 4] 0)
       \<lparr>np_session := S', np_changed := s_changed S'\<rparr>) = Ret P' \<and>
     map pp_module (np_nodes P') = map mod_ptr (s_iop S')"
proof -
  have "distinct (map mod_ptr (s_iop example_session))" using example_session_ok by (simp add: session_ok_def)
  from pop_items_facts [OF this example_order_ready] obtain S' where
    S': "dt_dev_pop_history_items example_dev_env 5 0 example_session = Some S'" by blast
  have "pe_dev example_pipe_env = example_dev_env" by (simp add: example_pipe_env_def)
  moreover have "pp_module (pe_init example_pipe_env q pc) = pp_module pc" for q pc
    by (simp add: example_pipe_env_def default_init_pipe_def)
  moreover have "map mod_ptr (s_iop example_session) = [1, 2, 3, 4]"
    by (simp add: example_session_def pipe_example_def pipe_module_def)
  ultimately show ?thesis
    using pop_reaches_pipe [OF example_commit, of "example_pipe example_session [1, 2, 3, 4] 0" 5 0 S']
      example_session_ok example_order_ready S' by auto
qed

end
