(* ===== verification/Image_Marks.thy ===== *)
theory Image_Marks
  imports History_Db
begin

text \<open>
  What a lighttable marks images with: the rating (\<open>src/common/ratings.c\<close>), the colour labels
  (\<open>src/common/colorlabels.c\<close>) and the group (\<open>src/common/grouping.c\<close>). The state is the columns of the table
  \<open>images\<close> that these files touch, in the order of the rows, and the rows of \<open>color_labels\<close>. The image cache writes
  every change through to the table, so both are one. For an image number that is not in the table the cache
  hands out a placeholder; here the result is \<open>None\<close>, and the properties speak of images that are in the table.
  Signals, messages, the busy cursor and sidecar files are left out.
\<close>

unbundle bit_operations_syntax

section \<open>The images\<close>

record image_row =
  im_id :: int
  im_flags :: "32 word"
  im_group :: int

record marks =
  m_images :: "image_row list"
  m_labels :: "(int \<times> int) list"

definition cache_get :: "marks \<Rightarrow> int \<Rightarrow> image_row option" where
  "cache_get s i = (if dt_is_valid_imgid i then find (\<lambda>r. im_id r = i) (m_images s) else None)"

text \<open>\<open>dt_image_cache_write_release\<close>: the row with the number of the image gets its fields.\<close>

definition cache_put :: "image_row \<Rightarrow> marks \<Rightarrow> marks" where
  "cache_put img s = s\<lparr>m_images := map (\<lambda>r. if im_id r = im_id img then img else r) (m_images s)\<rparr>"

definition images_ok :: "marks \<Rightarrow> bool" where
  "images_ok s \<longleftrightarrow> distinct (map im_id (m_images s)) \<and> (\<forall>r\<in>set (m_images s). dt_is_valid_imgid (im_id r))"

lemma find_image: "find (\<lambda>r. im_id r = i) rs = Some r \<Longrightarrow> r \<in> set rs \<and> im_id r = i"
  by (induction rs) (auto split: if_splits)

lemma cache_get_id: "cache_get s i = Some r \<Longrightarrow> im_id r = i \<and> dt_is_valid_imgid i \<and> r \<in> set (m_images s)"
  by (auto simp: cache_get_def dest: find_image split: if_splits)

lemma find_put:
  "find (\<lambda>r. im_id r = i) (map (\<lambda>r. if im_id r = im_id img then img else r) rs) =
    (case find (\<lambda>r. im_id r = i) rs of None \<Rightarrow> None | Some r \<Rightarrow> Some (if i = im_id img then img else r))"
  by (induction rs) (auto split: option.splits)

lemma get_put:
  "cache_get (cache_put img s) i =
    (case cache_get s i of None \<Rightarrow> None | Some r \<Rightarrow> Some (if i = im_id img then img else r))"
  by (simp add: cache_get_def cache_put_def find_put)

lemma get_put_same: "cache_get s (im_id img) \<noteq> None \<Longrightarrow> cache_get (cache_put img s) (im_id img) = Some img"
  by (auto simp: get_put)

lemma labels_put [simp]: "m_labels (cache_put img s) = m_labels s"
  by (simp add: cache_put_def)

lemma ids_put [simp]: "map im_id (m_images (cache_put img s)) = map im_id (m_images s)"
  by (simp add: cache_put_def)

lemma images_ok_ids: "images_ok s \<longleftrightarrow> distinct (map im_id (m_images s)) \<and> (\<forall>i\<in>set (map im_id (m_images s)). dt_is_valid_imgid i)"
  by (auto simp: images_ok_def)

lemma put_images_ok [simp]: "images_ok (cache_put img s) = images_ok s"
  by (simp only: images_ok_ids ids_put)

lemma put_exists [simp]: "cache_get (cache_put img s) i = None \<longleftrightarrow> cache_get s i = None"
  by (simp add: get_put split: option.splits)


section \<open>Ratings\<close>

definition DT_RATINGS_UPGRADE :: int where "DT_RATINGS_UPGRADE = -1"
definition DT_RATINGS_DOWNGRADE :: int where "DT_RATINGS_DOWNGRADE = -2"
definition DT_RATINGS_REJECT :: int where "DT_RATINGS_REJECT = -3"
definition DT_RATINGS_UNREJECT :: int where "DT_RATINGS_UNREJECT = -4"
definition DT_VIEW_DESERT :: int where "DT_VIEW_DESERT = 0"
definition DT_VIEW_STAR_1 :: int where "DT_VIEW_STAR_1 = 1"
definition DT_VIEW_STAR_5 :: int where "DT_VIEW_STAR_5 = 5"
definition DT_VIEW_REJECT :: int where "DT_VIEW_REJECT = 6"
definition DT_VIEW_RATINGS_MASK :: "32 word" where "DT_VIEW_RATINGS_MASK = 7"
definition DT_IMAGE_REJECTED :: "32 word" where "DT_IMAGE_REJECTED = 8"

lemmas rating_defs = DT_RATINGS_UPGRADE_def DT_RATINGS_DOWNGRADE_def DT_RATINGS_REJECT_def DT_RATINGS_UNREJECT_def
  DT_VIEW_DESERT_def DT_VIEW_STAR_1_def DT_VIEW_STAR_5_def DT_VIEW_REJECT_def DT_VIEW_RATINGS_MASK_def DT_IMAGE_REJECTED_def

record dt_undo_ratings_t =
  rt_imgid :: int
  rt_before :: int
  rt_after :: int

definition flags_rating :: "32 word \<Rightarrow> int" where
  "flags_rating f = (if f AND DT_IMAGE_REJECTED \<noteq> 0 then DT_VIEW_REJECT else uint (DT_VIEW_RATINGS_MASK AND f))"

definition dt_ratings_get :: "marks \<Rightarrow> int \<Rightarrow> int" where
  "dt_ratings_get s imgid = (case cache_get s imgid of None \<Rightarrow> 0 | Some img \<Rightarrow> flags_rating (im_flags img))"

definition rated_flags :: "int \<Rightarrow> 32 word \<Rightarrow> 32 word" where
  "rated_flags rating f =
     (if rating = DT_RATINGS_REJECT \<or> rating = DT_VIEW_REJECT then f OR DT_IMAGE_REJECTED
      else if rating = DT_RATINGS_UNREJECT then f AND NOT DT_IMAGE_REJECTED
      else (f AND NOT (DT_IMAGE_REJECTED OR DT_VIEW_RATINGS_MASK)) OR (DT_VIEW_RATINGS_MASK AND word_of_int rating))"

definition ratings_apply_to_image :: "int \<Rightarrow> int \<Rightarrow> marks \<Rightarrow> marks" where
  "ratings_apply_to_image imgid rating s =
     (case cache_get s imgid of None \<Rightarrow> s
      | Some img \<Rightarrow> cache_put (img\<lparr>im_flags := rated_flags rating (im_flags img)\<rparr>) s)"

text \<open>The undo callback goes through the list in the order of the images; the numbers are put before the list of changed images.\<close>

fun ratings_pop_loop :: "dt_undo_action_t \<Rightarrow> dt_undo_ratings_t list \<Rightarrow> int list \<Rightarrow> marks \<Rightarrow> int list \<times> marks" where
  "ratings_pop_loop action [] imgs s = (imgs, s)"
| "ratings_pop_loop action (r # data) imgs s =
     ratings_pop_loop action data (rt_imgid r # imgs)
       (ratings_apply_to_image (rt_imgid r) (if action = DT_ACTION_UNDO then rt_before r else rt_after r) s)"

definition ratings_pop_undo :: "(unit, dt_undo_ratings_t list, marks) undo_fn" where
  "ratings_pop_undo user_data type data action imgs s =
     (if type = DT_UNDO_RATINGS
      then ratings_pop_loop action (case data of None \<Rightarrow> [] | Some l \<Rightarrow> l) imgs s
      else (imgs, s))"

text \<open>Whether a reject or a single star is taken off again: only when all images have it.\<close>

definition rating_toggle :: "bool \<Rightarrow> int list \<Rightarrow> int \<Rightarrow> marks \<Rightarrow> bool" where
  "rating_toggle double_tap imgs rating s =
     (if rating = DT_VIEW_REJECT then list_all (\<lambda>i. dt_ratings_get s i = DT_VIEW_REJECT) imgs
      else if \<not> double_tap \<and> rating = DT_VIEW_STAR_1 then list_all (\<lambda>i. dt_ratings_get s i = DT_VIEW_STAR_1) imgs
      else False)"

definition rating_for :: "bool \<Rightarrow> int \<Rightarrow> int \<Rightarrow> int" where
  "rating_for toggle rating old =
     (if old = DT_VIEW_REJECT \<and> rating < DT_VIEW_DESERT then DT_VIEW_REJECT
      else if rating = DT_RATINGS_UPGRADE then min DT_VIEW_STAR_5 (old + 1)
      else if rating = DT_RATINGS_DOWNGRADE then max DT_VIEW_DESERT (old - 1)
      else if rating = DT_VIEW_STAR_1 \<and> toggle then DT_VIEW_DESERT
      else if rating = DT_VIEW_REJECT \<and> toggle then DT_RATINGS_UNREJECT
      else if rating = DT_VIEW_REJECT \<and> \<not> toggle then DT_RATINGS_REJECT
      else rating)"

fun ratings_loop :: "bool \<Rightarrow> int \<Rightarrow> bool \<Rightarrow> int list \<Rightarrow> dt_undo_ratings_t list \<Rightarrow> marks \<Rightarrow> dt_undo_ratings_t list \<times> marks" where
  "ratings_loop toggle rating undo_on [] undo s = (undo, s)"
| "ratings_loop toggle rating undo_on (i # imgs) undo s =
     (let old = dt_ratings_get s i
      in ratings_loop toggle rating undo_on imgs
           (if undo_on then undo @ [\<lparr>rt_imgid = i, rt_before = old, rt_after = rating\<rparr>] else undo)
           (ratings_apply_to_image i (rating_for toggle rating old) s))"

definition ratings_apply :: "bool \<Rightarrow> int list \<Rightarrow> int \<Rightarrow> bool \<Rightarrow> marks \<Rightarrow> dt_undo_ratings_t list \<times> marks" where
  "ratings_apply double_tap imgs rating undo_on s =
     ratings_loop (rating_toggle double_tap imgs rating s) rating undo_on imgs [] s"

text \<open>What is recorded with the undo manager; the times are those of the three calls.\<close>

type_synonym ratings_undo = "(unit, dt_undo_ratings_t list, marks) dt_undo_t"

definition ratings_record :: "rat \<times> rat \<times> rat \<Rightarrow> bool \<Rightarrow> (marks \<Rightarrow> dt_undo_ratings_t list \<times> marks) \<Rightarrow>
    marks \<times> ratings_undo \<Rightarrow> (marks \<times> ratings_undo) option" where
  "ratings_record ts undo_on act = (\<lambda>(s, U). case ts of (t1, t2, t3) \<Rightarrow>
     let U1 = (if undo_on then dt_undo_start_group U DT_UNDO_RATINGS t1 else U);
         (undo, s1) = act s
     in if undo_on
        then map_option (Pair s1)
          (dt_undo_end_group (dt_undo_record U1 None DT_UNDO_RATINGS (Some undo) ratings_pop_undo True t2) t3)
        else Some (s1, U1))"

definition dt_ratings_apply_on_list :: "bool \<Rightarrow> rat \<times> rat \<times> rat \<Rightarrow> int list \<Rightarrow> int \<Rightarrow> bool \<Rightarrow>
    marks \<times> ratings_undo \<Rightarrow> (marks \<times> ratings_undo) option" where
  "dt_ratings_apply_on_list double_tap ts imgs rating undo_on su =
     (if imgs = [] then Some su
      else ratings_record ts undo_on (ratings_apply double_tap imgs rating undo_on) su)"


lemma low_bits: "uint (7 AND word_of_int r :: 32 word) = r mod 8"
proof -
  have "uint (word_of_int r AND 7 :: 32 word) = take_bit 32 r AND 7"
    by (simp add: uint_and uint_word_of_int take_bit_eq_mod)
  also have "\<dots> = take_bit 3 (take_bit 32 r)" by (simp add: take_bit_eq_mask mask_eq_exp_minus_1)
  also have "\<dots> = r mod 8" by (simp only: take_bit_take_bit) (simp add: take_bit_eq_mod)
  finally show ?thesis by (simp add: and.commute)
qed

text \<open>A rating changes only the four bits of the rating.\<close>

lemma rated_other_bits: "rated_flags r f AND NOT 15 = f AND NOT 15"
proof -
  have e: "bit (8 :: 32 word) n \<longleftrightarrow> n = 3" "bit (7 :: 32 word) n \<longleftrightarrow> n < 3" "bit (15 :: 32 word) n \<longleftrightarrow> n < 4" for n
  proof -
    have "(8 :: 32 word) = 2 ^ 3" "(7 :: 32 word) = mask 3" "(15 :: 32 word) = mask 4" by (simp_all add: mask_eq_exp_minus_1)
    then show "bit (8 :: 32 word) n \<longleftrightarrow> n = 3" "bit (7 :: 32 word) n \<longleftrightarrow> n < 3" "bit (15 :: 32 word) n \<longleftrightarrow> n < 4"
      by (auto simp only: bit_exp_iff bit_mask_iff possible_bit_word) auto
  qed
  have "(f OR 8) AND NOT 15 = f AND NOT 15" "(f AND NOT 8) AND NOT 15 = f AND NOT 15"
    "((f AND NOT (8 OR 7)) OR (7 AND g)) AND NOT 15 = f AND NOT 15" for g :: "32 word"
    by (rule bit_eqI, auto simp only: bit_or_iff bit_and_iff bit_not_iff e)+
  then show ?thesis unfolding rated_flags_def rating_defs by (simp only: split: if_split) blast
qed

lemma low_bits_get: "uint (7 AND f :: 32 word) = uint f mod 8"
  using low_bits [of "uint f"] by simp

lemma rejected_flags: "(f OR 8) AND 8 \<noteq> (0 :: 32 word)" "(f AND NOT 8) AND 8 = (0 :: 32 word)"
  "((f AND NOT (8 OR 7)) OR (7 AND g)) AND 8 = (0 :: 32 word)"
  "7 AND ((f AND NOT (8 OR 7)) OR (7 AND g)) = (7 AND g :: 32 word)"
  "7 AND (f AND NOT 8) = (7 AND f :: 32 word)" "7 AND (f OR 8) = (7 AND f :: 32 word)"
proof -
  have e: "bit (8 :: 32 word) n \<longleftrightarrow> n = 3" "bit (7 :: 32 word) n \<longleftrightarrow> n < 3" for n
  proof -
    have "(8 :: 32 word) = 2 ^ 3" "(7 :: 32 word) = mask 3" by (simp_all add: mask_eq_exp_minus_1)
    then show "bit (8 :: 32 word) n \<longleftrightarrow> n = 3" "bit (7 :: 32 word) n \<longleftrightarrow> n < 3"
      by (auto simp only: bit_exp_iff bit_mask_iff possible_bit_word) auto
  qed
  show "(f OR 8) AND 8 \<noteq> (0 :: 32 word)" using e(1) [of 3] by (auto simp: bit_eq_iff bit_or_iff bit_and_iff intro!: exI [of _ 3])
  show "(f AND NOT 8) AND 8 = (0 :: 32 word)" "((f AND NOT (8 OR 7)) OR (7 AND g)) AND 8 = (0 :: 32 word)"
    "7 AND ((f AND NOT (8 OR 7)) OR (7 AND g)) = (7 AND g :: 32 word)"
    "7 AND (f AND NOT 8) = (7 AND f :: 32 word)" "7 AND (f OR 8) = (7 AND f :: 32 word)"
    by (rule bit_eqI, auto simp only: bit_or_iff bit_and_iff bit_not_iff e bit_0_eq bot_apply bot_bool_def)+
qed

text \<open>What a rating does to the rating that is read back.\<close>

lemma rating_of_rated:
  "flags_rating (rated_flags r f) =
    (if r = DT_RATINGS_REJECT \<or> r = DT_VIEW_REJECT then DT_VIEW_REJECT
     else if r = DT_RATINGS_UNREJECT then uint (DT_VIEW_RATINGS_MASK AND f) else r mod 8)"
proof -
  have d: "flags_rating g = (if g AND 8 \<noteq> 0 then 6 else uint (7 AND g))" for g by (simp add: flags_rating_def rating_defs)
  have "r = -3 \<or> r = 6 \<Longrightarrow> flags_rating (rated_flags r f) = 6"
    and "r = -4 \<Longrightarrow> flags_rating (rated_flags r f) = uint (7 AND f)"
    and "r \<noteq> -3 \<Longrightarrow> r \<noteq> 6 \<Longrightarrow> r \<noteq> -4 \<Longrightarrow> flags_rating (rated_flags r f) = r mod 8"
    unfolding d rated_flags_def rating_defs by (simp_all only: rejected_flags low_bits if_True if_False HOL.simp_thms
      neg_equal_iff_equal numeral_eq_iff num.distinct num.inject neg_numeral_neq_numeral)
  then show ?thesis by (auto simp: rating_defs)
qed


lemma ratings_get_cases: "0 \<le> dt_ratings_get s i \<and> dt_ratings_get s i < 8"
  by (auto simp: dt_ratings_get_def flags_rating_def rating_defs low_bits_get split: option.splits)

lemma apply_exists [simp]: "cache_get (ratings_apply_to_image i r s) j = None \<longleftrightarrow> cache_get s j = None"
  by (simp add: ratings_apply_to_image_def split: option.splits)

text \<open>The stars of an image whether it is rejected or not.\<close>

definition stars :: "marks \<Rightarrow> int \<Rightarrow> int" where
  "stars s i = (case cache_get s i of None \<Rightarrow> 0 | Some img \<Rightarrow> uint (DT_VIEW_RATINGS_MASK AND im_flags img))"

lemma get_applied:
  assumes "cache_get s i \<noteq> None"
  shows "dt_ratings_get (ratings_apply_to_image i r s) j =
    (if j = i then if r = DT_RATINGS_REJECT \<or> r = DT_VIEW_REJECT then DT_VIEW_REJECT
                   else if r = DT_RATINGS_UNREJECT then stars s i else r mod 8
     else dt_ratings_get s j)"
proof -
  from assms obtain g where g: "cache_get s i = Some g" "im_id g = i" by (auto dest: cache_get_id)
  then have "cache_get (ratings_apply_to_image i r s) j =
      (if j = i then Some (g\<lparr>im_flags := rated_flags r (im_flags g)\<rparr>) else cache_get s j)"
    by (auto simp: ratings_apply_to_image_def get_put split: option.splits)
  then show ?thesis by (auto simp: dt_ratings_get_def stars_def g(1) rating_of_rated)
qed

lemma get_restored:
  assumes "cache_get s i \<noteq> None" and "0 \<le> r" and "r < 8"
  shows "dt_ratings_get (ratings_apply_to_image i r s) j = (if j = i then r else dt_ratings_get s j)"
  using assms by (auto simp: get_applied [OF assms(1)] rating_defs)

lemma stars_applied: "j \<noteq> i \<Longrightarrow> stars (ratings_apply_to_image i r s) j = stars s j"
  by (auto simp: ratings_apply_to_image_def stars_def get_put split: option.splits dest: cache_get_id)


text \<open>The callback gives each image of the list what is recorded for it.\<close>

lemma pop_loop_get:
  assumes "distinct (map rt_imgid d)" and "\<forall>r\<in>set d. cache_get s (rt_imgid r) \<noteq> None"
  shows "dt_ratings_get (snd (ratings_pop_loop a d imgs s)) i =
    (case find (\<lambda>r. rt_imgid r = i) d of None \<Rightarrow> dt_ratings_get s i
     | Some r \<Rightarrow> dt_ratings_get (ratings_apply_to_image i (if a = DT_ACTION_UNDO then rt_before r else rt_after r) s) i)"
  using assms
proof (induction d arbitrary: imgs s)
  case (Cons r d)
  let ?v = "if a = DT_ACTION_UNDO then rt_before r else rt_after r"
  let ?s = "ratings_apply_to_image (rt_imgid r) ?v s"
  have ih: "dt_ratings_get (snd (ratings_pop_loop a d (rt_imgid r # imgs) ?s)) i =
    (case find (\<lambda>r. rt_imgid r = i) d of None \<Rightarrow> dt_ratings_get ?s i
     | Some r \<Rightarrow> dt_ratings_get (ratings_apply_to_image i (if a = DT_ACTION_UNDO then rt_before r else rt_after r) ?s) i)"
    using Cons.prems by (intro Cons.IH) auto
  have ex: "cache_get s (rt_imgid r) \<noteq> None" using Cons.prems by simp
  show ?case
  proof (cases "rt_imgid r = i")
    case True
    with Cons.prems have "find (\<lambda>r. rt_imgid r = i) d = None" unfolding find_None_iff by (auto simp: image_iff)
    with ih True show ?thesis by simp
  next
    case False
    have base: "dt_ratings_get ?s i = dt_ratings_get s i" using False ex by (simp add: get_applied)
    show ?thesis
    proof (cases "find (\<lambda>r. rt_imgid r = i) d")
      case None
      with ih False base show ?thesis by simp
    next
      case (Some q)
      then have "cache_get s i \<noteq> None" using Cons.prems(2) by (auto simp: find_Some_iff)
      then have "dt_ratings_get (ratings_apply_to_image i v ?s) i = dt_ratings_get (ratings_apply_to_image i v s) i" for v
        using False by (simp add: get_applied stars_applied)
      with ih False Some show ?thesis by simp
    qed
  qed
qed simp

lemma pop_loop_images: "fst (ratings_pop_loop a d imgs s) = rev (map rt_imgid d) @ imgs"
  by (induction d arbitrary: imgs s) simp_all

text \<open>One pass of \<open>_ratings_apply\<close> over images that are in the table, each once.\<close>

lemma ratings_loop_get:
  assumes "distinct imgs" and "\<forall>i\<in>set imgs. cache_get s i \<noteq> None" and "ratings_loop t rating on imgs undo s = (undo', s')"
  shows "(\<forall>i. dt_ratings_get s' i =
       (if i \<in> set imgs then dt_ratings_get (ratings_apply_to_image i (rating_for t rating (dt_ratings_get s i)) s) i
        else dt_ratings_get s i)) \<and>
    (\<forall>i. cache_get s' i = None \<longleftrightarrow> cache_get s i = None) \<and> m_labels s' = m_labels s \<and>
    undo' = undo @ (if on then map (\<lambda>i. \<lparr>rt_imgid = i, rt_before = dt_ratings_get s i, rt_after = rating\<rparr>) imgs else [])"
  using assms
proof (induction imgs arbitrary: undo s)
  case (Cons i imgs)
  let ?s = "ratings_apply_to_image i (rating_for t rating (dt_ratings_get s i)) s"
  have other: "dt_ratings_get ?s j = dt_ratings_get s j" "dt_ratings_get (ratings_apply_to_image j v ?s) j =
      dt_ratings_get (ratings_apply_to_image j v s) j" if "j \<in> set imgs" for j v
  proof -
    have "cache_get s i \<noteq> None" "cache_get s j \<noteq> None" "j \<noteq> i" using that Cons.prems(1,2) by auto
    then show "dt_ratings_get ?s j = dt_ratings_get s j" "dt_ratings_get (ratings_apply_to_image j v ?s) j =
      dt_ratings_get (ratings_apply_to_image j v s) j" by (simp_all add: get_applied stars_applied)
  qed
  have rest: "dt_ratings_get ?s j = dt_ratings_get s j" if "j \<noteq> i" for j using that Cons.prems by (simp add: get_applied)
  have l: "m_labels ?s = m_labels s" by (simp add: ratings_apply_to_image_def split: option.splits)
  have m: "map (\<lambda>j. \<lparr>rt_imgid = j, rt_before = dt_ratings_get ?s j, rt_after = rating\<rparr>) imgs =
      map (\<lambda>j. \<lparr>rt_imgid = j, rt_before = dt_ratings_get s j, rt_after = rating\<rparr>) imgs"
    using other(1) by simp
  have run: "ratings_loop t rating on imgs (if on then undo @ [\<lparr>rt_imgid = i, rt_before = dt_ratings_get s i, rt_after = rating\<rparr>]
      else undo) ?s = (undo', s')"
    using Cons.prems(3) by (simp add: Let_def)
  have ih: "(\<forall>j. dt_ratings_get s' j =
       (if j \<in> set imgs then dt_ratings_get (ratings_apply_to_image j (rating_for t rating (dt_ratings_get ?s j)) ?s) j
        else dt_ratings_get ?s j)) \<and>
    (\<forall>j. cache_get s' j = None \<longleftrightarrow> cache_get s j = None) \<and> m_labels s' = m_labels s \<and>
    undo' = undo @ (if on then map (\<lambda>j. \<lparr>rt_imgid = j, rt_before = dt_ratings_get s j, rt_after = rating\<rparr>) (i # imgs) else [])"
    using Cons.IH [OF _ _ run] Cons.prems(1,2) unfolding m l by (cases on) simp_all
  show ?case
  proof (intro conjI allI)
    fix j
    show "dt_ratings_get s' j =
       (if j \<in> set (i # imgs) then dt_ratings_get (ratings_apply_to_image j (rating_for t rating (dt_ratings_get s j)) s) j
        else dt_ratings_get s j)"
      using ih other rest Cons.prems(1) by (cases "j = i") auto
  qed (use ih in auto)
qed simp


text \<open>What a rating keeps: the rows, the number and group of each, and the flags but for the bits of the rating.\<close>

definition rated_row :: "image_row \<Rightarrow> image_row \<Rightarrow> bool" where
  "rated_row r' r \<longleftrightarrow> im_id r' = im_id r \<and> im_group r' = im_group r \<and> im_flags r' AND NOT 15 = im_flags r AND NOT 15"

lemma apply_rows:
  "map im_id (m_images (ratings_apply_to_image i r s)) = map im_id (m_images s)"
  "j \<noteq> i \<Longrightarrow> cache_get (ratings_apply_to_image i r s) j = cache_get s j"
  "cache_get s j = Some q \<Longrightarrow> \<exists>q'. cache_get (ratings_apply_to_image i r s) j = Some q' \<and> rated_row q' q"
proof -
  show "map im_id (m_images (ratings_apply_to_image i r s)) = map im_id (m_images s)"
    by (simp add: ratings_apply_to_image_def del: map_map split: option.split)
  show other: "j \<noteq> i \<Longrightarrow> cache_get (ratings_apply_to_image i r s) j = cache_get s j"
    by (auto simp: ratings_apply_to_image_def get_put split: option.splits dest: cache_get_id)
  show "\<exists>q'. cache_get (ratings_apply_to_image i r s) j = Some q' \<and> rated_row q' q" if q: "cache_get s j = Some q"
  proof (cases "j = i")
    case True
    then have "cache_get (ratings_apply_to_image i r s) j = Some (q\<lparr>im_flags := rated_flags r (im_flags q)\<rparr>)"
      using q cache_get_id [OF q] by (simp add: ratings_apply_to_image_def get_put)
    then show ?thesis using rated_other_bits [of r "im_flags q"] by (simp add: rated_row_def)
  qed (use q other in \<open>simp add: rated_row_def\<close>)
qed

lemma ratings_loop_rows:
  assumes "ratings_loop t rating on imgs undo s = (undo', s')"
  shows "map im_id (m_images s') = map im_id (m_images s) \<and> (\<forall>j. j \<notin> set imgs \<longrightarrow> cache_get s' j = cache_get s j) \<and>
    (\<forall>j q. cache_get s j = Some q \<longrightarrow> (\<exists>q'. cache_get s' j = Some q' \<and> rated_row q' q))"
  using assms
proof (induction imgs arbitrary: undo s)
  case (Cons i imgs)
  let ?s = "ratings_apply_to_image i (rating_for t rating (dt_ratings_get s i)) s"
  have ih: "map im_id (m_images s') = map im_id (m_images ?s)" "\<And>j. j \<notin> set imgs \<Longrightarrow> cache_get s' j = cache_get ?s j"
    "\<And>j q. cache_get ?s j = Some q \<Longrightarrow> \<exists>q'. cache_get s' j = Some q' \<and> rated_row q' q"
    using Cons.IH [of _ ?s] Cons.prems by (auto simp: Let_def)
  have "\<exists>q'. cache_get s' j = Some q' \<and> rated_row q' q" if "cache_get s j = Some q" for j q
  proof -
    from apply_rows(3) [OF that] obtain q1 where q1: "cache_get ?s j = Some q1" "rated_row q1 q" by blast
    from ih(3) [OF q1(1)] obtain q2 where "cache_get s' j = Some q2" "rated_row q2 q1" by blast
    with q1(2) show ?thesis by (auto simp: rated_row_def)
  qed
  then show ?case using ih(1,2) apply_rows(1,2) by simp
qed (simp add: rated_row_def)


text \<open>The ratings are a client of the undo manager: undoing gives every image the rating it had.\<close>

definition ratings_hold :: "dt_undo_ratings_t list \<Rightarrow> marks \<Rightarrow> (int \<Rightarrow> int) \<Rightarrow> bool" where
  "ratings_hold d s v \<longleftrightarrow> distinct (map rt_imgid d) \<and>
     (\<forall>r\<in>set d. cache_get s (rt_imgid r) \<noteq> None \<and> 0 \<le> rt_before r \<and> rt_before r < 8) \<and>
     v = (\<lambda>i. case find (\<lambda>r. rt_imgid r = i) d of None \<Rightarrow> dt_ratings_get s i | Some r \<Rightarrow> rt_before r)"

interpretation ratings_client: undo_client ratings_pop_undo DT_UNDO_RATINGS ratings_hold "\<lambda>d s. dt_ratings_get s"
proof
  fix d s v u imgs
  assume h: "ratings_hold d s v"
  then have hs: "distinct (map rt_imgid d)" "\<forall>r\<in>set d. cache_get s (rt_imgid r) \<noteq> None" by (auto simp: ratings_hold_def)
  show "dt_ratings_get (snd (ratings_pop_undo u DT_UNDO_RATINGS (Some d) DT_ACTION_UNDO imgs s)) = v"
  proof
    fix i
    have "dt_ratings_get (ratings_apply_to_image i (rt_before r) s) i = rt_before r"
      if "find (\<lambda>r. rt_imgid r = i) d = Some r" for r
      using that h by (auto simp: ratings_hold_def find_Some_iff get_restored)
    then show "dt_ratings_get (snd (ratings_pop_undo u DT_UNDO_RATINGS (Some d) DT_ACTION_UNDO imgs s)) i = v i"
      using h by (simp add: ratings_pop_undo_def pop_loop_get [OF hs] ratings_hold_def split: option.splits)
  qed
qed

text \<open>The list that is recorded with a rating.\<close>

definition rating_items :: "int list \<Rightarrow> int \<Rightarrow> marks \<Rightarrow> dt_undo_ratings_t list" where
  "rating_items imgs rating s = map (\<lambda>i. \<lparr>rt_imgid = i, rt_before = dt_ratings_get s i, rt_after = rating\<rparr>) imgs"

lemma find_rating_item:
  "find (\<lambda>r. rt_imgid r = i) (rating_items imgs rating s) =
    (if i \<in> set imgs then Some \<lparr>rt_imgid = i, rt_before = dt_ratings_get s i, rt_after = rating\<rparr> else None)"
  by (induction imgs) (auto simp: rating_items_def)

lemma rating_items_ids [simp]: "map rt_imgid (rating_items imgs rating s) = imgs"
  by (simp add: rating_items_def o_def)

lemma rated_list:
  assumes "distinct imgs" and "\<forall>i\<in>set imgs. cache_get s i \<noteq> None" and "imgs \<noteq> []"
    and "dt_ratings_apply_on_list dt ts imgs rating True (s, U) = Some (s1, U1)"
  shows "ratings_client.recorded U (rating_items imgs rating s) ts = Some U1 \<and>
    (\<forall>i. dt_ratings_get s1 i =
       (if i \<in> set imgs
        then dt_ratings_get (ratings_apply_to_image i (rating_for (rating_toggle dt imgs rating s) rating (dt_ratings_get s i)) s) i
        else dt_ratings_get s i)) \<and> (\<forall>i. cache_get s1 i = None \<longleftrightarrow> cache_get s i = None) \<and>
    m_labels s1 = m_labels s \<and> ratings_hold (rating_items imgs rating s) s1 (dt_ratings_get s) \<and>
    map im_id (m_images s1) = map im_id (m_images s) \<and> (\<forall>j. j \<notin> set imgs \<longrightarrow> cache_get s1 j = cache_get s j) \<and>
    (\<forall>j q. cache_get s j = Some q \<longrightarrow> (\<exists>q'. cache_get s1 j = Some q' \<and> rated_row q' q))"
proof -
  obtain t1 t2 t3 where ts: "ts = (t1, t2, t3)" by (cases ts)
  obtain undo s' where run: "ratings_loop (rating_toggle dt imgs rating s) rating True imgs [] s = (undo, s')" by fastforce
  note loop = ratings_loop_get [OF assms(1,2) run]
  then have undo: "undo = rating_items imgs rating s" by (simp add: rating_items_def)
  from assms(3,4) have "s1 = s'" and rec: "ratings_client.recorded U undo ts = Some U1"
    by (auto simp: dt_ratings_apply_on_list_def ratings_record_def ratings_apply_def run ts ratings_client.recorded_def)
  moreover have "ratings_hold (rating_items imgs rating s) s' (dt_ratings_get s)"
    using assms(1,2) loop ratings_get_cases
    by (auto simp: ratings_hold_def find_rating_item fun_eq_iff) (auto simp: rating_items_def ratings_get_cases)
  ultimately show ?thesis using loop undo ratings_loop_rows [OF run] by simp
qed

lemma rated_value:
  assumes "DT_RATINGS_DOWNGRADE \<le> rating" and "rating \<le> DT_VIEW_REJECT" and "0 \<le> old" and "old < 8"
    and v: "v = rating_for t rating old"
  shows "(if v = DT_RATINGS_REJECT \<or> v = DT_VIEW_REJECT then DT_VIEW_REJECT
     else if v = DT_RATINGS_UNREJECT then st else v mod 8) =
    (if rating = DT_RATINGS_UPGRADE then if old = DT_VIEW_REJECT then DT_VIEW_REJECT else min 5 (old + 1)
     else if rating = DT_RATINGS_DOWNGRADE then if old = DT_VIEW_REJECT then DT_VIEW_REJECT else max 0 (old - 1)
     else if rating = DT_VIEW_REJECT then if t then st else DT_VIEW_REJECT
     else if rating = 1 \<and> t then 0 else rating)"
proof -
  consider "rating = -1" | "rating = -2" | "rating = 6" | "rating = 1" | "rating = 0 \<or> 2 \<le> rating \<and> rating \<le> 5"
    using assms(1,2) by (fastforce simp: rating_defs)
  then show ?thesis using assms(3,4) by cases (auto simp: v rating_for_def rating_defs min_def max_def)
qed

text \<open>
  C14: what a rating does. Of images that are in the table, each named once: one star more gives at most five and one star
  less at least none, and both leave a rejected image rejected; a reject rejects all of them, unless all are rejected, when each
  gets back the stars it had; one star is taken off when all have exactly one and the double tap is off; any other number of stars is set, and
  takes a rejection off. A rating that reads seven, which only a redo leaves behind, becomes five by one star more and six, the reject,
  by one star less. The rows of images that are not named do not change at all; of the others only the four
  bits of the rating do, and the colour labels and the order of the rows stay.
\<close>

theorem ratings_apply_spec:
  assumes "distinct imgs" and "\<forall>i\<in>set imgs. cache_get s i \<noteq> None" and "imgs \<noteq> []"
    and "DT_RATINGS_DOWNGRADE \<le> rating" and "rating \<le> DT_VIEW_REJECT"
    and "dt_ratings_apply_on_list double_tap ts imgs rating True (s, U) = Some (s1, U1)"
  shows "(\<forall>i. dt_ratings_get s1 i =
      (if i \<notin> set imgs then dt_ratings_get s i
       else if rating = DT_RATINGS_UPGRADE
       then if dt_ratings_get s i = DT_VIEW_REJECT then DT_VIEW_REJECT else min 5 (dt_ratings_get s i + 1)
       else if rating = DT_RATINGS_DOWNGRADE
       then if dt_ratings_get s i = DT_VIEW_REJECT then DT_VIEW_REJECT else max 0 (dt_ratings_get s i - 1)
       else if rating = DT_VIEW_REJECT
       then if \<forall>j\<in>set imgs. dt_ratings_get s j = DT_VIEW_REJECT then stars s i else DT_VIEW_REJECT
       else if rating = 1 \<and> \<not> double_tap \<and> (\<forall>j\<in>set imgs. dt_ratings_get s j = 1) then 0
       else rating)) \<and> m_labels s1 = m_labels s \<and>
    map im_id (m_images s1) = map im_id (m_images s) \<and> (\<forall>j. j \<notin> set imgs \<longrightarrow> cache_get s1 j = cache_get s j) \<and>
    (\<forall>j q. cache_get s j = Some q \<longrightarrow> (\<exists>q'. cache_get s1 j = Some q' \<and> rated_row q' q))"
proof -
  note r = rated_list [OF assms(1,2,3,6)]
  have one: "dt_ratings_get s1 i =
      (if rating = DT_RATINGS_UPGRADE
       then if dt_ratings_get s i = DT_VIEW_REJECT then DT_VIEW_REJECT else min 5 (dt_ratings_get s i + 1)
       else if rating = DT_RATINGS_DOWNGRADE
       then if dt_ratings_get s i = DT_VIEW_REJECT then DT_VIEW_REJECT else max 0 (dt_ratings_get s i - 1)
       else if rating = DT_VIEW_REJECT
       then if \<forall>j\<in>set imgs. dt_ratings_get s j = DT_VIEW_REJECT then stars s i else DT_VIEW_REJECT
       else if rating = 1 \<and> \<not> double_tap \<and> (\<forall>j\<in>set imgs. dt_ratings_get s j = 1) then 0
       else rating)" if i: "i \<in> set imgs" for i
  proof -
    let ?t = "rating_toggle double_tap imgs rating s"
    have ex: "cache_get s i \<noteq> None" using assms(2) i by blast
    have "dt_ratings_get s1 i = dt_ratings_get (ratings_apply_to_image i (rating_for ?t rating (dt_ratings_get s i)) s) i"
      using r i by simp
    moreover have "rating = DT_VIEW_REJECT \<Longrightarrow> ?t = (\<forall>j\<in>set imgs. dt_ratings_get s j = DT_VIEW_REJECT)"
      and "rating = 1 \<Longrightarrow> ?t = (\<not> double_tap \<and> (\<forall>j\<in>set imgs. dt_ratings_get s j = 1))"
      by (simp_all add: rating_toggle_def rating_defs list_all_iff)
    ultimately show ?thesis
      using ratings_get_cases [of s i]
      unfolding get_applied [OF ex]
      by (simp add: rated_value [OF assms(4,5) _ _ refl] cong: if_cong conj_cong)
  qed
  have "dt_ratings_get s1 i = dt_ratings_get s i" if "i \<notin> set imgs" for i using r that by simp
  with one r show ?thesis by (simp cong: if_cong)
qed


text \<open>An example: two images with two and five stars, of which the second is rejected.\<close>

definition two_images :: marks where
  "two_images = \<lparr>m_images = [\<lparr>im_id = 1, im_flags = 2, im_group = 1\<rparr>, \<lparr>im_id = 2, im_flags = 13, im_group = 2\<rparr>],
     m_labels = []\<rparr>"

lemma two_images_facts:
  "cache_get two_images 1 = Some \<lparr>im_id = 1, im_flags = 2, im_group = 1\<rparr>"
  "cache_get two_images 2 = Some \<lparr>im_id = 2, im_flags = 13, im_group = 2\<rparr>"
  "dt_ratings_get two_images 1 = 2" "dt_ratings_get two_images 2 = 6"
  by (simp_all add: two_images_def cache_get_def dt_is_valid_imgid_def dt_ratings_get_def flags_rating_def rating_defs)

lemma apply_on_list_records:
  "imgs \<noteq> [] \<Longrightarrow> group U = DT_UNDO_NONE \<Longrightarrow> \<not> disable_next U \<Longrightarrow>
    \<exists>s1 U1. dt_ratings_apply_on_list double_tap ts imgs rating True (s, U) = Some (s1, U1)"
  by (cases ts) (auto simp: dt_ratings_apply_on_list_def ratings_record_def dt_undo_start_group_def dt_undo_record_def
      dt_undo_end_group_def undo_record_def Let_def split: prod.splits)

lemma fresh_undo: "group (dt_undo_init :: ratings_undo) = DT_UNDO_NONE" "\<not> disable_next (dt_undo_init :: ratings_undo)"
  by (simp_all add: dt_undo_init_def)

theorem ratings_apply_spec_witness:
  "\<exists>s1 U1. dt_ratings_apply_on_list False (0, 0, 0) [1, 2] DT_RATINGS_UPGRADE True (two_images, dt_undo_init) = Some (s1, U1) \<and>
     dt_ratings_get s1 1 = 3 \<and> dt_ratings_get s1 2 = DT_VIEW_REJECT"
proof -
  obtain s1 U1 where run: "dt_ratings_apply_on_list False (0, 0, 0) [1, 2] DT_RATINGS_UPGRADE True (two_images, dt_undo_init) = Some (s1, U1)"
    using apply_on_list_records [of "[1, 2]", OF _ fresh_undo] by blast
  from ratings_apply_spec [OF _ _ _ _ _ run]
  have "\<forall>i. dt_ratings_get s1 i = (if i \<notin> set [1, 2] then dt_ratings_get two_images i
      else if dt_ratings_get two_images i = DT_VIEW_REJECT then DT_VIEW_REJECT else min 5 (dt_ratings_get two_images i + 1))"
    by (simp add: rating_defs two_images_facts cong: if_cong)
  then have "dt_ratings_get s1 1 = 3" "dt_ratings_get s1 2 = DT_VIEW_REJECT" by (simp_all add: two_images_facts rating_defs)
  with run show ?thesis by blast
qed

text \<open>
  C20: undoing a rating, right after it was given, brings back the rating of every image of the library. The manager's list is
  as before, and the list of changed images names the rated images.
\<close>

theorem rating_undone:
  assumes "distinct imgs" and "\<forall>i\<in>set imgs. cache_get s i \<noteq> None" and "imgs \<noteq> []"
    and "group U = DT_UNDO_NONE" and "\<not> disable_next U"
    and "dt_ratings_apply_on_list double_tap ts imgs rating True (s, U) = Some (s1, U1)"
    and "DT_UNDO_RATINGS AND filt \<noteq> 0" and "dt_undo_do_undo U1 filt s1 = (U2, s2, changed)"
  shows "dt_ratings_get s2 = dt_ratings_get s \<and> undo_list U2 = undo_list U \<and> set changed = set imgs"
proof -
  note r = rated_list [OF assms(1,2,3,6)]
  then have rec: "ratings_client.recorded U (rating_items imgs rating s) ts = Some U1"
    and h: "ratings_hold (rating_items imgs rating s) s1 (dt_ratings_get s)" by blast+
  note u = ratings_client.undo_recorded [OF assms(4,5) rec assms(7) h assms(8)]
  from u(3) have "set changed = set imgs" by (auto simp: ratings_pop_undo_def pop_loop_images set_g_list_sort)
  with u(1,2) show ?thesis by simp
qed

theorem rating_undone_witness:
  "\<exists>s1 U1 U2 s2 changed. dt_ratings_apply_on_list False (0, 0, 0) [1, 2] DT_VIEW_REJECT True (two_images, dt_undo_init) = Some (s1, U1) \<and>
     dt_undo_do_undo U1 DT_UNDO_LIGHTTABLE s1 = (U2, s2, changed) \<and> dt_ratings_get s2 1 = 2 \<and> undo_list U2 = []"
proof -
  obtain s1 U1 where run: "dt_ratings_apply_on_list False (0, 0, 0) [1, 2] DT_VIEW_REJECT True (two_images, dt_undo_init) = Some (s1, U1)"
    using apply_on_list_records [of "[1, 2]", OF _ fresh_undo] by blast
  obtain U2 s2 changed where u: "dt_undo_do_undo U1 DT_UNDO_LIGHTTABLE s1 = (U2, s2, changed)" by (metis prod_cases3)
  from rating_undone [OF _ _ _ fresh_undo run _ u] have "dt_ratings_get s2 = dt_ratings_get two_images \<and> undo_list U2 = []"
    by (simp add: two_images_facts undo_type_defs) (simp add: dt_undo_init_def)
  with run u two_images_facts(3) show ?thesis by force
qed

text \<open>
  C37: redoing one star more gives seven. The undo record keeps the rating that was asked for and not the one that was given: it is
  the number -1 for one star more. When the change is undone and redone, each listed image gets the low three bits of -1, and is rejected no
  longer when it was.
\<close>

theorem redone_upgrade_gives_seven:
  assumes "distinct imgs" and "\<forall>i\<in>set imgs. cache_get s i \<noteq> None" and "imgs \<noteq> []"
    and "group U = DT_UNDO_NONE" and "\<not> disable_next U"
    and "dt_ratings_apply_on_list double_tap ts imgs DT_RATINGS_UPGRADE True (s, U) = Some (s1, U1)"
    and "DT_UNDO_RATINGS AND filt \<noteq> 0" and "dt_undo_do_undo U1 filt s1 = (U2, s2, changed)"
    and "dt_undo_do_redo U2 filt s2 = (U3, s3, changed')" and "i \<in> set imgs"
  shows "dt_ratings_get s1 i \<le> 6 \<and> dt_ratings_get s3 i = 7"
proof -
  let ?d = "rating_items imgs DT_RATINGS_UPGRADE s"
  note r = rated_list [OF assms(1,2,3,6)]
  then have rec: "ratings_client.recorded U ?d ts = Some U1" and h: "ratings_hold ?d s1 (dt_ratings_get s)" by blast+
  note u = ratings_client.undo_recorded [OF assms(4,5) rec assms(7) h assms(8)]
  have some: "cache_get (snd (ratings_pop_loop a d im t)) j = None \<longleftrightarrow> cache_get t j = None" for a d im t j
    by (induction d arbitrary: im t) simp_all
  from u(3) have ex: "cache_get s2 j \<noteq> None" if "j \<in> set imgs" for j
    using r assms(2) that by (auto simp: ratings_pop_undo_def some simp del: not_None_eq)
  from ratings_client.redo_undone(1) [OF assms(4,5) rec assms(7) h assms(8,9)]
  have "s3 = snd (ratings_pop_loop DT_ACTION_REDO ?d [] s2)" by (auto simp: ratings_pop_undo_def)
  moreover have "\<forall>r\<in>set ?d. cache_get s2 (rt_imgid r) \<noteq> None" using ex by (auto simp: rating_items_def)
  ultimately have "dt_ratings_get s3 i = dt_ratings_get (ratings_apply_to_image i DT_RATINGS_UPGRADE s2) i"
    using assms(1,10) pop_loop_get [of ?d s2 DT_ACTION_REDO "[]" i] by (simp add: find_rating_item)
  then have "dt_ratings_get s3 i = 7" using ex [OF assms(10)] by (simp add: get_applied rating_defs)
  moreover have "dt_ratings_get s1 i \<le> 6"
    using r assms(2,10) ratings_get_cases [of s i]
    by (auto simp: get_applied rating_for_def rating_defs min_def)
  ultimately show ?thesis by simp
qed

theorem redone_upgrade_gives_seven_witness:
  "\<exists>s1 U1 U2 s2 c U3 s3 c'.
     dt_ratings_apply_on_list False (0, 0, 0) [1] DT_RATINGS_UPGRADE True (two_images, dt_undo_init) = Some (s1, U1) \<and>
     dt_undo_do_undo U1 DT_UNDO_LIGHTTABLE s1 = (U2, s2, c) \<and> dt_undo_do_redo U2 DT_UNDO_LIGHTTABLE s2 = (U3, s3, c') \<and>
     dt_ratings_get s3 1 = 7"
proof -
  obtain s1 U1 where run: "dt_ratings_apply_on_list False (0, 0, 0) [1] DT_RATINGS_UPGRADE True (two_images, dt_undo_init) = Some (s1, U1)"
    using apply_on_list_records [of "[1]", OF _ fresh_undo] by blast
  obtain U2 s2 c where u: "dt_undo_do_undo U1 DT_UNDO_LIGHTTABLE s1 = (U2, s2, c)" by (metis prod_cases3)
  obtain U3 s3 c' where r: "dt_undo_do_redo U2 DT_UNDO_LIGHTTABLE s2 = (U3, s3, c')" by (metis prod_cases3)
  have "dt_ratings_get s3 1 = 7"
    using redone_upgrade_gives_seven [OF _ _ _ fresh_undo run _ u r, of 1] by (simp add: two_images_facts undo_type_defs)
  with run u r show ?thesis by blast
qed



section \<open>Colour labels\<close>

definition DT_COLORLABELS_LAST :: int where "DT_COLORLABELS_LAST = 5"

definition dt_colorlabels_name :: "string list" where
  "dt_colorlabels_name = [''red'', ''yellow'', ''green'', ''blue'', ''purple'']"

record dt_undo_colorlabels_t =
  cl_imgid :: int
  cl_before :: "8 word"
  cl_after :: "8 word"

datatype dt_colorlabels_actions_t = DT_CA_SET | DT_CA_ADD | DT_CA_TOGGLE

text \<open>\<open>1 << color\<close>.\<close>

definition label_bit :: "int \<Rightarrow> 'a::len word" where
  "label_bit color = push_bit (nat color) 1"

definition dt_colorlabels_get_labels :: "marks \<Rightarrow> int \<Rightarrow> 32 word" where
  "dt_colorlabels_get_labels s imgid =
     (if \<not> dt_is_valid_imgid imgid then 0
      else foldl (\<lambda>colors (i, c). if i = imgid then colors OR label_bit c else colors) 0 (m_labels s))"

definition dt_colorlabels_remove_all_labels :: "int \<Rightarrow> marks \<Rightarrow> marks" where
  "dt_colorlabels_remove_all_labels imgid s =
     (if \<not> dt_is_valid_imgid imgid then s else s\<lparr>m_labels := filter (\<lambda>(i, c). i \<noteq> imgid) (m_labels s)\<rparr>)"

text \<open>The index of the table is unique: inserting a row that is there fails, and nothing reads the result.\<close>

definition dt_colorlabels_set_label :: "int \<Rightarrow> int \<Rightarrow> marks \<Rightarrow> marks" where
  "dt_colorlabels_set_label imgid color s =
     (if (imgid, color) \<in> set (m_labels s) then s else s\<lparr>m_labels := m_labels s @ [(imgid, color)]\<rparr>)"

definition dt_colorlabels_remove_label :: "int \<Rightarrow> int \<Rightarrow> marks \<Rightarrow> marks" where
  "dt_colorlabels_remove_label imgid color s =
     (if \<not> dt_is_valid_imgid imgid then s else s\<lparr>m_labels := filter (\<lambda>row. row \<noteq> (imgid, color)) (m_labels s)\<rparr>)"

definition dt_colorlabels_check_label :: "marks \<Rightarrow> int \<Rightarrow> int \<Rightarrow> bool" where
  "dt_colorlabels_check_label s imgid color \<longleftrightarrow> dt_is_valid_imgid imgid \<and> (imgid, color) \<in> set (m_labels s)"

definition dt_colorlabels_to_string :: "int \<Rightarrow> string" where
  "dt_colorlabels_to_string label =
     (if label < 0 \<or> label \<ge> DT_COLORLABELS_LAST then '''' else dt_colorlabels_name ! nat label)"

definition labels_pop_color :: "int \<Rightarrow> 8 word \<Rightarrow> 8 word \<Rightarrow> int \<Rightarrow> marks \<Rightarrow> marks" where
  "labels_pop_color imgid before after color s =
     (if after AND label_bit color \<noteq> 0
      then if \<not> before AND label_bit color \<noteq> 0 then dt_colorlabels_set_label imgid color s else s
      else if before AND label_bit color \<noteq> 0 then dt_colorlabels_remove_label imgid color s else s)"

definition labels_pop_undo_execute :: "int \<Rightarrow> 8 word \<Rightarrow> 8 word \<Rightarrow> marks \<Rightarrow> marks" where
  "labels_pop_undo_execute imgid before after s =
     (if \<not> dt_is_valid_imgid imgid then s
      else fold (labels_pop_color imgid before after) [0, 1, 2, 3, 4] s)"

fun labels_pop_loop :: "dt_undo_action_t \<Rightarrow> dt_undo_colorlabels_t list \<Rightarrow> int list \<Rightarrow> marks \<Rightarrow> int list \<times> marks" where
  "labels_pop_loop action [] imgs s = (imgs, s)"
| "labels_pop_loop action (r # data) imgs s =
     labels_pop_loop action data (cl_imgid r # imgs)
       (labels_pop_undo_execute (cl_imgid r)
          (if action = DT_ACTION_UNDO then cl_after r else cl_before r)
          (if action = DT_ACTION_UNDO then cl_before r else cl_after r) s)"

definition labels_pop_undo :: "(unit, dt_undo_colorlabels_t list, marks) undo_fn" where
  "labels_pop_undo user_data type data action imgs s =
     (if type = DT_UNDO_COLORLABELS
      then labels_pop_loop action (case data of None \<Rightarrow> [] | Some l \<Rightarrow> l) imgs s
      else (imgs, s))"

text \<open>Labels are or-ed as integers of 32 bits, and the result is cut to 8.\<close>

definition labels_before :: "marks \<Rightarrow> int \<Rightarrow> 8 word" where
  "labels_before s imgid = ucast (dt_colorlabels_get_labels s imgid)"

definition labels_after :: "dt_colorlabels_actions_t \<Rightarrow> 32 word \<Rightarrow> 8 word \<Rightarrow> 8 word" where
  "labels_after action labels before =
     (case action of DT_CA_SET \<Rightarrow> ucast labels
      | DT_CA_ADD \<Rightarrow> ucast (ucast before OR labels)
      | DT_CA_TOGGLE \<Rightarrow> if (ucast before :: 32 word) AND labels \<noteq> 0 then ucast (ucast before AND NOT labels)
                        else ucast (ucast before OR labels))"

fun labels_loop :: "dt_colorlabels_actions_t \<Rightarrow> 32 word \<Rightarrow> bool \<Rightarrow> int list \<Rightarrow> dt_undo_colorlabels_t list \<Rightarrow> marks \<Rightarrow>
    dt_undo_colorlabels_t list \<times> marks" where
  "labels_loop action labels undo_on [] undo s = (undo, s)"
| "labels_loop action labels undo_on (i # imgs) undo s =
     (let before = labels_before s i; after = labels_after action labels before
      in labels_loop action labels undo_on imgs
           (if undo_on then undo @ [\<lparr>cl_imgid = i, cl_before = before, cl_after = after\<rparr>] else undo)
           (labels_pop_undo_execute i before after s))"

definition labels_action :: "int list \<Rightarrow> 32 word \<Rightarrow> dt_colorlabels_actions_t \<Rightarrow> marks \<Rightarrow> dt_colorlabels_actions_t" where
  "labels_action imgs labels action s =
     (if action = DT_CA_TOGGLE \<and> list_ex (\<lambda>i. \<not> (ucast (labels_before s i) :: 32 word) AND labels \<noteq> 0) imgs
      then DT_CA_ADD else action)"

definition colorlabels_execute :: "int list \<Rightarrow> 32 word \<Rightarrow> bool \<Rightarrow> dt_colorlabels_actions_t \<Rightarrow> marks \<Rightarrow>
    dt_undo_colorlabels_t list \<times> marks" where
  "colorlabels_execute imgs labels undo_on action s =
     labels_loop (labels_action imgs labels action s) labels undo_on imgs [] s"

type_synonym labels_undo = "(unit, dt_undo_colorlabels_t list, marks) dt_undo_t"

definition labels_record :: "rat \<times> rat \<times> rat \<Rightarrow> bool \<Rightarrow> (marks \<Rightarrow> dt_undo_colorlabels_t list \<times> marks) \<Rightarrow>
    marks \<times> labels_undo \<Rightarrow> (marks \<times> labels_undo) option" where
  "labels_record ts undo_on act = (\<lambda>(s, U). case ts of (t1, t2, t3) \<Rightarrow>
     let U1 = (if undo_on then dt_undo_start_group U DT_UNDO_COLORLABELS t1 else U);
         (undo, s1) = act s
     in if undo_on
        then map_option (Pair s1)
          (dt_undo_end_group (dt_undo_record U1 None DT_UNDO_COLORLABELS (if undo = [] then None else Some undo)
             labels_pop_undo True t2) t3)
        else Some (s1, U1))"

definition dt_colorlabels_set_labels :: "rat \<times> rat \<times> rat \<Rightarrow> int list \<Rightarrow> 32 word \<Rightarrow> bool \<Rightarrow> bool \<Rightarrow>
    marks \<times> labels_undo \<Rightarrow> (marks \<times> labels_undo) option" where
  "dt_colorlabels_set_labels ts imgs labels clear_on undo_on su =
     (if imgs = [] then Some su
      else labels_record ts undo_on (colorlabels_execute imgs labels undo_on (if clear_on then DT_CA_SET else DT_CA_ADD)) su)"

definition dt_colorlabels_toggle_label_on_list :: "rat \<times> rat \<times> rat \<Rightarrow> int list \<Rightarrow> int \<Rightarrow> bool \<Rightarrow>
    marks \<times> labels_undo \<Rightarrow> (marks \<times> labels_undo) option" where
  "dt_colorlabels_toggle_label_on_list ts imgs color undo_on su =
     labels_record ts undo_on
       (if color = 5 then colorlabels_execute imgs 0 undo_on DT_CA_SET
        else colorlabels_execute imgs (label_bit color) undo_on DT_CA_TOGGLE) su"


text \<open>Whether an image has a label, and how the numbers tell it.\<close>

definition has_label :: "marks \<Rightarrow> int \<Rightarrow> int \<Rightarrow> bool" where
  "has_label s i c \<longleftrightarrow> (i, c) \<in> set (m_labels s)"

definition labels_ok :: "marks \<Rightarrow> bool" where
  "labels_ok s \<longleftrightarrow> (\<forall>(i, c)\<in>set (m_labels s). 0 \<le> c \<and> c < DT_COLORLABELS_LAST)"

lemma labels_okD: "labels_ok s \<Longrightarrow> has_label s i c \<Longrightarrow> 0 \<le> c \<and> c < 5"
  by (auto simp: labels_ok_def has_label_def DT_COLORLABELS_LAST_def)

lemma bit_label: "(w AND label_bit c \<noteq> 0) = bit w (nat c)"
  by (simp add: label_bit_def bit_iff_and_push_bit_not_eq_0)

lemma bit_get_labels:
  assumes "labels_ok s" and "dt_is_valid_imgid i" and "n < 32"
  shows "bit (dt_colorlabels_get_labels s i) n \<longleftrightarrow> has_label s i (int n)"
proof -
  have gen: "bit (foldl (\<lambda>colors (j, c). if j = i then colors OR label_bit c else colors) (w :: 32 word) ls) n \<longleftrightarrow>
      bit w n \<or> (i, int n) \<in> set ls" if "\<forall>(j, c)\<in>set ls. 0 \<le> c" for ls :: "(int \<times> int) list" and w
    using that
  proof (induction ls arbitrary: w)
    case (Cons p ls)
    obtain j c where jc: "p = (j, c)" by (cases p)
    have "bit (label_bit c :: 32 word) n \<longleftrightarrow> nat c = n" using assms(3) by (auto simp: label_bit_def push_bit_of_1 bit_exp_iff)
    with Cons show ?case by (auto simp: jc bit_or_iff split: if_splits)
  qed simp
  have "\<forall>(j, c)\<in>set (m_labels s). 0 \<le> c" using assms(1) by (auto simp: labels_ok_def)
  from gen [OF this] show ?thesis using assms(2) by (simp add: dt_colorlabels_get_labels_def has_label_def)
qed

lemma bit_before:
  "labels_ok s \<Longrightarrow> dt_is_valid_imgid i \<Longrightarrow> 0 \<le> c \<Longrightarrow> c < 8 \<Longrightarrow> bit (labels_before s i) (nat c) \<longleftrightarrow> has_label s i c"
  by (simp add: labels_before_def bit_ucast_iff bit_get_labels nat_less_iff)

lemma has_label_pop:
  "has_label (labels_pop_color i b a c s) j c' \<longleftrightarrow>
    (if j = i \<and> c' = c \<and> dt_is_valid_imgid i then if bit a (nat c) then \<not> bit b (nat c) \<or> has_label s i c else \<not> bit b (nat c) \<and> has_label s i c
     else has_label s j c')" if "dt_is_valid_imgid i"
  using that
  by (auto simp: labels_pop_color_def bit_label has_label_def dt_colorlabels_set_label_def dt_colorlabels_remove_label_def)

lemma has_label_fold:
  assumes "dt_is_valid_imgid i" and "distinct cs"
  shows "has_label (fold (labels_pop_color i b a) cs s) j c \<longleftrightarrow>
    (if j = i \<and> c \<in> set cs then if bit a (nat c) then \<not> bit b (nat c) \<or> has_label s i c else \<not> bit b (nat c) \<and> has_label s i c
     else has_label s j c)"
  using assms(2) by (induction cs arbitrary: s) (auto simp: has_label_pop [OF assms(1)] assms(1))

lemma has_label_execute:
  assumes "dt_is_valid_imgid i"
  shows "has_label (labels_pop_undo_execute i b a s) j c \<longleftrightarrow>
    (if j = i \<and> 0 \<le> c \<and> c < 5
     then if bit a (nat c) then \<not> bit b (nat c) \<or> has_label s i c else \<not> bit b (nat c) \<and> has_label s i c
     else has_label s j c)"
proof -
  have "c \<in> set [0, 1, 2, 3, 4] \<longleftrightarrow> 0 \<le> c \<and> c < 5" by auto
  moreover have "labels_pop_undo_execute i b a s = fold (labels_pop_color i b a) [0, 1, 2, 3, 4] s"
    using assms by (simp only: labels_pop_undo_execute_def not_True_eq_False if_False)
  moreover have "distinct [0, 1, 2, 3, 4 :: int]" by simp
  ultimately show ?thesis using has_label_fold [OF assms, of "[0, 1, 2, 3, 4]" b a s j c] by presburger
qed

text \<open>Going through a list from the labels \<open>fr\<close>, which the images have, to the labels \<open>to\<close>.\<close>

definition labels_hold :: "(dt_undo_colorlabels_t \<Rightarrow> 8 word) \<Rightarrow> (dt_undo_colorlabels_t \<Rightarrow> 8 word) \<Rightarrow>
    dt_undo_colorlabels_t list \<Rightarrow> marks \<Rightarrow> (int \<Rightarrow> int \<Rightarrow> bool) \<Rightarrow> bool" where
  "labels_hold fr to d s v \<longleftrightarrow> distinct (map cl_imgid d) \<and>
     (\<forall>r\<in>set d. dt_is_valid_imgid (cl_imgid r) \<and> (\<forall>c. 0 \<le> c \<and> c < 5 \<longrightarrow> has_label s (cl_imgid r) c = bit (fr r) (nat c))) \<and>
     v = (\<lambda>i c. case find (\<lambda>r. cl_imgid r = i) d of None \<Rightarrow> has_label s i c
                | Some r \<Rightarrow> if 0 \<le> c \<and> c < 5 then bit (to r) (nat c) else has_label s i c)"

lemma labels_pop_loop_labels:
  assumes "labels_hold (if a = DT_ACTION_UNDO then cl_after else cl_before) (if a = DT_ACTION_UNDO then cl_before else cl_after) d s v"
  shows "has_label (snd (labels_pop_loop a d imgs s)) = v"
  using assms
proof (induction d arbitrary: imgs s v)
  case (Cons r d)
  let ?fr = "if a = DT_ACTION_UNDO then cl_after else cl_before" and ?to = "if a = DT_ACTION_UNDO then cl_before else cl_after"
  let ?s = "labels_pop_undo_execute (cl_imgid r) (?fr r) (?to r) s"
  from Cons.prems have pr: "distinct (map cl_imgid (r # d))" "\<forall>q\<in>set (r # d). dt_is_valid_imgid (cl_imgid q) \<and>
      (\<forall>c. 0 \<le> c \<and> c < 5 \<longrightarrow> has_label s (cl_imgid q) c = bit (?fr q) (nat c))"
    unfolding labels_hold_def by blast+
  then have h: "distinct (map cl_imgid d)" "\<And>q. q \<in> set d \<Longrightarrow> cl_imgid q \<noteq> cl_imgid r" "dt_is_valid_imgid (cl_imgid r)"
    "\<And>c. 0 \<le> c \<Longrightarrow> c < 5 \<Longrightarrow> has_label s (cl_imgid r) c = bit (?fr r) (nat c)"
    "\<And>q. q \<in> set d \<Longrightarrow> dt_is_valid_imgid (cl_imgid q)"
    "\<And>q c. q \<in> set d \<Longrightarrow> 0 \<le> c \<Longrightarrow> c < 5 \<Longrightarrow> has_label s (cl_imgid q) c = bit (?fr q) (nat c)"
    by (auto simp: image_iff split del: if_split)
  have one: "has_label ?s j c = (if j = cl_imgid r \<and> 0 \<le> c \<and> c < 5 then bit (?to r) (nat c) else has_label s j c)" for j c
    using has_label_execute [OF h(3), of "?fr r" "?to r" s j c] h(4) by auto
  let ?v = "\<lambda>i c. case find (\<lambda>r. cl_imgid r = i) d of None \<Rightarrow> has_label ?s i c
                | Some r \<Rightarrow> if 0 \<le> c \<and> c < 5 then bit (?to r) (nat c) else has_label ?s i c"
  have "labels_hold ?fr ?to d ?s ?v"
    unfolding labels_hold_def using h(1,2,5,6) by (auto simp: one split del: if_split)
  from Cons.IH [OF this] have "has_label (snd (labels_pop_loop a (r # d) imgs s)) = ?v" by (cases a) simp_all
  moreover have "?v = v"
  proof (intro ext)
    fix i c
    have v: "v i c = (case find (\<lambda>r. cl_imgid r = i) (r # d) of None \<Rightarrow> has_label s i c
                | Some r \<Rightarrow> if 0 \<le> c \<and> c < 5 then bit (?to r) (nat c) else has_label s i c)"
      using Cons.prems unfolding labels_hold_def by blast
    show "?v i c = v i c"
    proof (cases "i = cl_imgid r")
      case True
      have "find (\<lambda>q. cl_imgid q = i) d = None" unfolding find_None_iff True using h(2) by blast
      then show ?thesis unfolding v by (simp only: True find.simps option.case one simp_thms if_True)
    next
      case False
      then have "find (\<lambda>r. cl_imgid r = i) (r # d) = find (\<lambda>r. cl_imgid r = i) d" by simp
      then show ?thesis unfolding v using False by (simp only: one simp_thms if_False)
    qed
  qed
  ultimately show ?case by simp
qed (simp add: labels_hold_def)

lemma labels_pop_loop_images: "fst (labels_pop_loop a d imgs s) = rev (map cl_imgid d) @ imgs"
  by (induction d arbitrary: imgs s) simp_all

interpretation labels_client: redo_client labels_pop_undo DT_UNDO_COLORLABELS "labels_hold cl_after cl_before"
    "\<lambda>d. has_label" "labels_hold cl_before cl_after"
proof
  fix d s v u imgs
  show "labels_hold cl_after cl_before d s v \<Longrightarrow>
      has_label (snd (labels_pop_undo u DT_UNDO_COLORLABELS (Some d) DT_ACTION_UNDO imgs s)) = v"
    by (simp add: labels_pop_undo_def labels_pop_loop_labels)
  show "labels_hold cl_before cl_after d s v \<Longrightarrow>
      has_label (snd (labels_pop_undo u DT_UNDO_COLORLABELS (Some d) DT_ACTION_REDO imgs s)) = v"
    by (simp add: labels_pop_undo_def labels_pop_loop_labels)
qed


definition label_items :: "dt_colorlabels_actions_t \<Rightarrow> 32 word \<Rightarrow> int list \<Rightarrow> marks \<Rightarrow> dt_undo_colorlabels_t list" where
  "label_items action labels imgs s = map (\<lambda>i. \<lparr>cl_imgid = i, cl_before = labels_before s i,
     cl_after = labels_after action labels (labels_before s i)\<rparr>) imgs"

lemma before_cong:
  assumes "labels_ok s" and "labels_ok t" and "dt_is_valid_imgid i" and "\<And>c. has_label t i c = has_label s i c"
  shows "labels_before t i = labels_before s i"
proof (rule bit_word_eqI)
  fix n assume "n < LENGTH(8)"
  then show "bit (labels_before t i) n = bit (labels_before s i) n"
    using bit_before [OF assms(1,3), of "int n"] bit_before [OF assms(2,3), of "int n"] assms(4) by simp
qed

lemma labels_ok_execute: "labels_ok s \<Longrightarrow> labels_ok (labels_pop_undo_execute i b a s)"
proof (cases "dt_is_valid_imgid i")
  case True
  assume ok: "labels_ok s"
  have "0 \<le> c \<and> c < 5" if "has_label (labels_pop_undo_execute i b a s) j c" for j c
    using that labels_okD [OF ok] unfolding has_label_execute [OF True] by presburger
  then show ?thesis by (auto simp: labels_ok_def has_label_def DT_COLORLABELS_LAST_def)
qed (simp add: labels_pop_undo_execute_def)

lemma images_execute [simp]: "m_images (labels_pop_undo_execute i b a s) = m_images s"
proof -
  have "m_images (fold (labels_pop_color i b a) cs s) = m_images s" for cs
    by (induction cs arbitrary: s)
      (auto simp: labels_pop_color_def dt_colorlabels_set_label_def dt_colorlabels_remove_label_def)
  then show ?thesis unfolding labels_pop_undo_execute_def by presburger
qed

lemma labels_loop_labels:
  assumes "distinct imgs" and "\<forall>i\<in>set imgs. dt_is_valid_imgid i" and "labels_ok s"
    and "labels_loop action labels on imgs undo s = (undo', s')"
  shows "(\<forall>i c. has_label s' i c = (if i \<in> set imgs \<and> 0 \<le> c \<and> c < 5
       then bit (labels_after action labels (labels_before s i)) (nat c) else has_label s i c)) \<and>
    undo' = undo @ (if on then label_items action labels imgs s else []) \<and> m_images s' = m_images s \<and> labels_ok s'"
  using assms
proof (induction imgs arbitrary: undo s)
  case (Cons i imgs)
  let ?b = "labels_before s i"
  let ?a = "labels_after action labels ?b"
  let ?s = "labels_pop_undo_execute i ?b ?a s"
  have vi: "dt_is_valid_imgid i" and ok: "labels_ok ?s" using Cons.prems(2,3) labels_ok_execute by simp_all
  have one: "has_label ?s j c = (if j = i \<and> 0 \<le> c \<and> c < 5 then bit ?a (nat c) else has_label s j c)" for j c
    using has_label_execute [OF vi, of ?b ?a s j c] bit_before [OF Cons.prems(3) vi, of c] by auto
  have same: "labels_before ?s j = labels_before s j" if "j \<in> set imgs" for j
    using that Cons.prems(1,2) by (intro before_cong [OF Cons.prems(3) ok]) (auto simp: one)
  have m: "label_items action labels imgs ?s = label_items action labels imgs s" using same by (simp add: label_items_def)
  have run: "labels_loop action labels on imgs
      (if on then undo @ [\<lparr>cl_imgid = i, cl_before = ?b, cl_after = ?a\<rparr>] else undo) ?s = (undo', s')"
    using Cons.prems(4) by (simp add: Let_def)
  have ih: "\<And>j c. has_label s' j c = (if j \<in> set imgs \<and> 0 \<le> c \<and> c < 5
       then bit (labels_after action labels (labels_before ?s j)) (nat c) else has_label ?s j c)"
    "undo' = (if on then undo @ [\<lparr>cl_imgid = i, cl_before = ?b, cl_after = ?a\<rparr>] else undo) @
       (if on then label_items action labels imgs ?s else [])" "m_images s' = m_images ?s" "labels_ok s'"
    using Cons.IH [OF _ _ ok run] Cons.prems(1,2) by simp_all
  have "has_label s' j c = (if j \<in> set (i # imgs) \<and> 0 \<le> c \<and> c < 5
       then bit (labels_after action labels (labels_before s j)) (nat c) else has_label s j c)" for j c
  proof (cases "j \<in> set imgs")
    case True
    moreover have "j \<noteq> i" using True Cons.prems(1) by auto
    ultimately show ?thesis using same [OF True] by (simp add: ih(1) one)
  next
    case False
    then show ?thesis by (simp add: ih(1) one)
  qed
  then show ?case using ih(2-4) unfolding m by (simp add: label_items_def)
qed (simp add: label_items_def)

lemma bit_labels_after:
  assumes "n < 8"
  shows "bit (labels_after DT_CA_SET l b) n = bit l n" and "bit (labels_after DT_CA_ADD l b) n = (bit b n \<or> bit l n)"
    and "bit (labels_after DT_CA_TOGGLE l b) n =
      (if (ucast b :: 32 word) AND l \<noteq> 0 then bit b n \<and> \<not> bit l n else bit b n \<or> bit l n)"
  using assms by (auto simp: labels_after_def bit_ucast_iff bit_or_iff bit_and_iff bit_not_iff)

lemma single_label:
  assumes "0 \<le> color" and "color < 5"
  shows "((ucast (b :: 8 word) :: 32 word) AND label_bit color \<noteq> 0) = bit b (nat color)"
    and "bit (label_bit color :: 32 word) (nat c) \<longleftrightarrow> nat c = nat color"
  using assms by (auto simp: bit_label bit_ucast_iff nat_less_iff)
    (auto simp: label_bit_def push_bit_of_1 bit_exp_iff nat_less_iff)


lemma find_label_item:
  "find (\<lambda>r. cl_imgid r = i) (label_items action labels imgs s) =
    (if i \<in> set imgs then Some \<lparr>cl_imgid = i, cl_before = labels_before s i,
       cl_after = labels_after action labels (labels_before s i)\<rparr> else None)"
  by (induction imgs) (auto simp: label_items_def)

lemma label_items_ids [simp]: "map cl_imgid (label_items action labels imgs s) = imgs"
  by (simp add: label_items_def o_def)

lemma labels_recorded:
  assumes "distinct imgs" and "\<forall>i\<in>set imgs. dt_is_valid_imgid i" and "labels_ok s" and "imgs \<noteq> []"
    and "labels_record ts True (colorlabels_execute imgs labels True action) (s, U) = Some (s1, U1)"
    and a: "a = labels_action imgs labels action s" and d: "d = label_items a labels imgs s"
  shows "labels_client.recorded U d ts = Some U1"
    and "has_label s1 i c = (if i \<in> set imgs \<and> 0 \<le> c \<and> c < 5
       then bit (labels_after a labels (labels_before s i)) (nat c) else has_label s i c)"
    and "labels_hold cl_after cl_before d s1 (has_label s)"
    and "has_label s' = has_label s \<Longrightarrow> labels_hold cl_before cl_after d s' (has_label s1)"
    and "m_images s1 = m_images s"
proof -
  obtain t1 t2 t3 where ts: "ts = (t1, t2, t3)" by (cases ts)
  obtain undo t where run: "labels_loop a labels True imgs [] s = (undo, t)" by fastforce
  note loop = labels_loop_labels [OF assms(1-3) run]
  then have undo: "undo = d" by (simp add: d)
  have "d \<noteq> []" using assms(4) by (simp add: d label_items_def)
  with assms(5) have s1: "s1 = t" and rec: "labels_client.recorded U d ts = Some U1"
    by (auto simp: labels_record_def colorlabels_execute_def run a [symmetric] ts labels_client.recorded_def undo)
  show "labels_client.recorded U d ts = Some U1" by (rule rec)
  show has: "has_label s1 i c = (if i \<in> set imgs \<and> 0 \<le> c \<and> c < 5
       then bit (labels_after a labels (labels_before s i)) (nat c) else has_label s i c)" for i c
    using loop s1 by blast
  have before: "bit (labels_before s i) (nat c) = has_label s i c" if "i \<in> set imgs" "0 \<le> c" "c < 5" for i c
    using bit_before [OF assms(3)] assms(2) that by simp
  show "labels_hold cl_after cl_before d s1 (has_label s)"
    using assms(1,2) by (auto simp: labels_hold_def d find_label_item has before fun_eq_iff) (auto simp: label_items_def has before)
  show "labels_hold cl_before cl_after d s' (has_label s1)" if "has_label s' = has_label s"
    using assms(1,2) that by (auto simp: labels_hold_def d find_label_item has before fun_eq_iff) (auto simp: label_items_def before)
  show "m_images s1 = m_images s" using loop s1 by blast
qed

text \<open>Toggling a label of a list, written as one call of \<open>_colorlabels_execute\<close>.\<close>

definition toggled :: "int \<Rightarrow> 32 word" where
  "toggled color = (if color = 5 then 0 else label_bit color)"

definition toggle_action :: "int \<Rightarrow> dt_colorlabels_actions_t" where
  "toggle_action color = (if color = 5 then DT_CA_SET else DT_CA_TOGGLE)"

lemma toggle_execute:
  "dt_colorlabels_toggle_label_on_list ts imgs color True =
    labels_record ts True (colorlabels_execute imgs (toggled color) True (toggle_action color))"
  by (auto simp: dt_colorlabels_toggle_label_on_list_def toggled_def toggle_action_def fun_eq_iff)

text \<open>
  What toggling a colour label does. The colour 5 clears all labels of the listed images. Any other colour is taken off all
  listed images when all of them have it and is put on all of them otherwise. Their other labels, the
  labels of the images that are not listed, and the ratings and groups stay.
\<close>

theorem toggle_label_spec:
  assumes "distinct imgs" and "\<forall>i\<in>set imgs. dt_is_valid_imgid i" and "imgs \<noteq> []" and "labels_ok s"
    and "0 \<le> color" and "color \<le> 5"
    and "dt_colorlabels_toggle_label_on_list ts imgs color True (s, U) = Some (s1, U1)"
  shows "(\<forall>i c. has_label s1 i c =
      (if i \<notin> set imgs then has_label s i c
       else if color = 5 then False
       else if c \<noteq> color then has_label s i c
       else \<not> (\<forall>j\<in>set imgs. has_label s j color))) \<and> m_images s1 = m_images s"
proof -
  define a where "a = labels_action imgs (toggled color) (toggle_action color) s"
  note r = labels_recorded [OF assms(1,2,4,3) assms(7) [unfolded toggle_execute] a_def refl]
  have before: "bit (labels_before s i) (nat c) = has_label s i c" if "i \<in> set imgs" "0 \<le> c" "c < 5" for i c
    using bit_before [OF assms(4)] assms(2) that by simp
  have all: "a = (if color = 5 then DT_CA_SET else if \<forall>j\<in>set imgs. has_label s j color then DT_CA_TOGGLE else DT_CA_ADD)"
  proof (cases "color = 5")
    case False
    with assms(5,6) have c: "0 \<le> color" "color < 5" by simp_all
    have "((ucast (labels_before s i) :: 32 word) AND label_bit color = 0) = (\<not> has_label s i color)" if "i \<in> set imgs" for i
      using single_label(1) [OF c, of "labels_before s i"] before [OF that c] by blast
    with False show ?thesis by (auto simp: a_def labels_action_def toggle_action_def toggled_def list_ex_iff)
  qed (simp add: a_def labels_action_def toggle_action_def)
  have "has_label s1 i c = (if color = 5 then False else if c \<noteq> color then has_label s i c
       else \<not> (\<forall>j\<in>set imgs. has_label s j color))" if i: "i \<in> set imgs" for i c
  proof (cases "0 \<le> c \<and> c < 5")
    case False
    then have "\<not> has_label s i c" using labels_okD [OF assms(4)] by blast
    then show ?thesis using False assms(5,6) by (auto simp: r(2))
  next
    case True
    then have n: "nat c < 8" "nat c = nat color \<longleftrightarrow> c = color" using assms(5) by auto
    then show ?thesis
      using True i assms(5,6)
      by (auto simp: r(2) all bit_labels_after toggled_def single_label before n(2) simp del: not_all not_ex)
  qed
  then show ?thesis using r(2,5) by auto
qed

lemma toggle_records:
  "\<exists>s1 U1. dt_colorlabels_toggle_label_on_list ts imgs color True (s, dt_undo_init) = Some (s1, U1)"
  by (cases ts) (simp add: dt_colorlabels_toggle_label_on_list_def labels_record_def dt_undo_init_def dt_undo_start_group_def
      dt_undo_record_def dt_undo_end_group_def undo_record_def split: prod.split)

theorem toggle_label_spec_witness:
  "\<exists>s1 U1. dt_colorlabels_toggle_label_on_list (0, 0, 0) [1, 2] 3 True
       (two_images\<lparr>m_labels := [(1, 3), (2, 0)]\<rparr>, dt_undo_init) = Some (s1, U1) \<and>
     has_label s1 1 3 \<and> has_label s1 2 3 \<and> has_label s1 2 0 \<and> \<not> has_label s1 1 0"
proof -
  let ?s = "two_images\<lparr>m_labels := [(1, 3), (2, 0)]\<rparr>"
  obtain s1 U1 where run: "dt_colorlabels_toggle_label_on_list (0, 0, 0) [1, 2] 3 True (?s, dt_undo_init) = Some (s1, U1)"
    using toggle_records by blast
  have ok: "labels_ok ?s" by (simp add: labels_ok_def DT_COLORLABELS_LAST_def)
  have "\<forall>i\<in>set [1, 2]. dt_is_valid_imgid i" by (simp add: dt_is_valid_imgid_def)
  from toggle_label_spec [OF _ this _ ok _ _ run]
  have "has_label s1 i c = (if i \<notin> {1, 2} then has_label ?s i c else if c \<noteq> 3 then has_label ?s i c
       else \<not> (has_label ?s 1 3 \<and> has_label ?s 2 3))" for i c by simp
  then have "has_label s1 1 3 \<and> has_label s1 2 3 \<and> has_label s1 2 0 \<and> \<not> has_label s1 1 0" by (simp add: has_label_def)
  with run show ?thesis by blast
qed

text \<open>
  C13: undo and redo of colour labels are exact. Undoing the toggling of a label gives every image the labels it had before, the redo
  that follows gives every image the labels it had after, and the list of the undo manager is then what it was after the toggling.
\<close>

theorem labels_undo_redo:
  assumes "distinct imgs" and "\<forall>i\<in>set imgs. dt_is_valid_imgid i" and "imgs \<noteq> []" and "labels_ok s"
    and "group U = DT_UNDO_NONE" and "\<not> disable_next U"
    and "dt_colorlabels_toggle_label_on_list ts imgs color True (s, U) = Some (s1, U1)"
    and "DT_UNDO_COLORLABELS AND filt \<noteq> 0" and "dt_undo_do_undo U1 filt s1 = (U2, s2, changed)"
    and "dt_undo_do_redo U2 filt s2 = (U3, s3, changed')"
  shows "has_label s2 = has_label s \<and> has_label s3 = has_label s1 \<and> undo_list U2 = undo_list U \<and> undo_list U3 = undo_list U1"
proof -
  note r = labels_recorded [OF assms(1,2,4,3) assms(7) [unfolded toggle_execute] refl refl]
  note u = labels_client.undo_recorded(1,2) [OF assms(5,6) r(1) assms(8) r(3) assms(9)]
  from labels_client.redo_recorded [OF assms(5,6) r(1) assms(8) r(3) assms(9,10) r(4) [OF u(1)]] u
  show ?thesis by simp
qed

theorem labels_undo_redo_witness:
  "\<exists>s1 U1 s2 U2 s3 U3 c c'. dt_colorlabels_toggle_label_on_list (0, 0, 0) [1, 2] 3 True
       (two_images\<lparr>m_labels := [(1, 3), (2, 0)]\<rparr>, dt_undo_init) = Some (s1, U1) \<and>
     dt_undo_do_undo U1 DT_UNDO_LIGHTTABLE s1 = (U2, s2, c) \<and> dt_undo_do_redo U2 DT_UNDO_LIGHTTABLE s2 = (U3, s3, c') \<and>
     \<not> has_label s2 2 3 \<and> has_label s2 1 3 \<and> has_label s3 = has_label s1"
proof -
  let ?s = "two_images\<lparr>m_labels := [(1, 3), (2, 0)]\<rparr>"
  obtain s1 U1 where run: "dt_colorlabels_toggle_label_on_list (0, 0, 0) [1, 2] 3 True (?s, dt_undo_init) = Some (s1, U1)"
    using toggle_records by blast
  obtain U2 s2 c where u: "dt_undo_do_undo U1 DT_UNDO_LIGHTTABLE s1 = (U2, s2, c)" by (metis prod_cases3)
  obtain U3 s3 c' where r: "dt_undo_do_redo U2 DT_UNDO_LIGHTTABLE s2 = (U3, s3, c')" by (metis prod_cases3)
  have "has_label s2 = has_label ?s \<and> has_label s3 = has_label s1"
    using labels_undo_redo [OF _ _ _ _ _ _ run _ u r]
    by (simp add: dt_is_valid_imgid_def labels_ok_def DT_COLORLABELS_LAST_def undo_type_defs dt_undo_init_def)
  moreover have "\<not> has_label ?s 2 3 \<and> has_label ?s 1 3" by (simp add: has_label_def)
  ultimately have "\<not> has_label s2 2 3 \<and> has_label s2 1 3 \<and> has_label s3 = has_label s1" by simp
  with run u r show ?thesis by blast
qed



section \<open>Groups\<close>

text \<open>
  A group is the set of the images with the same \<open>group_id\<close>, which is the number of the image that represents it. What the user
  interface knows of groups is whether they are collapsed, the group that is expanded, and the collection of images on view.
\<close>

abbreviation NO_IMGID :: int where "NO_IMGID \<equiv> 0"

record groups_gui =
  gui_grouping :: bool
  gui_expanded :: int

definition set_group :: "int \<Rightarrow> int \<Rightarrow> marks \<Rightarrow> marks" where
  "set_group imgid group_id s =
     (case cache_get s imgid of None \<Rightarrow> s | Some img \<Rightarrow> cache_put (img\<lparr>im_group := group_id\<rparr>) s)"

definition image_group :: "marks \<Rightarrow> int \<Rightarrow> int" where
  "image_group s imgid = (case cache_get s imgid of None \<Rightarrow> NO_IMGID | Some img \<Rightarrow> im_group img)"

text \<open>The loop over the other images of a group: the first of them becomes the new representative.\<close>

fun regroup_loop :: "int list \<Rightarrow> int \<Rightarrow> marks \<Rightarrow> int \<times> marks" where
  "regroup_loop [] new_group_id s = (new_group_id, s)"
| "regroup_loop (other_id # others) new_group_id s =
     (let new = (if \<not> dt_is_valid_imgid new_group_id then other_id else new_group_id)
      in regroup_loop others new (set_group other_id new s))"

definition dt_grouping_remove_from_group :: "int \<Rightarrow> marks \<Rightarrow> int \<times> marks" where
  "dt_grouping_remove_from_group image_id s =
     (let img_group_id = image_group s image_id
      in if img_group_id = image_id
         then let (new_group_id, s1) = regroup_loop
                    (map im_id (filter (\<lambda>r. im_group r = img_group_id \<and> im_id r \<noteq> image_id) (m_images s))) NO_IMGID s
              in if dt_is_valid_imgid new_group_id
                 then (new_group_id, s1\<lparr>m_images := map (\<lambda>r. if im_group r = img_group_id \<and> im_id r \<noteq> image_id
                         then r\<lparr>im_group := new_group_id\<rparr> else r) (m_images s1)\<rparr>)
                 else (-1, s1)
         else case cache_get s image_id of
           None \<Rightarrow> (NO_IMGID, s)
         | Some wimg \<Rightarrow> (im_group wimg, set_group image_id image_id s))"

definition dt_grouping_add_to_group :: "int \<Rightarrow> int \<Rightarrow> marks \<Rightarrow> marks" where
  "dt_grouping_add_to_group group_id image_id s =
     set_group image_id group_id (snd (dt_grouping_remove_from_group image_id s))"

definition dt_grouping_change_representative :: "int \<Rightarrow> marks \<Rightarrow> int \<times> marks" where
  "dt_grouping_change_representative image_id s =
     (let group_id = image_group s image_id
      in if \<not> dt_is_valid_imgid group_id then (group_id, s)
         else (image_id, fold (\<lambda>other_id. set_group other_id image_id)
                 (map im_id (filter (\<lambda>r. im_group r = group_id) (m_images s))) s))"

definition dt_grouping_get_group_images :: "groups_gui option \<Rightarrow> int \<Rightarrow> marks \<Rightarrow> int list" where
  "dt_grouping_get_group_images gui imgid s =
     (case cache_get s imgid of None \<Rightarrow> []
      | Some img \<Rightarrow>
          if (case gui of None \<Rightarrow> False | Some g \<Rightarrow> gui_grouping g \<and> gui_expanded g \<noteq> im_group img)
          then map im_id (filter (\<lambda>r. im_group r = im_group img) (m_images s))
          else [imgid])"

text \<open>\<open>collection\<close>: whether the query of the collection on view, without its grouping, lists an image; \<open>None\<close> without a collection.\<close>

definition grouped_with :: "groups_gui option \<Rightarrow> (int \<Rightarrow> bool) option \<Rightarrow> marks \<Rightarrow> int \<Rightarrow> int list" where
  "grouped_with gui collection s imgid =
     (case cache_get s imgid of None \<Rightarrow> []
      | Some img \<Rightarrow>
          (case (gui, collection) of
             (Some g, Some listed) \<Rightarrow>
               if gui_grouping g \<and> gui_expanded g \<noteq> im_group img
               then filter (\<lambda>i. i \<noteq> imgid)
                      (map im_id (filter (\<lambda>r. im_group r = im_group img \<and> listed (im_id r)) (m_images s)))
               else []
           | _ \<Rightarrow> []))"

definition dt_grouping_add_grouped_images :: "groups_gui option \<Rightarrow> (int \<Rightarrow> bool) option \<Rightarrow> marks \<Rightarrow> int list \<Rightarrow> int list" where
  "dt_grouping_add_grouped_images gui collection s images = images @ concat (map (grouped_with gui collection s) images)"

definition dt_ratings_apply_on_image :: "groups_gui option \<Rightarrow> (int \<Rightarrow> bool) option \<Rightarrow> bool \<Rightarrow> rat \<times> rat \<times> rat \<Rightarrow>
    int \<Rightarrow> int \<Rightarrow> bool \<Rightarrow> bool \<Rightarrow> marks \<times> ratings_undo \<Rightarrow> (marks \<times> ratings_undo) option" where
  "dt_ratings_apply_on_image gui collection double_tap ts imgid rating undo_on group_on su =
     (if \<not> dt_is_valid_imgid imgid then Some su
      else ratings_record ts undo_on (\<lambda>s. ratings_apply double_tap
             (if group_on then dt_grouping_add_grouped_images gui collection s [imgid] else [imgid]) rating undo_on s) su)"

text \<open>The commands of the lighttable on the images that are acted on, and the removal of an image.\<close>

fun group_images_loop :: "int list \<Rightarrow> int \<Rightarrow> marks \<Rightarrow> int \<times> marks" where
  "group_images_loop [] new_group_id s = (new_group_id, s)"
| "group_images_loop (imgid # imgs) new_group_id s =
     (let new = (if \<not> dt_is_valid_imgid new_group_id then imgid else new_group_id)
      in group_images_loop imgs new (dt_grouping_add_to_group new imgid s))"

definition dt_control_group_images :: "int list \<Rightarrow> groups_gui option \<Rightarrow> marks \<Rightarrow> groups_gui option \<times> marks" where
  "dt_control_group_images imgs gui s =
     (if length imgs < 2 then (gui, s)
      else let (new_group_id, s1) = group_images_loop imgs
                 (case gui of None \<Rightarrow> NO_IMGID | Some g \<Rightarrow> if gui_grouping g then gui_expanded g else NO_IMGID) s
           in (map_option (\<lambda>g. g\<lparr>gui_expanded := if gui_grouping g then new_group_id else NO_IMGID\<rparr>) gui, s1))"

fun ungroup_images_loop :: "int list \<Rightarrow> int list \<Rightarrow> marks \<Rightarrow> int list \<times> marks" where
  "ungroup_images_loop [] changed s = (changed, s)"
| "ungroup_images_loop (imgid # imgs) changed s =
     (let (new_group_id, s1) = dt_grouping_remove_from_group imgid s
      in ungroup_images_loop imgs (if dt_is_valid_imgid new_group_id then imgid # changed else changed) s1)"

definition dt_control_ungroup_images :: "int list \<Rightarrow> groups_gui option \<Rightarrow> marks \<Rightarrow> groups_gui option \<times> marks" where
  "dt_control_ungroup_images imgs gui s =
     (let (changed, s1) = ungroup_images_loop imgs [] s
      in if changed = [] then (gui, s1) else (map_option (\<lambda>g. g\<lparr>gui_expanded := NO_IMGID\<rparr>) gui, s1))"

text \<open>
  What \<open>dt_image_remove\<close> does to the groups and to the table. An image that another row names as its group cannot be deleted
  (\<open>ON DELETE RESTRICT\<close>): the statement fails and nothing reads the result. Labels have no foreign key and stay.
\<close>

definition delete_image_row :: "int \<Rightarrow> marks \<Rightarrow> marks" where
  "delete_image_row imgid s =
     (if \<exists>r\<in>set (m_images s). im_group r = imgid \<and> im_id r \<noteq> imgid then s
      else s\<lparr>m_images := filter (\<lambda>r. im_id r \<noteq> imgid) (m_images s)\<rparr>)"

text \<open>
  A local copy of the image is given up first. \<open>stuck\<close> is whether the sidecar of the copy exists and the original cannot be
  reached: then the copy stays, which the result says, and the image is not removed. The files themselves are left out.
\<close>

definition DT_IMAGE_LOCAL_COPY :: "32 word" where "DT_IMAGE_LOCAL_COPY = 2048"

definition has_local_copy :: "marks \<Rightarrow> int \<Rightarrow> bool" where
  "has_local_copy s imgid =
     (case cache_get s imgid of None \<Rightarrow> False | Some img \<Rightarrow> im_flags img AND DT_IMAGE_LOCAL_COPY = DT_IMAGE_LOCAL_COPY)"

definition dt_image_local_copy_reset :: "(int \<Rightarrow> bool) \<Rightarrow> int \<Rightarrow> marks \<Rightarrow> marks \<times> bool" where
  "dt_image_local_copy_reset stuck imgid s =
     (if \<not> has_local_copy s imgid then (s, False)
      else if stuck imgid then (s, True)
      else (case cache_get s imgid of None \<Rightarrow> s
            | Some img \<Rightarrow> cache_put (img\<lparr>im_flags := im_flags img AND NOT DT_IMAGE_LOCAL_COPY\<rparr>) s, False))"

definition dt_image_remove :: "(int \<Rightarrow> bool) \<Rightarrow> int \<Rightarrow> groups_gui option \<Rightarrow> marks \<Rightarrow> groups_gui option \<times> marks" where
  "dt_image_remove stuck imgid gui s =
     (case dt_image_local_copy_reset stuck imgid s of
        (s0, True) \<Rightarrow> (gui, s0)
      | (s0, False) \<Rightarrow>
          let old_group_id = image_group s0 imgid;
              (new_group_id, s1) = dt_grouping_remove_from_group imgid s0
          in (map_option (\<lambda>g. if gui_expanded g = old_group_id then g\<lparr>gui_expanded := new_group_id\<rparr> else g) gui,
              delete_image_row imgid s1))"



text \<open>Rows and look-ups say the same of a table that is in order.\<close>

definition listed :: "marks \<Rightarrow> int \<Rightarrow> bool" where
  "listed s i \<longleftrightarrow> cache_get s i \<noteq> None"

lemma row_get: "images_ok s \<Longrightarrow> r \<in> set (m_images s) \<Longrightarrow> cache_get s (im_id r) = Some r"
proof -
  have "distinct (map im_id rs) \<Longrightarrow> r \<in> set rs \<Longrightarrow> find (\<lambda>q. im_id q = im_id r) rs = Some r" for rs
    by (induction rs) (auto simp: image_iff)
  then show "images_ok s \<Longrightarrow> r \<in> set (m_images s) \<Longrightarrow> cache_get s (im_id r) = Some r"
    by (simp add: images_ok_def cache_get_def)
qed

lemma row_group: "images_ok s \<Longrightarrow> r \<in> set (m_images s) \<Longrightarrow> image_group s (im_id r) = im_group r"
  by (simp add: image_group_def row_get)

lemma row_listed: "images_ok s \<Longrightarrow> listed s i \<longleftrightarrow> i \<in> im_id ` set (m_images s)"
  by (auto simp: listed_def row_get dest: cache_get_id)

lemma listed_valid: "listed s i \<Longrightarrow> 0 < i"
  by (auto simp: listed_def cache_get_def dt_is_valid_imgid_def split: if_splits)

definition group_members :: "marks \<Rightarrow> int \<Rightarrow> int list" where
  "group_members s g = map im_id (filter (\<lambda>r. im_group r = g) (m_images s))"

lemma group_members_set: "images_ok s \<Longrightarrow> set (group_members s g) = {i. listed s i \<and> image_group s i = g}"
  by (auto simp: group_members_def row_listed row_group)

lemma other_members: "map im_id (filter (\<lambda>r. im_group r = g \<and> im_id r \<noteq> i) rs) = filter (\<lambda>j. j \<noteq> i) (map im_id (filter (\<lambda>r. im_group r = g) rs))"
  by (induction rs) auto

lemma image_group_set: "image_group (set_group i g s) j = (if j = i \<and> listed s i then g else image_group s j)"
proof (cases "cache_get s i")
  case None
  then show ?thesis by (simp add: set_group_def listed_def)
next
  case (Some r)
  then have "im_id r = i" by (auto dest: cache_get_id)
  then show ?thesis using Some by (auto simp: set_group_def listed_def image_group_def get_put split: option.splits)
qed

lemma set_group_frame [simp]: "listed (set_group i g s) j = listed s j" "images_ok (set_group i g s) = images_ok s"
  "m_labels (set_group i g s) = m_labels s" "dt_ratings_get (set_group i g s) j = dt_ratings_get s j"
proof -
  show "listed (set_group i g s) j = listed s j" "images_ok (set_group i g s) = images_ok s" "m_labels (set_group i g s) = m_labels s"
    by (simp_all add: set_group_def listed_def split: option.split del: not_None_eq)
  show "dt_ratings_get (set_group i g s) j = dt_ratings_get s j"
  proof (cases "cache_get s i")
    case (Some r)
    then have "im_id r = i" by (auto dest: cache_get_id)
    then show ?thesis using Some by (auto simp: set_group_def dt_ratings_get_def get_put split: option.split)
  qed (simp add: set_group_def)
qed

lemma regroup_loop_groups:
  assumes "regroup_loop others new s = (new', s')" and "\<forall>j\<in>set others. listed s j"
  shows "(if others = [] \<or> dt_is_valid_imgid new then new' = new else new' = hd others) \<and>
    (\<forall>j. image_group s' j = (if j \<in> set others then new' else image_group s j)) \<and>
    (\<forall>j. listed s' j = listed s j) \<and> images_ok s' = images_ok s \<and> m_labels s' = m_labels s \<and>
    (\<forall>j. dt_ratings_get s' j = dt_ratings_get s j)"
  using assms
proof (induction others arbitrary: new s)
  case (Cons o' others)
  let ?n = "if \<not> dt_is_valid_imgid new then o' else new"
  have v: "dt_is_valid_imgid ?n" using Cons.prems(2) listed_valid [of s o'] by (simp add: dt_is_valid_imgid_def)
  have run: "regroup_loop others ?n (set_group o' ?n s) = (new', s')" using Cons.prems(1) by (simp add: Let_def)
  have ih: "(if others = [] \<or> dt_is_valid_imgid ?n then new' = ?n else new' = hd others) \<and>
    (\<forall>j. image_group s' j = (if j \<in> set others then new' else image_group (set_group o' ?n s) j)) \<and>
    (\<forall>j. listed s' j = listed s j) \<and> images_ok s' = images_ok s \<and> m_labels s' = m_labels s \<and>
    (\<forall>j. dt_ratings_get s' j = dt_ratings_get s j)"
    using Cons.IH [OF run] Cons.prems(2) by simp
  then have "new' = ?n" using v by presburger
  with ih show ?case using Cons.prems(2) by (auto simp: image_group_set)
qed simp

text \<open>Every group is represented by one of its images.\<close>

definition groups_ok :: "marks \<Rightarrow> bool" where
  "groups_ok s \<longleftrightarrow> images_ok s \<and>
     (\<forall>i. listed s i \<longrightarrow> listed s (image_group s i) \<and> image_group s (image_group s i) = image_group s i)"

definition leads :: "marks \<Rightarrow> int \<Rightarrow> bool" where
  "leads s g \<longleftrightarrow> listed s g \<and> image_group s g = g"

definition same_group :: "marks \<Rightarrow> int \<Rightarrow> int \<Rightarrow> bool" where
  "same_group s i j \<longleftrightarrow> image_group s i = image_group s j"

lemma groups_okD: "groups_ok s \<Longrightarrow> listed s i \<Longrightarrow> leads s (image_group s i)"
  by (auto simp: groups_ok_def leads_def)

lemma groups_okI: "images_ok s \<Longrightarrow> (\<And>i. listed s i \<Longrightarrow> leads s (image_group s i)) \<Longrightarrow> groups_ok s"
  by (auto simp: groups_ok_def leads_def)

definition same_marks :: "marks \<Rightarrow> marks \<Rightarrow> bool" where
  "same_marks s' s \<longleftrightarrow> (\<forall>j. listed s' j = listed s j) \<and> images_ok s' = images_ok s \<and> m_labels s' = m_labels s \<and>
     (\<forall>j. dt_ratings_get s' j = dt_ratings_get s j)"

lemma same_marks_trans: "same_marks t s \<Longrightarrow> same_marks u t \<Longrightarrow> same_marks u s"
  by (simp add: same_marks_def)

lemma same_marks_set [simp]: "same_marks (set_group i g s) s"
  by (simp add: same_marks_def)

lemma remove_from_group_cases:
  assumes ok: "groups_ok s" and i: "listed s i" and run: "dt_grouping_remove_from_group i s = (n, s')"
  obtains (member) "same_marks s' s" "leads s n" "n \<noteq> i" "image_group s i = n"
      "\<And>j. image_group s' j = (if j = i then i else image_group s j)"
    | (alone) "leads s i" "n = -1" "s' = s" "\<And>j. listed s j \<Longrightarrow> image_group s j = i \<Longrightarrow> j = i"
    | (leader) "same_marks s' s" "leads s i" "listed s n" "n \<noteq> i" "image_group s n = i"
      "\<And>j. image_group s' j = (if listed s j \<and> j \<noteq> i \<and> image_group s j = i then n else image_group s j)"
proof (cases "image_group s i = i")
  case False
  obtain r where r: "cache_get s i = Some r" using i by (auto simp: listed_def)
  then have ns: "n = image_group s i" "s' = set_group i i s"
    using run False by (auto simp: dt_grouping_remove_from_group_def image_group_def)
  show ?thesis
  proof (rule member)
    show "leads s n" unfolding ns by (rule groups_okD [OF ok i])
  qed (use ns False i in \<open>simp_all add: image_group_set\<close>)
next
  case True
  have im: "images_ok s" using ok by (simp add: groups_ok_def)
  have li: "leads s i" using True i by (simp add: leads_def)
  define others where "others = map im_id (filter (\<lambda>r. im_group r = i \<and> im_id r \<noteq> i) (m_images s))"
  have others: "set others = {j. listed s j \<and> image_group s j = i \<and> j \<noteq> i}"
    using group_members_set [OF im, of i] by (auto simp: others_def other_members group_members_def)
  obtain m t where loop: "regroup_loop others NO_IMGID s = (m, t)" by fastforce
  have "\<forall>j\<in>set others. listed s j" using others by auto
  note lp = regroup_loop_groups [OF loop this]
  have inv0: "\<not> dt_is_valid_imgid NO_IMGID" by (simp add: dt_is_valid_imgid_def)
  show ?thesis
  proof (cases "others = []")
    case True': True
    then have mt: "m = NO_IMGID" "t = s" using loop by simp_all
    with run True loop have "n = -1" "s' = s"
      by (simp_all add: dt_grouping_remove_from_group_def others_def [symmetric] inv0 Let_def split: if_splits)
    moreover have "j = i" if "listed s j" "image_group s j = i" for j using that True' others by auto
    ultimately show ?thesis by (intro alone li)
  next
    case False
    then have m: "m = hd others" "m \<in> set others" using lp inv0 by simp_all
    then have ml: "listed s m" "image_group s m = i" "m \<noteq> i" using others by simp_all
    have vm: "dt_is_valid_imgid m" using listed_valid [OF ml(1)] by (simp add: dt_is_valid_imgid_def)
    have tok: "images_ok t" and gt: "\<And>j. image_group t j = (if j \<in> set others then m else image_group s j)"
      and lt: "\<And>j. listed t j = listed s j" using lp im by blast+
    have "\<not> (im_group r = i \<and> im_id r \<noteq> i)" if r: "r \<in> set (m_images t)" for r
    proof
      assume a: "im_group r = i \<and> im_id r \<noteq> i"
      have "listed s (im_id r)" "image_group t (im_id r) = i"
        using row_listed [OF tok, of "im_id r"] row_group [OF tok r] lt r a by auto
      then show False using gt [of "im_id r"] others ml(3) a by (simp split: if_splits)
    qed
    then have keep: "map (\<lambda>r. if im_group r = i \<and> im_id r \<noteq> i then r\<lparr>im_group := m\<rparr> else r) (m_images t) = m_images t"
      by (intro map_idI) (simp only: if_False)
    have nt: "n = m" "s' = t"
      using run loop vm unfolding dt_grouping_remove_from_group_def Let_def True
      by (simp_all add: others_def [symmetric] keep)
    show ?thesis
    proof (rule leader)
      show "same_marks s' s" unfolding same_marks_def nt using lp by blast
      show "image_group s' j = (if listed s j \<and> j \<noteq> i \<and> image_group s j = i then n else image_group s j)" for j
        using gt [of j] others nt by simp
    qed (use li ml nt in simp_all)
  qed
qed


lemma remove_from_group_groups:
  assumes "groups_ok s" and "listed s i" and "dt_grouping_remove_from_group i s = (n, s')"
  shows "groups_ok s'" and "same_marks s' s" and "image_group s' i = i"
    and "\<And>j. listed s j \<Longrightarrow> j \<noteq> i \<Longrightarrow> image_group s' j \<noteq> i"
    and "\<And>j k. listed s j \<Longrightarrow> listed s k \<Longrightarrow> j \<noteq> i \<Longrightarrow> k \<noteq> i \<Longrightarrow> same_group s' j k = same_group s j k"
    and "\<And>g. leads s g \<Longrightarrow> leads s' g"
    and "\<And>j. listed s j \<Longrightarrow> image_group s j \<noteq> i \<Longrightarrow> j \<noteq> i \<Longrightarrow> image_group s' j = image_group s j"
    and "0 < n \<Longrightarrow> leads s' n"
proof -
  have all: "(groups_ok s' \<and> same_marks s' s \<and> image_group s' i = i) \<and> (\<forall>j. listed s j \<and> j \<noteq> i \<longrightarrow> image_group s' j \<noteq> i) \<and>
    (\<forall>j k. listed s j \<and> listed s k \<and> j \<noteq> i \<and> k \<noteq> i \<longrightarrow> same_group s' j k = same_group s j k) \<and>
    (\<forall>g. leads s g \<longrightarrow> leads s' g) \<and>
    (\<forall>j. listed s j \<and> image_group s j \<noteq> i \<and> j \<noteq> i \<longrightarrow> image_group s' j = image_group s j) \<and> (0 < n \<longrightarrow> leads s' n)"
    using assms
  proof (cases rule: remove_from_group_cases)
    case member
    have l: "listed s' j = listed s j" for j using member(1) by (simp add: same_marks_def)
    have ok: "groups_ok s'"
      using assms(1) member by (auto simp: groups_ok_def same_marks_def leads_def)
    moreover have "image_group s' j \<noteq> i" if "listed s j" "j \<noteq> i" for j
      using groups_okD [OF assms(1) that(1)] that member(3,4) by (auto simp: member(5) leads_def)
    ultimately show ?thesis using member l by (auto simp: leads_def same_group_def)
  next
    case alone
    then show ?thesis using assms(1) by (auto simp: leads_def same_marks_def)
  next
    case leader
    have l: "listed s' j = listed s j" for j using leader(1) by (simp add: same_marks_def)
    have "leads s' (image_group s' j)" if "listed s' j" for j
      using groups_okD [OF assms(1), of j] that leader(2-5) l by (auto simp: leader(6) leads_def)
    then have ok: "groups_ok s'" using assms(1) leader(1) by (intro groups_okI) (simp_all add: groups_ok_def same_marks_def)
    have g: "image_group s' i = i" using leader(2) by (simp add: leader(6) leads_def)
    have "image_group s' j \<noteq> i" if "listed s j" "j \<noteq> i" for j
      using that leader(4) by (simp add: leader(6))
    moreover have "same_group s' j k = same_group s j k" if "listed s j" "listed s k" "j \<noteq> i" "k \<noteq> i" for j k
    proof -
      have "image_group s j \<noteq> n" for j
      proof
        assume "image_group s j = n"
        show False
        proof (cases "listed s j")
          case True
          then show False using groups_okD [OF assms(1) True] \<open>image_group s j = n\<close> leader(4,5) by (simp add: leads_def)
        next
          case False
          then show False using \<open>image_group s j = n\<close> listed_valid [OF leader(3)] by (auto simp: listed_def image_group_def)
        qed
      qed
      with that leader(4) show ?thesis by (auto simp: same_group_def leader(6))
    qed
    moreover have "leads s' g" if "leads s g" for g using that l leader(2) by (auto simp: leads_def leader(6))
    moreover have "leads s' n" using l leader(3-5) by (simp add: leads_def leader(6))
    ultimately show ?thesis using ok leader(1) g by (simp add: leader(6))
  qed
  show "groups_ok s'" "same_marks s' s" "image_group s' i = i" using all by blast+
  show "\<And>j. listed s j \<Longrightarrow> j \<noteq> i \<Longrightarrow> image_group s' j \<noteq> i"
    "\<And>j k. listed s j \<Longrightarrow> listed s k \<Longrightarrow> j \<noteq> i \<Longrightarrow> k \<noteq> i \<Longrightarrow> same_group s' j k = same_group s j k"
    "\<And>g. leads s g \<Longrightarrow> leads s' g"
    "\<And>j. listed s j \<Longrightarrow> image_group s j \<noteq> i \<Longrightarrow> j \<noteq> i \<Longrightarrow> image_group s' j = image_group s j"
    "0 < n \<Longrightarrow> leads s' n" using all by blast+
qed

lemma add_to_group_groups:
  assumes ok: "groups_ok s" and i: "listed s i" and g: "g = i \<or> leads s g" and s': "s' = dt_grouping_add_to_group g i s"
  shows "groups_ok s'" and "same_marks s' s" and "image_group s' i = g" and "leads s' g"
    and "\<And>j k. listed s j \<Longrightarrow> listed s k \<Longrightarrow> j \<noteq> i \<Longrightarrow> k \<noteq> i \<Longrightarrow> same_group s' j k = same_group s j k"
    and "\<And>j. listed s j \<Longrightarrow> j \<noteq> i \<Longrightarrow> image_group s' j = g \<longleftrightarrow> g \<noteq> i \<and> image_group s j = g"
    and "\<And>h. leads s h \<Longrightarrow> h \<noteq> i \<Longrightarrow> leads s' h"
proof -
  obtain n t where run: "dt_grouping_remove_from_group i s = (n, t)" by fastforce
  note r = remove_from_group_groups [OF ok i run]
  have s': "s' = set_group i g t" by (simp add: s' dt_grouping_add_to_group_def run)
  have l: "listed t j = listed s j" "listed s' j = listed s j" for j using r(2) by (simp_all add: s' same_marks_def)
  have gr: "image_group s' j = (if j = i then g else image_group t j)" for j using i l by (simp add: s' image_group_set)
  show gi: "image_group s' i = g" by (simp add: gr)
  show lg: "leads s' g" using g r(6) l i by (auto simp: leads_def gr)
  show "leads s' h" if "leads s h" "h \<noteq> i" for h using r(6) [OF that(1)] that(2) l by (simp add: leads_def gr)
  have "leads s' (image_group s' j)" if "listed s' j" for j
    using groups_okD [OF r(1), of j] that r(4) [of j] l lg by (auto simp: gr leads_def)
  moreover have "images_ok s'" using r(1) by (simp add: s' groups_ok_def)
  ultimately show "groups_ok s'" by (intro groups_okI)
  show "same_marks s' s" using r(2) unfolding s' by (rule same_marks_trans) simp
  show "same_group s' j k = same_group s j k" if "listed s j" "listed s k" "j \<noteq> i" "k \<noteq> i" for j k
    using r(5) [OF that] that(3,4) by (simp add: same_group_def gr)
  show "image_group s' j = g \<longleftrightarrow> g \<noteq> i \<and> image_group s j = g" if j: "listed s j" "j \<noteq> i" for j
  proof (cases "g = i")
    case True
    then show ?thesis using r(4) [OF j] j by (simp add: gr)
  next
    case False
    with g have "leads s g" "leads t g" using r(6) by auto
    then have "same_group t j g = same_group s j g" using r(5) [OF j(1) _ j(2) False] by (simp add: leads_def)
    then show ?thesis using False j \<open>leads s g\<close> \<open>leads t g\<close> by (simp add: gr same_group_def leads_def)
  qed
qed


lemma group_loop_inv:
  assumes "groups_ok s" and "\<forall>i\<in>set imgs. listed s i" and "0 < g" and "leads s g \<or> imgs \<noteq> [] \<and> g = hd imgs"
    and "group_images_loop imgs g s = (g', s')"
  shows "g' = g \<and> groups_ok s' \<and> same_marks s' s \<and> leads s' g"
  using assms
proof (induction imgs arbitrary: s)
  case (Cons i imgs)
  let ?s = "dt_grouping_add_to_group g i s"
  have g: "g = i \<or> leads s g" and i: "listed s i" using Cons.prems(2,4) by auto
  note a = add_to_group_groups [OF Cons.prems(1) i g refl]
  have run: "group_images_loop imgs g ?s = (g', s')"
    using Cons.prems(3,5) by (simp add: Let_def dt_is_valid_imgid_def)
  have "g' = g \<and> groups_ok s' \<and> same_marks s' ?s \<and> leads s' g"
    using Cons.IH [OF a(1) _ Cons.prems(3) _ run] a(2,4) Cons.prems(2) by (simp add: same_marks_def)
  then show ?case using same_marks_trans [OF a(2)] by blast
qed (simp add: same_marks_def)

lemma group_loop_groups:
  assumes "groups_ok s" and "\<forall>i\<in>set imgs. listed s i" and "0 < g" and "leads s g \<or> imgs \<noteq> [] \<and> g = hd imgs"
    and "distinct imgs" and "g \<notin> set (tl imgs)" and "group_images_loop imgs g s = (g', s')"
  shows "(\<forall>i\<in>set imgs. image_group s' i = g) \<and>
    (\<forall>j. listed s j \<and> j \<notin> set imgs \<longrightarrow> (image_group s' j = g \<longleftrightarrow> g \<notin> set imgs \<and> image_group s j = g)) \<and>
    (\<forall>j k. listed s j \<and> listed s k \<and> j \<notin> set imgs \<and> k \<notin> set imgs \<longrightarrow> same_group s' j k = same_group s j k)"
  using assms
proof (induction imgs arbitrary: s)
  case (Cons i imgs)
  let ?s = "dt_grouping_add_to_group g i s"
  have g: "g = i \<or> leads s g" and i: "listed s i" using Cons.prems(2,4) by auto
  note a = add_to_group_groups [OF Cons.prems(1) i g refl]
  have l: "listed ?s j = listed s j" for j using a(2) by (simp add: same_marks_def)
  have run: "group_images_loop imgs g ?s = (g', s')"
    using Cons.prems(3,7) by (simp add: Let_def dt_is_valid_imgid_def)
  have ni: "i \<notin> set imgs" "distinct imgs" "g \<notin> set imgs" "g \<notin> set (tl imgs)"
    using Cons.prems(5,6) by (auto dest: list.set_sel(2) [rotated]) (cases imgs; simp)
  have ih: "\<forall>i\<in>set imgs. image_group s' i = g"
    "\<And>j. listed s j \<Longrightarrow> j \<notin> set imgs \<Longrightarrow> image_group s' j = g \<longleftrightarrow> image_group ?s j = g"
    "\<And>j k. listed s j \<Longrightarrow> listed s k \<Longrightarrow> j \<notin> set imgs \<Longrightarrow> k \<notin> set imgs \<Longrightarrow> same_group s' j k = same_group ?s j k"
    using Cons.IH [OF a(1) _ Cons.prems(3) _ ni(2,4) run] a(4) Cons.prems(2) ni(3) unfolding l by simp_all
  have "image_group s' i = g" using ih(2) [OF i ni(1)] a(3) by simp
  moreover have "image_group s' j = g \<longleftrightarrow> g \<notin> set (i # imgs) \<and> image_group s j = g" if "listed s j" "j \<notin> set (i # imgs)" for j
    using ih(2) [of j] a(6) [of j] that ni(3) by auto
  moreover have "same_group s' j k = same_group s j k" if "listed s j" "listed s k" "j \<notin> set (i # imgs)" "k \<notin> set (i # imgs)" for j k
    using ih(3) [of j k] a(5) [of j k] that by simp
  ultimately show ?case using ih(1) by auto
qed simp

lemma group_loop_append:
  "group_images_loop (as @ bs) g s = (let (g', s') = group_images_loop as g s in group_images_loop bs g' s')"
  by (induction as arbitrary: g s) (simp_all add: Let_def)

lemma group_loop_first: "0 < i \<Longrightarrow> group_images_loop (i # imgs) NO_IMGID s = group_images_loop (i # imgs) i s"
  by (simp add: dt_is_valid_imgid_def)

lemma ungroup_loop_inv:
  assumes "groups_ok s" and "\<forall>i\<in>set imgs. listed s i" and "ungroup_images_loop imgs c s = (c', s')"
  shows "groups_ok s' \<and> same_marks s' s \<and> (\<forall>g. leads s g \<longrightarrow> leads s' g)"
  using assms
proof (induction imgs arbitrary: c s)
  case (Cons i imgs)
  obtain n t where rm: "dt_grouping_remove_from_group i s = (n, t)" by fastforce
  have i: "listed s i" using Cons.prems(2) by simp
  note r = remove_from_group_groups [OF Cons.prems(1) i rm]
  have run: "ungroup_images_loop imgs (if dt_is_valid_imgid n then i # c else c) t = (c', s')"
    using Cons.prems(3) by (simp add: rm)
  have "groups_ok s' \<and> same_marks s' t \<and> (\<forall>g. leads t g \<longrightarrow> leads s' g)"
    using Cons.IH [OF r(1) _ run] r(2) Cons.prems(2) by (simp add: same_marks_def)
  then show ?case using same_marks_trans [OF r(2)] r(6) by blast
qed (simp add: same_marks_def)

lemma representative_groups:
  assumes ok: "groups_ok s" and i: "listed s i" and run: "dt_grouping_change_representative i s = (n, s')"
  shows "n = i \<and> groups_ok s' \<and> same_marks s' s \<and> leads s' i \<and>
    (\<forall>j k. listed s j \<and> listed s k \<longrightarrow> same_group s' j k = same_group s j k)"
proof -
  define g where "g = image_group s i"
  have im: "images_ok s" using ok by (simp add: groups_ok_def)
  have lg: "leads s g" using groups_okD [OF ok i] by (simp add: g_def)
  then have v: "dt_is_valid_imgid g" using listed_valid by (auto simp: leads_def dt_is_valid_imgid_def)
  have n: "n = i" and s': "s' = fold (\<lambda>o'. set_group o' i) (group_members s g) s"
    using run v by (auto simp: dt_grouping_change_representative_def Let_def g_def group_members_def)
  have fold: "same_marks (fold (\<lambda>o'. set_group o' i) js t) t \<and>
      ((\<forall>j\<in>set js. listed t j) \<longrightarrow> (\<forall>j. image_group (fold (\<lambda>o'. set_group o' i) js t) j = (if j \<in> set js then i else image_group t j)))" for js t
  proof (induction js arbitrary: t)
    case (Cons j js)
    from Cons.IH [of "set_group j i t"] same_marks_trans [of "set_group j i t" t "fold (\<lambda>o'. set_group o' i) js (set_group j i t)"]
    show ?case by (auto simp: image_group_set)
  qed (simp add: same_marks_def)
  have sm: "same_marks s' s" using fold s' by simp
  have gr: "image_group s' j = (if listed s j \<and> image_group s j = g then i else image_group s j)" for j
    using fold [of "group_members s g" s] group_members_set [OF im, of g] unfolding s' by auto
  have l: "listed s' j = listed s j" for j using sm by (simp add: same_marks_def)
  have li: "leads s' i" using i l by (simp add: leads_def gr g_def)
  have away: "image_group s j \<noteq> i" if "listed s j" "image_group s j \<noteq> g" for j
    using groups_okD [OF ok that(1)] that(2) by (auto simp: leads_def g_def)
  have "leads s' (image_group s' j)" if "listed s' j" for j
    using groups_okD [OF ok, of j] that li l by (auto simp: gr leads_def)
  moreover have "images_ok s'" using sm im by (simp add: same_marks_def)
  ultimately have "groups_ok s'" by (intro groups_okI)
  moreover have "same_group s' j k = same_group s j k" if "listed s j" "listed s k" for j k
    using away [OF that(1)] away [OF that(2)] that by (auto simp: same_group_def gr)
  ultimately show ?thesis using n sm li by blast
qed

text \<open>Giving up a local copy changes a flag and no group.\<close>

lemma local_copy_groups:
  assumes "dt_image_local_copy_reset stuck i s0 = (s, failed)"
  shows "failed \<longleftrightarrow> has_local_copy s0 i \<and> stuck i" and "failed \<Longrightarrow> s = s0" and "listed s j = listed s0 j"
    and "image_group s j = image_group s0 j" and "groups_ok s = groups_ok s0"
    and "leads s j = leads s0 j" and "same_group s j k = same_group s0 j k"
proof -
  show "failed \<longleftrightarrow> has_local_copy s0 i \<and> stuck i" and "failed \<Longrightarrow> s = s0"
    using assms by (auto simp: dt_image_local_copy_reset_def split: if_splits)
  have l: "listed s j = listed s0 j" and g: "image_group s j = image_group s0 j" and ok: "images_ok s = images_ok s0" for j
  proof -
    have "listed s j = listed s0 j \<and> image_group s j = image_group s0 j \<and> images_ok s = images_ok s0"
    proof (cases "cache_get s0 i")
      case (Some img)
      then have "im_id img = i" by (auto dest: cache_get_id)
      then show ?thesis using assms Some
        by (cases "cache_get s0 j")
          (auto simp: dt_image_local_copy_reset_def listed_def image_group_def get_put split: if_splits)
    qed (use assms in \<open>auto simp: dt_image_local_copy_reset_def has_local_copy_def split: if_splits\<close>)
    then show "listed s j = listed s0 j" "image_group s j = image_group s0 j" "images_ok s = images_ok s0" by blast+
  qed
  show "listed s j = listed s0 j" and "image_group s j = image_group s0 j" and "groups_ok s = groups_ok s0"
    and "leads s j = leads s0 j" and "same_group s j k = same_group s0 j k"
    by (simp_all add: groups_ok_def leads_def same_group_def l g ok)
qed

lemma remove_image_row:
  assumes ok: "groups_ok s" and i: "listed s i" and rm: "dt_grouping_remove_from_group i s = (n, t)"
    and s': "s' = delete_image_row i t"
  shows "groups_ok s' \<and> (\<forall>j. listed s' j \<longleftrightarrow> listed s j \<and> j \<noteq> i) \<and>
    (\<forall>j k. listed s' j \<and> listed s' k \<longrightarrow> same_group s' j k = same_group s j k) \<and> (\<forall>g. leads s g \<and> g \<noteq> i \<longrightarrow> leads s' g) \<and>
    (n \<le> 0 \<or> leads s' n)"
proof -
  note r = remove_from_group_groups [OF ok i rm]
  have im: "images_ok t" using r(1) by (simp add: groups_ok_def)
  have l: "listed t j = listed s j" for j using r(2) by (simp add: same_marks_def)
  have "\<not> (\<exists>q\<in>set (m_images t). im_group q = i \<and> im_id q \<noteq> i)"
    using r(4) row_listed [OF im] row_group [OF im] l by blast
  then have s': "s' = t\<lparr>m_images := filter (\<lambda>q. im_id q \<noteq> i) (m_images t)\<rparr>"
    by (auto simp: s' delete_image_row_def)
  have fi: "find (\<lambda>r. im_id r = j) (filter (\<lambda>q. im_id q \<noteq> i) qs) = (if j = i then None else find (\<lambda>r. im_id r = j) qs)" for j qs
    by (induction qs) auto
  have get: "cache_get s' j = (if j = i then None else cache_get t j)" for j by (simp add: s' cache_get_def fi)
  have ls: "listed s' j \<longleftrightarrow> listed s j \<and> j \<noteq> i" for j using l [of j] by (simp add: listed_def get)
  have gr: "image_group s' j = image_group t j" if "j \<noteq> i" for j using that by (simp add: image_group_def get)
  have ld: "leads s' g" if "leads t g" "g \<noteq> i" for g using that l by (simp add: leads_def ls gr)
  have "leads s' (image_group s' j)" if "listed s' j" for j
    using groups_okD [OF r(1), of j] r(4) [of j] that l ld by (simp add: ls gr)
  moreover have "images_ok s'" using im by (auto simp: s' images_ok_def distinct_map intro: inj_on_subset)
  ultimately have ok': "groups_ok s'" by (intro groups_okI)
  have sg: "same_group s' j k = same_group s j k" if "listed s' j" "listed s' k" for j k
    using r(5) [of j k] that by (simp add: ls gr same_group_def)
  have nn: "n \<le> 0 \<or> leads s' n"
  proof (cases "0 < n")
    case True
    have "n \<noteq> i" using ok i rm by (cases rule: remove_from_group_cases) (use True in auto)
    then show ?thesis using ld r(8) [OF True] by blast
  qed simp
  with ok' ls sg ld r(6) show ?thesis by blast
qed

lemma remove_image_groups:
  assumes ok: "groups_ok s" and i: "listed s i" and run: "dt_image_remove stuck i gui s = (gui', s')"
  shows "(has_local_copy s i \<and> stuck i \<and> gui' = gui \<and> s' = s) \<or>
    (\<not> (has_local_copy s i \<and> stuck i) \<and> groups_ok s' \<and> (\<forall>j. listed s' j \<longleftrightarrow> listed s j \<and> j \<noteq> i) \<and>
    (\<forall>j k. listed s' j \<and> listed s' k \<longrightarrow> same_group s' j k = same_group s j k) \<and> (\<forall>g. leads s g \<and> g \<noteq> i \<longrightarrow> leads s' g) \<and>
    (\<exists>n. (n \<le> 0 \<or> leads s' n) \<and> gui' = map_option (\<lambda>g. if gui_expanded g = image_group s i then g\<lparr>gui_expanded := n\<rparr> else g) gui))"
proof -
  obtain s0 failed where lc: "dt_image_local_copy_reset stuck i s = (s0, failed)" by fastforce
  note c = local_copy_groups [OF lc]
  show ?thesis
  proof (cases failed)
    case True
    then show ?thesis using run lc c(1,2) by (simp add: dt_image_remove_def)
  next
    case False
    obtain n t where rm: "dt_grouping_remove_from_group i s0 = (n, t)" by fastforce
    have r: "s' = delete_image_row i t"
      "gui' = map_option (\<lambda>g. if gui_expanded g = image_group s i then g\<lparr>gui_expanded := n\<rparr> else g) gui"
      using run lc False rm c(4) [of i] by (auto simp: dt_image_remove_def)
    have "groups_ok s0" "listed s0 i" using ok i c(3,5) by simp_all
    from remove_image_row [OF this rm r(1)] r(2) False c(1,3,6,7) show ?thesis by blast
  qed
qed



text \<open>
  What the lighttable does to groups: making an image the representative of its group (which expands it), expanding and collapsing,
  grouping and ungrouping the images that are acted on, and removing an image. Freshly imported images are in groups of their own.
\<close>

type_synonym group_sys = "groups_gui option \<times> marks"

definition expand :: "int \<Rightarrow> groups_gui option \<Rightarrow> groups_gui option" where
  "expand group_id = map_option (\<lambda>g. g\<lparr>gui_expanded := group_id\<rparr>)"

inductive group_step :: "group_sys \<Rightarrow> group_sys \<Rightarrow> bool" where
  gs_representative: "listed s i \<Longrightarrow> dt_grouping_change_representative i s = (n, s') \<Longrightarrow> group_step (gui, s) (expand n gui, s')"
| gs_expand: "listed s i \<Longrightarrow> group_step (gui, s) (expand (image_group s i) gui, s)"
| gs_collapse: "group_step (gui, s) (expand NO_IMGID gui, s)"
| gs_group: "\<forall>i\<in>set imgs. listed s i \<Longrightarrow> dt_control_group_images imgs gui s = (gui', s') \<Longrightarrow> group_step (gui, s) (gui', s')"
| gs_ungroup: "\<forall>i\<in>set imgs. listed s i \<Longrightarrow> dt_control_ungroup_images imgs gui s = (gui', s') \<Longrightarrow> group_step (gui, s) (gui', s')"
| gs_remove: "listed s i \<Longrightarrow> dt_image_remove stuck i gui s = (gui', s') \<Longrightarrow> group_step (gui, s) (gui', s')"

definition group_start :: "group_sys \<Rightarrow> bool" where
  "group_start x \<longleftrightarrow> images_ok (snd x) \<and> (\<forall>r\<in>set (m_images (snd x)). im_group r = im_id r) \<and>
     (\<forall>g. fst x = Some g \<longrightarrow> gui_expanded g = NO_IMGID)"

definition expanded_ok :: "groups_gui option \<Rightarrow> marks \<Rightarrow> bool" where
  "expanded_ok gui s \<longleftrightarrow> (\<forall>g. gui = Some g \<longrightarrow> gui_expanded g \<le> 0 \<or> leads s (gui_expanded g))"

definition group_inv :: "group_sys \<Rightarrow> bool" where
  "group_inv x \<longleftrightarrow> groups_ok (snd x) \<and> expanded_ok (fst x) (snd x)"

lemma expanded_expand [simp]: "expanded_ok (expand n gui) s \<longleftrightarrow> gui = None \<or> n \<le> 0 \<or> leads s n"
  by (cases gui) (auto simp: expanded_ok_def expand_def)

lemma group_start_inv: "group_start x \<Longrightarrow> group_inv x"
proof -
  assume st: "group_start x"
  have "image_group (snd x) i = i" if "listed (snd x) i" for i
  proof -
    from that obtain r where "cache_get (snd x) i = Some r" unfolding listed_def not_None_eq by blast
    with cache_get_id [OF this] st show ?thesis by (auto simp: image_group_def group_start_def)
  qed
  with st show "group_inv x" by (auto simp: group_inv_def groups_ok_def group_start_def expanded_ok_def)
qed

lemma group_images_control:
  assumes "groups_ok s" and "expanded_ok gui s" and "\<forall>i\<in>set imgs. listed s i" and "\<not> length imgs < 2"
    and "dt_control_group_images imgs gui s = (gui', s')"
  obtains g where "0 < g" "leads s g \<or> g = hd imgs" "group_images_loop imgs g s = (g, s')"
    "gui' = map_option (\<lambda>q. q\<lparr>gui_expanded := if gui_grouping q then g else NO_IMGID\<rparr>) gui"
    "(\<exists>q. gui = Some q \<and> gui_grouping q \<and> 0 < gui_expanded q) \<longrightarrow> (\<exists>q. gui = Some q \<and> g = gui_expanded q)"
    "(\<nexists>q. gui = Some q \<and> gui_grouping q \<and> 0 < gui_expanded q) \<longrightarrow> g = hd imgs"
proof -
  obtain i rest where im: "imgs = i # rest" using assms(4) by (cases imgs) auto
  then have i: "0 < i" using assms(3) listed_valid by auto
  define n where "n = (case gui of None \<Rightarrow> NO_IMGID | Some g \<Rightarrow> if gui_grouping g then gui_expanded g else NO_IMGID)"
  define g where "g = (if 0 < n then n else i)"
  have ne: "0 < n \<longleftrightarrow> (\<exists>q. gui = Some q \<and> gui_grouping q \<and> 0 < gui_expanded q)"
    by (cases gui) (auto simp: n_def)
  have lead: "leads s g \<or> g = hd imgs"
    using assms(2) ne by (auto simp: g_def im n_def expanded_ok_def split: option.splits if_splits)
  obtain g' t where run: "group_images_loop imgs n s = (g', t)" by fastforce
  have run': "group_images_loop imgs g s = (g', t)"
    using run i by (auto simp: g_def im dt_is_valid_imgid_def Let_def)
  have g0: "0 < g" using i by (simp add: g_def)
  have "g' = g" using group_loop_inv [OF assms(1,3) g0 _ run'] lead im by auto
  moreover have "gui' = map_option (\<lambda>q. q\<lparr>gui_expanded := if gui_grouping q then g' else NO_IMGID\<rparr>) gui" "s' = t"
    using assms(4,5) run by (simp_all add: dt_control_group_images_def n_def [symmetric])
  moreover have "\<exists>q. gui = Some q \<and> g = gui_expanded q" if "\<exists>q. gui = Some q \<and> gui_grouping q \<and> 0 < gui_expanded q"
    using that by (auto simp: g_def n_def)
  moreover have "g = hd imgs" if "\<not> (\<exists>q. gui = Some q \<and> gui_grouping q \<and> 0 < gui_expanded q)"
    using that unfolding ne [symmetric] by (simp add: g_def im)
  ultimately show thesis using that [OF g0 lead] run' by blast
qed

lemma group_step_inv: "group_inv x \<Longrightarrow> group_step x y \<Longrightarrow> group_inv y"
proof -
  assume inv: "group_inv x" and step: "group_step x y"
  from step inv show "group_inv y"
  proof cases
    case (gs_representative s i n s' gui)
    with inv representative_groups [of s i n s'] show ?thesis by (simp add: group_inv_def)
  next
    case (gs_expand s i gui)
    with inv groups_okD [of s i] show ?thesis by (simp add: group_inv_def)
  next
    case (gs_group imgs s gui gui' s')
    show ?thesis
    proof (cases "length imgs < 2")
      case True
      with gs_group inv show ?thesis by (simp add: dt_control_group_images_def)
    next
      case False
      with gs_group inv have h: "groups_ok s" "expanded_ok gui s" by (simp_all add: group_inv_def)
      from h gs_group(3) False gs_group(4) obtain g where g: "0 < g" "leads s g \<or> g = hd imgs" "group_images_loop imgs g s = (g, s')"
        "gui' = map_option (\<lambda>q. q\<lparr>gui_expanded := if gui_grouping q then g else NO_IMGID\<rparr>) gui"
        by (rule group_images_control)
      have "groups_ok s' \<and> leads s' g" using group_loop_inv [OF h(1) gs_group(3) g(1) _ g(3)] g(2) False by fastforce
      then show ?thesis using gs_group(2) g(4) by (auto simp: group_inv_def expanded_ok_def)
    qed
  next
    case (gs_ungroup imgs s gui gui' s')
    obtain c t where run: "ungroup_images_loop imgs [] s = (c, t)" by fastforce
    have ok: "groups_ok s" "expanded_ok gui s" using inv gs_ungroup(1) by (simp_all add: group_inv_def)
    note u = ungroup_loop_inv [OF ok(1) gs_ungroup(3) run]
    have "expanded_ok gui t" using ok(2) u by (auto simp: expanded_ok_def)
    moreover have "s' = t" "gui' = gui \<or> gui' = expand NO_IMGID gui"
      using gs_ungroup(4) run by (auto simp: dt_control_ungroup_images_def expand_def split: if_splits)
    ultimately show ?thesis using u gs_ungroup(2) by (auto simp: group_inv_def)
  next
    case (gs_remove s i stuck gui gui' s')
    have ok: "groups_ok s" "expanded_ok gui s" using inv gs_remove(1) by (simp_all add: group_inv_def)
    from remove_image_groups [OF ok(1) gs_remove(3,4)]
    consider "gui' = gui \<and> s' = s" | (gone) "groups_ok s' \<and> (\<forall>j. listed s' j \<longleftrightarrow> listed s j \<and> j \<noteq> i) \<and>
      (\<forall>j k. listed s' j \<and> listed s' k \<longrightarrow> same_group s' j k = same_group s j k) \<and> (\<forall>g. leads s g \<and> g \<noteq> i \<longrightarrow> leads s' g) \<and>
      (\<exists>n. (n \<le> 0 \<or> leads s' n) \<and> gui' = map_option (\<lambda>g. if gui_expanded g = image_group s i then g\<lparr>gui_expanded := n\<rparr> else g) gui)"
      by blast
    then show ?thesis
    proof cases
      case 1
      then show ?thesis using inv gs_remove(1,2) by simp
    next
    case r: gone
    from r obtain n where n: "n \<le> 0 \<or> leads s' n"
      "gui' = map_option (\<lambda>g. if gui_expanded g = image_group s i then g\<lparr>gui_expanded := n\<rparr> else g) gui" by blast
    have "leads s' (gui_expanded q)" if "leads s (gui_expanded q)" "gui_expanded q \<noteq> image_group s i" for q
      using r that by (cases "gui_expanded q = i") (auto simp: leads_def)
    then have "expanded_ok gui' s'" using ok(2) n by (cases gui) (auto simp: expanded_ok_def)
    then show ?thesis using r gs_remove(2) by (simp add: group_inv_def)
    qed
  qed (simp add: group_inv_def)
qed

interpretation group_sys: invariant_system group_start group_step group_inv
  by unfold_locales (auto intro: group_start_inv group_step_inv)

text \<open>
  C9: groups stay well formed. Whatever sequence of choosing representatives, expanding, collapsing, grouping, ungrouping and removing
  images follows an import, the group of every image is an image of the library that represents itself, and the
  user interface expands no group or an existing one.
\<close>

theorem groups_stay_well_formed:
  assumes "group_start x" and "group_step\<^sup>*\<^sup>* x (gui, s)"
  shows "(\<forall>i. listed s i \<longrightarrow> listed s (image_group s i) \<and> image_group s (image_group s i) = image_group s i) \<and>
    (\<forall>g. gui = Some g \<longrightarrow> gui_expanded g \<le> 0 \<or> listed s (gui_expanded g) \<and> image_group s (gui_expanded g) = gui_expanded g)"
  using group_sys.reach_invar [OF assms] by (auto simp: group_inv_def groups_ok_def expanded_ok_def leads_def)

definition four_images :: "(int \<times> int) list \<Rightarrow> marks" where
  "four_images groups = \<lparr>m_images = map (\<lambda>(i, g). \<lparr>im_id = i, im_flags = 0, im_group = g\<rparr>) groups, m_labels = []\<rparr>"

lemmas four_images_eval = four_images_def cache_get_def dt_is_valid_imgid_def listed_def image_group_def

theorem groups_stay_well_formed_witness:
  "\<exists>gui s. group_step\<^sup>*\<^sup>* (Some \<lparr>gui_grouping = True, gui_expanded = 0\<rparr>, four_images [(1, 1), (2, 2), (3, 3), (4, 4)]) (gui, s) \<and>
     \<not> listed s 1 \<and> image_group s 3 = 2 \<and> listed s (image_group s 3)"
proof -
  let ?gui = "Some \<lparr>gui_grouping = True, gui_expanded = 0\<rparr>" and ?s = "four_images [(1, 1), (2, 2), (3, 3), (4, 4)]"
  have a: "dt_control_group_images [1, 2, 3] ?gui ?s =
      (Some \<lparr>gui_grouping = True, gui_expanded = 1\<rparr>, four_images [(1, 1), (2, 1), (3, 1), (4, 4)])"
    by (simp add: dt_control_group_images_def dt_grouping_add_to_group_def dt_grouping_remove_from_group_def four_images_eval
        set_group_def cache_put_def)
  have b: "dt_image_remove (\<lambda>_. False) 1 (Some \<lparr>gui_grouping = True, gui_expanded = 1\<rparr>) (four_images [(1, 1), (2, 1), (3, 1), (4, 4)]) =
      (Some \<lparr>gui_grouping = True, gui_expanded = 2\<rparr>, four_images [(2, 2), (3, 2), (4, 4)])"
    by (simp add: dt_image_remove_def dt_image_local_copy_reset_def has_local_copy_def DT_IMAGE_LOCAL_COPY_def
        delete_image_row_def dt_grouping_remove_from_group_def four_images_eval set_group_def cache_put_def)
  have "group_step (?gui, ?s) (Some \<lparr>gui_grouping = True, gui_expanded = 1\<rparr>, four_images [(1, 1), (2, 1), (3, 1), (4, 4)])"
    by (rule gs_group [OF _ a]) (simp add: four_images_eval)
  moreover have "group_step (Some \<lparr>gui_grouping = True, gui_expanded = 1\<rparr>, four_images [(1, 1), (2, 1), (3, 1), (4, 4)])
      (Some \<lparr>gui_grouping = True, gui_expanded = 2\<rparr>, four_images [(2, 2), (3, 2), (4, 4)])"
    by (rule gs_remove [OF _ b]) (simp add: four_images_eval)
  ultimately have run: "group_step\<^sup>*\<^sup>* (?gui, ?s) (Some \<lparr>gui_grouping = True, gui_expanded = 2\<rparr>, four_images [(2, 2), (3, 2), (4, 4)])"
    by (meson converse_rtranclp_into_rtranclp rtranclp.rtrancl_refl)
  have "group_start (?gui, ?s)" by (simp add: group_start_def images_ok_def four_images_eval)
  from groups_stay_well_formed [OF this run] have "listed (four_images [(2, 2), (3, 2), (4, 4)]) 3 \<longrightarrow>
      listed (four_images [(2, 2), (3, 2), (4, 4)]) (image_group (four_images [(2, 2), (3, 2), (4, 4)]) 3)" by blast
  moreover have "listed (four_images [(2, 2), (3, 2), (4, 4)]) 3" "\<not> listed (four_images [(2, 2), (3, 2), (4, 4)]) 1"
    "image_group (four_images [(2, 2), (3, 2), (4, 4)]) 3 = 2" by (simp_all add: four_images_eval)
  ultimately show ?thesis using run by blast
qed


text \<open>The group that grouping joins: the expanded one, or that of the first image.\<close>

definition joined_group :: "groups_gui option \<Rightarrow> int list \<Rightarrow> int" where
  "joined_group gui imgs =
     (case gui of
        None \<Rightarrow> hd imgs
      | Some q \<Rightarrow> if gui_grouping q \<and> 0 < gui_expanded q then gui_expanded q else hd imgs)"

text \<open>
  C19: grouping joins the images that are acted on. When no group is expanded, or the image that represents the expanded group is
  not among the images or is the first of them, all of them are in one group afterwards: the expanded group or, when there is none or
  grouping is off, that of the first image, and it is the expanded one while grouping is on. Images that are not acted on are together or apart as before, and are in
  the new group exactly when they were in the expanded group and its representative is not acted on. Ratings and labels stay.
\<close>

theorem group_images_spec:
  assumes "groups_ok s" and "expanded_ok gui s" and "\<forall>i\<in>set imgs. listed s i" and "distinct imgs" and "2 \<le> length imgs"
    and "\<forall>q. gui = Some q \<and> gui_grouping q \<longrightarrow> gui_expanded q \<notin> set (tl imgs)"
    and "dt_control_group_images imgs gui s = (gui', s')" and "g = joined_group gui imgs"
  shows "(\<forall>i\<in>set imgs. image_group s' i = g) \<and>
    gui' = map_option (\<lambda>q. q\<lparr>gui_expanded := if gui_grouping q then g else NO_IMGID\<rparr>) gui \<and>
    (\<forall>j k. listed s j \<and> listed s k \<and> j \<notin> set imgs \<and> k \<notin> set imgs \<longrightarrow> same_group s' j k = same_group s j k) \<and>
    (\<forall>j. listed s j \<and> j \<notin> set imgs \<longrightarrow> (image_group s' j = g \<longleftrightarrow> g \<notin> set imgs \<and> image_group s j = g)) \<and>
    m_labels s' = m_labels s \<and> (\<forall>j. dt_ratings_get s' j = dt_ratings_get s j)"
proof -
  have two: "\<not> length imgs < 2" and ne: "imgs \<noteq> []" using assms(5) by auto
  obtain h where h: "0 < h" "leads s h \<or> h = hd imgs" "group_images_loop imgs h s = (h, s')"
    "gui' = map_option (\<lambda>q. q\<lparr>gui_expanded := if gui_grouping q then h else NO_IMGID\<rparr>) gui"
    and ex: "(\<exists>q. gui = Some q \<and> gui_grouping q \<and> 0 < gui_expanded q) \<longrightarrow> (\<exists>q. gui = Some q \<and> h = gui_expanded q)"
      "(\<nexists>q. gui = Some q \<and> gui_grouping q \<and> 0 < gui_expanded q) \<longrightarrow> h = hd imgs"
    by (rule group_images_control [OF assms(1,2,3) two assms(7)]) (rule that; assumption)
  have "h = g" using ex unfolding assms(8) by (auto simp: joined_group_def split: option.split)
  note g = h [unfolded this] and ex = ex [unfolded this]
  have "g \<notin> set (tl imgs)"
  proof (cases "\<exists>q. gui = Some q \<and> gui_grouping q \<and> 0 < gui_expanded q")
    case True
    with ex(1) assms(6) show ?thesis by fastforce
  next
    case False
    with ex(2) assms(4) ne show ?thesis by (cases imgs) auto
  qed
  from group_loop_groups [OF assms(1,3) g(1) _ assms(4) this g(3)] group_loop_inv [OF assms(1,3) g(1) _ g(3)] g(2) ne
  show ?thesis using g(4) unfolding same_marks_def by blast
qed

theorem group_images_spec_witness:
  "\<exists>gui' s'. dt_control_group_images [3, 5] (Some \<lparr>gui_grouping = True, gui_expanded = 1\<rparr>)
       (four_images [(1, 1), (2, 1), (3, 3), (4, 3), (5, 5)]) = (gui', s') \<and>
     image_group s' 3 = 1 \<and> image_group s' 5 = 1 \<and> image_group s' 2 = 1 \<and> image_group s' 4 \<noteq> 1"
proof -
  let ?gui = "Some \<lparr>gui_grouping = True, gui_expanded = 1\<rparr>" and ?s = "four_images [(1, 1), (2, 1), (3, 3), (4, 3), (5, 5)]"
  obtain gui' s' where run: "dt_control_group_images [3, 5] ?gui ?s = (gui', s')" by fastforce
  have ok: "groups_ok ?s" by (auto simp: groups_ok_def images_ok_def four_images_eval split: if_splits)
  have j: "joined_group ?gui [3, 5] = 1" by (simp add: joined_group_def)
  have "expanded_ok ?gui ?s" by (simp add: expanded_ok_def leads_def four_images_eval)
  then have "(\<forall>i\<in>set [3, 5]. image_group s' i = 1) \<and>
      (\<forall>j. listed ?s j \<and> j \<notin> set [3, 5] \<longrightarrow> (image_group s' j = 1 \<longleftrightarrow> 1 \<notin> set [3, 5 :: int] \<and> image_group ?s j = 1))"
    using group_images_spec [OF ok _ _ _ _ _ run j [symmetric]] by (simp add: four_images_eval)
  then have r: "image_group s' 3 = 1" "image_group s' 5 = 1"
      "\<And>j. listed ?s j \<and> j \<notin> {3, 5} \<Longrightarrow> image_group s' j = 1 \<longleftrightarrow> image_group ?s j = 1" by simp_all
  have "image_group s' 2 = 1" "image_group s' 4 \<noteq> 1" using r(3) [of 2] r(3) [of 4] by (simp_all add: four_images_eval)
  with r run show ?thesis by blast
qed

text \<open>
  Grouping can drive images apart. When a group is expanded and its representative is acted on, but not as the first image, the images before it are
  not in its group afterwards, although all were to be joined: adding the representative to its own group first takes it
  out of the group, and those who joined before it stay behind with the new representative.
\<close>

theorem representative_leaves_group:
  assumes "groups_ok s" and "\<forall>i\<in>set (as @ e # bs). listed s i" and "distinct (as @ e # bs)" and "as \<noteq> []"
    and "gui = Some q" and "gui_grouping q" and "gui_expanded q = e" and "leads s e"
    and "dt_control_group_images (as @ e # bs) gui s = (gui', s')"
  shows "image_group s' e = e \<and> (\<forall>i\<in>set as. \<not> same_group s' i e)"
proof -
  have e: "0 < e" using assms(8) listed_valid [of s e] by (simp add: leads_def)
  have len: "\<not> length (as @ e # bs) < 2" using assms(4) by (cases as) auto
  obtain g' t where run: "group_images_loop (as @ e # bs) e s = (g', t)" by fastforce
  then have t: "s' = t" using assms(9) len unfolding dt_control_group_images_def assms(5) by (auto simp: assms(6,7) simp del: length_append list.size)
  obtain g1 s1 where r1: "group_images_loop as e s = (g1, s1)" by fastforce
  have as: "\<forall>i\<in>set as. listed s i" using assms(2) by simp
  have i1: "g1 = e \<and> groups_ok s1 \<and> same_marks s1 s \<and> leads s1 e"
    by (rule group_loop_inv [OF assms(1) as e _ r1]) (simp add: assms(8))
  have l: "listed s1 j = listed s j" for j using i1 by (simp add: same_marks_def)
  have r2: "group_images_loop (e # bs) e s1 = (g', s')" using run r1 i1 t by (simp only: group_loop_append) simp
  have bs: "\<forall>i\<in>set (e # bs). listed s1 i" using assms(2) l by simp
  have g: "(\<forall>i\<in>set (e # bs). image_group s' i = e) \<and>
    (\<forall>j. listed s1 j \<and> j \<notin> set (e # bs) \<longrightarrow> (image_group s' j = e \<longleftrightarrow> e \<notin> set (e # bs) \<and> image_group s1 j = e))"
    using group_loop_groups [OF _ bs e _ _ _ r2] i1 assms(3) by simp
  have "image_group s' i \<noteq> e" if i: "i \<in> set as" for i
  proof -
    have "listed s1 i" "i \<notin> set (e # bs)" using as l i assms(3) by auto
    with conjunct2 [OF g] show ?thesis by simp
  qed
  moreover have "image_group s' e = e" using conjunct1 [OF g] by simp
  ultimately show ?thesis by (simp add: same_group_def)
qed

theorem representative_leaves_group_witness:
  "\<exists>gui' s'. dt_control_group_images [3, 1] (Some \<lparr>gui_grouping = True, gui_expanded = 1\<rparr>)
       (four_images [(1, 1), (2, 1), (3, 3), (4, 4)]) = (gui', s') \<and> \<not> same_group s' 3 1"
proof -
  let ?q = "\<lparr>gui_grouping = True, gui_expanded = 1\<rparr>" and ?s = "four_images [(1, 1), (2, 1), (3, 3), (4, 4)]"
  obtain gui' s' where run: "dt_control_group_images ([3] @ 1 # []) (Some ?q) ?s = (gui', s')" by fastforce
  have ok: "groups_ok ?s" by (auto simp: groups_ok_def images_ok_def four_images_eval split: if_splits)
  have "leads ?s 1" "\<forall>i\<in>set ([3] @ 1 # []). listed ?s i" by (simp_all add: leads_def four_images_eval)
  with representative_leaves_group [OF ok _ _ _ refl _ _ _ run] have "\<not> same_group s' 3 1" by simp
  with run show ?thesis by simp
qed

text \<open>
  C23: removing an image that is in the table removes exactly its row, and leaves the groups of the others alone. The only way not to remove
  it is a local copy that cannot be given up because the original is out of reach; then nothing changes. Otherwise no other row names the image as its group when
  its row is deleted, so the foreign key does not refuse it; the remaining images are together or apart as before,
  and each of their groups is represented.
\<close>

theorem image_removed:
  assumes "groups_ok s" and "listed s i" and "dt_image_remove stuck i gui s = (gui', s')"
  shows "if has_local_copy s i \<and> stuck i then gui' = gui \<and> s' = s
    else (\<forall>j. listed s' j \<longleftrightarrow> listed s j \<and> j \<noteq> i) \<and>
    (\<forall>j k. listed s' j \<and> listed s' k \<longrightarrow> same_group s' j k = same_group s j k) \<and>
    (\<forall>j. listed s' j \<longrightarrow> leads s' (image_group s' j))"
  using remove_image_groups [OF assms] groups_okD [of s'] by (cases "has_local_copy s i \<and> stuck i") (simp_all, blast)

theorem image_removed_witness:
  "\<exists>gui' s'. dt_image_remove (\<lambda>_. True) 1 None (four_images [(1, 1), (2, 1), (3, 1), (4, 4)]) = (gui', s') \<and> \<not> listed s' 1 \<and>
     same_group s' 2 3 \<and> \<not> same_group s' 2 4"
proof -
  let ?s = "four_images [(1, 1), (2, 1), (3, 1), (4, 4)]"
  obtain gui' s' where run: "dt_image_remove (\<lambda>_. True) 1 None ?s = (gui', s')" by fastforce
  have ok: "groups_ok ?s" by (auto simp: groups_ok_def images_ok_def four_images_eval split: if_splits)
  have l: "listed ?s 1" "listed ?s 2" "listed ?s 3" "listed ?s 4" "same_group ?s 2 3" "\<not> same_group ?s 2 4"
    by (simp_all add: four_images_eval same_group_def)
  have "\<not> has_local_copy ?s 1" by (simp add: has_local_copy_def DT_IMAGE_LOCAL_COPY_def four_images_eval)
  with image_removed [OF ok l(1) run] have r: "\<forall>j. listed s' j \<longleftrightarrow> listed ?s j \<and> j \<noteq> 1"
    "\<forall>j k. listed s' j \<and> listed s' k \<longrightarrow> same_group s' j k = same_group ?s j k" by simp_all
  then have "listed s' 2" "listed s' 3" "listed s' 4" "\<not> listed s' 1" using l by simp_all
  with r(2) l have "same_group s' 2 3" "\<not> same_group s' 2 4" by blast+
  with run \<open>\<not> listed s' 1\<close> show ?thesis by blast
qed

end
