(* ===== verification/Pipe_Process.thy ===== *)
theory Pipe_Process
  imports Pixelpipe_Cache
begin

text \<open>
  Running a pixel pipe (\<open>_dev_pixelpipe_process_rec\<close> and what it calls in \<open>src/develop/pixelpipe_hb.c\<close>) on the CPU, over the
  cache of \<open>Pixelpipe_Cache\<close>. A node is named by its position in the pipe, 0 is the input image. What modules compute
  is a parameter: the content of a buffer is the type \<open>'px\<close>, a region of interest \<open>'r\<close>, and a buffer descriptor is a colour space
  with the rest \<open>'d\<close>. Buffers live in a heap, so that a module that converts its input in place changes the buffer of the cache line.

  The request to stop comes from another thread: the answers to the checks are a sequence, as are the answers of
  \<open>_dev_pixelpipe_early_exit\<close>. Left out: the OpenCL paths, buffers that are not aligned, the histograms and colour pickers, which only read
  the buffers, and what the pieces remember for the user interface (\<open>dsc_in\<close>, \<open>processed_roi_in\<close>, \<open>position\<close>). Whether a module is
  processed in tiles is part of what it computes (\<open>Tiling\<close> shows when that makes no difference). What modules pass on outside of the
  buffers and \<open>pipe->dsc\<close> (the white balance in \<open>dev->chroma\<close>, raster masks) is not seen by the model.
\<close>

unbundle bit_operations_syntax

section \<open>What a pipe consists of\<close>

definition IOP_CS_RAW :: int where "IOP_CS_RAW = 0"

record 'd buffer_dsc =
  bd_cst :: int
  bd_rest :: 'd

record ('r, 'px, 'd) process_env =
  pe_hash_pipe :: hash_pipe
  pe_roi_bytes :: "'r \<Rightarrow> 8 word list"
  pe_pixels :: "'r \<Rightarrow> nat"
  pe_bpp :: "'d buffer_dsc \<Rightarrow> nat"
  pe_zero_dsc :: "'d buffer_dsc"
  pe_input_dsc :: "'d buffer_dsc"
  pe_input :: nat
  pe_full_roi :: "'r \<Rightarrow> bool"
  pe_scale_input :: "'r \<Rightarrow> 'px \<Rightarrow> 'px"
  pe_skip :: "nat \<Rightarrow> bool"
  pe_is_gamma :: "nat \<Rightarrow> bool"
  pe_preview :: bool
  pe_distort :: "nat \<Rightarrow> bool"
  pe_iop_order :: "nat \<Rightarrow> int"
  pe_important :: "nat \<Rightarrow> bool"
  pe_input_hint :: "nat \<Rightarrow> bool"
  pe_inner_histogram :: "nat \<Rightarrow> bool"
  pe_modify_roi_in :: "nat \<Rightarrow> 'r \<Rightarrow> 'r"
  pe_output_format :: "nat \<Rightarrow> 'd buffer_dsc \<Rightarrow> 'd buffer_dsc"
  pe_input_cst :: "nat \<Rightarrow> int"
  pe_output_cst :: "nat \<Rightarrow> int"
  pe_work_profile :: bool
  pe_convert :: "int \<Rightarrow> int \<Rightarrow> 'px \<Rightarrow> 'px option"
  pe_process :: "nat \<Rightarrow> 'r \<Rightarrow> 'r \<Rightarrow> 'd buffer_dsc \<Rightarrow> 'd buffer_dsc \<Rightarrow> 'px \<Rightarrow> 'px \<times> 'd buffer_dsc"
  pe_masks :: "nat \<Rightarrow> bool"
  pe_transform_for_blend :: "nat \<Rightarrow> bool"
  pe_blend_cst :: "nat \<Rightarrow> int \<Rightarrow> int"
  pe_wants_blending :: "nat \<Rightarrow> bool"
  pe_blend_masks :: "nat \<Rightarrow> bool"
  pe_blend :: "nat \<Rightarrow> 'r \<Rightarrow> 'r \<Rightarrow> 'px \<Rightarrow> 'px \<Rightarrow> 'px"
  pe_fast_blend :: "nat \<Rightarrow> bool"
  pe_params_bytes :: "nat \<Rightarrow> 8 word list"
  pe_blend_mem :: "nat option"
  pe_alloc :: "'d buffer_dsc dt_dev_pixelpipe_t \<Rightarrow> 64 word \<Rightarrow> nat \<Rightarrow> nat"
  pe_stop :: "nat \<Rightarrow> bool"
  pe_early :: "nat \<Rightarrow> bool"

text \<open>The state of a run. The buffer of the blend cache is private to it, so its content is a field of its own.\<close>

record ('px, 'd) process_state =
  ps_pipe :: "'d buffer_dsc dt_dev_pixelpipe_t"
  ps_heap :: "nat \<Rightarrow> 'px"
  ps_blend_cache :: 'px
  ps_ticks :: nat

text \<open>Where the data of a node are: a line of the cache, whose descriptor is the line's, or the input image itself with a local descriptor.\<close>

datatype 'd place = In_Line nat | In_Input "'d buffer_dsc"

definition pipe_has_shutdown :: "('r, 'px, 'd) process_env \<Rightarrow> ('px, 'd) process_state \<Rightarrow> bool \<times> ('px, 'd) process_state" where
  "pipe_has_shutdown E s = (pe_stop E (ps_ticks s), s\<lparr>ps_ticks := Suc (ps_ticks s)\<rparr>)"

definition dev_pixelpipe_early_exit :: "('r, 'px, 'd) process_env \<Rightarrow> ('px, 'd) process_state \<Rightarrow> bool \<times> ('px, 'd) process_state" where
  "dev_pixelpipe_early_exit E s = (pe_early E (ps_ticks s), s\<lparr>ps_ticks := Suc (ps_ticks s)\<rparr>)"

definition the_line :: "('px, 'd) process_state \<Rightarrow> nat \<Rightarrow> 'd buffer_dsc cline" where
  "the_line s k = pc_lines (pipe_cache (ps_pipe s)) ! k"

definition upd_cache :: "('d buffer_dsc dt_dev_pixelpipe_cache_t \<Rightarrow> 'd buffer_dsc dt_dev_pixelpipe_cache_t) \<Rightarrow>
    ('px, 'd) process_state \<Rightarrow> ('px, 'd) process_state" where
  "upd_cache f s = s\<lparr>ps_pipe := (ps_pipe s)\<lparr>pipe_cache := f (pipe_cache (ps_pipe s))\<rparr>\<rparr>"

definition set_dsc :: "nat \<Rightarrow> 'd buffer_dsc \<Rightarrow> ('px, 'd) process_state \<Rightarrow> ('px, 'd) process_state" where
  "set_dsc k d s = upd_cache (set_line k ((the_line s k)\<lparr>line_dsc := d\<rparr>)) s"

definition place_data :: "('r, 'px, 'd) process_env \<Rightarrow> ('px, 'd) process_state \<Rightarrow> 'd place \<Rightarrow> nat option" where
  "place_data E s loc = (case loc of In_Line k \<Rightarrow> line_data (the_line s k) | In_Input d \<Rightarrow> Some (pe_input E))"

definition place_dsc :: "('px, 'd) process_state \<Rightarrow> 'd place \<Rightarrow> 'd buffer_dsc" where
  "place_dsc s loc = (case loc of In_Line k \<Rightarrow> line_dsc (the_line s k) | In_Input d \<Rightarrow> d)"

definition set_place_dsc :: "'d place \<Rightarrow> 'd buffer_dsc \<Rightarrow> ('px, 'd) process_state \<Rightarrow> ('px, 'd) process_state \<times> 'd place" where
  "set_place_dsc loc d s = (case loc of In_Line k \<Rightarrow> (set_dsc k d s, loc) | In_Input _ \<Rightarrow> (s, In_Input d))"

definition content :: "('r, 'px, 'd) process_env \<Rightarrow> ('px, 'd) process_state \<Rightarrow> 'd place \<Rightarrow> 'px" where
  "content E s loc = ps_heap s (the (place_data E s loc))"

definition write_buffer :: "('r, 'px, 'd) process_env \<Rightarrow> 'd place \<Rightarrow> 'px \<Rightarrow> ('px, 'd) process_state \<Rightarrow> ('px, 'd) process_state" where
  "write_buffer E loc x s = s\<lparr>ps_heap := (ps_heap s)(the (place_data E s loc) := x)\<rparr>"

text \<open>The hash and the size of a request.\<close>

definition request_hash :: "('r, 'px, 'd) process_env \<Rightarrow> nat \<Rightarrow> 'r \<Rightarrow> 64 word" where
  "request_hash E pos roi = dt_dev_pixelpipe_cache_hash (Some (pe_roi_bytes E roi)) (pe_hash_pipe E) pos"

definition get_output_format :: "('r, 'px, 'd) process_env \<Rightarrow> nat \<Rightarrow> 'd buffer_dsc" where
  "get_output_format E pos = (if pos = 0 then pe_input_dsc E else pe_output_format E pos (pe_zero_dsc E))"

definition bufsize :: "('r, 'px, 'd) process_env \<Rightarrow> nat \<Rightarrow> 'r \<Rightarrow> nat" where
  "bufsize E pos roi = pe_bpp E (get_output_format E pos) * pe_pixels E roi"

definition piece_process_hash :: "('r, 'px, 'd) process_env \<Rightarrow> nat \<Rightarrow> 'r \<Rightarrow> 64 word" where
  "piece_process_hash E pos roi =
     dt_hash (dt_hash (request_hash E (pos - 1) roi) (pe_roi_bytes E roi)) (pe_params_bytes E pos)"



section \<open>Processing a node\<close>

text \<open>\<open>dt_ioppr_transform_image_colorspace\<close> in place: the new content and the colour space it is in.\<close>

definition dt_ioppr_transform_image_colorspace :: "('r, 'px, 'd) process_env \<Rightarrow> bool \<Rightarrow> int \<Rightarrow> int \<Rightarrow> 'px \<Rightarrow> 'px \<times> int" where
  "dt_ioppr_transform_image_colorspace E profile cst_from cst_to x =
     (if cst_from = cst_to then (x, cst_to)
      else if \<not> profile \<or> cst_to = IOP_CS_RAW \<or> cst_from = IOP_CS_RAW then (x, cst_from)
      else case pe_convert E cst_from cst_to x of None \<Rightarrow> (x, cst_from) | Some y \<Rightarrow> (y, cst_to))"

text \<open>The input of a node is converted where it lies, and its descriptor follows.\<close>

definition transform_input :: "('r, 'px, 'd) process_env \<Rightarrow> bool \<Rightarrow> int \<Rightarrow> 'd place \<Rightarrow> ('px, 'd) process_state \<Rightarrow>
    ('px, 'd) process_state \<times> 'd place" where
  "transform_input E profile cst_to loc s =
     (let (x, c) = dt_ioppr_transform_image_colorspace E profile (bd_cst (place_dsc s loc)) cst_to (content E s loc)
      in set_place_dsc loc ((place_dsc s loc)\<lparr>bd_cst := c\<rparr>) (write_buffer E loc x s))"

definition invalidate_data :: "nat option \<Rightarrow> ('px, 'd) process_state \<Rightarrow> ('px, 'd) process_state" where
  "invalidate_data data s = s\<lparr>ps_pipe := dt_dev_pixelpipe_invalidate_cacheline (ps_pipe s) data\<rparr>"

definition get_fast_blendcache :: "('r, 'px, 'd) process_env \<Rightarrow> 64 word \<Rightarrow> ('px, 'd) process_state \<Rightarrow> ('px, 'd) process_state" where
  "get_fast_blendcache E phash s = s\<lparr>ps_pipe := (ps_pipe s)
     \<lparr>bcache_data := (if phash \<noteq> DT_INVALID_HASH then pe_blend_mem E else None), bcache_hash := phash\<rparr>\<rparr>"

text \<open>
  The module itself, or the copy of what it gave before: the module in focus keeps its output from before the blending. A module gets
  the description \<open>dsc_in\<close> of its input (\<open>piece->dsc_in\<close>) and reads and changes \<open>pipe->dsc\<close>, which describes its output
  (white level, white balance, filter pattern); a copy from the blend cache leaves \<open>pipe->dsc\<close> as it is. A module may switch the display of its
  mask on.
\<close>

definition run_module :: "('r, 'px, 'd) process_env \<Rightarrow> nat \<Rightarrow> 'r \<Rightarrow> 'r \<Rightarrow> 'd buffer_dsc \<Rightarrow> 'd place \<Rightarrow> nat \<Rightarrow> 'd buffer_dsc \<Rightarrow>
    ('px, 'd) process_state \<Rightarrow> 'd buffer_dsc \<times> ('px, 'd) process_state" where
  "run_module E pos roi_in roi_out dsc_in input ko dsc s =
     (let want_bcache = pe_fast_blend E pos;
          phash = (if want_bcache then piece_process_hash E pos roi_out else DT_INVALID_HASH);
          bcaching = want_bcache \<and> bcache_data (ps_pipe s) \<noteq> None \<and> phash = bcache_hash (ps_pipe s) \<and> phash \<noteq> DT_INVALID_HASH
      in if bcaching then (dsc, write_buffer E (In_Line ko) (ps_blend_cache s) s)
         else let (y, dsc') = pe_process E pos roi_in roi_out dsc_in dsc (content E s input);
                  s1 = write_buffer E (In_Line ko) y s;
                  s2 = s1\<lparr>ps_pipe := (ps_pipe s1)\<lparr>mask_display := mask_display (ps_pipe s1) \<or> pe_masks E pos\<rparr>\<rparr>
              in (dsc',
                  if \<not> want_bcache then s2
                  else if \<not> mask_display (ps_pipe s2)
                  then let s3 = get_fast_blendcache E phash s2
                       in if bcache_data (ps_pipe s3) \<noteq> None then s3\<lparr>ps_blend_cache := y\<rparr> else s3
                  else s2\<lparr>ps_pipe := (ps_pipe s2)\<lparr>bcache_hash := DT_INVALID_HASH\<rparr>\<rparr>))"

text \<open>
  The tail of \<open>_pixelpipe_process_on_CPU\<close>: blending. \<open>dsc\<close> is \<open>pipe->dsc\<close>. Blending, too, switches the display of masks on, when the
  module is asked to show its mask or a channel.
\<close>

definition blend_node :: "('r, 'px, 'd) process_env \<Rightarrow> bool \<Rightarrow> nat \<Rightarrow> 'r \<Rightarrow> 'r \<Rightarrow> 'd place \<Rightarrow> nat \<Rightarrow> 'd buffer_dsc \<Rightarrow>
    ('px, 'd) process_state \<Rightarrow> 'd place \<times> 'd buffer_dsc \<times> ('px, 'd) process_state" where
  "blend_node E profile pos roi_in roi_out input ko dsc s =
     (let blend_cst = pe_blend_cst E pos (bd_cst dsc);
          (input1, dsc1, s1) =
            (if pe_transform_for_blend E pos
             then let (sa, input1) = transform_input E profile blend_cst input s;
                      (y, c) = dt_ioppr_transform_image_colorspace E profile (bd_cst dsc) blend_cst (content E sa (In_Line ko))
                  in (input1, dsc\<lparr>bd_cst := c\<rparr>, write_buffer E (In_Line ko) y sa)
             else (input, dsc, s))
      in (input1, dsc1,
          if pe_wants_blending E pos
          then let s2 = write_buffer E (In_Line ko) (pe_blend E pos roi_in roi_out (content E s1 input1) (content E s1 (In_Line ko))) s1
               in s2\<lparr>ps_pipe := (ps_pipe s2)\<lparr>mask_display := mask_display (ps_pipe s2) \<or> pe_blend_masks E pos\<rparr>\<rparr>
          else s1))"

text \<open>\<open>None\<close>: the pipe was stopped. Otherwise the input's place and the final \<open>pipe->dsc\<close>.\<close>

definition pixelpipe_process_on_CPU :: "('r, 'px, 'd) process_env \<Rightarrow> nat \<Rightarrow> 'r \<Rightarrow> 'r \<Rightarrow> 'd buffer_dsc \<Rightarrow> 'd place \<Rightarrow> nat \<Rightarrow> 'd buffer_dsc \<Rightarrow>
    ('px, 'd) process_state \<Rightarrow> ('d place \<times> 'd buffer_dsc) option \<times> ('px, 'd) process_state" where
  "pixelpipe_process_on_CPU E pos roi_in roi_out dsc_in input ko dsc s =
     (let (stop, s) = pipe_has_shutdown E s in if stop then (None, s) else
      let cst_from = bd_cst (place_dsc s input);
          profile = (pe_work_profile E \<and> cst_from \<noteq> IOP_CS_RAW);
          cst_to = pe_input_cst E pos;
          (s, input) = transform_input E profile cst_to input s;
          s = (if cst_from \<noteq> cst_to then invalidate_data (place_data E s input) s else s);
          (stop, s) = pipe_has_shutdown E s in if stop then (None, s) else
      let (dsc, s) = run_module E pos roi_in roi_out dsc_in input ko dsc s;
          dsc = dsc\<lparr>bd_cst := pe_output_cst E pos\<rparr>;
          (stop, s) = pipe_has_shutdown E s in if stop then (None, s) else
      let (input, dsc, s) = blend_node E profile pos roi_in roi_out input ko dsc s;
          (stop, s) = pipe_has_shutdown E s in if stop then (None, s) else
      (Some (input, dsc), s))"


section \<open>The recursion\<close>

text \<open>A buffer is requested from the cache; the last component tells whether it is new.\<close>

definition get_buffer :: "('r, 'px, 'd) process_env \<Rightarrow> nat \<Rightarrow> 'r \<Rightarrow> 'd buffer_dsc \<Rightarrow> int \<Rightarrow> bool \<Rightarrow> ('px, 'd) process_state \<Rightarrow>
    ('px, 'd) process_state \<times> nat \<times> bool" where
  "get_buffer E pos roi dsc order important s =
     (let hash = request_hash E pos roi; sz = bufsize E pos roi;
          (pipe, k, fresh) = dt_dev_pixelpipe_cache_get (ps_pipe s) hash sz dsc order important (Some (pe_alloc E (ps_pipe s) hash sz))
      in (s\<lparr>ps_pipe := pipe\<rparr>, k, fresh))"

definition node_order :: "('r, 'px, 'd) process_env \<Rightarrow> nat \<Rightarrow> int" where
  "node_order E pos = (if pos = 0 then 0 else pe_iop_order E pos)"

text \<open>Step 1: the data may still be in the cache. The final node of the preview is always computed.\<close>

definition from_cache :: "('r, 'px, 'd) process_env \<Rightarrow> nat \<Rightarrow> 'r \<Rightarrow> ('px, 'd) process_state \<Rightarrow> nat option \<times> ('px, 'd) process_state" where
  "from_cache E pos roi s =
     (if (pe_preview E \<and> 0 < pos \<and> pe_is_gamma E pos) \<or> mask_display (ps_pipe s) \<or> nocache (ps_pipe s) then (None, s)
      else let (pipe, hit) = dt_dev_pixelpipe_cache_available (ps_pipe s) (request_hash E pos roi) (bufsize E pos roi);
               s1 = s\<lparr>ps_pipe := pipe\<rparr>
           in if hit then let (s2, k, fresh) = get_buffer E pos roi (get_output_format E pos) (node_order E pos) True s1 in (Some k, s2)
              else (None, s1))"

text \<open>Step 3a: the input image as it is, or a part or a scaled copy of it in a buffer of its own.\<close>

definition input_buffer :: "('r, 'px, 'd) process_env \<Rightarrow> 'r \<Rightarrow> ('px, 'd) process_state \<Rightarrow> 'd place \<times> ('px, 'd) process_state" where
  "input_buffer E roi s =
     (if pe_full_roi E roi then (In_Input (pe_input_dsc E), s)
      else let (s1, k, fresh) = get_buffer E 0 roi (pe_input_dsc E) 0 False s
           in (In_Line k, if fresh then write_buffer E (In_Line k) (pe_scale_input E roi (ps_heap s1 (pe_input E))) s1 else s1))"

text \<open>The end of a node that was computed: its descriptor, and the hints to the cache.\<close>

definition finish_node :: "('r, 'px, 'd) process_env \<Rightarrow> nat \<Rightarrow> 'r \<Rightarrow> 'd buffer_dsc \<Rightarrow> 'd place \<Rightarrow> nat \<Rightarrow> 'd buffer_dsc \<Rightarrow>
    ('px, 'd) process_state \<Rightarrow> ('px, 'd) process_state" where
  "finish_node E pos roi_in in_dsc input ko dsc s =
     (let s = (if mask_display (ps_pipe s) then invalidate_data (place_data E s (In_Line ko)) s else s);
          s = set_dsc ko dsc s;
          s = (if pe_input_hint E pos \<and> \<not> mask_display (ps_pipe s)
               then s\<lparr>ps_pipe := dt_dev_pixelpipe_important_cacheline (ps_pipe s) (place_data E s input)
                        (pe_pixels E roi_in * pe_bpp E in_dsc)\<rparr> else s)
      in if pe_inner_histogram E pos
         then invalidate_data (place_data E s (In_Line ko)) (s\<lparr>ps_pipe := (ps_pipe s)\<lparr>nocache := True\<rparr>\<rparr>)
         else s)"

text \<open>Step 3 of a node whose input is at hand: reserve the output, then copy the input or compute.\<close>

definition process_node :: "('r, 'px, 'd) process_env \<Rightarrow> nat \<Rightarrow> 'r \<Rightarrow> 'r \<Rightarrow> bool \<Rightarrow> 'd place \<Rightarrow> ('px, 'd) process_state \<Rightarrow>
    'd place option \<times> ('px, 'd) process_state" where
  "process_node E pos roi_in roi_out same_roi input s =
     (let dsc_in = place_dsc s input;
          dsc_out = pe_output_format E pos dsc_in;
          (stop, s) = pipe_has_shutdown E s in if stop then (None, s) else
      let (s, ko, fresh) = get_buffer E pos roi_out dsc_out (pe_iop_order E pos)
            (\<not> mask_display (ps_pipe s) \<and> pe_important E pos) s;
          (stop, s) = pipe_has_shutdown E s in if stop then (None, s) else
      if \<not> pe_is_gamma E pos \<and> mask_display (ps_pipe s) \<and> \<not> pe_distort E pos \<and> pe_bpp E dsc_in = pe_bpp E dsc_out \<and> same_roi
      then (Some (In_Line ko), write_buffer E (In_Line ko) (content E s input) (set_dsc ko dsc_in s))
      else
      let (stop, s) = pipe_has_shutdown E s in if stop then (None, s) else
      case pixelpipe_process_on_CPU E pos roi_in roi_out dsc_in input ko dsc_out s of
        (None, s) \<Rightarrow> (None, s)
      | (Some (input, dsc), s) \<Rightarrow>
          let s = finish_node E pos roi_in dsc_in input ko dsc s;
              (stop, s) = pipe_has_shutdown E s in if stop then (None, s) else
          let (stop, s) = pipe_has_shutdown E s
          in (if stop then None else Some (In_Line ko), s))"

text \<open>\<open>_dev_pixelpipe_process_rec\<close>: \<open>None\<close> is unfinished work, otherwise the place of the output.\<close>

fun dev_pixelpipe_process_rec :: "('r, 'px, 'd) process_env \<Rightarrow> ('r \<Rightarrow> 'r \<Rightarrow> bool) \<Rightarrow> nat \<Rightarrow> 'r \<Rightarrow> ('px, 'd) process_state \<Rightarrow>
    'd place option \<times> ('px, 'd) process_state" where
  "dev_pixelpipe_process_rec E eq 0 roi s =
     (let (stop, s) = pipe_has_shutdown E s in if stop then (None, s) else
      case from_cache E 0 roi s of
        (Some k, s) \<Rightarrow> (Some (In_Line k), s)
      | (None, s) \<Rightarrow>
          let (early, s) = dev_pixelpipe_early_exit E s in if early then (None, s) else
          let (stop, s) = pipe_has_shutdown E s in if stop then (None, s) else
          (case input_buffer E roi s of (loc, s) \<Rightarrow> (Some loc, s)))"
| "dev_pixelpipe_process_rec E eq (Suc p) roi s =
     (let (stop, s) = pipe_has_shutdown E s in if stop then (None, s) else
      if pe_skip E (Suc p) then dev_pixelpipe_process_rec E eq p roi s else
      case from_cache E (Suc p) roi s of
        (Some k, s) \<Rightarrow> (Some (In_Line k), s)
      | (None, s) \<Rightarrow>
          let (early, s) = dev_pixelpipe_early_exit E s in if early then (None, s) else
          let (stop, s) = pipe_has_shutdown E s in if stop then (None, s) else
          let roi_in = pe_modify_roi_in E (Suc p) roi
          in case dev_pixelpipe_process_rec E eq p roi_in s of
               (None, s) \<Rightarrow> (None, s)
             | (Some input, s) \<Rightarrow> process_node E (Suc p) roi_in roi (eq roi_in roi) input s)"



section \<open>What a request does to the lines\<close>

text \<open>Lines that a request does not hand out keep their buffer and descriptor, and can only lose their hash.\<close>

definition same_line :: "'b cline \<Rightarrow> 'b cline \<Rightarrow> bool" where
  "same_line l' l \<longleftrightarrow> line_data l' = line_data l \<and> line_size l' = line_size l \<and> line_dsc l' = line_dsc l \<and>
     (line_hash l' = line_hash l \<or> line_hash l' = DT_INVALID_HASH)"

lemma same_line_refl [simp]: "same_line l l"
  by (simp add: same_line_def)

lemma same_line_trans: "same_line l' l \<Longrightarrow> same_line l'' l' \<Longrightarrow> same_line l'' l"
  by (auto simp: same_line_def)

lemma get_by_hash_loop_lines:
  assumes "get_by_hash_loop off hash sz ks c = (c', r)" and "\<forall>j\<in>set ks. j < pc_entries c" and "distinct ks"
  shows "same_line (pc_lines c' ! j) (pc_lines c ! j)"
    and "r \<noteq> Some j \<Longrightarrow> line_used (pc_lines c' ! j) = line_used (pc_lines c ! j)"
    and "j \<notin> set ks \<Longrightarrow> pc_lines c' ! j = pc_lines c ! j"
    and "r = Some k \<Longrightarrow> line_hash (pc_lines c' ! k) = hash"
proof -
  have "same_line (pc_lines c' ! j) (pc_lines c ! j) \<and> (r \<noteq> Some j \<longrightarrow> line_used (pc_lines c' ! j) = line_used (pc_lines c ! j)) \<and>
    (j \<notin> set ks \<longrightarrow> pc_lines c' ! j = pc_lines c ! j) \<and> (r = Some k \<longrightarrow> line_hash (pc_lines c' ! k) = hash)" for j
    using assms
  proof (induction ks arbitrary: c)
    case (Cons i ks)
    let ?l = "pc_lines c ! i"
    show ?case
    proof (cases "line_hash ?l = hash")
      case False
      with Cons.prems Cons.IH [of c] show ?thesis by (simp add: Let_def)
    next
      case True
      show ?thesis
      proof (cases "line_size ?l \<noteq> sz \<or> off")
        case False
        with True Cons.prems have "c' = set_line i (?l\<lparr>line_used := - int (pc_entries c)\<rparr>) c" "r = Some i" by (auto simp: Let_def)
        then show ?thesis using Cons.prems(2) True by (auto simp: nth_set_line same_line_def)
      next
        case bad: True
        let ?c = "set_line i (?l\<lparr>line_hash := DT_INVALID_HASH\<rparr>) c"
        have run: "get_by_hash_loop off hash sz ks ?c = (c', r)" using bad True Cons.prems(1) by (auto simp: Let_def)
        have "same_line (pc_lines ?c ! j) (pc_lines c ! j)" "line_used (pc_lines ?c ! j) = line_used (pc_lines c ! j)"
          "j \<noteq> i \<longrightarrow> pc_lines ?c ! j = pc_lines c ! j"
          using Cons.prems(2) by (auto simp: nth_set_line same_line_def)
        moreover have "same_line (pc_lines c' ! j) (pc_lines ?c ! j) \<and> (r \<noteq> Some j \<longrightarrow> line_used (pc_lines c' ! j) = line_used (pc_lines ?c ! j)) \<and>
            (j \<notin> set ks \<longrightarrow> pc_lines c' ! j = pc_lines ?c ! j) \<and> (r = Some k \<longrightarrow> line_hash (pc_lines c' ! k) = hash)"
          using Cons.IH [OF run] Cons.prems(2,3) by simp
        ultimately show ?thesis using same_line_trans [of "pc_lines ?c ! j" "pc_lines c ! j" "pc_lines c' ! j"] by simp
      qed
    qed
  qed simp
  then show "same_line (pc_lines c' ! j) (pc_lines c ! j)"
    "r \<noteq> Some j \<Longrightarrow> line_used (pc_lines c' ! j) = line_used (pc_lines c ! j)"
    "j \<notin> set ks \<Longrightarrow> pc_lines c' ! j = pc_lines c ! j" "r = Some k \<Longrightarrow> line_hash (pc_lines c' ! k) = hash" by blast+
qed

lemma search_lines:
  assumes "cache_search p hash sz = (p1, r)"
  shows "pc_entries (pipe_cache p1) = pc_entries (pipe_cache p)" and "pc_calls (pipe_cache p1) = Suc (pc_calls (pipe_cache p))"
    and "mask_display p1 = mask_display p" and "nocache p1 = nocache p" and "bcache_data p1 = bcache_data p" and "bcache_hash p1 = bcache_hash p"
    and "j < pc_entries (pipe_cache p) \<Longrightarrow> same_line (pc_lines (pipe_cache p1) ! j) (pc_lines (pipe_cache p) ! j)"
    and "j < pc_entries (pipe_cache p) \<Longrightarrow> r \<noteq> Some j \<Longrightarrow>
      line_used (pc_lines (pipe_cache p1) ! j) = line_used (pc_lines (pipe_cache p) ! j) + 1"
    and "r = Some k \<Longrightarrow> 2 \<le> k \<and> k < pc_entries (pipe_cache p) \<and> hash \<noteq> DT_INVALID_HASH \<and> \<not> nocache p \<and>
      line_hash (pc_lines (pipe_cache p) ! k) = hash \<and> line_size (pc_lines (pipe_cache p) ! k) = sz \<and>
      line_hash (pc_lines (pipe_cache p1) ! k) = hash \<and> line_used (pc_lines (pipe_cache p1) ! k) \<le> 0"
proof -
  let ?c = "age_lines (pipe_cache p)" and ?off = "mask_display p \<or> nocache p"
  have calls: "pc_calls ?c = Suc (pc_calls (pipe_cache p))" by (simp add: age_lines_def)
  have aged: "same_line (pc_lines ?c ! j) (pc_lines (pipe_cache p) ! j)" "line_used (pc_lines ?c ! j) = line_used (pc_lines (pipe_cache p) ! j) + 1"
    if "j < pc_entries (pipe_cache p)" for j using that by (simp_all add: age_lines_nth same_line_def)
  have all: "pc_entries (pipe_cache p1) = pc_entries (pipe_cache p) \<and> pc_calls (pipe_cache p1) = Suc (pc_calls (pipe_cache p)) \<and>
    mask_display p1 = mask_display p \<and> nocache p1 = nocache p \<and> bcache_data p1 = bcache_data p \<and> bcache_hash p1 = bcache_hash p \<and>
    (\<forall>j<pc_entries (pipe_cache p). same_line (pc_lines (pipe_cache p1) ! j) (pc_lines (pipe_cache p) ! j) \<and>
      (r \<noteq> Some j \<longrightarrow> line_used (pc_lines (pipe_cache p1) ! j) = line_used (pc_lines (pipe_cache p) ! j) + 1)) \<and>
    (\<forall>k. r = Some k \<longrightarrow> 2 \<le> k \<and> k < pc_entries (pipe_cache p) \<and> hash \<noteq> DT_INVALID_HASH \<and> \<not> nocache p \<and>
      line_hash (pc_lines (pipe_cache p) ! k) = hash \<and> line_size (pc_lines (pipe_cache p) ! k) = sz \<and>
      line_hash (pc_lines (pipe_cache p1) ! k) = hash \<and> line_used (pc_lines (pipe_cache p1) ! k) \<le> 0)"
  proof (cases "2 < pc_entries (pipe_cache p) \<and> hash \<noteq> DT_INVALID_HASH")
    case False
    then have "p1 = p\<lparr>pipe_cache := ?c\<rparr>" "r = None" using assms by (auto simp: cache_search_def Let_def split: if_splits)
    then show ?thesis using aged calls by simp
  next
    case True
    obtain c' where loop: "get_by_hash_loop ?off hash sz [2..<pc_entries ?c] ?c = (c', r)" and p1: "p1 = p\<lparr>pipe_cache := c'\<rparr>"
      using assms True by (auto simp: cache_search_def get_by_hash_def Let_def split: prod.splits)
    note l = get_by_hash_loop_lines [OF loop]
    have sh: "pc_entries c' = pc_entries ?c" "pc_calls c' = pc_calls ?c"
      using get_by_hash_loop_shape [OF loop] by (auto dest: entries_of_shape)
    have hit: "2 \<le> k \<and> k < pc_entries (pipe_cache p) \<and> \<not> nocache p \<and> line_hash (pc_lines (pipe_cache p) ! k) = hash \<and>
        line_size (pc_lines (pipe_cache p) ! k) = sz \<and> line_hash (pc_lines c' ! k) = hash \<and> line_used (pc_lines c' ! k) \<le> 0"
      if "r = Some k" for k
    proof -
      have "get_by_hash_loop ?off hash sz [2..<pc_entries ?c] ?c = (c', Some k)" using loop that by simp
      from get_by_hash_loop_some [OF this] l(4) [OF _ _ that] show ?thesis by (auto simp: age_lines_nth)
    qed
    have "same_line (pc_lines c' ! j) (pc_lines (pipe_cache p) ! j) \<and>
      (r \<noteq> Some j \<longrightarrow> line_used (pc_lines c' ! j) = line_used (pc_lines (pipe_cache p) ! j) + 1)" if "j < pc_entries (pipe_cache p)" for j
      using l(1,2) [of j] aged [OF that] same_line_trans by auto
    then show ?thesis using sh calls True hit by (auto simp: p1)
  qed
  show "pc_entries (pipe_cache p1) = pc_entries (pipe_cache p)" "pc_calls (pipe_cache p1) = Suc (pc_calls (pipe_cache p))"
    "mask_display p1 = mask_display p" "nocache p1 = nocache p" "bcache_data p1 = bcache_data p" "bcache_hash p1 = bcache_hash p"
    using all by blast+
  show "j < pc_entries (pipe_cache p) \<Longrightarrow> same_line (pc_lines (pipe_cache p1) ! j) (pc_lines (pipe_cache p) ! j)"
    "j < pc_entries (pipe_cache p) \<Longrightarrow> r \<noteq> Some j \<Longrightarrow>
      line_used (pc_lines (pipe_cache p1) ! j) = line_used (pc_lines (pipe_cache p) ! j) + 1"
    "r = Some k \<Longrightarrow> 2 \<le> k \<and> k < pc_entries (pipe_cache p) \<and> hash \<noteq> DT_INVALID_HASH \<and> \<not> nocache p \<and>
      line_hash (pc_lines (pipe_cache p) ! k) = hash \<and> line_size (pc_lines (pipe_cache p) ! k) = sz \<and>
      line_hash (pc_lines (pipe_cache p1) ! k) = hash \<and> line_used (pc_lines (pipe_cache p1) ! k) \<le> 0"
    using all by blast+
qed


lemma cacheline_choice:
  assumes "get_cacheline p = (p', k)" and "2 \<le> pc_entries (pipe_cache p)"
  shows "(2 \<le> k \<and> 1 < line_used (pc_lines (pipe_cache p) ! k)) \<or> (k < 2 \<and> k = pc_calls (pipe_cache p) mod 2)"
    and "pc_calls (pipe_cache p') = pc_calls (pipe_cache p)" and "bcache_data p' = bcache_data p" and "bcache_hash p' = bcache_hash p"
proof -
  let ?c = "pipe_cache p"
  have "(2 \<le> get_c_cacheline ?c \<and> 1 < line_used (pc_lines ?c ! get_c_cacheline ?c)) \<or>
      (get_c_cacheline ?c < 2 \<and> get_c_cacheline ?c = pc_calls ?c mod 2)"
    using get_oldest_nonzero [OF refl, of ?c DT_CACHETEST_INVALID] get_oldest_nonzero [OF refl, of ?c DT_CACHETEST_FREE]
      get_oldest_nonzero [OF refl, of ?c DT_CACHETEST_PLAIN]
    by (auto simp: get_c_cacheline_def Let_def candidate_def)
  then show "(2 \<le> k \<and> 1 < line_used (pc_lines ?c ! k)) \<or> (k < 2 \<and> k = pc_calls ?c mod 2)"
    using assms(1) by (auto simp: get_cacheline_def Let_def split: if_splits)
  show "pc_calls (pipe_cache p') = pc_calls ?c" "bcache_data p' = bcache_data p" "bcache_hash p' = bcache_hash p"
    using assms(1) by (auto simp: get_cacheline_def Let_def split: if_splits)
qed

text \<open>Whatever the state of the cache, a line that is safe is not the next one to be handed out for a new buffer.\<close>

definition safe_line :: "'b dt_dev_pixelpipe_t \<Rightarrow> nat \<Rightarrow> bool" where
  "safe_line p k \<longleftrightarrow> (2 \<le> k \<and> line_used (pc_lines (pipe_cache p) ! k) \<le> 0) \<or> (k < 2 \<and> k = pc_calls (pipe_cache p) mod 2)"

definition resized :: "nat \<Rightarrow> nat \<Rightarrow> nat option \<Rightarrow> 'b dt_dev_pixelpipe_cache_t \<Rightarrow> bool" where
  "resized k sz mem c \<longleftrightarrow> line_data (pc_lines (resize_line k sz mem c) ! k) = mem \<or>
     (line_data (pc_lines (resize_line k sz mem c) ! k) = line_data (pc_lines c ! k) \<and> 0 < line_size (pc_lines c ! k))"

lemma resize_line_lines:
  assumes "k < pc_entries c" and "2 \<le> pc_entries c" and "0 < sz"
  shows "j \<noteq> k \<Longrightarrow> pc_lines (resize_line k sz mem c) ! j = pc_lines c ! j" and "resized k sz mem c"
    and "pc_calls (resize_line k sz mem c) = pc_calls c"
  using assms by (auto simp: resized_def resize_line_def Let_def set_line_def nth_list_update)

lemma fill_lines:
  assumes "cache_fill p hash sz dsc order important mem = (q, k)" and "2 \<le> pc_entries (pipe_cache p)" and "\<not> mask_display p" and "0 < sz"
  shows "k < pc_entries (pipe_cache p)" and "pc_entries (pipe_cache q) = pc_entries (pipe_cache p)"
    and "pc_calls (pipe_cache q) = pc_calls (pipe_cache p)" and "mask_display q = mask_display p" and "nocache q = nocache p"
    and "bcache_data q = bcache_data p" and "bcache_hash q = bcache_hash p"
    and "j \<noteq> k \<Longrightarrow> pc_lines (pipe_cache q) ! j = pc_lines (pipe_cache p) ! j"
    and "line_dsc (pc_lines (pipe_cache q) ! k) = dsc" and "line_hash (pc_lines (pipe_cache q) ! k) = hash"
    and "line_used (pc_lines (pipe_cache q) ! k) \<le> 0"
    and "line_data (pc_lines (pipe_cache q) ! k) = mem \<or>
      (line_data (pc_lines (pipe_cache q) ! k) = line_data (pc_lines (pipe_cache p) ! k) \<and> 0 < line_size (pc_lines (pipe_cache p) ! k))"
    and "(2 \<le> k \<and> 1 < line_used (pc_lines (pipe_cache p) ! k)) \<or> (k < 2 \<and> k = pc_calls (pipe_cache p) mod 2)"
proof -
  obtain p1 k1 where g: "get_cacheline p = (p1, k1)" by (cases "get_cacheline p")
  note f = get_cacheline_frame [OF g assms(2)] and ch = cacheline_choice [OF g assms(2)]
  let ?c = "resize_line k1 sz mem (pipe_cache p1)"
  let ?l = "(pc_lines ?c ! k1)\<lparr>line_dsc := dsc, line_hash := hash, line_used := (if important then - int (pc_entries ?c) else 0), line_ioporder := order\<rparr>"
  have md: "mask_display p1 = False" using f assms(3) by simp
  have eq: "q = p1\<lparr>pipe_cache := set_line k1 ?l ?c\<rparr>" "k = k1"
    using assms(1) by (auto simp: cache_fill_def g Let_def md)
  have e: "pc_entries (pipe_cache p1) = pc_entries (pipe_cache p)" using f by simp
  have k1: "k1 < pc_entries ?c" using f e by simp
  have two: "k1 < pc_entries (pipe_cache p1)" "2 \<le> pc_entries (pipe_cache p1)" using f e assms(2) by simp_all
  note r = resize_line_lines [OF two assms(4)]
  have nth: "pc_lines (pipe_cache q) ! i = (if i = k1 then ?l else pc_lines ?c ! i)" for i using nth_set_line [OF k1] by (simp add: eq)
  show "k < pc_entries (pipe_cache p)" "pc_entries (pipe_cache q) = pc_entries (pipe_cache p)" using f e by (simp_all add: eq)
  show "pc_calls (pipe_cache q) = pc_calls (pipe_cache p)" using r(3) ch(2) by (simp add: eq)
  show "mask_display q = mask_display p" "nocache q = nocache p" "bcache_data q = bcache_data p" "bcache_hash q = bcache_hash p"
    using f ch by (simp_all add: eq)
  show "j \<noteq> k \<Longrightarrow> pc_lines (pipe_cache q) ! j = pc_lines (pipe_cache p) ! j" using nth r(1) f by (simp add: eq(2))
  show "line_dsc (pc_lines (pipe_cache q) ! k) = dsc" "line_hash (pc_lines (pipe_cache q) ! k) = hash"
    "line_used (pc_lines (pipe_cache q) ! k) \<le> 0" by (simp_all add: nth eq(2))
  show "line_data (pc_lines (pipe_cache q) ! k) = mem \<or>
      (line_data (pc_lines (pipe_cache q) ! k) = line_data (pc_lines (pipe_cache p) ! k) \<and> 0 < line_size (pc_lines (pipe_cache p) ! k))"
    using r(2) [unfolded resized_def] f by (simp add: nth eq(2))
  show "(2 \<le> k \<and> 1 < line_used (pc_lines (pipe_cache p) ! k)) \<or> (k < 2 \<and> k = pc_calls (pipe_cache p) mod 2)"
    using ch(1) by (simp add: eq(2))
qed


lemma get_lines:
  assumes get: "dt_dev_pixelpipe_cache_get p hash sz dsc order important mem = (q, k, fresh)"
    and ok: "pc_ok (pipe_cache p)" and mask: "\<not> mask_display p" and mem: "mem \<noteq> None" and sz: "0 < sz"
  shows "k < pc_entries (pipe_cache p)" and "pc_entries (pipe_cache q) = pc_entries (pipe_cache p)"
    and "mask_display q = mask_display p" and "nocache q = nocache p" and "bcache_data q = bcache_data p" and "bcache_hash q = bcache_hash p"
    and "j < pc_entries (pipe_cache p) \<Longrightarrow> j \<noteq> k \<Longrightarrow> same_line (pc_lines (pipe_cache q) ! j) (pc_lines (pipe_cache p) ! j)"
    and "safe_line q k" and "line_hash (pc_lines (pipe_cache q) ! k) = hash" and "line_data (pc_lines (pipe_cache q) ! k) \<noteq> None"
    and "fresh \<Longrightarrow> line_dsc (pc_lines (pipe_cache q) ! k) = dsc"
    and "fresh \<Longrightarrow> line_data (pc_lines (pipe_cache q) ! k) \<in> {mem, line_data (pc_lines (pipe_cache p) ! k)}"
    and "\<not> fresh \<Longrightarrow> 2 \<le> k \<and> hash \<noteq> DT_INVALID_HASH \<and> line_hash (pc_lines (pipe_cache p) ! k) = hash \<and>
      line_size (pc_lines (pipe_cache p) ! k) = sz \<and> same_line (pc_lines (pipe_cache q) ! k) (pc_lines (pipe_cache p) ! k)"
    and "safe_line p j \<Longrightarrow> j < pc_entries (pipe_cache p) \<Longrightarrow> line_hash (pc_lines (pipe_cache p) ! j) \<noteq> hash \<or> hash = DT_INVALID_HASH \<Longrightarrow> k \<noteq> j"
proof -
  obtain p1 r where se: "cache_search p hash sz = (p1, r)" by (cases "cache_search p hash sz")
  note l = search_lines [OF se]
  have two: "2 \<le> pc_entries (pipe_cache p)" and nodata: "\<And>j. j < pc_entries (pipe_cache p) \<Longrightarrow>
      0 < line_size (pc_lines (pipe_cache p) ! j) \<Longrightarrow> line_data (pc_lines (pipe_cache p) ! j) \<noteq> None"
    using ok by (auto simp: pc_ok_def shape_ok_def)
  have "k < pc_entries (pipe_cache p) \<and> pc_entries (pipe_cache q) = pc_entries (pipe_cache p) \<and>
     mask_display q = mask_display p \<and> nocache q = nocache p \<and> bcache_data q = bcache_data p \<and> bcache_hash q = bcache_hash p \<and>
     (\<forall>j<pc_entries (pipe_cache p). j \<noteq> k \<longrightarrow> same_line (pc_lines (pipe_cache q) ! j) (pc_lines (pipe_cache p) ! j)) \<and>
     safe_line q k \<and> line_hash (pc_lines (pipe_cache q) ! k) = hash \<and> line_data (pc_lines (pipe_cache q) ! k) \<noteq> None \<and>
     (if fresh then line_dsc (pc_lines (pipe_cache q) ! k) = dsc \<and>
          line_data (pc_lines (pipe_cache q) ! k) \<in> {mem, line_data (pc_lines (pipe_cache p) ! k)} \<and>
          ((2 \<le> k \<and> 0 < line_used (pc_lines (pipe_cache p) ! k)) \<or> (k < 2 \<and> k = Suc (pc_calls (pipe_cache p)) mod 2))
      else 2 \<le> k \<and> hash \<noteq> DT_INVALID_HASH \<and> line_hash (pc_lines (pipe_cache p) ! k) = hash \<and>
        line_size (pc_lines (pipe_cache p) ! k) = sz \<and> same_line (pc_lines (pipe_cache q) ! k) (pc_lines (pipe_cache p) ! k))"
  proof (cases r)
    case (Some i)
    with get se have eq: "q = p1" "k = i" "\<not> fresh" by (auto simp: dt_dev_pixelpipe_cache_get_def)
    note h = l(9) [OF Some]
    have "line_data (pc_lines (pipe_cache p1) ! i) = line_data (pc_lines (pipe_cache p) ! i)" using l(7) [of i] h by (simp add: same_line_def)
    then show ?thesis using h l(1-7) nodata [of i] sz by (simp add: eq safe_line_def)
  next
    case None
    obtain p2 i where fi: "cache_fill p1 hash sz dsc order important mem = (p2, i)" by (cases "cache_fill p1 hash sz dsc order important mem")
    have eq: "q = p2" "k = i" "fresh" using get se None fi by (auto simp: dt_dev_pixelpipe_cache_get_def)
    have two1: "2 \<le> pc_entries (pipe_cache p1)" and mask1: "\<not> mask_display p1" using two mask l(1,3) by simp_all
    note f = fill_lines [OF fi two1 mask1 sz]
    have i: "i < pc_entries (pipe_cache p)" using f(1) l(1) by simp
    have sm: "same_line (pc_lines (pipe_cache p1) ! i) (pc_lines (pipe_cache p) ! i)"
      and us: "line_used (pc_lines (pipe_cache p1) ! i) = line_used (pc_lines (pipe_cache p) ! i) + 1" using l(7,8) [OF i] None by simp_all
    have "line_data (pc_lines (pipe_cache p2) ! i) \<noteq> None \<and> line_data (pc_lines (pipe_cache p2) ! i) \<in> {mem, line_data (pc_lines (pipe_cache p) ! i)}"
      using f(12) mem nodata [OF i] sm by (auto simp: same_line_def)
    moreover have "(2 \<le> i \<and> 0 < line_used (pc_lines (pipe_cache p) ! i)) \<or> (i < 2 \<and> i = Suc (pc_calls (pipe_cache p)) mod 2)"
      using f(13) l(2) us by auto
    moreover have "safe_line p2 i" using f(11,13,3) unfolding safe_line_def by auto
    moreover have "\<forall>j<pc_entries (pipe_cache p). j \<noteq> i \<longrightarrow> same_line (pc_lines (pipe_cache p2) ! j) (pc_lines (pipe_cache p) ! j)"
      using f(8) l(7) by simp
    ultimately show ?thesis using f(2-7,9,10) l(1,3-6) i by (simp add: eq)
  qed
  note all = this
  then show "k < pc_entries (pipe_cache p)" "pc_entries (pipe_cache q) = pc_entries (pipe_cache p)"
    "mask_display q = mask_display p" "nocache q = nocache p" "bcache_data q = bcache_data p" "bcache_hash q = bcache_hash p"
    "j < pc_entries (pipe_cache p) \<Longrightarrow> j \<noteq> k \<Longrightarrow> same_line (pc_lines (pipe_cache q) ! j) (pc_lines (pipe_cache p) ! j)"
    "safe_line q k" "line_hash (pc_lines (pipe_cache q) ! k) = hash" "line_data (pc_lines (pipe_cache q) ! k) \<noteq> None"
    "fresh \<Longrightarrow> line_dsc (pc_lines (pipe_cache q) ! k) = dsc"
    "fresh \<Longrightarrow> line_data (pc_lines (pipe_cache q) ! k) \<in> {mem, line_data (pc_lines (pipe_cache p) ! k)}"
    "\<not> fresh \<Longrightarrow> 2 \<le> k \<and> hash \<noteq> DT_INVALID_HASH \<and> line_hash (pc_lines (pipe_cache p) ! k) = hash \<and>
      line_size (pc_lines (pipe_cache p) ! k) = sz \<and> same_line (pc_lines (pipe_cache q) ! k) (pc_lines (pipe_cache p) ! k)"
    by simp_all
  assume j: "safe_line p j" "line_hash (pc_lines (pipe_cache p) ! j) \<noteq> hash \<or> hash = DT_INVALID_HASH"
  show "k \<noteq> j"
  proof
    assume "k = j"
    show False
    proof (cases fresh)
      case True
      with all have "(2 \<le> k \<and> 0 < line_used (pc_lines (pipe_cache p) ! k)) \<or> (k < 2 \<and> k = Suc (pc_calls (pipe_cache p)) mod 2)" by simp
      then show False using j(1) \<open>k = j\<close> unfolding safe_line_def by (auto simp: mod_Suc split: if_splits)
    next
      case False
      with all j(2) \<open>k = j\<close> show False by simp
    qed
  qed
qed



section \<open>What a pipe computes, without a cache\<close>

text \<open>
  The value of a node is its pixels and their description. A node converts its input to the colour space it wants, computes, and
  blends the result with that input.
\<close>

definition node_input :: "('r, 'px, 'd) process_env \<Rightarrow> nat \<Rightarrow> 'px \<times> 'd buffer_dsc \<Rightarrow> 'px \<times> int" where
  "node_input E pos v = dt_ioppr_transform_image_colorspace E (pe_work_profile E \<and> bd_cst (snd v) \<noteq> IOP_CS_RAW)
     (bd_cst (snd v)) (pe_input_cst E pos) (fst v)"

definition unblended :: "('r, 'px, 'd) process_env \<Rightarrow> nat \<Rightarrow> 'r \<Rightarrow> 'r \<Rightarrow> 'px \<times> 'd buffer_dsc \<Rightarrow> 'px \<times> 'd buffer_dsc" where
  "unblended E pos roi_in roi_out v =
     pe_process E pos roi_in roi_out (snd v) (pe_output_format E pos (snd v)) (fst (node_input E pos v))"

definition node_value :: "('r, 'px, 'd) process_env \<Rightarrow> nat \<Rightarrow> 'r \<Rightarrow> 'r \<Rightarrow> 'px \<times> 'd buffer_dsc \<Rightarrow> 'px \<times> 'd buffer_dsc" where
  "node_value E pos roi_in roi_out v =
     (let (y, dsc) = unblended E pos roi_in roi_out v;
          cst = pe_output_cst E pos;
          (z, c) = (if pe_transform_for_blend E pos
                    then dt_ioppr_transform_image_colorspace E (pe_work_profile E \<and> bd_cst (snd v) \<noteq> IOP_CS_RAW) cst (pe_blend_cst E pos cst) y
                    else (y, cst))
      in (if pe_wants_blending E pos then pe_blend E pos roi_in roi_out (fst (node_input E pos v)) z else z, dsc\<lparr>bd_cst := c\<rparr>))"

fun direct :: "('r, 'px, 'd) process_env \<Rightarrow> 'px \<Rightarrow> nat \<Rightarrow> 'r \<Rightarrow> 'px \<times> 'd buffer_dsc" where
  "direct E x0 0 roi = (if pe_full_roi E roi then x0 else pe_scale_input E roi x0, pe_input_dsc E)"
| "direct E x0 (Suc p) roi =
     (if pe_skip E (Suc p) then direct E x0 p roi
      else node_value E (Suc p) (pe_modify_roi_in E (Suc p) roi) roi (direct E x0 p (pe_modify_roi_in E (Suc p) roi)))"

text \<open>The requests a run makes of the cache, last node first.\<close>

fun requests :: "('r, 'px, 'd) process_env \<Rightarrow> nat \<Rightarrow> 'r \<Rightarrow> (nat \<times> 'r) list" where
  "requests E 0 roi = [(0, roi)]"
| "requests E (Suc p) roi =
     (if pe_skip E (Suc p) then requests E p roi else (Suc p, roi) # requests E p (pe_modify_roi_in E (Suc p) roi))"

definition before_blend :: "('r, 'px, 'd) process_env \<Rightarrow> 'px \<Rightarrow> nat \<Rightarrow> 'r \<Rightarrow> 'px" where
  "before_blend E x0 pos roi =
     fst (unblended E pos (pe_modify_roi_in E pos roi) roi (direct E x0 (pos - 1) (pe_modify_roi_in E pos roi)))"

abbreviation nlines :: "('px, 'd) process_state \<Rightarrow> nat" where
  "nlines s \<equiv> pc_entries (pipe_cache (ps_pipe s))"

definition line_value :: "('px, 'd) process_state \<Rightarrow> nat \<Rightarrow> 'px \<times> 'd buffer_dsc" where
  "line_value s k = (ps_heap s (the (line_data (the_line s k))), line_dsc (the_line s k))"

text \<open>
  A cache is coherent for a set of requests when each of its lines and its blend cache hold what they would be used for; the lines of
  \<open>X\<close> are exempt.
\<close>

definition lines_coherent :: "('r, 'px, 'd) process_env \<Rightarrow> (nat \<times> 'r) set \<Rightarrow> 'px \<Rightarrow> nat set \<Rightarrow> ('px, 'd) process_state \<Rightarrow> bool" where
  "lines_coherent E Q x0 X s \<longleftrightarrow>
     (\<forall>k pos roi. 2 \<le> k \<longrightarrow> k < nlines s \<longrightarrow> k \<notin> X \<longrightarrow> (pos, roi) \<in> Q \<longrightarrow> line_hash (the_line s k) \<noteq> DT_INVALID_HASH \<longrightarrow>
        line_data (the_line s k) \<noteq> None \<longrightarrow> line_hash (the_line s k) = request_hash E pos roi \<longrightarrow> line_size (the_line s k) = bufsize E pos roi \<longrightarrow>
        line_value s k = direct E x0 pos roi)"

definition blend_coherent :: "('r, 'px, 'd) process_env \<Rightarrow> (nat \<times> 'r) set \<Rightarrow> 'px \<Rightarrow> ('px, 'd) process_state \<Rightarrow> bool" where
  "blend_coherent E Q x0 s \<longleftrightarrow>
     (\<forall>pos roi. (pos, roi) \<in> Q \<longrightarrow> pe_fast_blend E pos \<longrightarrow> bcache_data (ps_pipe s) \<noteq> None \<longrightarrow>
        bcache_hash (ps_pipe s) \<noteq> DT_INVALID_HASH \<longrightarrow> bcache_hash (ps_pipe s) = piece_process_hash E pos roi \<longrightarrow>
        ps_blend_cache s = before_blend E x0 pos roi)"

definition buffers_ok :: "('r, 'px, 'd) process_env \<Rightarrow> 'px \<Rightarrow> ('px, 'd) process_state \<Rightarrow> bool" where
  "buffers_ok E x0 s \<longleftrightarrow> pc_ok (pipe_cache (ps_pipe s)) \<and> \<not> mask_display (ps_pipe s) \<and> ps_heap s (pe_input E) = x0 \<and>
     (\<forall>k<nlines s. line_data (the_line s k) \<noteq> Some (pe_input E))"

definition coherent :: "('r, 'px, 'd) process_env \<Rightarrow> (nat \<times> 'r) set \<Rightarrow> 'px \<Rightarrow> nat set \<Rightarrow> ('px, 'd) process_state \<Rightarrow> bool" where
  "coherent E Q x0 X s \<longleftrightarrow> buffers_ok E x0 s \<and> lines_coherent E Q x0 X s \<and> blend_coherent E Q x0 s"

text \<open>
  What is asked of the pipe: nothing stops it and no module or blending displays a mask; the input is not converted in place (it is raw, or there
  is no working profile); a module that converts for blending blends in its own colour space; a module that uses the blend cache leaves
  \<open>pipe->dsc\<close> as it finds it; buffers have a size, and memory that is allocated is not in use; the hashes of different requests differ.
\<close>

definition sound_env :: "('r, 'px, 'd) process_env \<Rightarrow> (nat \<times> 'r) set \<Rightarrow> bool" where
  "sound_env E Q \<longleftrightarrow>
     (\<forall>t. \<not> pe_stop E t \<and> \<not> pe_early E t) \<and> (\<forall>pos. \<not> pe_masks E pos \<and> \<not> pe_blend_masks E pos) \<and>
     (\<forall>pos roi_in roi_out dsc_in dsc x. pe_fast_blend E pos \<longrightarrow> snd (pe_process E pos roi_in roi_out dsc_in dsc x) = dsc) \<and>
     (bd_cst (pe_input_dsc E) = IOP_CS_RAW \<or> \<not> pe_work_profile E) \<and>
     (\<forall>pos. pe_transform_for_blend E pos \<longrightarrow> pe_blend_cst E pos (pe_output_cst E pos) = pe_input_cst E pos) \<and>
     (\<forall>p hash sz. pe_alloc E p hash sz \<noteq> pe_input E \<and> fresh_buffer (Some (pe_alloc E p hash sz)) (fill_line p hash sz) (pipe_cache p)) \<and>
     (\<forall>(pos, roi)\<in>Q. 0 < bufsize E pos roi) \<and>
     inj_on (\<lambda>(pos, roi). request_hash E pos roi) Q \<and>
     inj_on (\<lambda>(pos, roi). piece_process_hash E pos roi) {(pos, roi). (pos, roi) \<in> Q \<and> pe_fast_blend E pos}"


section \<open>Steps of a run keep the cache coherent\<close>

lemma transform_same:
  "dt_ioppr_transform_image_colorspace E profile c c x = (x, c)"
  "dt_ioppr_transform_image_colorspace E False c d x = (x, c)"
  by (simp_all add: dt_ioppr_transform_image_colorspace_def)

text \<open>Converting twice to the same space is converting once.\<close>

lemma transform_twice:
  assumes "dt_ioppr_transform_image_colorspace E profile c d x = (y, e)"
  shows "dt_ioppr_transform_image_colorspace E profile e d y = (y, e)"
  using assms by (auto simp: dt_ioppr_transform_image_colorspace_def split: if_splits option.splits)

lemma the_line_simps [simp]:
  "the_line (s\<lparr>ps_heap := h\<rparr>) k = the_line s k" "the_line (s\<lparr>ps_ticks := t\<rparr>) k = the_line s k"
  "the_line (s\<lparr>ps_blend_cache := b\<rparr>) k = the_line s k"
  "the_line (s\<lparr>ps_pipe := (ps_pipe s)\<lparr>mask_display := m\<rparr>\<rparr>) k = the_line s k"
  "the_line (s\<lparr>ps_pipe := (ps_pipe s)\<lparr>nocache := n\<rparr>\<rparr>) k = the_line s k"
  "the_line (s\<lparr>ps_pipe := (ps_pipe s)\<lparr>bcache_hash := a\<rparr>\<rparr>) k = the_line s k"
  by (simp_all add: the_line_def)

lemma write_buffer_simps [simp]:
  "ps_pipe (write_buffer E loc x s) = ps_pipe s" "ps_blend_cache (write_buffer E loc x s) = ps_blend_cache s"
  "ps_ticks (write_buffer E loc x s) = ps_ticks s" "the_line (write_buffer E loc x s) k = the_line s k"
  "ps_heap (write_buffer E loc x s) = (ps_heap s)(the (place_data E s loc) := x)"
  "place_data E' (write_buffer E loc x s) l = place_data E' s l"
  by (simp_all add: write_buffer_def the_line_def place_data_def split: place.split)

lemma set_dsc_simps [simp]:
  "ps_heap (set_dsc k d s) = ps_heap s" "ps_blend_cache (set_dsc k d s) = ps_blend_cache s" "ps_ticks (set_dsc k d s) = ps_ticks s"
  "mask_display (ps_pipe (set_dsc k d s)) = mask_display (ps_pipe s)" "nocache (ps_pipe (set_dsc k d s)) = nocache (ps_pipe s)"
  "bcache_data (ps_pipe (set_dsc k d s)) = bcache_data (ps_pipe s)" "bcache_hash (ps_pipe (set_dsc k d s)) = bcache_hash (ps_pipe s)"
  "nlines (set_dsc k d s) = nlines s"
  by (simp_all add: set_dsc_def upd_cache_def)

lemma the_line_set_dsc:
  "k < nlines s \<Longrightarrow> the_line (set_dsc k d s) j = (if j = k then (the_line s k)\<lparr>line_dsc := d\<rparr> else the_line s j)"
  by (simp add: set_dsc_def upd_cache_def the_line_def nth_set_line)

lemma set_dsc_same: "k < nlines s \<Longrightarrow> line_dsc (the_line s k) = d \<Longrightarrow> set_dsc k d s = s"
  by (auto simp: set_dsc_def upd_cache_def set_line_def the_line_def list_update_same_conv)

lemma invalidate_data_simps [simp]:
  "ps_heap (invalidate_data m s) = ps_heap s" "ps_blend_cache (invalidate_data m s) = ps_blend_cache s" "ps_ticks (invalidate_data m s) = ps_ticks s"
  "mask_display (ps_pipe (invalidate_data m s)) = mask_display (ps_pipe s)" "nocache (ps_pipe (invalidate_data m s)) = nocache (ps_pipe s)"
  "bcache_data (ps_pipe (invalidate_data m s)) = bcache_data (ps_pipe s)" "bcache_hash (ps_pipe (invalidate_data m s)) = bcache_hash (ps_pipe s)"
  "nlines (invalidate_data m s) = nlines s"
  by (simp_all add: invalidate_data_def dt_dev_pixelpipe_invalidate_cacheline_def)

lemma the_line_invalidate:
  "k < nlines s \<Longrightarrow> the_line (invalidate_data m s) k =
    (if 2 \<le> k \<and> line_data (the_line s k) = m then mark_invalid_cacheline (the_line s k) else the_line s k)"
  by (simp add: invalidate_data_def dt_dev_pixelpipe_invalidate_cacheline_def the_line_def nth_map_clines)

lemma mark_invalid_simps [simp]:
  "line_data (mark_invalid_cacheline l) = line_data l" "line_size (mark_invalid_cacheline l) = line_size l"
  "line_dsc (mark_invalid_cacheline l) = line_dsc l" "line_hash (mark_invalid_cacheline l) = DT_INVALID_HASH"
  "line_used (mark_invalid_cacheline l) = line_used l"
  by (simp_all add: mark_invalid_cacheline_def)

text \<open>Buffers of different lines differ.\<close>

lemma lines_apart:
  assumes "buffers_ok E x0 s" and "j < nlines s" and "k < nlines s" and "j \<noteq> k" and "line_data (the_line s k) \<noteq> None"
  shows "line_data (the_line s j) \<noteq> line_data (the_line s k)"
  using assms unfolding buffers_ok_def pc_ok_def shape_ok_def the_line_def by (simp del: not_None_eq) metis


lemma buffers_ok_lines:
  assumes "buffers_ok E x0 s" and "pc_ok (pipe_cache (ps_pipe s'))" and "mask_display (ps_pipe s') = mask_display (ps_pipe s)"
    and "nlines s' = nlines s" and "\<forall>k<nlines s. line_data (the_line s' k) = line_data (the_line s k)"
    and "ps_heap s' (pe_input E) = ps_heap s (pe_input E)"
  shows "buffers_ok E x0 s'"
  using assms by (auto simp: buffers_ok_def)

lemma buffers_ok_set_dsc:
  assumes "buffers_ok E x0 s" and "k < nlines s"
  shows "buffers_ok E x0 (set_dsc k d s)"
proof (rule buffers_ok_lines [OF assms(1)])
  show "pc_ok (pipe_cache (ps_pipe (set_dsc k d s)))" using assms
    by (auto simp: set_dsc_def upd_cache_def the_line_def buffers_ok_def intro!: set_line_same_buffer_ok)
qed (use assms(2) in \<open>simp_all add: the_line_set_dsc\<close>)

lemma buffers_ok_invalidate:
  assumes "buffers_ok E x0 s"
  shows "buffers_ok E x0 (invalidate_data m s)"
proof (rule buffers_ok_lines [OF assms])
  show "pc_ok (pipe_cache (ps_pipe (invalidate_data m s)))" using assms by (simp add: invalidate_data_def buffers_ok_def invalidate_line.op_ok)
qed (simp_all add: the_line_invalidate)

definition mark_important :: "nat option \<Rightarrow> nat \<Rightarrow> ('px, 'd) process_state \<Rightarrow> ('px, 'd) process_state" where
  "mark_important m sz s = s\<lparr>ps_pipe := dt_dev_pixelpipe_important_cacheline (ps_pipe s) m sz\<rparr>"

lemma mark_important_simps [simp]:
  "ps_heap (mark_important m sz s) = ps_heap s" "ps_blend_cache (mark_important m sz s) = ps_blend_cache s"
  "mask_display (ps_pipe (mark_important m sz s)) = mask_display (ps_pipe s)"
  "bcache_data (ps_pipe (mark_important m sz s)) = bcache_data (ps_pipe s)" "bcache_hash (ps_pipe (mark_important m sz s)) = bcache_hash (ps_pipe s)"
  "nlines (mark_important m sz s) = nlines s"
  by (simp_all add: mark_important_def dt_dev_pixelpipe_important_cacheline_def)

lemma the_line_important:
  "k < nlines s \<Longrightarrow> the_line (mark_important m sz s) k =
    (if 2 \<le> k \<and> line_data (the_line s k) = m \<and> sz = line_size (the_line s k) \<and> line_hash (the_line s k) \<noteq> DT_INVALID_HASH
     then (the_line s k)\<lparr>line_used := - int (nlines s)\<rparr> else the_line s k)"
  by (auto simp: mark_important_def dt_dev_pixelpipe_important_cacheline_def the_line_def nth_map_clines)

lemma buffers_ok_important:
  assumes "buffers_ok E x0 s"
  shows "buffers_ok E x0 (mark_important m sz s)"
proof (rule buffers_ok_lines [OF assms])
  show "pc_ok (pipe_cache (ps_pipe (mark_important m sz s)))" using assms by (simp add: mark_important_def buffers_ok_def important_line.op_ok)
qed (simp_all add: the_line_important)

lemma buffers_ok_write:
  "buffers_ok E x0 s \<Longrightarrow> k < nlines s \<Longrightarrow> line_data (the_line s k) \<noteq> None \<Longrightarrow> buffers_ok E x0 (write_buffer E (In_Line k) y s)"
  by (auto simp: buffers_ok_def place_data_def)

lemma lines_coherentD:
  "lines_coherent E Q x0 X s \<Longrightarrow> 2 \<le> k \<Longrightarrow> k < nlines s \<Longrightarrow> k \<notin> X \<Longrightarrow> (pos, roi) \<in> Q \<Longrightarrow> line_hash (the_line s k) \<noteq> DT_INVALID_HASH \<Longrightarrow>
    line_data (the_line s k) \<noteq> None \<Longrightarrow> line_hash (the_line s k) = request_hash E pos roi \<Longrightarrow>
    line_size (the_line s k) = bufsize E pos roi \<Longrightarrow> line_value s k = direct E x0 pos roi"
  unfolding lines_coherent_def by blast

text \<open>A line that is not exempt keeps its value or loses its hash.\<close>

definition line_kept :: "('px, 'd) process_state \<Rightarrow> ('px, 'd) process_state \<Rightarrow> nat \<Rightarrow> bool" where
  "line_kept s s' k \<longleftrightarrow> line_hash (the_line s' k) = DT_INVALID_HASH \<or> line_data (the_line s' k) = None \<or>
     (line_hash (the_line s' k) = line_hash (the_line s k) \<and> line_size (the_line s' k) = line_size (the_line s k) \<and>
      line_data (the_line s' k) = line_data (the_line s k) \<and> line_value s' k = line_value s k)"

lemma lines_coherent_kept:
  assumes "lines_coherent E Q x0 X s" and "nlines s' = nlines s"
    and "\<And>k. 2 \<le> k \<Longrightarrow> k < nlines s \<Longrightarrow> k \<notin> Y \<Longrightarrow> k \<notin> X \<and> line_kept s s' k"
  shows "lines_coherent E Q x0 Y s'"
  unfolding lines_coherent_def
proof (intro allI impI)
  fix k pos roi
  assume k: "2 \<le> k" "k < nlines s'" "k \<notin> Y" and q: "(pos, roi) \<in> Q" and h: "line_hash (the_line s' k) \<noteq> DT_INVALID_HASH"
    "line_data (the_line s' k) \<noteq> None" "line_hash (the_line s' k) = request_hash E pos roi" "line_size (the_line s' k) = bufsize E pos roi"
  have kept: "k \<notin> X" "line_kept s s' k" using assms(2,3) k by simp_all
  with h(1,2) have e: "line_hash (the_line s' k) = line_hash (the_line s k)" "line_size (the_line s' k) = line_size (the_line s k)"
    "line_data (the_line s' k) = line_data (the_line s k)" "line_value s' k = line_value s k" by (auto simp: line_kept_def)
  with lines_coherentD [OF assms(1) k(1) _ kept(1) q] k(2) h assms(2) show "line_value s' k = direct E x0 pos roi" by (simp del: not_None_eq)
qed

lemma coherent_parts: "coherent E Q x0 X s \<Longrightarrow> buffers_ok E x0 s" "coherent E Q x0 X s \<Longrightarrow> lines_coherent E Q x0 X s"
  "coherent E Q x0 X s \<Longrightarrow> blend_coherent E Q x0 s"
  by (simp_all add: coherent_def)

lemma coherent_write:
  assumes "coherent E Q x0 X s" and "k \<in> X" and "k < nlines s" and "line_data (the_line s k) \<noteq> None"
  shows "coherent E Q x0 X (write_buffer E (In_Line k) y s)"
proof -
  note c = coherent_parts [OF assms(1)]
  have "lines_coherent E Q x0 X (write_buffer E (In_Line k) y s)"
  proof (rule lines_coherent_kept [OF c(2)])
    fix j assume j: "2 \<le> j" "j < nlines s" "j \<notin> X"
    then have "line_data (the_line s j) \<noteq> line_data (the_line s k)" using lines_apart [OF c(1) j(2) assms(3) _ assms(4)] assms(2) by blast
    then show "j \<notin> X \<and> line_kept s (write_buffer E (In_Line k) y s) j"
      using assms(4) j(3) by (cases "line_data (the_line s j)") (auto simp: line_kept_def line_value_def place_data_def)
  qed simp
  then show ?thesis using c(3) buffers_ok_write [OF c(1) assms(3,4)] by (simp add: coherent_def blend_coherent_def)
qed

lemma coherent_set_dsc:
  assumes "coherent E Q x0 X s" and "k \<in> X" and "k < nlines s"
  shows "coherent E Q x0 X (set_dsc k d s)"
proof -
  note c = coherent_parts [OF assms(1)]
  have "lines_coherent E Q x0 X (set_dsc k d s)"
    by (rule lines_coherent_kept [OF c(2)]) (use assms(2,3) in \<open>auto simp: line_kept_def line_value_def the_line_set_dsc\<close>)
  then show ?thesis using c(3) buffers_ok_set_dsc [OF c(1) assms(3)] by (simp add: coherent_def blend_coherent_def)
qed

lemma coherent_invalidate:
  assumes "coherent E Q x0 X s"
  shows "coherent E Q x0 X (invalidate_data m s)"
proof -
  note c = coherent_parts [OF assms(1)]
  have "lines_coherent E Q x0 X (invalidate_data m s)"
    by (rule lines_coherent_kept [OF c(2)]) (auto simp: line_kept_def line_value_def the_line_invalidate)
  then show ?thesis using c(3) buffers_ok_invalidate [OF c(1)] by (simp add: coherent_def blend_coherent_def)
qed

lemma coherent_important:
  assumes "coherent E Q x0 X s"
  shows "coherent E Q x0 X (mark_important m sz s)"
proof -
  note c = coherent_parts [OF assms(1)]
  have "lines_coherent E Q x0 X (mark_important m sz s)"
    by (rule lines_coherent_kept [OF c(2)]) (auto simp: line_kept_def line_value_def the_line_important)
  then show ?thesis using c(3) buffers_ok_important [OF c(1)] by (simp add: coherent_def blend_coherent_def)
qed

lemma coherent_ticks [simp]: "coherent E Q x0 X (s\<lparr>ps_ticks := t\<rparr>) = coherent E Q x0 X s"
  by (simp add: coherent_def buffers_ok_def lines_coherent_def blend_coherent_def line_value_def)

lemma coherent_nocache [simp]: "coherent E Q x0 X (s\<lparr>ps_pipe := (ps_pipe s)\<lparr>nocache := n\<rparr>\<rparr>) = coherent E Q x0 X s"
  by (simp add: coherent_def buffers_ok_def lines_coherent_def blend_coherent_def line_value_def)

lemma coherent_exempt: "coherent E Q x0 X s \<Longrightarrow> X \<subseteq> Y \<Longrightarrow> coherent E Q x0 Y s"
  by (auto simp: coherent_def lines_coherent_def)

text \<open>A line need not be exempt any more when it has no hash, is not searched, or holds the value of its request.\<close>

lemma coherent_settled:
  assumes "coherent E Q x0 (insert k X) s"
    and "k < 2 \<or> line_hash (the_line s k) = DT_INVALID_HASH \<or>
      (\<forall>pos roi. (pos, roi) \<in> Q \<longrightarrow> line_hash (the_line s k) = request_hash E pos roi \<longrightarrow> line_value s k = direct E x0 pos roi)"
  shows "coherent E Q x0 X s"
  using assms unfolding coherent_def lines_coherent_def by (metis insert_iff not_le)


text \<open>A request for a buffer: what is handed out is exempt until it is filled, and the place of the input keeps its value.\<close>

definition place_value :: "('r, 'px, 'd) process_env \<Rightarrow> ('px, 'd) process_state \<Rightarrow> 'd place \<Rightarrow> 'px \<times> 'd buffer_dsc" where
  "place_value E s loc = (content E s loc, place_dsc s loc)"

lemma place_value_line: "place_value E s (In_Line k) = line_value s k"
  by (simp add: place_value_def line_value_def content_def place_data_def place_dsc_def)

lemma sound_envD:
  assumes "sound_env E Q"
  shows "\<not> pe_stop E t" and "\<not> pe_early E t" and "\<not> pe_masks E pos" and "bd_cst (pe_input_dsc E) = IOP_CS_RAW \<or> \<not> pe_work_profile E"
    and "pe_transform_for_blend E pos \<Longrightarrow> pe_blend_cst E pos (pe_output_cst E pos) = pe_input_cst E pos"
    and "pe_alloc E p hash sz \<noteq> pe_input E" and "fresh_buffer (Some (pe_alloc E p hash sz)) (fill_line p hash sz) (pipe_cache p)"
    and "(pos, roi) \<in> Q \<Longrightarrow> 0 < bufsize E pos roi"
    and "(pos, roi) \<in> Q \<Longrightarrow> (pos', roi') \<in> Q \<Longrightarrow> request_hash E pos roi = request_hash E pos' roi' \<Longrightarrow> pos = pos' \<and> roi = roi'"
    and "(pos, roi) \<in> Q \<Longrightarrow> (pos', roi') \<in> Q \<Longrightarrow> pe_fast_blend E pos \<Longrightarrow> pe_fast_blend E pos' \<Longrightarrow>
      piece_process_hash E pos roi = piece_process_hash E pos' roi' \<Longrightarrow> pos = pos' \<and> roi = roi'"
    and "\<not> pe_blend_masks E pos" and "pe_fast_blend E pos \<Longrightarrow> snd (pe_process E pos roi_in roi_out dsc_in dsc x) = dsc"
proof -
  note d = assms [unfolded sound_env_def]
  show "\<not> pe_blend_masks E pos" "pe_fast_blend E pos \<Longrightarrow> snd (pe_process E pos roi_in roi_out dsc_in dsc x) = dsc" using d by simp_all
  show "\<not> pe_stop E t" "\<not> pe_early E t" "\<not> pe_masks E pos" "bd_cst (pe_input_dsc E) = IOP_CS_RAW \<or> \<not> pe_work_profile E"
    "pe_transform_for_blend E pos \<Longrightarrow> pe_blend_cst E pos (pe_output_cst E pos) = pe_input_cst E pos"
    "pe_alloc E p hash sz \<noteq> pe_input E" "fresh_buffer (Some (pe_alloc E p hash sz)) (fill_line p hash sz) (pipe_cache p)"
    using d by simp_all
  show "(pos, roi) \<in> Q \<Longrightarrow> 0 < bufsize E pos roi" using d by auto
  have i: "inj_on (\<lambda>(pos, roi). request_hash E pos roi) Q"
    "inj_on (\<lambda>(pos, roi). piece_process_hash E pos roi) {(pos, roi). (pos, roi) \<in> Q \<and> pe_fast_blend E pos}" using d by simp_all
  show "(pos, roi) \<in> Q \<Longrightarrow> (pos', roi') \<in> Q \<Longrightarrow> request_hash E pos roi = request_hash E pos' roi' \<Longrightarrow> pos = pos' \<and> roi = roi'"
    using inj_onD [OF i(1), of "(pos, roi)" "(pos', roi')"] by simp
  show "(pos, roi) \<in> Q \<Longrightarrow> (pos', roi') \<in> Q \<Longrightarrow> pe_fast_blend E pos \<Longrightarrow> pe_fast_blend E pos' \<Longrightarrow>
      piece_process_hash E pos roi = piece_process_hash E pos' roi' \<Longrightarrow> pos = pos' \<and> roi = roi'"
    using inj_onD [OF i(2), of "(pos, roi)" "(pos', roi')"] by simp
qed

lemma get_buffer_facts:
  assumes env: "sound_env E Q" and coh: "coherent E Q x0 {} s" and q: "(pos, roi) \<in> Q"
    and get: "get_buffer E pos roi dsc order important s = (s', k, fresh)"
  shows "k < nlines s" and "nlines s' = nlines s" and "coherent E Q x0 {k} s'" and "safe_line (ps_pipe s') k"
    and "line_hash (the_line s' k) = request_hash E pos roi" and "line_data (the_line s' k) \<noteq> None"
    and "nocache (ps_pipe s') = nocache (ps_pipe s)" and "ps_ticks s' = ps_ticks s" and "ps_heap s' = ps_heap s"
    and "fresh \<Longrightarrow> line_dsc (the_line s' k) = dsc"
    and "\<not> fresh \<Longrightarrow> line_value s' k = direct E x0 pos roi"
    and "j < nlines s \<Longrightarrow> j \<noteq> k \<Longrightarrow> same_line (the_line s' j) (the_line s j)"
    and "safe_line (ps_pipe s) j \<Longrightarrow> j < nlines s \<Longrightarrow>
      line_hash (the_line s j) \<noteq> request_hash E pos roi \<or> request_hash E pos roi = DT_INVALID_HASH \<Longrightarrow> k \<noteq> j"
proof -
  let ?h = "request_hash E pos roi" and ?sz = "bufsize E pos roi"
  let ?m = "pe_alloc E (ps_pipe s) ?h ?sz"
  note c = coherent_parts [OF coh]
  obtain p k' f where g: "dt_dev_pixelpipe_cache_get (ps_pipe s) ?h ?sz dsc order important (Some ?m) = (p, k', f)"
    by (metis prod_cases3)
  have eq: "s' = s\<lparr>ps_pipe := p\<rparr>" "k = k'" "fresh = f" using get g by (auto simp: get_buffer_def Let_def)
  have ok: "pc_ok (pipe_cache (ps_pipe s))" "\<not> mask_display (ps_pipe s)" using c(1) by (simp_all add: buffers_ok_def)
  note l = get_lines [OF g ok _ sound_envD(8) [OF env q]]
  note lk = l [simplified]
  have line: "the_line s' j = pc_lines (pipe_cache p) ! j" for j by (simp add: eq the_line_def)
  have line0: "the_line s j = pc_lines (pipe_cache (ps_pipe s)) ! j" for j by (simp add: the_line_def)
  show kn: "k < nlines s" "nlines s' = nlines s" using lk(1,2) by (simp_all add: eq)
  show safe: "safe_line (ps_pipe s') k" using lk(8) by (simp add: eq)
  show hk: "line_hash (the_line s' k) = ?h" using lk(9) by (simp add: line) (simp add: eq)
  show dk: "line_data (the_line s' k) \<noteq> None" unfolding line using lk(10) by (simp add: eq)
  show "nocache (ps_pipe s') = nocache (ps_pipe s)" "ps_ticks s' = ps_ticks s" "ps_heap s' = ps_heap s" using lk(4) by (simp_all add: eq)
  show "fresh \<Longrightarrow> line_dsc (the_line s' k) = dsc" unfolding line using lk(11) by (simp add: eq)
  show other: "same_line (the_line s' j) (the_line s j)" if "j < nlines s" "j \<noteq> k" for j
    using lk(7) that by (simp add: line line0 eq(2,3))
  show "k \<noteq> j" if "safe_line (ps_pipe s) j" "j < nlines s" "line_hash (the_line s j) \<noteq> ?h \<or> ?h = DT_INVALID_HASH"
    using lk(14) that by (simp add: line0 eq(2,3))
  show "line_value s' k = direct E x0 pos roi" if "\<not> fresh"
  proof -
    from lk(13) that have h: "2 \<le> k" "?h \<noteq> DT_INVALID_HASH" "line_hash (the_line s k) = ?h" "line_size (the_line s k) = ?sz"
      and sm: "same_line (the_line s' k) (the_line s k)" by (simp_all add: eq the_line_def)
    have "line_data (the_line s k) \<noteq> None" using dk sm by (simp add: same_line_def)
    from lines_coherentD [OF c(2) h(1) kn(1) _ q _ this] h have "line_value s k = direct E x0 pos roi" by simp
    then show ?thesis using sm by (simp add: line_value_def same_line_def eq the_line_def)
  qed
  have data: "line_data (the_line s' j) \<noteq> Some (pe_input E)" if "j < nlines s" for j
  proof (cases "j = k \<and> fresh")
    case True
    then have "line_data (the_line s' j) \<in> {Some ?m, line_data (the_line s j)}" using lk(12) by (simp add: line line0 eq(2,3))
    then show ?thesis using sound_envD(6) [OF env] c(1) that by (auto simp: buffers_ok_def)
  next
    case False
    then have "same_line (the_line s' j) (the_line s j)" using other [OF that] lk(13) by (cases "j = k") (simp_all add: line line0 eq(2,3))
    then show ?thesis using c(1) that by (simp add: buffers_ok_def same_line_def)
  qed
  have "pc_ok (pipe_cache p)" by (rule get_ok [OF ok(1) sound_envD(7) [OF env] g])
  with data have b: "buffers_ok E x0 s'" using c(1) lk(2,3) by (simp add: buffers_ok_def eq)
  have lc: "lines_coherent E Q x0 {k} s'"
  proof (rule lines_coherent_kept [OF c(2) kn(2)])
    fix j assume "2 \<le> j" "j < nlines s" "j \<notin> {k}"
    with other have "same_line (the_line s' j) (the_line s j)" by simp
    then show "j \<notin> {} \<and> line_kept s s' j" by (auto simp: line_kept_def same_line_def line_value_def eq)
  qed
  have "blend_coherent E Q x0 s'" using c(3) lk(5,6) by (simp add: blend_coherent_def eq)
  with b lc show "coherent E Q x0 {k} s'" by (simp add: coherent_def)
qed


section \<open>Processing a node gives its value\<close>

lemma no_stop:
  "sound_env E Q \<Longrightarrow> pipe_has_shutdown E s = (False, s\<lparr>ps_ticks := Suc (ps_ticks s)\<rparr>)"
  "sound_env E Q \<Longrightarrow> dev_pixelpipe_early_exit E s = (False, s\<lparr>ps_ticks := Suc (ps_ticks s)\<rparr>)"
  by (simp_all add: pipe_has_shutdown_def dev_pixelpipe_early_exit_def sound_envD)

definition valid_place :: "('r, 'px, 'd) process_env \<Rightarrow> ('px, 'd) process_state \<Rightarrow> 'd place \<Rightarrow> bool" where
  "valid_place E s loc \<longleftrightarrow>
     (case loc of In_Line k \<Rightarrow> k < nlines s \<and> line_data (the_line s k) \<noteq> None | In_Input d \<Rightarrow> d = pe_input_dsc E)"

lemma place_simps [simp]:
  "place_data E s (In_Line k) = line_data (the_line s k)" "place_data E s (In_Input d) = Some (pe_input E)"
  "place_dsc s (In_Line k) = line_dsc (the_line s k)" "place_dsc s (In_Input d) = d"
  by (simp_all add: place_data_def place_dsc_def)

lemma place_apart:
  assumes "buffers_ok E x0 s" and "valid_place E s loc" and "loc \<noteq> In_Line ko" and "ko < nlines s"
  shows "line_data (the_line s ko) \<noteq> place_data E s loc"
proof (cases loc)
  case (In_Line k)
  then show ?thesis using assms lines_apart [OF assms(1,4), of k] by (auto simp: valid_place_def)
next
  case (In_Input d)
  then show ?thesis using assms by (simp add: buffers_ok_def)
qed

lemma write_same: "place_data E s loc \<noteq> None \<Longrightarrow> write_buffer E loc (content E s loc) s = s"
  by (simp add: write_buffer_def content_def)

lemma valid_data: "valid_place E s loc \<Longrightarrow> place_data E s loc \<noteq> None"
  by (auto simp: valid_place_def split: place.splits)

lemma transform_input_id:
  assumes "valid_place E s loc"
    and "dt_ioppr_transform_image_colorspace E profile (bd_cst (place_dsc s loc)) t (content E s loc) = (content E s loc, bd_cst (place_dsc s loc))"
  shows "transform_input E profile t loc s = (s, loc)"
proof -
  have "set_place_dsc loc (place_dsc s loc) s = (s, loc)"
    using assms(1) by (cases loc) (simp_all add: set_place_dsc_def set_dsc_same valid_place_def)
  then show ?thesis using assms(2) write_same [OF valid_data [OF assms(1)]] by (simp add: transform_input_def)
qed

lemma input_converted:
  assumes env: "sound_env E Q" and coh: "coherent E Q x0 {ko} s" and val: "valid_place E s loc" and ko: "loc \<noteq> In_Line ko" "ko < nlines s"
    and v: "place_value E s loc = v" and profile: "profile = (pe_work_profile E \<and> bd_cst (snd v) \<noteq> IOP_CS_RAW)"
    and run: "transform_input E profile (pe_input_cst E pos) loc s = (s1, loc1)"
    and s2: "s2 = (if bd_cst (snd v) \<noteq> pe_input_cst E pos then invalidate_data (place_data E s1 loc1) s1 else s1)"
  shows "coherent E Q x0 {ko} s2 \<and> nlines s2 = nlines s \<and> the_line s2 ko = the_line s ko \<and> ps_ticks s2 = ps_ticks s \<and>
    valid_place E s2 loc1 \<and> loc1 \<noteq> In_Line ko \<and> place_data E s2 loc1 = place_data E s loc \<and>
    place_value E s2 loc1 = (fst (node_input E pos v), (snd v)\<lparr>bd_cst := snd (node_input E pos v)\<rparr>)"
proof -
  obtain x d where xd: "v = (x, d)" "content E s loc = x" "place_dsc s loc = d" using v by (auto simp: place_value_def)
  let ?t = "pe_input_cst E pos"
  obtain y c where yc: "dt_ioppr_transform_image_colorspace E profile (bd_cst d) ?t x = (y, c)" by fastforce
  have ni: "node_input E pos v = (y, c)" using yc by (simp add: node_input_def xd profile)
  note parts = coherent_parts [OF coh]
  have apart: "line_data (the_line s ko) \<noteq> place_data E s loc" by (rule place_apart [OF parts(1) val ko])
  show ?thesis
  proof (cases "y = x \<and> c = bd_cst d \<and> (bd_cst d = ?t \<or> (\<exists>q. loc = In_Input q))")
    case True
    then have same: "s1 = s" "loc1 = loc" using transform_input_id [OF val, of profile ?t] run yc xd by simp_all
    have vs: "s2 = s \<or> (s2 = invalidate_data (Some (pe_input E)) s \<and> (\<exists>q. loc = In_Input q))"
      using True s2 xd by (auto simp: same split: if_splits)
    have keep: "the_line (invalidate_data (Some (pe_input E)) s) ko = the_line s ko"
      using parts(1) ko(2) by (simp add: the_line_invalidate buffers_ok_def)
    have nv: "(fst (node_input E pos v), (snd v)\<lparr>bd_cst := snd (node_input E pos v)\<rparr>) = v" using True ni xd(1) by simp
    have "coherent E Q x0 {ko} s2 \<and> nlines s2 = nlines s \<and> the_line s2 ko = the_line s ko \<and> ps_ticks s2 = ps_ticks s \<and>
        valid_place E s2 loc \<and> place_data E s2 loc = place_data E s loc \<and> place_value E s2 loc = place_value E s loc"
      using vs keep coh val coherent_invalidate [OF coh]
      by (elim disjE) (auto simp: valid_place_def place_value_def content_def)
    then show ?thesis using v ko by (simp only: nv same) simp
  next
    case False
    have "\<not> profile" if "loc = In_Input q" for q
      using that val xd sound_envD(4) [OF env] by (auto simp: valid_place_def profile)
    then have "\<exists>k. loc = In_Line k"
      using False yc by (cases loc) (auto simp: dt_ioppr_transform_image_colorspace_def split: if_splits)
    then obtain k where k: "loc = In_Line k" by blast
    then have kn: "k < nlines s" "line_data (the_line s k) \<noteq> None" "k \<noteq> ko" using val ko by (auto simp: valid_place_def)
    have neq: "bd_cst d \<noteq> ?t" using False yc k by (auto simp: dt_ioppr_transform_image_colorspace_def split: if_splits)
    let ?w = "write_buffer E (In_Line k) y s"
    have s1: "s1 = set_dsc k (d\<lparr>bd_cst := c\<rparr>) ?w" "loc1 = In_Line k"
      using run yc xd k by (auto simp: transform_input_def set_place_dsc_def)
    have "coherent E Q x0 {k, ko} ?w" by (rule coherent_write) (use coherent_exempt [OF coh, of "{k, ko}"] kn in auto)
    then have "coherent E Q x0 {k, ko} s1" unfolding s1(1) by (rule coherent_set_dsc) (use kn in auto)
    then have ci: "coherent E Q x0 (insert k {ko}) s2" using neq xd coherent_invalidate by (simp add: s2)
    have nl: "nlines s1 = nlines s" by (simp add: s1(1))
    have line: "the_line s1 j = (if j = k then (the_line s k)\<lparr>line_dsc := d\<lparr>bd_cst := c\<rparr>\<rparr> else the_line s j)" for j
      using kn(1) by (simp add: s1(1) the_line_set_dsc)
    have s2': "s2 = invalidate_data (line_data (the_line s k)) s1" using neq xd by (simp add: s2 s1(2) line)
    have line2: "the_line s2 j = (if 2 \<le> j \<and> line_data (the_line s1 j) = line_data (the_line s k) then mark_invalid_cacheline (the_line s1 j) else the_line s1 j)"
      if "j < nlines s" for j using that by (simp add: s2' the_line_invalidate nl)
    have "coherent E Q x0 {ko} s2" by (rule coherent_settled [OF ci]) (use kn(1) line line2 in auto)
    moreover have "the_line s2 ko = the_line s ko" using line2 [OF ko(2)] line kn(3) apart k by (auto simp: eq_commute)
    moreover have "nlines s2 = nlines s" "ps_ticks s2 = ps_ticks s" "ps_heap s2 = (ps_heap s)(the (line_data (the_line s k)) := y)"
      by (simp_all add: s2' nl) (simp_all add: s1(1))
    ultimately show ?thesis using kn line2 [OF kn(1)] line k unfolding ni by (auto simp: s1(2) valid_place_def place_value_def content_def xd)
  qed
qed


text \<open>The module or its kept output: only the buffer of the node and the blend cache change.\<close>

lemma module_run:
  assumes env: "sound_env E Q" and coh: "coherent E Q x0 {ko} s" and ko: "ko < nlines s" "line_data (the_line s ko) = Some b"
    and q: "(pos, roi_out) \<in> Q" and y: "pe_process E pos roi_in roi_out dsc_in dsc (content E s input) = (y, d)"
    and bb: "before_blend E x0 pos roi_out = y"
    and s': "run_module E pos roi_in roi_out dsc_in input ko dsc s = (dsc', s')"
  shows "dsc' = d \<and> coherent E Q x0 {ko} s' \<and> nlines s' = nlines s \<and> the_line s' = the_line s \<and> ps_heap s' = (ps_heap s)(b := y) \<and> ps_ticks s' = ps_ticks s"
proof -
  let ?ph = "piece_process_hash E pos roi_out"
  let ?w = "write_buffer E (In_Line ko) y s"
  note parts = coherent_parts [OF coh]
  have cw: "coherent E Q x0 {ko} ?w" by (rule coherent_write [OF coh]) (use ko in auto)
  have m: "\<not> mask_display (ps_pipe s)" "\<not> pe_masks E pos" using sound_envD(3) [OF env, of pos] parts(1) by (simp_all add: buffers_ok_def)
  have w: "?w\<lparr>ps_pipe := (ps_pipe ?w)\<lparr>mask_display := mask_display (ps_pipe ?w) \<or> pe_masks E pos\<rparr>\<rparr> = ?w"
    using m by (cases s, cases "ps_pipe s") (simp add: write_buffer_def place_data_def the_line_def)
  have mw: "\<not> mask_display (ps_pipe ?w)" using m by simp
  have fd: "d = dsc" if "pe_fast_blend E pos" using sound_envD(12) [OF env that, of roi_in roi_out dsc_in dsc "content E s input"] y by simp
  have both: "dsc' = d \<and> s' = (if pe_fast_blend E pos \<and> bcache_data (ps_pipe s) \<noteq> None \<and> (if pe_fast_blend E pos then ?ph else DT_INVALID_HASH) = bcache_hash (ps_pipe s) \<and>
          (if pe_fast_blend E pos then ?ph else DT_INVALID_HASH) \<noteq> DT_INVALID_HASH
        then write_buffer E (In_Line ko) (ps_blend_cache s) s
        else if \<not> pe_fast_blend E pos then ?w
        else if bcache_data (ps_pipe (get_fast_blendcache E (if pe_fast_blend E pos then ?ph else DT_INVALID_HASH) ?w)) \<noteq> None
          then (get_fast_blendcache E (if pe_fast_blend E pos then ?ph else DT_INVALID_HASH) ?w)\<lparr>ps_blend_cache := y\<rparr>
          else get_fast_blendcache E (if pe_fast_blend E pos then ?ph else DT_INVALID_HASH) ?w)"
    using s' fd unfolding run_module_def Let_def y prod.case w using mw by (auto simp del: write_buffer_simps split: if_splits)
  note run = both [THEN conjunct2]
  have "coherent E Q x0 {ko} s' \<and> nlines s' = nlines s \<and> the_line s' = the_line s \<and> ps_heap s' = (ps_heap s)(b := y) \<and> ps_ticks s' = ps_ticks s"
  proof (cases "pe_fast_blend E pos")
    case False
    then have "s' = ?w" by (simp add: run)
    then show ?thesis using cw ko by (auto simp: fun_eq_iff)
  next
    case fast: True
    show ?thesis
    proof (cases "bcache_data (ps_pipe s) \<noteq> None \<and> ?ph = bcache_hash (ps_pipe s) \<and> ?ph \<noteq> DT_INVALID_HASH")
      case True
      then have "ps_blend_cache s = y" using parts(3) fast q bb unfolding blend_coherent_def by metis
      moreover have "bcache_hash (ps_pipe s) \<noteq> DT_INVALID_HASH" using True by metis
      ultimately have "s' = ?w" using True fast by (simp only: run if_True simp_thms)
      then show ?thesis using cw ko by (auto simp: fun_eq_iff)
    next
      case False
      let ?g = "get_fast_blendcache E ?ph ?w"
      have "s' = (if bcache_data (ps_pipe ?g) \<noteq> None then ?g\<lparr>ps_blend_cache := y\<rparr> else ?g)"
        using False fast by (simp only: run if_True simp_thms if_False)
      moreover have "the_line ?g = the_line s" by (simp add: get_fast_blendcache_def the_line_def fun_eq_iff)
      moreover have "lines_coherent E Q x0 {ko} (?g\<lparr>ps_blend_cache := z\<rparr>)" "buffers_ok E x0 (?g\<lparr>ps_blend_cache := z\<rparr>)" for z
        using coherent_parts [OF cw] by (simp_all add: lines_coherent_def buffers_ok_def line_value_def get_fast_blendcache_def the_line_def)
      moreover have "blend_coherent E Q x0 (?g\<lparr>ps_blend_cache := y\<rparr>)"
        unfolding blend_coherent_def
      proof (intro allI impI)
        fix p r
        assume "(p, r) \<in> Q" "pe_fast_blend E p" "bcache_hash (ps_pipe (?g\<lparr>ps_blend_cache := y\<rparr>)) = piece_process_hash E p r"
        then have "p = pos \<and> r = roi_out"
          using sound_envD(10) [OF env q, of p r] fast by (simp add: get_fast_blendcache_def)
        then show "ps_blend_cache (?g\<lparr>ps_blend_cache := y\<rparr>) = before_blend E x0 p r" using bb by simp
      qed
      moreover have "blend_coherent E Q x0 ?g" if "bcache_data (ps_pipe ?g) = None" using that by (simp add: blend_coherent_def)
      ultimately show ?thesis using ko
        by (auto simp: coherent_def buffers_ok_def lines_coherent_def line_value_def get_fast_blendcache_def)
    qed
  qed
  then show ?thesis using both by blast
qed


lemma node_blended:
  assumes env: "sound_env E Q" and coh: "coherent E Q x0 {ko} s" and ko: "ko < nlines s" "line_data (the_line s ko) = Some b"
    and val: "valid_place E s loc" "loc \<noteq> In_Line ko" and v: "place_value E s loc = (fst (node_input E pos v), (snd v)\<lparr>bd_cst := snd (node_input E pos v)\<rparr>)"
    and y: "ps_heap s b = fst (unblended E pos roi_in roi_out v)"
    and dsc: "dsc = (snd (unblended E pos roi_in roi_out v))\<lparr>bd_cst := pe_output_cst E pos\<rparr>"
    and profile: "profile = (pe_work_profile E \<and> bd_cst (snd v) \<noteq> IOP_CS_RAW)"
    and run: "blend_node E profile pos roi_in roi_out loc ko dsc s = (loc', dsc', s')"
  shows "coherent E Q x0 {ko} s' \<and> nlines s' = nlines s \<and> the_line s' = the_line s \<and> ps_ticks s' = ps_ticks s \<and> loc' = loc \<and>
    (ps_heap s' b, dsc') = node_value E pos roi_in roi_out v"
proof -
  let ?x = "fst (node_input E pos v)" and ?c = "snd (node_input E pos v)" and ?y = "fst (unblended E pos roi_in roi_out v)"
  have xc: "content E s loc = ?x" "bd_cst (place_dsc s loc) = ?c" using v by (simp_all add: place_value_def)
  have apart: "place_data E s loc \<noteq> Some b" using place_apart [OF coherent_parts(1) [OF coh] val ko(1)] ko(2) by auto
  have cy: "content E s (In_Line ko) = ?y" using y ko by (simp add: content_def)
  define z where "z = (if pe_transform_for_blend E pos
    then dt_ioppr_transform_image_colorspace E profile (pe_output_cst E pos) (pe_blend_cst E pos (pe_output_cst E pos)) ?y else (?y, pe_output_cst E pos))"
  let ?s1 = "write_buffer E (In_Line ko) (fst z) s"
  have same: "transform_input E profile (pe_blend_cst E pos (pe_output_cst E pos)) loc s = (s, loc)" if "pe_transform_for_blend E pos"
  proof (rule transform_input_id [OF val(1)])
    have "dt_ioppr_transform_image_colorspace E profile (bd_cst (snd v)) (pe_input_cst E pos) (fst v) = (?x, ?c)"
      by (simp add: node_input_def profile)
    from transform_twice [OF this] sound_envD(5) [OF env that]
    show "dt_ioppr_transform_image_colorspace E profile (bd_cst (place_dsc s loc)) (pe_blend_cst E pos (pe_output_cst E pos)) (content E s loc) =
      (content E s loc, bd_cst (place_dsc s loc))" by (simp add: xc)
  qed
  have w0: "write_buffer E (In_Line ko) ?y s = s" using write_same [of E s "In_Line ko"] ko cy by simp
  have mid: "(if pe_transform_for_blend E pos
       then let (sa, input1) = transform_input E profile (pe_blend_cst E pos (bd_cst dsc)) loc s;
                (y, c) = dt_ioppr_transform_image_colorspace E profile (bd_cst dsc) (pe_blend_cst E pos (bd_cst dsc)) (content E sa (In_Line ko))
            in (input1, dsc\<lparr>bd_cst := c\<rparr>, write_buffer E (In_Line ko) y sa)
       else (loc, dsc, s)) = (loc, dsc\<lparr>bd_cst := snd z\<rparr>, ?s1)"
    using same by (simp add: z_def dsc cy w0 split: prod.split)
  have cx1: "content E ?s1 loc = ?x" "content E ?s1 (In_Line ko) = fst z" using xc(1) apart ko valid_data [OF val(1)] by (auto simp: content_def)
  have nomask: "u\<lparr>ps_pipe := (ps_pipe u)\<lparr>mask_display := mask_display (ps_pipe u) \<or> pe_blend_masks E pos\<rparr>\<rparr> = u" for u :: "('b, 'c) process_state"
    using sound_envD(11) [OF env, of pos] by simp
  have fin: "loc' = loc" "dsc' = dsc\<lparr>bd_cst := snd z\<rparr>"
    "s' = (if pe_wants_blending E pos then write_buffer E (In_Line ko) (pe_blend E pos roi_in roi_out ?x (fst z)) ?s1 else ?s1)"
    using run by (cases "pe_wants_blending E pos"; simp add: blend_node_def mid Let_def cx1 nomask)+
  have c1: "coherent E Q x0 {ko} ?s1" by (rule coherent_write [OF coh]) (use ko in auto)
  have c2: "coherent E Q x0 {ko} (write_buffer E (In_Line ko) u ?s1)" for u by (rule coherent_write [OF c1]) (use ko in auto)
  have "(ps_heap s' b, dsc') = node_value E pos roi_in roi_out v"
    using ko by (cases "unblended E pos roi_in roi_out v") (simp add: node_value_def fin dsc z_def profile Let_def split: prod.split)
  then show ?thesis using c1 c2 by (auto simp: fin fun_eq_iff)
qed

text \<open>\<open>_pixelpipe_process_on_CPU\<close> as a whole.\<close>

lemma node_processed:
  assumes env: "sound_env E Q" and coh: "coherent E Q x0 {ko} s" and ko: "ko < nlines s" "line_data (the_line s ko) = Some b"
    and val: "valid_place E s loc" "loc \<noteq> In_Line ko" and v: "place_value E s loc = v"
    and q: "(pos, roi_out) \<in> Q" and bb: "before_blend E x0 pos roi_out = fst (unblended E pos roi_in roi_out v)"
    and run: "pixelpipe_process_on_CPU E pos roi_in roi_out (snd v) loc ko (pe_output_format E pos (snd v)) s = (r, s')"
  shows "\<exists>loc' dsc'. r = Some (loc', dsc') \<and> coherent E Q x0 {ko} s' \<and> nlines s' = nlines s \<and> the_line s' ko = the_line s ko \<and>
    place_data E s' loc' = place_data E s loc \<and> (ps_heap s' b, dsc') = node_value E pos roi_in roi_out v"
proof -
  define profile where "profile = (pe_work_profile E \<and> bd_cst (snd v) \<noteq> IOP_CS_RAW)"
  define s0 where "s0 = s\<lparr>ps_ticks := Suc (ps_ticks s)\<rparr>"
  have cst: "bd_cst (place_dsc s0 loc) = bd_cst (snd v)" using v by (auto simp: s0_def place_value_def place_dsc_def split: place.split)
  have c0: "coherent E Q x0 {ko} s0" "ko < nlines s0" "line_data (the_line s0 ko) = Some b" "valid_place E s0 loc" "place_value E s0 loc = v"
    using coh ko val v by (auto simp: s0_def valid_place_def place_value_def content_def place_data_def place_dsc_def split: place.splits)
  obtain s1 loc1 where t: "transform_input E profile (pe_input_cst E pos) loc s0 = (s1, loc1)" by fastforce
  define s2 where "s2 = (if bd_cst (snd v) \<noteq> pe_input_cst E pos then invalidate_data (place_data E s1 loc1) s1 else s1)"
  note ic = input_converted [OF env c0(1) c0(4) val(2) c0(2,5) profile_def t s2_def]
  define s3 where "s3 = s2\<lparr>ps_ticks := Suc (ps_ticks s2)\<rparr>"
  have c3: "coherent E Q x0 {ko} s3" "ko < nlines s3" "line_data (the_line s3 ko) = Some b" "valid_place E s3 loc1"
    "place_value E s3 loc1 = (fst (node_input E pos v), (snd v)\<lparr>bd_cst := snd (node_input E pos v)\<rparr>)"
    using ic c0 by (auto simp: s3_def valid_place_def place_value_def content_def place_data_def place_dsc_def split: place.splits)
  obtain d4 s4 where rm: "run_module E pos roi_in roi_out (snd v) loc1 ko (pe_output_format E pos (snd v)) s3 = (d4, s4)" by fastforce
  have y: "pe_process E pos roi_in roi_out (snd v) (pe_output_format E pos (snd v)) (content E s3 loc1) =
      (fst (unblended E pos roi_in roi_out v), snd (unblended E pos roi_in roi_out v))"
    using c3(5) by (simp add: unblended_def place_value_def)
  note m = module_run [OF env c3(1-3) q y bb rm]
  define s5 where "s5 = s4\<lparr>ps_ticks := Suc (ps_ticks s4)\<rparr>"
  have apart: "place_data E s3 loc1 \<noteq> Some b" using place_apart [OF coherent_parts(1) [OF c3(1)] c3(4) _ c3(2)] ic c3(3) by auto
  have c5: "coherent E Q x0 {ko} s5" "ko < nlines s5" "line_data (the_line s5 ko) = Some b" "valid_place E s5 loc1"
    "place_value E s5 loc1 = (fst (node_input E pos v), (snd v)\<lparr>bd_cst := snd (node_input E pos v)\<rparr>)"
    "ps_heap s5 b = fst (unblended E pos roi_in roi_out v)"
    using m c3 apart valid_data [OF c3(4)]
    by (auto simp: s5_def valid_place_def place_value_def content_def place_data_def place_dsc_def split: place.splits)
  obtain loc6 dsc6 s6 where bl: "blend_node E profile pos roi_in roi_out loc1 ko (d4\<lparr>bd_cst := pe_output_cst E pos\<rparr>) s5 =
      (loc6, dsc6, s6)" by (metis prod_cases3)
  have l1: "loc1 \<noteq> In_Line ko" using ic by blast
  have d4: "d4\<lparr>bd_cst := pe_output_cst E pos\<rparr> = (snd (unblended E pos roi_in roi_out v))\<lparr>bd_cst := pe_output_cst E pos\<rparr>" using m by simp
  note nb = node_blended [OF env c5(1-4) l1 c5(5,6) d4 profile_def bl]
  have "r = Some (loc6, dsc6) \<and> s' = s6\<lparr>ps_ticks := Suc (ps_ticks s6)\<rparr>"
    using run unfolding pixelpipe_process_on_CPU_def no_stop [OF env]
    by (simp add: Let_def cst t rm bl no_stop [OF env] flip: s0_def s3_def s5_def profile_def s2_def)
  moreover have "place_data E (s6\<lparr>ps_ticks := Suc (ps_ticks s6)\<rparr>) loc6 = place_data E s loc"
  proof -
    have "place_data E s5 loc1 = place_data E s3 loc1" using m by (simp add: s5_def place_data_def split: place.split)
    moreover have "place_data E s3 loc1 = place_data E s2 loc1" "place_data E s0 loc = place_data E s loc"
      by (simp_all add: s3_def s0_def place_data_def split: place.split)
    moreover have "place_data E (s6\<lparr>ps_ticks := Suc (ps_ticks s6)\<rparr>) loc6 = place_data E s5 loc1" using nb by (simp add: place_data_def split: place.split)
    ultimately show ?thesis using ic by simp
  qed
  moreover have "nlines s6 = nlines s" "the_line s6 ko = the_line s ko" using nb m ic by (simp_all add: s5_def s3_def s0_def)
  ultimately show ?thesis using nb by auto
qed


text \<open>Only requests count as calls.\<close>

abbreviation ncalls :: "('px, 'd) process_state \<Rightarrow> nat" where
  "ncalls s \<equiv> pc_calls (pipe_cache (ps_pipe s))"

lemma calls_kept [simp]:
  "ncalls (set_dsc k d s) = ncalls s" "ncalls (invalidate_data m s) = ncalls s" "ncalls (mark_important m sz s) = ncalls s"
  "ncalls (get_fast_blendcache E h s) = ncalls s"
  by (simp_all add: set_dsc_def upd_cache_def invalidate_data_def dt_dev_pixelpipe_invalidate_cacheline_def mark_important_def
      dt_dev_pixelpipe_important_cacheline_def map_clines_def get_fast_blendcache_def)

lemma calls_transform: "transform_input E profile t loc s = (s', loc') \<Longrightarrow> ncalls s' = ncalls s"
  by (auto simp: transform_input_def set_place_dsc_def split: prod.splits place.splits)

lemma calls_module: "run_module E pos roi_in roi_out dsc_in input ko dsc s = (d, s') \<Longrightarrow> ncalls s' = ncalls s"
  by (auto simp: run_module_def Let_def split: if_splits prod.splits)

lemma calls_blend: "blend_node E profile pos roi_in roi_out input ko dsc s = (loc', dsc', s') \<Longrightarrow> ncalls s' = ncalls s"
  by (auto simp: blend_node_def Let_def split: if_splits prod.splits dest: calls_transform)

lemma calls_stop: "pipe_has_shutdown E s = (stop, s') \<Longrightarrow> ncalls s' = ncalls s"
  by (auto simp: pipe_has_shutdown_def)

lemma calls_process:
  assumes "pixelpipe_process_on_CPU E pos roi_in roi_out dsc_in input ko dsc s = (r, s')"
  shows "ncalls s' = ncalls s"
  using assms unfolding pixelpipe_process_on_CPU_def
  by (auto simp: Let_def split: if_splits prod.splits dest!: calls_transform calls_module calls_blend calls_stop)

section \<open>The run\<close>

text \<open>What the recursion promises of the place it returns: it is a buffer, and the next request will not take it.\<close>

definition ready :: "('r, 'px, 'd) process_env \<Rightarrow> ('px, 'd) process_state \<Rightarrow> 'd place \<Rightarrow> nat \<times> 'r \<Rightarrow> bool" where
  "ready E s loc q \<longleftrightarrow> valid_place E s loc \<and>
     (\<forall>k. loc = In_Line k \<longrightarrow> safe_line (ps_pipe s) k \<and> line_hash (the_line s k) \<in> {request_hash E (fst q) (snd q), DT_INVALID_HASH})"

lemma get_by_hash_finds:
  assumes "get_by_hash_loop False hash sz ks c = (c', None)" and "k \<in> set ks" and "\<forall>j\<in>set ks. j < pc_entries c" and "distinct ks"
  shows "line_hash (pc_lines c ! k) \<noteq> hash \<or> line_size (pc_lines c ! k) \<noteq> sz"
  using assms
proof (induction ks arbitrary: c)
  case (Cons i ks)
  let ?c = "set_line i ((pc_lines c ! i)\<lparr>line_hash := DT_INVALID_HASH\<rparr>) c"
  show ?case
  proof (cases "line_hash (pc_lines c ! i) = hash")
    case False
    with Cons.prems Cons.IH [of c] show ?thesis by (auto simp: Let_def)
  next
    case True
    with Cons.prems(1) have bad: "line_size (pc_lines c ! i) \<noteq> sz" and run: "get_by_hash_loop False hash sz ks ?c = (c', None)"
      by (auto simp: Let_def split: if_splits)
    show ?thesis
    proof (cases "k = i")
      case False
      with Cons.IH [OF run] Cons.prems(2-) show ?thesis by (auto simp: nth_set_line)
    qed (use bad in simp)
  qed
qed simp

text \<open>A new line is handed out only when no line could have been used.\<close>

lemma get_fresh_none:
  assumes "dt_dev_pixelpipe_cache_get p hash sz dsc order important mem = (q, k, True)"
    and "2 \<le> i" and "i < pc_entries (pipe_cache p)" and "\<not> mask_display p" and "\<not> nocache p" and "hash \<noteq> DT_INVALID_HASH"
  shows "line_hash (pc_lines (pipe_cache p) ! i) \<noteq> hash \<or> line_size (pc_lines (pipe_cache p) ! i) \<noteq> sz"
proof -
  have "snd (cache_search p hash sz) = None"
    using assms(1) by (auto simp: dt_dev_pixelpipe_cache_get_def split: prod.splits option.splits)
  then obtain c' where "get_by_hash_loop False hash sz [2..<pc_entries (pipe_cache p)] (age_lines (pipe_cache p)) = (c', None)"
    using assms by (auto simp: cache_search_def get_by_hash_def Let_def split: prod.splits)
  from get_by_hash_finds [OF this, of i] assms show ?thesis by (simp add: age_lines_nth)
qed

lemma coherent_settled_hit:
  assumes "sound_env E Q" and "coherent E Q x0 {k} s" and "(pos, roi) \<in> Q" and "line_hash (the_line s k) = request_hash E pos roi"
    and "line_value s k = direct E x0 pos roi"
  shows "coherent E Q x0 {} s"
  by (rule coherent_settled [OF assms(2)]) (use sound_envD(9) [OF assms(1,3)] assms(4,5) in metis)

lemma from_cache_facts:
  assumes env: "sound_env E Q" and coh: "coherent E Q x0 {} s" and q: "(pos, roi) \<in> Q" and run: "from_cache E pos roi s = (r, s')"
  shows "coherent E Q x0 {} s' \<and> (\<forall>k. r = Some k \<longrightarrow> ready E s' (In_Line k) (pos, roi) \<and> place_value E s' (In_Line k) = direct E x0 pos roi)"
proof (cases "(pe_preview E \<and> 0 < pos \<and> pe_is_gamma E pos) \<or> mask_display (ps_pipe s) \<or> nocache (ps_pipe s)")
  case True
  then have "r = None" "s' = s" using run by (auto simp: from_cache_def)
  then show ?thesis using coh by simp
next
  case False
  let ?h = "request_hash E pos roi" and ?sz = "bufsize E pos roi"
  obtain p hit where av: "dt_dev_pixelpipe_cache_available (ps_pipe s) ?h ?sz = (p, hit)" by fastforce
  let ?s1 = "s\<lparr>ps_pipe := p\<rparr>"
  have pl: "pc_lines (pipe_cache p) = pc_lines (pipe_cache (ps_pipe s))" "pc_allmem (pipe_cache p) = pc_allmem (pipe_cache (ps_pipe s))"
    "mask_display p = mask_display (ps_pipe s)" "nocache p = nocache (ps_pipe s)" "bcache_data p = bcache_data (ps_pipe s)"
    "bcache_hash p = bcache_hash (ps_pipe s)"
    using av by (auto simp: dt_dev_pixelpipe_cache_available_def Let_def split: if_splits)
  have c1: "coherent E Q x0 {} ?s1"
    using coh pl by (simp add: coherent_def buffers_ok_def lines_coherent_def blend_coherent_def line_value_def the_line_def pc_ok_def shape_def)
  show ?thesis
  proof (cases hit)
    case False
    then have "r = None" "s' = ?s1" using run av \<open>\<not> ((pe_preview E \<and> _) \<or> _)\<close> by (auto simp: from_cache_def)
    then show ?thesis using c1 by simp
  next
    case True
    obtain s2 k fresh where g: "get_buffer E pos roi (get_output_format E pos) (node_order E pos) True ?s1 = (s2, k, fresh)" by (metis prod_cases3)
    have eq: "r = Some k" "s' = s2" using run av g True \<open>\<not> ((pe_preview E \<and> _) \<or> _)\<close> by (auto simp: from_cache_def)
    note f = get_buffer_facts [OF env c1 q g]
    from av True have "snd (dt_dev_pixelpipe_cache_available (ps_pipe s) ?h ?sz)" by simp
    then obtain i where i: "2 \<le> i" "i < nlines s" "line_size (the_line s i) = ?sz" "line_hash (the_line s i) = ?h"
      and on: "\<not> mask_display (ps_pipe s)" "\<not> nocache (ps_pipe s)" "?h \<noteq> DT_INVALID_HASH"
      unfolding available_iff the_line_def by blast
    have "\<not> fresh"
    proof
      assume fresh
      then obtain q where "dt_dev_pixelpipe_cache_get p ?h ?sz (get_output_format E pos) (node_order E pos) True
          (Some (pe_alloc E p ?h ?sz)) = (q, k, True)"
        using g by (auto simp: get_buffer_def Let_def split: prod.splits)
      from get_fresh_none [OF this i(1)] i on pl show False by (simp add: the_line_def)
    qed
    with f have v: "line_value s2 k = direct E x0 pos roi" by blast
    have "coherent E Q x0 {} s2" by (rule coherent_settled_hit [OF env f(3) q f(5) v])
    moreover have "ready E s2 (In_Line k) (pos, roi)" using f(1,2,4,5,6) by (simp add: ready_def valid_place_def del: not_None_eq)
    ultimately show ?thesis using v by (simp add: eq place_value_line)
  qed
qed

lemma input_buffer_facts:
  assumes env: "sound_env E Q" and coh: "coherent E Q x0 {} s" and q: "(0, roi) \<in> Q" and run: "input_buffer E roi s = (loc, s')"
  shows "coherent E Q x0 {} s' \<and> ready E s' loc (0, roi) \<and> place_value E s' loc = direct E x0 0 roi"
proof (cases "pe_full_roi E roi")
  case True
  then have "loc = In_Input (pe_input_dsc E)" "s' = s" using run by (auto simp: input_buffer_def)
  then show ?thesis using True coh by (auto simp: ready_def valid_place_def place_value_def content_def coherent_def buffers_ok_def)
next
  case False
  obtain s1 k fresh where g: "get_buffer E 0 roi (pe_input_dsc E) 0 False s = (s1, k, fresh)" by (metis prod_cases3)
  note f = get_buffer_facts [OF env coh q g]
  let ?w = "write_buffer E (In_Line k) (pe_scale_input E roi (ps_heap s1 (pe_input E))) s1"
  have eq: "loc = In_Line k" "s' = (if fresh then ?w else s1)" using run False g by (auto simp: input_buffer_def)
  have x0: "ps_heap s1 (pe_input E) = x0" using f(3) by (simp add: coherent_def buffers_ok_def)
  have kn: "k < nlines s1" using f(1,2) by simp
  have v: "line_value s' k = direct E x0 0 roi"
    using f(10,11) False x0 by (cases fresh) (simp_all add: eq line_value_def)
  have "coherent E Q x0 {k} s'" using coherent_write [OF f(3) _ kn f(6)] f(3) by (simp add: eq)
  moreover have line: "the_line s' j = the_line s1 j" "nlines s' = nlines s1" "ps_pipe s' = ps_pipe s1" for j by (simp_all add: eq)
  ultimately have "coherent E Q x0 {} s'" using coherent_settled_hit [OF env _ q _ v] f(5) by simp
  moreover have "ready E s' (In_Line k) (0, roi)" unfolding ready_def valid_place_def line using kn f(4,5,6) by (simp del: not_None_eq)
  ultimately show ?thesis using v by (simp add: eq(1) place_value_line)
qed


lemma finish_node_facts:
  assumes coh: "coherent E Q x0 {ko} s" and ko: "ko < nlines s" "line_data (the_line s ko) = Some b"
    and run: "finish_node E pos roi_in in_dsc input ko dsc s = s'"
  shows "coherent E Q x0 {ko} s' \<and> nlines s' = nlines s \<and> ps_heap s' = ps_heap s \<and> line_data (the_line s' ko) = Some b \<and>
    line_dsc (the_line s' ko) = dsc \<and> line_hash (the_line s' ko) \<in> {line_hash (the_line s ko), DT_INVALID_HASH} \<and>
    (safe_line (ps_pipe s) ko \<longrightarrow> safe_line (ps_pipe s') ko)"
proof -
  have m: "\<not> mask_display (ps_pipe s)" using coh by (simp add: coherent_def buffers_ok_def)
  define s1 where "s1 = set_dsc ko dsc s"
  define s2 where "s2 = (if pe_input_hint E pos then mark_important (place_data E s1 input) (pe_pixels E roi_in * pe_bpp E in_dsc) s1 else s1)"
  have m1: "\<not> mask_display (ps_pipe s1)" "\<not> mask_display (ps_pipe s2)" using m by (simp_all add: s1_def s2_def)
  have s': "s' = (if pe_inner_histogram E pos then invalidate_data (line_data (the_line s2 ko)) (s2\<lparr>ps_pipe := (ps_pipe s2)\<lparr>nocache := True\<rparr>\<rparr>) else s2)"
    using m m1 unfolding run [symmetric] finish_node_def Let_def s2_def mark_important_def s1_def by simp
  have c1: "coherent E Q x0 {ko} s1" unfolding s1_def by (rule coherent_set_dsc [OF coh]) (use ko in auto)
  then have c2: "coherent E Q x0 {ko} s2" by (simp add: s2_def coherent_important)
  then have "coherent E Q x0 {ko} s'" by (simp add: s' coherent_invalidate)
  moreover have l1: "the_line s1 ko = (the_line s ko)\<lparr>line_dsc := dsc\<rparr>" "nlines s1 = nlines s" "ps_heap s1 = ps_heap s" "ncalls s1 = ncalls s"
    using ko by (simp_all add: s1_def the_line_set_dsc)
  moreover have l2: "the_line s2 ko \<in> {the_line s1 ko, (the_line s1 ko)\<lparr>line_used := - int (nlines s)\<rparr>}" "nlines s2 = nlines s"
      "ps_heap s2 = ps_heap s" "ncalls s2 = ncalls s"
    using ko l1(2,3,4) by (simp_all add: s2_def the_line_important)
  moreover have "the_line s' ko \<in> {the_line s2 ko, mark_invalid_cacheline (the_line s2 ko)}" "nlines s' = nlines s"
      "ps_heap s' = ps_heap s" "ncalls s' = ncalls s"
    using ko l2(2,3,4) by (simp_all add: s' the_line_invalidate)
  ultimately show ?thesis using ko by (auto simp: safe_line_def the_line_def [symmetric])
qed

lemma process_node_facts:
  assumes env: "sound_env E Q" and coh: "coherent E Q x0 {} s" and q: "(Suc p, roi) \<in> Q" and qi: "qi \<in> Q" "fst qi \<noteq> Suc p"
    and roi_in: "roi_in = pe_modify_roi_in E (Suc p) roi" and skip: "\<not> pe_skip E (Suc p)"
    and rd: "ready E s loc qi" and v: "place_value E s loc = direct E x0 p roi_in"
  shows "\<exists>ko s'. process_node E (Suc p) roi_in roi same loc s = (Some (In_Line ko), s') \<and> coherent E Q x0 {} s' \<and>
    ready E s' (In_Line ko) (Suc p, roi) \<and> place_value E s' (In_Line ko) = node_value E (Suc p) roi_in roi (direct E x0 p roi_in)"
proof -
  let ?v = "direct E x0 p roi_in"
  define dsc_out where "dsc_out = pe_output_format E (Suc p) (place_dsc s loc)"
  have dv: "place_dsc s loc = snd ?v" using v by (simp add: place_value_def prod_eq_iff)
  define s0 where "s0 = s\<lparr>ps_ticks := Suc (ps_ticks s)\<rparr>"
  have c0: "coherent E Q x0 {} s0" using coh by (simp add: s0_def)
  have m0: "\<not> mask_display (ps_pipe s0)" using c0 by (simp add: coherent_def buffers_ok_def)
  obtain s1 ko fresh where g: "get_buffer E (Suc p) roi dsc_out (pe_iop_order E (Suc p)) (pe_important E (Suc p)) s0 = (s1, ko, fresh)"
    by (metis prod_cases3)
  note f = get_buffer_facts [OF env c0 q g]
  have line0: "the_line s0 j = the_line s j" "nlines s0 = nlines s" "ps_pipe s0 = ps_pipe s" "ps_heap s0 = ps_heap s" for j by (simp_all add: s0_def)
  have apart: "loc \<noteq> In_Line ko"
  proof
    assume l: "loc = In_Line ko"
    then have k: "ko < nlines s" "safe_line (ps_pipe s) ko" "line_hash (the_line s ko) \<in> {request_hash E (fst qi) (snd qi), DT_INVALID_HASH}"
      using rd by (simp_all add: ready_def valid_place_def)
    have "request_hash E (fst qi) (snd qi) \<noteq> request_hash E (Suc p) roi"
      using sound_envD(9) [OF env, of "fst qi" "snd qi" "Suc p" roi] qi q by auto
    with k(3) have "line_hash (the_line s0 ko) \<noteq> request_hash E (Suc p) roi \<or> request_hash E (Suc p) roi = DT_INVALID_HASH"
      by (auto simp: line0)
    from f(13) [OF _ _ this] k show False by (simp add: line0)
  qed
  define s2 where "s2 = s1\<lparr>ps_ticks := Suc (ps_ticks s1)\<rparr>"
  define s3 where "s3 = s2\<lparr>ps_ticks := Suc (ps_ticks s2)\<rparr>"
  have line3: "the_line s3 j = the_line s1 j" "nlines s3 = nlines s1" "ps_pipe s3 = ps_pipe s1" "ps_heap s3 = ps_heap s1" for j
    by (simp_all add: s3_def s2_def)
  have c3: "coherent E Q x0 {ko} s3" using f(3) by (simp add: s3_def s2_def)
  have sl: "same_line (the_line s1 j) (the_line s j)" if "loc = In_Line j" for j
    using f(12) [of j] that rd apart by (auto simp: line0 ready_def valid_place_def)
  have val: "valid_place E s3 loc" using rd sl f(2)
    by (cases loc) (auto simp: valid_place_def ready_def line3 line0 same_line_def)
  have v3: "place_value E s3 loc = ?v" using v sl f(9)
    by (cases loc) (auto simp: place_value_def content_def line3 line0 same_line_def)
  have m2: "\<not> mask_display (ps_pipe s2)" using f(3) by (simp add: s2_def coherent_def buffers_ok_def)
  obtain b where b: "line_data (the_line s3 ko) = Some b" using f(6) by (auto simp: line3)
  have kn: "ko < nlines s3" using f(1,2) by (simp add: line3)
  have bb: "before_blend E x0 (Suc p) roi = fst (unblended E (Suc p) roi_in roi ?v)" by (simp add: before_blend_def roi_in)
  obtain r s4 where run: "pixelpipe_process_on_CPU E (Suc p) roi_in roi (place_dsc s loc) loc ko dsc_out s3 = (r, s4)" by fastforce
  obtain loc' dsc' where np: "r = Some (loc', dsc')" "coherent E Q x0 {ko} s4" "nlines s4 = nlines s3" "the_line s4 ko = the_line s3 ko"
      "(ps_heap s4 b, dsc') = node_value E (Suc p) roi_in roi ?v"
    using node_processed [OF env c3 kn b val apart v3 q bb] run by (auto simp: dsc_out_def dv)
  define s5 where "s5 = finish_node E (Suc p) roi_in (place_dsc s loc) loc' ko dsc' s4"
  have kn4: "ko < nlines s4" "line_data (the_line s4 ko) = Some b" using kn b np by simp_all
  note fin = finish_node_facts [OF np(2) kn4 s5_def [symmetric]]
  define s7 where "s7 = s5\<lparr>ps_ticks := Suc (Suc (ps_ticks s5))\<rparr>"
  have m1: "\<not> mask_display (ps_pipe s1)" using m2 by (simp add: s2_def)
  have out: "process_node E (Suc p) roi_in roi same loc s = (Some (In_Line ko), s7)"
    unfolding process_node_def
    by (simp add: Let_def no_stop [OF env] m0 m1 m2 g run np(1) s7_def flip: dsc_out_def s0_def s2_def s3_def s5_def)
  have line7: "the_line s7 j = the_line s5 j" "nlines s7 = nlines s5" "ps_pipe s7 = ps_pipe s5" "ps_heap s7 = ps_heap s5" for j
    by (simp_all add: s7_def)
  have safe4: "safe_line (ps_pipe s4) ko"
    using f(4) calls_process [OF run] np(4) unfolding safe_line_def by (simp add: line3 the_line_def)
  have val7: "line_value s7 ko = node_value E (Suc p) roi_in roi ?v" using fin np(5) by (simp add: line_value_def line7)
  have "request_hash E (Suc p) roi = line_hash (the_line s4 ko)" using f(5) np(4) by (simp add: line3)
  with fin have h7: "line_hash (the_line s7 ko) \<in> {request_hash E (Suc p) roi, DT_INVALID_HASH}" by (simp add: line7)
  have rd7: "ready E s7 (In_Line ko) (Suc p, roi)"
    using fin safe4 h7 kn np(3) by (simp add: ready_def valid_place_def line7)
  show ?thesis
  proof -
    have d: "direct E x0 (Suc p) roi = node_value E (Suc p) roi_in roi ?v" using skip by (simp add: roi_in)
    have "coherent E Q x0 {} s7"
    proof (rule coherent_settled)
      show "coherent E Q x0 (insert ko {}) s7" using fin by (simp add: s7_def)
      show "ko < 2 \<or> line_hash (the_line s7 ko) = DT_INVALID_HASH \<or> (\<forall>pos roi'. (pos, roi') \<in> Q \<longrightarrow>
          line_hash (the_line s7 ko) = request_hash E pos roi' \<longrightarrow> line_value s7 ko = direct E x0 pos roi')"
        using h7 sound_envD(9) [OF env q] val7 [folded d] by (auto simp del: direct.simps)
    qed
    then show ?thesis using out rd7 val7 by (simp add: place_value_line)
  qed
qed


lemma requests_bound: "(pos, r) \<in> set (requests E p roi) \<Longrightarrow> pos \<le> p"
  by (induction p arbitrary: roi) (auto split: if_splits intro: le_SucI)

lemma hd_requests: "requests E p roi \<noteq> []" "hd (requests E p roi) \<in> set (requests E p roi)"
proof -
  show "requests E p roi \<noteq> []" by (induction p arbitrary: roi) auto
  then show "hd (requests E p roi) \<in> set (requests E p roi)" by simp
qed

lemma run_facts:
  assumes env: "sound_env E Q"
  shows "coherent E Q x0 {} s \<Longrightarrow> set (requests E p roi) \<subseteq> Q \<Longrightarrow>
    \<exists>loc s'. dev_pixelpipe_process_rec E eq p roi s = (Some loc, s') \<and> coherent E Q x0 {} s' \<and>
      ready E s' loc (hd (requests E p roi)) \<and> place_value E s' loc = direct E x0 p roi"
proof (induction p arbitrary: roi s)
  case 0
  have q: "(0, roi) \<in> Q" using "0.prems"(2) by simp
  define s0 where "s0 = s\<lparr>ps_ticks := Suc (ps_ticks s)\<rparr>"
  have c0: "coherent E Q x0 {} s0" using "0.prems"(1) by (simp add: s0_def)
  obtain r s1 where fc: "from_cache E 0 roi s0 = (r, s1)" by fastforce
  note f = from_cache_facts [OF env c0 q fc]
  show ?case
  proof (cases r)
    case (Some k)
    then have "dev_pixelpipe_process_rec E eq 0 roi s = (Some (In_Line k), s1)" by (simp add: no_stop [OF env] fc flip: s0_def)
    then show ?thesis using f Some by simp
  next
    case None
    define s3 where "s3 = s1\<lparr>ps_ticks := Suc (Suc (ps_ticks s1))\<rparr>"
    obtain loc s4 where ib: "input_buffer E roi s3 = (loc, s4)" by fastforce
    have c3: "coherent E Q x0 {} s3" using f by (simp add: s3_def)
    have "dev_pixelpipe_process_rec E eq 0 roi s = (Some loc, s4)"
      using None by (simp add: no_stop [OF env] fc ib [unfolded s3_def] flip: s0_def)
    then show ?thesis using input_buffer_facts [OF env c3 q ib] by simp
  qed
next
  case (Suc p)
  define s0 where "s0 = s\<lparr>ps_ticks := Suc (ps_ticks s)\<rparr>"
  have c0: "coherent E Q x0 {} s0" using Suc.prems(1) by (simp add: s0_def)
  show ?case
  proof (cases "pe_skip E (Suc p)")
    case True
    with Suc.IH [OF c0, of roi] Suc.prems(2) show ?thesis by (simp add: no_stop [OF env] flip: s0_def)
  next
    case False
    let ?ri = "pe_modify_roi_in E (Suc p) roi"
    have q: "(Suc p, roi) \<in> Q" and sub: "set (requests E p ?ri) \<subseteq> Q" using Suc.prems(2) False by simp_all
    obtain r s1 where fc: "from_cache E (Suc p) roi s0 = (r, s1)" by fastforce
    note f = from_cache_facts [OF env c0 q fc]
    show ?thesis
    proof (cases r)
      case (Some k)
      then have "dev_pixelpipe_process_rec E eq (Suc p) roi s = (Some (In_Line k), s1)" using False by (simp add: no_stop [OF env] fc flip: s0_def)
      then show ?thesis using f Some False by simp
    next
      case None
      define s3 where "s3 = s1\<lparr>ps_ticks := Suc (Suc (ps_ticks s1))\<rparr>"
      have c3: "coherent E Q x0 {} s3" using f by (simp add: s3_def)
      obtain loc s4 where rec: "dev_pixelpipe_process_rec E eq p ?ri s3 = (Some loc, s4)" and c4: "coherent E Q x0 {} s4"
        and rd: "ready E s4 loc (hd (requests E p ?ri))" and v: "place_value E s4 loc = direct E x0 p ?ri"
        using Suc.IH [OF c3 sub] by blast
      let ?qi = "hd (requests E p ?ri)"
      have qi: "?qi \<in> Q" "fst ?qi \<noteq> Suc p"
        using hd_requests(2) [of E p ?ri] sub requests_bound [of "fst ?qi" "snd ?qi" E p ?ri] by auto
      obtain ko s' where pn: "process_node E (Suc p) ?ri roi (eq ?ri roi) loc s4 = (Some (In_Line ko), s')" "coherent E Q x0 {} s'"
        "ready E s' (In_Line ko) (Suc p, roi)" "place_value E s' (In_Line ko) = node_value E (Suc p) ?ri roi (direct E x0 p ?ri)"
        using process_node_facts [OF env c4 q qi refl False rd v, of "eq ?ri roi"] by blast
      have "dev_pixelpipe_process_rec E eq (Suc p) roi s = (Some (In_Line ko), s')"
        using None False pn(1) rec by (simp add: no_stop [OF env] fc s3_def Let_def flip: s0_def)
      then show ?thesis using pn False by simp
    qed
  qed
qed

text \<open>
  C1: Running a pipe over its cache gives what the modules compute without one. If every line of the cache and the blend cache hold
  what they would be used for (for the requests \<open>Q\<close>), then a run that is not stopped returns a buffer whose pixels and description are
  those of the direct evaluation of the modules on the input image, whatever was hit, evicted, converted in place or taken from the
  blend cache on the way, and it leaves the cache in that condition, so the next run may use it. Asked of the pipe (\<open>sound_env\<close>): what a
  module computes, pixels and \<open>pipe->dsc\<close>, is a function of its input, the two descriptions and the regions; a module that uses the
  blend cache leaves \<open>pipe->dsc\<close> alone (for one that does not, a hit loses the change) and blends in the colour space of its input; no mask is displayed; the input
  image is raw or there is no working profile; the hashes of the requests in \<open>Q\<close> differ; buffers are not empty and freshly allocated ones not in use.
\<close>

theorem cached_run_equals_direct:
  assumes "sound_env E Q" and "coherent E Q x0 {} s" and "set (requests E pos roi) \<subseteq> Q"
  shows "\<exists>loc s'. dev_pixelpipe_process_rec E eq pos roi s = (Some loc, s') \<and>
     content E s' loc = fst (direct E x0 pos roi) \<and> place_dsc s' loc = snd (direct E x0 pos roi) \<and> coherent E Q x0 {} s'"
proof -
  obtain loc s' where "dev_pixelpipe_process_rec E eq pos roi s = (Some loc, s')" "coherent E Q x0 {} s'" "place_value E s' loc = direct E x0 pos roi"
    using run_facts [OF assms] by blast
  moreover have "content E s' loc = fst (direct E x0 pos roi)" "place_dsc s' loc = snd (direct E x0 pos roi)"
    using calculation(3) [symmetric] by (simp_all add: place_value_def)
  ultimately show ?thesis by blast
qed


section \<open>A whole run\<close>

text \<open>
  \<open>dt_dev_pixelpipe_process\<close> on the CPU: \<open>is_image\<close> switches the cache off, a caller that has \<open>claimed\<close> the device keeps its lines,
  \<open>obsolete\<close> is the flag \<open>cache_obsolete\<close>. A run that is finished leaves the back buffer and its hash.
\<close>

definition dt_dev_pixelpipe_process :: "('r, 'px, 'd) process_env \<Rightarrow> ('r \<Rightarrow> 'r \<Rightarrow> bool) \<Rightarrow> bool \<Rightarrow> bool \<Rightarrow> bool \<Rightarrow> nat \<Rightarrow> 'r \<Rightarrow>
    ('px, 'd) process_state \<Rightarrow> ('px \<times> 64 word) option \<times> ('px, 'd) process_state" where
  "dt_dev_pixelpipe_process E eq is_image claimed obsolete pos roi s =
     (let p = (ps_pipe s)\<lparr>nocache := is_image\<rparr>;
          p = (if claimed then p else dt_dev_pixelpipe_cache_checkmem p);
          p = (if obsolete then dt_dev_pixelpipe_cache_flush p else p);
          s = s\<lparr>ps_pipe := p\<lparr>mask_display := False\<rparr>\<rparr>
      in case dev_pixelpipe_process_rec E eq pos roi s of
           (None, s) \<Rightarrow> (None, s)
         | (Some loc, s) \<Rightarrow>
             (Some (content E s loc, request_hash E pos roi),
              if claimed then s else s\<lparr>ps_pipe := dt_dev_pixelpipe_cache_report (ps_pipe s)\<rparr>))"

text \<open>What holds between runs, also after one that was stopped or displayed a mask: only the bookkeeping of the buffers.\<close>

definition storage_ok :: "('r, 'px, 'd) process_env \<Rightarrow> 'px \<Rightarrow> ('px, 'd) process_state \<Rightarrow> bool" where
  "storage_ok E x0 s \<longleftrightarrow> pc_ok (pipe_cache (ps_pipe s)) \<and> ps_heap s (pe_input E) = x0 \<and>
     (\<forall>k<nlines s. line_data (the_line s k) \<noteq> Some (pe_input E))"

text \<open>Freeing lines, invalidating them and counting them leave what remains coherent.\<close>

definition lines_weakened :: "'b dt_dev_pixelpipe_t \<Rightarrow> 'b dt_dev_pixelpipe_t \<Rightarrow> bool" where
  "lines_weakened p p' \<longleftrightarrow> pc_ok (pipe_cache p') \<and> pc_entries (pipe_cache p') = pc_entries (pipe_cache p) \<and>
     bcache_data p' = bcache_data p \<and> bcache_hash p' \<in> {bcache_hash p, DT_INVALID_HASH} \<and>
     (\<forall>k<pc_entries (pipe_cache p). same_line (pc_lines (pipe_cache p') ! k) (pc_lines (pipe_cache p) ! k) \<or>
        line_data (pc_lines (pipe_cache p') ! k) = None)"

lemma weakened_refl: "pc_ok (pipe_cache p) \<Longrightarrow> lines_weakened p p"
  by (simp add: lines_weakened_def)

lemma checkmem_weakened:
  assumes "pc_ok (pipe_cache p)"
  shows "lines_weakened p (dt_dev_pixelpipe_cache_checkmem p)"
proof (cases "pc_entries (pipe_cache p) = 2")
  case True
  then show ?thesis using assms by (simp add: dt_dev_pixelpipe_cache_checkmem_def Let_def lines_weakened_def)
next
  case False
  let ?c = "pipe_cache p"
  let ?c1 = "free_invalid_loop [2..<pc_entries ?c] ?c"
  have eq: "dt_dev_pixelpipe_cache_checkmem p = p\<lparr>pipe_cache := cline_stats (checkmem_loop ?c1)\<rparr>"
    using False by (simp add: dt_dev_pixelpipe_cache_checkmem_def Let_def)
  note res = checkmem_loop_result [of ?c1]
  have e: "pc_entries (checkmem_loop ?c1) = pc_entries ?c" using loop_resultD(1) [OF res] free_invalid_loop_frame [of "[2..<pc_entries ?c]" ?c] by simp
  have "same_line (pc_lines (checkmem_loop ?c1) ! k) (pc_lines ?c ! k) \<or> line_data (pc_lines (checkmem_loop ?c1) ! k) = None" for k
  proof (cases "pc_lines (checkmem_loop ?c1) ! k = pc_lines ?c1 ! k")
    case True
    then show ?thesis using free_invalid_loop_nth [of "[2..<pc_entries ?c]" ?c k] by (auto simp: freed_line_def)
  next
    case False
    from loop_resultD(5) [OF res this] show ?thesis by (simp add: freed_line_def)
  qed
  then show ?thesis using checkmem_ok [OF assms] e by (simp add: lines_weakened_def eq)
qed

lemma flush_weakened: "pc_ok (pipe_cache p) \<Longrightarrow> lines_weakened p (dt_dev_pixelpipe_cache_flush p)"
  using pc_flush.op_ok [of p]
  by (auto simp: lines_weakened_def dt_dev_pixelpipe_cache_flush_def dt_dev_pixelpipe_cache_invalidate_later_def nth_map_clines same_line_def)

lemma weakened_trans:
  assumes "lines_weakened p q" and "lines_weakened q r"
  shows "lines_weakened p r"
proof -
  have "same_line (pc_lines (pipe_cache r) ! k) (pc_lines (pipe_cache p) ! k) \<or> line_data (pc_lines (pipe_cache r) ! k) = None"
    if k: "k < pc_entries (pipe_cache p)" for k
  proof -
    let ?p = "pc_lines (pipe_cache p) ! k" and ?q = "pc_lines (pipe_cache q) ! k" and ?r = "pc_lines (pipe_cache r) ! k"
    have "same_line ?q ?p \<or> line_data ?q = None" "same_line ?r ?q \<or> line_data ?r = None"
      using assms k by (simp_all add: lines_weakened_def)
    then show ?thesis using same_line_trans [of ?q ?p ?r] by (auto simp: same_line_def)
  qed
  then show ?thesis using assms unfolding lines_weakened_def by auto
qed

lemma weakened_coherent:
  assumes w: "lines_weakened (ps_pipe s) p" and st: "storage_ok E x0 s" and m: "\<not> mask_display p"
    and c: "(lines_coherent E Q x0 {} s \<and> blend_coherent E Q x0 s) \<or>
      (bcache_hash p = DT_INVALID_HASH \<and> (\<forall>k<nlines s. 2 \<le> k \<longrightarrow> line_hash (pc_lines (pipe_cache p) ! k) = DT_INVALID_HASH))"
  shows "coherent E Q x0 {} (s\<lparr>ps_pipe := p\<rparr>)"
proof -
  let ?s = "s\<lparr>ps_pipe := p\<rparr>"
  have n: "nlines ?s = nlines s" and ok: "pc_ok (pipe_cache p)" using w by (simp_all add: lines_weakened_def)
  have line: "the_line ?s k = pc_lines (pipe_cache p) ! k" for k by (simp add: the_line_def)
  have kept: "same_line (the_line ?s k) (the_line s k) \<or> line_data (the_line ?s k) = None" if "k < nlines s" for k
    using w that unfolding line by (simp add: lines_weakened_def the_line_def)
  have "line_data (the_line ?s k) \<noteq> Some (pe_input E)" if "k < nlines s" for k
    using kept [OF that] st that by (auto simp: storage_ok_def same_line_def)
  then have b: "buffers_ok E x0 ?s" using st m ok n by (simp add: buffers_ok_def storage_ok_def)
  have "lines_coherent E Q x0 {} ?s"
  proof (cases "lines_coherent E Q x0 {} s")
    case True
    show ?thesis
    proof (rule lines_coherent_kept [OF True n])
      fix k assume "2 \<le> k" "k < nlines s" "k \<notin> {}"
      then show "k \<notin> {} \<and> line_kept s ?s k" using kept [of k] by (auto simp: line_kept_def line_value_def same_line_def)
    qed
  next
    case False
    with c have "\<forall>k<nlines s. 2 \<le> k \<longrightarrow> line_hash (the_line ?s k) = DT_INVALID_HASH" by (simp add: line)
    then show ?thesis using n by (auto simp: lines_coherent_def)
  qed
  moreover have "blend_coherent E Q x0 ?s" using c w by (auto simp: blend_coherent_def lines_weakened_def)
  ultimately show ?thesis using b by (simp add: coherent_def)
qed

lemma flushed_lines:
  "bcache_hash (dt_dev_pixelpipe_cache_flush p) = DT_INVALID_HASH"
  "k < pc_entries (pipe_cache p) \<Longrightarrow> 2 \<le> k \<Longrightarrow> 0 \<le> line_ioporder (pc_lines (pipe_cache p) ! k) \<Longrightarrow>
    line_hash (pc_lines (pipe_cache (dt_dev_pixelpipe_cache_flush p)) ! k) = DT_INVALID_HASH"
  by (simp_all add: dt_dev_pixelpipe_cache_flush_def dt_dev_pixelpipe_cache_invalidate_later_def nth_map_clines)


lemma checkmem_lines:
  assumes "2 \<le> k" and "k < pc_entries (pipe_cache p)"
  shows "pc_lines (pipe_cache (dt_dev_pixelpipe_cache_checkmem p)) ! k = pc_lines (pipe_cache p) ! k \<or>
    line_hash (pc_lines (pipe_cache (dt_dev_pixelpipe_cache_checkmem p)) ! k) = DT_INVALID_HASH"
proof (cases "pc_entries (pipe_cache p) = 2")
  case False
  let ?c = "pipe_cache p"
  let ?c1 = "free_invalid_loop [2..<pc_entries ?c] ?c"
  have eq: "pc_lines (pipe_cache (dt_dev_pixelpipe_cache_checkmem p)) = pc_lines (checkmem_loop ?c1)"
    using False by (simp add: dt_dev_pixelpipe_cache_checkmem_def Let_def)
  show ?thesis
  proof (cases "pc_lines (checkmem_loop ?c1) ! k = pc_lines ?c1 ! k")
    case True
    then show ?thesis using free_invalid_loop_nth [of "[2..<pc_entries ?c]" ?c k] by (auto simp: eq freed_line_def)
  next
    case False
    from loop_resultD(5) [OF checkmem_loop_result this] show ?thesis by (simp add: eq freed_line_def)
  qed
qed (use assms in simp)

lemma prepared_coherent:
  assumes st: "storage_ok E x0 s"
    and c: "(lines_coherent E Q x0 {} s \<and> blend_coherent E Q x0 s) \<or> (obsolete \<and> (\<forall>k<nlines s. 0 \<le> line_ioporder (the_line s k)))"
    and p1: "p1 = (ps_pipe s)\<lparr>nocache := is_image\<rparr>"
    and p2: "p2 = (if claimed then p1 else dt_dev_pixelpipe_cache_checkmem p1)"
    and p3: "p3 = (if obsolete then dt_dev_pixelpipe_cache_flush p2 else p2)"
  shows "coherent E Q x0 {} (s\<lparr>ps_pipe := p3\<lparr>mask_display := False\<rparr>\<rparr>)"
proof (rule weakened_coherent [OF _ st])
  have "pc_ok (pipe_cache (ps_pipe s))" using st by (simp add: storage_ok_def)
  then have w1: "lines_weakened (ps_pipe s) p1" by (simp add: p1 lines_weakened_def)
  then have ok1: "pc_ok (pipe_cache p1)" by (simp add: lines_weakened_def)
  have w2: "lines_weakened (ps_pipe s) p2" using w1 weakened_trans [OF w1 checkmem_weakened [OF ok1]] by (simp add: p2)
  then have ok2: "pc_ok (pipe_cache p2)" and n2: "pc_entries (pipe_cache p2) = nlines s" by (simp_all add: lines_weakened_def)
  have "lines_weakened (ps_pipe s) p3" using w2 weakened_trans [OF w2 flush_weakened [OF ok2]] by (simp add: p3)
  then show "lines_weakened (ps_pipe s) (p3\<lparr>mask_display := False\<rparr>)" by (simp add: lines_weakened_def)
  show "(lines_coherent E Q x0 {} s \<and> blend_coherent E Q x0 s) \<or> (bcache_hash (p3\<lparr>mask_display := False\<rparr>) = DT_INVALID_HASH \<and>
      (\<forall>k<nlines s. 2 \<le> k \<longrightarrow> line_hash (pc_lines (pipe_cache (p3\<lparr>mask_display := False\<rparr>)) ! k) = DT_INVALID_HASH))"
  proof (cases "lines_coherent E Q x0 {} s \<and> blend_coherent E Q x0 s")
    case False
    with c have ob: obsolete and io: "\<And>k. k < nlines s \<Longrightarrow> 0 \<le> line_ioporder (the_line s k)" by auto
    have "line_hash (pc_lines (pipe_cache p3) ! k) = DT_INVALID_HASH" if k: "2 \<le> k" "k < nlines s" for k
    proof (cases "pc_lines (pipe_cache p2) ! k = the_line s k")
      case True
      then show ?thesis using flushed_lines(2) [of k p2] k n2 io [OF k(2)] ob by (simp add: p3)
    next
      case False
      then have "line_hash (pc_lines (pipe_cache p2) ! k) = DT_INVALID_HASH"
        using checkmem_lines [of k p1] k by (auto simp: p2 p1 the_line_def split: if_splits)
      then show ?thesis using k n2 ob
        by (simp add: p3 dt_dev_pixelpipe_cache_flush_def dt_dev_pixelpipe_cache_invalidate_later_def nth_map_clines)
    qed
    then show ?thesis using ob flushed_lines(1) [of p2] by (simp add: p3)
  qed blast
qed simp

lemma coherent_report:
  "coherent E Q x0 X s \<Longrightarrow> coherent E Q x0 X (s\<lparr>ps_pipe := dt_dev_pixelpipe_cache_report (ps_pipe s)\<rparr>)"
  using pc_report.op_ok [of "ps_pipe s"]
  by (simp add: coherent_def buffers_ok_def lines_coherent_def blend_coherent_def line_value_def the_line_def dt_dev_pixelpipe_cache_report_def)

lemma process_facts:
  assumes "sound_env E Q" and "set (requests E pos roi) \<subseteq> Q" and "storage_ok E x0 s"
    and "(lines_coherent E Q x0 {} s \<and> blend_coherent E Q x0 s) \<or> (obsolete \<and> (\<forall>k<nlines s. 0 \<le> line_ioporder (the_line s k)))"
  shows "\<exists>s'. dt_dev_pixelpipe_process E eq is_image claimed obsolete pos roi s =
      (Some (fst (direct E x0 pos roi), request_hash E pos roi), s') \<and> coherent E Q x0 {} s'"
proof -
  define p1 where "p1 = (ps_pipe s)\<lparr>nocache := is_image\<rparr>"
  define p2 where "p2 = (if claimed then p1 else dt_dev_pixelpipe_cache_checkmem p1)"
  define p3 where "p3 = (if obsolete then dt_dev_pixelpipe_cache_flush p2 else p2)"
  let ?s = "s\<lparr>ps_pipe := p3\<lparr>mask_display := False\<rparr>\<rparr>"
  from run_facts [OF assms(1) prepared_coherent [OF assms(3,4) p1_def p2_def p3_def] assms(2), of eq]
  obtain loc s' where r: "dev_pixelpipe_process_rec E eq pos roi ?s = (Some loc, s')" "coherent E Q x0 {} s'"
    "place_value E s' loc = direct E x0 pos roi" by blast
  have "content E s' loc = fst (direct E x0 pos roi)" using r(3) [symmetric] by (simp add: place_value_def)
  then have "dt_dev_pixelpipe_process E eq is_image claimed obsolete pos roi s = (Some (fst (direct E x0 pos roi), request_hash E pos roi),
      if claimed then s' else s'\<lparr>ps_pipe := dt_dev_pixelpipe_cache_report (ps_pipe s')\<rparr>)"
    using r(1) by (simp add: dt_dev_pixelpipe_process_def Let_def p1_def p2_def p3_def cong: if_cong)
  then show ?thesis using r(2) coherent_report [OF r(2)] by simp
qed

text \<open>
  Processing a pipe puts into the back buffer what the modules compute from the input image, under the hash of the whole pipe. The
  cache it starts with may hold anything when it was declared obsolete (after a run that was stopped, or a change of the nodes), and
  otherwise has to be coherent; in both cases it is coherent afterwards, so any further run without a change of the pipe gives the
  direct evaluation again.
\<close>

theorem process_fills_backbuf:
  assumes "sound_env E Q" and "set (requests E pos roi) \<subseteq> Q" and "storage_ok E x0 s"
    and "(lines_coherent E Q x0 {} s \<and> blend_coherent E Q x0 s) \<or> (obsolete \<and> (\<forall>k<nlines s. 0 \<le> line_ioporder (the_line s k)))"
  shows "\<exists>s'. dt_dev_pixelpipe_process E eq is_image claimed obsolete pos roi s =
      (Some (fst (direct E x0 pos roi), request_hash E pos roi), s') \<and> coherent E Q x0 {} s'"
  using process_facts [OF assms] .

section \<open>Runs that are stopped\<close>

text \<open>What every run keeps, wherever it is stopped and whatever the modules do: the bookkeeping of the lines.\<close>

definition storage :: "('r, 'px, 'd) process_env \<Rightarrow> ('px, 'd) process_state \<Rightarrow> bool" where
  "storage E s \<longleftrightarrow> pc_ok (pipe_cache (ps_pipe s)) \<and>
     (\<forall>k<nlines s. line_data (the_line s k) \<noteq> Some (pe_input E) \<and> 0 \<le> line_ioporder (the_line s k))"

definition alloc_ok :: "('r, 'px, 'd) process_env \<Rightarrow> bool" where
  "alloc_ok E \<longleftrightarrow> (\<forall>p hash sz. pe_alloc E p hash sz \<noteq> pe_input E \<and>
       fresh_buffer (Some (pe_alloc E p hash sz)) (fill_line p hash sz) (pipe_cache p)) \<and> (\<forall>pos. 0 \<le> pe_iop_order E pos)"

lemma storage_same_lines:
  "storage E s \<Longrightarrow> pipe_cache (ps_pipe s') = pipe_cache (ps_pipe s) \<Longrightarrow> storage E s'"
  by (simp add: storage_def the_line_def)

lemma storage_simps [simp]:
  "storage E (s\<lparr>ps_ticks := t\<rparr>) = storage E s" "storage E (s\<lparr>ps_blend_cache := c\<rparr>) = storage E s"
  "storage E (write_buffer E' loc x s) = storage E s" "storage E (s\<lparr>ps_pipe := (ps_pipe s)\<lparr>mask_display := m\<rparr>\<rparr>) = storage E s"
  "storage E (s\<lparr>ps_pipe := (ps_pipe s)\<lparr>nocache := m\<rparr>\<rparr>) = storage E s"
  "storage E (s\<lparr>ps_pipe := (ps_pipe s)\<lparr>bcache_hash := h\<rparr>\<rparr>) = storage E s" "storage E (get_fast_blendcache E' h s) = storage E s"
  by (auto simp: storage_def the_line_def get_fast_blendcache_def)

lemma storage_pipe [simp]: "pipe_cache p = pipe_cache (ps_pipe s) \<Longrightarrow> storage E (s\<lparr>ps_pipe := p\<rparr>) = storage E s"
  by (simp add: storage_def the_line_def)

lemma storage_set_dsc [simp]: "storage E s \<Longrightarrow> storage E (set_dsc k d s)"
proof (cases "k < nlines s")
  case True
  assume st: "storage E s"
  have "pc_ok (pipe_cache (ps_pipe (set_dsc k d s)))"
    using st True by (auto simp: set_dsc_def upd_cache_def the_line_def storage_def intro!: set_line_same_buffer_ok)
  then show ?thesis using st True by (auto simp: storage_def the_line_set_dsc)
next
  case False
  assume st: "storage E s"
  have "pipe_cache (ps_pipe (set_dsc k d s)) = pipe_cache (ps_pipe s)"
    using False by (simp add: set_dsc_def upd_cache_def set_line_def list_update_beyond)
  then show ?thesis by (rule storage_same_lines [OF st])
qed

lemma storage_invalidate [simp]: "storage E s \<Longrightarrow> storage E (invalidate_data m s)"
  using invalidate_line.op_ok [of "ps_pipe s" m]
  by (auto simp: storage_def the_line_invalidate mark_invalid_cacheline_def) (simp add: invalidate_data_def)

lemma storage_important [simp]: "storage E s \<Longrightarrow> storage E (mark_important m sz s)"
  using important_line.op_ok [of "ps_pipe s" m sz]
  by (auto simp: storage_def the_line_important) (simp add: mark_important_def)

lemma get_by_hash_loop_io:
  assumes "get_by_hash_loop off hash sz ks c = (c', r)" and "\<forall>j\<in>set ks. j < pc_entries c"
  shows "line_ioporder (pc_lines c' ! j) = line_ioporder (pc_lines c ! j)"
  using assms
proof (induction ks arbitrary: c)
  case (Cons i ks)
  have "line_ioporder (pc_lines (set_line i ((pc_lines c ! i)\<lparr>line_hash := x\<rparr>) c) ! j) = line_ioporder (pc_lines c ! j)"
    "line_ioporder (pc_lines (set_line i ((pc_lines c ! i)\<lparr>line_used := u\<rparr>) c) ! j) = line_ioporder (pc_lines c ! j)" for x u
    using Cons.prems(2) by (simp_all add: nth_set_line)
  then show ?case using Cons by (auto simp: Let_def split: if_splits)
qed simp

lemma cache_fill_form:
  assumes "cache_fill p hash sz dsc order important mem = (q, k)"
  obtains p2 l where "get_cacheline p = (p2, k)" and "q = p2\<lparr>pipe_cache := set_line k l (resize_line k sz mem (pipe_cache p2))\<rparr>"
    and "line_data l = line_data (pc_lines (resize_line k sz mem (pipe_cache p2)) ! k)" and "line_ioporder l = order"
proof -
  obtain p2 i where g: "get_cacheline p = (p2, i)" by (cases "get_cacheline p")
  let ?c = "resize_line i sz mem (pipe_cache p2)"
  let ?l = "(pc_lines ?c ! i)\<lparr>line_dsc := dsc, line_hash := (if mask_display p2 then DT_INVALID_HASH else hash),
    line_used := (if \<not> mask_display p2 \<and> important then - int (pc_entries ?c) else 0), line_ioporder := order\<rparr>"
  have "fst (cache_fill p hash sz dsc order important mem) = p2\<lparr>pipe_cache := set_line i ?l ?c\<rparr>"
    "snd (cache_fill p hash sz dsc order important mem) = i" by (simp_all add: cache_fill_def Let_def g)
  then have "q = p2\<lparr>pipe_cache := set_line i ?l ?c\<rparr>" "k = i" unfolding assms by simp_all
  then show ?thesis using that [of p2 ?l] g by simp
qed

lemma get_storage:
  assumes get: "dt_dev_pixelpipe_cache_get p hash sz dsc order important mem = (q, k, fresh)" and ok: "pc_ok (pipe_cache p)" and j: "j < pc_entries (pipe_cache p)"
  shows "pc_entries (pipe_cache q) = pc_entries (pipe_cache p)" and "k < pc_entries (pipe_cache p)"
    and "line_data (pc_lines (pipe_cache q) ! j) \<in> {mem, line_data (pc_lines (pipe_cache p) ! j)}"
    and "line_ioporder (pc_lines (pipe_cache q) ! j) \<in> {order, line_ioporder (pc_lines (pipe_cache p) ! j)}"
proof -
  let ?n = "pc_entries (pipe_cache p)"
  obtain p1 r where se: "cache_search p hash sz = (p1, r)" by (cases "cache_search p hash sz")
  note sh = cache_search_shape [OF se]
  have n1: "pc_entries (pipe_cache p1) = ?n" using sh by (blast dest: entries_of_shape)
  have d1: "line_data (pc_lines (pipe_cache p1) ! i) = line_data (pc_lines (pipe_cache p) ! i)" if "i < ?n" for i
    using arg_cong [OF conjunct1 [OF sh], of "\<lambda>x. fst (x ! i)"] that n1 by simp
  have io1: "line_ioporder (pc_lines (pipe_cache p1) ! i) = line_ioporder (pc_lines (pipe_cache p) ! i)" if "i < ?n" for i
  proof -
    have a: "line_ioporder (pc_lines (age_lines (pipe_cache p)) ! i) = line_ioporder (pc_lines (pipe_cache p) ! i)" using that by (simp add: age_lines_nth)
    show ?thesis
      using se get_by_hash_loop_io [of _ hash sz "[2..<?n]" "age_lines (pipe_cache p)"] a
      by (auto simp: cache_search_def get_by_hash_def Let_def split: if_splits prod.splits)
  qed
  have "pc_entries (pipe_cache q) = ?n \<and> k < ?n \<and> line_data (pc_lines (pipe_cache q) ! j) \<in> {mem, line_data (pc_lines (pipe_cache p) ! j)} \<and>
    line_ioporder (pc_lines (pipe_cache q) ! j) \<in> {order, line_ioporder (pc_lines (pipe_cache p) ! j)}"
  proof (cases r)
    case (Some i)
    then have "q = p1" "k = i" using get se by (auto simp: dt_dev_pixelpipe_cache_get_def)
    then show ?thesis using search_lines(9) [OF se Some] n1 d1 [OF j] io1 [OF j] by simp
  next
    case None
    obtain p2' i where fi: "cache_fill p1 hash sz dsc order important mem = (p2', i)" by (cases "cache_fill p1 hash sz dsc order important mem")
    have qk: "q = p2'" "k = i" using get se None fi by (simp_all add: dt_dev_pixelpipe_cache_get_def)
    from fi obtain p2 l where g: "get_cacheline p1 = (p2, i)" and form: "p2' = p2\<lparr>pipe_cache := set_line i l (resize_line i sz mem (pipe_cache p2))\<rparr>"
      "line_data l = line_data (pc_lines (resize_line i sz mem (pipe_cache p2)) ! i)" "line_ioporder l = order"
      by (rule cache_fill_form)
    have two: "2 \<le> pc_entries (pipe_cache p1)" using ok n1 by (simp add: pc_ok_def)
    note f = get_cacheline_frame [OF g two]
    let ?c = "resize_line i sz mem (pipe_cache p2)"
    have i: "i < pc_entries ?c" and n2: "pc_entries (pipe_cache p2) = ?n" using f n1 by simp_all
    have "line_data (pc_lines ?c ! j) \<in> {mem, line_data (pc_lines (pipe_cache p2) ! j)} \<and>
        line_ioporder (pc_lines ?c ! j) = line_ioporder (pc_lines (pipe_cache p2) ! j)"
      using f by (auto simp: resize_line_def Let_def set_line_def nth_list_update)
    then show ?thesis using form f n1 n2 d1 [OF j] io1 [OF j] nth_set_line [OF i, of l j] i by (auto simp: qk)
  qed
  then show "pc_entries (pipe_cache q) = ?n" "k < ?n" "line_data (pc_lines (pipe_cache q) ! j) \<in> {mem, line_data (pc_lines (pipe_cache p) ! j)}"
    "line_ioporder (pc_lines (pipe_cache q) ! j) \<in> {order, line_ioporder (pc_lines (pipe_cache p) ! j)}" by blast+
qed

lemma storage_get:
  assumes "get_buffer E pos roi dsc order important s = (s', k, fresh)" and "storage E s" and "alloc_ok E" and "0 \<le> order"
  shows "storage E s'"
proof -
  let ?h = "request_hash E pos roi" and ?sz = "bufsize E pos roi"
  let ?m = "pe_alloc E (ps_pipe s) ?h ?sz"
  obtain p where g: "dt_dev_pixelpipe_cache_get (ps_pipe s) ?h ?sz dsc order important (Some ?m) = (p, k, fresh)" and s': "s' = s\<lparr>ps_pipe := p\<rparr>"
    using assms(1) by (auto simp: get_buffer_def Let_def split: prod.splits)
  have ok: "pc_ok (pipe_cache (ps_pipe s))" using assms(2) by (simp add: storage_def)
  then have "2 \<le> nlines s" by (simp add: pc_ok_def)
  then have pos: "0 < nlines s" by linarith
  note l = get_storage [OF g ok]
  have n: "pc_entries (pipe_cache p) = nlines s" by (rule l(1) [OF pos])
  have al: "?m \<noteq> pe_input E" using assms(3) by (simp add: alloc_ok_def)
  have "pc_ok (pipe_cache p)" by (rule get_ok [OF ok _ g]) (use assms(3) in \<open>simp add: alloc_ok_def\<close>)
  moreover have "line_data (pc_lines (pipe_cache p) ! j) \<noteq> Some (pe_input E) \<and> 0 \<le> line_ioporder (pc_lines (pipe_cache p) ! j)" if "j < nlines s" for j
    using l(3,4) [OF that] assms(2,4) al that by (auto simp: storage_def the_line_def)
  ultimately show ?thesis using n by (simp add: storage_def s' the_line_def)
qed

lemma storage_transform: "transform_input E profile t loc s = (s', loc') \<Longrightarrow> storage E s \<Longrightarrow> storage E s'"
  by (auto simp: transform_input_def set_place_dsc_def split: prod.splits place.splits)

lemma storage_module: "run_module E pos roi_in roi_out dsc_in input ko dsc s = (d, s') \<Longrightarrow> storage E s \<Longrightarrow> storage E s'"
  by (auto simp: run_module_def Let_def storage_same_lines split: if_splits prod.splits)

lemma storage_blend: "blend_node E profile pos roi_in roi_out input ko dsc s = (loc', dsc', s') \<Longrightarrow> storage E s \<Longrightarrow> storage E s'"
  by (auto simp: blend_node_def Let_def split: if_splits prod.splits dest: storage_transform)

lemma storage_stop: "pipe_has_shutdown E s = (stop, s') \<Longrightarrow> storage E s \<Longrightarrow> storage E s'"
  by (auto simp: pipe_has_shutdown_def)

lemma storage_early: "dev_pixelpipe_early_exit E s = (stop, s') \<Longrightarrow> storage E s \<Longrightarrow> storage E s'"
  by (auto simp: dev_pixelpipe_early_exit_def)

lemma storage_process:
  "pixelpipe_process_on_CPU E pos roi_in roi_out dsc_in input ko dsc s = (r, s') \<Longrightarrow> storage E s \<Longrightarrow> storage E s'"
  unfolding pixelpipe_process_on_CPU_def Let_def
  by (auto split: if_splits prod.splits dest!: storage_transform storage_module storage_blend storage_stop)

lemma storage_finish: "storage E s \<Longrightarrow> storage E (finish_node E pos roi_in in_dsc input ko dsc s)"
  by (simp add: finish_node_def Let_def flip: mark_important_def)


lemma storage_node:
  assumes "process_node E (Suc p) roi_in roi same loc s = (r, s')" and "storage E s" and "alloc_ok E"
  shows "storage E s'"
proof -
  have o: "0 \<le> pe_iop_order E (Suc p)" using assms(3) by (simp add: alloc_ok_def)
  show ?thesis
    using assms(1,2) unfolding process_node_def Let_def
    by (auto split: if_splits prod.splits option.splits dest!: storage_stop storage_process storage_get [OF _ _ assms(3) o]
        intro!: storage_finish dest: storage_finish)
qed

lemma storage_from_cache:
  assumes "from_cache E pos roi s = (r, s')" and "storage E s" and "alloc_ok E"
  shows "storage E s'"
proof -
  have o: "0 \<le> node_order E pos" using assms(3) by (simp add: alloc_ok_def node_order_def)
  have "storage E (s\<lparr>ps_pipe := p\<rparr>)" if "dt_dev_pixelpipe_cache_available (ps_pipe s) h sz = (p, hit)" for p h sz hit
    using that assms(2) by (auto simp: dt_dev_pixelpipe_cache_available_def Let_def storage_def the_line_def pc_ok_def shape_def split: if_splits)
  then show ?thesis using assms(1,2) unfolding from_cache_def Let_def
    by (auto split: if_splits prod.splits dest!: storage_get [OF _ _ assms(3) o])
qed

lemma storage_input:
  assumes "input_buffer E roi s = (loc, s')" and "storage E s" and "alloc_ok E"
  shows "storage E s'"
  using assms(1,2) unfolding input_buffer_def Let_def
  by (auto split: if_splits prod.splits dest!: storage_get [OF _ _ assms(3) order_refl])

lemma storage_run:
  assumes "alloc_ok E"
  shows "dev_pixelpipe_process_rec E eq p roi s = (r, s') \<Longrightarrow> storage E s \<Longrightarrow> storage E s'"
proof (induction p arbitrary: roi s r s')
  case 0
  then show ?case
    by (auto simp: Let_def split: if_splits prod.splits option.splits dest!: storage_stop storage_early storage_from_cache [OF _ _ assms]
        storage_input [OF _ _ assms])
next
  case (Suc p)
  show ?case using Suc.prems
    by (auto simp: Let_def split: if_splits prod.splits option.splits dest!: storage_stop storage_early storage_from_cache [OF _ _ assms]
        storage_node [OF _ _ assms] dest: Suc.IH)
qed


text \<open>
  C10: A pipe recovers from a run that went wrong. Whatever happened in a run - it was stopped at any of its checks, modules displayed
  their masks, colour spaces were converted in place - the bookkeeping of the cache is intact, and processing the pipe with the cache
  declared obsolete gives the direct evaluation on the input image as it is then. The second run is under the conditions of a run over
  the cache (\<open>sound_env\<close>: it is not stopped and displays no mask, a module that uses the blend cache leaves \<open>pipe->dsc\<close> alone and blends in the
  colour space of its input, the input image is raw or there is no working profile, hashes of its requests differ, allocated buffers are not in use).
\<close>

theorem obsolete_cache_recovers:
  assumes "alloc_ok E0" and "pe_input E0 = pe_input E" and "storage E0 s" and "dev_pixelpipe_process_rec E0 eq0 pos0 roi0 s = (r, s1)"
    and "sound_env E Q" and "set (requests E pos roi) \<subseteq> Q"
  shows "\<exists>s2. dt_dev_pixelpipe_process E eq is_image claimed True pos roi s1 =
      (Some (fst (direct E (ps_heap s1 (pe_input E)) pos roi), request_hash E pos roi), s2) \<and>
    coherent E Q (ps_heap s1 (pe_input E)) {} s2"
proof -
  have st: "storage E0 s1" by (rule storage_run [OF assms(1,4,3)])
  then have "storage_ok E (ps_heap s1 (pe_input E)) s1" "\<forall>k<nlines s1. 0 \<le> line_ioporder (the_line s1 k)"
    using assms(2) by (simp_all add: storage_def storage_ok_def)
  then show ?thesis
    using process_facts [OF assms(5,6), of _ s1 True] by blast
qed

definition ex_alloc :: "'d buffer_dsc dt_dev_pixelpipe_t \<Rightarrow> nat" where
  "ex_alloc p = Suc (sum_list (map (\<lambda>l. case line_data l of None \<Rightarrow> 0 | Some a \<Rightarrow> a) (pc_lines (pipe_cache p))))"

text \<open>Two modules: the first changes the white level, the second reads it, converts its input, blends, and keeps its output for the next run.\<close>

definition ex_env :: "(nat \<Rightarrow> bool) \<Rightarrow> (nat, int, int) process_env" where
  "ex_env stop = \<lparr>pe_hash_pipe = ex_hash_pipe, pe_roi_bytes = (\<lambda>r. [of_nat r]), pe_pixels = (\<lambda>r. 4), pe_bpp = (\<lambda>d. 4),
     pe_zero_dsc = \<lparr>bd_cst = 0, bd_rest = 1\<rparr>, pe_input_dsc = \<lparr>bd_cst = 0, bd_rest = 1\<rparr>, pe_input = 0, pe_full_roi = (\<lambda>r. r = 1),
     pe_scale_input = (\<lambda>r x. x * int r), pe_skip = (\<lambda>_. False), pe_is_gamma = (\<lambda>_. False), pe_preview = False, pe_distort = (\<lambda>_. False),
     pe_iop_order = int, pe_important = (\<lambda>_. False), pe_input_hint = (\<lambda>p. p = 2), pe_inner_histogram = (\<lambda>_. False),
     pe_modify_roi_in = (\<lambda>_ r. r), pe_output_format = (\<lambda>_ d. d), pe_input_cst = (\<lambda>p. if p = 2 then 2 else 0), pe_output_cst = int,
     pe_work_profile = True, pe_convert = (\<lambda>a b x. Some (x + 10 * (b - a))), pe_process = (\<lambda>p _ _ _ d x. (x * bd_rest d + 2 * x + int p, if p = 1 then d\<lparr>bd_rest := 4 * bd_rest d\<rparr> else d)),
     pe_masks = (\<lambda>_. False),
     pe_transform_for_blend = (\<lambda>p. p = 2), pe_blend_cst = (\<lambda>p c. int p), pe_wants_blending = (\<lambda>p. p = 2), pe_blend_masks = (\<lambda>_. False), pe_blend = (\<lambda>_ _ _ x y. x + y),
     pe_fast_blend = (\<lambda>p. p = 2), pe_params_bytes = (\<lambda>p. [of_nat p]), pe_blend_mem = Some 1, pe_alloc = (\<lambda>p _ _. ex_alloc p),
     pe_stop = stop, pe_early = (\<lambda>_. False)\<rparr>"

definition ex_run_state :: "(int, int) process_state" where
  "ex_run_state = \<lparr>ps_pipe = \<lparr>pipe_cache = \<lparr>pc_lines = init_lines 6 \<lparr>bd_cst = 0, bd_rest = 1\<rparr>, pc_allmem = 0, pc_memlimit = 0, pc_calls = 0,
       pc_lastline = 0, pc_tests = 0, pc_hits = 0, pc_lused = 0, pc_linvalid = 0, pc_limportant = 0\<rparr>,
     mask_display = False, nocache = False, bcache_data = None, bcache_hash = 0\<rparr>, ps_heap = (\<lambda>_. 5), ps_blend_cache = 0, ps_ticks = 0\<rparr>"

lemma ex_alloc_fresh: "fresh_buffer (Some (ex_alloc p)) k (pipe_cache p)"
proof -
  have "line_data (pc_lines (pipe_cache p) ! j) \<noteq> Some (ex_alloc p)" if "j < pc_entries (pipe_cache p)" for j
    using nth_le_sum_list [OF that, of "\<lambda>l. case line_data l of None \<Rightarrow> 0 | Some a \<Rightarrow> a"] by (auto simp: ex_alloc_def)
  then show ?thesis by (simp add: fresh_buffer_def)
qed

lemma ex_alloc_pos [simp]: "0 < ex_alloc p"
  by (simp add: ex_alloc_def)

lemma ex_fields:
  "pe_alloc (ex_env stop) p h n = ex_alloc p" "pe_input (ex_env stop) = 0" "pe_stop (ex_env stop) = stop" "\<not> pe_early (ex_env stop) t"
  "\<not> pe_masks (ex_env stop) pos" "\<not> pe_blend_masks (ex_env stop) pos" "pe_fast_blend (ex_env stop) pos = (pos = 2)"
  "snd (pe_process (ex_env stop) 2 ri ro di d x) = d" "bd_cst (pe_input_dsc (ex_env stop)) = 0" "pe_transform_for_blend (ex_env stop) pos = (pos = 2)"
  "pe_blend_cst (ex_env stop) 2 c = 2" "pe_input_cst (ex_env stop) 2 = 2" "pe_iop_order (ex_env stop) pos = int pos"
  by (simp_all add: ex_env_def)

lemma ex_requests: "requests (ex_env stop) 2 2 = [(2, 2), (1, 2), (0, 2)]"
  by (simp add: ex_env_def numeral_2_eq_2)

lemma ex_hashes:
  "request_hash (ex_env stop) 2 2 \<noteq> request_hash (ex_env stop) 1 2" "request_hash (ex_env stop) 2 2 \<noteq> request_hash (ex_env stop) 0 2"
  "request_hash (ex_env stop) 1 2 \<noteq> request_hash (ex_env stop) 0 2"
  by code_simp+

lemma ex_sound: "sound_env (ex_env (\<lambda>_. False)) (set (requests (ex_env (\<lambda>_. False)) 2 2))"
proof -
  let ?E = "ex_env (\<lambda>_. False)"
  have "inj_on (\<lambda>(pos, roi). request_hash ?E pos roi) {(2, 2), (1, 2), (0, 2)}"
    using ex_hashes [of "\<lambda>_. False"] by (auto simp: inj_on_def simp del: One_nat_def)
  moreover have "inj_on (\<lambda>(pos, roi). piece_process_hash ?E pos roi) {(pos, roi). (pos, roi) \<in> {(2, 2), (1, 2), (0, 2)} \<and> pe_fast_blend ?E pos}"
    by (auto simp: inj_on_def ex_env_def)
  moreover have "\<forall>(pos, roi)\<in>{(2, 2), (1, 2), (0, 2)}. 0 < bufsize ?E pos roi" by (simp add: bufsize_def ex_env_def)
  ultimately show ?thesis
    unfolding sound_env_def ex_requests list.set by (simp add: ex_fields ex_alloc_fresh IOP_CS_RAW_def)
qed

lemma ex_storage: "storage (ex_env stop) ex_run_state" "coherent (ex_env stop) Q 5 {} ex_run_state"
proof -
  have n: "nlines ex_run_state = 6" by (simp add: ex_run_state_def)
  have l: "line_data (the_line ex_run_state k) = None" "line_hash (the_line ex_run_state k) = DT_INVALID_HASH"
    "line_ioporder (the_line ex_run_state k) = 0" if "k < 6" for k
    using that by (simp_all add: ex_run_state_def the_line_def init_lines_def)
  have "pc_ok (pipe_cache (ps_pipe ex_run_state))"
    by (rule no_buffers_ok) (auto simp: ex_run_state_def init_lines_def)
  then show "storage (ex_env stop) ex_run_state" using l n by (simp add: storage_def)
  show "coherent (ex_env stop) Q 5 {} ex_run_state"
    using \<open>pc_ok _\<close> l n by (simp add: coherent_def buffers_ok_def lines_coherent_def blend_coherent_def) (simp add: ex_run_state_def ex_env_def)
qed

lemma ex_direct: "direct (ex_env stop) 5 2 2 = (289, \<lparr>bd_cst = 2, bd_rest = 4\<rparr>)"
  by code_simp

theorem cached_run_equals_direct_witness:
  "\<exists>loc s'. dev_pixelpipe_process_rec (ex_env (\<lambda>_. False)) (=) 2 2 ex_run_state = (Some loc, s') \<and>
     content (ex_env (\<lambda>_. False)) s' loc = 289 \<and> place_dsc s' loc = \<lparr>bd_cst = 2, bd_rest = 4\<rparr>"
  using cached_run_equals_direct [OF ex_sound ex_storage(2) order_refl, of "(=)"] by (auto simp: ex_direct)

theorem process_fills_backbuf_witness:
  "\<exists>s'. dt_dev_pixelpipe_process (ex_env (\<lambda>_. False)) (=) False False False 2 2 ex_run_state =
     (Some (289, request_hash (ex_env (\<lambda>_. False)) 2 2), s')"
proof -
  have "storage_ok (ex_env (\<lambda>_. False)) 5 ex_run_state"
    using ex_storage(1) [of "\<lambda>_. False"] by (simp add: storage_ok_def storage_def) (simp add: ex_run_state_def)
  from process_fills_backbuf [OF ex_sound order_refl this, of False "(=)" False False] coherent_parts [OF ex_storage(2)]
  show ?thesis by (auto simp: ex_direct)
qed


theorem obsolete_cache_recovers_witness:
  "\<exists>s1 s2. dev_pixelpipe_process_rec (ex_env (\<lambda>t. t = 6)) (=) 2 2 ex_run_state = (None, s1) \<and>
     dt_dev_pixelpipe_process (ex_env (\<lambda>_. False)) (=) False False True 2 2 s1 =
       (Some (289, request_hash (ex_env (\<lambda>_. False)) 2 2), s2)"
proof -
  have al: "alloc_ok (ex_env (\<lambda>t. t = 6))" by (simp add: alloc_ok_def ex_fields ex_alloc_fresh)
  have "fst (dev_pixelpipe_process_rec (ex_env (\<lambda>t. t = 6)) (=) 2 2 ex_run_state) = None"
    "ps_heap (snd (dev_pixelpipe_process_rec (ex_env (\<lambda>t. t = 6)) (=) 2 2 ex_run_state)) 0 = 5" by code_simp+
  then obtain s1 where run: "dev_pixelpipe_process_rec (ex_env (\<lambda>t. t = 6)) (=) 2 2 ex_run_state = (None, s1)" and h: "ps_heap s1 0 = 5"
    by (metis prod.collapse)
  from obsolete_cache_recovers [OF al _ ex_storage(1) run ex_sound order_refl, of "(=)" False False]
  show ?thesis using run h by (auto simp: ex_fields ex_direct)
qed


text \<open>
  A hit in the blend cache gives the pixels of the module but not what it does to \<open>pipe->dsc\<close>: the description then is the one the
  module was handed. A module such as exposure, which scales the white level, is described differently after a hit.
\<close>

lemma transform_input_bcache:
  assumes "transform_input E profile t loc s = (s', loc')"
  shows "bcache_data (ps_pipe s') = bcache_data (ps_pipe s)" and "bcache_hash (ps_pipe s') = bcache_hash (ps_pipe s)"
  using assms by (auto simp: transform_input_def set_place_dsc_def split: prod.splits place.splits)

lemma blend_node_rest: "blend_node E profile pos ri ro loc ko dsc s = (loc', dsc', s') \<Longrightarrow> bd_rest dsc' = bd_rest dsc"
  by (auto simp: blend_node_def Let_def split: if_splits prod.splits)

lemma blend_cache_hit_loses_description:
  assumes "pixelpipe_process_on_CPU E pos ri ro din loc ko dsc s = (Some (loc', dsc'), s')"
    and "pe_fast_blend E pos" and "bcache_data (ps_pipe s) \<noteq> None"
    and "bcache_hash (ps_pipe s) = piece_process_hash E pos ro" and "bcache_hash (ps_pipe s) \<noteq> DT_INVALID_HASH"
  shows "bd_rest dsc' = bd_rest dsc"
proof -
  have hit: "run_module E pos ri ro din i ko d u = (d, write_buffer E (In_Line ko) (ps_blend_cache u) u)"
    if "bcache_data (ps_pipe u) = bcache_data (ps_pipe s)" "bcache_hash (ps_pipe u) = bcache_hash (ps_pipe s)" for i d u
    using assms(2-5) that by (auto simp: run_module_def Let_def)
  show ?thesis
    using assms(1) unfolding pixelpipe_process_on_CPU_def Let_def pipe_has_shutdown_def
    by (auto simp: hit transform_input_bcache split: if_splits prod.splits dest!: blend_node_rest)
qed


text \<open>A line that was just handed out counts as available, whether it has been filled or not.\<close>

lemma fresh_line_size:
  assumes get: "dt_dev_pixelpipe_cache_get p hash sz dsc order important mem = (q, k, True)"
    and ok: "pc_ok (pipe_cache p)" and k: "2 \<le> k" "k < pc_entries (pipe_cache p)" and "mem \<noteq> None"
  shows "line_size (pc_lines (pipe_cache q) ! k) = sz"
proof -
  obtain p1 where se: "cache_search p hash sz = (p1, None)" and fi: "cache_fill p1 hash sz dsc order important mem = (q, k)"
    using get by (auto simp: dt_dev_pixelpipe_cache_get_def split: prod.splits option.splits)
  have n1: "pc_entries (pipe_cache p1) = pc_entries (pipe_cache p)" using cache_search_shape [OF se] by (blast dest: entries_of_shape)
  obtain p2 i where g: "get_cacheline p1 = (p2, i)" by (cases "get_cacheline p1")
  have "2 \<le> pc_entries (pipe_cache p1)" using k n1 by simp
  note f = get_cacheline_frame [OF g this]
  let ?c = "resize_line i sz mem (pipe_cache p2)"
  have ik: "i = k" using fi by (auto simp: cache_fill_def g Let_def)
  have n2: "pc_entries (pipe_cache p2) = pc_entries (pipe_cache p)" using f n1 by simp
  have "line_size (pc_lines ?c ! k) = sz" using k n2 assms(5) by (auto simp: ik resize_line_def Let_def set_line_def)
  then show ?thesis using fi k n2 by (auto simp: cache_fill_def g Let_def ik nth_set_line)
qed

text \<open>
  C34: A node that is stopped right after its buffer was reserved leaves a buffer that nothing has been written to, but whose line
  bears the hash of the finished node: the next run takes it from the cache as it is. Only a flush helps, which the code that stops a
  pipe has to ask for.
\<close>

theorem stopped_node_is_taken_for_done:
  assumes stop: "\<not> pe_stop E (ps_ticks s)" "pe_stop E (Suc (ps_ticks s))" and alloc: "alloc_ok E"
    and ok: "pc_ok (pipe_cache (ps_pipe s))" "\<not> mask_display (ps_pipe s)" "\<not> nocache (ps_pipe s)" and sz: "0 < bufsize E (Suc p) roi"
    and hash: "request_hash E (Suc p) roi \<noteq> DT_INVALID_HASH" and shown: "\<not> (pe_preview E \<and> pe_is_gamma E (Suc p))"
    and get: "get_buffer E (Suc p) roi (pe_output_format E (Suc p) (place_dsc s loc)) (pe_iop_order E (Suc p)) (pe_important E (Suc p)) s = (s1, k, True)"
    and k: "2 \<le> k"
  shows "\<exists>s' s''. process_node E (Suc p) roi_in roi same loc s = (None, s') \<and> from_cache E (Suc p) roi s' = (Some k, s'') \<and>
    ps_heap s'' = ps_heap s \<and> place_data E s'' (In_Line k) = place_data E s1 (In_Line k)"
proof -
  let ?h = "request_hash E (Suc p) roi" and ?sz = "bufsize E (Suc p) roi"
  let ?dsc = "pe_output_format E (Suc p) (place_dsc s loc)"
  obtain q where g: "dt_dev_pixelpipe_cache_get (ps_pipe s) ?h ?sz ?dsc (pe_iop_order E (Suc p)) (pe_important E (Suc p))
      (Some (pe_alloc E (ps_pipe s) ?h ?sz)) = (q, k, True)" and s1: "s1 = s\<lparr>ps_pipe := q\<rparr>"
    using get by (auto simp: get_buffer_def Let_def split: prod.splits)
  note l = get_lines [OF g ok(1,2) _ sz, simplified]
  define s' where "s' = s1\<lparr>ps_ticks := Suc (Suc (ps_ticks s))\<rparr>"
  have gt: "get_buffer E (Suc p) roi ?dsc (pe_iop_order E (Suc p)) (pe_important E (Suc p)) (s\<lparr>ps_ticks := t\<rparr>) = (s1\<lparr>ps_ticks := t\<rparr>, k, True)" for t
    using g by (simp add: get_buffer_def Let_def s1)
  have r1: "process_node E (Suc p) roi_in roi same loc s = (None, s')"
    using stop ok(2) by (simp add: process_node_def Let_def pipe_has_shutdown_def gt s'_def)
  have sq: "line_size (pc_lines (pipe_cache q) ! k) = ?sz" by (rule fresh_line_size [OF g ok(1) k l(1)]) simp
  have modes: "\<not> mask_display q" "\<not> nocache q" "pc_entries (pipe_cache q) = nlines s" using l(2-4) ok by simp_all
  obtain a hit where av: "dt_dev_pixelpipe_cache_available q ?h ?sz = (a, hit)" by fastforce
  have hit using available_iff [of q ?h ?sz] av k l(1,9) sq modes hash by auto
  have al: "pc_lines (pipe_cache a) = pc_lines (pipe_cache q)" "pc_allmem (pipe_cache a) = pc_allmem (pipe_cache q)"
    "mask_display a = mask_display q" "nocache a = nocache q"
    using av by (auto simp: dt_dev_pixelpipe_cache_available_def Let_def split: if_splits)
  obtain s2 j fresh where g2: "get_buffer E (Suc p) roi (get_output_format E (Suc p)) (node_order E (Suc p)) True (s'\<lparr>ps_pipe := a\<rparr>) = (s2, j, fresh)"
    by (metis prod_cases3)
  have "from_cache E (Suc p) roi s' = (Some j, s2)"
    using av \<open>hit\<close> g2 modes shown by (simp add: from_cache_def Let_def s'_def s1)
  obtain b where gb: "dt_dev_pixelpipe_cache_get a ?h ?sz (get_output_format E (Suc p)) (node_order E (Suc p)) True
      (Some (pe_alloc E a ?h ?sz)) = (b, j, fresh)" and s2: "s2 = s'\<lparr>ps_pipe := b\<rparr>"
    using g2 by (auto simp: get_buffer_def Let_def split: prod.splits)
  have "\<not> fresh"
  proof
    assume fresh
    then have "dt_dev_pixelpipe_cache_get a ?h ?sz (get_output_format E (Suc p)) (node_order E (Suc p)) True
      (Some (pe_alloc E a ?h ?sz)) = (b, j, True)" using gb by simp
    from get_fresh_none [OF this k] l(1,9) sq modes al hash show False by simp
  qed
  have "pc_ok (pipe_cache q)" by (rule get_ok [OF ok(1) _ g]) (use alloc in \<open>simp add: alloc_ok_def\<close>)
  then have oka: "pc_ok (pipe_cache a)" using al by (simp add: pc_ok_def shape_def)
  have ma: "\<not> mask_display a" using al modes by simp
  note m = get_lines [OF gb oka ma _ sz, simplified]
  from m(13) [OF \<open>\<not> fresh\<close>] have j: "2 \<le> j" "j < nlines s" "line_hash (pc_lines (pipe_cache q) ! j) = ?h" "line_size (pc_lines (pipe_cache q) ! j) = ?sz"
    and sm: "same_line (pc_lines (pipe_cache b) ! j) (pc_lines (pipe_cache q) ! j)" using m(1) al modes(3) by simp_all
  have "j = k"
  proof (rule ccontr)
    assume "j \<noteq> k"
    from l(7) [OF j(2) this] j hash have "line_hash (pc_lines (pipe_cache (ps_pipe s)) ! j) = ?h" "line_size (pc_lines (pipe_cache (ps_pipe s)) ! j) = ?sz"
      by (auto simp: same_line_def)
    with get_fresh_none [OF g j(1,2) ok(2,3) hash] show False by simp
  qed
  moreover have "place_data E s2 (In_Line j) = place_data E s1 (In_Line j)" using sm by (simp add: s2 s1 the_line_def same_line_def)
  moreover have "ps_heap s2 = ps_heap s" by (simp add: s2 s'_def s1)
  ultimately show ?thesis using r1 \<open>from_cache E (Suc p) roi s' = (Some j, s2)\<close> by blast
qed

theorem stopped_node_is_taken_for_done_witness:
  "\<exists>s' s''. process_node (ex_env (\<lambda>t. t = 1)) (Suc 0) 2 2 True (In_Input \<lparr>bd_cst = 0, bd_rest = 1\<rparr>) ex_run_state = (None, s') \<and>
     from_cache (ex_env (\<lambda>t. t = 1)) (Suc 0) 2 s' = (Some 5, s'') \<and> ps_heap s'' = ps_heap ex_run_state"
proof -
  let ?E = "ex_env (\<lambda>t. t = 1)" and ?loc = "In_Input \<lparr>bd_cst = 0, bd_rest = 1\<rparr>"
  have al: "alloc_ok ?E" by (simp add: alloc_ok_def ex_fields ex_alloc_fresh)
  have ok: "pc_ok (pipe_cache (ps_pipe ex_run_state))" using ex_storage(1) by (simp add: storage_def)
  have v: "\<not> mask_display (ps_pipe ex_run_state)" "\<not> nocache (ps_pipe ex_run_state)" "0 < bufsize ?E (Suc 0) 2"
    "request_hash ?E (Suc 0) 2 \<noteq> DT_INVALID_HASH" "\<not> (pe_preview ?E \<and> pe_is_gamma ?E (Suc 0))"
    "\<not> pe_stop ?E (ps_ticks ex_run_state)" "pe_stop ?E (Suc (ps_ticks ex_run_state))" by code_simp+
  have "snd (get_buffer ?E (Suc 0) 2 (pe_output_format ?E (Suc 0) (place_dsc ex_run_state ?loc)) (pe_iop_order ?E (Suc 0)) (pe_important ?E (Suc 0)) ex_run_state)
    = (5, True)" by code_simp
  then obtain s1 where g: "get_buffer ?E (Suc 0) 2 (pe_output_format ?E (Suc 0) (place_dsc ex_run_state ?loc)) (pe_iop_order ?E (Suc 0))
      (pe_important ?E (Suc 0)) ex_run_state = (s1, 5, True)" by (metis prod.collapse)
  from stopped_node_is_taken_for_done [OF v(6,7) al ok v(1,2,3,4,5) g, of 2 True] show ?thesis by auto
qed

end
