(* ===== verification/Tiling.thy ===== *)
theory Tiling
  imports Complex_Main "HOL-Library.Word" Prelude
begin

text \<open>
  Processing a module in tiles on the CPU (\<open>src/develop/tiling.c\<close>): how large the tiles are, which of them are processed, what is copied
  back of each. A buffer is the list of its pixels, one element for the \<open>bpp\<close> bytes of a pixel: every offset and length of the source is a
  multiple of \<open>bpp\<close>. A copy that leaves its buffer is \<open>None\<close>, and so is the division by an alignment of 0.

  Single precision is a function \<open>fl\<close> that rounds the result of each operation, which the theorems leave open. The number of tiles is the
  exact quotient rounded up: the quotient in single precision rounds up to the same number when the image has less than \<open>2 ^ 24\<close> pixels in
  either direction. The product of the two numbers of tiles is kept at its 32 bits. Extents are natural numbers: no difference of the
  source gets negative. A module's \<open>process\<close> is a parameter, and so are the tiles of modules that move pixels
  (\<open>_default_process_tiling_roi\<close>); what \<open>dt_dev_prepare_piece_cfa\<close> prepares from the region of a tile belongs to \<open>process\<close>.

  Shown: a module that looks no further than its overlap gives the same in tiles and on the whole, when the tiles are larger than their
  overlap; the copies stay inside the buffers for every module; tiles that are too narrow leave the rest unwritten; the tiles fit the memory.
\<close>

section \<open>Regions, requirements, numbers of tiles\<close>

record dt_iop_roi_t =
  roi_x :: int
  roi_y :: int
  roi_width :: nat
  roi_height :: nat
  roi_scale :: real

record dt_develop_tiling_t =
  tl_factor :: real
  tl_factor_cl :: real
  tl_maxbuf :: real
  tl_maxbuf_cl :: real
  tl_overhead :: nat
  tl_overlap :: nat
  tl_align :: nat

text \<open>\<open>_gcd\<close> and \<open>_lcm\<close>, on \<open>unsigned\<close>; the product of the second is an \<open>unsigned long\<close>.\<close>

function gcd_loop :: "32 word \<Rightarrow> 32 word \<Rightarrow> 32 word" where
  "gcd_loop a b = (if b \<noteq> 0 then gcd_loop b (a mod b) else a)"
  by pat_completeness auto
termination
  by (relation "measure (\<lambda>(a, b). unat b)") (auto simp: unat_mod word_neq_0_conv word_less_nat_alt)

declare gcd_loop.simps [simp del]

definition tiling_gcd :: "32 word \<Rightarrow> 32 word \<Rightarrow> 32 word" where
  "tiling_gcd a b = max (gcd_loop a b) 1"

definition tiling_lcm :: "32 word \<Rightarrow> 32 word \<Rightarrow> 32 word" where
  "tiling_lcm a b = ucast ((ucast a * ucast b :: 64 word) div ucast (tiling_gcd a b))"

definition maximum_number_tiles :: "int \<Rightarrow> int" where
  "maximum_number_tiles level = (if level = 3 then 0x40000000 else 10000)"

text \<open>\<open>default_tiling_callback\<close>, for a module that does not say what it needs.\<close>

definition default_tiling_callback :: "(real \<Rightarrow> real) \<Rightarrow> bool \<Rightarrow> dt_iop_roi_t \<Rightarrow> dt_iop_roi_t \<Rightarrow> dt_develop_tiling_t \<Rightarrow> dt_develop_tiling_t" where
  "default_tiling_callback fl full_roi roi_in roi_out t =
     (let ioratio = fl (fl (fl (real (roi_width roi_out)) * fl (real (roi_height roi_out))) /
                        fl (fl (real (roi_width roi_in)) * fl (real (roi_height roi_in))))
      in t\<lparr>tl_factor := fl (1 + ioratio), tl_factor_cl := fl (1 + ioratio), tl_maxbuf := 1, tl_maxbuf_cl := 1,
           tl_overhead := 0, tl_overlap := (if full_roi then 4 else 0), tl_align := 1\<rparr>)"

definition dt_tiling_piece_fits_host_memory :: "(real \<Rightarrow> real) \<Rightarrow> nat \<Rightarrow> nat \<Rightarrow> nat \<Rightarrow> nat \<Rightarrow> real \<Rightarrow> nat \<Rightarrow> bool" where
  "dt_tiling_piece_fits_host_memory fl available width height bpp factor overhead \<longleftrightarrow>
     nat \<lfloor>fl (fl (fl (fl (factor * fl (real width)) * fl (real height)) * fl (real bpp)) + fl (real overhead))\<rfloor> \<le> available"


section \<open>The size of the tiles\<close>

text \<open>The memory the module's requirements are asked for: zeroed, with the two fields of the GPU marked as not set.\<close>

definition tiling_request :: "(dt_develop_tiling_t \<Rightarrow> dt_develop_tiling_t) \<Rightarrow> dt_develop_tiling_t" where
  "tiling_request callback =
     (let t = callback \<lparr>tl_factor = 0, tl_factor_cl = - 1, tl_maxbuf = 0, tl_maxbuf_cl = - 1, tl_overhead = 0, tl_overlap = 0, tl_align = 0\<rparr>;
          t = (if tl_factor_cl t < 0 then t\<lparr>tl_factor_cl := tl_factor t\<rparr> else t)
      in if tl_maxbuf_cl t < 0 then t\<lparr>tl_maxbuf_cl := tl_maxbuf t\<rparr> else t)"

text \<open>The bytes of a buffer, as the source multiplies them.\<close>

definition buffer_bytes :: "(real \<Rightarrow> real) \<Rightarrow> nat \<Rightarrow> nat \<Rightarrow> nat \<Rightarrow> real" where
  "buffer_bytes fl w h bpp = fl (fl (fl (real w) * fl (real h)) * fl (real bpp))"

definition no_memory_saving :: "(real \<Rightarrow> real) \<Rightarrow> dt_develop_tiling_t \<Rightarrow> nat \<Rightarrow> nat \<Rightarrow> nat \<Rightarrow> bool" where
  "no_memory_saving fl t W H max_bpp \<longleftrightarrow> tl_factor t < fl 2.2 \<and>
     fl (real (tl_overhead t)) < fl (fl (fl (fl 0.2 * fl (real W)) * fl (real H)) * fl (real max_bpp))"

definition singlebuffer_for :: "(real \<Rightarrow> real) \<Rightarrow> real \<Rightarrow> real \<Rightarrow> dt_develop_tiling_t \<Rightarrow> dt_iop_roi_t \<Rightarrow> dt_iop_roi_t \<Rightarrow> nat \<Rightarrow> nat \<Rightarrow> real" where
  "singlebuffer_for fl pipe_mem singlebuffer_mem t roi_in roi_out in_bpp out_bpp =
     (let available = max (fl (fl (fl (pipe_mem - buffer_bytes fl (roi_width roi_out) (roi_height roi_out) out_bpp)
                                   - buffer_bytes fl (roi_width roi_in) (roi_height roi_in) in_bpp) - fl (real (tl_overhead t)))) 0;
          factor = max (tl_factor t) 1
      in max (fl (available / factor)) singlebuffer_mem)"

definition shrink_tile :: "(real \<Rightarrow> real) \<Rightarrow> real \<Rightarrow> dt_develop_tiling_t \<Rightarrow> nat \<Rightarrow> nat \<Rightarrow> nat \<Rightarrow> nat \<times> nat" where
  "shrink_tile fl singlebuffer t max_bpp width height =
     (let need = fl (buffer_bytes fl width height max_bpp * max (tl_maxbuf t) 1)
      in if need \<le> singlebuffer then (width, height)
         else let scale = fl (singlebuffer / need)
              in if width < height \<and> fl 0.333 \<le> scale then (width, nat \<lfloor>fl (fl (real height) * scale)\<rfloor>)
                 else if height \<le> width \<and> fl 0.333 \<le> scale then (nat \<lfloor>fl (fl (real width) * scale)\<rfloor>, height)
                 else (nat \<lfloor>fl (fl (real width) * fl (sqrt scale))\<rfloor>, nat \<lfloor>fl (fl (real height) * fl (sqrt scale))\<rfloor>))"

definition square_tile :: "(real \<Rightarrow> real) \<Rightarrow> nat \<Rightarrow> nat \<times> nat \<Rightarrow> nat \<times> nat" where
  "square_tile fl overlap wh =
     (case wh of (width, height) \<Rightarrow>
        if width < 3 * overlap \<or> height < 3 * overlap
        then (let q = nat \<lfloor>fl (sqrt (fl (fl (real width) * fl (real height))))\<rfloor> in (q, q)) else (width, height))"

definition align_tile :: "nat \<Rightarrow> nat \<Rightarrow> nat \<Rightarrow> nat" where
  "align_tile al full width = (if width < full then (width div al) * al else width)"

definition align_overlap :: "nat \<Rightarrow> nat \<Rightarrow> nat" where
  "align_overlap al overlap = (if overlap mod al \<noteq> 0 then (overlap div al + 1) * al else overlap)"

text \<open>One direction: the part of a tile without its overlap, how many tiles there are, and the extent of one.\<close>

definition tile_inner :: "nat \<Rightarrow> nat \<Rightarrow> nat" where
  "tile_inner width overlap = (if 2 * overlap < width then width - 2 * overlap else 1)"

definition tile_count :: "nat \<Rightarrow> nat \<Rightarrow> nat \<Rightarrow> nat" where
  "tile_count full width inner = (if width < full then (full + inner - 1) div inner else 1)"

definition tile_extent :: "nat \<Rightarrow> nat \<Rightarrow> nat \<Rightarrow> nat \<Rightarrow> nat" where
  "tile_extent full width inner k = (if full < k * inner + width then full - k * inner else width)"

definition tile_skipped :: "nat \<Rightarrow> nat \<Rightarrow> nat \<Rightarrow> nat \<Rightarrow> nat \<Rightarrow> bool" where
  "tile_skipped full width inner overlap k \<longleftrightarrow> tile_extent full width inner k \<le> 2 * overlap \<and> 0 < k"

record tile_grid =
  tg_width :: nat
  tg_height :: nat
  tg_overlap :: nat

definition grid_for :: "(real \<Rightarrow> real) \<Rightarrow> real \<Rightarrow> real \<Rightarrow> dt_develop_tiling_t \<Rightarrow> dt_iop_roi_t \<Rightarrow> dt_iop_roi_t \<Rightarrow> nat \<Rightarrow> nat \<Rightarrow> tile_grid" where
  "grid_for fl pipe_mem singlebuffer_mem t roi_in roi_out in_bpp out_bpp =
     (let sb = singlebuffer_for fl pipe_mem singlebuffer_mem t roi_in roi_out in_bpp out_bpp;
          (width, height) = square_tile fl (tl_overlap t) (shrink_tile fl sb t (max in_bpp out_bpp) (roi_width roi_in) (roi_height roi_in))
      in \<lparr>tg_width = align_tile (tl_align t) (roi_width roi_in) width,
          tg_height = align_tile (tl_align t) (roi_height roi_in) height,
          tg_overlap = align_overlap (tl_align t) (tl_overlap t)\<rparr>)"

definition too_many_tiles :: "int \<Rightarrow> nat \<Rightarrow> nat \<Rightarrow> bool" where
  "too_many_tiles level nx ny \<longleftrightarrow> maximum_number_tiles level < sint (word_of_int (int nx * int ny) :: 32 word)"


section \<open>Copies and loops\<close>

primrec for_loop :: "(nat \<Rightarrow> 's \<Rightarrow> 's option) \<Rightarrow> nat \<Rightarrow> 's \<Rightarrow> 's option" where
  "for_loop f 0 s = Some s"
| "for_loop f (Suc n) s = Option.bind (for_loop f n s) (f n)"

text \<open>\<open>memcpy\<close>, and the loop of copies of \<open>n\<close> rows between two buffers.\<close>

definition memcpy_px :: "'x list \<Rightarrow> nat \<Rightarrow> 'x list \<Rightarrow> nat \<Rightarrow> nat \<Rightarrow> 'x list option" where
  "memcpy_px dst doff src soff n =
     (if doff + n \<le> length dst \<and> soff + n \<le> length src
      then Some (take doff dst @ take n (drop soff src) @ drop (doff + n) dst) else None)"

definition copy_rows :: "nat \<Rightarrow> 'x list \<Rightarrow> nat \<Rightarrow> nat \<Rightarrow> 'x list \<Rightarrow> nat \<Rightarrow> nat \<Rightarrow> nat \<Rightarrow> 'x list option" where
  "copy_rows n dst doff dpitch src soff spitch len =
     for_loop (\<lambda>j d. memcpy_px d (doff + j * dpitch) src (soff + j * spitch) len) n dst"


section \<open>Processing the tiles\<close>

record tile_pipe =
  tp_tiling :: bool
  tp_maximum :: "real \<times> real \<times> real \<times> real"

text \<open>A module's \<open>process\<close>: from the pipe, the two regions, the input and the output buffer, to the pipe and the output buffer.\<close>

type_synonym ('a, 'b) process_fn = "tile_pipe \<Rightarrow> dt_iop_roi_t \<Rightarrow> dt_iop_roi_t \<Rightarrow> 'a list \<Rightarrow> 'b list \<Rightarrow> tile_pipe \<times> 'b list"

record ('a, 'b) tile_state =
  ts_input :: "'a list"
  ts_output :: "'b list"
  ts_ovoid :: "'b list"
  ts_pipe :: tile_pipe
  ts_new :: "real \<times> real \<times> real \<times> real"

text \<open>The region of a tile.\<close>

definition tile_roi :: "dt_iop_roi_t \<Rightarrow> nat \<Rightarrow> nat \<Rightarrow> nat \<Rightarrow> nat \<Rightarrow> dt_iop_roi_t" where
  "tile_roi roi x0 y0 wd ht =
     \<lparr>roi_x = roi_x roi + int x0, roi_y = roi_y roi + int y0, roi_width = wd, roi_height = ht, roi_scale = roi_scale roi\<rparr>"

text \<open>
  The body of the two loops: the part of \<open>wd\<close> by \<open>ht\<close> pixels at \<open>(x0, y0)\<close> is copied, processed, and copied back from \<open>(ox, oy)\<close> on.
\<close>

definition process_part :: "('a, 'b) process_fn \<Rightarrow> dt_iop_roi_t \<Rightarrow> dt_iop_roi_t \<Rightarrow> 'a list \<Rightarrow> real \<times> real \<times> real \<times> real \<Rightarrow>
    nat \<Rightarrow> nat \<Rightarrow> nat \<Rightarrow> nat \<Rightarrow> nat \<Rightarrow> nat \<Rightarrow> ('a, 'b) tile_state \<Rightarrow> ('a, 'b) tile_state option" where
  "process_part proc roi_in roi_out ivoid saved x0 y0 wd ht ox oy s =
     (let ioffs = y0 * roi_width roi_in + x0;
          ooffs = y0 * roi_width roi_out + x0
      in case copy_rows ht (ts_input s) 0 wd ivoid ioffs (roi_width roi_in) wd of
           None \<Rightarrow> None
         | Some input \<Rightarrow>
             let (pipe, output) = proc ((ts_pipe s)\<lparr>tp_maximum := saved\<rparr>) (tile_roi roi_in x0 y0 wd ht) (tile_roi roi_out x0 y0 wd ht)
                                    input (ts_output s)
             in case copy_rows (ht - oy) (ts_ovoid s) (ooffs + ox + oy * roi_width roi_out) (roi_width roi_out)
                       output (oy * wd + ox) wd (wd - ox) of
                  None \<Rightarrow> None
                | Some ovoid \<Rightarrow> Some \<lparr>ts_input = input, ts_output = output, ts_ovoid = ovoid, ts_pipe = pipe, ts_new = tp_maximum pipe\<rparr>)"

definition process_tile :: "('a, 'b) process_fn \<Rightarrow> dt_iop_roi_t \<Rightarrow> dt_iop_roi_t \<Rightarrow> 'a list \<Rightarrow> tile_grid \<Rightarrow>
    real \<times> real \<times> real \<times> real \<Rightarrow> nat \<Rightarrow> nat \<Rightarrow> ('a, 'b) tile_state \<Rightarrow> ('a, 'b) tile_state option" where
  "process_tile proc roi_in roi_out ivoid g saved tx ty s =
     (let overlap = tg_overlap g;
          tile_wd = tile_inner (tg_width g) overlap;
          tile_ht = tile_inner (tg_height g) overlap
      in if tile_skipped (roi_width roi_in) (tg_width g) tile_wd overlap tx \<or>
            tile_skipped (roi_height roi_in) (tg_height g) tile_ht overlap ty then Some s
         else process_part proc roi_in roi_out ivoid saved (tx * tile_wd) (ty * tile_ht)
                (tile_extent (roi_width roi_in) (tg_width g) tile_wd tx) (tile_extent (roi_height roi_in) (tg_height g) tile_ht ty)
                (if 0 < tx then overlap else 0) (if 0 < ty then overlap else 0) s)"

definition process_tiles :: "('a, 'b) process_fn \<Rightarrow> dt_iop_roi_t \<Rightarrow> dt_iop_roi_t \<Rightarrow> 'a list \<Rightarrow> tile_grid \<Rightarrow>
    real \<times> real \<times> real \<times> real \<Rightarrow> nat \<Rightarrow> nat \<Rightarrow> ('a, 'b) tile_state \<Rightarrow> ('a, 'b) tile_state option" where
  "process_tiles proc roi_in roi_out ivoid g saved nx ny s =
     for_loop (\<lambda>tx. for_loop (process_tile proc roi_in roi_out ivoid g saved tx) ny) nx s"

text \<open>What the run of a module depends on besides the buffers.\<close>

record ('a, 'b) tile_env =
  te_fl :: "real \<Rightarrow> real"
  te_level :: int
  te_pipe_mem :: real
  te_singlebuffer_mem :: real
  te_callback :: "dt_iop_roi_t \<Rightarrow> dt_iop_roi_t \<Rightarrow> dt_develop_tiling_t \<Rightarrow> dt_develop_tiling_t"
  te_alloc_in :: "nat \<Rightarrow> 'a list option"
  te_alloc_out :: "nat \<Rightarrow> 'b list option"
  te_process :: "('a, 'b) process_fn"
  te_full_roi :: bool
  te_process_tiling_roi :: "tile_pipe \<Rightarrow> dt_iop_roi_t \<Rightarrow> dt_iop_roi_t \<Rightarrow> 'a list \<Rightarrow> 'b list \<Rightarrow> (tile_pipe \<times> 'b list) option"
  te_out_bpp :: nat

text \<open>The labels \<open>error\<close> and \<open>fallback\<close>: the module processes the whole.\<close>

definition process_untiled :: "('a, 'b) tile_env \<Rightarrow> tile_pipe \<Rightarrow> dt_iop_roi_t \<Rightarrow> dt_iop_roi_t \<Rightarrow> 'a list \<Rightarrow> 'b list \<Rightarrow> tile_pipe \<times> 'b list" where
  "process_untiled E pipe roi_in roi_out ivoid ovoid = te_process E (pipe\<lparr>tp_tiling := False\<rparr>) roi_in roi_out ivoid ovoid"

definition default_process_tiling_ptp :: "('a, 'b) tile_env \<Rightarrow> tile_pipe \<Rightarrow> dt_iop_roi_t \<Rightarrow> dt_iop_roi_t \<Rightarrow> nat \<Rightarrow> 'a list \<Rightarrow> 'b list \<Rightarrow>
    (tile_pipe \<times> 'b list) option" where
  "default_process_tiling_ptp E pipe roi_in roi_out in_bpp ivoid ovoid =
     (let fl = te_fl E; t = tiling_request (te_callback E roi_in roi_out); out_bpp = te_out_bpp E;
          fallback = Some (process_untiled E pipe roi_in roi_out ivoid ovoid)
      in if no_memory_saving fl t (roi_width roi_in) (roi_height roi_in) (max in_bpp out_bpp) then fallback
         else if tl_align t = 0 then None
         else let g = grid_for fl (te_pipe_mem E) (te_singlebuffer_mem E) t roi_in roi_out in_bpp out_bpp;
                  tiles_x = tile_count (roi_width roi_in) (tg_width g) (tile_inner (tg_width g) (tg_overlap g));
                  tiles_y = tile_count (roi_height roi_in) (tg_height g) (tile_inner (tg_height g) (tg_overlap g))
              in if too_many_tiles (te_level E) tiles_x tiles_y then fallback
                 else case te_alloc_in E (tg_width g * tg_height g) of
                   None \<Rightarrow> fallback
                 | Some input \<Rightarrow>
                     (case te_alloc_out E (tg_width g * tg_height g) of
                        None \<Rightarrow> fallback
                      | Some output \<Rightarrow>
                          map_option (\<lambda>s. ((ts_pipe s)\<lparr>tp_maximum := ts_new s, tp_tiling := False\<rparr>, ts_ovoid s))
                            (process_tiles (te_process E) roi_in roi_out ivoid g (tp_maximum pipe) tiles_x tiles_y
                               \<lparr>ts_input = input, ts_output = output, ts_ovoid = ovoid, ts_pipe = pipe\<lparr>tp_tiling := True\<rparr>, ts_new = (1, 0, 0, 0)\<rparr>)))"

definition default_process_tiling :: "('a, 'b) tile_env \<Rightarrow> tile_pipe \<Rightarrow> dt_iop_roi_t \<Rightarrow> dt_iop_roi_t \<Rightarrow> nat \<Rightarrow> 'a list \<Rightarrow> 'b list \<Rightarrow>
    (tile_pipe \<times> 'b list) option" where
  "default_process_tiling E pipe roi_in roi_out in_bpp ivoid ovoid =
     (if roi_in \<noteq> roi_out \<or> te_full_roi E then te_process_tiling_roi E pipe roi_in roi_out ivoid ovoid
      else default_process_tiling_ptp E pipe roi_in roi_out in_bpp ivoid ovoid)"


text \<open>The choice of \<open>_pixelpipe_process_on_CPU\<close> between the tiles and the whole.\<close>

definition process_fitting :: "('a, 'b) tile_env \<Rightarrow> nat \<Rightarrow> real \<Rightarrow> nat \<Rightarrow> bool \<Rightarrow> tile_pipe \<Rightarrow> dt_iop_roi_t \<Rightarrow> dt_iop_roi_t \<Rightarrow> nat \<Rightarrow>
    'a list \<Rightarrow> 'b list \<Rightarrow> (tile_pipe \<times> 'b list) option" where
  "process_fitting E available factor overhead may_tile pipe roi_in roi_out in_bpp ivoid ovoid =
     (let m_bpp = max in_bpp (te_out_bpp E);
          m_width = max (roi_width roi_in) (roi_width roi_out);
          m_height = max (roi_height roi_in) (roi_height roi_out);
          fitting = dt_tiling_piece_fits_host_memory (te_fl E) available m_width m_height m_bpp factor overhead
      in if \<not> fitting \<and> may_tile then default_process_tiling E pipe roi_in roi_out in_bpp ivoid ovoid
         else Some (te_process E pipe roi_in roi_out ivoid ovoid))"


section \<open>The least common alignment\<close>

lemma gcd_loop_gcd: "unat (gcd_loop a b) = gcd (unat a) (unat b)"
proof (induction a b rule: gcd_loop.induct)
  case (1 a b)
  show ?case
  proof (cases "b = 0")
    case True
    then show ?thesis by (subst gcd_loop.simps) simp
  next
    case False
    with 1 have "unat (gcd_loop b (a mod b)) = gcd (unat b) (unat a mod unat b)" by (simp add: unat_mod)
    then show ?thesis using False by (subst gcd_loop.simps) (simp add: gcd.commute flip: gcd_red_nat)
  qed
qed

lemma unat_to_ulong: "unat (ucast x :: 64 word) = unat x" for x :: "32 word"
proof -
  have "unat x < 2 ^ 32" using unsigned_less [of x] by simp
  also have "(2 :: nat) ^ 32 \<le> 2 ^ 64" by simp
  finally show ?thesis by (simp add: unsigned_ucast_eq take_bit_nat_eq_self)
qed

text \<open>Two alignments have their least common multiple, where it fits 32 bits.\<close>

lemma tiling_lcm_is_lcm:
  assumes "a \<noteq> 0" and "lcm (unat a) (unat b) < 2 ^ 32"
  shows "unat (tiling_lcm a b) = lcm (unat a) (unat b)"
proof -
  have "0 < gcd (unat a) (unat b)" using assms(1) by (simp add: unat_eq_0)
  then have "1 \<le> unat (gcd_loop a b)" unfolding gcd_loop_gcd by linarith
  then have "1 \<le> gcd_loop a b" by (simp add: word_le_nat_alt)
  then have g: "unat (tiling_gcd a b) = gcd (unat a) (unat b)" by (simp add: tiling_gcd_def max_def gcd_loop_gcd)
  have "unat a < 2 ^ 32" "unat b < 2 ^ 32" using unsigned_less [of a] unsigned_less [of b] by simp_all
  then have "unat a * unat b < 2 ^ 32 * 2 ^ 32" by (intro mult_strict_mono) simp_all
  then have "unat a * unat b < 2 ^ 64" by simp
  then have "unat (ucast a * ucast b :: 64 word) = unat a * unat b"
    by (simp add: unat_word_ariths unat_to_ulong)
  moreover have "unat (ucast (tiling_gcd a b) :: 64 word) = gcd (unat a) (unat b)"
    by (simp add: g unat_to_ulong)
  ultimately have "unat ((ucast a * ucast b :: 64 word) div ucast (tiling_gcd a b)) = lcm (unat a) (unat b)"
    by (simp add: unat_div lcm_nat_def)
  then show ?thesis using assms(2) by (simp add: tiling_lcm_def unsigned_ucast_eq take_bit_nat_eq_self)
qed


section \<open>Loops and copies of rows\<close>

lemma for_loop_rule:
  assumes "P 0 s" and "\<And>k s. k < n \<Longrightarrow> P k s \<Longrightarrow> \<exists>t. f k s = Some t \<and> P (Suc k) t"
  shows "\<exists>t. for_loop f n s = Some t \<and> P n t"
  using assms(2)
proof (induction n)
  case (Suc n)
  then obtain t where "for_loop f n s = Some t" "P n t" by (metis less_SucI)
  with Suc.prems [of n t] show ?case by simp
qed (simp add: assms(1))

lemma row_pos_less: "(py :: nat) < H \<Longrightarrow> px < P \<Longrightarrow> py * P + px < H * P"
  using mult_le_mono1 [of "Suc py" H P] by simp

lemma row_run_iff:
  fixes P :: nat
  assumes "px < P" and "x0 + len \<le> P"
  shows "y * P + x0 \<le> py * P + px \<and> py * P + px < y * P + x0 + len \<longleftrightarrow> py = y \<and> x0 \<le> px \<and> px < x0 + len"
proof (cases "py = y")
  case False
  then consider "Suc py \<le> y" | "Suc y \<le> py" by linarith
  then show ?thesis
  proof cases
    case 1
    then have "Suc py * P \<le> y * P" by (rule mult_le_mono1)
    then show ?thesis using assms False by simp
  next
    case 2
    then have "Suc y * P \<le> py * P" by (rule mult_le_mono1)
    then show ?thesis using assms False by simp
  qed
qed auto

lemma memcpy_px_some:
  assumes "doff + n \<le> length dst" and "soff + n \<le> length src"
  shows "\<exists>r. memcpy_px dst doff src soff n = Some r \<and> length r = length dst \<and>
    (\<forall>k<length dst. r ! k = (if doff \<le> k \<and> k < doff + n then src ! (soff + (k - doff)) else dst ! k))"
proof -
  let ?r = "take doff dst @ take n (drop soff src) @ drop (doff + n) dst"
  have parts: "length (take doff dst) = doff" "length (take n (drop soff src)) = n" using assms by auto
  have "?r ! k = (if doff \<le> k \<and> k < doff + n then src ! (soff + (k - doff)) else dst ! k)" if "k < length dst" for k
  proof (cases "k < doff + n")
    case True
    show ?thesis
    proof (cases "k < doff")
      case False
      with True have "k - doff < n" by linarith
      then show ?thesis using True False assms parts by (simp add: nth_append)
    qed (use parts in \<open>simp add: nth_append\<close>)
  next
    case False
    then have "?r ! k = drop (doff + n) dst ! (k - doff - n)" using parts by (simp only: nth_append) simp
    then show ?thesis using False assms that by simp
  qed
  then show ?thesis using assms by (simp add: memcpy_px_def)
qed

text \<open>The rows of a rectangle at column \<open>x0\<close>, row \<open>y0\<close> of an image of pitch \<open>P\<close>.\<close>

lemma copy_rows_some:
  assumes "x0 + len \<le> P" and "(y0 + n) * P \<le> length dst" and "\<And>j. j < n \<Longrightarrow> soff + j * S + len \<le> length src"
  shows "\<exists>r. copy_rows n dst (y0 * P + x0) P src soff S len = Some r \<and> length r = length dst \<and>
    (\<forall>py px. px < P \<longrightarrow> py * P + px < length dst \<longrightarrow>
       r ! (py * P + px) = (if y0 \<le> py \<and> py < y0 + n \<and> x0 \<le> px \<and> px < x0 + len
                            then src ! (soff + (py - y0) * S + (px - x0)) else dst ! (py * P + px)))"
  unfolding copy_rows_def using assms(2,3)
proof (induction n)
  case (Suc n)
  let ?row = "\<lambda>j d. memcpy_px d (y0 * P + x0 + j * P) src (soff + j * S) len"
  have le: "(y0 + n) * P \<le> length dst" using Suc.prems(1) by simp
  obtain d where d: "for_loop ?row n dst = Some d" and ld: "length d = length dst"
    and val: "\<And>py px. px < P \<Longrightarrow> py * P + px < length dst \<Longrightarrow>
       d ! (py * P + px) = (if y0 \<le> py \<and> py < y0 + n \<and> x0 \<le> px \<and> px < x0 + len
                            then src ! (soff + (py - y0) * S + (px - x0)) else dst ! (py * P + px))"
    using Suc.IH [OF le] Suc.prems(2) by auto
  have pos: "y0 * P + x0 + n * P = (y0 + n) * P + x0" by (simp add: algebra_simps)
  have "(y0 + n) * P + x0 + len \<le> length d" using Suc.prems(1) assms(1) ld by (simp add: algebra_simps)
  from memcpy_px_some [OF this Suc.prems(2) [of n]]
  obtain r where r: "memcpy_px d ((y0 + n) * P + x0) src (soff + n * S) len = Some r" and lr: "length r = length d"
    and rv: "\<forall>k<length d. r ! k = (if (y0 + n) * P + x0 \<le> k \<and> k < (y0 + n) * P + x0 + len
                                   then src ! (soff + n * S + (k - ((y0 + n) * P + x0))) else d ! k)" by auto
  have "r ! (py * P + px) = (if y0 \<le> py \<and> py < y0 + Suc n \<and> x0 \<le> px \<and> px < x0 + len
                            then src ! (soff + (py - y0) * S + (px - x0)) else dst ! (py * P + px))"
    if "px < P" "py * P + px < length dst" for py px
  proof (cases "py = y0 + n \<and> x0 \<le> px \<and> px < x0 + len")
    case True
    then show ?thesis using rv that ld by simp
  next
    case False
    then have "\<not> ((y0 + n) * P + x0 \<le> py * P + px \<and> py * P + px < (y0 + n) * P + x0 + len)"
      using row_run_iff [OF that(1) assms(1), of "y0 + n" py] by blast
    then have "r ! (py * P + px) = d ! (py * P + px)" using rv that(2) ld by auto
    then show ?thesis using val [OF that] False by auto
  qed
  then have "\<forall>py px. px < P \<longrightarrow> py * P + px < length dst \<longrightarrow>
       r ! (py * P + px) = (if y0 \<le> py \<and> py < y0 + Suc n \<and> x0 \<le> px \<and> px < x0 + len
                            then src ! (soff + (py - y0) * S + (px - x0)) else dst ! (py * P + px))" by blast
  moreover have "for_loop ?row (Suc n) dst = Some r" using d r pos by (simp only: for_loop.simps bind.bind_lunit)
  ultimately show ?case using lr ld by (intro exI [of _ r]) simp
qed auto


section \<open>One direction of the grid\<close>

lemma tile_inner_pos [simp]: "0 < tile_inner w ov"
  by (simp add: tile_inner_def)

lemma tile_count_start: "k < tile_count W w i \<Longrightarrow> 0 < i \<Longrightarrow> k = 0 \<or> k * i < W"
proof -
  assume "k < tile_count W w i" "0 < i"
  show ?thesis
  proof (cases "w < W")
    case True
    then have "Suc k \<le> (W + i - 1) div i" using \<open>k < tile_count W w i\<close> by (simp add: tile_count_def)
    then have "Suc k * i \<le> (W + i - 1) div i * i" by (rule mult_le_mono1)
    also have "\<dots> \<le> W + i - 1" by simp
    finally have "i + k * i \<le> W + i - 1" by simp
    then show ?thesis using \<open>0 < i\<close> True by linarith
  qed (use \<open>k < tile_count W w i\<close> in \<open>simp add: tile_count_def\<close>)
qed

lemma tile_count_covers: "w < W \<Longrightarrow> 0 < i \<Longrightarrow> W \<le> tile_count W w i * i"
proof -
  assume "w < W" "0 < i"
  have "W + i - 1 < Suc ((W + i - 1) div i) * i" using \<open>0 < i\<close> by (simp add: dividend_less_div_times)
  then show ?thesis using \<open>w < W\<close> by (simp add: tile_count_def)
qed

lemma tile_count_pos: "0 < i \<Longrightarrow> 0 < tile_count W w i"
proof (cases "w < W \<and> 0 < i")
  case True
  then have "i \<le> W + i - 1" by linarith
  then have "0 < (W + i - 1) div i" using True by (simp only: div_greater_zero_iff)
  then show ?thesis using True by (simp add: tile_count_def)
qed (auto simp: tile_count_def)

text \<open>
  A grid is \<^emph>\<open>effective\<close> in a direction when it has one tile there, or tiles larger than their overlap. \<open>tile_done k\<close> is how far the first
  \<open>k\<close> tiles have settled the pixels.
\<close>

definition effective :: "nat \<Rightarrow> nat \<Rightarrow> nat \<Rightarrow> bool" where
  "effective full width overlap \<longleftrightarrow> full \<le> width \<or> 2 * overlap < width"

definition tile_done :: "nat \<Rightarrow> nat \<Rightarrow> nat \<Rightarrow> nat \<Rightarrow> nat" where
  "tile_done full width overlap k =
     (if k = 0 then 0
      else if full \<le> (k - 1) * tile_inner width overlap + width then full
      else (k - 1) * tile_inner width overlap + width - overlap)"

lemma tile_done_0 [simp]: "tile_done full width overlap 0 = 0"
  by (simp add: tile_done_def)

text \<open>A tile that is processed lies in the image and starts to write where the tiles before it have settled.\<close>

lemma extent_in_image:
  assumes "k < tile_count W w (tile_inner w ov)"
  shows "k * tile_inner w ov + tile_extent W w (tile_inner w ov) k \<le> W" and "tile_extent W w (tile_inner w ov) k \<le> w"
  using tile_count_start [OF assms tile_inner_pos] by (auto simp: tile_extent_def)

lemma processed_tile_starts:
  assumes "effective W w ov" and "k < tile_count W w (tile_inner w ov)" and "\<not> tile_skipped W w (tile_inner w ov) ov k"
  shows "k * tile_inner w ov + (if 0 < k then ov else 0) = tile_done W w ov k"
    and "(if 0 < k then ov else 0) \<le> tile_extent W w (tile_inner w ov) k"
proof -
  have "k * tile_inner w ov + (if 0 < k then ov else 0) = tile_done W w ov k \<and>
    (if 0 < k then ov else 0) \<le> tile_extent W w (tile_inner w ov) k"
  proof (cases k)
    case (Suc j)
    then have "w < W" using assms(2) by (auto simp: tile_count_def split: if_splits)
    then have i: "tile_inner w ov = w - 2 * ov" "2 * ov < w" using assms(1) by (auto simp: effective_def tile_inner_def)
    have "2 * ov < tile_extent W w (tile_inner w ov) k" using assms(3) Suc by (auto simp: tile_skipped_def)
    moreover have "k * tile_inner w ov = j * tile_inner w ov + (w - 2 * ov)" using Suc i by simp
    ultimately show ?thesis using Suc i by (auto simp: tile_done_def tile_extent_def split: if_splits)
  qed simp
  then show "k * tile_inner w ov + (if 0 < k then ov else 0) = tile_done W w ov k"
    "(if 0 < k then ov else 0) \<le> tile_extent W w (tile_inner w ov) k" by blast+
qed

text \<open>What it settles is at least the overlap away from its end, or its end is the image's.\<close>

lemma processed_tile_settles:
  assumes "effective W w ov" and "k < tile_count W w (tile_inner w ov)" and "\<not> tile_skipped W w (tile_inner w ov) ov k"
    and "px < tile_done W w ov (Suc k)"
  shows "px < k * tile_inner w ov + tile_extent W w (tile_inner w ov) k"
    and "px + ov < k * tile_inner w ov + tile_extent W w (tile_inner w ov) k \<or>
         k * tile_inner w ov + tile_extent W w (tile_inner w ov) k = W"
  using assms(4) tile_count_start [OF assms(2) tile_inner_pos] by (auto simp: tile_done_def tile_extent_def split: if_splits)

text \<open>A tile is skipped when all is settled; after the last tile all is.\<close>

lemma skipped_tile_settled:
  assumes "effective W w ov" and "k < tile_count W w (tile_inner w ov)" and "tile_skipped W w (tile_inner w ov) ov k"
  shows "tile_done W w ov k = W" and "tile_done W w ov (Suc k) = W"
proof -
  obtain j where k: "k = Suc j" using assms(3) by (cases k) (auto simp: tile_skipped_def)
  then have "w < W" using assms(2) by (auto simp: tile_count_def split: if_splits)
  then have i: "tile_inner w ov = w - 2 * ov" "2 * ov < w" using assms(1) by (auto simp: effective_def tile_inner_def)
  have "tile_extent W w (tile_inner w ov) k \<le> 2 * ov" using assms(3) by (simp add: tile_skipped_def)
  then have "W \<le> k * tile_inner w ov + 2 * ov" using i by (auto simp: tile_extent_def split: if_splits)
  moreover have "k * tile_inner w ov = j * tile_inner w ov + (w - 2 * ov)" using k i by simp
  ultimately show "tile_done W w ov k = W" "tile_done W w ov (Suc k) = W" using k i by (auto simp: tile_done_def)
qed

lemma tile_done_all:
  assumes "effective W w ov"
  shows "tile_done W w ov (tile_count W w (tile_inner w ov)) = W"
proof -
  obtain j where j: "tile_count W w (tile_inner w ov) = Suc j"
    using tile_count_pos [OF tile_inner_pos] by (metis Suc_pred')
  show ?thesis
  proof (cases "w < W")
    case True
    have "W \<le> Suc j * tile_inner w ov" using tile_count_covers [OF True tile_inner_pos, of w ov] j by simp
    then have "W \<le> j * tile_inner w ov + tile_inner w ov" by simp
    moreover have "tile_inner w ov \<le> w" using assms True by (auto simp: effective_def tile_inner_def)
    ultimately show ?thesis using j by (simp add: tile_done_def)
  next
    case False
    then show ?thesis using j by (simp add: tile_done_def)
  qed
qed

lemma tile_done_le: "tile_done W w ov k \<le> W"
  by (auto simp: tile_done_def)

text \<open>The origins of the tiles keep the alignment.\<close>

lemma align_tile_dvd: "align_tile al W w < W \<Longrightarrow> al dvd align_tile al W w"
  by (auto simp: align_tile_def split: if_splits)

lemma align_overlap_dvd: "al dvd align_overlap al ov"
  by (auto simp: align_overlap_def)

lemma align_overlap_ge: "0 < al \<Longrightarrow> ov \<le> align_overlap al ov"
proof -
  assume "0 < al"
  have "ov div al * al + ov mod al = ov" by simp
  moreover have "ov mod al < al" using \<open>0 < al\<close> by simp
  ultimately have "ov \<le> ov div al * al + al" by linarith
  then show ?thesis by (simp add: align_overlap_def add.commute)
qed

lemma tile_origin_aligned:
  assumes "effective W w ov" and "al dvd ov" and "w < W \<Longrightarrow> al dvd w" and "k < tile_count W w (tile_inner w ov)"
  shows "al dvd k * tile_inner w ov"
proof (cases "w < W")
  case True
  then have "tile_inner w ov = w - 2 * ov" using assms(1) by (auto simp: effective_def tile_inner_def)
  then show ?thesis using assms(2,3) True by (simp add: dvd_diff_nat)
next
  case False
  then have "k = 0" using assms(4) by (simp add: tile_count_def)
  then show ?thesis by simp
qed


section \<open>Modules that look around a pixel\<close>

text \<open>
  What a module sees around the pixel \<open>(i, j)\<close> of a region: the pixels at most \<open>r\<close> away in each direction, nothing beyond the region.
  A module acts locally when each pixel it writes is a function of that, of the position in the image, and of the position in the region
  up to a multiple of the alignment (the phase of a mosaic, or of a group of pixels processed together); the maximum it leaves is a
  function of the one it finds.
\<close>

definition window :: "nat \<Rightarrow> nat \<Rightarrow> nat \<Rightarrow> 'a list \<Rightarrow> nat \<Rightarrow> nat \<Rightarrow> int \<Rightarrow> int \<Rightarrow> 'a option" where
  "window r w h buf i j = (\<lambda>dx dy.
     if \<bar>dx\<bar> \<le> int r \<and> \<bar>dy\<bar> \<le> int r \<and> 0 \<le> int i + dx \<and> int i + dx < int w \<and> 0 \<le> int j + dy \<and> int j + dy < int h
     then Some (buf ! (nat (int j + dy) * w + nat (int i + dx))) else None)"

definition acts_locally :: "('a, 'b) process_fn \<Rightarrow> (real \<Rightarrow> int \<Rightarrow> int \<Rightarrow> nat \<Rightarrow> nat \<Rightarrow> (int \<Rightarrow> int \<Rightarrow> 'a option) \<Rightarrow> 'b) \<Rightarrow>
    (real \<times> real \<times> real \<times> real \<Rightarrow> real \<times> real \<times> real \<times> real) \<Rightarrow> nat \<Rightarrow> nat \<Rightarrow> bool" where
  "acts_locally proc f mx r al \<longleftrightarrow> (\<forall>p roi inb outb.
     roi_width roi * roi_height roi \<le> length inb \<longrightarrow> roi_width roi * roi_height roi \<le> length outb \<longrightarrow>
     fst (proc p roi roi inb outb) = p\<lparr>tp_maximum := mx (tp_maximum p)\<rparr> \<and>
     length (snd (proc p roi roi inb outb)) = length outb \<and>
     (\<forall>i<roi_width roi. \<forall>j<roi_height roi. snd (proc p roi roi inb outb) ! (j * roi_width roi + i) =
        f (roi_scale roi) (roi_x roi + int i) (roi_y roi + int j) (i mod al) (j mod al) (window r (roi_width roi) (roi_height roi) inb i j)))"

text \<open>Such a module, from the function.\<close>

definition local_process :: "(real \<Rightarrow> int \<Rightarrow> int \<Rightarrow> nat \<Rightarrow> nat \<Rightarrow> (int \<Rightarrow> int \<Rightarrow> 'a option) \<Rightarrow> 'b) \<Rightarrow>
    (real \<times> real \<times> real \<times> real \<Rightarrow> real \<times> real \<times> real \<times> real) \<Rightarrow> nat \<Rightarrow> nat \<Rightarrow> ('a, 'b) process_fn" where
  "local_process f mx r al p iroi oroi inb outb =
     (p\<lparr>tp_maximum := mx (tp_maximum p)\<rparr>,
      map (\<lambda>k. let i = k mod roi_width iroi; j = k div roi_width iroi
               in f (roi_scale iroi) (roi_x iroi + int i) (roi_y iroi + int j) (i mod al) (j mod al)
                    (window r (roi_width iroi) (roi_height iroi) inb i j)) [0..<roi_width iroi * roi_height iroi] @
      drop (roi_width iroi * roi_height iroi) outb)"

lemma local_process_acts_locally: "acts_locally (local_process f mx r al) f mx r al"
proof -
  have "j * w + i < w * h" if "i < w" "j < h" for i j w h :: nat using row_pos_less [of j h i w] that by (simp add: mult.commute)
  moreover have "(j * w + i) mod w = i \<and> (j * w + i) div w = j" if "i < w" for i j w :: nat using that by simp
  ultimately show ?thesis by (auto simp: acts_locally_def local_process_def nth_append Let_def)
qed

lemma window_of_part:
  assumes "\<And>i' j'. i' < wd \<Longrightarrow> j' < ht \<Longrightarrow> part ! (j' * wd + i') = img ! ((y0 + j') * W + x0 + i')"
    and "i < wd" "j < ht" and "x0 + wd \<le> W" "y0 + ht \<le> H"
    and "x0 = 0 \<or> r \<le> i" and "i + r < wd \<or> x0 + wd = W" and "y0 = 0 \<or> r \<le> j" and "j + r < ht \<or> y0 + ht = H"
  shows "window r wd ht part i j = window r W H img (x0 + i) (y0 + j)"
proof (rule ext, rule ext)
  fix dx dy :: int
  show "window r wd ht part i j dx dy = window r W H img (x0 + i) (y0 + j) dx dy"
  proof (cases "\<bar>dx\<bar> \<le> int r \<and> \<bar>dy\<bar> \<le> int r")
    case True
    have x: "0 \<le> int i + dx \<and> int i + dx < int wd \<longleftrightarrow> 0 \<le> int (x0 + i) + dx \<and> int (x0 + i) + dx < int W"
      using True assms(2,4,6,7) by auto
    have y: "0 \<le> int j + dy \<and> int j + dy < int ht \<longleftrightarrow> 0 \<le> int (y0 + j) + dy \<and> int (y0 + j) + dy < int H"
      using True assms(3,5,8,9) by auto
    show ?thesis
    proof (cases "(0 \<le> int i + dx \<and> int i + dx < int wd) \<and> 0 \<le> int j + dy \<and> int j + dy < int ht")
      case in_part: True
      then have "part ! (nat (int j + dy) * wd + nat (int i + dx)) = img ! ((y0 + nat (int j + dy)) * W + x0 + nat (int i + dx))"
        using assms(1) [of "nat (int i + dx)" "nat (int j + dy)"] by (simp add: nat_less_iff)
      moreover have "nat (int (x0 + i) + dx) = x0 + nat (int i + dx)" "nat (int (y0 + j) + dy) = y0 + nat (int j + dy)"
        using in_part by (simp_all add: nat_add_distrib add.assoc)
      ultimately show ?thesis using True in_part x y by (simp add: window_def add.assoc)
    next
      case False
      then show ?thesis using x y by (auto simp: window_def)
    qed
  qed (auto simp: window_def)
qed


section \<open>One tile\<close>

definition keeps_output :: "('a, 'b) process_fn \<Rightarrow> bool" where
  "keeps_output proc \<longleftrightarrow> (\<forall>p roi inb outb.
     roi_width roi * roi_height roi \<le> length inb \<longrightarrow> roi_width roi * roi_height roi \<le> length outb \<longrightarrow>
     length (snd (proc p roi roi inb outb)) = length outb)"

lemma acts_locally_keeps: "acts_locally proc f mx r al \<Longrightarrow> keeps_output proc"
  by (simp add: acts_locally_def keeps_output_def)

definition tile_buffers :: "tile_grid \<Rightarrow> dt_iop_roi_t \<Rightarrow> ('a, 'b) tile_state \<Rightarrow> bool" where
  "tile_buffers g roi s \<longleftrightarrow> tg_width g * tg_height g \<le> length (ts_input s) \<and> tg_width g * tg_height g \<le> length (ts_output s) \<and>
     length (ts_ovoid s) = roi_width roi * roi_height roi"

text \<open>A tile that lies in the image is copied, processed and copied back inside the buffers.\<close>

lemma process_part_runs:
  fixes roi
  defines "W \<equiv> roi_width roi" and "H \<equiv> roi_height roi"
  assumes in_image: "x0 + wd \<le> W" "y0 + ht \<le> H" "wd \<le> tg_width g" "ht \<le> tg_height g" "ox \<le> wd" "oy \<le> ht"
    and buffers: "tile_buffers g roi s" "length ivoid = W * H" and proc: "keeps_output proc"
  shows "\<exists>inp t. process_part proc roi roi ivoid saved x0 y0 wd ht ox oy s = Some t \<and> tile_buffers g roi t \<and>
    wd * ht \<le> length inp \<and> wd * ht \<le> length (ts_output s) \<and>
    (\<forall>i<wd. \<forall>j<ht. inp ! (j * wd + i) = ivoid ! ((y0 + j) * W + x0 + i)) \<and>
    (ts_pipe t, ts_output t) = proc ((ts_pipe s)\<lparr>tp_maximum := saved\<rparr>) (tile_roi roi x0 y0 wd ht) (tile_roi roi x0 y0 wd ht) inp (ts_output s) \<and>
    ts_new t = tp_maximum (ts_pipe t) \<and>
    (\<forall>px<W. \<forall>py<H. ts_ovoid t ! (py * W + px) =
       (if y0 + oy \<le> py \<and> py < y0 + ht \<and> x0 + ox \<le> px \<and> px < x0 + wd
        then ts_output t ! ((py - y0) * wd + (px - x0)) else ts_ovoid s ! (py * W + px)))"
proof -
  let ?roi = "tile_roi roi x0 y0 wd ht"
  have small: "wd * ht \<le> tg_width g * tg_height g" using in_image by (simp add: mult_le_mono)
  then have room: "wd * ht \<le> length (ts_input s)" "wd * ht \<le> length (ts_output s)" using buffers by (auto simp: tile_buffers_def)
  have rows: "y0 * W + x0 + j * W + wd \<le> length ivoid" if "j < ht" for j
  proof -
    have "(y0 + Suc j) * W \<le> H * W" using in_image(2) that by (intro mult_le_mono1) simp
    then have "y0 * W + j * W + W \<le> length ivoid" using buffers(2) by (simp add: algebra_simps)
    then show ?thesis using in_image(1) by linarith
  qed
  have "(0 + ht) * wd \<le> length (ts_input s)" using room by (simp add: mult.commute)
  from copy_rows_some [of 0 wd wd 0 ht "ts_input s" "y0 * W + x0" W ivoid, OF _ this rows]
  obtain inp where inp: "copy_rows ht (ts_input s) 0 wd ivoid (y0 * W + x0) W wd = Some inp" "length inp = length (ts_input s)"
    and iv: "\<And>j i. i < wd \<Longrightarrow> j * wd + i < length (ts_input s) \<Longrightarrow> j < ht \<Longrightarrow> inp ! (j * wd + i) = ivoid ! (y0 * W + x0 + j * W + i)" by auto
  obtain p out where po: "proc ((ts_pipe s)\<lparr>tp_maximum := saved\<rparr>) ?roi ?roi inp (ts_output s) = (p, out)" by fastforce
  have "roi_width ?roi * roi_height ?roi = wd * ht" by (simp add: tile_roi_def)
  then have lout: "length out = length (ts_output s)" using proc po room inp(2) unfolding keeps_output_def by (metis snd_conv)
  have orows: "oy * wd + ox + j * wd + (wd - ox) \<le> length out" if "j < ht - oy" for j
  proof -
    have "(oy + Suc j) * wd \<le> ht * wd" using that by (intro mult_le_mono1) simp
    then have "oy * wd + j * wd + wd \<le> length out" using room(2) lout by (simp add: algebra_simps)
    then show ?thesis using in_image(5) by linarith
  qed
  have "(y0 + oy + (ht - oy)) * W \<le> H * W" using in_image by (intro mult_le_mono1) simp
  then have "(y0 + oy + (ht - oy)) * W \<le> length (ts_ovoid s)" using buffers(1) by (simp add: tile_buffers_def W_def H_def mult.commute)
  from copy_rows_some [of "x0 + ox" "wd - ox" W, OF _ this orows] in_image(1,5)
  obtain ov where ov: "copy_rows (ht - oy) (ts_ovoid s) ((y0 + oy) * W + (x0 + ox)) W out (oy * wd + ox) wd (wd - ox) = Some ov"
      "length ov = length (ts_ovoid s)"
    and ovv: "\<And>py px. px < W \<Longrightarrow> py * W + px < length (ts_ovoid s) \<Longrightarrow> ov ! (py * W + px) =
      (if y0 + oy \<le> py \<and> py < y0 + oy + (ht - oy) \<and> x0 + ox \<le> px \<and> px < x0 + ox + (wd - ox)
       then out ! (oy * wd + ox + (py - (y0 + oy)) * wd + (px - (x0 + ox))) else ts_ovoid s ! (py * W + px))" by auto
  let ?t = "\<lparr>ts_input = inp, ts_output = out, ts_ovoid = ov, ts_pipe = p, ts_new = tp_maximum p\<rparr>"
  have offs: "y0 * W + x0 + ox + oy * W = (y0 + oy) * W + (x0 + ox)" by (simp add: algebra_simps)
  have "process_part proc roi roi ivoid saved x0 y0 wd ht ox oy s = Some ?t"
    using inp(1) po ov(1) by (simp add: process_part_def Let_def offs flip: W_def)
  moreover have "tile_buffers g roi ?t" using buffers(1) inp(2) lout ov(2) by (simp add: tile_buffers_def)
  moreover have "\<forall>i<wd. \<forall>j<ht. inp ! (j * wd + i) = ivoid ! ((y0 + j) * W + x0 + i)"
  proof (intro allI impI)
    fix i j assume "i < wd" "j < ht"
    then have "j * wd + i < ht * wd" by (intro row_pos_less)
    then have "j * wd + i < length (ts_input s)" using room(1) by (simp add: mult.commute)
    from iv [OF \<open>i < wd\<close> this \<open>j < ht\<close>] show "inp ! (j * wd + i) = ivoid ! ((y0 + j) * W + x0 + i)" by (simp add: algebra_simps)
  qed
  moreover have "\<forall>px<W. \<forall>py<H. ov ! (py * W + px) = (if y0 + oy \<le> py \<and> py < y0 + ht \<and> x0 + ox \<le> px \<and> px < x0 + wd
        then out ! ((py - y0) * wd + (px - x0)) else ts_ovoid s ! (py * W + px))"
  proof (intro allI impI)
    fix px py assume b: "px < W" "py < H"
    then have "py * W + px < H * W" by (intro row_pos_less)
    then have in_ov: "py * W + px < length (ts_ovoid s)" using buffers(1) by (simp add: tile_buffers_def W_def H_def mult.commute)
    have pos: "oy * wd + ox + (py - (y0 + oy)) * wd + (px - (x0 + ox)) = (py - y0) * wd + (px - x0)"
      if "y0 + oy \<le> py" "x0 + ox \<le> px"
    proof -
      have "py - y0 = oy + (py - (y0 + oy))" "px - x0 = ox + (px - (x0 + ox))" using that by auto
      then show ?thesis by (simp only: add_mult_distrib)
    qed
    show "ov ! (py * W + px) = (if y0 + oy \<le> py \<and> py < y0 + ht \<and> x0 + ox \<le> px \<and> px < x0 + wd
        then out ! ((py - y0) * wd + (px - x0)) else ts_ovoid s ! (py * W + px))"
      using ovv [OF b(1) in_ov] pos in_image(5,6) by auto
  qed
  ultimately show ?thesis using po room inp(2) by (intro exI [of _ inp] exI [of _ ?t]) simp
qed


section \<open>All tiles of a local module\<close>

text \<open>The pixel that a local module writes at \<open>(px, py)\<close> of the whole.\<close>

definition local_pixel :: "(real \<Rightarrow> int \<Rightarrow> int \<Rightarrow> nat \<Rightarrow> nat \<Rightarrow> (int \<Rightarrow> int \<Rightarrow> 'a option) \<Rightarrow> 'b) \<Rightarrow> nat \<Rightarrow> nat \<Rightarrow> dt_iop_roi_t \<Rightarrow> 'a list \<Rightarrow>
    nat \<Rightarrow> nat \<Rightarrow> 'b" where
  "local_pixel f r al roi img px py = f (roi_scale roi) (roi_x roi + int px) (roi_y roi + int py) (px mod al) (py mod al)
     (window r (roi_width roi) (roi_height roi) img px py)"

lemma whole_is_local:
  assumes "acts_locally proc f mx r al" and "length ivoid = roi_width roi * roi_height roi" and "length ovoid = roi_width roi * roi_height roi"
  shows "fst (proc p roi roi ivoid ovoid) = p\<lparr>tp_maximum := mx (tp_maximum p)\<rparr>" and "length (snd (proc p roi roi ivoid ovoid)) = length ovoid"
    and "px < roi_width roi \<Longrightarrow> py < roi_height roi \<Longrightarrow>
      snd (proc p roi roi ivoid ovoid) ! (py * roi_width roi + px) = local_pixel f r al roi ivoid px py"
  using assms by (simp_all add: acts_locally_def local_pixel_def)

lemma aligned_offset_mod: "al dvd x0 \<Longrightarrow> (x0 + i) mod al = i mod al" for al :: nat
  by (metis mod_add_left_eq dvd_imp_mod_0 add_0)

text \<open>A pixel of a part is that of the whole, when the part holds what the module sees around it.\<close>

lemma part_is_local:
  assumes loc: "acts_locally proc f mx r al" and out: "(p', out) = proc p (tile_roi roi x0 y0 wd ht) (tile_roi roi x0 y0 wd ht) inp outb"
    and room: "wd * ht \<le> length inp" "wd * ht \<le> length outb"
    and inp: "\<And>i j. i < wd \<Longrightarrow> j < ht \<Longrightarrow> inp ! (j * wd + i) = img ! ((y0 + j) * roi_width roi + x0 + i)"
    and in_image: "x0 + wd \<le> roi_width roi" "y0 + ht \<le> roi_height roi"
    and aligned: "al dvd x0" "al dvd y0"
    and px: "x0 \<le> px" "px < x0 + wd" "x0 = 0 \<or> x0 + r \<le> px" "px + r < x0 + wd \<or> x0 + wd = roi_width roi"
    and py: "y0 \<le> py" "py < y0 + ht" "y0 = 0 \<or> y0 + r \<le> py" "py + r < y0 + ht \<or> y0 + ht = roi_height roi"
  shows "out ! ((py - y0) * wd + (px - x0)) = local_pixel f r al roi img px py"
proof -
  obtain i j where ij: "px = x0 + i" "py = y0 + j" using px(1) py(1) by (metis le_iff_add)
  then have lt: "i < wd" "j < ht" using px py by auto
  have "out ! (j * wd + i) = f (roi_scale roi) (roi_x roi + int x0 + int i) (roi_y roi + int y0 + int j) (i mod al) (j mod al) (window r wd ht inp i j)"
  proof -
    have "snd (proc p (tile_roi roi x0 y0 wd ht) (tile_roi roi x0 y0 wd ht) inp outb) = out" by (simp flip: out)
    moreover have "roi_width (tile_roi roi x0 y0 wd ht) = wd" "roi_height (tile_roi roi x0 y0 wd ht) = ht"
      "roi_scale (tile_roi roi x0 y0 wd ht) = roi_scale roi" "roi_x (tile_roi roi x0 y0 wd ht) = roi_x roi + int x0"
      "roi_y (tile_roi roi x0 y0 wd ht) = roi_y roi + int y0" by (simp_all add: tile_roi_def)
    ultimately show ?thesis using loc lt room unfolding acts_locally_def by metis
  qed
  moreover have "window r wd ht inp i j = window r (roi_width roi) (roi_height roi) img (x0 + i) (y0 + j)"
    using inp lt in_image px py ij by (intro window_of_part) auto
  ultimately show ?thesis using ij aligned by (simp add: local_pixel_def aligned_offset_mod add.assoc)
qed

text \<open>A grid that suits a local module; and what the tiles before column \<open>tx\<close>, row \<open>ty\<close> have settled.\<close>

definition suits :: "tile_grid \<Rightarrow> dt_iop_roi_t \<Rightarrow> nat \<Rightarrow> nat \<Rightarrow> bool" where
  "suits g roi r al \<longleftrightarrow> r \<le> tg_overlap g \<and> al dvd tg_overlap g \<and>
     effective (roi_width roi) (tg_width g) (tg_overlap g) \<and> effective (roi_height roi) (tg_height g) (tg_overlap g) \<and>
     (tg_width g < roi_width roi \<longrightarrow> al dvd tg_width g) \<and> (tg_height g < roi_height roi \<longrightarrow> al dvd tg_height g)"

definition tiles_settled :: "tile_grid \<Rightarrow> dt_iop_roi_t \<Rightarrow> (nat \<Rightarrow> nat \<Rightarrow> 'b) \<Rightarrow> real \<times> real \<times> real \<times> real \<Rightarrow> nat \<Rightarrow> nat \<Rightarrow>
    ('a, 'b) tile_state \<Rightarrow> bool" where
  "tiles_settled g roi pixel new tx ty t \<longleftrightarrow> tile_buffers g roi t \<and> (0 < tx \<or> 0 < ty \<longrightarrow> ts_new t = new) \<and>
     (\<forall>px<roi_width roi. \<forall>py<roi_height roi.
        px < tile_done (roi_width roi) (tg_width g) (tg_overlap g) tx \<or>
        px < tile_done (roi_width roi) (tg_width g) (tg_overlap g) (Suc tx) \<and> py < tile_done (roi_height roi) (tg_height g) (tg_overlap g) ty \<longrightarrow>
        ts_ovoid t ! (py * roi_width roi + px) = pixel px py)"

lemma tile_settles:
  fixes roi g
  defines "W \<equiv> roi_width roi" and "H \<equiv> roi_height roi" and "ov \<equiv> tg_overlap g" and "w \<equiv> tg_width g" and "h \<equiv> tg_height g"
  assumes loc: "acts_locally proc f mx r al" and suits: "suits g roi r al" and iv: "length ivoid = W * H"
    and tx: "tx < tile_count W w (tile_inner w ov)" "\<not> tile_skipped W w (tile_inner w ov) ov tx"
    and ty: "ty < tile_count H h (tile_inner h ov)" "\<not> tile_skipped H h (tile_inner h ov) ov ty"
    and J: "tiles_settled g roi (local_pixel f r al roi ivoid) (mx saved) tx ty t"
  shows "\<exists>t'. process_tile proc roi roi ivoid g saved tx ty t = Some t' \<and>
    tiles_settled g roi (local_pixel f r al roi ivoid) (mx saved) tx (Suc ty) t'"
proof -
  let ?X = "tile_done W w ov" and ?Y = "tile_done H h ov" and ?pixel = "local_pixel f r al roi ivoid"
  have r: "r \<le> ov" and eff: "effective W w ov" "effective H h ov"
    and ali: "al dvd ov" "w < W \<Longrightarrow> al dvd w" "h < H \<Longrightarrow> al dvd h"
    using suits by (simp_all add: suits_def W_def H_def ov_def w_def h_def)
  have bufs: "tile_buffers g roi t" and old: "\<And>px py. px < W \<Longrightarrow> py < H \<Longrightarrow> px < ?X tx \<or> px < ?X (Suc tx) \<and> py < ?Y ty \<Longrightarrow>
    ts_ovoid t ! (py * W + px) = ?pixel px py"
    using J unfolding tiles_settled_def W_def H_def ov_def w_def h_def by blast+
  define x0 y0 wd ht ox oy where defs: "x0 = tx * tile_inner w ov" "y0 = ty * tile_inner h ov"
    "wd = tile_extent W w (tile_inner w ov) tx" "ht = tile_extent H h (tile_inner h ov) ty"
    "ox = (if 0 < tx then ov else 0)" "oy = (if 0 < ty then ov else 0)"
  note sx = extent_in_image [OF tx(1)] processed_tile_starts [OF eff(1) tx]
  note sy = extent_in_image [OF ty(1)] processed_tile_starts [OF eff(2) ty]
  have img: "x0 + wd \<le> W" "y0 + ht \<le> H" "wd \<le> w" "ht \<le> h" "ox \<le> wd" "oy \<le> ht" using sx sy by (simp_all add: defs)
  have start: "x0 + ox = ?X tx" "y0 + oy = ?Y ty" using sx(3) sy(3) by (simp_all add: defs)
  have part: "process_tile proc roi roi ivoid g saved tx ty t = process_part proc roi roi ivoid saved x0 y0 wd ht ox oy t"
    using tx(2) ty(2) by (simp add: process_tile_def Let_def defs flip: W_def H_def ov_def w_def h_def)
  obtain inp t' where run: "process_part proc roi roi ivoid saved x0 y0 wd ht ox oy t = Some t'" "tile_buffers g roi t'"
    and room: "wd * ht \<le> length inp" "wd * ht \<le> length (ts_output t)"
    and inp: "\<forall>i<wd. \<forall>j<ht. inp ! (j * wd + i) = ivoid ! ((y0 + j) * W + x0 + i)"
    and out: "(ts_pipe t', ts_output t') = proc ((ts_pipe t)\<lparr>tp_maximum := saved\<rparr>) (tile_roi roi x0 y0 wd ht) (tile_roi roi x0 y0 wd ht) inp (ts_output t)"
    and new: "ts_new t' = tp_maximum (ts_pipe t')"
    and px: "\<forall>px<W. \<forall>py<H. ts_ovoid t' ! (py * W + px) = (if y0 + oy \<le> py \<and> py < y0 + ht \<and> x0 + ox \<le> px \<and> px < x0 + wd
       then ts_output t' ! ((py - y0) * wd + (px - x0)) else ts_ovoid t ! (py * W + px))"
    using process_part_runs [of x0 wd roi y0 ht g ox oy t ivoid proc saved] img bufs iv acts_locally_keeps [OF loc]
    unfolding W_def H_def w_def h_def by blast
  have "ts_pipe t' = fst (proc ((ts_pipe t)\<lparr>tp_maximum := saved\<rparr>) (tile_roi roi x0 y0 wd ht) (tile_roi roi x0 y0 wd ht) inp (ts_output t))"
    by (simp flip: out)
  also have "\<dots> = (ts_pipe t)\<lparr>tp_maximum := mx saved\<rparr>" using loc room by (simp add: acts_locally_def tile_roi_def)
  finally have "ts_new t' = mx saved" using new by simp
  moreover have "ts_ovoid t' ! (py * W + px) = ?pixel px py"
    if b: "px < W" "py < H" and d: "px < ?X tx \<or> px < ?X (Suc tx) \<and> py < ?Y (Suc ty)" for px py
  proof (cases "px < ?X tx \<or> px < ?X (Suc tx) \<and> py < ?Y ty")
    case True
    then have "ts_ovoid t' ! (py * W + px) = ts_ovoid t ! (py * W + px)" using px b start by auto
    then show ?thesis using old [OF b True] by simp
  next
    case False
    then have fresh: "?X tx \<le> px" "?Y ty \<le> py" "px < ?X (Suc tx)" "py < ?Y (Suc ty)" using d by auto
    note ex = processed_tile_settles [OF eff(1) tx fresh(3), folded defs]
    note ey = processed_tile_settles [OF eff(2) ty fresh(4), folded defs]
    have "ts_ovoid t' ! (py * W + px) = ts_output t' ! ((py - y0) * wd + (px - x0))"
      using px b fresh start ex(1) ey(1) by simp
    also have "\<dots> = ?pixel px py"
    proof (rule part_is_local [OF loc out room])
      show "al dvd x0" "al dvd y0"
        using tile_origin_aligned [OF eff(1) ali(1,2) tx(1)] tile_origin_aligned [OF eff(2) ali(1,3) ty(1)] by (simp_all add: defs)
      show "x0 = 0 \<or> x0 + r \<le> px" "y0 = 0 \<or> y0 + r \<le> py" using start fresh r by (auto simp: defs(1,2,5,6) split: if_splits)
      show "px + r < x0 + wd \<or> x0 + wd = roi_width roi" "py + r < y0 + ht \<or> y0 + ht = roi_height roi"
        using ex(2) ey(2) r by (auto simp: W_def H_def)
      show "x0 \<le> px" "y0 \<le> py" using start fresh by auto
    qed (use inp img ex(1) ey(1) in \<open>auto simp: W_def H_def\<close>)
    finally show ?thesis .
  qed
  ultimately show ?thesis using part run by (simp add: tiles_settled_def W_def H_def ov_def w_def h_def)
qed

lemma skipped_row_settled:
  assumes "suits g roi r al" and "ty < tile_count (roi_height roi) (tg_height g) (tile_inner (tg_height g) (tg_overlap g))"
    and "tile_skipped (roi_height roi) (tg_height g) (tile_inner (tg_height g) (tg_overlap g)) (tg_overlap g) ty"
    and "tiles_settled g roi pixel new tx ty t"
  shows "tiles_settled g roi pixel new tx (Suc ty) t"
  using assms skipped_tile_settled [OF _ assms(2,3)] by (auto simp: suits_def tiles_settled_def tile_skipped_def)

lemma column_settles:
  assumes "acts_locally proc f mx r al" and "suits g roi r al" and "length ivoid = roi_width roi * roi_height roi"
    and tx: "tx < tile_count (roi_width roi) (tg_width g) (tile_inner (tg_width g) (tg_overlap g))"
    and J: "tiles_settled g roi (local_pixel f r al roi ivoid) (mx saved) tx 0 t"
  shows "\<exists>t'. for_loop (process_tile proc roi roi ivoid g saved tx)
      (tile_count (roi_height roi) (tg_height g) (tile_inner (tg_height g) (tg_overlap g))) t = Some t' \<and>
    tiles_settled g roi (local_pixel f r al roi ivoid) (mx saved) (Suc tx) 0 t'"
proof (cases "tile_skipped (roi_width roi) (tg_width g) (tile_inner (tg_width g) (tg_overlap g)) (tg_overlap g) tx")
  case True
  then have "process_tile proc roi roi ivoid g saved tx ty t = Some t" for ty by (simp add: process_tile_def Let_def)
  then have "for_loop (process_tile proc roi roi ivoid g saved tx) n t = Some t" for n
    using for_loop_rule [of "\<lambda>_ t'. t' = t" t n "process_tile proc roi roi ivoid g saved tx"] by simp
  moreover have "0 < tx" using True by (simp add: tile_skipped_def)
  moreover have "effective (roi_width roi) (tg_width g) (tg_overlap g)" using assms(2) by (simp add: suits_def)
  ultimately show ?thesis using J skipped_tile_settled [OF _ tx True] by (simp add: tiles_settled_def)
next
  case False
  let ?S = "tiles_settled g roi (local_pixel f r al roi ivoid) (mx saved)"
  let ?n = "tile_count (roi_height roi) (tg_height g) (tile_inner (tg_height g) (tg_overlap g))"
  let ?f = "process_tile proc roi roi ivoid g saved tx"
  have row: "\<exists>t'. ?f ty u = Some t' \<and> ?S tx (Suc ty) t'" if "ty < ?n" "?S tx ty u" for ty u
  proof (cases "tile_skipped (roi_height roi) (tg_height g) (tile_inner (tg_height g) (tg_overlap g)) (tg_overlap g) ty")
    case True
    then have "process_tile proc roi roi ivoid g saved tx ty u = Some u" by (simp add: process_tile_def Let_def)
    then show ?thesis using skipped_row_settled [OF assms(2) that(1) True that(2)] by simp
  qed (rule tile_settles [OF assms(1-3) tx False that(1) _ that(2)])
  obtain t' where t': "for_loop ?f ?n t = Some t'" "?S tx ?n t'"
    using for_loop_rule [where P = "?S tx" and f = ?f and n = ?n and s = t, OF J row] by blast
  have "0 < ?n" by (simp add: tile_count_pos)
  moreover have "effective (roi_height roi) (tg_height g) (tg_overlap g)" using assms(2) by (simp add: suits_def)
  ultimately show ?thesis using t' by (simp add: tiles_settled_def tile_done_all)
qed

lemma process_tiles_local:
  assumes "acts_locally proc f mx r al" and "suits g roi r al" and "length ivoid = roi_width roi * roi_height roi" and "tile_buffers g roi s"
  shows "\<exists>t. process_tiles proc roi roi ivoid g saved (tile_count (roi_width roi) (tg_width g) (tile_inner (tg_width g) (tg_overlap g)))
      (tile_count (roi_height roi) (tg_height g) (tile_inner (tg_height g) (tg_overlap g))) s = Some t \<and>
    tile_buffers g roi t \<and> ts_new t = mx saved \<and>
    (\<forall>px<roi_width roi. \<forall>py<roi_height roi. ts_ovoid t ! (py * roi_width roi + px) = local_pixel f r al roi ivoid px py)"
proof -
  let ?S = "\<lambda>tx. tiles_settled g roi (local_pixel f r al roi ivoid) (mx saved) tx 0"
  let ?n = "tile_count (roi_width roi) (tg_width g) (tile_inner (tg_width g) (tg_overlap g))"
  have "?S 0 s" using assms(4) by (simp add: tiles_settled_def)
  let ?f = "\<lambda>tx. for_loop (process_tile proc roi roi ivoid g saved tx)
     (tile_count (roi_height roi) (tg_height g) (tile_inner (tg_height g) (tg_overlap g)))"
  obtain t where t: "for_loop ?f ?n s = Some t" "?S ?n t"
    using for_loop_rule [where P = ?S and f = ?f and n = ?n and s = s, OF \<open>?S 0 s\<close> column_settles [OF assms(1-3)]] by blast
  have "0 < ?n" by (simp add: tile_count_pos)
  moreover have "effective (roi_width roi) (tg_width g) (tg_overlap g)" using assms(2) by (simp add: suits_def)
  ultimately show ?thesis using t by (simp add: process_tiles_def tiles_settled_def tile_done_all)
qed


section \<open>Any module: the tiles stay inside the buffers\<close>

abbreviation tiles_across :: "tile_grid \<Rightarrow> dt_iop_roi_t \<Rightarrow> nat" where
  "tiles_across g roi \<equiv> tile_count (roi_width roi) (tg_width g) (tile_inner (tg_width g) (tg_overlap g))"

abbreviation tiles_down :: "tile_grid \<Rightarrow> dt_iop_roi_t \<Rightarrow> nat" where
  "tiles_down g roi \<equiv> tile_count (roi_height roi) (tg_height g) (tile_inner (tg_height g) (tg_overlap g))"

definition column_end :: "tile_grid \<Rightarrow> dt_iop_roi_t \<Rightarrow> nat \<Rightarrow> nat" where
  "column_end g roi tx =
     (if tile_skipped (roi_width roi) (tg_width g) (tile_inner (tg_width g) (tg_overlap g)) (tg_overlap g) tx then 0
      else tx * tile_inner (tg_width g) (tg_overlap g) + tile_extent (roi_width roi) (tg_width g) (tile_inner (tg_width g) (tg_overlap g)) tx)"

text \<open>Columns from \<open>e\<close> on are as they were.\<close>

definition untouched_from :: "nat \<Rightarrow> dt_iop_roi_t \<Rightarrow> 'b list \<Rightarrow> 'b list \<Rightarrow> bool" where
  "untouched_from e roi ov ov' \<longleftrightarrow>
     (\<forall>px<roi_width roi. \<forall>py<roi_height roi. e \<le> px \<longrightarrow> ov' ! (py * roi_width roi + px) = ov ! (py * roi_width roi + px))"

lemma untouched_from_refl [simp]: "untouched_from e roi ov ov"
  by (simp add: untouched_from_def)

lemma untouched_from_trans: "untouched_from e roi ov ov' \<Longrightarrow> untouched_from e roi ov' ov'' \<Longrightarrow> untouched_from e roi ov ov''"
  by (simp add: untouched_from_def)

lemma process_tile_inside:
  assumes tx: "tx < tiles_across g roi" and ty: "ty < tiles_down g roi"
    and b: "tile_buffers g roi s" "length ivoid = roi_width roi * roi_height roi" and k: "keeps_output proc" and e: "column_end g roi tx \<le> e"
  shows "\<exists>t. process_tile proc roi roi ivoid g saved tx ty s = Some t \<and> tile_buffers g roi t \<and> untouched_from e roi (ts_ovoid s) (ts_ovoid t)"
proof (cases "tile_skipped (roi_width roi) (tg_width g) (tile_inner (tg_width g) (tg_overlap g)) (tg_overlap g) tx \<or>
    tile_skipped (roi_height roi) (tg_height g) (tile_inner (tg_height g) (tg_overlap g)) (tg_overlap g) ty")
  case True
  then have "process_tile proc roi roi ivoid g saved tx ty s = Some s" by (auto simp: process_tile_def Let_def)
  then show ?thesis using b by simp
next
  case False
  define x0 y0 wd ht ox oy where d: "x0 = tx * tile_inner (tg_width g) (tg_overlap g)" "y0 = ty * tile_inner (tg_height g) (tg_overlap g)"
    "wd = tile_extent (roi_width roi) (tg_width g) (tile_inner (tg_width g) (tg_overlap g)) tx"
    "ht = tile_extent (roi_height roi) (tg_height g) (tile_inner (tg_height g) (tg_overlap g)) ty"
    "ox = (if 0 < tx then tg_overlap g else 0)" "oy = (if 0 < ty then tg_overlap g else 0)"
  have "ox \<le> wd" "oy \<le> ht" using False by (auto simp: tile_skipped_def d)
  moreover have "x0 + wd \<le> roi_width roi" "y0 + ht \<le> roi_height roi" "wd \<le> tg_width g" "ht \<le> tg_height g"
    using extent_in_image [OF tx] extent_in_image [OF ty] by (simp_all add: d)
  ultimately obtain inp t where t: "process_part proc roi roi ivoid saved x0 y0 wd ht ox oy s = Some t" "tile_buffers g roi t"
    and px: "\<forall>px<roi_width roi. \<forall>py<roi_height roi. ts_ovoid t ! (py * roi_width roi + px) =
       (if y0 + oy \<le> py \<and> py < y0 + ht \<and> x0 + ox \<le> px \<and> px < x0 + wd
        then ts_output t ! ((py - y0) * wd + (px - x0)) else ts_ovoid s ! (py * roi_width roi + px))"
    using process_part_runs [of x0 wd roi y0 ht g ox oy s ivoid proc saved] b k by blast
  have "x0 + wd \<le> e" using e False by (simp add: column_end_def d)
  then have "untouched_from e roi (ts_ovoid s) (ts_ovoid t)" using px by (simp add: untouched_from_def)
  moreover have "process_tile proc roi roi ivoid g saved tx ty s = process_part proc roi roi ivoid saved x0 y0 wd ht ox oy s"
    using False by (simp add: process_tile_def Let_def d)
  ultimately show ?thesis using t by simp
qed

lemma process_tiles_inside:
  assumes b: "tile_buffers g roi s" "length ivoid = roi_width roi * roi_height roi" and k: "keeps_output proc"
    and e: "\<And>tx. tx < tiles_across g roi \<Longrightarrow> column_end g roi tx \<le> e"
  shows "\<exists>t. process_tiles proc roi roi ivoid g saved (tiles_across g roi) (tiles_down g roi) s = Some t \<and> tile_buffers g roi t \<and>
    untouched_from e roi (ts_ovoid s) (ts_ovoid t)"
proof -
  let ?f = "process_tile proc roi roi ivoid g saved"
  let ?P = "\<lambda>_ t. tile_buffers g roi t \<and> untouched_from e roi (ts_ovoid s) (ts_ovoid t)"
  have tile: "\<exists>t'. ?f tx ty t = Some t' \<and> ?P (Suc ty) t'" if "tx < tiles_across g roi" "ty < tiles_down g roi" "?P ty t" for tx ty t
    using process_tile_inside [OF that(1,2) _ b(2) k e [OF that(1)], of t saved] that(3) untouched_from_trans by blast
  have column: "\<exists>t'. for_loop (?f tx) (tiles_down g roi) t = Some t' \<and> ?P (Suc tx) t'" if "tx < tiles_across g roi" "?P tx t" for tx t
    using for_loop_rule [where P = ?P and f = "?f tx" and n = "tiles_down g roi" and s = t] that tile by blast
  have "?P 0 s" using b by simp
  then show ?thesis unfolding process_tiles_def
    using for_loop_rule [where P = ?P and f = "\<lambda>tx. for_loop (?f tx) (tiles_down g roi)" and n = "tiles_across g roi" and s = s] column by blast
qed


section \<open>The whole run\<close>

definition whole_buffers :: "(nat \<Rightarrow> 'x list option) \<Rightarrow> bool" where
  "whole_buffers al \<longleftrightarrow> (\<forall>n b. al n = Some b \<longrightarrow> length b = n)"

definition request_for :: "('a, 'b) tile_env \<Rightarrow> dt_iop_roi_t \<Rightarrow> dt_develop_tiling_t" where
  "request_for E roi = tiling_request (te_callback E roi roi)"

definition run_grid :: "('a, 'b) tile_env \<Rightarrow> dt_iop_roi_t \<Rightarrow> nat \<Rightarrow> tile_grid" where
  "run_grid E roi in_bpp =
     grid_for (te_fl E) (te_pipe_mem E) (te_singlebuffer_mem E) (request_for E roi) roi roi in_bpp (te_out_bpp E)"

lemma grid_alignment:
  assumes "0 < tl_align t" and "g = grid_for fl pm sm t roi roi ib ob"
  shows "tl_align t dvd tg_overlap g" and "tl_overlap t \<le> tg_overlap g"
    and "tg_width g < roi_width roi \<Longrightarrow> tl_align t dvd tg_width g" and "tg_height g < roi_height roi \<Longrightarrow> tl_align t dvd tg_height g"
proof -
  obtain w h where "g = \<lparr>tg_width = align_tile (tl_align t) (roi_width roi) w, tg_height = align_tile (tl_align t) (roi_height roi) h,
     tg_overlap = align_overlap (tl_align t) (tl_overlap t)\<rparr>"
    using assms(2) by (simp add: grid_for_def Let_def split: prod.splits)
  then show "tl_align t dvd tg_overlap g" "tl_overlap t \<le> tg_overlap g"
    "tg_width g < roi_width roi \<Longrightarrow> tl_align t dvd tg_width g" "tg_height g < roi_height roi \<Longrightarrow> tl_align t dvd tg_height g"
    using assms(1) align_overlap_dvd align_overlap_ge align_tile_dvd by simp_all
qed

text \<open>The run, once its guards are decided.\<close>

lemma ptp_cases:
  assumes "0 < tl_align (request_for E roi)" and "whole_buffers (te_alloc_in E)" and "whole_buffers (te_alloc_out E)"
    and "length ovoid = roi_width roi * roi_height roi"
  obtains (whole) "default_process_tiling_ptp E pipe roi roi in_bpp ivoid ovoid = Some (process_untiled E pipe roi roi ivoid ovoid)"
  | (tiles) s where "tile_buffers (run_grid E roi in_bpp) roi s" "ts_ovoid s = ovoid"
      "default_process_tiling_ptp E pipe roi roi in_bpp ivoid ovoid =
         map_option (\<lambda>t. ((ts_pipe t)\<lparr>tp_maximum := ts_new t, tp_tiling := False\<rparr>, ts_ovoid t))
           (process_tiles (te_process E) roi roi ivoid (run_grid E roi in_bpp) (tp_maximum pipe)
              (tiles_across (run_grid E roi in_bpp) roi) (tiles_down (run_grid E roi in_bpp) roi) s)"
proof -
  define g where "g = run_grid E roi in_bpp"
  note [simp] = g_def [symmetric, unfolded run_grid_def]
  note unfolded = default_process_tiling_ptp_def [of E pipe roi roi in_bpp ivoid ovoid, unfolded Let_def, folded request_for_def]
  consider "no_memory_saving (te_fl E) (request_for E roi) (roi_width roi) (roi_height roi) (max in_bpp (te_out_bpp E))"
    | "too_many_tiles (te_level E) (tiles_across g roi) (tiles_down g roi)"
    | "te_alloc_in E (tg_width g * tg_height g) = None" | "te_alloc_out E (tg_width g * tg_height g) = None"
    | input "output" where "\<not> no_memory_saving (te_fl E) (request_for E roi) (roi_width roi) (roi_height roi) (max in_bpp (te_out_bpp E))"
      "\<not> too_many_tiles (te_level E) (tiles_across g roi) (tiles_down g roi)"
      "te_alloc_in E (tg_width g * tg_height g) = Some input" "te_alloc_out E (tg_width g * tg_height g) = Some output" by fastforce
  then show ?thesis
  proof cases
    case (5 input "output")
    then have "tile_buffers g roi \<lparr>ts_input = input, ts_output = output, ts_ovoid = ovoid, ts_pipe = pipe\<lparr>tp_tiling := True\<rparr>, ts_new = (1, 0, 0, 0)\<rparr>"
      using assms by (simp add: tile_buffers_def whole_buffers_def)
    then show ?thesis using 5 assms(1) tiles by (simp add: unfolded g_def [symmetric])
  qed (use assms(1) whole in \<open>simp_all add: unfolded split: option.split\<close>)
qed


lemma image_eqI_pixels:
  assumes "length a = W * H" and "length b = W * H" and "\<And>px py. px < W \<Longrightarrow> py < H \<Longrightarrow> a ! (py * W + px) = b ! (py * W + px)"
  shows "a = b"
proof (rule nth_equalityI)
  fix k assume "k < length a"
  then have "k < W * H" using assms(1) by simp
  then have "0 < W" by (cases W) auto
  then have "k mod W < W" by simp
  moreover have "k div W < H" using \<open>k < W * H\<close> by (simp add: less_mult_imp_div_less mult.commute)
  ultimately have "a ! (k div W * W + k mod W) = b ! (k div W * W + k mod W)" by (rule assms(3))
  then show "a ! k = b ! k" by simp
qed (simp add: assms)

text \<open>What shrinking and squaring do to the area, in exact arithmetic.\<close>

lemma singlebuffer_nonneg: "fl = (\<lambda>x. x) \<Longrightarrow> 0 \<le> singlebuffer_for fl pm sm t ri ro ib ob"
proof -
  assume "fl = (\<lambda>x. x)"
  moreover have "0 \<le> max a 0 / max b 1" for a b :: real by simp
  ultimately show ?thesis by (simp add: singlebuffer_for_def Let_def le_max_iff_disj)
qed

lemma of_nat_floor_le: "0 \<le> x \<Longrightarrow> real (nat \<lfloor>x\<rfloor>) \<le> x"
  by (simp add: of_nat_nat)

lemma square_tile_area: "square_tile (\<lambda>x. x) ov (w, h) = (w2, h2) \<Longrightarrow> real (w2 * h2) \<le> real (w * h)"
proof (cases "w < 3 * ov \<or> h < 3 * ov")
  case True
  let ?q = "nat \<lfloor>sqrt (real w * real h)\<rfloor>"
  have "real ?q \<le> sqrt (real w * real h)" by (intro of_nat_floor_le) simp
  then have "real ?q * real ?q \<le> sqrt (real w * real h) * sqrt (real w * real h)" by (intro mult_mono) auto
  moreover assume "square_tile (\<lambda>x. x) ov (w, h) = (w2, h2)"
  ultimately show ?thesis using True by (auto simp: square_tile_def Let_def)
qed (auto simp: square_tile_def)

lemma shrink_tile_area:
  assumes "shrink_tile (\<lambda>x. x) sb t bpp W H = (w, h)" and "0 \<le> sb"
  shows "real (w * h) * (real bpp * max (tl_maxbuf t) 1) \<le> sb"
proof -
  define k where "k = real bpp * max (tl_maxbuf t) 1"
  define need where "need = real W * real H * k"
  have need: "buffer_bytes (\<lambda>x. x) W H bpp * max (tl_maxbuf t) 1 = need" by (simp add: buffer_bytes_def need_def k_def)
  have k0: "0 \<le> k" by (simp add: k_def)
  show ?thesis
  proof (cases "need \<le> sb")
    case True
    then show ?thesis using assms(1) by (auto simp: shrink_tile_def Let_def need) (simp add: need_def k_def mult.assoc)
  next
    case False
    let ?s = "sb / need"
    have s0: "0 \<le> ?s" using assms(2) False by simp
    have "real (w * h) \<le> real W * real H * ?s"
    proof -
      consider "w = W" "h = nat \<lfloor>real H * ?s\<rfloor>" | "w = nat \<lfloor>real W * ?s\<rfloor>" "h = H"
        | "w = nat \<lfloor>real W * sqrt ?s\<rfloor>" "h = nat \<lfloor>real H * sqrt ?s\<rfloor>"
        using assms(1) False by (auto simp: shrink_tile_def Let_def need split: if_splits)
      then show ?thesis
      proof cases
        case 1
        have "real h \<le> real H * ?s" unfolding 1 using s0 by (intro of_nat_floor_le mult_nonneg_nonneg) simp_all
        then have "real W * real h \<le> real W * (real H * ?s)" by (rule mult_left_mono) simp
        then show ?thesis using 1(1) by (simp add: mult.assoc)
      next
        case 2
        have "real w \<le> real W * ?s" unfolding 2 using s0 by (intro of_nat_floor_le mult_nonneg_nonneg) simp_all
        then have "real w * real H \<le> real W * ?s * real H" by (rule mult_right_mono) simp
        then show ?thesis using 2(2) by (simp add: mult.commute mult.left_commute)
      next
        case 3
        have "real w \<le> real W * sqrt ?s" "real h \<le> real H * sqrt ?s" unfolding 3 using s0
          by (intro of_nat_floor_le mult_nonneg_nonneg; simp)+
        then have "real w * real h \<le> (real W * sqrt ?s) * (real H * sqrt ?s)" using s0 by (intro mult_mono) auto
        also have "\<dots> = real W * real H * (sqrt ?s * sqrt ?s)" by (simp add: algebra_simps)
        also have "sqrt ?s * sqrt ?s = ?s" using s0 by (rule real_sqrt_mult_self [THEN trans, OF abs_of_nonneg])
        finally show ?thesis by simp
      qed
    qed
    then have "real (w * h) * k \<le> real W * real H * ?s * k" using k0 by (rule mult_right_mono)
    also have "\<dots> = need * ?s" by (simp add: need_def algebra_simps)
    also have "\<dots> = sb" using False assms(2) by simp
    finally show ?thesis by (simp add: k_def)
  qed
qed

text \<open>An image of 8 by 4 pixels and a module that adds up three neighbours of a row, with little memory.\<close>

definition tiled_rule :: "real \<Rightarrow> int \<Rightarrow> int \<Rightarrow> nat \<Rightarrow> nat \<Rightarrow> (int \<Rightarrow> int \<Rightarrow> int option) \<Rightarrow> int" where
  "tiled_rule scale x y i j win = (let px = (\<lambda>dx. case win dx 0 of None \<Rightarrow> 0 | Some v \<Rightarrow> v) in px (- 1) + px 0 + px 1)"

definition tiled_env :: "real \<Rightarrow> nat \<Rightarrow> (int, int) tile_env" where
  "tiled_env mem overlap =
     \<lparr>te_fl = (\<lambda>x. x), te_level = 1, te_pipe_mem = 0, te_singlebuffer_mem = mem,
      te_callback = (\<lambda>_ _ t. t\<lparr>tl_factor := 3, tl_maxbuf := 1, tl_overlap := overlap, tl_align := 1\<rparr>),
      te_alloc_in = (\<lambda>n. Some (replicate n 0)), te_alloc_out = (\<lambda>n. Some (replicate n 0)),
      te_process = local_process tiled_rule (\<lambda>m. m) 1 1, te_full_roi = False,
      te_process_tiling_roi = (\<lambda>_ _ _ _ _. None), te_out_bpp = 1\<rparr>"

definition tiled_roi :: dt_iop_roi_t where
  "tiled_roi = \<lparr>roi_x = 0, roi_y = 0, roi_width = 8, roi_height = 4, roi_scale = 1\<rparr>"

lemma tiled_request: "request_for (tiled_env mem ov) roi =
  \<lparr>tl_factor = 3, tl_factor_cl = 3, tl_maxbuf = 1, tl_maxbuf_cl = 1, tl_overhead = 0, tl_overlap = ov, tl_align = 1\<rparr>"
  by (simp add: request_for_def tiling_request_def tiled_env_def Let_def)

lemmas grid_defs = run_grid_def grid_for_def singlebuffer_for_def shrink_tile_def square_tile_def align_tile_def align_overlap_def
  buffer_bytes_def tiled_request

lemma tiled_grid: "run_grid (tiled_env 20 1) tiled_roi 1 = \<lparr>tg_width = 5, tg_height = 4, tg_overlap = 1\<rparr>"
  by (simp add: grid_defs) (simp add: tiled_env_def tiled_roi_def)

lemma tiled_narrow_grid: "run_grid (tiled_env 16 2) tiled_roi 1 = \<lparr>tg_width = 4, tg_height = 4, tg_overlap = 2\<rparr>"
proof -
  have "sqrt 16 = (4 :: real)" by (rule real_sqrt_unique) simp_all
  then show ?thesis by (simp add: grid_defs) (simp add: tiled_env_def tiled_roi_def)
qed

lemma tiled_env_buffers: "whole_buffers (te_alloc_in (tiled_env mem ov))" "whole_buffers (te_alloc_out (tiled_env mem ov))"
  by (simp_all add: tiled_env_def whole_buffers_def)

lemma tiled_local: "acts_locally (te_process (tiled_env mem ov)) tiled_rule (\<lambda>m. m) 1 1"
  by (simp add: tiled_env_def local_process_acts_locally)

text \<open>C4:
  Processing in tiles gives what processing the whole gives. The input and output regions are equal and the module is not flagged
  \<open>IOP_FLAGS_TILING_FULL_ROI\<close>, so that its tiles keep pixels in place (such modules as vignetting and graduated density are not covered). A module that acts locally, within the overlap and up to the alignment it asks
  for, leaves the same pipe and the same output buffer whether it runs on the whole or in tiles, whatever single precision rounds to, whichever
  allocation fails and whatever the output buffer held before, as long as the tiles of each direction are larger than their overlap or cover
  the image.\<close>

theorem tiled_equals_whole:
  assumes "acts_locally (te_process E) f mx (tl_overlap (request_for E roi)) (tl_align (request_for E roi))"
    and "0 < tl_align (request_for E roi)" and "whole_buffers (te_alloc_in E)" and "whole_buffers (te_alloc_out E)"
    and "length ivoid = roi_width roi * roi_height roi" and "length ovoid = roi_width roi * roi_height roi"
    and "\<not> te_full_roi E" and "\<not> tp_tiling pipe"
    and "effective (roi_width roi) (tg_width (run_grid E roi in_bpp)) (tg_overlap (run_grid E roi in_bpp))"
    and "effective (roi_height roi) (tg_height (run_grid E roi in_bpp)) (tg_overlap (run_grid E roi in_bpp))"
  shows "process_fitting E available factor overhead may_tile pipe roi roi in_bpp ivoid ovoid = Some (te_process E pipe roi roi ivoid ovoid)"
proof -
  have pipe: "pipe\<lparr>tp_tiling := False\<rparr> = pipe" using assms(8) by simp
  note whole = whole_is_local [OF assms(1,5,6)]
  have "default_process_tiling_ptp E pipe roi roi in_bpp ivoid ovoid = Some (te_process E pipe roi roi ivoid ovoid)"
    using assms(2-4,6)
  proof (rule ptp_cases [where pipe = pipe and in_bpp = in_bpp and ivoid = ivoid])
    fix s :: "('a, 'b) tile_state"
    let ?g = "run_grid E roi in_bpp"
    assume s: "tile_buffers ?g roi s" "default_process_tiling_ptp E pipe roi roi in_bpp ivoid ovoid =
      map_option (\<lambda>t. ((ts_pipe t)\<lparr>tp_maximum := ts_new t, tp_tiling := False\<rparr>, ts_ovoid t))
        (process_tiles (te_process E) roi roi ivoid ?g (tp_maximum pipe) (tiles_across ?g roi) (tiles_down ?g roi) s)"
    have "suits ?g roi (tl_overlap (request_for E roi)) (tl_align (request_for E roi))"
      using grid_alignment [OF assms(2) run_grid_def [of E roi in_bpp]] assms(9,10) by (simp add: suits_def)
    from process_tiles_local [OF assms(1) this assms(5) s(1)]
    obtain t where t: "process_tiles (te_process E) roi roi ivoid ?g (tp_maximum pipe) (tiles_across ?g roi) (tiles_down ?g roi) s = Some t"
      "tile_buffers ?g roi t" "ts_new t = mx (tp_maximum pipe)"
      and px: "\<forall>px<roi_width roi. \<forall>py<roi_height roi. ts_ovoid t ! (py * roi_width roi + px) =
        local_pixel f (tl_overlap (request_for E roi)) (tl_align (request_for E roi)) roi ivoid px py" by blast
    have "ts_ovoid t = snd (te_process E pipe roi roi ivoid ovoid)"
    proof (rule image_eqI_pixels [where W = "roi_width roi" and H = "roi_height roi"])
      show "ts_ovoid t ! (py * roi_width roi + px) = snd (te_process E pipe roi roi ivoid ovoid) ! (py * roi_width roi + px)"
        if "px < roi_width roi" "py < roi_height roi" for px py
        using px that whole(3) [OF that, of pipe] by metis
    qed (use t(2) assms(6) whole(2) in \<open>simp_all add: tile_buffers_def\<close>)
    moreover have "(ts_pipe t)\<lparr>tp_maximum := ts_new t, tp_tiling := False\<rparr> = fst (te_process E pipe roi roi ivoid ovoid)"
      using whole(1) assms(8) t(3) by simp
    ultimately show ?thesis using s(2) t(1) by simp
  qed (simp add: process_untiled_def pipe)
  then show ?thesis using assms(7) by (simp add: process_fitting_def Let_def default_process_tiling_def)
qed

theorem tiled_equals_whole_witness:
  "process_fitting (tiled_env 20 1) 0 3 0 True \<lparr>tp_tiling = False, tp_maximum = (1, 1, 1, 1)\<rparr> tiled_roi tiled_roi 1
     [0..31] (replicate 32 (- 1)) =
   Some (te_process (tiled_env 20 1) \<lparr>tp_tiling = False, tp_maximum = (1, 1, 1, 1)\<rparr> tiled_roi tiled_roi [0..31] (replicate 32 (- 1)))"
  by (rule tiled_equals_whole [where f = tiled_rule and mx = "\<lambda>m. m"])
    (simp_all add: tiled_request tiled_local tiled_env_buffers tiled_grid effective_def del: One_nat_def,
     simp_all add: tiled_env_def tiled_roi_def)

text \<open>C11:
  In the tiling of modules that keep pixels in place (not of those flagged \<open>IOP_FLAGS_TILING_FULL_ROI\<close>), whatever the size of the tiles, the copies stay inside the input, the output and the tile buffers: no module whose \<open>process\<close> keeps to its
  buffers makes the tiling read or write outside.\<close>

theorem tiles_stay_inside:
  assumes "keeps_output (te_process E)" and "0 < tl_align (request_for E roi)" and "whole_buffers (te_alloc_in E)" and "whole_buffers (te_alloc_out E)"
    and "length ivoid = roi_width roi * roi_height roi" and "length ovoid = roi_width roi * roi_height roi"
  shows "default_process_tiling_ptp E pipe roi roi in_bpp ivoid ovoid \<noteq> None"
  using assms(2-4,6)
proof (rule ptp_cases [where pipe = pipe and in_bpp = in_bpp and ivoid = ivoid])
  fix s :: "('a, 'b) tile_state"
  let ?g = "run_grid E roi in_bpp"
  assume s: "tile_buffers ?g roi s" "default_process_tiling_ptp E pipe roi roi in_bpp ivoid ovoid =
      map_option (\<lambda>t. ((ts_pipe t)\<lparr>tp_maximum := ts_new t, tp_tiling := False\<rparr>, ts_ovoid t))
        (process_tiles (te_process E) roi roi ivoid ?g (tp_maximum pipe) (tiles_across ?g roi) (tiles_down ?g roi) s)"
  have "column_end ?g roi tx \<le> roi_width roi" if "tx < tiles_across ?g roi" for tx
    using extent_in_image(1) [OF that] by (simp add: column_end_def)
  from process_tiles_inside [OF s(1) assms(5,1) this, of "tp_maximum pipe"] obtain t where
    "process_tiles (te_process E) roi roi ivoid ?g (tp_maximum pipe) (tiles_across ?g roi) (tiles_down ?g roi) s = Some t" by blast
  then show ?thesis using s(2) by simp
qed simp

theorem tiles_stay_inside_witness:
  "default_process_tiling_ptp (tiled_env 16 2) \<lparr>tp_tiling = False, tp_maximum = (1, 1, 1, 1)\<rparr> tiled_roi tiled_roi 1
     [0..31] (replicate 32 (- 1)) \<noteq> None"
  by (rule tiles_stay_inside)
    (simp_all add: tiled_request acts_locally_keeps [OF tiled_local] tiled_env_buffers, simp_all add: tiled_roi_def)

text \<open>C35:
  Tiles that are narrower than the image and not larger than their overlap leave the rest of the image unwritten. The guard that skips the
  last tiles then skips all but the first of a row, so the columns behind the first tile keep what the output buffer held, and the run does
  not fail. Only the limit on the number of tiles stands against it.\<close>

theorem narrow_tiles_leave_the_rest:
  assumes "keeps_output (te_process E)" and "0 < tl_align (request_for E roi)" and "whole_buffers (te_alloc_in E)" and "whole_buffers (te_alloc_out E)"
    and "length ivoid = roi_width roi * roi_height roi" and "length ovoid = roi_width roi * roi_height roi"
    and "\<not> no_memory_saving (te_fl E) (request_for E roi) (roi_width roi) (roi_height roi) (max in_bpp (te_out_bpp E))"
    and "\<not> too_many_tiles (te_level E) (tiles_across (run_grid E roi in_bpp) roi) (tiles_down (run_grid E roi in_bpp) roi)"
    and "te_alloc_in E (tg_width (run_grid E roi in_bpp) * tg_height (run_grid E roi in_bpp)) = Some inb"
    and "te_alloc_out E (tg_width (run_grid E roi in_bpp) * tg_height (run_grid E roi in_bpp)) = Some outb"
    and "tg_width (run_grid E roi in_bpp) < roi_width roi"
    and "tg_width (run_grid E roi in_bpp) \<le> 2 * tg_overlap (run_grid E roi in_bpp)"
  shows "\<exists>pipe' ovoid'. default_process_tiling_ptp E pipe roi roi in_bpp ivoid ovoid = Some (pipe', ovoid') \<and>
    untouched_from (tg_width (run_grid E roi in_bpp)) roi ovoid ovoid'"
proof -
  define g where "g = run_grid E roi in_bpp"
  have end_of: "column_end g roi tx \<le> tg_width g" for tx
    using assms(11,12) by (auto simp: column_end_def tile_skipped_def tile_extent_def simp flip: g_def)
  define s where "s = \<lparr>ts_input = inb, ts_output = outb, ts_ovoid = ovoid, ts_pipe = pipe\<lparr>tp_tiling := True\<rparr>, ts_new = (1, 0, 0, 0)\<rparr>"
  have "tile_buffers g roi s" using assms(3,4,6,9,10) by (simp add: tile_buffers_def whole_buffers_def s_def flip: g_def)
  from process_tiles_inside [OF this assms(5,1) end_of, of "tp_maximum pipe"] obtain t where
    t: "process_tiles (te_process E) roi roi ivoid g (tp_maximum pipe) (tiles_across g roi) (tiles_down g roi) s = Some t"
      "untouched_from (tg_width g) roi ovoid (ts_ovoid t)" by (auto simp: s_def)
  have "default_process_tiling_ptp E pipe roi roi in_bpp ivoid ovoid =
      Some ((ts_pipe t)\<lparr>tp_maximum := ts_new t, tp_tiling := False\<rparr>, ts_ovoid t)"
    using assms(2,7-10) t(1) by (simp add: default_process_tiling_ptp_def Let_def s_def
        g_def [symmetric, unfolded run_grid_def] g_def [symmetric] flip: request_for_def)
  then show ?thesis using t(2) by (simp flip: g_def)
qed

theorem narrow_tiles_leave_the_rest_witness:
  "\<exists>pipe' ovoid'. default_process_tiling_ptp (tiled_env 16 2) \<lparr>tp_tiling = False, tp_maximum = (1, 1, 1, 1)\<rparr> tiled_roi tiled_roi 1
     [0..31] (replicate 32 (- 1)) = Some (pipe', ovoid') \<and> untouched_from 4 tiled_roi (replicate 32 (- 1)) ovoid'"
proof -
  have "\<not> no_memory_saving (te_fl (tiled_env 16 2)) (request_for (tiled_env 16 2) tiled_roi) 8 4 (max 1 (te_out_bpp (tiled_env 16 2)))"
    by (simp add: no_memory_saving_def tiled_request) (simp add: tiled_env_def)
  moreover have "\<not> too_many_tiles (te_level (tiled_env 16 2)) 8 1"
    by (simp add: too_many_tiles_def maximum_number_tiles_def tiled_env_def)
  ultimately show ?thesis
    using narrow_tiles_leave_the_rest [of "tiled_env 16 2" tiled_roi "[0..31]" "replicate 32 (- 1)" 1 "replicate 16 0" "replicate 16 0"
        "\<lparr>tp_tiling = False, tp_maximum = (1, 1, 1, 1)\<rparr>"]
    by (simp add: acts_locally_keeps [OF tiled_local] tiled_env_buffers tiled_request tiled_narrow_grid
        tile_count_def tile_inner_def del: One_nat_def) (simp add: tiled_env_def tiled_roi_def)
qed

text \<open>C38:
  The tiles fit the memory they were cut for. In exact arithmetic a tile buffer, with the factor the module asks for its own buffers, is never
  larger than the memory for a single buffer, whichever of the three ways of shrinking is taken, after the switch to squares and the
  alignment.\<close>

theorem tile_fits_singlebuffer:
  "real (tg_width (grid_for (\<lambda>x. x) pipe_mem mem t roi_in roi_out in_bpp out_bpp) *
         tg_height (grid_for (\<lambda>x. x) pipe_mem mem t roi_in roi_out in_bpp out_bpp)) * real (max in_bpp out_bpp) * max (tl_maxbuf t) 1
    \<le> singlebuffer_for (\<lambda>x. x) pipe_mem mem t roi_in roi_out in_bpp out_bpp"
proof -
  define g where "g = grid_for (\<lambda>x. x) pipe_mem mem t roi_in roi_out in_bpp out_bpp"
  define sb where "sb = singlebuffer_for (\<lambda>x. x) pipe_mem mem t roi_in roi_out in_bpp out_bpp"
  define k where "k = real (max in_bpp out_bpp) * max (tl_maxbuf t) 1"
  obtain w h where wh: "shrink_tile (\<lambda>x. x) sb t (max in_bpp out_bpp) (roi_width roi_in) (roi_height roi_in) = (w, h)" by fastforce
  obtain w2 h2 where wh2: "square_tile (\<lambda>x. x) (tl_overlap t) (w, h) = (w2, h2)" by fastforce
  have "real (tg_width g * tg_height g) * k \<le> real (w2 * h2) * k"
    using wh wh2 by (intro mult_right_mono of_nat_mono mult_le_mono)
      (auto simp: g_def grid_for_def Let_def k_def sb_def align_tile_def)
  also have "\<dots> \<le> real (w * h) * k" using square_tile_area [OF wh2] by (intro mult_right_mono) (auto simp: k_def)
  also have "\<dots> \<le> sb"
    using shrink_tile_area [OF wh, folded k_def] singlebuffer_nonneg [of "\<lambda>x. x"] by (simp add: sb_def)
  finally show ?thesis by (simp add: k_def sb_def g_def mult.assoc)
qed

end
