(* ===== verification/Spec2Isabelle.thy ===== *)
theory Spec2Isabelle
  imports Undo Lru_Cache Pixelpipe_Cache Jobs Iop_Order_Modules Dng_Opcode Calculator History_Undo Pipe_Nodes Image_Marks Pipe_Process Tiling
begin

text \<open>
  \<^bold>\<open>A verification development for DarkTableNext.\<close>

  DarkTableNext develops raw photographs. The image processing itself is floating point arithmetic on
  buffers; this development models the discrete machinery around it that decides \<^emph>\<open>what\<close> is computed, in which
  order, what is kept, and what can be undone. File names are relative to \<open>src/src\<close>.

  \<^bold>\<open>The parts and how they interact.\<close> A develop session holds the modules and a stack of history items; an edit pushes or changes an
  item, going to another state replays the items below it (\<open>Develop_History\<close>). The items carry the shapes of the masks
  (\<open>Masks_Groups\<close>). The nodes of a pixel pipe follow that history (\<open>Pipe_Nodes\<close>), the pipe runs its modules over the pixelpipe cache, which keeps
  the buffers between them (\<open>Pipe_Process\<close> on \<open>Pixelpipe_Cache\<close>); a module that needs too much memory is processed in tiles (\<open>Tiling\<close>). The order of the modules in a pipe is a list of entries
  (\<open>Iop_Order_List\<close>) that is stored with the image and kept in step with the modules of the session
  (\<open>Iop_Order_Modules\<close>). The history is written to and read from the library database, where lighttable actions delete, compress and copy it
  (\<open>History_Db\<close>); ratings, colour labels and groups are kept there too (\<open>Image_Marks\<close>). What the lighttable does can be undone
  through the undo manager (\<open>Undo\<close>), whose clients they are (\<open>History_Undo\<close>, \<open>Image_Marks\<close> and the property of this theory).
  Images and thumbnails are kept by the least-recently-used cache (\<open>Lru_Cache\<close>). Long work runs as jobs (\<open>Jobs\<close>). Two small
  parsers stand beside: the opcode lists of DNG files (\<open>Dng_Opcode\<close>) and the calculator of the sliders (\<open>Calculator\<close>).

  \<^bold>\<open>The theories.\<close> Definitions bear the names of the C functions, less a leading underscore.

  \<^item> \<open>Prelude\<close>: C strings of a fixed size, stable sorting with a comparison function (\<open>g_list_sort\<close>), floats as
    bits, and two interfaces. The locale \<open>gcompare\<close> is a comparison function that agrees with a key; it is interpreted on
    the comparison functions of image numbers, order entries and modules. The locale \<open>invariant_system\<close> is a
    transition system with an inductive invariant; it is interpreted on the step relations of the undo manager, the two caches, the jobs,
    the develop session and the groups.
    The collections \<open>dt_invs\<close> and \<open>dt_frames\<close> gather what operations keep and leave unchanged.

  \<^item> \<open>Undo\<close> (\<open>common/undo.c\<close>): the two lists, groups, undo and redo by filter with the half-second rule. Shown: undo
    and redo of a group are inverse when the callbacks are, the time line of the items never changes, no datum is freed twice, and
    \<open>dt_undo_clear\<close> drops more than its filter says. The locale \<open>undo_client\<close> is what a client that records one item per action promises
    (its callback gives the view of the state back), with what undoing gives it; \<open>redo_client\<close> adds the redo, and \<open>snapshot_client\<close> is
    the client whose data are snapshots. They are interpreted on the ratings, the colour labels and the deleted histories.

  \<^item> \<open>Lru_Cache\<close> (\<open>common/cache.c\<close>): look-up, insertion, eviction, removal and release with the reader/writer
    locks of the entries. Shown: the invariant of hash table, list and cost over all interleavings of atomic steps; an entry that is held
    survives whatever other threads request, each request in its own mode (locales \<open>keyed_cache\<close> and \<open>keyed_cache_remove\<close>); what \<open>dt_cache_get\<close> and \<open>dt_cache_gc\<close> do.

  \<^item> \<open>Pixelpipe_Cache\<close> (\<open>develop/pixelpipe_cache.c\<close>): the lines, their ages, the choice of a victim, the memory limit, the
    marking of lines as invalid (locale \<open>line_marking\<close>, with five interpretations) and the hash of a node. Shown: what was requested is found
    by the next request, the accounting of memory, the loop that frees lines ends below the limit, and what the hash depends on.

  \<^item> \<open>Jobs\<close> (\<open>control/jobs.c\<close>, \<open>control/progress.c\<close>): five queues, reserved workers, priorities, deduplication, disposal, and the
    progress objects through which the panel cancels jobs. Jobs and progress objects live in heaps in which an access to a freed one, reads
    included, is visible. Shown: no such access in any interleaving of the critical sections, one export at a
    time, the bounds of the queues, the choice the scheduler makes, and that a worker executes and frees the jobs that were queued.

  \<^item> \<open>Iop_Order_List\<close> (\<open>common/iop_order.c\<close>): built-in orders, kinds, text and binary form (locale
    \<open>iop_list_codec\<close>, interpreted on both), database rows, merging of multiple instances. Shown: the round trips, the kind, renumbering
    and merging, and the sort of the fallback list that breaks the order.

  \<^item> \<open>Iop_Order_Modules\<close> (\<open>common/iop_order.c\<close>, \<open>develop/imageop.c\<close>): resynchronisation, moves with rules and fences, instances,
    duplicates. Shown: \<open>dt_ioppr_move_iop_before\<close> implements the move on the abstract list, a move that is allowed keeps rules and
    fences, and three defects (an uninitialised pointer, a check that never reports, a loop that need not end).

  \<^item> \<open>Dng_Opcode\<close> (\<open>common/dng_opcode.c\<close>): the two parsers over bytes. The locale \<open>opcode_handler\<close> is shared by both. Shown:
    they read back what an encoder writes, gain maps below 2 GiB (beyond, the index of the code overflows), and they read past the end of a damaged list.

  \<^item> \<open>Calculator\<close> (\<open>common/calculator.c\<close>): scanner and recursive descent parser. Shown: the result is the value of the expression by
    the grammar for every text that spells its symbols, with or without blanks (\<open>spells\<close>), and the function always returns.

  \<^item> \<open>History_Db\<close> (\<open>common/history.c\<close>, \<open>common/history_snapshot.c\<close>): the tables, the statements with the semantics of \<open>NULL\<close>, transactions,
    the history hash, snapshots, deletion, compression, truncation. Shown: compression implements an operation on abstract stacks, and
    two ways in which it changes the image.

  \<^item> \<open>History_Undo\<close>: snapshots hold the view of an image, restoring gives it back, and they are a client of the undo manager.

  \<^item> \<open>Develop_History\<close> (\<open>develop/develop.c\<close>): the history stack of a session. Shown: what adding an item does in each case, going to a state
    implements the replay of the items below it, edits keep earlier states and keep the modules in step with the history except for items
    that are kept above its end, and what is written to the tables are the items, column by column, and their shapes.

  \<^item> \<open>Masks_Groups\<close> (\<open>develop/masks/masks.c\<close>): shapes, groups of shapes, their numbers and their hash. Shown: groups never contain themselves,
    so the recursions return (the search counts in 32 bits, the number of ways it counts is \<open>group_ways\<close>); the cleanup keeps what is used, unless numbers of masks that are gone take its place; saved shapes are read back.

  \<^item> \<open>Pipe_Nodes\<close> (\<open>develop/pixelpipe_hb.c\<close>, \<open>develop/imageop.c\<close>): the nodes of a pipe and how they follow the history. Shown: synchronising
    all nodes commits the last active item of each module, after an edit the top item is enough, and both an edit and a jump in
    the history reach the pipe through its change flags.

  \<^item> \<open>Pipe_Process\<close> (\<open>develop/pixelpipe_hb.c\<close>, \<open>common/iop_profile.c\<close>): running a pipe on the CPU. The reference is \<open>direct\<close>, which computes the modules
    one after the other without a cache. A module gives pixels and a new description of the pipe, blending a mask display. What is asked of the modules
    is \<open>sound_env\<close>: among it that one which uses the blend cache leaves the description alone, since a hit loses the change
    (\<open>blend_cache_hit_loses_description\<close>). Shown: a run over a coherent cache gives the same pixels and description and leaves the cache coherent, whatever
    was hit, evicted, converted in place or taken from the blend cache; a run that was stopped leaves the bookkeeping intact, and
    declaring the cache obsolete makes it usable again; without that, a node that was stopped is taken for done.

  \<^item> \<open>Tiling\<close> (\<open>develop/tiling.c\<close>): the size of the tiles of a module that keeps pixels in place, and the loop over them with its copies. Shown: for a
    module that looks no further than its overlap the tiles give what the whole gives, so \<open>Pipe_Process\<close> may take a module as one function; the copies
    stay inside the buffers, the tiles fit the memory they were cut for, and tiles not larger than their overlap leave the image unwritten.

  \<^item> \<open>Image_Marks\<close> (\<open>common/ratings.c\<close>, \<open>common/colorlabels.c\<close>, \<open>common/grouping.c\<close>, \<open>common/image.c\<close>): ratings with toggle, colour labels, groups with
    a representative, and the removal of an image, which a local copy that cannot be given up prevents.
    Shown: what the commands give each image, that undo takes it back (and redo of some ratings does not), that every group keeps a representative that is
    its member over all sequences of commands, and that the group command splits the group whose representative is among the images.

  \<^bold>\<open>Conventions and bounds.\<close> A function body that runs under one mutex is one atomic step; interleavings are those of such
  steps. Integers are words where a wrap-around matters (sizes and offsets of \<open>Dng_Opcode\<close>, hashes, flags, comparisons by
  subtraction) and unbounded elsewhere (ages, counters, order numbers, row numbers); the theories say so. Floating point values are bits, reals with a rounding function (\<open>Tiling\<close>) or
  a parameter. Callbacks, allocation results, GLib checksums, the clock and other components are arguments; what an operation calls
  outside of its component is recorded in a log. Fuel occurs in these places: the parser of the calculator takes \<open>5 + 6 * (2 * n + 1)\<close>
  units for a text of \<open>n\<close> characters, which \<open>calculator_returns\<close> shows to be enough, and \<open>check_dup_loop\<close> takes any amount, of which
  \<open>check_duplicate_diverges\<close> shows that none is enough; the recursions over groups of shapes take one unit more than there are shapes, enough for
  groups that do not contain themselves (\<open>group_hash_enough\<close>); the search for a free name (\<open>free_name\<close>) one more than there are names. The renumbering of \<open>dt_history_compress\<close> counts its iterations down.

  \<^bold>\<open>Not modelled.\<close> The thread bodies and condition variables of the jobs; SQLite beyond the statements used (an input/output
  error of the database does not occur); copying and pasting of histories between develop sessions and the texts of history
  lists; reading a history with parameters of older versions and automatic presets, styles; the tiles of modules that move pixels or are flagged \<open>IOP_FLAGS_TILING_FULL_ROI\<close>; the groups an import forms by base name; OpenCL, histograms and colour pickers of a pipe; what the
  processing modules (\<open>iop\<close>) compute, the geometry of shapes and blending, codecs and metadata, which are floating point or third-party code;
  the user interface. What would come next: the presets applied when an image is opened, the lists of images of the lighttable (\<open>common/selection.c\<close>,
  \<open>common/collection.c\<close>), and the choice of an OpenCL device for a pipe.
\<close>


text \<open>
  C6: undoing the deletion of a history brings it back. After \<open>dt_history_delete_on_image\<close>, \<open>dt_undo_do_undo\<close> gives
  the image the active items, the masks, the module order and the \<open>history_end\<close> that it had before (of a history whose
  end is 0 nothing is active, and the module order is not restored), the list of the undo manager is as before the
  deletion, and the image is reported as changed. The hypotheses: the image has a valid number and a row; no group is open in the undo manager
  and recording is not disabled; the filter of the undo covers the history; the snapshot tables name no snapshot that is not in use, the darkroom does not
  touch them, and no item that could be redone owns the number of the new snapshot. And the history has an active item or its end is 0:
  an image whose end is above 0 with no row below it is not covered.
\<close>

theorem deleted_history_comes_back:
  assumes "dt_is_valid_imgid imgid" and "t_images (db L) imgid \<noteq> None" and "snapshots_ok (db L) imgid"
    and "read_history_end (db L) imgid = 0 \<or> active_rows (db L) imgid \<noteq> []" and "reload_keeps_snapshots E imgid"
    and "group U = DT_UNDO_NONE" and "\<not> disable_next U"
    and "\<forall>d\<in>set (free_undo_data (redo_list U)). spares imgid (next_snap_id (db L) imgid) d"
    and "dt_history_delete_on_image E ts imgid (L, U) = Some (L1, U1)"
    and "DT_UNDO_LT_HISTORY AND filt \<noteq> 0" and "dt_undo_do_undo U1 filt L1 = (U2, L2, imgs)"
  shows "image_view (db L2) imgid = snapshot_view (db L) imgid \<and> undo_list U2 = undo_list U \<and> imgs = [imgid]"
proof -
  from deleted_record [OF assms(1-9)] obtain hist where hist: "lt_imgid hist = imgid"
    "lt_before_history_end hist = read_history_end (db L) imgid" "history_client.recorded E U hist ts = Some U1"
    and "snapshot_holds imgid (lt_before hist) (db L1) (snapshot_view (db L) imgid)" by blast
  then have "dt_is_valid_imgid (lt_imgid hist) \<and> fst (snapshot_view (db L) imgid) = lt_before_history_end hist \<and>
      snapshot_holds (lt_imgid hist) (lt_before hist) (db L1) (snapshot_view (db L) imgid)"
    using assms(1) by (simp add: snapshot_view_def image_view_def)
  from history_client.undo_recorded(1,2) [OF assms(6,7) hist(3) assms(10) this assms(11)]
    history_client.undo_recorded_image [OF assms(6,7) hist(3) assms(10) this assms(11)] hist(1)
  show ?thesis by simp
qed

theorem deleted_history_comes_back_witness:
  "let L = example_library [example_row 0 ''exposure'' [1], example_row 1 ''sharpen'' [5]] [example_mask 0 7] 2
   in \<exists>L1 U1 U2 L2. dt_history_delete_on_image example_env (0, 0, 0) 1 (L, dt_undo_init) = Some (L1, U1) \<and>
     dt_undo_do_undo U1 DT_UNDO_LIGHTTABLE L1 = (U2, L2, [1]) \<and> undo_list U2 = [] \<and>
     image_view (db L2) 1 = (2, [example_row 0 ''exposure'' [1], example_row 1 ''sharpen'' [5]], [example_mask 0 7],
       Some (DT_IOP_ORDER_RAW, None))"
proof -
  define L where "L = example_library [example_row 0 ''exposure'' [1], example_row 1 ''sharpen'' [5]] [example_mask 0 7] 2"
  have v: "dt_is_valid_imgid 1" and e: "read_history_end (db L) 1 = 2" and im: "t_images (db L) 1 \<noteq> None"
    and ok: "snapshots_ok (db L) 1" and act: "read_history_end (db L) 1 = 0 \<or> active_rows (db L) 1 \<noteq> []"
    by (simp_all add: L_def example_defs snapshots_ok_def active_rows_def)
  have rk: "reload_keeps_snapshots example_env 1" by (simp add: reload_keeps_snapshots_def example_env_def)
  have U: "group (dt_undo_init :: lt_undo) = DT_UNDO_NONE" "\<not> disable_next (dt_undo_init :: lt_undo)"
    "\<forall>d\<in>set (free_undo_data (redo_list (dt_undo_init :: lt_undo))). spares 1 (next_snap_id (db L) 1) d"
    by (simp_all add: dt_undo_init_def free_undo_data_def)
  have f: "DT_UNDO_LT_HISTORY AND DT_UNDO_LIGHTTABLE \<noteq> 0" by (simp add: undo_type_defs)
  have "dt_history_delete_on_image example_env (0, 0, 0) 1 (L, dt_undo_init) \<noteq> None"
    using v by (simp add: dt_history_delete_on_image_def dt_history_delete_on_image_ext_def Let_def record_lt_history_def
        dt_undo_end_group_def dt_undo_start_group_def dt_undo_record_def undo_record_def dt_undo_init_def
        split: prod.splits)
  then obtain L1 U1 where d: "dt_history_delete_on_image example_env (0, 0, 0) 1 (L, dt_undo_init) = Some (L1, U1)" by auto
  obtain U2 L2 imgs where u: "dt_undo_do_undo U1 DT_UNDO_LIGHTTABLE L1 = (U2, L2, imgs)" by (metis prod_cases3)
  have "snapshot_view (db L) 1 = (2, [example_row 0 ''exposure'' [1], example_row 1 ''sharpen'' [5]], [example_mask 0 7],
       Some (DT_IOP_ORDER_RAW, None))"
    by (simp add: L_def snapshot_view_def image_view_def active_rows_def active_masks_def example_defs)
  with deleted_history_comes_back [OF v im ok act rk U d f u] d u
  show ?thesis by (simp add: L_def [symmetric] dt_undo_init_def)
qed

end
